(* ===== verification/Prelude.thy ===== *)
theory Prelude
  imports Main "HOL-Library.Word" "HOL-Library.Tree"
begin

text \<open>
  Shared vocabulary of the development: the C integer types of the driver as words, the kernel's
  error numbers, the kernel services the driver calls and this repository does not contain
  (\<^verbatim>\<open>lib/rbtree.c\<close>, \<^verbatim>\<open>lib/idr.c\<close>), and generic lemmas on words, lists and trees.

  Kernel services are parameters of the model: a value of type \<open>rb_ops\<close> or \<open>idr_alloc\<close> is an
  argument of every definition that uses one, and \<open>rb_ok\<close> / \<open>idr_ok\<close> name the documented
  behaviour that the driver relies on. \<open>plain_rb\<close> and \<open>idr_lowest\<close> are concrete functions with
  that behaviour; they show that the hypotheses can hold and let closed examples evaluate.
\<close>

section \<open>C integers and error numbers\<close>

type_synonym u16 = "16 word"
type_synonym u32 = "32 word"
type_synonym u64 = "64 word"

text \<open>Return codes are C \<^verbatim>\<open>int\<close> values, modelled as \<open>int\<close>; an error is the negated number.\<close>

abbreviation (input) EPERM :: int where "EPERM \<equiv> 1"
abbreviation (input) ENOENT :: int where "ENOENT \<equiv> 2"
abbreviation (input) ESRCH :: int where "ESRCH \<equiv> 3"
abbreviation (input) ENXIO :: int where "ENXIO \<equiv> 6"
abbreviation (input) ENOMEM :: int where "ENOMEM \<equiv> 12"
abbreviation (input) EFAULT :: int where "EFAULT \<equiv> 14"
abbreviation (input) EBUSY :: int where "EBUSY \<equiv> 16"
abbreviation (input) ENODEV :: int where "ENODEV \<equiv> 19"
abbreviation (input) EINVAL :: int where "EINVAL \<equiv> 22"
abbreviation (input) ENOSPC :: int where "ENOSPC \<equiv> 28"
abbreviation (input) EBADR :: int where "EBADR \<equiv> 53"
abbreviation (input) EOVERFLOW :: int where "EOVERFLOW \<equiv> 75"

abbreviation (input) INT_MAX :: int where "INT_MAX \<equiv> 2147483647"

text \<open>The id types of \<^verbatim>\<open>trs_pub_def.h\<close>.\<close>

abbreviation (input) TRS_STREAM_ID :: int where "TRS_STREAM_ID \<equiv> 0"
abbreviation (input) TRS_EVENT_ID :: int where "TRS_EVENT_ID \<equiv> 1"
abbreviation (input) TRS_HW_SQ_ID :: int where "TRS_HW_SQ_ID \<equiv> 5"
abbreviation (input) TRS_HW_CQ_ID :: int where "TRS_HW_CQ_ID \<equiv> 6"
abbreviation (input) TRS_RSV_HW_SQ_ID :: int where "TRS_RSV_HW_SQ_ID \<equiv> 9"
abbreviation (input) TRS_RSV_HW_CQ_ID :: int where "TRS_RSV_HW_CQ_ID \<equiv> 10"
abbreviation (input) TRS_TASK_SCHED_CQ_ID :: int where "TRS_TASK_SCHED_CQ_ID \<equiv> 11"
abbreviation (input) TRS_LOGIC_CQ_ID :: int where "TRS_LOGIC_CQ_ID \<equiv> 15"
abbreviation (input) TRS_CB_SQ_ID :: int where "TRS_CB_SQ_ID \<equiv> 16"
abbreviation (input) TRS_CB_CQ_ID :: int where "TRS_CB_CQ_ID \<equiv> 17"
abbreviation (input) TRS_CDQM_ID :: int where "TRS_CDQM_ID \<equiv> 18"
abbreviation (input) TRS_ID_TYPE_MAX :: int where "TRS_ID_TYPE_MAX \<equiv> 19"

named_theorems inv_simps \<open>unfolding rules of the component invariants\<close>
named_theorems inv_intros \<open>preservation lemmas of the component invariants\<close>

section \<open>Lemmas on words\<close>

lemma word_no_wrap_add:
  fixes a b :: "'a::len word"
  assumes "a \<le> a + b"
  shows "unat (a + b) = unat a + unat b"
  using assms by (metis no_olen_add_nat unat_plus_simple)

lemma word_wrap_add:
  fixes a b :: "'a::len word"
  assumes "a + b < a"
  shows "2 ^ LENGTH('a) \<le> unat a + unat b"
proof (rule ccontr)
  assume "\<not> ?thesis"
  then have "unat (a + b) = unat a + unat b" by (simp add: unat_word_ariths)
  with assms show False by (simp add: word_less_nat_alt)
qed

lemma word_add_less_iff:
  fixes a b :: "'a::len word"
  shows "b \<noteq> 0 \<Longrightarrow> (a < a + b) = (a \<le> a + b)"
  by (metis add_cancel_right_right order_le_less)

lemma unat_Suc_less:
  fixes a b :: "'a::len word"
  assumes "a < b"
  shows "unat (a + 1) = Suc (unat a)"
proof -
  have "unat a < unat b" using assms by (simp add: word_less_nat_alt)
  also have "unat b < 2 ^ LENGTH('a)" by (rule unsigned_less)
  finally have "a + 1 \<noteq> 0" using assms
    by (metis add_eq_0_iff2 linorder_not_less max_word_max word_order.extremum)
  then show ?thesis by (metis add.commute unatSuc)
qed

lemma unat_pred:
  fixes a :: "'a::len word"
  assumes "a \<noteq> 0"
  shows "unat (a - 1) = unat a - 1"
  using assms by (rule unat_minus_one)

lemma card_word_interval:
  fixes a b :: "'a::len word"
  assumes "a \<le> b"
  shows "card {a ..< b} = unat b - unat a"
proof -
  have "unat ` {a ..< b} = {unat a ..< unat b}"
  proof (intro set_eqI iffI)
    fix k assume "k \<in> {unat a ..< unat b}"
    then have k: "unat a \<le> k" "k < unat b" by auto
    have lt: "k < 2 ^ LENGTH('a)" using k(2) unsigned_less [of b, where ?'a = nat] by linarith
    have "unat (word_of_nat k :: 'a word) = k" using lt by (simp add: unat_of_nat)
    then have "(word_of_nat k :: 'a word) \<in> {a ..< b}" "unat (word_of_nat k :: 'a word) = k"
      using k by (auto simp: word_le_nat_alt word_less_nat_alt)
    then show "k \<in> unat ` {a ..< b}" by (metis imageI)
  qed (auto simp: word_le_nat_alt word_less_nat_alt)
  then have "card (unat ` {a ..< b}) = unat b - unat a" by simp
  moreover have "inj_on unat {a ..< b}" by (simp add: inj_on_def word_unat_eq_iff)
  ultimately show ?thesis by (metis card_image)
qed

section \<open>Lemmas on lists\<close>

lemma sorted_wrt_map_cong:
  assumes "\<And>x y. x \<in> set xs \<Longrightarrow> y \<in> set xs \<Longrightarrow> P (f x) (f y) = P x y"
  shows "sorted_wrt P (map f xs) = sorted_wrt P xs"
  using assms by (induction xs) auto

lemma sorted_wrt_remove1: "sorted_wrt P xs \<Longrightarrow> sorted_wrt P (remove1 x xs)"
  by (induction xs) (auto dest: set_remove1_subset [THEN subsetD])

lemma sum_list_remove1:
  fixes f :: "'a \<Rightarrow> nat"
  assumes "x \<in> set xs"
  shows "f x + sum_list (map f (remove1 x xs)) = sum_list (map f xs)"
  using assms by (induction xs) auto

lemma sum_list_map_upd:
  fixes f :: "'a \<Rightarrow> nat"
  assumes "distinct xs" "x \<in> set xs"
  shows "sum_list (map f (map (\<lambda>y. if y = x then x' else y) xs)) + f x = sum_list (map f xs) + f x'"
  using assms
proof (induction xs)
  case (Cons a xs)
  show ?case
  proof (cases "a = x")
    case True
    with Cons.prems have "map (\<lambda>y. if y = x then x' else y) xs = xs" by (intro map_idI) auto
    with True show ?thesis by simp
  next
    case False
    with Cons show ?thesis by simp
  qed
qed simp

lemma find_filter: "List.find P xs = (case filter P xs of [] \<Rightarrow> None | x # _ \<Rightarrow> Some x)"
  by (induction xs) auto

section \<open>Kernel red-black trees\<close>

text \<open>
  A kernel \<^verbatim>\<open>struct rb_root\<close> is a binary search tree whose descents (\<^verbatim>\<open>rb_left\<close>, \<^verbatim>\<open>rb_right\<close>)
  and \<^verbatim>\<open>rb_link_node\<close> the driver writes itself, while \<^verbatim>\<open>rb_insert_color\<close> (rebalancing after a
  node has been linked) and \<^verbatim>\<open>rb_erase\<close> are the kernel's. \<^verbatim>\<open>rb_first\<close> / \<^verbatim>\<open>rb_next\<close> iterate the
  nodes in order: \<open>inorder\<close>.
\<close>

declare set_inorder [simp del]

record 'a rb_ops =
  rb_insert_color :: "'a tree \<Rightarrow> 'a tree"
  rb_erase :: "'a \<Rightarrow> 'a tree \<Rightarrow> 'a tree"

definition rb_ok :: "'a rb_ops \<Rightarrow> bool" where
  "rb_ok rb \<longleftrightarrow>
     (\<forall>t. inorder (rb_insert_color rb t) = inorder t) \<and>
     (\<forall>x t. distinct (inorder t) \<longrightarrow> x \<in> set (inorder t) \<longrightarrow>
        inorder (rb_erase rb x t) = remove1 x (inorder t))"

lemma rb_ok_insert_color: "rb_ok rb \<Longrightarrow> inorder (rb_insert_color rb t) = inorder t"
  by (simp add: rb_ok_def)

lemma rb_ok_erase:
  "rb_ok rb \<Longrightarrow> distinct (inorder t) \<Longrightarrow> x \<in> set (inorder t) \<Longrightarrow>
   inorder (rb_erase rb x t) = remove1 x (inorder t)"
  by (simp add: rb_ok_def)

fun tree_append :: "'a tree \<Rightarrow> 'a tree \<Rightarrow> 'a tree" where
  "tree_append Leaf u = u"
| "tree_append (Node l a r) u = Node l a (tree_append r u)"

fun tree_erase :: "'a \<Rightarrow> 'a tree \<Rightarrow> 'a tree" where
  "tree_erase x Leaf = Leaf"
| "tree_erase x (Node l a r) =
     (if x = a then tree_append l r
      else if x \<in> set (inorder l) then Node (tree_erase x l) a r
      else Node l a (tree_erase x r))"

definition plain_rb :: "'a rb_ops" where
  "plain_rb = \<lparr>rb_insert_color = (\<lambda>t. t), rb_erase = tree_erase\<rparr>"

lemma inorder_tree_append [simp]: "inorder (tree_append t u) = inorder t @ inorder u"
  by (induction t) auto

lemma inorder_tree_erase [simp]: "distinct (inorder t) \<Longrightarrow> inorder (tree_erase x t) = remove1 x (inorder t)"
  by (induction t) (auto simp: remove1_append remove1_idem)

lemma plain_rb_ok: "rb_ok plain_rb"
  by (simp add: rb_ok_def plain_rb_def)

section \<open>Kernel id allocator\<close>

text \<open>
  \<^verbatim>\<open>struct idr\<close> maps ids to pointers. The driver stores the same pointer under every id, so the
  state of an \<^verbatim>\<open>idr\<close> is the set of ids in use. \<^verbatim>\<open>idr_alloc(idr, ptr, start, end, gfp)\<close> chooses an
  unused id: a parameter \<open>ida used start end\<close> whose result is the id or a negative error. The
  documented behaviour: \<^verbatim>\<open>start < 0\<close> is \<^verbatim>\<open>-EINVAL\<close>; \<^verbatim>\<open>end <= 0\<close> means one more than \<^verbatim>\<open>INT_MAX\<close>;
  \<^verbatim>\<open>-ENOSPC\<close> is returned when no id of the range is free, and \<^verbatim>\<open>-ENOMEM\<close> when memory runs out.
\<close>

type_synonym idr_alloc = "u32 set \<Rightarrow> int \<Rightarrow> int \<Rightarrow> int"

definition idr_limit :: "int \<Rightarrow> int" where
  "idr_limit e = (if 0 < e then e else INT_MAX + 1)"

definition idr_ok :: "idr_alloc \<Rightarrow> bool" where
  "idr_ok ida \<longleftrightarrow> (\<forall>used s e.
     (s < 0 \<longrightarrow> ida used s e = - EINVAL) \<and>
     (0 \<le> ida used s e \<longrightarrow>
        s \<le> ida used s e \<and> ida used s e < idr_limit e \<and> word_of_int (ida used s e) \<notin> used) \<and>
     (0 \<le> s \<longrightarrow> ida used s e < 0 \<longrightarrow>
        ida used s e = - ENOMEM \<or>
        ida used s e = - ENOSPC \<and> (\<forall>i. s \<le> i \<and> i < idr_limit e \<longrightarrow> word_of_int i \<in> used)))"

definition idr_lowest :: idr_alloc where
  "idr_lowest used s e =
     (if s < 0 then - EINVAL
      else case List.find (\<lambda>i. word_of_int i \<notin> used) [s .. idr_limit e - 1] of
        None \<Rightarrow> - ENOSPC | Some i \<Rightarrow> i)"

lemma idr_lowest_ok: "idr_ok idr_lowest"
  unfolding idr_ok_def idr_lowest_def
  by (auto split: option.splits simp: find_None_iff find_Some_iff dest!: nth_mem)

lemma idr_ok_neg: "idr_ok ida \<Longrightarrow> s < 0 \<Longrightarrow> ida used s e = - EINVAL"
  by (simp add: idr_ok_def)

lemma idr_ok_pos:
  "idr_ok ida \<Longrightarrow> 0 \<le> ida used s e \<Longrightarrow>
   0 \<le> s \<and> s \<le> ida used s e \<and> ida used s e < idr_limit e \<and> word_of_int (ida used s e) \<notin> used"
  unfolding idr_ok_def by (metis linorder_not_le neg_0_le_iff_le not_numeral_le_zero)

lemma idr_ok_fail:
  "idr_ok ida \<Longrightarrow> 0 \<le> s \<Longrightarrow> ida used s e < 0 \<Longrightarrow> ida used s e \<noteq> - ENOMEM \<Longrightarrow>
   s \<le> i \<Longrightarrow> i < idr_limit e \<Longrightarrow> word_of_int i \<in> used"
  unfolding idr_ok_def by blast

lemma sint_u32: "sint (w :: u32) = (if uint w < 2147483648 then uint w else uint w - 4294967296)"
proof -
  have lt: "uint w < 4294967296" using uint_bounded [of w] by simp
  show ?thesis
  proof (cases "uint w < 2147483648")
    case True
    moreover have "- 2147483648 \<le> uint w" using uint_nonnegative [of w] by linarith
    ultimately show ?thesis by (simp add: sint_uint signed_take_bit_int_eq_self)
  next
    case False
    have "(uint w + 2147483648) mod 4294967296 = (uint w - 2147483648 + 4294967296) mod 4294967296"
      by (simp add: add.commute)
    also have "\<dots> = uint w - 2147483648" using False lt by (simp only: mod_add_self2) simp
    finally show ?thesis using False
      by (simp add: sint_uint signed_take_bit_int_eq_self_iff signed_take_bit_eq_take_bit_shift take_bit_int_eq_self_iff take_bit_eq_mod)
  qed
qed

lemma idr_alloc_in_range:
  assumes "idr_ok ida" "s < (e::u32)" "0 \<le> ida used (sint s) (sint e)"
  shows "word_of_int (ida used (sint s) (sint e)) \<in> {s ..< e} - used"
proof -
  let ?r = "ida used (sint s) (sint e)"
  have r: "0 \<le> sint s" "sint s \<le> ?r" "?r < idr_limit (sint e)" "word_of_int ?r \<notin> used"
    using idr_ok_pos [OF assms(1,3)] by auto
  have se: "uint s < uint e" using assms(2) by (simp add: word_less_def)
  have s: "sint s = uint s" using r(1) uint_bounded [of s] by (auto simp: sint_u32 split: if_splits)
  have "0 < uint e" using se uint_nonnegative [of s] by linarith
  then have re: "?r < uint e" "?r < 4294967296" using r(3) se uint_bounded [of e]
    by (auto simp: idr_limit_def sint_u32 split: if_splits)
  have "uint (word_of_int ?r :: u32) = ?r" using assms(3) re(2) by (simp add: uint_word_of_int)
  with r s re show ?thesis by (simp add: word_le_def word_less_def)
qed

section \<open>Hash lists\<close>

text \<open>
  A bucket of a kernel hash table is a list of objects; \<open>f\<close> is the field that identifies an object in it. Finding,
  unlinking and writing an object go to the first one with that field.
\<close>

fun hlist_find :: "('a \<Rightarrow> 'k) \<Rightarrow> 'k \<Rightarrow> 'a list \<Rightarrow> 'a option" where
  "hlist_find f k [] = None"
| "hlist_find f k (x # xs) = (if f x = k then Some x else hlist_find f k xs)"

fun hlist_del :: "('a \<Rightarrow> 'k) \<Rightarrow> 'k \<Rightarrow> 'a list \<Rightarrow> 'a list" where
  "hlist_del f k [] = []"
| "hlist_del f k (x # xs) = (if f x = k then xs else x # hlist_del f k xs)"

fun hlist_set :: "('a \<Rightarrow> 'k) \<Rightarrow> 'a \<Rightarrow> 'a list \<Rightarrow> 'a list" where
  "hlist_set f y [] = []"
| "hlist_set f y (x # xs) = (if f x = f y then y # xs else x # hlist_set f y xs)"

lemma hlist_find_Some: "hlist_find f k xs = Some x \<Longrightarrow> x \<in> set xs \<and> f x = k"
  by (induction xs) (auto split: if_splits)

lemma hlist_find_None: "hlist_find f k xs = None \<longleftrightarrow> (\<forall>x \<in> set xs. f x \<noteq> k)"
  by (induction xs) auto

lemma hlist_find_distinct: "distinct (map f xs) \<Longrightarrow> x \<in> set xs \<Longrightarrow> hlist_find f (f x) xs = Some x"
  by (induction xs) auto

lemma hlist_find_tl: "distinct (map f (x # xs)) \<Longrightarrow> hlist_find f (f x) xs = None"
  by (auto simp: hlist_find_None image_iff)

lemma hlist_find_del:
  "distinct (map f xs) \<Longrightarrow> hlist_find f k (hlist_del f j xs) = (if k = j then None else hlist_find f k xs)"
proof (induction xs)
  case (Cons a xs)
  have "\<forall>x \<in> set xs. f x \<noteq> f a" using Cons.prems by (auto simp: image_iff)
  then have "hlist_find f (f a) xs = None" by (simp add: hlist_find_None)
  then show ?case using Cons by auto
qed simp

lemma hlist_del_set: "set (hlist_del f k xs) \<subseteq> set xs"
  by (induction xs) auto

lemma hlist_del_distinct: "distinct (map f xs) \<Longrightarrow> distinct (map f (hlist_del f k xs))"
  using hlist_del_set by (induction xs) fastforce+

lemma hlist_find_set:
  "hlist_find f k (hlist_set f y xs) = (if k = f y \<and> hlist_find f k xs \<noteq> None then Some y else hlist_find f k xs)"
  by (induction xs) auto

lemma hlist_set_set: "set (hlist_set f y xs) \<subseteq> insert y (set xs)"
  by (induction xs) auto

lemma hlist_set_names: "map f (hlist_set f y xs) = map f xs"
  by (induction xs) auto

end
