(* ===== verification/Shr_Name.thy ===== *)
theory Shr_Name
  imports Prelude
begin

unbundle bit_operations_syntax

text \<open>
  The names of shared ids, \<^verbatim>\<open>rms/trs_drv/shr_id\<close>: a name is a buffer of 65 bytes that holds five
  hexadecimal numbers of eight digits and a terminating zero. This theory holds C strings in buffers, the hash of
  names, the printing of names, and their parsing with \<^verbatim>\<open>sscanf_s\<close> of \<^verbatim>\<open>src/libc_sec\<close>.
\<close>

section \<open>C strings in buffers\<close>

abbreviation (input) NUL :: char where "NUL \<equiv> CHR 0x00"
abbreviation (input) SHR_ID_NSM_NAME_SIZE :: nat where "SHR_ID_NSM_NAME_SIZE \<equiv> 65"
abbreviation (input) SHR_ID_TYPE_MAX :: int where "SHR_ID_TYPE_MAX \<equiv> 2"

text \<open>
  The string a buffer holds. \<^verbatim>\<open>strlen\<close> is the length of it, \<^verbatim>\<open>strcmp\<close> compares it, and a buffer without a zero is
  refused by the length check before either is used.
\<close>

definition cstr :: "string \<Rightarrow> string" where
  "cstr buf = takeWhile (\<lambda>c. c \<noteq> NUL) buf"

definition strnlen :: "string \<Rightarrow> nat \<Rightarrow> nat" where
  "strnlen buf n = length (cstr (take n buf))"

section \<open>The hash\<close>

fun elfhash_loop :: "u32 \<Rightarrow> string \<Rightarrow> nat \<Rightarrow> u32" where
  "elfhash_loop key [] n = key"
| "elfhash_loop key (c # cs) n =
     (if c \<noteq> NUL \<and> 0 < n
      then let key1 = push_bit 4 key + of_char c;
               tmp_hash = key1 AND 0xF0000000;
               key2 = (if tmp_hash = 0 then (key1 XOR drop_bit 24 tmp_hash) XOR tmp_hash else key1)
           in elfhash_loop key2 cs (n - 1)
      else key)"

definition get_elfhash_key :: "string \<Rightarrow> nat \<Rightarrow> u32" where
  "get_elfhash_key name len = elfhash_loop 0 name len"

definition name_key :: "string \<Rightarrow> u32" where
  "name_key name = get_elfhash_key name (length (cstr name) + 1)"

section \<open>Printing\<close>

text \<open>\<^verbatim>\<open>%08x\<close> of a 32 bit value.\<close>

definition hex_digit :: "nat \<Rightarrow> char" where
  "hex_digit n = ''0123456789abcdef'' ! n"

fun hex_digits :: "nat \<Rightarrow> nat \<Rightarrow> string" where
  "hex_digits 0 n = []"
| "hex_digits (Suc k) n = hex_digits k (n div 16) @ [hex_digit (n mod 16)]"

definition hex8 :: "u32 \<Rightarrow> string" where
  "hex8 w = hex_digits 8 (unat w)"

definition shr_id_name_generate :: "u32 \<Rightarrow> u32 \<Rightarrow> int \<Rightarrow> u32 \<Rightarrow> u32 \<Rightarrow> string \<Rightarrow> int \<times> string" where
  "shr_id_name_generate devid tsid pid id_type shr_id name =
     (let s = hex8 (word_of_int pid) @ hex8 devid @ hex8 tsid @ hex8 id_type @ hex8 shr_id;
          offset = length s
      in (0, s @ [NUL] @ drop (offset + 1) name))"

section \<open>Parsing\<close>

definition SecIsSpace :: "char \<Rightarrow> bool" where
  "SecIsSpace c = (let n = of_char c :: nat in 9 \<le> n \<and> n \<le> 13 \<or> n = 32 \<or> n = 160)"

definition SecIsXdigit :: "char \<Rightarrow> bool" where
  "SecIsXdigit c = (let n = of_char c :: nat in 48 \<le> n \<and> n \<le> 57 \<or> 65 \<le> n \<and> n \<le> 70 \<or> 97 \<le> n \<and> n \<le> 102)"

definition SecHexValueOfChar :: "char \<Rightarrow> int" where
  "SecHexValueOfChar c =
     (let n = of_char c :: int in if 48 \<le> n \<and> n \<le> 57 then n - 48 else ((n OR 32) - 97) + 10)"

text \<open>
  \<open>SecInputNumberDigital width s number started\<close>: the digits of a number of at most \<open>width\<close> characters, and the
  rest of the input; \<open>None\<close> when there is no digit.
\<close>

fun SecInputNumberDigital :: "nat \<Rightarrow> string \<Rightarrow> u64 \<Rightarrow> bool \<Rightarrow> (u64 \<times> string) option" where
  "SecInputNumberDigital w [] number started = (if started then Some (number, []) else None)"
| "SecInputNumberDigital w (c # cs) number started =
     (if 0 < w \<and> SecIsXdigit c
      then SecInputNumberDigital (w - 1) cs (16 * number + word_of_int (SecHexValueOfChar c)) True
      else if started then Some (number, c # cs) else None)"

text \<open>The conversion \<^verbatim>\<open>%x\<close> with a width, in the kernel, which refuses a negative number.\<close>

definition SecInputNumber :: "nat \<Rightarrow> string \<Rightarrow> (u64 \<times> string) option" where
  "SecInputNumber width s =
     (if s \<noteq> [] \<and> hd s = CHR ''-'' then None
      else let (w, t) = (if s \<noteq> [] \<and> hd s = CHR ''+'' then (width - 1, tl s) else (width, s)) in
      if t \<noteq> [] \<and> hd t = CHR ''0'' \<and> 0 < w
      then (if w - 1 = 0 then Some (0, tl t)
            else if tl t \<noteq> [] \<and> (hd (tl t) = CHR ''x'' \<or> hd (tl t) = CHR ''X'')
            then SecInputNumberDigital (w - 2) (tl (tl t)) 0 False
            else SecInputNumberDigital (w - 1) (tl t) 0 True)
      else SecInputNumberDigital w t 0 False)"

text \<open>\<open>k\<close> conversions \<^verbatim>\<open>%08x\<close> separated by spaces: the values that were stored.\<close>

fun sscanf_hex :: "nat \<Rightarrow> string \<Rightarrow> u32 list" where
  "sscanf_hex 0 s = []"
| "sscanf_hex (Suc k) s =
     (case dropWhile SecIsSpace s of
        [] \<Rightarrow> []
      | c # cs \<Rightarrow> (case SecInputNumber 8 (c # cs) of None \<Rightarrow> [] | Some (n, r) \<Rightarrow> ucast n # sscanf_hex k r))"

text \<open>The second component is \<^verbatim>\<open>*id_type\<close>, when it was written.\<close>

definition shr_id_get_type_by_name :: "string \<Rightarrow> int \<times> int option" where
  "shr_id_get_type_by_name name =
     (let name_len = strnlen name SHR_ID_NSM_NAME_SIZE in
      if name_len = 0 \<or> name_len \<ge> SHR_ID_NSM_NAME_SIZE then (- EINVAL, None)
      else let vs = sscanf_hex 4 (cstr name) in
      if length vs \<noteq> 4 then (- EINVAL, None)
      else let id_type = sint (vs ! 3) in
      if id_type \<ge> SHR_ID_TYPE_MAX \<or> id_type < 0 then (- EINVAL, Some id_type) else (0, Some id_type))"

section \<open>The hash keeps the last eight characters only\<close>

lemma push_bit_4: "push_bit 4 (k :: u32) = 16 * k"
  by (simp add: push_bit_eq_mult)

lemma elfhash_no_fold:
  "elfhash_loop key s n = fold (\<lambda>c k. 16 * k + of_char c) (cstr (take n s)) key"
proof (induction key s n rule: elfhash_loop.induct)
  case (2 key c cs n)
  show ?case
  proof (cases "c \<noteq> NUL \<and> 0 < n")
    case True
    then obtain m where n: "n = Suc m" by (cases n) auto
    let ?k = "push_bit 4 key + of_char c :: u32"
    have fold0: "(if ?k AND 0xF0000000 = 0 then (?k XOR drop_bit 24 (?k AND 0xF0000000)) XOR (?k AND 0xF0000000) else ?k) = ?k"
      by simp
    have "elfhash_loop key (c # cs) n = elfhash_loop ?k cs m" unfolding elfhash_loop.simps Let_def fold0 using True n by simp
    moreover have "elfhash_loop ?k cs m = fold (\<lambda>c k. 16 * k + of_char c) (cstr (take m cs)) ?k"
      using 2 [OF True refl refl refl] unfolding fold0 n by simp
    ultimately show ?thesis using True n by (simp add: cstr_def push_bit_4)
  next
    case False
    then show ?thesis by (cases n) (auto simp: cstr_def)
  qed
qed (simp add: cstr_def)

lemma cstr_take: "length (cstr s) \<le> n \<Longrightarrow> cstr (take n s) = cstr s"
  by (induction s arbitrary: n) (auto simp: cstr_def take_Cons split: nat.splits if_splits)

lemma name_key_fold: "name_key s = fold (\<lambda>c k. 16 * k + of_char c) (cstr s) 0"
  by (simp add: name_key_def get_elfhash_key_def elfhash_no_fold cstr_take)

lemma elfhash_shift:
  "fold (\<lambda>c k. 16 * k + of_char c) s (key :: u32) = 16 ^ length s * key + fold (\<lambda>c k. 16 * k + of_char c) s 0"
proof (induction s arbitrary: key)
  case (Cons c s)
  show ?case using Cons [of "16 * key + of_char c"] Cons [of "of_char c"] by (simp add: algebra_simps)
qed simp

lemma name_key_last8:
  assumes "cstr s = p @ q" "length q = 8"
  shows "name_key s = fold (\<lambda>c k. 16 * k + of_char c) q 0"
proof -
  let ?f = "\<lambda>c k. 16 * k + of_char c :: u32"
  have "fold ?f q (fold ?f p 0) = 16 ^ length q * fold ?f p 0 + fold ?f q 0" by (rule elfhash_shift)
  moreover have "(16 :: u32) ^ length q = 0" using assms(2) by simp
  ultimately show ?thesis using assms(1) by (simp only: name_key_fold fold_append o_apply) simp
qed

section \<open>What is printed is parsed\<close>

lemma less_16_cases:
  "n < (16 :: nat) \<Longrightarrow> n = 14 \<or> n = 3 \<or> n = 9 \<or> n = 15 \<or> n = 0 \<or> n = 7 \<or> n = 12 \<or> n = 1 \<or> n = 10 \<or> n = 5 \<or>
     n = 13 \<or> n = 2 \<or> n = 8 \<or> n = 6 \<or> n = 11 \<or> n = 4"
  by arith

lemma hex_digit_value: "n < 16 \<Longrightarrow> SecHexValueOfChar (hex_digit n) = int n"
  by (drule less_16_cases, elim disjE) (simp_all add: SecHexValueOfChar_def hex_digit_def)

lemma hex_digit_cases:
  assumes "n < 16"
  shows "SecIsXdigit (hex_digit n)" "\<not> SecIsSpace (hex_digit n)" "hex_digit n \<noteq> NUL" "hex_digit n \<noteq> CHR ''-''"
    "hex_digit n \<noteq> CHR ''+''" "hex_digit n \<noteq> CHR ''x''" "hex_digit n \<noteq> CHR ''X''"
  using less_16_cases [OF assms] by (elim disjE; simp add: SecIsXdigit_def SecIsSpace_def hex_digit_def)+

lemma length_hex_digits [simp]: "length (hex_digits k n) = k"
  by (induction k arbitrary: n) auto

lemma hex_digits_chars: "c \<in> set (hex_digits k n) \<Longrightarrow> \<exists>d < 16. c = hex_digit d"
  by (induction k arbitrary: n) (auto intro: exI [of _ "n mod 16" for n])

lemma hex_digits_inj: "hex_digits k n = hex_digits k m \<Longrightarrow> n mod 16 ^ k = m mod 16 ^ k"
proof (induction k arbitrary: n m)
  case (Suc k)
  have eq: "hex_digits k (n div 16) = hex_digits k (m div 16)" "hex_digit (n mod 16) = hex_digit (m mod 16)"
    using Suc.prems by simp_all
  have "int (n mod 16) = int (m mod 16)" using hex_digit_value [of "n mod 16"] hex_digit_value [of "m mod 16"] eq(2)
    by (metis mod_less_divisor zero_less_numeral)
  then have "n mod 16 = m mod 16" by (simp only: of_nat_eq_iff)
  moreover have "n div 16 mod 16 ^ k = m div 16 mod 16 ^ k" by (rule Suc.IH [OF eq(1)])
  ultimately show ?case by (simp add: mod_mult2_eq)
qed simp

lemma length_hex8 [simp]: "length (hex8 w) = 8"
  by (simp add: hex8_def)

lemma hex8_inj [simp]: "hex8 v = hex8 w \<longleftrightarrow> v = w"
proof
  assume "hex8 v = hex8 w"
  then have "unat v mod 16 ^ 8 = unat w mod 16 ^ 8" unfolding hex8_def by (rule hex_digits_inj)
  moreover have "unat v < 16 ^ 8" "unat w < 16 ^ 8" using unsigned_less [of v, where ?'a = nat] unsigned_less [of w, where ?'a = nat] by simp_all
  ultimately show "v = w" by (simp add: word_unat_eq_iff)
qed simp

lemma digital_hex_digits:
  "w \<ge> k \<Longrightarrow> SecInputNumberDigital w (hex_digits k n @ r) a b =
     SecInputNumberDigital (w - k) r (16 ^ k * a + of_nat (n mod 16 ^ k)) (b \<or> 0 < k)"
proof (induction k arbitrary: n r a)
  case (Suc k)
  have split: "n mod 16 ^ Suc k = 16 * (n div 16 mod 16 ^ k) + n mod 16" by (simp add: mod_mult2_eq)
  have "SecInputNumberDigital w (hex_digits (Suc k) n @ r) a b =
      SecInputNumberDigital (w - k) (hex_digit (n mod 16) # r) (16 ^ k * a + of_nat (n div 16 mod 16 ^ k)) (b \<or> 0 < k)"
    using Suc.IH [of "n div 16" "hex_digit (n mod 16) # r" a] Suc.prems by simp
  also have "\<dots> = SecInputNumberDigital (w - Suc k) r (16 * (16 ^ k * a + of_nat (n div 16 mod 16 ^ k)) + of_nat (n mod 16)) True"
    using Suc.prems by (simp add: hex_digit_cases hex_digit_value)
  also have "16 * (16 ^ k * a + of_nat (n div 16 mod 16 ^ k)) + of_nat (n mod 16) = 16 ^ Suc k * a + of_nat (n mod 16 ^ Suc k)"
    unfolding split by (simp add: algebra_simps)
  finally show ?case by simp
qed simp

lemma hex_digits_head: "hex_digits (Suc k) n = hex_digit (n div 16 ^ k mod 16) # hex_digits k n"
proof (induction k arbitrary: n)
  case (Suc k)
  have "hex_digits (Suc (Suc k)) n = hex_digits (Suc k) (n div 16) @ [hex_digit (n mod 16)]" by (rule hex_digits.simps(2))
  also have "\<dots> = hex_digit (n div 16 div 16 ^ k mod 16) # hex_digits k (n div 16) @ [hex_digit (n mod 16)]"
    unfolding Suc.IH by simp
  also have "n div 16 div 16 ^ k = n div 16 ^ Suc k" by (simp add: div_mult2_eq)
  finally show ?case by simp
qed simp

lemma hex_digits_first: "j = Suc k \<Longrightarrow> hex_digits j n = hex_digit (n div 16 ^ k mod 16) # hex_digits k n"
  by (simp only: hex_digits_head)

lemma digital_full: "SecInputNumberDigital 0 r a True = Some (a, r)"
  by (cases r) simp_all

lemma input_number_hex8: "SecInputNumber 8 (hex8 w @ r) = Some (ucast w, r)"
proof -
  let ?n = "unat w"
  let ?d = "?n div 16 ^ 7 mod 16"
  have lt: "?n < 16 ^ 8" using unsigned_less [of w, where ?'a = nat] by simp
  have val: "(of_nat ?n :: u64) = ucast w" by (simp add: unsigned_ucast_eq)
  have h: "hex8 w = hex_digit ?d # hex_digits 7 ?n" unfolding hex8_def by (rule hex_digits_first) simp
  have d: "?d < 16" by simp
  note c = hex_digit_cases [OF d]
  have all: "SecInputNumberDigital 8 (hex8 w @ r) 0 False = Some (ucast w, r)"
    using digital_hex_digits [of 8 8 ?n r 0 False] lt val by (simp add: hex8_def digital_full)
  show ?thesis
  proof (cases "hex_digit ?d = CHR ''0''")
    case True
    then have "int ?d = 0" using hex_digit_value [OF d] by (simp add: SecHexValueOfChar_def)
    then have "?n div 16 ^ 7 = 0" using lt by (simp add: div_less_iff_less_mult mod_less)
    then have small: "?n mod 16 ^ 7 = ?n" by simp
    have "hex_digits 7 ?n = hex_digit (?n div 16 ^ 6 mod 16) # hex_digits 6 ?n" by (rule hex_digits_first) simp
    moreover have "?n div 16 ^ 6 mod 16 < 16" by simp
    ultimately have "hd (hex_digits 7 ?n @ r) \<noteq> CHR ''x''" "hd (hex_digits 7 ?n @ r) \<noteq> CHR ''X''"
      using hex_digit_cases [of "?n div 16 ^ 6 mod 16"] by simp_all
    then have "SecInputNumber 8 (hex8 w @ r) = SecInputNumberDigital 7 (hex_digits 7 ?n @ r) 0 True"
      unfolding SecInputNumber_def h using True by simp
    also have "\<dots> = Some (ucast w, r)" using digital_hex_digits [of 7 7 ?n r 0 True] small val by (simp add: digital_full)
    finally show ?thesis .
  next
    case False
    then have "SecInputNumber 8 (hex8 w @ r) = SecInputNumberDigital 8 (hex8 w @ r) 0 False"
      unfolding SecInputNumber_def h using c by simp
    then show ?thesis using all by simp
  qed
qed

lemma sscanf_hex8: "sscanf_hex (Suc k) (hex8 w @ r) = w # sscanf_hex k r"
proof -
  obtain c cs where h: "hex8 w = c # cs" by (metis length_hex8 list.exhaust list.size(3) zero_neq_numeral)
  then have "c \<in> set (hex8 w)" by simp
  then obtain d where "d < 16" "c = hex_digit d" using hex_digits_chars unfolding hex8_def by blast
  then have "\<not> SecIsSpace c" using hex_digit_cases by simp
  then have "dropWhile SecIsSpace (hex8 w @ r) = hex8 w @ r" using h by simp
  moreover have "SecInputNumber 8 (c # (cs @ r)) = Some (ucast w, r)" using input_number_hex8 [of w r] h by simp
  moreover have "ucast (ucast w :: u64) = w" by (rule bit_word_eqI) (simp add: bit_simps)
  ultimately show ?thesis using h by simp
qed

lemma cstr_name:
  "cstr (snd (shr_id_name_generate devid tsid pid id_type shr_id name)) =
     hex8 (word_of_int pid) @ hex8 devid @ hex8 tsid @ hex8 id_type @ hex8 shr_id"
  (is "_ = ?s")
proof -
  have "\<And>c. c \<in> set ?s \<Longrightarrow> \<exists>d < 16. c = hex_digit d" unfolding hex8_def using hex_digits_chars by auto
  then have "\<And>c. c \<in> set ?s \<Longrightarrow> c \<noteq> NUL" using hex_digit_cases(3) by metis
  then have "takeWhile (\<lambda>c. c \<noteq> NUL) (?s @ NUL # r) = ?s @ takeWhile (\<lambda>c. c \<noteq> NUL) (NUL # r)" for r
    by (rule takeWhile_append2)
  then show ?thesis by (simp add: shr_id_name_generate_def Let_def cstr_def del: takeWhile_append)
qed

lemma name_parse:
  assumes "id_type < 2"
  shows "shr_id_get_type_by_name (snd (shr_id_name_generate devid tsid pid id_type shr_id name)) = (0, Some (sint id_type))"
proof -
  let ?b = "snd (shr_id_name_generate devid tsid pid id_type shr_id name)"
  have len: "strnlen ?b 65 = 40" using cstr_take [of ?b 65] by (simp add: strnlen_def cstr_name)
  have "sscanf_hex 4 (cstr ?b) = [word_of_int pid, devid, tsid, id_type]"
    by (simp add: cstr_name numeral_eq_Suc sscanf_hex8 del: sscanf_hex.simps) simp
  moreover have "id_type = 0 \<or> id_type = 1"
  proof -
    have "unat id_type < 2" using assms by (simp add: word_less_nat_alt)
    then have "unat id_type = unat (0 :: u32) \<or> unat id_type = unat (1 :: u32)" by auto
    then show ?thesis by (metis word_unat_eq_iff)
  qed
  ultimately show ?thesis using len by (auto simp: shr_id_get_type_by_name_def)
qed

section \<open>Properties\<close>

text \<open>
  C33. Parsing a printed name gives the type back, and two printed names are equal only when process, device,
  scheduler, type and id are: names never confuse two shared ids.
\<close>

theorem shr_id_name_roundtrip:
  assumes "id_type < 2"
  shows "shr_id_get_type_by_name (snd (shr_id_name_generate devid tsid pid id_type shr_id name)) = (0, Some (sint id_type)) \<and>
    (cstr (snd (shr_id_name_generate devid tsid pid id_type shr_id name)) =
       cstr (snd (shr_id_name_generate devid' tsid' pid' id_type' shr_id' name')) \<longrightarrow>
     (word_of_int pid :: u32) = word_of_int pid' \<and> devid = devid' \<and> tsid = tsid' \<and> id_type = id_type' \<and> shr_id = shr_id')"
  using name_parse [OF assms] by (simp add: cstr_name)

theorem shr_id_name_roundtrip_witness:
  "shr_id_get_type_by_name (snd (shr_id_name_generate 0 0 4711 1 7 (replicate 65 NUL))) = (0, Some 1)"
proof -
  have "shr_id_get_type_by_name (snd (shr_id_name_generate 0 0 4711 1 7 (replicate 65 NUL))) = (0, Some (sint (1 :: u32)))"
    using shr_id_name_roundtrip [of 1 0 0 4711 7 "replicate 65 NUL"] by simp
  then show ?thesis by simp
qed

text \<open>
  C34. The hash of a name depends on the id alone: the folding of the upper bits, which is what spreads an ELF hash,
  is done only when these bits are zero, and then changes nothing. All processes, devices and types that share the
  same id number fall into one bucket.
\<close>

theorem shr_id_hash_by_id_only:
  "name_key (snd (shr_id_name_generate devid tsid pid id_type shr_id name)) =
   name_key (snd (shr_id_name_generate devid' tsid' pid' id_type' shr_id name'))"
proof -
  have "name_key (snd (shr_id_name_generate d s p y shr_id n)) = fold (\<lambda>c k. 16 * k + of_char c) (hex8 shr_id) 0" for d s p y n
    by (rule name_key_last8 [of _ "hex8 (word_of_int p) @ hex8 d @ hex8 s @ hex8 y"]) (simp_all add: cstr_name)
  then show ?thesis by simp
qed

end
