(* ===== verification/Trs_Id.thy ===== *)
theory Trs_Id
  imports Prelude "HOL-Library.Multiset"
begin

text \<open>
  The id allocator of the task resource scheduler, \<^verbatim>\<open>rms/trs_drv/id_allocator/trs_id.c\<close>: per task
  scheduler instance and id type a pool with a free list. A local pool owns all its ids from the
  start; a pool registered with \<^verbatim>\<open>ops\<close> caches ids it gets in batches from a backend.

  \<open>'s\<close> is the state of the backend, which the callbacks of \<^verbatim>\<open>struct trs_id_ops\<close> read and change.
  Pool objects live in a heap (address to pool) and the table \<^verbatim>\<open>g_trs_id_pool\<close> holds addresses, so
  that a pool taken out of the table survives while a caller holds a reference. Allocation outcomes
  (\<^verbatim>\<open>kzalloc\<close>, \<^verbatim>\<open>kmalloc\<close>) and \<^verbatim>\<open>try_module_get\<close> are boolean arguments. A call through a NULL function
  pointer, \<^verbatim>\<open>list_first_entry\<close> of an empty list and a loop that does not end have the result \<open>None\<close>.
\<close>

section \<open>Data\<close>

abbreviation (input) MAX_TRS_ID_BATCH_NUM :: u32 where "MAX_TRS_ID_BATCH_NUM \<equiv> 64"
abbreviation (input) TRS_DEV_MAX_NUM :: u32 where "TRS_DEV_MAX_NUM \<equiv> 1124"
abbreviation (input) TRS_TS_MAX_NUM :: u32 where "TRS_TS_MAX_NUM \<equiv> 2"

record trs_id_inst =
  ti_devid :: u32
  ti_tsid :: u32

record trs_id_attr =
  ta_id_start :: u32
  ta_id_end :: u32
  ta_id_num :: u32
  ta_batch_num :: u32
  ta_split :: u32

text \<open>
  The callbacks. \<^verbatim>\<open>alloc_batch(inst, type, id[], id_num, &real_id_num)\<close> returns its code, what the
  array \<^verbatim>\<open>id[]\<close> holds after the call, \<^verbatim>\<open>real_id_num\<close> and the new backend state.
\<close>

record 's trs_id_ops =
  op_alloc_batch :: "('s \<Rightarrow> trs_id_inst \<Rightarrow> int \<Rightarrow> u32 \<Rightarrow> int \<times> (nat \<Rightarrow> u32) \<times> u32 \<times> 's) option"
  op_free_batch :: "('s \<Rightarrow> trs_id_inst \<Rightarrow> int \<Rightarrow> u32 list \<Rightarrow> int \<times> 's) option"
  op_avail_query :: "('s \<Rightarrow> trs_id_inst \<Rightarrow> int \<Rightarrow> int \<times> u32 option) option"
  op_trans :: "('s \<Rightarrow> trs_id_inst \<Rightarrow> int \<Rightarrow> u32 \<Rightarrow> int \<times> u32) option"
  op_is_non_cache_type :: "(int \<Rightarrow> bool) option"

definition no_ops :: "'s trs_id_ops" where
  "no_ops = \<lparr>op_alloc_batch = None, op_free_batch = None, op_avail_query = None, op_trans = None,
             op_is_non_cache_type = None\<rparr>"

record 's trs_id_pool =
  tp_inst :: trs_id_inst
  tp_type :: int
  tp_attr :: trs_id_attr
  tp_allocatable_num :: u32
  tp_alloc_num :: u32
  tp_head :: "u32 list"
  tp_ops :: "'s trs_id_ops"
  tp_ref :: nat

text \<open>The index of \<^verbatim>\<open>g_trs_id_pool[ts_inst][type]\<close>.\<close>

datatype trs_id_idx = TrsIdIdx u32 int

record 's trs_ids =
  ts_table :: "trs_id_idx \<rightharpoonup> nat"
  ts_heap :: "nat \<rightharpoonup> 's trs_id_pool"
  ts_back :: 's

record trs_id_stat =
  st_alloc :: u32
  st_allocatable :: u32

section \<open>Checks\<close>

definition trs_id_inst_to_ts_inst :: "trs_id_inst \<Rightarrow> u32" where
  "trs_id_inst_to_ts_inst inst = ti_devid inst * TRS_TS_MAX_NUM + ti_tsid inst"

definition trs_id_inst_check :: "trs_id_inst option \<Rightarrow> int" where
  "trs_id_inst_check inst =
     (case inst of
        None \<Rightarrow> - EINVAL
      | Some i \<Rightarrow> if ti_devid i \<ge> TRS_DEV_MAX_NUM \<or> ti_tsid i \<ge> TRS_TS_MAX_NUM then - EINVAL else 0)"

definition trs_id_type_check :: "int \<Rightarrow> int" where
  "trs_id_type_check ty = (if ty < TRS_STREAM_ID \<or> ty \<ge> TRS_ID_TYPE_MAX then - EINVAL else 0)"

definition trs_id_param_check :: "trs_id_inst option \<Rightarrow> int \<Rightarrow> int" where
  "trs_id_param_check inst ty =
     (let ret = trs_id_inst_check inst in
      if ret \<noteq> 0 then ret
      else let ret = trs_id_type_check ty in
      if ret \<noteq> 0 then ret else 0)"

definition trs_id_attr_check :: "trs_id_attr option \<Rightarrow> int" where
  "trs_id_attr_check attr =
     (case attr of
        None \<Rightarrow> - EINVAL
      | Some a \<Rightarrow>
          if ta_id_num a = 0 \<or> ta_id_start a + ta_id_num a < ta_id_start a then - EINVAL
          else if ta_batch_num a > MAX_TRS_ID_BATCH_NUM then - EINVAL
          else 0)"

definition trs_id_is_local_type :: "int \<Rightarrow> bool" where
  "trs_id_is_local_type ty \<longleftrightarrow> ty = TRS_LOGIC_CQ_ID \<or> ty = TRS_CB_SQ_ID \<or> ty = TRS_CB_CQ_ID"

definition trs_id_key :: "trs_id_inst \<Rightarrow> int \<Rightarrow> trs_id_idx" where
  "trs_id_key inst ty = TrsIdIdx (trs_id_inst_to_ts_inst inst) ty"

section \<open>The free list\<close>

definition trs_id_pool_add_node :: "bool \<Rightarrow> 's trs_id_pool \<Rightarrow> u32 \<Rightarrow> int \<times> 's trs_id_pool" where
  "trs_id_pool_add_node mem p i =
     (if \<not> mem then (- ENOMEM, p)
      else (0, p\<lparr>tp_head := (if i < ta_split (tp_attr p) then i # tp_head p else tp_head p @ [i]),
                 tp_allocatable_num := tp_allocatable_num p + 1\<rparr>))"

text \<open>\<^verbatim>\<open>trs_id_pool_del_node\<close> of the first node of the list.\<close>

definition trs_id_pool_del_node :: "'s trs_id_pool \<Rightarrow> 's trs_id_pool" where
  "trs_id_pool_del_node p =
     p\<lparr>tp_head := tl (tp_head p), tp_allocatable_num := tp_allocatable_num p - 1\<rparr>"

function trs_id_pool_del_node_all :: "'s trs_id_pool \<Rightarrow> 's trs_id_pool" where
  "trs_id_pool_del_node_all p =
     (if tp_head p = [] then p else trs_id_pool_del_node_all (trs_id_pool_del_node p))"
  by pat_completeness auto
termination
  by (relation "measure (\<lambda>p. length (tp_head p))") (auto simp: trs_id_pool_del_node_def)

declare trs_id_pool_del_node_all.simps [simp del]

text \<open>The loop of \<^verbatim>\<open>trs_id_node_all\<close>; \<open>mem i\<close> is the outcome of the \<^verbatim>\<open>kmalloc\<close> for id \<open>i\<close>.\<close>

function trs_id_node_all_from :: "(u32 \<Rightarrow> bool) \<Rightarrow> u32 \<Rightarrow> u32 \<Rightarrow> 's trs_id_pool \<Rightarrow> int \<times> 's trs_id_pool" where
  "trs_id_node_all_from mem i stop p =
     (if i < stop
      then let (ret, p') = trs_id_pool_add_node (mem i) p i in
           if ret \<noteq> 0 then (- EFAULT, trs_id_pool_del_node_all p')
           else trs_id_node_all_from mem (i + 1) stop p'
      else (0, p))"
  by pat_completeness auto
termination
proof (relation "measure (\<lambda>(mem, i, stop, p). unat stop - unat i)")
  fix mem :: "u32 \<Rightarrow> bool" and i stop :: u32 and p p' :: "'s trs_id_pool" and r x y
  assume "i < stop"
  then show "((mem, i + 1, stop, p'), mem, i, stop, p)
      \<in> measure (\<lambda>(mem, i, stop, p). unat stop - unat i)"
    using unat_Suc_less [of i stop] by (simp add: word_less_nat_alt)
qed simp

declare trs_id_node_all_from.simps [simp del]

definition trs_id_node_all :: "(u32 \<Rightarrow> bool) \<Rightarrow> 's trs_id_pool \<Rightarrow> int \<times> 's trs_id_pool" where
  "trs_id_node_all mem p = trs_id_node_all_from mem (ta_id_start (tp_attr p)) (ta_id_end (tp_attr p)) p"

definition trs_id_pool_create ::
    "bool \<Rightarrow> (u32 \<Rightarrow> bool) \<Rightarrow> trs_id_inst \<Rightarrow> int \<Rightarrow> trs_id_attr \<Rightarrow> 's trs_id_ops option \<Rightarrow> 's trs_id_pool option" where
  "trs_id_pool_create pool_mem mem inst ty attr ops =
     (if \<not> pool_mem then None
      else let p = \<lparr>tp_inst = inst, tp_type = ty, tp_attr = attr, tp_allocatable_num = 0, tp_alloc_num = 0,
                    tp_head = [], tp_ops = no_ops, tp_ref = 1\<rparr> in
      case ops of
        None \<Rightarrow> (let (ret, p') = trs_id_node_all mem p in if ret \<noteq> 0 then None else Some p')
      | Some o' \<Rightarrow>
          if ta_batch_num attr = 0 \<or> ta_batch_num attr > MAX_TRS_ID_BATCH_NUM then None
          else Some (p\<lparr>tp_ops := o'\<rparr>))"

definition trs_id_pool_alloc_one_id :: "'s trs_id_pool \<Rightarrow> (u32 \<times> 's trs_id_pool) option" where
  "trs_id_pool_alloc_one_id p =
     (case tp_head p of [] \<Rightarrow> None | i # _ \<Rightarrow> Some (i, trs_id_pool_del_node p))"

text \<open>The inner loop of \<^verbatim>\<open>trs_id_pool_free_batch\<close>: fills \<^verbatim>\<open>id[0..batch_num)\<close>.\<close>

fun trs_id_pool_take_batch :: "nat \<Rightarrow> 's trs_id_pool \<Rightarrow> (u32 list \<times> 's trs_id_pool) option" where
  "trs_id_pool_take_batch 0 p = Some ([], p)"
| "trs_id_pool_take_batch (Suc k) p =
     (case trs_id_pool_alloc_one_id p of
        None \<Rightarrow> None
      | Some (i, p') \<Rightarrow>
          (case trs_id_pool_take_batch k p' of
             None \<Rightarrow> None | Some (is, p'') \<Rightarrow> Some (i # is, p'')))"

partial_function (option) trs_id_free_batch_loop ::
    "('s \<Rightarrow> trs_id_inst \<Rightarrow> int \<Rightarrow> u32 list \<Rightarrow> int \<times> 's) \<Rightarrow> 's trs_id_pool \<Rightarrow> 's \<Rightarrow>
     (int \<times> 's trs_id_pool \<times> 's) option" where
  "trs_id_free_batch_loop fb p s =
     (if tp_allocatable_num p > 0
      then (case trs_id_pool_take_batch (unat (min (tp_allocatable_num p) (ta_batch_num (tp_attr p)))) p of
              None \<Rightarrow> None
            | Some (is, p') \<Rightarrow>
                (case fb s (tp_inst p) (tp_type p) is of
                   (ret, s') \<Rightarrow> if ret \<noteq> 0 then Some (ret, p', s') else trs_id_free_batch_loop fb p' s'))
      else Some (0, p, s))"

definition trs_id_pool_free_batch :: "'s trs_id_pool \<Rightarrow> 's \<Rightarrow> (int \<times> 's trs_id_pool \<times> 's) option" where
  "trs_id_pool_free_batch p s =
     (case op_free_batch (tp_ops p) of
        None \<Rightarrow> Some (0, p, s)
      | Some fb \<Rightarrow> trs_id_free_batch_loop fb p s)"

text \<open>\<^verbatim>\<open>trs_id_pool_destroy\<close> of a pool object: the backend state after it; the object is freed.\<close>

definition trs_id_pool_destroy :: "'s trs_id_pool \<Rightarrow> 's \<Rightarrow> 's option" where
  "trs_id_pool_destroy p s =
     (case op_free_batch (tp_ops p) of
        None \<Rightarrow> (let p' = trs_id_pool_del_node_all p in Some s)
      | Some _ \<Rightarrow> map_option (\<lambda>(ret, p', s'). s') (trs_id_pool_free_batch p s))"

section \<open>Allocation and release inside one pool\<close>

definition trs_id_pool_range_check :: "'s trs_id_pool \<Rightarrow> u32 \<Rightarrow> int" where
  "trs_id_pool_range_check p i =
     (if i < ta_id_start (tp_attr p) \<or> i \<ge> ta_id_end (tp_attr p) then - EBADR else 0)"

text \<open>
  The loop of \<^verbatim>\<open>trs_id_pool_alloc_batch\<close> over the ids the backend returned, \<open>mem k\<close> the \<^verbatim>\<open>kmalloc\<close> for
  the k-th: an id out of range is skipped; when a node cannot be allocated the rest goes back.
\<close>

fun trs_id_cache_ids ::
    "(nat \<Rightarrow> bool) \<Rightarrow> nat \<Rightarrow> u32 list \<Rightarrow> 's trs_id_pool \<Rightarrow> 's \<Rightarrow> ('s trs_id_pool \<times> 's) option" where
  "trs_id_cache_ids mem k [] p s = Some (p, s)"
| "trs_id_cache_ids mem k (i # is) p s =
     (if trs_id_pool_range_check p i = 0
      then case trs_id_pool_add_node (mem k) p i of
        (ret, p') \<Rightarrow>
          if ret \<noteq> 0
          then (case op_free_batch (tp_ops p) of
                  None \<Rightarrow> None
                | Some fb \<Rightarrow> Some (p', snd (fb s (tp_inst p) (tp_type p) (i # is))))
          else trs_id_cache_ids mem (Suc k) is p' s
      else trs_id_cache_ids mem (Suc k) is p s)"

definition trs_id_pool_alloc_batch ::
    "(nat \<Rightarrow> bool) \<Rightarrow> 's trs_id_pool \<Rightarrow> 's \<Rightarrow> ('s trs_id_pool \<times> 's) option" where
  "trs_id_pool_alloc_batch mem p s =
     (let remain_num = ta_id_num (tp_attr p) - tp_alloc_num p in
      if remain_num = 0 then Some (p, s)
      else case op_alloc_batch (tp_ops p) of
        None \<Rightarrow> Some (p, s)
      | Some ab \<Rightarrow>
          if ta_batch_num (tp_attr p) \<le> 1 then Some (p, s)
          else let req_num = (if remain_num > ta_batch_num (tp_attr p) then ta_batch_num (tp_attr p) else remain_num) in
          (case ab s (tp_inst p) (tp_type p) req_num of
             (ret, ids, real_id_num, s') \<Rightarrow>
               if ret \<noteq> 0 \<or> real_id_num > ta_batch_num (tp_attr p) then Some (p, s')
               else trs_id_cache_ids mem 0 (map ids [0 ..< unat real_id_num]) p s'))"

definition trs_id_alloc_non_cache :: "'s trs_id_pool \<Rightarrow> 's \<Rightarrow> (int \<times> u32 option \<times> 's trs_id_pool \<times> 's) option" where
  "trs_id_alloc_non_cache p s =
     (case op_alloc_batch (tp_ops p) of
        None \<Rightarrow> None
      | Some ab \<Rightarrow>
          (case ab s (tp_inst p) (tp_type p) 1 of
             (ret, ids, real_id_num, s') \<Rightarrow>
               if ret \<noteq> 0 \<or> real_id_num > ta_batch_num (tp_attr p) then Some (- ENOSPC, None, p, s')
               else Some (ret, Some (ids 0), p\<lparr>tp_alloc_num := tp_alloc_num p + 1\<rparr>, s')))"

definition trs_id_alloc_cache ::
    "(nat \<Rightarrow> bool) \<Rightarrow> 's trs_id_pool \<Rightarrow> 's \<Rightarrow> (int \<times> u32 option \<times> 's trs_id_pool \<times> 's) option" where
  "trs_id_alloc_cache mem p s =
     (case (if tp_allocatable_num p = 0 then trs_id_pool_alloc_batch mem p s else Some (p, s)) of
        None \<Rightarrow> None
      | Some (p', s') \<Rightarrow>
          if tp_allocatable_num p' = 0 then Some (- ENOSPC, None, p', s')
          else case trs_id_pool_alloc_one_id p' of
            None \<Rightarrow> None
          | Some (i, p'') \<Rightarrow> Some (0, Some i, p''\<lparr>tp_alloc_num := tp_alloc_num p'' + 1\<rparr>, s'))"

definition trs_id_non_cache :: "'s trs_id_pool \<Rightarrow> bool" where
  "trs_id_non_cache p =
     (case op_is_non_cache_type (tp_ops p) of None \<Rightarrow> False | Some f \<Rightarrow> f (tp_type p))"

definition trs_id_pool_alloc ::
    "(nat \<Rightarrow> bool) \<Rightarrow> 's trs_id_pool \<Rightarrow> 's \<Rightarrow> (int \<times> u32 option \<times> 's trs_id_pool \<times> 's) option" where
  "trs_id_pool_alloc mem p s =
     (if trs_id_non_cache p then trs_id_alloc_non_cache p s else trs_id_alloc_cache mem p s)"

definition trs_id_free_non_cache :: "'s trs_id_pool \<Rightarrow> 's \<Rightarrow> u32 \<Rightarrow> (int \<times> 's trs_id_pool \<times> 's) option" where
  "trs_id_free_non_cache p s i =
     (case op_free_batch (tp_ops p) of
        None \<Rightarrow> None
      | Some fb \<Rightarrow>
          (case fb s (tp_inst p) (tp_type p) [i] of
             (ret, s') \<Rightarrow>
               if ret \<noteq> 0 then Some (ret, p, s')
               else Some (ret, p\<lparr>tp_alloc_num := tp_alloc_num p - 1\<rparr>, s')))"

definition trs_id_free_cache :: "bool \<Rightarrow> 's trs_id_pool \<Rightarrow> 's \<Rightarrow> u32 \<Rightarrow> (int \<times> 's trs_id_pool \<times> 's) option" where
  "trs_id_free_cache mem p s i =
     (case trs_id_pool_add_node mem p i of
        (ret, p') \<Rightarrow>
          if ret \<noteq> 0
          then if \<not> trs_id_is_local_type (tp_type p) then trs_id_free_non_cache p' s i else Some (ret, p', s)
          else Some (ret, p'\<lparr>tp_alloc_num := tp_alloc_num p' - 1\<rparr>, s))"

definition trs_id_pool_free :: "bool \<Rightarrow> 's trs_id_pool \<Rightarrow> 's \<Rightarrow> u32 \<Rightarrow> (int \<times> 's trs_id_pool \<times> 's) option" where
  "trs_id_pool_free mem p s i =
     (let ret = trs_id_pool_range_check p i in
      if ret \<noteq> 0 then Some (ret, p, s)
      else if trs_id_non_cache p then trs_id_free_non_cache p s i else trs_id_free_cache mem p s i)"

section \<open>The table of pools\<close>

text \<open>
  \<^verbatim>\<open>kref_put(&id_pool->ref, trs_id_pool_release)\<close>: the last reference destroys the pool. An address
  that holds no object is a use after free, \<open>None\<close>.
\<close>

definition trs_id_pool_kref_put :: "'s trs_ids \<Rightarrow> nat \<Rightarrow> 's trs_ids option" where
  "trs_id_pool_kref_put st a =
     (case ts_heap st a of
        None \<Rightarrow> None
      | Some p \<Rightarrow>
          if tp_ref p = 0 then None
          else if tp_ref p = 1
          then map_option (\<lambda>s'. st\<lparr>ts_heap := (ts_heap st)(a := None), ts_back := s'\<rparr>)
                 (trs_id_pool_destroy p (ts_back st))
          else Some (st\<lparr>ts_heap := (ts_heap st)(a \<mapsto> p\<lparr>tp_ref := tp_ref p - 1\<rparr>)\<rparr>))"

text \<open>\<open>a\<close> is the address of the pool object that \<^verbatim>\<open>trs_id_pool_create\<close> returned.\<close>

definition trs_id_pool_add :: "'s trs_ids \<Rightarrow> int \<Rightarrow> nat \<Rightarrow> 's trs_id_pool \<Rightarrow> int \<times> 's trs_ids" where
  "trs_id_pool_add st ty a p =
     (if ts_table st (trs_id_key (tp_inst p) ty) \<noteq> None then (- ENODEV, st)
      else (0, st\<lparr>ts_table := (ts_table st)(trs_id_key (tp_inst p) ty \<mapsto> a), ts_heap := (ts_heap st)(a \<mapsto> p)\<rparr>))"

definition trs_id_pool_del :: "'s trs_ids \<Rightarrow> trs_id_inst \<Rightarrow> int \<Rightarrow> 's trs_ids option" where
  "trs_id_pool_del st inst ty =
     (let st' = st\<lparr>ts_table := (ts_table st)(trs_id_key inst ty := None)\<rparr> in
      case ts_table st (trs_id_key inst ty) of
        None \<Rightarrow> Some st'
      | Some a \<Rightarrow> trs_id_pool_kref_put st' a)"

text \<open>\<open>modok\<close> is the outcome of \<^verbatim>\<open>try_module_get\<close> of the module that owns the callbacks.\<close>

definition trs_id_pool_get ::
    "bool \<Rightarrow> 's trs_ids \<Rightarrow> trs_id_inst option \<Rightarrow> int \<Rightarrow> (nat option \<times> 's trs_ids) option" where
  "trs_id_pool_get modok st inst ty =
     (if trs_id_param_check inst ty \<noteq> 0 then Some (None, st)
      else case ts_table st (trs_id_key (the inst) ty) of
        None \<Rightarrow> Some (None, st)
      | Some a \<Rightarrow>
          (case ts_heap st a of
             None \<Rightarrow> None
           | Some p \<Rightarrow>
               if modok then Some (Some a, st\<lparr>ts_heap := (ts_heap st)(a \<mapsto> p\<lparr>tp_ref := tp_ref p + 1\<rparr>)\<rparr>)
               else Some (None, st)))"

definition trs_id_pool_put :: "'s trs_ids \<Rightarrow> nat \<Rightarrow> 's trs_ids option" where
  "trs_id_pool_put st a = trs_id_pool_kref_put st a"

section \<open>Exported operations\<close>

definition trs_id_register ::
    "bool \<Rightarrow> (u32 \<Rightarrow> bool) \<Rightarrow> nat \<Rightarrow> 's trs_ids \<Rightarrow> trs_id_inst option \<Rightarrow> int \<Rightarrow> trs_id_attr option \<Rightarrow>
     's trs_id_ops option \<Rightarrow> (int \<times> 's trs_ids) option" where
  "trs_id_register pool_mem mem a st inst ty attr ops =
     (if trs_id_param_check inst ty \<noteq> 0 then Some (- EINVAL, st)
      else if trs_id_attr_check attr \<noteq> 0 then Some (- EINVAL, st)
      else case trs_id_pool_create pool_mem mem (the inst) ty (the attr) ops of
        None \<Rightarrow> Some (- ENOMEM, st)
      | Some p \<Rightarrow>
          (case trs_id_pool_add st ty a p of
             (ret, st') \<Rightarrow>
               if ret \<noteq> 0
               then map_option (\<lambda>s'. (ret, st'\<lparr>ts_back := s'\<rparr>)) (trs_id_pool_destroy p (ts_back st'))
               else Some (0, st')))"

definition trs_id_unregister :: "'s trs_ids \<Rightarrow> trs_id_inst option \<Rightarrow> int \<Rightarrow> (int \<times> 's trs_ids) option" where
  "trs_id_unregister st inst ty =
     (if trs_id_param_check inst ty \<noteq> 0 then Some (- EINVAL, st)
      else map_option (\<lambda>st'. (0, st')) (trs_id_pool_del st (the inst) ty))"

text \<open>
  The frame of the operations below: take a reference, run \<open>body\<close> on the pool under its mutex, drop
  the reference; \<open>nopool\<close> is the result when \<^verbatim>\<open>trs_id_pool_get\<close> returns NULL.
\<close>

definition trs_id_with_pool ::
    "bool \<Rightarrow> 's trs_ids \<Rightarrow> trs_id_inst option \<Rightarrow> int \<Rightarrow> 'r \<Rightarrow>
     ('s trs_id_pool \<Rightarrow> 's \<Rightarrow> ('r \<times> 's trs_id_pool \<times> 's) option) \<Rightarrow> ('r \<times> 's trs_ids) option" where
  "trs_id_with_pool modok st inst ty nopool body =
     (case trs_id_pool_get modok st inst ty of
        None \<Rightarrow> None
      | Some (None, st') \<Rightarrow> Some (nopool, st')
      | Some (Some a, st') \<Rightarrow>
          (case body (the (ts_heap st' a)) (ts_back st') of
             None \<Rightarrow> None
           | Some (r, p, s) \<Rightarrow>
               map_option (\<lambda>st''. (r, st''))
                 (trs_id_pool_put (st'\<lparr>ts_heap := (ts_heap st')(a \<mapsto> p), ts_back := s\<rparr>) a)))"

text \<open>Queries: \<open>ptr\<close> says that the caller's result pointer is not NULL.\<close>

definition trs_id_get_total_num ::
    "bool \<Rightarrow> 's trs_ids \<Rightarrow> trs_id_inst option \<Rightarrow> int \<Rightarrow> bool \<Rightarrow> ((int \<times> u32 option) \<times> 's trs_ids) option" where
  "trs_id_get_total_num modok st inst ty ptr =
     trs_id_with_pool modok st inst ty (- EFAULT, None)
       (\<lambda>p s. Some (if ptr then (0, Some (ta_id_num (tp_attr p))) else (- EFAULT, None), p, s))"

definition trs_id_get_range ::
    "bool \<Rightarrow> 's trs_ids \<Rightarrow> trs_id_inst option \<Rightarrow> int \<Rightarrow> bool \<Rightarrow> bool \<Rightarrow>
     ((int \<times> (u32 \<times> u32) option) \<times> 's trs_ids) option" where
  "trs_id_get_range modok st inst ty start_ptr end_ptr =
     trs_id_with_pool modok st inst ty (- EFAULT, None)
       (\<lambda>p s. Some (if start_ptr \<and> end_ptr
                    then (0, Some (ta_id_start (tp_attr p), ta_id_end (tp_attr p)))
                    else (- EFAULT, None), p, s))"

definition trs_id_get_max_id ::
    "bool \<Rightarrow> 's trs_ids \<Rightarrow> trs_id_inst option \<Rightarrow> int \<Rightarrow> bool \<Rightarrow> ((int \<times> u32 option) \<times> 's trs_ids) option" where
  "trs_id_get_max_id modok st inst ty ptr =
     trs_id_with_pool modok st inst ty (- ENODEV, None)
       (\<lambda>p s. Some (if ptr then (0, Some (ta_id_end (tp_attr p))) else (- ENODEV, None), p, s))"

definition trs_id_get_split ::
    "bool \<Rightarrow> 's trs_ids \<Rightarrow> trs_id_inst option \<Rightarrow> int \<Rightarrow> bool \<Rightarrow> ((int \<times> u32 option) \<times> 's trs_ids) option" where
  "trs_id_get_split modok st inst ty ptr =
     trs_id_with_pool modok st inst ty (- ENODEV, None)
       (\<lambda>p s. Some (if ptr then (0, Some (ta_split (tp_attr p))) else (- ENODEV, None), p, s))"

definition trs_id_get_avail_num ::
    "bool \<Rightarrow> 's trs_ids \<Rightarrow> trs_id_inst option \<Rightarrow> int \<Rightarrow> bool \<Rightarrow> ((int \<times> u32 option) \<times> 's trs_ids) option" where
  "trs_id_get_avail_num modok st inst ty ptr =
     trs_id_with_pool modok st inst ty (- ENODEV, None)
       (\<lambda>p s. Some (if ptr then (0, Some (ta_id_num (tp_attr p) - tp_alloc_num p)) else (- ENODEV, None), p, s))"

definition trs_id_get_avail_num_in_pool ::
    "bool \<Rightarrow> 's trs_ids \<Rightarrow> trs_id_inst option \<Rightarrow> int \<Rightarrow> ((int \<times> u32 option) \<times> 's trs_ids) option" where
  "trs_id_get_avail_num_in_pool modok st inst ty =
     trs_id_with_pool modok st inst ty (- ENODEV, None)
       (\<lambda>p s. Some (case op_avail_query (tp_ops p) of
                      None \<Rightarrow> (- ENODEV, None)
                    | Some f \<Rightarrow> f s (the inst) ty, p, s))"

definition trs_id_get_used_num ::
    "bool \<Rightarrow> 's trs_ids \<Rightarrow> trs_id_inst option \<Rightarrow> int \<Rightarrow> bool \<Rightarrow> ((int \<times> u32 option) \<times> 's trs_ids) option" where
  "trs_id_get_used_num modok st inst ty ptr =
     trs_id_with_pool modok st inst ty (- ENODEV, None)
       (\<lambda>p s. Some (if ptr then (0, Some (tp_alloc_num p)) else (- ENODEV, None), p, s))"

definition trs_id_get_stat ::
    "bool \<Rightarrow> 's trs_ids \<Rightarrow> trs_id_inst option \<Rightarrow> int \<Rightarrow> ((int \<times> trs_id_stat option) \<times> 's trs_ids) option" where
  "trs_id_get_stat modok st inst ty =
     trs_id_with_pool modok st inst ty (- ENODEV, None)
       (\<lambda>p s. Some ((0, Some \<lparr>st_alloc = tp_alloc_num p, st_allocatable = tp_allocatable_num p\<rparr>), p, s))"

definition trs_id_alloc ::
    "bool \<Rightarrow> (nat \<Rightarrow> bool) \<Rightarrow> 's trs_ids \<Rightarrow> trs_id_inst option \<Rightarrow> int \<Rightarrow> bool \<Rightarrow>
     ((int \<times> u32 option) \<times> 's trs_ids) option" where
  "trs_id_alloc modok mem st inst ty ptr =
     trs_id_with_pool modok st inst ty (- EFAULT, None)
       (\<lambda>p s. if ptr
              then map_option (\<lambda>(ret, i, p', s'). ((ret, i), p', s')) (trs_id_pool_alloc mem p s)
              else Some ((- EFAULT, None), p, s))"

definition trs_id_free ::
    "bool \<Rightarrow> bool \<Rightarrow> 's trs_ids \<Rightarrow> trs_id_inst option \<Rightarrow> int \<Rightarrow> u32 \<Rightarrow> (int \<times> 's trs_ids) option" where
  "trs_id_free modok mem st inst ty i =
     trs_id_with_pool modok st inst ty (- ENODEV) (\<lambda>p s. trs_id_pool_free mem p s i)"

definition trs_id_free_batch_specific ::
    "bool \<Rightarrow> 's trs_ids \<Rightarrow> trs_id_inst option \<Rightarrow> int \<Rightarrow> (int \<times> 's trs_ids) option" where
  "trs_id_free_batch_specific modok st inst ty =
     trs_id_with_pool modok st inst ty 0 trs_id_pool_free_batch"

text \<open>The loop of \<^verbatim>\<open>trs_id_flush_to_pool\<close> from \<open>ty\<close> on, with \<^verbatim>\<open>ret\<close> so far.\<close>

fun trs_id_flush_types ::
    "(int \<Rightarrow> bool) \<Rightarrow> 's trs_ids \<Rightarrow> trs_id_inst option \<Rightarrow> int list \<Rightarrow> int \<Rightarrow> (int \<times> 's trs_ids) option" where
  "trs_id_flush_types modok st inst [] ret = Some (ret, st)"
| "trs_id_flush_types modok st inst (ty # tys) ret =
     (case trs_id_free_batch_specific (modok ty) st inst ty of
        None \<Rightarrow> None
      | Some (r, st') \<Rightarrow> trs_id_flush_types modok st' inst tys (if r \<noteq> 0 then - ENODEV else ret))"

definition trs_id_flush_to_pool ::
    "(int \<Rightarrow> bool) \<Rightarrow> 's trs_ids \<Rightarrow> trs_id_inst option \<Rightarrow> (int \<times> 's trs_ids) option" where
  "trs_id_flush_to_pool modok st inst = trs_id_flush_types modok st inst [0 .. 18] 0"

text \<open>
  \<^verbatim>\<open>trs_id_to_string\<close>: \<open>fmt ty id phy_id msg_len\<close> stands for the result of \<^verbatim>\<open>sprintf_s\<close>, which is
  called when the translated id differs.
\<close>

definition trs_id_to_string ::
    "(int \<Rightarrow> u32 \<Rightarrow> u32 \<Rightarrow> u32 \<Rightarrow> int) \<Rightarrow> bool \<Rightarrow> 's trs_ids \<Rightarrow> trs_id_inst option \<Rightarrow> int \<Rightarrow> u32 \<Rightarrow> u32 \<Rightarrow>
     (int \<times> 's trs_ids) option" where
  "trs_id_to_string fmt modok st inst ty i msg_len =
     trs_id_with_pool modok st inst ty (- ENODEV)
       (\<lambda>p s. Some (case op_trans (tp_ops p) of
                      None \<Rightarrow> 0
                    | Some f \<Rightarrow>
                        (case f s (the inst) ty i of
                           (ret, phy_id) \<Rightarrow> if ret = 0 \<and> i \<noteq> phy_id then fmt ty i phy_id msg_len else ret), p, s))"

text \<open>The indices the module's start and exit loops visit, in the code's order.\<close>

definition trs_id_all_keys :: "trs_id_idx list" where
  "trs_id_all_keys = concat (map (\<lambda>t. map (\<lambda>ty. TrsIdIdx (of_nat t) ty) [0 .. 18]) [0 ..< 2248])"

definition trs_id_clear :: "trs_id_idx \<Rightarrow> 's trs_ids \<Rightarrow> 's trs_ids" where
  "trs_id_clear k st = st\<lparr>ts_table := (ts_table st)(k := None)\<rparr>"

definition init_trs_id :: "'s trs_ids \<Rightarrow> int \<times> 's trs_ids" where
  "init_trs_id st = (0, fold trs_id_clear trs_id_all_keys st)"

text \<open>Module exit destroys the pools of the table without looking at their reference counts.\<close>

definition trs_id_exit_one :: "trs_id_idx \<Rightarrow> 's trs_ids \<Rightarrow> 's trs_ids option" where
  "trs_id_exit_one k st =
     (case ts_table st k of
        None \<Rightarrow> Some (trs_id_clear k st)
      | Some a \<Rightarrow>
          (case ts_heap st a of
             None \<Rightarrow> None
           | Some p \<Rightarrow>
               map_option (\<lambda>s'. trs_id_clear k (st\<lparr>ts_heap := (ts_heap st)(a := None), ts_back := s'\<rparr>))
                 (trs_id_pool_destroy p (ts_back st))))"

fun trs_id_exit_loop :: "trs_id_idx list \<Rightarrow> 's trs_ids \<Rightarrow> 's trs_ids option" where
  "trs_id_exit_loop [] st = Some st"
| "trs_id_exit_loop (k # ks) st =
     (case trs_id_exit_one k st of None \<Rightarrow> None | Some st' \<Rightarrow> trs_id_exit_loop ks st')"

definition exit_trs_id :: "'s trs_ids \<Rightarrow> 's trs_ids option" where
  "exit_trs_id st = trs_id_exit_loop trs_id_all_keys st"

section \<open>Well-formed pools\<close>

text \<open>
  \<open>trs_id_ops_ok\<close>: a backend that allocates can also take ids back, and one that declares types as
  not cached allocates. \<open>trs_id_pool_ok\<close>: the counter \<^verbatim>\<open>allocatable_num\<close> is the length of the free
  list (modulo the width of the counter), a pool with a backend has a batch that fits the arrays
  \<^verbatim>\<open>id[MAX_TRS_ID_BATCH_NUM]\<close>, and a pool without one has a local type.
\<close>

definition trs_id_ops_ok :: "'s trs_id_ops \<Rightarrow> bool" where
  "trs_id_ops_ok o' \<longleftrightarrow>
     (op_alloc_batch o' = None \<longleftrightarrow> op_free_batch o' = None) \<and>
     (op_is_non_cache_type o' \<noteq> None \<longrightarrow> op_alloc_batch o' \<noteq> None)"

definition trs_id_pool_ok :: "'s trs_id_pool \<Rightarrow> bool" where
  "trs_id_pool_ok p \<longleftrightarrow>
     tp_allocatable_num p = of_nat (length (tp_head p)) \<and> trs_id_ops_ok (tp_ops p) \<and>
     (op_free_batch (tp_ops p) \<noteq> None \<longrightarrow>
        0 < ta_batch_num (tp_attr p) \<and> ta_batch_num (tp_attr p) \<le> MAX_TRS_ID_BATCH_NUM) \<and>
     (op_free_batch (tp_ops p) = None \<longrightarrow> trs_id_is_local_type (tp_type p))"

text \<open>What no operation on a pool changes.\<close>

definition trs_id_pool_frame :: "'s trs_id_pool \<Rightarrow> 's trs_id_pool \<Rightarrow> bool" where
  "trs_id_pool_frame p q \<longleftrightarrow>
     tp_inst q = tp_inst p \<and> tp_type q = tp_type p \<and> tp_attr q = tp_attr p \<and> tp_ops q = tp_ops p \<and>
     tp_ref q = tp_ref p"

lemma frame_refl [simp]: "trs_id_pool_frame p p"
  by (simp add: trs_id_pool_frame_def)

lemma frame_trans: "trs_id_pool_frame p q \<Longrightarrow> trs_id_pool_frame q r \<Longrightarrow> trs_id_pool_frame p r"
  by (simp add: trs_id_pool_frame_def)

lemmas pool_simps = trs_id_pool_ok_def trs_id_pool_frame_def

lemma of_nat_le_length: "unat (of_nat (length xs) :: u32) \<le> length xs"
  by (simp add: unat_of_nat)

lemma add_node_cases:
  obtains "\<not> mem" "trs_id_pool_add_node mem p i = (- ENOMEM, p)"
  | p' where "mem" "trs_id_pool_add_node mem p i = (0, p')" "trs_id_pool_frame p p'"
      "tp_alloc_num p' = tp_alloc_num p" "tp_allocatable_num p' = tp_allocatable_num p + 1"
      "tp_head p' = (if i < ta_split (tp_attr p) then i # tp_head p else tp_head p @ [i])"
  using that(1) that(2) [of "snd (trs_id_pool_add_node mem p i)"]
  by (cases mem) (auto simp: trs_id_pool_add_node_def trs_id_pool_frame_def)

lemma add_node_ok: "trs_id_pool_ok p \<Longrightarrow> trs_id_pool_ok (snd (trs_id_pool_add_node mem p i))"
  by (auto simp: trs_id_pool_add_node_def pool_simps)

lemma del_node_frame [simp]: "trs_id_pool_frame p (trs_id_pool_del_node p)"
  by (simp add: trs_id_pool_del_node_def trs_id_pool_frame_def)

lemma del_node_ok:
  assumes "trs_id_pool_ok p" "tp_head p \<noteq> []"
  shows "trs_id_pool_ok (trs_id_pool_del_node p)"
  using assms by (cases "tp_head p") (auto simp: trs_id_pool_del_node_def trs_id_pool_ok_def)

lemma del_node_all_empty: "tp_head (trs_id_pool_del_node_all p) = []"
  by (induction p rule: trs_id_pool_del_node_all.induct) (subst trs_id_pool_del_node_all.simps, auto)

lemma take_batch_Some:
  assumes "n \<le> length (tp_head p)"
  shows "\<exists>p'. trs_id_pool_take_batch n p = Some (take n (tp_head p), p') \<and> trs_id_pool_frame p p' \<and>
           tp_head p' = drop n (tp_head p) \<and> tp_alloc_num p' = tp_alloc_num p \<and>
           tp_allocatable_num p' = tp_allocatable_num p - of_nat n"
  using assms
proof (induction n arbitrary: p)
  case (Suc n)
  then obtain i js where h: "tp_head p = i # js" by (cases "tp_head p") auto
  let ?q = "trs_id_pool_del_node p"
  have "n \<le> length (tp_head ?q)" using Suc.prems h by (simp add: trs_id_pool_del_node_def)
  from Suc.IH [OF this] h show ?case
    by (auto simp: trs_id_pool_alloc_one_id_def trs_id_pool_frame_def trs_id_pool_del_node_def)
qed simp

lemma take_batch_ok:
  assumes "trs_id_pool_ok p" "n \<le> length (tp_head p)" "trs_id_pool_take_batch n p = Some (is, p')"
  shows "trs_id_pool_ok p' \<and> is = take n (tp_head p) \<and> tp_head p' = drop n (tp_head p) \<and>
         trs_id_pool_frame p p' \<and> tp_alloc_num p' = tp_alloc_num p"
  using take_batch_Some [OF assms(2)] assms by (auto simp: pool_simps of_nat_diff)

section \<open>Returning the cached ids in batches\<close>

text \<open>The specification of \<^verbatim>\<open>trs_id_pool_free_batch\<close>: the list cut into chunks of the batch size.\<close>

function free_chunks ::
    "('s \<Rightarrow> trs_id_inst \<Rightarrow> int \<Rightarrow> u32 list \<Rightarrow> int \<times> 's) \<Rightarrow> trs_id_inst \<Rightarrow> int \<Rightarrow> nat \<Rightarrow> u32 list \<Rightarrow> 's \<Rightarrow>
     int \<times> u32 list \<times> 's" where
  "free_chunks fb inst ty b is s =
     (if is = [] \<or> b = 0 then (0, is, s)
      else case fb s inst ty (take b is) of
        (ret, s') \<Rightarrow> if ret \<noteq> 0 then (ret, drop b is, s') else free_chunks fb inst ty b (drop b is) s')"
  by pat_completeness auto
termination by (relation "measure (\<lambda>(fb, inst, ty, b, is, s). length is)") auto

declare free_chunks.simps [simp del]

lemma unat_min: "unat (min a b) = min (unat a) (unat (b :: 'a::len word))"
  by (simp add: min_def word_le_nat_alt)

lemma free_batch_loop_chunks:
  assumes "trs_id_pool_ok p" "length (tp_head p) < 2 ^ 32" "0 < ta_batch_num (tp_attr p)"
  shows "\<exists>p'. trs_id_free_batch_loop fb p s =
           (case free_chunks fb (tp_inst p) (tp_type p) (unat (ta_batch_num (tp_attr p))) (tp_head p) s of
              (ret, rest, s') \<Rightarrow> Some (ret, p', s')) \<and>
           tp_head p' = fst (snd (free_chunks fb (tp_inst p) (tp_type p) (unat (ta_batch_num (tp_attr p))) (tp_head p) s)) \<and>
           trs_id_pool_frame p p' \<and> trs_id_pool_ok p' \<and> tp_alloc_num p' = tp_alloc_num p"
  using assms
proof (induction "length (tp_head p)" arbitrary: p s rule: less_induct)
  case less
  let ?b = "unat (ta_batch_num (tp_attr p))"
  have alloc: "unat (tp_allocatable_num p) = length (tp_head p)"
    using less.prems by (simp add: trs_id_pool_ok_def unat_of_nat)
  have b0: "0 < ?b" using less.prems(3) by (simp add: word_less_nat_alt)
  show ?case
  proof (cases "tp_head p = []")
    case True
    then have "tp_allocatable_num p = 0" using less.prems(1) by (simp add: trs_id_pool_ok_def)
    then show ?thesis using True less.prems(1)
      by (simp add: trs_id_free_batch_loop.simps free_chunks.simps)
  next
    case False
    have pos: "tp_allocatable_num p > 0" using alloc False by (simp add: word_less_nat_alt)
    let ?n = "min (length (tp_head p)) ?b"
    have n: "unat (min (tp_allocatable_num p) (ta_batch_num (tp_attr p))) = ?n"
      by (simp add: unat_min alloc)
    obtain p1 where p1: "trs_id_pool_take_batch ?n p = Some (take ?n (tp_head p), p1)"
      using take_batch_Some [of ?n p] by auto
    then have p1': "trs_id_pool_ok p1" "tp_head p1 = drop ?n (tp_head p)" "trs_id_pool_frame p p1"
        "tp_alloc_num p1 = tp_alloc_num p"
      using take_batch_ok [OF less.prems(1) _ p1] by auto
    have td: "take ?n (tp_head p) = take ?b (tp_head p)" "drop ?n (tp_head p) = drop ?b (tp_head p)"
      by (auto simp: min_def)
    obtain ret s1 where f: "fb s (tp_inst p) (tp_type p) (take ?b (tp_head p)) = (ret, s1)"
      by (cases "fb s (tp_inst p) (tp_type p) (take ?b (tp_head p))")
    have L: "trs_id_free_batch_loop fb p s =
        (if ret \<noteq> 0 then Some (ret, p1, s1) else trs_id_free_batch_loop fb p1 s1)"
      using p1 f pos n td by (subst trs_id_free_batch_loop.simps) simp
    have C: "free_chunks fb (tp_inst p) (tp_type p) ?b (tp_head p) s =
        (if ret \<noteq> 0 then (ret, drop ?b (tp_head p), s1)
         else free_chunks fb (tp_inst p) (tp_type p) ?b (drop ?b (tp_head p)) s1)"
      using f False b0 by (subst free_chunks.simps) simp
    show ?thesis
    proof (cases "ret = 0")
      case False
      then show ?thesis using L C p1' td by auto
    next
      case True
      have fr: "tp_inst p1 = tp_inst p" "tp_type p1 = tp_type p" "tp_attr p1 = tp_attr p"
        using p1'(3) by (auto simp: trs_id_pool_frame_def)
      have lt: "length (tp_head p1) < length (tp_head p)" using p1'(2) b0 False by simp
      then have "length (tp_head p1) < 2 ^ 32" using less.prems(2) by linarith
      from less.hyps [OF lt p1'(1) this, of s1] less.prems(3) fr p1'(2) td
      obtain p' where "trs_id_free_batch_loop fb p1 s1 =
           (case free_chunks fb (tp_inst p) (tp_type p) ?b (drop ?b (tp_head p)) s1 of
              (ret, rest, s') \<Rightarrow> Some (ret, p', s'))"
           "tp_head p' = fst (snd (free_chunks fb (tp_inst p) (tp_type p) ?b (drop ?b (tp_head p)) s1))"
           "trs_id_pool_frame p1 p'" "trs_id_pool_ok p'" "tp_alloc_num p' = tp_alloc_num p1"
        by auto
      then show ?thesis using L C True p1'(3,4) frame_trans by fastforce
    qed
  qed
qed

lemma free_batch_loop_ends:
  assumes "trs_id_pool_ok p" "0 < ta_batch_num (tp_attr p)"
  shows "\<exists>ret p' s'. trs_id_free_batch_loop fb p s = Some (ret, p', s') \<and> trs_id_pool_ok p' \<and>
           trs_id_pool_frame p p' \<and> tp_alloc_num p' = tp_alloc_num p \<and> set (tp_head p') \<subseteq> set (tp_head p)"
  using assms
proof (induction "length (tp_head p)" arbitrary: p s rule: less_induct)
  case less
  show ?case
  proof (cases "tp_allocatable_num p > 0")
    case False
    then show ?thesis using less.prems(1) by (subst trs_id_free_batch_loop.simps) simp
  next
    case True
    let ?n = "unat (min (tp_allocatable_num p) (ta_batch_num (tp_attr p)))"
    have n0: "0 < ?n" using True less.prems(2) by (simp add: word_less_nat_alt unat_min)
    have "?n \<le> unat (tp_allocatable_num p)" by (simp add: unat_min)
    also have "\<dots> \<le> length (tp_head p)"
      using less.prems(1) of_nat_le_length [of "tp_head p"] by (simp add: trs_id_pool_ok_def)
    finally have nl: "?n \<le> length (tp_head p)" .
    obtain p1 where p1: "trs_id_pool_take_batch ?n p = Some (take ?n (tp_head p), p1)"
      using take_batch_Some [OF nl] by auto
    then have p1': "trs_id_pool_ok p1" "tp_head p1 = drop ?n (tp_head p)" "trs_id_pool_frame p p1"
        "tp_alloc_num p1 = tp_alloc_num p"
      using take_batch_ok [OF less.prems(1) nl p1] by auto
    obtain ret s1 where f: "fb s (tp_inst p) (tp_type p) (take ?n (tp_head p)) = (ret, s1)"
      by (cases "fb s (tp_inst p) (tp_type p) (take ?n (tp_head p))")
    have L: "trs_id_free_batch_loop fb p s =
        (if ret \<noteq> 0 then Some (ret, p1, s1) else trs_id_free_batch_loop fb p1 s1)"
      using p1 f True by (subst trs_id_free_batch_loop.simps) simp
    have sub: "set (tp_head p1) \<subseteq> set (tp_head p)" using p1'(2) by (simp add: set_drop_subset)
    have "length (tp_head p1) < length (tp_head p)" using p1'(2) n0 nl by simp
    moreover have "0 < ta_batch_num (tp_attr p1)"
      using p1'(3) less.prems(2) by (simp add: trs_id_pool_frame_def)
    ultimately obtain r p2 s2 where "trs_id_free_batch_loop fb p1 s1 = Some (r, p2, s2)" "trs_id_pool_ok p2"
        "trs_id_pool_frame p1 p2" "tp_alloc_num p2 = tp_alloc_num p1" "set (tp_head p2) \<subseteq> set (tp_head p1)"
      using less.hyps [OF _ p1'(1)] by blast
    then show ?thesis using L p1' sub frame_trans by (cases "ret = 0") fastforce+
  qed
qed

lemma pool_free_batch_ends:
  assumes "trs_id_pool_ok p"
  shows "\<exists>ret p' s'. trs_id_pool_free_batch p s = Some (ret, p', s') \<and> trs_id_pool_ok p' \<and>
           trs_id_pool_frame p p' \<and> tp_alloc_num p' = tp_alloc_num p \<and> set (tp_head p') \<subseteq> set (tp_head p)"
proof (cases "op_free_batch (tp_ops p)")
  case None
  then show ?thesis using assms by (simp add: trs_id_pool_free_batch_def)
next
  case (Some fb)
  then have "0 < ta_batch_num (tp_attr p)" using assms by (simp add: trs_id_pool_ok_def)
  from free_batch_loop_ends [OF assms this, of fb s] Some show ?thesis
    by (auto simp: trs_id_pool_free_batch_def)
qed

lemma pool_destroy_ends: "trs_id_pool_ok p \<Longrightarrow> \<exists>s'. trs_id_pool_destroy p s = Some s'"
  using pool_free_batch_ends [of p s] by (auto simp: trs_id_pool_destroy_def split: option.splits)

section \<open>Every operation on a pool keeps it well formed\<close>

lemma set_alloc_num_ok [simp]:
  "trs_id_pool_ok (p\<lparr>tp_alloc_num := n\<rparr>) = trs_id_pool_ok p"
  "trs_id_pool_frame q (p\<lparr>tp_alloc_num := n\<rparr>) = trs_id_pool_frame q p"
  by (simp_all add: pool_simps)

lemma cache_ids_ok:
  assumes "trs_id_pool_ok p" "op_free_batch (tp_ops p) \<noteq> None"
  shows "\<exists>p' s'. trs_id_cache_ids mem k ids p s = Some (p', s') \<and> trs_id_pool_ok p' \<and>
           trs_id_pool_frame p p' \<and> tp_alloc_num p' = tp_alloc_num p"
  using assms
proof (induction ids arbitrary: k p s)
  case (Cons i ids)
  show ?case
  proof (cases "trs_id_pool_range_check p i = 0")
    case False
    then show ?thesis using Cons by simp
  next
    case in_range: True
    show ?thesis
    proof (rule add_node_cases [where mem = "mem k" and p = p and i = i])
      assume "\<not> mem k" "trs_id_pool_add_node (mem k) p i = (- ENOMEM, p)"
      then show ?thesis using in_range Cons.prems by auto
    next
      fix p'
      assume 2: "mem k" "trs_id_pool_add_node (mem k) p i = (0, p')" "trs_id_pool_frame p p'"
        "tp_alloc_num p' = tp_alloc_num p"
      have "trs_id_pool_ok p'" using add_node_ok [OF Cons.prems(1), of "mem k" i] 2 by simp
      moreover have "op_free_batch (tp_ops p') \<noteq> None" using 2 Cons.prems(2) by (simp add: trs_id_pool_frame_def)
      ultimately show ?thesis using Cons.IH [of p' "Suc k" s] 2 in_range frame_trans by fastforce
    qed
  qed
qed simp

lemma alloc_batch_ok:
  assumes "trs_id_pool_ok p"
  shows "\<exists>p' s'. trs_id_pool_alloc_batch mem p s = Some (p', s') \<and> trs_id_pool_ok p' \<and>
           trs_id_pool_frame p p' \<and> tp_alloc_num p' = tp_alloc_num p"
proof -
  have "op_alloc_batch (tp_ops p) \<noteq> None \<Longrightarrow> op_free_batch (tp_ops p) \<noteq> None"
    using assms by (auto simp: trs_id_pool_ok_def trs_id_ops_ok_def)
  with assms cache_ids_ok [OF assms] show ?thesis
    by (auto simp: trs_id_pool_alloc_batch_def Let_def split: option.splits prod.splits)
qed

lemma alloc_one_ok:
  assumes "trs_id_pool_ok p" "tp_allocatable_num p \<noteq> 0"
  shows "\<exists>i js p'. tp_head p = i # js \<and> trs_id_pool_alloc_one_id p = Some (i, p') \<and> tp_head p' = js \<and>
           trs_id_pool_ok p' \<and> trs_id_pool_frame p p' \<and> tp_alloc_num p' = tp_alloc_num p"
proof -
  have ne: "tp_head p \<noteq> []" using assms by (auto simp: trs_id_pool_ok_def)
  with del_node_ok [OF assms(1) ne] show ?thesis
    by (cases "tp_head p") (auto simp: trs_id_pool_alloc_one_id_def trs_id_pool_del_node_def trs_id_pool_frame_def)
qed

lemma pool_alloc_ok:
  assumes ok: "trs_id_pool_ok p"
  shows "\<exists>ret i p' s'. trs_id_pool_alloc mem p s = Some (ret, i, p', s') \<and> trs_id_pool_ok p' \<and> trs_id_pool_frame p p'"
proof (cases "trs_id_non_cache p")
  case True
  then have "op_alloc_batch (tp_ops p) \<noteq> None"
    using ok by (auto simp: trs_id_non_cache_def trs_id_pool_ok_def trs_id_ops_ok_def split: option.splits)
  with True ok show ?thesis
    by (auto simp: trs_id_pool_alloc_def trs_id_alloc_non_cache_def split: prod.splits)
next
  case False
  obtain p1 s1 where p1: "(if tp_allocatable_num p = 0 then trs_id_pool_alloc_batch mem p s else Some (p, s)) = Some (p1, s1)"
      "trs_id_pool_ok p1" "trs_id_pool_frame p p1"
    using alloc_batch_ok [OF ok, of mem s] ok by (cases "tp_allocatable_num p = 0") auto
  show ?thesis
  proof (cases "tp_allocatable_num p1 = 0")
    case True
    with p1 False show ?thesis by (simp add: trs_id_pool_alloc_def trs_id_alloc_cache_def)
  next
    case ne: False
    with alloc_one_ok [OF p1(2)] p1 False frame_trans show ?thesis
      by (fastforce simp: trs_id_pool_alloc_def trs_id_alloc_cache_def)
  qed
qed

lemma free_non_cache_ok:
  assumes "trs_id_pool_ok p" "op_free_batch (tp_ops p) \<noteq> None"
  shows "\<exists>ret p' s'. trs_id_free_non_cache p s i = Some (ret, p', s') \<and> trs_id_pool_ok p' \<and> trs_id_pool_frame p p'"
  using assms by (auto simp: trs_id_free_non_cache_def split: prod.splits)

lemma pool_free_ok:
  assumes ok: "trs_id_pool_ok p"
  shows "\<exists>ret p' s'. trs_id_pool_free mem p s i = Some (ret, p', s') \<and> trs_id_pool_ok p' \<and> trs_id_pool_frame p p'"
proof -
  have nc: "op_free_batch (tp_ops p) \<noteq> None" if "trs_id_non_cache p"
    using that ok by (auto simp: trs_id_non_cache_def trs_id_pool_ok_def trs_id_ops_ok_def split: option.splits)
  have loc: "op_free_batch (tp_ops p) \<noteq> None" if "\<not> trs_id_is_local_type (tp_type p)"
    using that ok by (auto simp: trs_id_pool_ok_def)
  have "\<exists>ret p' s'. trs_id_free_cache mem p s i = Some (ret, p', s') \<and> trs_id_pool_ok p' \<and> trs_id_pool_frame p p'"
  proof (rule add_node_cases [where mem = mem and p = p and i = i])
    assume "trs_id_pool_add_node mem p i = (- ENOMEM, p)"
    then show ?thesis using ok free_non_cache_ok [OF ok loc, of s i] by (auto simp: trs_id_free_cache_def)
  next
    fix p'
    assume "trs_id_pool_add_node mem p i = (0, p')" "trs_id_pool_frame p p'"
    then show ?thesis using add_node_ok [OF ok, of mem i] by (auto simp: trs_id_free_cache_def)
  qed
  with free_non_cache_ok [OF ok nc, of s i] ok show ?thesis
    by (auto simp: trs_id_pool_free_def Let_def)
qed

lemmas pool_op_ok = pool_alloc_ok pool_free_ok pool_free_batch_ends

section \<open>References to pools\<close>

lemma param_check_Some:
  "trs_id_param_check inst ty = 0 \<longleftrightarrow>
     (\<exists>i. inst = Some i \<and> ti_devid i < TRS_DEV_MAX_NUM \<and> ti_tsid i < TRS_TS_MAX_NUM \<and> 0 \<le> ty \<and> ty < TRS_ID_TYPE_MAX)"
  by (auto simp: trs_id_param_check_def trs_id_inst_check_def trs_id_type_check_def Let_def
      linorder_not_less linorder_not_le split: option.splits if_splits)

lemma ts_inst_unat:
  assumes "ti_devid i < TRS_DEV_MAX_NUM" "ti_tsid i < TRS_TS_MAX_NUM"
  shows "unat (trs_id_inst_to_ts_inst i) = 2 * unat (ti_devid i) + unat (ti_tsid i)"
    "unat (trs_id_inst_to_ts_inst i) < 2248"
proof -
  have b: "unat (ti_devid i) < 1124" "unat (ti_tsid i) < 2" using assms by (simp_all add: word_less_nat_alt)
  then show e: "unat (trs_id_inst_to_ts_inst i) = 2 * unat (ti_devid i) + unat (ti_tsid i)"
    by (simp add: trs_id_inst_to_ts_inst_def unat_word_ariths)
  show "unat (trs_id_inst_to_ts_inst i) < 2248" using b e by linarith
qed

lemma key_in_all_keys:
  assumes "trs_id_param_check (Some i) ty = 0"
  shows "trs_id_key i ty \<in> set trs_id_all_keys"
proof -
  have "unat (trs_id_inst_to_ts_inst i) < 2248" "0 \<le> ty" "ty < 19"
    using assms ts_inst_unat(2) [of i] by (auto simp: param_check_Some)
  then have "unat (trs_id_inst_to_ts_inst i) \<in> set [0 ..< 2248]" "ty \<in> set [0 .. 18]" by auto
  moreover have "trs_id_key i ty = TrsIdIdx (of_nat (unat (trs_id_inst_to_ts_inst i))) ty"
    by (simp add: trs_id_key_def)
  moreover have "TrsIdIdx (of_nat t) y \<in> set trs_id_all_keys" if "t \<in> set [0 ..< 2248]" "y \<in> set [0 .. 18]" for t y
    unfolding trs_id_all_keys_def set_concat set_map image_image
    by (rule UN_I [OF that(1)]) (simp only: set_map imageI [OF that(2)])
  ultimately show ?thesis by metis
qed

lemma key_inj:
  assumes "trs_id_param_check (Some i) ty = 0" "trs_id_param_check (Some j) ty' = 0"
    "trs_id_key i ty = trs_id_key j ty'"
  shows "ti_devid i = ti_devid j \<and> ti_tsid i = ti_tsid j \<and> ty = ty'"
proof -
  have b: "unat (ti_tsid i) < 2" "unat (ti_tsid j) < 2"
    using assms(1,2) by (auto simp: param_check_Some word_less_nat_alt)
  have "2 * unat (ti_devid i) + unat (ti_tsid i) = 2 * unat (ti_devid j) + unat (ti_tsid j)"
    using assms ts_inst_unat(1) [of i] ts_inst_unat(1) [of j] by (auto simp: param_check_Some trs_id_key_def)
  with b have "unat (ti_devid i) = unat (ti_devid j)" "unat (ti_tsid i) = unat (ti_tsid j)" by presburger+
  with assms(3) show ?thesis by (simp add: trs_id_key_def word_unat_eq_iff)
qed

text \<open>
  \<open>trs_ids_inv st H\<close>: \<open>H\<close> is the multiset of references that callers hold (obtained from
  \<^verbatim>\<open>trs_id_pool_get\<close>, not yet put). The count of a live pool is the number of these plus one when the
  table points to it; a pool the table or a caller refers to is live.
\<close>

definition trs_ids_inv :: "'s trs_ids \<Rightarrow> nat multiset \<Rightarrow> bool" where
  "trs_ids_inv st H \<longleftrightarrow>
     (\<forall>a p. ts_heap st a = Some p \<longrightarrow>
        trs_id_pool_ok p \<and> 0 < tp_ref p \<and>
        tp_ref p = count H a + (if a \<in> ran (ts_table st) then 1 else 0)) \<and>
     (\<forall>a. a \<in># H \<longrightarrow> ts_heap st a \<noteq> None) \<and>
     (\<forall>k a. ts_table st k = Some a \<longrightarrow> k \<in> set trs_id_all_keys \<and>
        (\<exists>p. ts_heap st a = Some p \<and> k = trs_id_key (tp_inst p) (tp_type p)))"

declare count_greater_zero_iff [simp del] count_eq_zero_iff [simp del] count_greater_eq_one_iff [simp del]

lemma set_ref_ok [simp]: "trs_id_pool_ok (p\<lparr>tp_ref := n\<rparr>) = trs_id_pool_ok p"
  by (simp add: trs_id_pool_ok_def)

lemma inv_heapD:
  "trs_ids_inv st H \<Longrightarrow> ts_heap st a = Some p \<Longrightarrow>
   trs_id_pool_ok p \<and> 0 < tp_ref p \<and> tp_ref p = count H a + (if a \<in> ran (ts_table st) then 1 else 0)"
  unfolding trs_ids_inv_def by blast

lemma inv_heldD: "trs_ids_inv st H \<Longrightarrow> a \<in># H \<Longrightarrow> \<exists>p. ts_heap st a = Some p"
  by (simp add: trs_ids_inv_def)

lemma inv_tableD:
  "trs_ids_inv st H \<Longrightarrow> ts_table st k = Some a \<Longrightarrow>
   k \<in> set trs_id_all_keys \<and> (\<exists>p. ts_heap st a = Some p \<and> k = trs_id_key (tp_inst p) (tp_type p))"
  by (simp add: trs_ids_inv_def)

lemma inv_live_iff:
  assumes "trs_ids_inv st H"
  shows "ts_heap st a \<noteq> None \<longleftrightarrow> a \<in># H \<or> a \<in> ran (ts_table st)"
proof
  assume "ts_heap st a \<noteq> None"
  then obtain p where "ts_heap st a = Some p" by auto
  from inv_heapD [OF assms this] have "0 < count H a + (if a \<in> ran (ts_table st) then 1 else 0)" by metis
  then show "a \<in># H \<or> a \<in> ran (ts_table st)"
    by (cases "a \<in> ran (ts_table st)") (simp_all add: count_greater_zero_iff)
next
  assume "a \<in># H \<or> a \<in> ran (ts_table st)"
  then show "ts_heap st a \<noteq> None"
    using inv_heldD [OF assms, of a] inv_tableD [OF assms, of _ a] by (force simp: ran_def)
qed

text \<open>Dropping a reference held by a caller.\<close>

lemma kref_put_inv:
  assumes inv: "trs_ids_inv st H" and a: "a \<in># H"
  shows "\<exists>st'. trs_id_pool_kref_put st a = Some st' \<and> trs_ids_inv st' (H - {#a#}) \<and> ts_table st' = ts_table st"
proof -
  obtain p where p: "ts_heap st a = Some p" using inv_heldD [OF inv a] by auto
  from inv_heapD [OF inv p] have ok: "trs_id_pool_ok p" and r: "0 < tp_ref p"
    "tp_ref p = count H a + (if a \<in> ran (ts_table st) then 1 else 0)" by auto
  have c: "count H a \<noteq> 0" using a by (simp add: count_eq_zero_iff)
  show ?thesis
  proof (cases "tp_ref p = 1")
    case True
    then have nt: "a \<notin> ran (ts_table st)" and c1: "count H a = 1" using r(2) c
      by (cases "a \<in> ran (ts_table st)"; simp)+
    obtain s' where s': "trs_id_pool_destroy p (ts_back st) = Some s'" using pool_destroy_ends [OF ok] by blast
    let ?st' = "st\<lparr>ts_heap := (ts_heap st)(a := None), ts_back := s'\<rparr>"
    have "trs_ids_inv ?st' (H - {#a#})"
      unfolding trs_ids_inv_def
    proof (intro conjI allI impI)
      fix b assume "b \<in># H - {#a#}"
      then have "b \<in># H" by (rule in_diffD)
      moreover have "b \<noteq> a" using \<open>b \<in># H - {#a#}\<close> c1 by (auto simp: in_diff_count)
      ultimately have "b \<in># H" "b \<noteq> a" .
      then show "ts_heap ?st' b \<noteq> None" using inv_heldD [OF inv] by auto
    next
      fix k b assume "ts_table ?st' k = Some b"
      moreover from this have "b \<noteq> a" using nt by (auto simp: ran_def)
      ultimately show "k \<in> set trs_id_all_keys" "\<exists>p. ts_heap ?st' b = Some p \<and> k = trs_id_key (tp_inst p) (tp_type p)"
        using inv_tableD [OF inv, of k b] by auto
    next
      fix b q assume q: "ts_heap ?st' b = Some q"
      then have b: "b \<noteq> a" "ts_heap st b = Some q" by (auto split: if_splits)
      from inv_heapD [OF inv b(2)] show "trs_id_pool_ok q" "0 < tp_ref q" by blast+
      from inv_heapD [OF inv b(2)] b(1)
      show "tp_ref q = count (H - {#a#}) b + (if b \<in> ran (ts_table ?st') then 1 else 0)"
        by simp
    qed
    with True p s' show ?thesis by (auto simp: trs_id_pool_kref_put_def)
  next
    case False
    let ?st' = "st\<lparr>ts_heap := (ts_heap st)(a \<mapsto> p\<lparr>tp_ref := tp_ref p - 1\<rparr>)\<rparr>"
    have "trs_ids_inv ?st' (H - {#a#})"
      unfolding trs_ids_inv_def
    proof (intro conjI allI impI)
      fix b assume "b \<in># H - {#a#}"
      then show "ts_heap ?st' b \<noteq> None" using inv_heldD [OF inv, of b] by (auto dest: in_diffD)
    next
      fix k b assume "ts_table ?st' k = Some b"
      then show "k \<in> set trs_id_all_keys" "\<exists>p. ts_heap ?st' b = Some p \<and> k = trs_id_key (tp_inst p) (tp_type p)"
        using inv_tableD [OF inv, of k b] p by auto
    next
      fix b q assume q: "ts_heap ?st' b = Some q"
      show "trs_id_pool_ok q" "0 < tp_ref q"
        "tp_ref q = count (H - {#a#}) b + (if b \<in> ran (ts_table ?st') then 1 else 0)"
        using q inv_heapD [OF inv, of b] ok r c False by (auto split: if_splits)
    qed
    with False r p show ?thesis by (auto simp: trs_id_pool_kref_put_def)
  qed
qed

lemma pool_put_inv:
  "trs_ids_inv st H \<Longrightarrow> a \<in># H \<Longrightarrow>
   \<exists>st'. trs_id_pool_put st a = Some st' \<and> trs_ids_inv st' (H - {#a#}) \<and> ts_table st' = ts_table st"
  by (simp add: trs_id_pool_put_def kref_put_inv)

text \<open>Taking a pool out of the table turns the table's reference into the caller's.\<close>

lemma table_clear_inv:
  assumes inv: "trs_ids_inv st H" and a: "ts_table st k = Some a"
  shows "trs_ids_inv (st\<lparr>ts_table := (ts_table st)(k := None)\<rparr>) (add_mset a H)"
proof -
  have uniq: "j = k" if "ts_table st j = Some a" for j
    using inv_tableD [OF inv that] inv_tableD [OF inv a] by auto
  have ran: "ran ((ts_table st)(k := None)) = ran (ts_table st) - {a}"
  proof (intro set_eqI iffI)
    fix b assume "b \<in> ran ((ts_table st)(k := None))"
    then obtain j where j: "j \<noteq> k" "ts_table st j = Some b" by (auto simp: ran_def split: if_splits)
    then show "b \<in> ran (ts_table st) - {a}" using uniq [of j] by (auto simp: ran_def)
  next
    fix b assume "b \<in> ran (ts_table st) - {a}"
    then obtain j where "ts_table st j = Some b" "b \<noteq> a" by (auto simp: ran_def)
    moreover from this have "j \<noteq> k" using a by auto
    ultimately show "b \<in> ran ((ts_table st)(k := None))" by (auto simp: ran_def intro!: exI [of _ j])
  qed
  have ar: "a \<in> ran (ts_table st)" using a by (auto simp: ran_def)
  show ?thesis unfolding trs_ids_inv_def
  proof (intro conjI allI impI)
    fix b assume "b \<in># add_mset a H"
    then show "ts_heap (st\<lparr>ts_table := (ts_table st)(k := None)\<rparr>) b \<noteq> None"
      using inv_heldD [OF inv, of b] inv_tableD [OF inv a] by auto
  next
    fix b q assume "ts_heap (st\<lparr>ts_table := (ts_table st)(k := None)\<rparr>) b = Some q"
    then have "ts_heap st b = Some q" by simp
    from inv_heapD [OF inv this] ar show "trs_id_pool_ok q" "0 < tp_ref q"
      "tp_ref q = count (add_mset a H) b +
        (if b \<in> ran (ts_table (st\<lparr>ts_table := (ts_table st)(k := None)\<rparr>)) then 1 else 0)"
      by (auto simp: ran split: if_splits)
  qed (use inv_tableD [OF inv] in \<open>auto split: if_splits\<close>)
qed

lemma pool_del_inv:
  assumes inv: "trs_ids_inv st H"
  shows "\<exists>st'. trs_id_pool_del st inst ty = Some st' \<and> trs_ids_inv st' H \<and>
           ts_table st' = (ts_table st)(trs_id_key inst ty := None)"
proof (cases "ts_table st (trs_id_key inst ty)")
  case None
  then have "(ts_table st)(trs_id_key inst ty := None) = ts_table st" by auto
  then show ?thesis using inv None by (auto simp: trs_id_pool_del_def Let_def)
next
  case (Some a)
  from kref_put_inv [OF table_clear_inv [OF inv Some], of a] Some show ?thesis
    by (auto simp: trs_id_pool_del_def Let_def)
qed

lemma trs_unregister_inv:
  assumes "trs_ids_inv st H"
  shows "\<exists>ret st'. trs_id_unregister st inst ty = Some (ret, st') \<and> trs_ids_inv st' H"
  using pool_del_inv [OF assms, of "the inst" ty] assms by (auto simp: trs_id_unregister_def)

lemma pool_get_inv:
  assumes inv: "trs_ids_inv st H"
  shows "(\<exists>st'. trs_id_pool_get modok st inst ty = Some (None, st') \<and> st' = st) \<or>
         (\<exists>a p st'. trs_id_pool_get modok st inst ty = Some (Some a, st') \<and> trs_ids_inv st' (add_mset a H) \<and>
            ts_table st (trs_id_key (the inst) ty) = Some a \<and> ts_heap st a = Some p \<and>
            st' = st\<lparr>ts_heap := (ts_heap st)(a \<mapsto> p\<lparr>tp_ref := tp_ref p + 1\<rparr>)\<rparr>)"
proof (cases "trs_id_param_check inst ty = 0 \<and> ts_table st (trs_id_key (the inst) ty) \<noteq> None \<and> modok")
  case True
  then obtain a where a: "ts_table st (trs_id_key (the inst) ty) = Some a" by auto
  obtain p where p: "ts_heap st a = Some p" using inv_tableD [OF inv a] by auto
  let ?st' = "st\<lparr>ts_heap := (ts_heap st)(a \<mapsto> p\<lparr>tp_ref := tp_ref p + 1\<rparr>)\<rparr>"
  have "trs_ids_inv ?st' (add_mset a H)"
    unfolding trs_ids_inv_def
  proof (intro conjI allI impI)
    fix b q assume q: "ts_heap ?st' b = Some q"
    show "trs_id_pool_ok q" "0 < tp_ref q"
      "tp_ref q = count (add_mset a H) b + (if b \<in> ran (ts_table ?st') then 1 else 0)"
      using q inv_heapD [OF inv, of b] inv_heapD [OF inv p] by (auto split: if_splits)
  next
    fix b assume "b \<in># add_mset a H"
    then show "ts_heap ?st' b \<noteq> None" using inv_heldD [OF inv, of b] p by auto
  next
    fix k b assume "ts_table ?st' k = Some b"
    then show "k \<in> set trs_id_all_keys" "\<exists>p. ts_heap ?st' b = Some p \<and> k = trs_id_key (tp_inst p) (tp_type p)"
      using inv_tableD [OF inv, of k b] p by auto
  qed
  with True a p show ?thesis by (simp add: trs_id_pool_get_def)
next
  case False
  with inv_tableD [OF inv, of "trs_id_key (the inst) ty"] show ?thesis
    by (auto simp: trs_id_pool_get_def split: option.splits)
qed

text \<open>Work on a pool whose reference the caller holds.\<close>

lemma pool_work_inv:
  assumes inv: "trs_ids_inv st H" and p: "ts_heap st a = Some p" "trs_id_pool_ok p'" "trs_id_pool_frame p p'"
  shows "trs_ids_inv (st\<lparr>ts_heap := (ts_heap st)(a \<mapsto> p'), ts_back := s'\<rparr>) H"
  unfolding trs_ids_inv_def
proof (intro conjI allI impI)
  fix b q assume "ts_heap (st\<lparr>ts_heap := (ts_heap st)(a \<mapsto> p'), ts_back := s'\<rparr>) b = Some q"
  with inv_heapD [OF inv, of b] inv_heapD [OF inv p(1)] p(2,3)
  show "trs_id_pool_ok q" "0 < tp_ref q"
    "tp_ref q = count H b + (if b \<in> ran (ts_table (st\<lparr>ts_heap := (ts_heap st)(a \<mapsto> p'), ts_back := s'\<rparr>)) then 1 else 0)"
    by (auto simp: trs_id_pool_frame_def split: if_splits)
qed (use inv_heldD [OF inv] inv_tableD [OF inv] p in \<open>fastforce simp: trs_id_pool_frame_def\<close>)+

lemma pool_create_ok:
  assumes "trs_id_pool_create pool_mem mem inst ty attr ops = Some p"
    "ops = None \<longrightarrow> trs_id_is_local_type ty" "\<forall>o'. ops = Some o' \<longrightarrow> trs_id_ops_ok o' \<and> op_free_batch o' \<noteq> None"
  shows "trs_id_pool_ok p \<and> tp_ref p = 1 \<and> tp_inst p = inst \<and> tp_type p = ty"
proof -
  have all: "trs_id_pool_ok (snd (trs_id_node_all_from mem i stop q)) \<and> trs_id_pool_frame q (snd (trs_id_node_all_from mem i stop q))"
    if "trs_id_pool_ok q" "fst (trs_id_node_all_from mem i stop q) = 0" for mem :: "u32 \<Rightarrow> bool" and i stop and q :: "'a trs_id_pool"
    using that
  proof (induction mem i stop q rule: trs_id_node_all_from.induct)
    case (1 mem i stop q)
    show ?case
    proof (rule add_node_cases [where mem = "mem i" and p = q and i = i])
      assume "trs_id_pool_add_node (mem i) q i = (- ENOMEM, q)"
      then show ?thesis using 1(2,3) by (simp add: trs_id_node_all_from.simps [of mem i stop q] split: if_splits)
    next
      fix q' assume q': "trs_id_pool_add_node (mem i) q i = (0, q')" "trs_id_pool_frame q q'"
      show ?thesis
      proof (cases "i < stop")
        case True
        have "trs_id_pool_ok q'" using add_node_ok [OF 1(2), of "mem i" i] q' by simp
        then show ?thesis using 1(1) [OF True, of "(0, q')"] q' True 1(3) frame_trans
          by (fastforce simp: trs_id_node_all_from.simps [of mem i stop q])
      next
        case False
        then show ?thesis using 1(2) by (simp add: trs_id_node_all_from.simps [of mem i stop q])
      qed
    qed
  qed
  let ?p = "\<lparr>tp_inst = inst, tp_type = ty, tp_attr = attr, tp_allocatable_num = 0, tp_alloc_num = 0,
                    tp_head = [], tp_ops = no_ops, tp_ref = 1\<rparr>"
  have "trs_id_pool_ok ?p" if "ops = None"
    using that assms(2) by (simp add: trs_id_pool_ok_def trs_id_ops_ok_def no_ops_def)
  with assms all [of ?p mem "ta_id_start attr" "ta_id_end attr"] show ?thesis
    by (auto simp: trs_id_pool_create_def Let_def trs_id_node_all_def pool_simps linorder_not_less word_neq_0_conv
        split: if_splits option.splits prod.splits)
qed

text \<open>What the callers of \<^verbatim>\<open>trs_id_register\<close> pass: no callbacks exactly for the local types.\<close>

definition trs_id_reg_ok :: "int \<Rightarrow> 's trs_id_ops option \<Rightarrow> bool" where
  "trs_id_reg_ok ty ops \<longleftrightarrow>
     (case ops of None \<Rightarrow> trs_id_is_local_type ty | Some o' \<Rightarrow> trs_id_ops_ok o' \<and> op_free_batch o' \<noteq> None)"

lemma pool_create_reg_ok:
  "trs_id_pool_create pool_mem mem inst ty attr ops = Some p \<Longrightarrow> trs_id_reg_ok ty ops \<Longrightarrow>
   trs_id_pool_ok p \<and> tp_ref p = 1 \<and> tp_inst p = inst \<and> tp_type p = ty"
  by (erule pool_create_ok) (auto simp: trs_id_reg_ok_def)

lemma pool_add_inv:
  assumes inv: "trs_ids_inv st H" and p: "trs_id_pool_ok p" "tp_ref p = 1" "tp_type p = ty"
    and k: "trs_id_param_check (Some (tp_inst p)) ty = 0" and a: "ts_heap st a = None"
  shows "trs_ids_inv (snd (trs_id_pool_add st ty a p)) H"
proof (cases "ts_table st (trs_id_key (tp_inst p) ty)")
  case None
  let ?k = "trs_id_key (tp_inst p) ty"
  let ?st' = "st\<lparr>ts_table := (ts_table st)(?k \<mapsto> a), ts_heap := (ts_heap st)(a \<mapsto> p)\<rparr>"
  have na: "a \<notin># H" using inv_heldD [OF inv, of a] a by auto
  have fresh: "ts_table st j \<noteq> Some a" for j using inv_tableD [OF inv, of j a] a by auto
  have ran: "ran ((ts_table st)(?k \<mapsto> a)) = insert a (ran (ts_table st))" using None by (simp add: ran_map_upd)
  have "trs_ids_inv ?st' H"
    unfolding trs_ids_inv_def
  proof (intro conjI allI impI)
    fix b q assume q: "ts_heap ?st' b = Some q"
    have "trs_id_pool_ok q \<and> 0 < tp_ref q \<and> tp_ref q = count H b + (if b \<in> ran (ts_table ?st') then 1 else 0)"
    proof (cases "b = a")
      case True
      then show ?thesis using q p na ran by (simp add: count_eq_zero_iff)
    next
      case False
      then have e: "ts_heap st b = Some q" "b \<in> ran (ts_table ?st') \<longleftrightarrow> b \<in> ran (ts_table st)" using q ran by simp_all
      show ?thesis unfolding e(2) by (rule inv_heapD [OF inv e(1)])
    qed
    then show "trs_id_pool_ok q" "0 < tp_ref q" "tp_ref q = count H b + (if b \<in> ran (ts_table ?st') then 1 else 0)"
      by blast+
  next
    fix b assume "b \<in># H"
    then show "ts_heap ?st' b \<noteq> None" using inv_heldD [OF inv, of b] by auto
  next
    fix j b assume j: "ts_table ?st' j = Some b"
    have "j \<in> set trs_id_all_keys \<and> (\<exists>p. ts_heap ?st' b = Some p \<and> j = trs_id_key (tp_inst p) (tp_type p))"
    proof (cases "j = ?k")
      case True
      then show ?thesis using j p key_in_all_keys [OF k] by simp
    next
      case False
      then show ?thesis using j inv_tableD [OF inv, of j b] fresh [of j] by auto
    qed
    then show "j \<in> set trs_id_all_keys" "\<exists>p. ts_heap ?st' b = Some p \<and> j = trs_id_key (tp_inst p) (tp_type p)"
      by blast+
  qed
  with None show ?thesis by (simp add: trs_id_pool_add_def)
qed (simp add: trs_id_pool_add_def inv)

lemma set_back_inv [simp]: "trs_ids_inv (st\<lparr>ts_back := s\<rparr>) H = trs_ids_inv st H"
  by (simp add: trs_ids_inv_def)

lemma trs_register_inv:
  assumes inv: "trs_ids_inv st H" and a: "ts_heap st a = None" and ops: "trs_id_reg_ok ty ops"
  shows "\<exists>ret st'. trs_id_register pool_mem mem a st inst ty attr ops = Some (ret, st') \<and> trs_ids_inv st' H"
proof (cases "trs_id_param_check inst ty = 0 \<and> trs_id_attr_check attr = 0 \<and>
              trs_id_pool_create pool_mem mem (the inst) ty (the attr) ops \<noteq> None")
  case True
  then obtain p where p: "trs_id_pool_create pool_mem mem (the inst) ty (the attr) ops = Some p" by auto
  have po: "trs_id_pool_ok p" "tp_ref p = 1" "tp_inst p = the inst" "tp_type p = ty"
    using pool_create_reg_ok [OF p ops] by auto
  have k: "trs_id_param_check (Some (tp_inst p)) ty = 0" using True po(3) by (auto simp: param_check_Some)
  from pool_add_inv [OF inv po(1,2,4) k a] have add: "trs_ids_inv (snd (trs_id_pool_add st ty a p)) H" .
  obtain s' where "trs_id_pool_destroy p (ts_back (snd (trs_id_pool_add st ty a p))) = Some s'"
    using pool_destroy_ends [OF po(1)] by blast
  with True p add show ?thesis
    by (auto simp: trs_id_register_def split: prod.splits)
qed (use inv in \<open>auto simp: trs_id_register_def\<close>)

text \<open>An operation in the frame of \<^verbatim>\<open>trs_id_pool_get\<close> and \<^verbatim>\<open>trs_id_pool_put\<close>.\<close>

lemma with_pool_inv:
  assumes inv: "trs_ids_inv st H"
    and body: "\<And>p s. trs_id_pool_ok p \<Longrightarrow> \<exists>r p' s'. body p s = Some (r, p', s') \<and> trs_id_pool_ok p' \<and> trs_id_pool_frame p p'"
  shows "\<exists>r st'. trs_id_with_pool modok st inst ty nopool body = Some (r, st') \<and> trs_ids_inv st' H \<and>
           ts_table st' = ts_table st"
proof -
  consider (none) "trs_id_pool_get modok st inst ty = Some (None, st)"
    | (got) a p st1 where "trs_id_pool_get modok st inst ty = Some (Some a, st1)" "trs_ids_inv st1 (add_mset a H)"
        "st1 = st\<lparr>ts_heap := (ts_heap st)(a \<mapsto> p\<lparr>tp_ref := tp_ref p + 1\<rparr>)\<rparr>" "ts_heap st a = Some p"
    using pool_get_inv [OF inv, of modok inst ty] by blast
  then show ?thesis
  proof cases
    case none
    then show ?thesis using inv by (simp add: trs_id_with_pool_def)
  next
    case got
    let ?p = "p\<lparr>tp_ref := tp_ref p + 1\<rparr>"
    have h: "ts_heap st1 a = Some ?p" using got(3) by simp
    have "trs_id_pool_ok ?p" using inv_heapD [OF got(2) h] by simp
    then obtain r p' s' where b: "body ?p (ts_back st1) = Some (r, p', s')" "trs_id_pool_ok p'" "trs_id_pool_frame ?p p'"
      using body by blast
    have "trs_ids_inv (st1\<lparr>ts_heap := (ts_heap st1)(a \<mapsto> p'), ts_back := s'\<rparr>) (add_mset a H)"
      by (rule pool_work_inv [OF got(2) h b(2,3)])
    from pool_put_inv [OF this, of a] obtain st2 where
      "trs_id_pool_put (st1\<lparr>ts_heap := (ts_heap st1)(a \<mapsto> p'), ts_back := s'\<rparr>) a = Some st2"
      "trs_ids_inv st2 H" "ts_table st2 = ts_table st" using got(3) by auto
    with got(1) h b(1) show ?thesis by (simp add: trs_id_with_pool_def)
  qed
qed

text \<open>The effect of such an operation on the pool of the table.\<close>

lemma with_pool_effect:
  assumes inv: "trs_ids_inv st H" and c: "trs_id_param_check (Some i) ty = 0"
    and a: "ts_table st (trs_id_key i ty) = Some a" "ts_heap st a = Some p"
    and b: "body (p\<lparr>tp_ref := tp_ref p + 1\<rparr>) (ts_back st) = Some (r, p', s')" "tp_ref p' = tp_ref p + 1"
  shows "trs_id_with_pool True st (Some i) ty nopool body =
           Some (r, st\<lparr>ts_heap := (ts_heap st)(a \<mapsto> p'\<lparr>tp_ref := tp_ref p\<rparr>), ts_back := s'\<rparr>)"
proof -
  have "0 < tp_ref p" using inv_heapD [OF inv a(2)] by blast
  with c a b show ?thesis
    by (simp add: trs_id_with_pool_def trs_id_pool_get_def trs_id_pool_put_def trs_id_pool_kref_put_def)
qed

section \<open>Interleaved callers\<close>

text \<open>
  Threads interleave at the granularity of the two mutexes: a reference is taken or dropped and the
  table changed under \<^verbatim>\<open>g_trs_id_mutex\<close>, and a pool is worked on under its own mutex while a
  reference is held. \<open>H\<close> collects the references of all threads.
\<close>

inductive trs_id_cstep :: "'s trs_ids \<Rightarrow> nat multiset \<Rightarrow> 's trs_ids \<Rightarrow> nat multiset \<Rightarrow> bool" where
  cs_register: "ts_heap st a = None \<Longrightarrow> trs_id_reg_ok ty ops \<Longrightarrow>
    trs_id_register pool_mem mem a st inst ty attr ops = Some (ret, st') \<Longrightarrow> trs_id_cstep st H st' H"
| cs_unregister: "trs_id_unregister st inst ty = Some (ret, st') \<Longrightarrow> trs_id_cstep st H st' H"
| cs_get: "trs_id_pool_get modok st inst ty = Some (Some a, st') \<Longrightarrow> trs_id_cstep st H st' (add_mset a H)"
| cs_put: "a \<in># H \<Longrightarrow> trs_id_pool_put st a = Some st' \<Longrightarrow> trs_id_cstep st H st' (H - {#a#})"
| cs_alloc: "a \<in># H \<Longrightarrow> ts_heap st a = Some p \<Longrightarrow>
    trs_id_pool_alloc kmem p (ts_back st) = Some (ret, i, p', s') \<Longrightarrow>
    trs_id_cstep st H (st\<lparr>ts_heap := (ts_heap st)(a \<mapsto> p'), ts_back := s'\<rparr>) H"
| cs_free: "a \<in># H \<Longrightarrow> ts_heap st a = Some p \<Longrightarrow>
    trs_id_pool_free fmem p (ts_back st) j = Some (ret, p', s') \<Longrightarrow>
    trs_id_cstep st H (st\<lparr>ts_heap := (ts_heap st)(a \<mapsto> p'), ts_back := s'\<rparr>) H"
| cs_free_batch: "a \<in># H \<Longrightarrow> ts_heap st a = Some p \<Longrightarrow>
    trs_id_pool_free_batch p (ts_back st) = Some (ret, p', s') \<Longrightarrow>
    trs_id_cstep st H (st\<lparr>ts_heap := (ts_heap st)(a \<mapsto> p'), ts_back := s'\<rparr>) H"

inductive trs_id_creach :: "'s trs_ids \<Rightarrow> nat multiset \<Rightarrow> bool" where
  cr_init: "trs_id_creach \<lparr>ts_table = Map.empty, ts_heap = Map.empty, ts_back = s\<rparr> {#}"
| cr_step: "trs_id_creach st H \<Longrightarrow> trs_id_cstep st H st' H' \<Longrightarrow> trs_id_creach st' H'"

lemma cstep_inv:
  assumes "trs_id_cstep st H st' H'" "trs_ids_inv st H"
  shows "trs_ids_inv st' H'"
  using assms
proof cases
  case (cs_register a ty ops pool_mem mem inst attr ret)
  then show ?thesis using trs_register_inv [OF assms(2) cs_register(2,3), of pool_mem mem inst attr] by auto
next
  case (cs_unregister inst ty ret)
  then show ?thesis using trs_unregister_inv [OF assms(2), of inst ty] by auto
next
  case (cs_get modok inst ty a)
  then show ?thesis using pool_get_inv [OF assms(2), of modok inst ty] by auto
next
  case (cs_put a)
  then show ?thesis using pool_put_inv [OF assms(2)] by fastforce
next
  case (cs_alloc a p kmem ret i p' s')
  then show ?thesis
    using pool_work_inv [OF assms(2) cs_alloc(4)] pool_alloc_ok [of p kmem "ts_back st"] inv_heapD [OF assms(2) cs_alloc(4)]
    by fastforce
next
  case (cs_free a p fmem j ret p' s')
  then show ?thesis
    using pool_work_inv [OF assms(2) cs_free(4)] pool_free_ok [of p fmem "ts_back st" j] inv_heapD [OF assms(2) cs_free(4)]
    by fastforce
next
  case (cs_free_batch a p ret p' s')
  then show ?thesis
    using pool_work_inv [OF assms(2) cs_free_batch(4)] pool_free_batch_ends [of p "ts_back st"]
      inv_heapD [OF assms(2) cs_free_batch(4)]
    by fastforce
qed

lemma creach_inv: "trs_id_creach st H \<Longrightarrow> trs_ids_inv st H"
proof (induction rule: trs_id_creach.induct)
  case (cr_init s)
  show ?case by (simp add: trs_ids_inv_def)
qed (rule cstep_inv)

section \<open>Local pools\<close>

text \<open>
  A local pool has no backend. \<open>local_inv p out\<close>: the ids of the range are split into the free list,
  without repetition, and the set \<open>out\<close> of ids that clients hold, and both counters are exact.
\<close>

definition trs_id_range :: "'s trs_id_pool \<Rightarrow> u32 set" where
  "trs_id_range p = {ta_id_start (tp_attr p) ..< ta_id_end (tp_attr p)}"

definition local_inv :: "'s trs_id_pool \<Rightarrow> u32 set \<Rightarrow> bool" where
  "local_inv p out \<longleftrightarrow>
     tp_ops p = no_ops \<and> trs_id_is_local_type (tp_type p) \<and>
     tp_allocatable_num p = of_nat (length (tp_head p)) \<and> tp_alloc_num p = of_nat (card out) \<and>
     distinct (tp_head p) \<and> set (tp_head p) \<inter> out = {} \<and> set (tp_head p) \<union> out = trs_id_range p"

lemma range_card_less: "card (trs_id_range p) < 2 ^ 32"
proof (cases "ta_id_start (tp_attr p) \<le> ta_id_end (tp_attr p)")
  case True
  have "unat (ta_id_end (tp_attr p)) < 2 ^ 32" using unsigned_less [of "ta_id_end (tp_attr p)", where ?'a = nat] by simp
  then show ?thesis by (simp add: trs_id_range_def card_word_interval [OF True])
qed (simp add: trs_id_range_def)

lemma distinct_range_length:
  assumes "distinct xs" "set xs \<subseteq> trs_id_range p"
  shows "length xs < 2 ^ 32"
proof -
  have "length xs = card (set xs)" using assms(1) by (simp add: distinct_card)
  also have "\<dots> \<le> card (trs_id_range p)" using assms(2) by (intro card_mono) (simp add: trs_id_range_def)
  finally show ?thesis using range_card_less [of p] by linarith
qed

lemma range_check_iff: "trs_id_pool_range_check p i = 0 \<longleftrightarrow> i \<in> trs_id_range p"
  by (auto simp: trs_id_pool_range_check_def trs_id_range_def)

lemma local_inv_ok: "local_inv p out \<Longrightarrow> trs_id_pool_ok p"
  by (simp add: local_inv_def trs_id_pool_ok_def trs_id_ops_ok_def no_ops_def)

lemma local_empty_iff:
  assumes "local_inv p out"
  shows "tp_allocatable_num p = 0 \<longleftrightarrow> out = trs_id_range p"
proof -
  have "length (tp_head p) < 2 ^ 32"
    using assms by (intro distinct_range_length [of _ p]) (auto simp: local_inv_def)
  then have "unat (tp_allocatable_num p) = length (tp_head p)" using assms by (simp add: local_inv_def unat_of_nat)
  then have "tp_allocatable_num p = 0 \<longleftrightarrow> tp_head p = []"
    by (metis length_0_conv unat_0 unat_eq_zero)
  moreover have "tp_head p = [] \<longleftrightarrow> out = trs_id_range p"
  proof
    assume "out = trs_id_range p"
    moreover have "set (tp_head p) \<inter> out = {}" "set (tp_head p) \<subseteq> trs_id_range p"
      using assms by (auto simp: local_inv_def)
    ultimately have "set (tp_head p) = {}" by (simp add: inf.absorb1)
    then show "tp_head p = []" by simp
  qed (use assms in \<open>simp add: local_inv_def\<close>)
  ultimately show ?thesis by simp
qed

lemma card_out_insert: "i \<notin> out \<Longrightarrow> out \<subseteq> trs_id_range p \<Longrightarrow> card (insert i out) = Suc (card out)"
  by (meson card_insert_disjoint finite_atLeastLessThan finite_subset trs_id_range_def finite)

lemma local_alloc:
  assumes inv: "local_inv p out"
  shows "if out = trs_id_range p then trs_id_pool_alloc mem p s = Some (- ENOSPC, None, p, s)
         else \<exists>i p'. trs_id_pool_alloc mem p s = Some (0, Some i, p', s) \<and> i = hd (tp_head p) \<and>
                i \<in> trs_id_range p - out \<and> tp_head p' = tl (tp_head p) \<and>
                trs_id_pool_frame p p' \<and> local_inv p' (insert i out)"
proof -
  have nc: "\<not> trs_id_non_cache p" "op_alloc_batch (tp_ops p) = None"
    using inv by (simp_all add: local_inv_def trs_id_non_cache_def no_ops_def)
  have ab: "trs_id_pool_alloc_batch mem p s = Some (p, s)" using nc(2) by (simp add: trs_id_pool_alloc_batch_def Let_def)
  show ?thesis
  proof (cases "out = trs_id_range p")
    case True
    then show ?thesis using nc ab local_empty_iff [OF inv]
      by (simp add: trs_id_pool_alloc_def trs_id_alloc_cache_def)
  next
    case False
    then have ne: "tp_allocatable_num p \<noteq> 0" using local_empty_iff [OF inv] by simp
    obtain i js p' where h: "tp_head p = i # js" "trs_id_pool_alloc_one_id p = Some (i, p')" "tp_head p' = js"
      "trs_id_pool_ok p'" "trs_id_pool_frame p p'" "tp_alloc_num p' = tp_alloc_num p"
      using alloc_one_ok [OF local_inv_ok [OF inv] ne] by blast
    let ?p = "p'\<lparr>tp_alloc_num := tp_alloc_num p' + 1\<rparr>"
    have i: "i \<in> trs_id_range p" "i \<notin> out" "out \<subseteq> trs_id_range p" using inv h(1) by (auto simp: local_inv_def)
    have "local_inv ?p (insert i out)"
      using inv h i card_out_insert [OF i(2,3)]
      by (auto simp: local_inv_def trs_id_pool_frame_def trs_id_pool_ok_def trs_id_range_def)
    moreover have "trs_id_pool_alloc mem p s = Some (0, Some i, ?p, s)"
      using nc ne h by (simp add: trs_id_pool_alloc_def trs_id_alloc_cache_def)
    ultimately show ?thesis using False h i by auto
  qed
qed

lemma local_free:
  assumes inv: "local_inv p out" and i: "i \<in> out"
  shows "\<exists>p'. trs_id_pool_free mem p s i = Some (if mem then 0 else - ENOMEM, p', s) \<and>
           trs_id_pool_frame p p' \<and> local_inv p' (if mem then out - {i} else out) \<and>
           tp_head p' = (if \<not> mem then tp_head p else if i < ta_split (tp_attr p) then i # tp_head p else tp_head p @ [i])"
proof -
  have nc: "\<not> trs_id_non_cache p" "trs_id_is_local_type (tp_type p)"
    using inv by (simp_all add: local_inv_def trs_id_non_cache_def no_ops_def)
  have r: "trs_id_pool_range_check p i = 0" using inv i by (auto simp: range_check_iff local_inv_def)
  show ?thesis
  proof (cases mem)
    case False
    then show ?thesis using nc r inv
      by (simp add: trs_id_pool_free_def trs_id_free_cache_def trs_id_pool_add_node_def)
  next
    case True
    have fin: "finite out" using inv by (metis finite)
    have "card out = Suc (card (out - {i}))" using card_Suc_Diff1 [OF fin i] by simp
    then have "local_inv (snd (trs_id_pool_add_node True p i)\<lparr>tp_alloc_num := tp_alloc_num p - 1\<rparr>) (out - {i})"
      using inv i by (auto simp: local_inv_def trs_id_pool_add_node_def trs_id_range_def)
    then show ?thesis using True nc r
      by (auto simp: trs_id_pool_free_def trs_id_free_cache_def trs_id_pool_add_node_def trs_id_pool_frame_def)
  qed
qed

text \<open>The loop that fills the free list of a local pool.\<close>

lemma node_all_from_spec:
  assumes "fst (trs_id_node_all_from mem i stop p) = 0" "distinct (tp_head p)" "set (tp_head p) \<inter> {i ..< stop} = {}"
    "tp_allocatable_num p = of_nat (length (tp_head p))"
  shows "trs_id_pool_frame p (snd (trs_id_node_all_from mem i stop p)) \<and>
         tp_alloc_num (snd (trs_id_node_all_from mem i stop p)) = tp_alloc_num p \<and>
         distinct (tp_head (snd (trs_id_node_all_from mem i stop p))) \<and>
         set (tp_head (snd (trs_id_node_all_from mem i stop p))) = set (tp_head p) \<union> {i ..< stop} \<and>
         tp_allocatable_num (snd (trs_id_node_all_from mem i stop p)) =
           of_nat (length (tp_head (snd (trs_id_node_all_from mem i stop p))))"
  using assms
proof (induction mem i stop p rule: trs_id_node_all_from.induct)
  case (1 mem i stop p)
  show ?case
  proof (cases "i < stop")
    case False
    then have "{i ..< stop} = {}" by simp
    with False show ?thesis using 1(3,5) by (simp add: trs_id_node_all_from.simps [of mem i stop p])
  next
    case True
    have m: "mem i"
      using 1(2) True by (simp add: trs_id_node_all_from.simps [of mem i stop p] trs_id_pool_add_node_def split: if_splits)
    define q where "q = snd (trs_id_pool_add_node (mem i) p i)"
    have q: "trs_id_pool_add_node (mem i) p i = (0, q)" using m by (simp add: q_def trs_id_pool_add_node_def)
    have rec: "trs_id_node_all_from mem i stop p = trs_id_node_all_from mem (i + 1) stop q"
      using True q by (simp add: trs_id_node_all_from.simps [of mem i stop p])
    have iv: "{i ..< stop} = insert i {i + 1 ..< stop}" "i \<notin> {i + 1 ..< stop}"
      using True unat_Suc_less [OF True] by (auto simp: word_le_nat_alt word_less_nat_alt word_unat_eq_iff)
    have hq: "set (tp_head q) = insert i (set (tp_head p))" "distinct (tp_head q)" "trs_id_pool_frame p q"
      "tp_alloc_num q = tp_alloc_num p" "tp_allocatable_num q = of_nat (length (tp_head q))"
      using m 1(3-5) True by (auto simp: q_def trs_id_pool_add_node_def trs_id_pool_frame_def)
    have "set (tp_head q) \<inter> {i + 1 ..< stop} = {}" using 1(4) hq(1) iv by auto
    from 1(1) [OF True q [symmetric] refl, simplified] 1(2) rec hq(2,5) this
    show ?thesis unfolding rec using hq iv frame_trans [of p q] by auto
  qed
qed

lemma local_create:
  assumes "trs_id_pool_create True mem inst ty attr (None :: 's trs_id_ops option) = Some p" "trs_id_is_local_type ty"
  shows "local_inv p {} \<and> tp_attr p = attr"
proof -
  let ?p = "\<lparr>tp_inst = inst, tp_type = ty, tp_attr = attr, tp_allocatable_num = 0, tp_alloc_num = 0,
                    tp_head = [], tp_ops = no_ops, tp_ref = 1\<rparr> :: 's trs_id_pool"
  have "fst (trs_id_node_all mem ?p) = 0" "p = snd (trs_id_node_all mem ?p)"
    using assms(1) by (auto simp: trs_id_pool_create_def Let_def split: prod.splits if_splits)
  then show ?thesis
    using node_all_from_spec [of mem "ta_id_start attr" "ta_id_end attr" ?p] assms(2)
    by (simp add: trs_id_node_all_def local_inv_def trs_id_pool_frame_def trs_id_range_def)
qed

text \<open>
  The life of a local pool: it is created, allocations and releases follow in any order. Clients
  release only what they hold.
\<close>

inductive local_reach :: "'s trs_id_pool \<Rightarrow> u32 set \<Rightarrow> bool" where
  lr_create: "trs_id_pool_create True mem inst ty attr None = Some p \<Longrightarrow> trs_id_is_local_type ty \<Longrightarrow>
    local_reach p {}"
| lr_alloc: "local_reach p out \<Longrightarrow> trs_id_pool_alloc kmem p s = Some (ret, r, p', s') \<Longrightarrow>
    local_reach p' (out \<union> set_option r)"
| lr_free: "local_reach p out \<Longrightarrow> i \<in> out \<Longrightarrow> trs_id_pool_free fmem p s i = Some (ret, p', s') \<Longrightarrow>
    local_reach p' (if ret = 0 then out - {i} else out)"

lemma local_reach_inv: "local_reach p out \<Longrightarrow> local_inv p out"
proof (induction rule: local_reach.induct)
  case (lr_create mem inst ty attr p)
  then show ?case using local_create by blast
next
  case (lr_alloc p out kmem s ret r p' s')
  then show ?case using local_alloc [of p out kmem s] by (auto split: if_splits)
next
  case (lr_free p out i fmem s ret p' s')
  then show ?case using local_free [of p out i fmem s] by (cases fmem) auto
qed

section \<open>Pools in front of a backend\<close>

text \<open>
  \<open>cached_inv own p out\<close>: of the ids \<open>own\<close> that the backend has given to this pool, those in the range
  are in the free list, without repetition, or held by clients (\<open>out\<close>), never both.
\<close>

definition cached_inv :: "u32 set \<Rightarrow> 's trs_id_pool \<Rightarrow> u32 set \<Rightarrow> bool" where
  "cached_inv own p out \<longleftrightarrow>
     tp_allocatable_num p = of_nat (length (tp_head p)) \<and> tp_alloc_num p = of_nat (card out) \<and>
     distinct (tp_head p) \<and> set (tp_head p) \<inter> out = {} \<and> set (tp_head p) \<subseteq> trs_id_range p \<and>
     set (tp_head p) \<union> out \<subseteq> own \<and> own \<inter> trs_id_range p \<subseteq> set (tp_head p) \<union> out"

definition uses_backend ::
    "('s \<Rightarrow> trs_id_inst \<Rightarrow> int \<Rightarrow> u32 \<Rightarrow> int \<times> (nat \<Rightarrow> u32) \<times> u32 \<times> 's) \<Rightarrow>
     ('s \<Rightarrow> trs_id_inst \<Rightarrow> int \<Rightarrow> u32 list \<Rightarrow> int \<times> 's) \<Rightarrow> trs_id_inst \<Rightarrow> int \<Rightarrow> 's trs_id_pool \<Rightarrow> bool" where
  "uses_backend ab fb inst ty p \<longleftrightarrow>
     op_alloc_batch (tp_ops p) = Some ab \<and> op_free_batch (tp_ops p) = Some fb \<and>
     tp_inst p = inst \<and> tp_type p = ty \<and>
     0 < ta_batch_num (tp_attr p) \<and> ta_batch_num (tp_attr p) \<le> MAX_TRS_ID_BATCH_NUM"

lemma uses_backend_frame: "trs_id_pool_frame p q \<Longrightarrow> uses_backend ab fb inst ty q = uses_backend ab fb inst ty p"
  by (simp add: uses_backend_def trs_id_pool_frame_def)

lemma uses_backend_mono: "trs_id_pool_frame p q \<Longrightarrow> uses_backend ab fb inst ty p \<Longrightarrow> uses_backend ab fb inst ty q"
  by (simp add: uses_backend_frame)

lemma range_frame: "trs_id_pool_frame p q \<Longrightarrow> trs_id_range q = trs_id_range p"
  by (simp add: trs_id_range_def trs_id_pool_frame_def)

lemma uses_backend_ok: "uses_backend ab fb inst ty p \<Longrightarrow> cached_inv own p out \<Longrightarrow> trs_id_pool_ok p"
  by (simp add: uses_backend_def cached_inv_def trs_id_pool_ok_def trs_id_ops_ok_def)

lemma cached_length: "cached_inv own p out \<Longrightarrow> length (tp_head p) < 2 ^ 32"
  by (rule distinct_range_length [of _ p]) (auto simp: cached_inv_def)

lemma cached_return:
  assumes "cached_inv own p out" "i \<in> out" "i \<in> trs_id_range p"
  shows "cached_inv own (snd (trs_id_pool_add_node True p i)\<lparr>tp_alloc_num := tp_alloc_num p - 1\<rparr>) (out - {i})"
proof -
  let ?q = "snd (trs_id_pool_add_node True p i)\<lparr>tp_alloc_num := tp_alloc_num p - 1\<rparr>"
  have c: "card out = Suc (card (out - {i}))" using card_Suc_Diff1 [OF finite assms(2)] by simp
  have h: "set (tp_head ?q) = insert i (set (tp_head p))" "trs_id_range ?q = trs_id_range p"
    "length (tp_head ?q) = Suc (length (tp_head p))"
    by (simp_all add: trs_id_pool_add_node_def trs_id_range_def)
  have ni: "i \<notin> set (tp_head p)" using assms(1,2) by (auto simp: cached_inv_def)
  then have d: "distinct (tp_head ?q)" using assms(1) by (simp add: cached_inv_def trs_id_pool_add_node_def)
  have n: "tp_allocatable_num ?q = of_nat (length (tp_head ?q))" "tp_alloc_num ?q = of_nat (card (out - {i}))"
    using assms(1) c unfolding h(3) by (simp_all add: cached_inv_def trs_id_pool_add_node_def)
  have "set (tp_head ?q) \<inter> (out - {i}) = {}" "set (tp_head ?q) \<subseteq> trs_id_range ?q"
    "set (tp_head ?q) \<union> (out - {i}) \<subseteq> own" "own \<inter> trs_id_range ?q \<subseteq> set (tp_head ?q) \<union> (out - {i})"
    unfolding h(1,2) using assms by (auto simp: cached_inv_def)
  with d n show ?thesis by (simp only: cached_inv_def simp_thms)
qed

lemma cached_forget:
  assumes "cached_inv own p out" "i \<in> out"
  shows "cached_inv (own - {i}) (p\<lparr>tp_alloc_num := tp_alloc_num p - 1\<rparr>) (out - {i})"
proof -
  have "card out = Suc (card (out - {i}))" using card_Suc_Diff1 [OF finite assms(2)] by simp
  then have "tp_alloc_num p - 1 = of_nat (card (out - {i}))" using assms(1) unfolding cached_inv_def by simp
  moreover have "set (tp_head p) \<inter> (out - {i}) = {}" "set (tp_head p) \<union> (out - {i}) \<subseteq> own - {i}"
    "(own - {i}) \<inter> trs_id_range p \<subseteq> set (tp_head p) \<union> (out - {i})"
    using assms by (auto simp: cached_inv_def)
  ultimately show ?thesis using assms(1) by (simp add: cached_inv_def trs_id_range_def)
qed

text \<open>The life of a pool: allocations, releases of ids that clients hold, and flushes, in any order.\<close>

inductive cached_run ::
    "'s trs_id_pool \<Rightarrow> 's \<Rightarrow> u32 set \<Rightarrow> 's trs_id_pool \<Rightarrow> 's \<Rightarrow> u32 set \<Rightarrow> bool" where
  run_start: "cached_run p s out p s out"
| run_alloc: "cached_run p s out p1 s1 out1 \<Longrightarrow> trs_id_pool_alloc kmem p1 s1 = Some (ret, r, p', s') \<Longrightarrow>
    cached_run p s out p' s' (out1 \<union> set_option r)"
| run_free: "cached_run p s out p1 s1 out1 \<Longrightarrow> i \<in> out1 \<Longrightarrow> trs_id_pool_free fmem p1 s1 i = Some (ret, p', s') \<Longrightarrow>
    cached_run p s out p' s' (if ret = 0 then out1 - {i} else out1)"
| run_flush: "cached_run p s out p1 s1 out1 \<Longrightarrow> trs_id_pool_free_batch p1 s1 = Some (ret, p', s') \<Longrightarrow>
    cached_run p s out p' s' out1"

text \<open>
  The contract of a backend for one instance and type: \<open>owned s\<close> are the ids it has given out. An
  allocation gives between one and the requested number of new ids or changes nothing; a release
  takes back what it is given.
\<close>

locale id_backend =
  fixes binv :: "'s \<Rightarrow> bool"
    and owned :: "'s \<Rightarrow> u32 set"
    and ab :: "'s \<Rightarrow> trs_id_inst \<Rightarrow> int \<Rightarrow> u32 \<Rightarrow> int \<times> (nat \<Rightarrow> u32) \<times> u32 \<times> 's"
    and fb :: "'s \<Rightarrow> trs_id_inst \<Rightarrow> int \<Rightarrow> u32 list \<Rightarrow> int \<times> 's"
    and inst :: trs_id_inst
    and ty :: int
  assumes alloc_fresh: "binv s \<Longrightarrow> 0 < n \<Longrightarrow> ab s inst ty n = (0, ids, k, s') \<Longrightarrow>
      binv s' \<and> 0 < k \<and> k \<le> n \<and> distinct (map ids [0 ..< unat k]) \<and>
      set (map ids [0 ..< unat k]) \<inter> owned s = {} \<and> owned s' = owned s \<union> set (map ids [0 ..< unat k])"
    and alloc_fails: "binv s \<Longrightarrow> ab s inst ty n = (ret, ids, k, s') \<Longrightarrow> ret \<noteq> 0 \<Longrightarrow> binv s' \<and> owned s' = owned s"
    and nonlocal_type: "binv s \<Longrightarrow> \<not> trs_id_is_local_type ty"
    and free_gives_back: "binv s \<Longrightarrow> fb s inst ty js = (ret, s') \<Longrightarrow> ret = 0 \<and> binv s' \<and> owned s' = owned s - set js"
begin

lemma cache_ids_inv:
  assumes "binv s" "uses_backend ab fb inst ty p" "distinct ids" "set ids \<inter> (set (tp_head p) \<union> out) = {}"
    "set ids \<subseteq> owned s" "cached_inv (owned s - set ids) p out"
  shows "\<exists>p' s'. trs_id_cache_ids mem k ids p s = Some (p', s') \<and> binv s' \<and> trs_id_pool_frame p p' \<and>
           cached_inv (owned s') p' out \<and> owned s' \<subseteq> owned s"
  using assms
proof (induction ids arbitrary: k p)
  case Nil
  then show ?case by simp
next
  case (Cons i ids)
  show ?case
  proof (cases "i \<in> trs_id_range p")
    case False
    have "cached_inv (owned s - set ids) p out"
      using Cons.prems(6) False by (auto simp: cached_inv_def)
    then show ?thesis using Cons.IH [of p "Suc k"] Cons.prems False by (simp add: range_check_iff)
  next
    case True
    show ?thesis
    proof (cases "mem k")
      case False
      obtain ret s' where f: "fb s inst ty (i # ids) = (ret, s')" by (cases "fb s inst ty (i # ids)")
      have "binv s' \<and> owned s' = owned s - set (i # ids)" using free_gives_back [OF Cons.prems(1) f] by blast
      then show ?thesis using Cons.prems(2,6) True False f
        by (auto simp: range_check_iff trs_id_pool_add_node_def uses_backend_def)
    next
      case m: True
      define q where "q = snd (trs_id_pool_add_node (mem k) p i)"
      have q: "trs_id_pool_add_node (mem k) p i = (0, q)" "trs_id_pool_frame p q" "set (tp_head q) = insert i (set (tp_head p))"
        using m by (auto simp: q_def trs_id_pool_add_node_def trs_id_pool_frame_def)
      have "cached_inv (owned s - set ids) q out"
        using Cons.prems(3-6) True m unfolding q_def
        by (auto simp: cached_inv_def trs_id_pool_add_node_def trs_id_range_def)
      moreover have "uses_backend ab fb inst ty q" using uses_backend_frame [OF q(2)] Cons.prems(2) by simp
      ultimately show ?thesis using Cons.IH [of q "Suc k"] Cons.prems q True frame_trans
        by (fastforce simp: range_check_iff)
    qed
  qed
qed

lemma alloc_batch_inv:
  assumes "binv s" "uses_backend ab fb inst ty p" "cached_inv (owned s) p out"
  shows "\<exists>p' s'. trs_id_pool_alloc_batch mem p s = Some (p', s') \<and> binv s' \<and> trs_id_pool_frame p p' \<and>
           cached_inv (owned s') p' out"
proof -
  let ?remain = "ta_id_num (tp_attr p) - tp_alloc_num p"
  let ?batch = "ta_batch_num (tp_attr p)"
  let ?req = "if ?remain > ?batch then ?batch else ?remain"
  show ?thesis
  proof (cases "?remain = 0 \<or> ?batch \<le> 1")
    case True
    then show ?thesis using assms by (auto simp: trs_id_pool_alloc_batch_def uses_backend_def Let_def)
  next
    case False
    obtain ret ids num s1 where r: "ab s inst ty ?req = (ret, ids, num, s1)" by (metis prod_cases4)
    have step: "trs_id_pool_alloc_batch mem p s =
        (if ret \<noteq> 0 \<or> num > ?batch then Some (p, s1) else trs_id_cache_ids mem 0 (map ids [0 ..< unat num]) p s1)"
      using False r assms(2) by (auto simp: trs_id_pool_alloc_batch_def uses_backend_def Let_def)
    show ?thesis
    proof (cases "ret = 0")
      case False
      then show ?thesis using step alloc_fails [OF assms(1) r False] assms by auto
    next
      case True
      have "?remain \<noteq> 0" "0 < ?batch" using \<open>\<not> (?remain = 0 \<or> ?batch \<le> 1)\<close> assms(2) by (simp_all add: uses_backend_def)
      then have "0 < ?req" by (cases "?batch < ?remain") (simp_all only: if_True if_False word_neq_0_conv)
      from alloc_fresh [OF assms(1) this r [unfolded True]]
      have n: "binv s1" "num \<le> ?req" "distinct (map ids [0 ..< unat num])" "set (map ids [0 ..< unat num]) \<inter> owned s = {}"
        "owned s1 = owned s \<union> set (map ids [0 ..< unat num])" by auto
      have "?req \<le> ?batch" by (auto simp: linorder_not_less)
      then have nb: "\<not> num > ?batch" using n(2) by (simp add: linorder_not_less)
      have "owned s1 - set (map ids [0 ..< unat num]) = owned s" using n(4,5) by auto
      then have "cached_inv (owned s1 - set (map ids [0 ..< unat num])) p out" using assms(3) by simp
      moreover have "set (map ids [0 ..< unat num]) \<inter> (set (tp_head p) \<union> out) = {}"
        using n(4) assms(3) unfolding cached_inv_def by blast
      ultimately show ?thesis
        using cache_ids_inv [OF n(1) assms(2) n(3), of out mem 0] n(5) step True nb by auto
    qed
  qed
qed

lemma pool_alloc_inv:
  assumes "binv s" "uses_backend ab fb inst ty p" "cached_inv (owned s) p out"
  shows "\<exists>ret r p' s'. trs_id_pool_alloc mem p s = Some (ret, r, p', s') \<and> binv s' \<and> trs_id_pool_frame p p' \<and>
           cached_inv (owned s') p' (out \<union> set_option r) \<and>
           (case r of None \<Rightarrow> ret = - ENOSPC | Some i \<Rightarrow> ret = 0 \<and> i \<notin> out) \<and>
           (\<not> trs_id_non_cache p \<longrightarrow> set_option r \<subseteq> trs_id_range p)"
proof (cases "trs_id_non_cache p")
  case nonc: True
  obtain ret ids num s1 where r: "ab s inst ty 1 = (ret, ids, num, s1)" by (metis prod_cases4)
  have step: "trs_id_pool_alloc mem p s =
      (if ret \<noteq> 0 \<or> num > ta_batch_num (tp_attr p) then Some (- ENOSPC, None, p, s1)
       else Some (ret, Some (ids 0), p\<lparr>tp_alloc_num := tp_alloc_num p + 1\<rparr>, s1))"
    using nonc r assms(2) by (simp add: trs_id_pool_alloc_def trs_id_alloc_non_cache_def uses_backend_def)
  show ?thesis
  proof (cases "ret = 0")
    case False
    then show ?thesis using step alloc_fails [OF assms(1) r False] assms nonc by auto
  next
    case True
    from alloc_fresh [OF assms(1) _ r [unfolded True]]
    have n: "binv s1" "0 < num" "num \<le> 1" "ids ` {0 ..< unat num} \<inter> owned s = {}" "owned s1 = owned s \<union> ids ` {0 ..< unat num}"
      by auto
    have "unat num = 1" using n(2,3) by (simp add: word_less_nat_alt word_le_nat_alt)
    then have o: "ids 0 \<notin> owned s" "owned s1 = insert (ids 0) (owned s)" using n(4,5) by auto
    have "(1 :: u32) \<le> ta_batch_num (tp_attr p)"
      using assms(2) by (simp add: uses_backend_def word_le_nat_alt word_less_nat_alt Suc_le_eq)
    then have nb: "\<not> num > ta_batch_num (tp_attr p)" using n(3) by (meson dual_order.trans linorder_not_less)
    have "ids 0 \<notin> out" "ids 0 \<notin> set (tp_head p)" using o assms(3) by (auto simp: cached_inv_def)
    moreover from this have "card (insert (ids 0) out) = Suc (card out)" by (simp add: card_insert_disjoint [OF finite])
    ultimately have "cached_inv (owned s1) (p\<lparr>tp_alloc_num := tp_alloc_num p + 1\<rparr>) (insert (ids 0) out)"
      using assms(3) o by (auto simp: cached_inv_def trs_id_range_def)
    then show ?thesis using step True nb n(1) nonc \<open>ids 0 \<notin> out\<close> by auto
  qed
next
  case nc: False
  obtain p1 s1 where p1: "(if tp_allocatable_num p = 0 then trs_id_pool_alloc_batch mem p s else Some (p, s)) = Some (p1, s1)"
      "binv s1" "trs_id_pool_frame p p1" "cached_inv (owned s1) p1 out"
    using alloc_batch_inv [OF assms, of mem] assms by (cases "tp_allocatable_num p = 0") auto
  show ?thesis
  proof (cases "tp_allocatable_num p1 = 0")
    case True
    then show ?thesis using nc p1 by (auto simp: trs_id_pool_alloc_def trs_id_alloc_cache_def)
  next
    case False
    have ok: "trs_id_pool_ok p1" using uses_backend_ok p1(4) assms(2) uses_backend_frame [OF p1(3)] by blast
    obtain i js q where q: "tp_head p1 = i # js" "trs_id_pool_alloc_one_id p1 = Some (i, q)" "tp_head q = js"
      "trs_id_pool_ok q" "trs_id_pool_frame p1 q" "tp_alloc_num q = tp_alloc_num p1"
      using alloc_one_ok [OF ok False] by blast
    have "i \<notin> out" using p1(4) q(1) by (auto simp: cached_inv_def)
    moreover from this have "card (insert i out) = Suc (card out)" by (simp add: card_insert_disjoint [OF finite])
    ultimately have "cached_inv (owned s1) (q\<lparr>tp_alloc_num := tp_alloc_num q + 1\<rparr>) (insert i out)"
      using p1(4) q range_frame [OF q(5)] by (auto simp: cached_inv_def trs_id_pool_ok_def trs_id_range_def)
    moreover have "i \<in> trs_id_range p" using p1(4) q(1) range_frame [OF p1(3)] by (auto simp: cached_inv_def)
    ultimately show ?thesis using nc p1 q False \<open>i \<notin> out\<close> frame_trans [OF p1(3) q(5)]
      by (auto simp: trs_id_pool_alloc_def trs_id_alloc_cache_def)
  qed
qed

lemma pool_free_inv:
  assumes "binv s" "uses_backend ab fb inst ty p" "cached_inv (owned s) p out" "i \<in> out"
  shows "\<exists>p' s'. trs_id_pool_free mem p s i = Some (if i \<in> trs_id_range p then 0 else - EBADR, p', s') \<and>
           binv s' \<and> trs_id_pool_frame p p' \<and>
           cached_inv (owned s') p' (if i \<in> trs_id_range p then out - {i} else out)"
proof (cases "i \<in> trs_id_range p")
  case False
  then have "trs_id_pool_range_check p i = - EBADR" by (auto simp: trs_id_pool_range_check_def trs_id_range_def)
  with False show ?thesis using assms(1,3) by (auto simp: trs_id_pool_free_def)
next
  case True
  obtain ret s1 where f: "fb s inst ty [i] = (ret, s1)" by (cases "fb s inst ty [i]")
  have s1: "ret = 0" "binv s1" "owned s1 = owned s - {i}" using free_gives_back [OF assms(1) f] by auto
  have nc: "trs_id_free_non_cache p s i = Some (0, p\<lparr>tp_alloc_num := tp_alloc_num p - 1\<rparr>, s1)"
    using f s1 assms(2) by (simp add: trs_id_free_non_cache_def uses_backend_def)
  have inv1: "cached_inv (owned s1) (p\<lparr>tp_alloc_num := tp_alloc_num p - 1\<rparr>) (out - {i})"
    unfolding s1(3) by (rule cached_forget [OF assms(3,4)])
  show ?thesis
  proof (cases "trs_id_non_cache p")
    case nonc: True
    then show ?thesis using nc inv1 s1(2) True by (auto simp: trs_id_pool_free_def range_check_iff)
  next
    case False
    show ?thesis
    proof (cases mem)
      case m: True
      let ?q = "snd (trs_id_pool_add_node True p i)\<lparr>tp_alloc_num := tp_alloc_num p - 1\<rparr>"
      have "trs_id_pool_free mem p s i = Some (0, ?q, s)"
        using m True False by (simp add: trs_id_pool_free_def trs_id_free_cache_def trs_id_pool_add_node_def range_check_iff)
      moreover have "trs_id_pool_frame p ?q" by (simp add: trs_id_pool_add_node_def trs_id_pool_frame_def)
      ultimately show ?thesis unfolding if_P [OF True] using cached_return [OF assms(3,4) True] assms(1) by blast
    next
      case nm: False
      have e: "trs_id_pool_free mem p s i =
          (if \<not> trs_id_is_local_type (tp_type p) then trs_id_free_non_cache p s i else Some (- ENOMEM, p, s))"
        using nm True False by (simp add: trs_id_pool_free_def trs_id_free_cache_def trs_id_pool_add_node_def range_check_iff)
      show ?thesis using e nc inv1 s1(2) True nonlocal_type [OF assms(1)] assms(2) by (simp add: uses_backend_def)
    qed
  qed
qed

lemma free_chunks_gives_back:
  assumes "binv s" "0 < b"
  shows "\<exists>s'. free_chunks fb inst ty b js s = (0, [], s') \<and> binv s' \<and> owned s' = owned s - set js"
  using assms(1)
proof (induction "length js" arbitrary: js s rule: less_induct)
  case less
  show ?case
  proof (cases "js = []")
    case True
    then show ?thesis using less.prems by (simp add: free_chunks.simps)
  next
    case False
    obtain ret s1 where f: "fb s inst ty (take b js) = (ret, s1)" by (cases "fb s inst ty (take b js)")
    have s1: "ret = 0" "binv s1" "owned s1 = owned s - set (take b js)"
      using free_gives_back [OF less.prems f] by auto
    have "length (drop b js) < length js" using False assms(2) by simp
    from less.hyps [OF this s1(2)] obtain s' where
      s': "free_chunks fb inst ty b (drop b js) s1 = (0, [], s')" "binv s'" "owned s' = owned s1 - set (drop b js)" by blast
    have "set js = set (take b js) \<union> set (drop b js)" by (metis append_take_drop_id set_append)
    then have "owned s' = owned s - set js" using s'(3) s1(3) by auto
    then show ?thesis using s' s1 f False assms(2) by (subst free_chunks.simps) simp
  qed
qed

lemma pool_flush_inv:
  assumes "binv s" "uses_backend ab fb inst ty p" "cached_inv (owned s) p out"
  shows "\<exists>p' s'. trs_id_pool_free_batch p s = Some (0, p', s') \<and> binv s' \<and> trs_id_pool_frame p p' \<and> tp_head p' = [] \<and>
           owned s' = owned s - set (tp_head p) \<and> cached_inv (owned s') p' out"
proof -
  have u: "op_free_batch (tp_ops p) = Some fb" "tp_inst p = inst" "tp_type p = ty" "0 < ta_batch_num (tp_attr p)"
    using assms(2) by (auto simp: uses_backend_def)
  then have b: "0 < unat (ta_batch_num (tp_attr p))" by (simp add: word_less_nat_alt)
  obtain s' where s': "free_chunks fb inst ty (unat (ta_batch_num (tp_attr p))) (tp_head p) s = (0, [], s')"
    "binv s'" "owned s' = owned s - set (tp_head p)" using free_chunks_gives_back [OF assms(1) b] by blast
  from free_batch_loop_chunks [OF uses_backend_ok [OF assms(2,3)] cached_length [OF assms(3)] u(4), of fb s]
  obtain p' where p': "trs_id_free_batch_loop fb p s = Some (0, p', s')" "tp_head p' = []" "trs_id_pool_frame p p'"
    "trs_id_pool_ok p'" "tp_alloc_num p' = tp_alloc_num p" using u s'(1) by auto
  have "set (tp_head p) \<inter> out = {}" using assms(3) by (simp add: cached_inv_def)
  then have "cached_inv (owned s') p' out"
    using assms(3) p' s'(3) range_frame [OF p'(3)] unfolding cached_inv_def trs_id_pool_ok_def by auto
  with p' s' u show ?thesis by (auto simp: trs_id_pool_free_batch_def)
qed

lemma run_inv:
  assumes "cached_run p s out p' s' out'" "binv s" "uses_backend ab fb inst ty p" "cached_inv (owned s) p out"
  shows "binv s' \<and> uses_backend ab fb inst ty p' \<and> trs_id_pool_frame p p' \<and> cached_inv (owned s') p' out'"
  using assms
proof (induction rule: cached_run.induct)
  case (run_start p s out)
  then show ?case by simp
next
  case (run_alloc p s out p1 s1 out1 kmem ret r p' s')
  then have I: "binv s1" "uses_backend ab fb inst ty p1" "trs_id_pool_frame p p1" "cached_inv (owned s1) p1 out1" by auto
  from pool_alloc_inv [OF I(1,2,4), of kmem] run_alloc.hyps(2) uses_backend_mono [OF _ I(2)] frame_trans [OF I(3)]
  show ?case by auto
next
  case (run_free p s out p1 s1 out1 i fmem ret p' s')
  then have I: "binv s1" "uses_backend ab fb inst ty p1" "trs_id_pool_frame p p1" "cached_inv (owned s1) p1 out1" by auto
  from pool_free_inv [OF I(1,2,4) run_free.hyps(2), of fmem] run_free.hyps(3) uses_backend_mono [OF _ I(2)] frame_trans [OF I(3)]
  show ?case by (cases "i \<in> trs_id_range p1") auto
next
  case (run_flush p s out p1 s1 out1 ret p' s')
  then have I: "binv s1" "uses_backend ab fb inst ty p1" "trs_id_pool_frame p p1" "cached_inv (owned s1) p1 out1" by auto
  from pool_flush_inv [OF I(1,2,4)] run_flush.hyps(2) uses_backend_mono [OF _ I(2)] frame_trans [OF I(3)]
  show ?case by auto
qed

end

section \<open>Module exit\<close>

lemma exit_one_inv:
  assumes inv: "trs_ids_inv st {#}"
  shows "\<exists>st'. trs_id_exit_one k st = Some st' \<and> trs_ids_inv st' {#} \<and> ts_table st' = (ts_table st)(k := None)"
proof (cases "ts_table st k")
  case None
  then have "(ts_table st)(k := None) = ts_table st" by auto
  then show ?thesis using inv None by (simp add: trs_id_exit_one_def trs_id_clear_def)
next
  case (Some a)
  then obtain p where p: "ts_heap st a = Some p" using inv_tableD [OF inv Some] by blast
  have ref: "tp_ref p = 1" using inv_heapD [OF inv p] Some by (auto simp: ran_def split: if_splits)
  let ?st = "st\<lparr>ts_table := (ts_table st)(k := None)\<rparr>"
  have "trs_ids_inv ?st {#a#}" by (rule table_clear_inv [OF inv Some])
  from kref_put_inv [OF this, of a] obtain st' where st': "trs_id_pool_kref_put ?st a = Some st'"
    "trs_ids_inv st' {#}" "ts_table st' = (ts_table st)(k := None)" by auto
  have "trs_id_exit_one k st = trs_id_pool_kref_put ?st a"
    using Some p ref by (cases st) (simp add: trs_id_exit_one_def trs_id_pool_kref_put_def trs_id_clear_def)
  with st' show ?thesis by simp
qed

lemma exit_loop_inv:
  assumes "trs_ids_inv st {#}"
  shows "\<exists>st'. trs_id_exit_loop ks st = Some st' \<and> trs_ids_inv st' {#} \<and>
           ts_table st' = (\<lambda>k. if k \<in> set ks then None else ts_table st k)"
  using assms
proof (induction ks arbitrary: st)
  case (Cons k ks)
  obtain st1 where st1: "trs_id_exit_one k st = Some st1" "trs_ids_inv st1 {#}" "ts_table st1 = (ts_table st)(k := None)"
    using exit_one_inv [OF Cons.prems] by blast
  from Cons.IH [OF st1(2)] st1 show ?case by (auto simp: fun_eq_iff)
qed simp

section \<open>Functional behaviour\<close>

lemma free_chunks_done:
  "0 < b \<Longrightarrow> fst (free_chunks fb inst ty b js s) = 0 \<Longrightarrow> fst (snd (free_chunks fb inst ty b js s)) = []"
proof (induction "length js" arbitrary: js s rule: less_induct)
  case less
  then show ?case
    by (subst free_chunks.simps, subst (asm) free_chunks.simps) (auto split: prod.splits if_splits)
qed

lemma free_chunks_length: "length (fst (snd (free_chunks fb inst ty b js s))) \<le> length js"
proof (induction "length js" arbitrary: js s rule: less_induct)
  case less
  show ?case
  proof (cases "js = [] \<or> b = 0")
    case False
    then have "length (drop b js) < length js" by simp
    from less.hyps [OF this] False show ?thesis
      by (subst free_chunks.simps) (auto split: prod.splits intro: order_trans [OF _ diff_le_self])
  qed (simp add: free_chunks.simps)
qed

lemma node_all_from_succeeds: "mem = (\<lambda>_. True) \<Longrightarrow> fst (trs_id_node_all_from mem i stop p) = 0"
proof (induction mem i stop p rule: trs_id_node_all_from.induct)
  case (1 mem i stop p)
  then show ?case
    by (subst trs_id_node_all_from.simps) (auto simp: trs_id_pool_add_node_def split: prod.splits)
qed

lemma local_inv_ref [simp]: "local_inv (p\<lparr>tp_ref := n\<rparr>) out = local_inv p out"
  by (simp add: local_inv_def trs_id_range_def)

lemma create_local_succeeds:
  assumes "\<forall>i. mem i" "trs_id_is_local_type ty"
  shows "\<exists>p. trs_id_pool_create True mem inst ty attr (None :: 's trs_id_ops option) = Some p \<and>
           tp_attr p = attr \<and> tp_ref p = 1 \<and> local_inv p {}"
proof -
  let ?p = "\<lparr>tp_inst = inst, tp_type = ty, tp_attr = attr, tp_allocatable_num = 0, tp_alloc_num = 0,
                    tp_head = [], tp_ops = no_ops, tp_ref = 1\<rparr> :: 's trs_id_pool"
  have "mem = (\<lambda>_. True)" using assms(1) by (simp add: fun_eq_iff)
  then have "fst (trs_id_node_all_from mem (ta_id_start attr) (ta_id_end attr) ?p) = 0"
    by (rule node_all_from_succeeds)
  then have "trs_id_pool_create True mem inst ty attr (None :: 's trs_id_ops option) \<noteq> None"
    by (auto simp: trs_id_pool_create_def trs_id_node_all_def Let_def split: prod.splits)
  then obtain p where p: "trs_id_pool_create True mem inst ty attr (None :: 's trs_id_ops option) = Some p" by auto
  with local_create [OF p assms(2)] pool_create_reg_ok [OF p] assms(2) show ?thesis
    by (auto simp: trs_id_reg_ok_def)
qed

lemma destroy_fresh:
  assumes "trs_id_pool_create pool_mem mem inst ty attr ops = Some p" "trs_id_reg_ok ty ops"
  shows "trs_id_pool_destroy p s = Some s"
proof (cases ops)
  case None
  then have "tp_ops p = no_ops"
    using assms local_create [of mem inst ty attr p]
    by (auto simp: trs_id_reg_ok_def local_inv_def trs_id_pool_create_def split: if_splits)
  then show ?thesis by (simp add: trs_id_pool_destroy_def no_ops_def Let_def)
next
  case (Some o')
  then have p: "tp_ops p = o'" "tp_allocatable_num p = 0" "op_free_batch o' \<noteq> None"
    using assms by (auto simp: trs_id_pool_create_def trs_id_reg_ok_def Let_def split: if_splits)
  then show ?thesis
    by (auto simp: trs_id_pool_destroy_def trs_id_pool_free_batch_def trs_id_free_batch_loop.simps)
qed

text \<open>With memory at hand and valid parameters the pool object is created.\<close>

lemma register_create:
  assumes "trs_id_reg_ok ty ops" "\<forall>i. mem i"
    and ok: "trs_id_param_check inst ty = 0" "trs_id_attr_check attr = 0"
    and b: "ops = None \<or> ta_batch_num (the attr) \<noteq> 0"
  shows "\<exists>p. trs_id_pool_create True mem (the inst) ty (the attr) ops = Some p \<and>
           trs_id_pool_ok p \<and> tp_ref p = 1 \<and> tp_inst p = the inst \<and> tp_attr p = the attr \<and> tp_alloc_num p = 0 \<and>
           (\<forall>s. trs_id_pool_destroy p s = Some s) \<and>
           (case ops of None \<Rightarrow> distinct (tp_head p) \<and> set (tp_head p) = trs_id_range p
                      | Some o' \<Rightarrow> tp_head p = [] \<and> tp_ops p = o')"
proof -
  have b64: "\<not> ta_batch_num (the attr) > 64" using ok(2) by (auto simp: trs_id_attr_check_def split: option.splits if_splits)
  obtain p where p: "trs_id_pool_create True mem (the inst) ty (the attr) ops = Some p"
    and q: "tp_attr p = the attr" "tp_alloc_num p = 0"
      "case ops of None \<Rightarrow> distinct (tp_head p) \<and> set (tp_head p) = trs_id_range p | Some o' \<Rightarrow> tp_head p = [] \<and> tp_ops p = o'"
  proof (cases ops)
    case None
    then show ?thesis using that create_local_succeeds [OF assms(2), of ty "the inst" "the attr"] assms(1)
      by (auto simp: trs_id_reg_ok_def local_inv_def)
  next
    case (Some o')
    then show ?thesis using that b b64 by (auto simp: trs_id_pool_create_def Let_def)
  qed
  from pool_create_reg_ok [OF p assms(1)] p q destroy_fresh [OF p assms(1)] show ?thesis by auto
qed

lemma reuse_head:
  assumes "trs_id_pool_ok p" "\<not> trs_id_non_cache p" "tp_head p \<noteq> []" "length (tp_head p) < 2 ^ 32"
  shows "\<exists>p'. trs_id_pool_alloc mem p s = Some (0, Some (hd (tp_head p)), p', s) \<and> tp_head p' = tl (tp_head p)"
proof -
  have "unat (tp_allocatable_num p) = length (tp_head p)" using assms(1,4) by (simp add: trs_id_pool_ok_def unat_of_nat)
  then have ne: "tp_allocatable_num p \<noteq> 0" using assms(3) by auto
  from alloc_one_ok [OF assms(1) ne] ne assms(2) show ?thesis
    by (fastforce simp: trs_id_pool_alloc_def trs_id_alloc_cache_def)
qed

section \<open>Demonstration data\<close>

definition demo_id_inst :: trs_id_inst where
  "demo_id_inst = \<lparr>ti_devid = 0, ti_tsid = 0\<rparr>"

definition demo_id_attr :: "u32 \<Rightarrow> u32 \<Rightarrow> u32 \<Rightarrow> trs_id_attr" where
  "demo_id_attr start stop split =
     \<lparr>ta_id_start = start, ta_id_end = stop, ta_id_num = stop - start, ta_batch_num = 2, ta_split = split\<rparr>"

definition demo_local_pool :: "u32 list \<Rightarrow> unit trs_id_pool" where
  "demo_local_pool h =
     \<lparr>tp_inst = demo_id_inst, tp_type = TRS_LOGIC_CQ_ID, tp_attr = demo_id_attr 2 5 4,
      tp_allocatable_num = of_nat (length h), tp_alloc_num = 3 - of_nat (length h),
      tp_head = h, tp_ops = no_ops, tp_ref = 1\<rparr>"

definition demo_ids0 :: "unit trs_ids" where
  "demo_ids0 = \<lparr>ts_table = Map.empty, ts_heap = Map.empty, ts_back = ()\<rparr>"

lemmas demo_id_simps = demo_id_inst_def demo_id_attr_def demo_local_pool_def demo_ids0_def

section \<open>Properties\<close>

text \<open>
  C4. Reference counting is safe under any interleaving of registration, removal and callers: no
  reachable state lets \<^verbatim>\<open>trs_id_pool_get\<close>, \<^verbatim>\<open>trs_id_pool_put\<close> of a held pool, removal, or work on a
  held pool touch a freed pool, call a NULL callback or loop forever, and a pool object is live
  exactly as long as the table or a caller refers to it.
\<close>
theorem trs_id_refcount_safe:
  assumes "trs_id_creach st H"
  shows "(\<forall>modok inst ty. trs_id_pool_get modok st inst ty \<noteq> None) \<and>
         (\<forall>inst ty. trs_id_unregister st inst ty \<noteq> None) \<and>
         (\<forall>a. a \<in># H \<longrightarrow> trs_id_pool_put st a \<noteq> None) \<and>
         (\<forall>a mem fmem i. a \<in># H \<longrightarrow>
            (\<exists>p. ts_heap st a = Some p \<and> trs_id_pool_alloc mem p (ts_back st) \<noteq> None \<and>
               trs_id_pool_free fmem p (ts_back st) i \<noteq> None \<and> trs_id_pool_free_batch p (ts_back st) \<noteq> None)) \<and>
         (\<forall>a. ts_heap st a \<noteq> None \<longleftrightarrow> a \<in># H \<or> a \<in> ran (ts_table st))"
proof (intro conjI allI impI)
  have inv: "trs_ids_inv st H" by (rule creach_inv [OF assms])
  show "trs_id_pool_get modok st inst ty \<noteq> None" for modok inst ty
    using pool_get_inv [OF inv, of modok inst ty] by auto
  show "trs_id_unregister st inst ty \<noteq> None" for inst ty using trs_unregister_inv [OF inv, of inst ty] by auto
  show "trs_id_pool_put st a \<noteq> None" if "a \<in># H" for a using pool_put_inv [OF inv that] by auto
  show "ts_heap st a \<noteq> None \<longleftrightarrow> a \<in># H \<or> a \<in> ran (ts_table st)" for a by (rule inv_live_iff [OF inv])
  fix a mem fmem i assume "a \<in># H"
  then obtain p where p: "ts_heap st a = Some p" using inv_heldD [OF inv] by blast
  then have "trs_id_pool_ok p" using inv_heapD [OF inv] by blast
  with p pool_op_ok [of p] show "\<exists>p. ts_heap st a = Some p \<and> trs_id_pool_alloc mem p (ts_back st) \<noteq> None \<and>
     trs_id_pool_free fmem p (ts_back st) i \<noteq> None \<and> trs_id_pool_free_batch p (ts_back st) \<noteq> None"
    by (metis option.distinct(1))
qed

lemma demo_node_all:
  "trs_id_node_all (\<lambda>_. True) (demo_local_pool []) =
     (0, (demo_local_pool [3, 2, 4])\<lparr>tp_alloc_num := 3\<rparr>)"
  by (simp add: demo_id_simps trs_id_node_all_def trs_id_node_all_from.simps trs_id_pool_add_node_def)

definition demo_ids1 :: "unit trs_ids" where
  "demo_ids1 = \<lparr>ts_table = [TrsIdIdx 0 TRS_LOGIC_CQ_ID \<mapsto> 7], ts_heap = [7 \<mapsto> demo_local_pool [3, 2, 4]], ts_back = ()\<rparr>"

lemma demo_trs_register:
  "trs_id_register True (\<lambda>_. True) 7 demo_ids0 (Some demo_id_inst) TRS_LOGIC_CQ_ID (Some (demo_id_attr 2 5 4)) None =
     Some (0, demo_ids1)"
  by (simp add: demo_id_simps demo_ids1_def trs_id_register_def trs_id_param_check_def trs_id_inst_check_def
      trs_id_type_check_def trs_id_attr_check_def trs_id_pool_create_def trs_id_node_all_def
      trs_id_node_all_from.simps trs_id_pool_add_node_def trs_id_pool_add_def trs_id_key_def
      trs_id_inst_to_ts_inst_def Let_def no_ops_def)

lemma demo_get:
  "trs_id_pool_get True demo_ids1 (Some demo_id_inst) TRS_LOGIC_CQ_ID =
     Some (Some 7, demo_ids1\<lparr>ts_heap := [7 \<mapsto> (demo_local_pool [3, 2, 4])\<lparr>tp_ref := Suc (Suc 0)\<rparr>]\<rparr>)"
  by (simp add: demo_id_simps demo_ids1_def trs_id_pool_get_def trs_id_param_check_def trs_id_inst_check_def
      trs_id_type_check_def trs_id_key_def trs_id_inst_to_ts_inst_def Let_def)

lemma demo_creach: "trs_id_creach demo_ids1 {#}"
  unfolding demo_ids0_def
  by (rule cr_step [OF cr_init [of "()"] cs_register [OF _ _ demo_trs_register [unfolded demo_ids0_def]]])
    (simp_all add: trs_id_reg_ok_def trs_id_is_local_type_def)

theorem trs_id_refcount_safe_witness:
  "\<exists>st :: unit trs_ids. trs_id_creach st {#7#} \<and> trs_id_pool_put st 7 \<noteq> None \<and> ts_heap st 7 \<noteq> None \<and>
     trs_id_unregister st (Some demo_id_inst) TRS_LOGIC_CQ_ID \<noteq> None"
proof -
  note r = cr_step [OF demo_creach cs_get [OF demo_get]]
  show ?thesis
    by (intro exI conjI, rule r) (use trs_id_refcount_safe [OF r] in \<open>auto simp del: fun_upd_apply\<close>)
qed

text \<open>
  C5. A local pool neither loses nor duplicates an id: after its creation and any sequence of
  allocations and releases of held ids, the free list (without repetition) and the held ids partition
  the range and both counters are exact; an allocation then returns an id of the range that no client
  holds, or \<^verbatim>\<open>-ENOSPC\<close> exactly when clients hold all of them.
\<close>
theorem trs_id_local_pool_safe:
  assumes "local_reach p out"
  shows "distinct (tp_head p) \<and> set (tp_head p) \<inter> out = {} \<and>
         set (tp_head p) \<union> out = {ta_id_start (tp_attr p) ..< ta_id_end (tp_attr p)} \<and>
         unat (tp_allocatable_num p) = length (tp_head p) \<and> unat (tp_alloc_num p) = card out \<and>
         (if out = {ta_id_start (tp_attr p) ..< ta_id_end (tp_attr p)}
          then trs_id_pool_alloc mem p s = Some (- ENOSPC, None, p, s)
          else \<exists>i p'. trs_id_pool_alloc mem p s = Some (0, Some i, p', s) \<and>
                 i \<in> {ta_id_start (tp_attr p) ..< ta_id_end (tp_attr p)} - out)"
proof -
  have inv: "local_inv p out" by (rule local_reach_inv [OF assms])
  have len: "length (tp_head p) < 2 ^ 32"
    using inv by (intro distinct_range_length [of _ p]) (auto simp: local_inv_def)
  have "out \<subseteq> trs_id_range p" using inv by (auto simp: local_inv_def)
  then have "card out \<le> card (trs_id_range p)" by (intro card_mono) simp_all
  then have c: "card out < 2 ^ 32" using range_card_less [of p] by linarith
  have "if out = trs_id_range p then trs_id_pool_alloc mem p s = Some (- ENOSPC, None, p, s)
     else \<exists>i p'. trs_id_pool_alloc mem p s = Some (0, Some i, p', s) \<and> i \<in> trs_id_range p - out"
    using local_alloc [OF inv, of mem s] by (cases "out = trs_id_range p") auto
  with inv len c show ?thesis
    unfolding trs_id_range_def [symmetric] by (simp add: local_inv_def unat_of_nat)
qed

theorem trs_id_local_pool_safe_witness:
  "\<exists>p i p'. local_reach p {} \<and> trs_id_pool_alloc (\<lambda>_. True) p () = Some (0, Some i, p', ()) \<and> i \<in> {2 ..< 5}"
proof -
  have c: "trs_id_pool_create True (\<lambda>_. True) demo_id_inst TRS_LOGIC_CQ_ID (demo_id_attr 2 5 4) (None :: unit trs_id_ops option) =
      Some (demo_local_pool [3, 2, 4])"
    by (simp add: demo_id_simps trs_id_pool_create_def trs_id_node_all_def trs_id_node_all_from.simps
        trs_id_pool_add_node_def Let_def no_ops_def)
  have r: "local_reach (demo_local_pool [3, 2, 4]) {}"
    by (rule lr_create [OF c]) (simp add: trs_id_is_local_type_def)
  have ne: "{} \<noteq> {2 ..< 5 :: u32}" by (simp add: atLeastLessThan_empty_iff)
  show ?thesis using trs_id_local_pool_safe [OF r, of "\<lambda>_. True" "()"] r ne
    by (auto simp: demo_local_pool_def demo_id_attr_def)
qed

text \<open>
  C6. \<^verbatim>\<open>trs_id_pool_free_batch\<close> ends and hands the whole free list to the backend, in order, in chunks
  of the batch size, which never exceed the 64 entries of the array on its stack; the pool keeps only
  what was left when the backend reported an error, and nothing when it did not.
\<close>
theorem trs_id_free_batch_spec:
  assumes "trs_id_pool_ok p" "length (tp_head p) < 2 ^ 32" "op_free_batch (tp_ops p) = Some fb"
    "free_chunks fb (tp_inst p) (tp_type p) (unat (ta_batch_num (tp_attr p))) (tp_head p) s = (ret, rest, s')"
  shows "\<exists>p'. trs_id_pool_free_batch p s = Some (ret, p', s') \<and> tp_head p' = rest \<and>
           unat (tp_allocatable_num p') = length rest \<and> (ret = 0 \<longrightarrow> rest = []) \<and>
           0 < unat (ta_batch_num (tp_attr p)) \<and> unat (ta_batch_num (tp_attr p)) \<le> 64"
proof -
  have b: "0 < ta_batch_num (tp_attr p)" "ta_batch_num (tp_attr p) \<le> 64" using assms(1,3) by (auto simp: trs_id_pool_ok_def)
  then have ub: "0 < unat (ta_batch_num (tp_attr p))" "unat (ta_batch_num (tp_attr p)) \<le> 64"
    by (simp_all add: word_less_nat_alt word_le_nat_alt)
  from free_batch_loop_chunks [OF assms(1,2) b(1), of fb s] assms(3,4)
  obtain p' where p': "trs_id_pool_free_batch p s = Some (ret, p', s')" "tp_head p' = rest" "trs_id_pool_ok p'"
    by (auto simp: trs_id_pool_free_batch_def)
  have "length rest \<le> length (tp_head p)" using free_chunks_length assms(4) by (metis fst_conv snd_conv)
  then have "unat (tp_allocatable_num p') = length rest"
    using p' assms(2) by (simp add: trs_id_pool_ok_def unat_of_nat)
  with p' ub free_chunks_done [OF ub(1), of fb "tp_inst p" "tp_type p" "tp_head p" s] assms(4) show ?thesis by auto
qed

definition demo_free_batch :: "u32 list \<Rightarrow> trs_id_inst \<Rightarrow> int \<Rightarrow> u32 list \<Rightarrow> int \<times> u32 list" where
  "demo_free_batch s inst ty js = (0, s @ js)"

definition demo_cached_pool :: "u32 list \<Rightarrow> u32 list trs_id_pool" where
  "demo_cached_pool h =
     \<lparr>tp_inst = demo_id_inst, tp_type = TRS_STREAM_ID, tp_attr = demo_id_attr 2 9 4,
      tp_allocatable_num = of_nat (length h), tp_alloc_num = 0, tp_head = h,
      tp_ops = no_ops\<lparr>op_alloc_batch := Some (\<lambda>s inst ty n. (- ENOSPC, \<lambda>_. 0, 0, s)), op_free_batch := Some demo_free_batch\<rparr>,
      tp_ref = 1\<rparr>"

theorem trs_id_free_batch_spec_witness:
  "\<exists>p'. trs_id_pool_free_batch (demo_cached_pool [2, 3, 4]) [] = Some (0, p', [2, 3, 4]) \<and> tp_head p' = []"
proof -
  have ok: "trs_id_pool_ok (demo_cached_pool [2, 3, 4])"
    by (simp add: demo_cached_pool_def trs_id_pool_ok_def trs_id_ops_ok_def no_ops_def demo_id_attr_def)
  have fb: "op_free_batch (tp_ops (demo_cached_pool [2, 3, 4])) = Some demo_free_batch"
    by (simp add: demo_cached_pool_def)
  have ch: "free_chunks demo_free_batch (tp_inst (demo_cached_pool [2, 3, 4])) (tp_type (demo_cached_pool [2, 3, 4]))
      (unat (ta_batch_num (tp_attr (demo_cached_pool [2, 3, 4])))) (tp_head (demo_cached_pool [2, 3, 4])) [] = (0, [], [2, 3, 4])"
    by (simp add: demo_cached_pool_def demo_id_attr_def free_chunks.simps demo_free_batch_def)
  from trs_id_free_batch_spec [OF ok _ fb ch] show ?thesis by (auto simp: demo_cached_pool_def)
qed

text \<open>
  C7. The order in which released ids are used again: an id smaller than \<^verbatim>\<open>split\<close> goes to the head of the
  free list, so the next allocation returns it; an id larger than \<^verbatim>\<open>split\<close> goes to the tail, so
  every id that was free before it is allocated first.
\<close>
theorem trs_id_reuse_order:
  assumes "trs_id_pool_ok p" "\<not> trs_id_non_cache p" "i \<in> trs_id_range p" "Suc (length (tp_head p)) < 2 ^ 32"
    and "i \<noteq> ta_split (tp_attr p)"
  shows "\<exists>p1 p2. trs_id_pool_free True p s i = Some (0, p1, s) \<and>
           (if i < ta_split (tp_attr p)
            then trs_id_pool_alloc mem p1 s = Some (0, Some i, p2, s) \<and> tp_head p2 = tp_head p
            else tp_head p1 = tp_head p @ [i] \<and>
                 trs_id_pool_alloc mem p1 s = Some (0, Some (hd (tp_head p @ [i])), p2, s) \<and>
                 tp_head p2 = tl (tp_head p @ [i]))"
proof -
  let ?p1 = "snd (trs_id_pool_add_node True p i)\<lparr>tp_alloc_num := tp_alloc_num p - 1\<rparr>"
  have h: "tp_head ?p1 = (if i < ta_split (tp_attr p) then i # tp_head p else tp_head p @ [i])"
    by (simp add: trs_id_pool_add_node_def)
  have f: "trs_id_pool_free True p s i = Some (0, ?p1, s)"
    using assms(2,3) by (simp add: trs_id_pool_free_def trs_id_free_cache_def trs_id_pool_add_node_def range_check_iff)
  have ok: "trs_id_pool_ok ?p1" using add_node_ok [OF assms(1)] by simp
  have nc: "\<not> trs_id_non_cache ?p1" using assms(2)
    by (auto simp: trs_id_non_cache_def trs_id_pool_add_node_def split: option.splits)
  from reuse_head [OF ok nc, of mem s] h assms(4)
  obtain p2 where "trs_id_pool_alloc mem ?p1 s = Some (0, Some (hd (tp_head ?p1)), p2, s)" "tp_head p2 = tl (tp_head ?p1)"
    by (auto split: if_splits)
  with f h show ?thesis
    by (intro exI [of _ ?p1] exI [of _ p2]) (auto simp del: trs_id_pool.update_convs)
qed

theorem trs_id_reuse_order_witness:
  "\<exists>p1 p2. trs_id_pool_free True (demo_local_pool [3]) () 2 = Some (0, p1, ()) \<and>
     trs_id_pool_alloc (\<lambda>_. True) p1 () = Some (0, Some 2, p2, ()) \<and> tp_head p2 = [3]"
proof -
  have "trs_id_pool_ok (demo_local_pool [3])" "\<not> trs_id_non_cache (demo_local_pool [3])" "2 \<in> trs_id_range (demo_local_pool [3])"
    by (simp_all add: demo_local_pool_def demo_id_attr_def trs_id_pool_ok_def trs_id_ops_ok_def no_ops_def
        trs_id_is_local_type_def trs_id_non_cache_def trs_id_range_def)
  from trs_id_reuse_order [OF this, of "()" "\<lambda>_. True"] show ?thesis
    by (auto simp: demo_local_pool_def demo_id_attr_def)
qed

text \<open>
  C8. Module exit ends and leaves nothing behind: when no caller holds a reference, every pool is
  destroyed, the table is empty and no pool object stays allocated.
\<close>
theorem trs_id_exit_frees_all:
  assumes "trs_id_creach st {#}"
  shows "\<exists>st'. exit_trs_id st = Some st' \<and> ts_table st' = Map.empty \<and> ts_heap st' = Map.empty"
proof -
  have inv: "trs_ids_inv st {#}" by (rule creach_inv [OF assms])
  obtain st' where st': "exit_trs_id st = Some st'" "trs_ids_inv st' {#}"
      "ts_table st' = (\<lambda>k. if k \<in> set trs_id_all_keys then None else ts_table st k)"
    using exit_loop_inv [OF inv, of trs_id_all_keys] by (auto simp: exit_trs_id_def)
  have t: "ts_table st' = Map.empty"
  proof
    fix k show "ts_table st' k = None"
      using st'(3) inv_tableD [OF inv, of k] by (cases "ts_table st k") (auto simp: fun_eq_iff)
  qed
  then have "ts_heap st' a = None" for a using inv_live_iff [OF st'(2), of a] by (auto simp: ran_def)
  with st'(1) t show ?thesis by auto
qed

theorem trs_id_exit_frees_all_witness:
  "ts_heap demo_ids1 7 \<noteq> None \<and> (\<exists>st'. exit_trs_id demo_ids1 = Some st' \<and> ts_heap st' = Map.empty)"
  using trs_id_exit_frees_all [OF demo_creach] by (auto simp: demo_ids1_def)

text \<open>
  Registration, every branch: invalid parameters, no memory or a batch of zero, an occupied slot
  (which leaves tables and backend as they were), and success, which publishes a new pool with one
  reference whose free list holds every id of the range for a local type and is empty for a pool with
  a backend.
\<close>
theorem trs_id_register_spec:
  assumes "trs_id_reg_ok ty ops" "\<forall>i. mem i"
  shows "if trs_id_param_check inst ty \<noteq> 0 \<or> trs_id_attr_check attr \<noteq> 0
         then trs_id_register pool_mem mem a st inst ty attr ops = Some (- EINVAL, st)
         else if \<not> pool_mem \<or> ops \<noteq> None \<and> ta_batch_num (the attr) = 0
         then trs_id_register pool_mem mem a st inst ty attr ops = Some (- ENOMEM, st)
         else if ts_table st (trs_id_key (the inst) ty) \<noteq> None
         then trs_id_register pool_mem mem a st inst ty attr ops = Some (- ENODEV, st)
         else \<exists>p. trs_id_register pool_mem mem a st inst ty attr ops =
                Some (0, st\<lparr>ts_table := (ts_table st)(trs_id_key (the inst) ty \<mapsto> a), ts_heap := (ts_heap st)(a \<mapsto> p)\<rparr>) \<and>
                trs_id_pool_ok p \<and> tp_ref p = 1 \<and> tp_attr p = the attr \<and> tp_alloc_num p = 0 \<and>
                (case ops of None \<Rightarrow> distinct (tp_head p) \<and> set (tp_head p) = trs_id_range p
                           | Some o' \<Rightarrow> tp_head p = [] \<and> tp_ops p = o')"
proof (cases "trs_id_param_check inst ty \<noteq> 0 \<or> trs_id_attr_check attr \<noteq> 0 \<or> \<not> pool_mem \<or> ops \<noteq> None \<and> ta_batch_num (the attr) = 0")
  case True
  then show ?thesis by (auto simp: trs_id_register_def trs_id_pool_create_def)
next
  case False
  with register_create [OF assms, of inst attr] show ?thesis
    by (auto simp: trs_id_register_def trs_id_pool_add_def)
qed

theorem trs_id_register_spec_witness:
  "\<exists>p :: unit trs_id_pool. trs_id_register True (\<lambda>_. True) 7 demo_ids0 (Some demo_id_inst) TRS_LOGIC_CQ_ID (Some (demo_id_attr 2 5 4)) None =
     Some (0, \<lparr>ts_table = [TrsIdIdx 0 TRS_LOGIC_CQ_ID \<mapsto> 7], ts_heap = [7 \<mapsto> p], ts_back = ()\<rparr>) \<and> set (tp_head p) = {2 ..< 5}"
proof -
  have "trs_id_reg_ok TRS_LOGIC_CQ_ID (None :: unit trs_id_ops option)" "\<forall>i. (\<lambda>_ :: u32. True) i"
    by (simp_all add: trs_id_reg_ok_def trs_id_is_local_type_def)
  from trs_id_register_spec [OF this, of "Some demo_id_inst" "Some (demo_id_attr 2 5 4)" True 7 demo_ids0]
  show ?thesis
    by (auto simp: demo_id_inst_def demo_id_attr_def demo_ids0_def trs_id_param_check_def trs_id_inst_check_def trs_id_range_def
        trs_id_type_check_def trs_id_attr_check_def trs_id_key_def trs_id_inst_to_ts_inst_def Let_def)
qed

text \<open>
  C9. After the parameter check the index into \<^verbatim>\<open>g_trs_id_pool\<close> is in bounds, and two instances and
  types that pass it share a slot only when they are equal.
\<close>
theorem trs_id_table_index:
  assumes "trs_id_param_check (Some i) ty = 0"
  shows "unat (trs_id_inst_to_ts_inst i) < 1124 * 2 \<and> 0 \<le> ty \<and> ty < TRS_ID_TYPE_MAX \<and>
         (\<forall>j ty'. trs_id_param_check (Some j) ty' = 0 \<longrightarrow>
            (trs_id_key i ty = trs_id_key j ty' \<longleftrightarrow> ti_devid i = ti_devid j \<and> ti_tsid i = ti_tsid j \<and> ty = ty'))"
proof -
  have "unat (trs_id_inst_to_ts_inst i) < 1124 * 2" "0 \<le> ty" "ty < TRS_ID_TYPE_MAX"
    using assms ts_inst_unat(2) [of i] by (auto simp: param_check_Some)
  moreover have "trs_id_key i ty = trs_id_key j ty' \<longleftrightarrow> ti_devid i = ti_devid j \<and> ti_tsid i = ti_tsid j \<and> ty = ty'"
    if "trs_id_param_check (Some j) ty' = 0" for j ty'
    using key_inj [OF assms that] by (auto simp: trs_id_key_def trs_id_inst_to_ts_inst_def)
  ultimately show ?thesis by blast
qed

theorem trs_id_table_index_witness:
  "unat (trs_id_inst_to_ts_inst \<lparr>ti_devid = 1123, ti_tsid = 1\<rparr>) < 1124 * 2 \<and>
   trs_id_key \<lparr>ti_devid = 1123, ti_tsid = 1\<rparr> 3 \<noteq> trs_id_key \<lparr>ti_devid = 1123, ti_tsid = 0\<rparr> 3"
proof -
  have c: "trs_id_param_check (Some \<lparr>ti_devid = 1123, ti_tsid = 1\<rparr>) 3 = 0" "trs_id_param_check (Some \<lparr>ti_devid = 1123, ti_tsid = 0\<rparr>) 3 = 0"
    by (simp_all add: trs_id_param_check_def trs_id_inst_check_def trs_id_type_check_def Let_def word_le_nat_alt)
  from trs_id_table_index [OF c(1)] c(2) show ?thesis by (metis trs_id_inst.select_convs(2) zero_neq_one)
qed

text \<open>
  The exported \<^verbatim>\<open>trs_id_alloc\<close> on a registered local pool, in any reachable state: it returns an id of
  the range that no client holds and records it in that pool, changing no other pool, no reference
  count and no table entry, or \<^verbatim>\<open>-ENOSPC\<close> with the state unchanged when clients hold every id.
\<close>
theorem trs_id_alloc_local:
  assumes "trs_id_creach st H" "trs_id_param_check (Some inst) ty = 0"
    "ts_table st (trs_id_key inst ty) = Some a" "ts_heap st a = Some p" "local_inv p out"
  shows "if out = trs_id_range p
         then trs_id_alloc True mem st (Some inst) ty True = Some ((- ENOSPC, None), st)
         else \<exists>i p'. trs_id_alloc True mem st (Some inst) ty True =
                Some ((0, Some i), st\<lparr>ts_heap := (ts_heap st)(a \<mapsto> p')\<rparr>) \<and>
                i \<in> trs_id_range p - out \<and> local_inv p' (insert i out) \<and> tp_ref p' = tp_ref p"
proof -
  have inv: "trs_ids_inv st H" by (rule creach_inv [OF assms(1)])
  let ?p = "p\<lparr>tp_ref := tp_ref p + 1\<rparr>"
  let ?body = "\<lambda>p s. if True then map_option (\<lambda>(ret, i, p', s'). ((ret, i), p', s')) (trs_id_pool_alloc mem p s)
              else Some ((- EFAULT, None), p, s)"
  have l: "local_inv ?p out" "trs_id_range ?p = trs_id_range p" using assms(5) by (simp_all add: trs_id_range_def)
  have same: "st\<lparr>ts_heap := (ts_heap st)(a \<mapsto> p), ts_back := ts_back st\<rparr> = st"
    using assms(4) by (cases st) (auto simp: fun_eq_iff)
  note eff = with_pool_effect [OF inv assms(2-4), where body = ?body and nopool = "(- EFAULT, None)", folded trs_id_alloc_def]
  show ?thesis
  proof (cases "out = trs_id_range p")
    case True
    then have "trs_id_pool_alloc mem ?p (ts_back st) = Some (- ENOSPC, None, ?p, ts_back st)"
      using local_alloc [OF l(1), of mem "ts_back st"] l(2) by simp
    then show ?thesis using eff [of "(- ENOSPC, None)" ?p "ts_back st"] True same by simp
  next
    case False
    then obtain i p' where a: "trs_id_pool_alloc mem ?p (ts_back st) = Some (0, Some i, p', ts_back st)"
      "i \<in> trs_id_range p - out" "trs_id_pool_frame ?p p'" "local_inv p' (insert i out)"
      using local_alloc [OF l(1), of mem "ts_back st"] l(2) by auto
    then have "trs_id_alloc True mem st (Some inst) ty True =
        Some ((0, Some i), st\<lparr>ts_heap := (ts_heap st)(a \<mapsto> p'\<lparr>tp_ref := tp_ref p\<rparr>), ts_back := ts_back st\<rparr>)"
      by (intro eff) (simp_all add: trs_id_pool_frame_def)
    then show ?thesis using False a by (intro if_not_P [THEN iffD2]) (auto intro!: exI [of _ i] exI [of _ "p'\<lparr>tp_ref := tp_ref p\<rparr>"])
  qed
qed

theorem trs_id_alloc_local_witness:
  "\<exists>i p'. trs_id_alloc True (\<lambda>_. True) demo_ids1 (Some demo_id_inst) TRS_LOGIC_CQ_ID True =
     Some ((0, Some i), demo_ids1\<lparr>ts_heap := (ts_heap demo_ids1)(7 \<mapsto> p')\<rparr>) \<and> i \<in> {2 ..< 5} \<and> local_inv p' {i}"
proof -
  have "set [3, 2, 4 :: u32] = {2 ..< 5}"
  proof -
    have e: "{2 ..< 5 :: u32} = {2, 3, 4}"
      by (auto simp: word_le_nat_alt word_less_nat_alt word_unat_eq_iff)
    show ?thesis unfolding e by auto
  qed
  then have l: "local_inv (demo_local_pool [3, 2, 4]) {}"
    by (simp add: demo_id_simps local_inv_def trs_id_is_local_type_def trs_id_range_def)
  have c: "trs_id_param_check (Some demo_id_inst) TRS_LOGIC_CQ_ID = 0"
    by (simp add: demo_id_inst_def trs_id_param_check_def trs_id_inst_check_def trs_id_type_check_def)
  have t: "ts_table demo_ids1 (trs_id_key demo_id_inst TRS_LOGIC_CQ_ID) = Some 7" "ts_heap demo_ids1 7 = Some (demo_local_pool [3, 2, 4])"
    by (simp_all add: demo_ids1_def demo_id_inst_def trs_id_key_def trs_id_inst_to_ts_inst_def)
  have r: "trs_id_range (demo_local_pool [3, 2, 4]) = {2 ..< 5}" "{} \<noteq> {2 ..< 5 :: u32}"
    by (simp_all add: demo_local_pool_def demo_id_attr_def trs_id_range_def atLeastLessThan_empty_iff)
  from trs_id_alloc_local [OF demo_creach c t l, of "\<lambda>_. True"] r show ?thesis by auto
qed

end
