(* ===== verification/Shr_Node.thy ===== *)
theory Shr_Node
  imports Shr_Name Trs_Id "HOL-Library.Monad_Syntax"
begin

text \<open>
  The nodes of shared ids, \<^verbatim>\<open>rms/trs_drv/shr_id/trs_shr_id_node.c\<close>: a process that owns a notify or an event gives it
  a name and lists the processes that may open it. Nodes sit in a hash table per type. A node is reference
  counted, by its creator and by every opening, and holds a reference on the id for as long as it lives.

  The table is by value: a node is identified by its type and name, which \<^verbatim>\<open>shr_id_node_add\<close> keeps unique, so a
  pointer to a node of the table is its name. \<open>hm\<close> is the kernel's \<^verbatim>\<open>hash_min\<close> for tables of 16 buckets. \<open>None\<close> is an
  access to a node that is no longer in the table. \<open>shr_res\<close> is what the nodes use of the resource manager
  (\<^verbatim>\<open>trs_res_id_get\<close>, \<^verbatim>\<open>trs_res_id_put\<close>, \<^verbatim>\<open>trs_res_id_check\<close>), with its state \<open>'w\<close>. An operation is one step: its
  parts under the lock of the node and the counted pointer it holds in between are not interleaved.
\<close>

section \<open>Data\<close>

abbreviation (input) EACCES :: int where "EACCES \<equiv> 13"
abbreviation (input) SHR_ID_PID_MAX_NUM :: nat where "SHR_ID_PID_MAX_NUM \<equiv> 16"
abbreviation (input) TSDRV_FLAG_REMOTE_ID :: u32 where "TSDRV_FLAG_REMOTE_ID \<equiv> 32"

text \<open>\<^verbatim>\<open>(S32_MAX - SHR_ID_PID_MAX_NUM) / SHR_ID_PID_MAX_NUM\<close>.\<close>

abbreviation (input) TRS_SHR_ID_NODE_MAX_OPEN_NUM :: u32 where "TRS_SHR_ID_NODE_MAX_OPEN_NUM \<equiv> 134217726"

record shr_id_node_op_attr =
  at_inst :: trs_id_inst
  at_res_type :: int
  at_type :: int
  at_id :: int

record shr_id_node_wlist =
  wl_pid :: int
  wl_set_time :: u64
  wl_open_num :: u32

record shr_id_node =
  sn_inst :: trs_id_inst
  sn_key :: u32
  sn_name :: string
  sn_id :: u32
  sn_type :: int
  sn_res_type :: int
  sn_pid :: int
  sn_flag :: u32
  sn_ref :: u32
  sn_wlist :: "shr_id_node_wlist list"

type_synonym shr_htable = "int \<Rightarrow> nat \<Rightarrow> shr_id_node list"

record 'w shr_res =
  sr_get :: "'w \<Rightarrow> trs_id_inst \<Rightarrow> int \<Rightarrow> int \<Rightarrow> u32 \<Rightarrow> (int \<times> 'w) option"
  sr_put :: "'w \<Rightarrow> trs_id_inst \<Rightarrow> int \<Rightarrow> u32 \<Rightarrow> (int \<times> 'w) option"
  sr_check :: "'w \<Rightarrow> trs_id_inst \<Rightarrow> int \<Rightarrow> u32 \<Rightarrow> int"

section \<open>Creation and destruction\<close>

definition shr_id_node_init0 :: "u64 \<Rightarrow> string \<Rightarrow> int \<Rightarrow> shr_id_node_op_attr \<Rightarrow> shr_id_node" where
  "shr_id_node_init0 now name pid attr =
     \<lparr>sn_inst = at_inst attr, sn_key = name_key (take SHR_ID_NSM_NAME_SIZE name), sn_name = take SHR_ID_NSM_NAME_SIZE name,
      sn_id = word_of_int (at_id attr), sn_type = at_type attr, sn_res_type = at_res_type attr, sn_pid = pid, sn_flag = 0,
      sn_ref = 1,
      sn_wlist = \<lparr>wl_pid = pid, wl_set_time = now, wl_open_num = 0\<rparr> #
        replicate (SHR_ID_PID_MAX_NUM - 1) \<lparr>wl_pid = 0, wl_set_time = 0, wl_open_num = 0\<rparr>\<rparr>"

text \<open>\<open>tgid\<close> is \<^verbatim>\<open>current->tgid\<close>, which \<^verbatim>\<open>trs_res_id_get\<close> looks up; \<open>mem\<close> is the outcome of \<^verbatim>\<open>kzalloc\<close>.\<close>

definition shr_id_node_create0 ::
    "'w shr_res \<Rightarrow> bool \<Rightarrow> u64 \<Rightarrow> int \<Rightarrow> string \<Rightarrow> int \<Rightarrow> shr_id_node_op_attr \<Rightarrow> u32 \<Rightarrow> 'w \<Rightarrow> (shr_id_node option \<times> 'w) option" where
  "shr_id_node_create0 res mem now tgid name pid attr flag w =
     (if \<not> mem then Some (None, w)
      else let node = shr_id_node_init0 now name pid attr in
      if flag AND TSDRV_FLAG_REMOTE_ID \<noteq> 0
      then let ret = sr_check res w (sn_inst node) (at_res_type attr) (word_of_int (at_id attr));
               node = node\<lparr>sn_flag := sn_flag node OR TSDRV_FLAG_REMOTE_ID\<rparr>
           in Some (if ret \<noteq> 0 then None else Some node, w)
      else do {
        (ret, w') \<leftarrow> sr_get res w (sn_inst node) tgid (at_res_type attr) (word_of_int (at_id attr));
        Some (if ret \<noteq> 0 then None else Some node, w')
      })"

definition shr_id_node_destroy0 :: "'w shr_res \<Rightarrow> shr_id_node \<Rightarrow> 'w \<Rightarrow> 'w option" where
  "shr_id_node_destroy0 res node w =
     (if sn_flag node AND TSDRV_FLAG_REMOTE_ID = 0
      then do { (ret, w') \<leftarrow> sr_put res w (sn_inst node) (sn_res_type node) (sn_id node); Some w' }
      else Some w)"

section \<open>The hash table\<close>

abbreviation node_name :: "shr_id_node \<Rightarrow> string" where
  "node_name n \<equiv> cstr (sn_name n)"

definition shr_id_node_find :: "(u32 \<Rightarrow> nat) \<Rightarrow> shr_htable \<Rightarrow> string \<Rightarrow> int \<Rightarrow> shr_id_node option" where
  "shr_id_node_find hm t name ty = hlist_find node_name (cstr name) (t ty (hm (name_key name)))"

definition shr_bucket_upd :: "(u32 \<Rightarrow> nat) \<Rightarrow> shr_id_node \<Rightarrow> (shr_id_node list \<Rightarrow> shr_id_node list) \<Rightarrow> shr_htable \<Rightarrow> shr_htable" where
  "shr_bucket_upd hm n f t =
     t(sn_type n := (t (sn_type n))(hm (sn_key n) := f (t (sn_type n) (hm (sn_key n)))))"

definition shr_id_node_add :: "(u32 \<Rightarrow> nat) \<Rightarrow> shr_htable \<Rightarrow> shr_id_node \<Rightarrow> int \<times> shr_htable" where
  "shr_id_node_add hm t node =
     (if shr_id_node_find hm t (sn_name node) (sn_type node) \<noteq> None then (- EACCES, t)
      else (0, shr_bucket_upd hm node (\<lambda>ns. node # ns) t))"

definition shr_id_node_del :: "(u32 \<Rightarrow> nat) \<Rightarrow> shr_htable \<Rightarrow> shr_id_node \<Rightarrow> shr_htable" where
  "shr_id_node_del hm t node = shr_bucket_upd hm node (hlist_del node_name (cstr (sn_name node))) t"

text \<open>Writing through a pointer to a node of the table.\<close>

definition shr_id_node_store :: "(u32 \<Rightarrow> nat) \<Rightarrow> shr_id_node \<Rightarrow> shr_htable \<Rightarrow> shr_htable" where
  "shr_id_node_store hm node t = shr_bucket_upd hm node (hlist_set node_name node) t"

definition shr_id_node_create ::
    "(u32 \<Rightarrow> nat) \<Rightarrow> 'w shr_res \<Rightarrow> bool \<Rightarrow> u64 \<Rightarrow> int \<Rightarrow> string \<Rightarrow> int \<Rightarrow> shr_id_node_op_attr \<Rightarrow> u32 \<Rightarrow> shr_htable \<Rightarrow> 'w \<Rightarrow>
     (int \<times> shr_htable \<times> 'w) option" where
  "shr_id_node_create hm res mem now tgid name pid attr flag t w = do {
     (node, w1) \<leftarrow> shr_id_node_create0 res mem now tgid name pid attr flag w;
     case node of
       None \<Rightarrow> Some (- ENODEV, t, w1)
     | Some n \<Rightarrow>
         (case shr_id_node_add hm t n of
            (ret, t') \<Rightarrow>
              if ret \<noteq> 0 then do { w2 \<leftarrow> shr_id_node_destroy0 res n w1; Some (ret, t', w2) }
              else Some (ret, t', w1))
   }"

section \<open>References\<close>

definition shr_id_node_release ::
    "(u32 \<Rightarrow> nat) \<Rightarrow> 'w shr_res \<Rightarrow> shr_id_node \<Rightarrow> shr_htable \<Rightarrow> 'w \<Rightarrow> (shr_htable \<times> 'w) option" where
  "shr_id_node_release hm res node t w = do {
     let t' = shr_id_node_del hm t node;
     w' \<leftarrow> shr_id_node_destroy0 res node w;
     Some (t', w')
   }"

definition shr_id_node_get ::
    "(u32 \<Rightarrow> nat) \<Rightarrow> string \<Rightarrow> int \<Rightarrow> shr_htable \<Rightarrow> shr_id_node option \<times> shr_htable" where
  "shr_id_node_get hm name ty t =
     (let name_len = strnlen name SHR_ID_NSM_NAME_SIZE in
      if name_len = 0 \<or> name_len \<ge> SHR_ID_NSM_NAME_SIZE then (None, t)
      else if ty \<ge> SHR_ID_TYPE_MAX \<or> ty < 0 then (None, t)
      else case shr_id_node_find hm t name ty of
        None \<Rightarrow> (None, t)
      | Some n \<Rightarrow>
          if sn_ref n = 0 then (None, t)
          else let n' = n\<lparr>sn_ref := sn_ref n + 1\<rparr> in (Some n', shr_id_node_store hm n' t))"

text \<open>\<^verbatim>\<open>kref_put\<close> of the node that \<open>node\<close> points to; its content is read from the table.\<close>

definition shr_id_node_put ::
    "(u32 \<Rightarrow> nat) \<Rightarrow> 'w shr_res \<Rightarrow> shr_id_node \<Rightarrow> shr_htable \<Rightarrow> 'w \<Rightarrow> (shr_htable \<times> 'w) option" where
  "shr_id_node_put hm res node t w = do {
     n \<leftarrow> shr_id_node_find hm t (sn_name node) (sn_type node);
     let n' = n\<lparr>sn_ref := sn_ref n - 1\<rparr>;
     if sn_ref n' = 0 then shr_id_node_release hm res n' t w else Some (shr_id_node_store hm n' t, w)
   }"

section \<open>The processes that may open a node\<close>

definition shr_id_node_find_wlist_index :: "shr_id_node \<Rightarrow> int \<Rightarrow> nat" where
  "shr_id_node_find_wlist_index node pid = length (takeWhile (\<lambda>e. wl_pid e \<noteq> pid) (sn_wlist node))"

definition shr_id_node_get_idle_wlist_index :: "shr_id_node \<Rightarrow> nat" where
  "shr_id_node_get_idle_wlist_index node = length (takeWhile (\<lambda>e. wl_pid e \<noteq> 0) (sn_wlist node))"

definition wlist_upd :: "nat \<Rightarrow> (shr_id_node_wlist \<Rightarrow> shr_id_node_wlist) \<Rightarrow> shr_id_node \<Rightarrow> shr_id_node" where
  "wlist_upd i f node = node\<lparr>sn_wlist := (sn_wlist node)[i := f (sn_wlist node ! i)]\<rparr>"

definition shr_id_node_set_pid :: "u64 \<Rightarrow> shr_id_node \<Rightarrow> int \<Rightarrow> int \<times> shr_id_node" where
  "shr_id_node_set_pid now node pid =
     (let idx = shr_id_node_find_wlist_index node pid;
          idx' = (if idx = SHR_ID_PID_MAX_NUM then shr_id_node_get_idle_wlist_index node else idx)
      in if idx' = SHR_ID_PID_MAX_NUM then (- ENODEV, node)
         else (0, wlist_upd idx' (\<lambda>e. e\<lparr>wl_pid := pid, wl_set_time := now\<rparr>) node))"

text \<open>The loop; each call of \<^verbatim>\<open>ktime_get_ns\<close> gives the time of its entry of the list.\<close>

fun set_pids_loop :: "shr_id_node \<Rightarrow> (int \<times> u64) list \<Rightarrow> int \<times> shr_id_node" where
  "set_pids_loop node [] = (0, node)"
| "set_pids_loop node ((p, now) # ps) =
     (if p = 0 \<or> sn_pid node = p then set_pids_loop node ps
      else case shr_id_node_set_pid now node p of
        (ret, node') \<Rightarrow> if ret \<noteq> 0 then (ret, node') else set_pids_loop node' ps)"

definition shr_id_node_set_pids0 :: "shr_id_node \<Rightarrow> int \<Rightarrow> (int \<times> u64) list \<Rightarrow> int \<times> shr_id_node" where
  "shr_id_node_set_pids0 node create_pid pids =
     (if sn_pid node \<noteq> create_pid then (- EACCES, node) else set_pids_loop node pids)"

definition shr_id_node_set_pids ::
    "(u32 \<Rightarrow> nat) \<Rightarrow> 'w shr_res \<Rightarrow> string \<Rightarrow> int \<Rightarrow> int \<Rightarrow> (int \<times> u64) list \<Rightarrow> shr_htable \<Rightarrow> 'w \<Rightarrow> (int \<times> shr_htable \<times> 'w) option" where
  "shr_id_node_set_pids hm res name ty create_pid pids t w =
     (case shr_id_node_get hm name ty t of
        (None, t1) \<Rightarrow> Some (- ENODEV, t1, w)
      | (Some node, t1) \<Rightarrow>
          (case shr_id_node_set_pids0 node create_pid pids of
             (ret, node') \<Rightarrow> do {
               (t2, w') \<leftarrow> shr_id_node_put hm res node' (shr_id_node_store hm node' t1) w;
               Some (ret, t2, w')
             }))"

section \<open>Destroy, open and close\<close>

definition shr_id_node_uninit :: "shr_id_node \<Rightarrow> int \<Rightarrow> int \<times> shr_id_node" where
  "shr_id_node_uninit node pid = (if sn_pid node \<noteq> pid then (- EACCES, node) else (0, node\<lparr>sn_pid := 0\<rparr>))"

definition shr_id_node_destroy ::
    "(u32 \<Rightarrow> nat) \<Rightarrow> 'w shr_res \<Rightarrow> string \<Rightarrow> int \<Rightarrow> int \<Rightarrow> shr_htable \<Rightarrow> 'w \<Rightarrow> (int \<times> shr_htable \<times> 'w) option" where
  "shr_id_node_destroy hm res name ty pid t w =
     (case shr_id_node_get hm name ty t of
        (None, t1) \<Rightarrow> Some (0, t1, w)
      | (Some node, t1) \<Rightarrow>
          (case shr_id_node_uninit node pid of
             (ret, node') \<Rightarrow> do {
               let t2 = shr_id_node_store hm node' t1;
               (t3, w3) \<leftarrow> (if ret = 0 then shr_id_node_put hm res node' t2 w else Some (t2, w));
               (t4, w4) \<leftarrow> shr_id_node_put hm res node' t3 w3;
               Some (ret, t4, w4)
             }))"

text \<open>\<^verbatim>\<open>time_after(a, b)\<close>.\<close>

definition time_after :: "u64 \<Rightarrow> u64 \<Rightarrow> bool" where
  "time_after a b \<longleftrightarrow> sint (b - a) < 0"

definition shr_id_node_open0 ::
    "shr_id_node \<Rightarrow> int \<Rightarrow> u64 \<Rightarrow> shr_id_node_op_attr \<Rightarrow> int \<times> shr_id_node \<times> shr_id_node_op_attr" where
  "shr_id_node_open0 node pid start_time attr =
     (let idx = shr_id_node_find_wlist_index node pid in
      if idx = SHR_ID_PID_MAX_NUM then (- EBUSY, node, attr)
      else if time_after start_time (wl_set_time (sn_wlist node ! idx)) then (- ENODEV, node, attr)
      else if wl_open_num (sn_wlist node ! idx) \<ge> TRS_SHR_ID_NODE_MAX_OPEN_NUM then (- EFAULT, node, attr)
      else (0, wlist_upd idx (\<lambda>e. e\<lparr>wl_open_num := wl_open_num e + 1\<rparr>) node,
            attr\<lparr>at_inst := sn_inst node, at_id := sint (sn_id node)\<rparr>))"

definition shr_id_node_open ::
    "(u32 \<Rightarrow> nat) \<Rightarrow> 'w shr_res \<Rightarrow> string \<Rightarrow> int \<Rightarrow> u64 \<Rightarrow> shr_id_node_op_attr \<Rightarrow> shr_htable \<Rightarrow> 'w \<Rightarrow>
     (int \<times> shr_id_node_op_attr \<times> shr_htable \<times> 'w) option" where
  "shr_id_node_open hm res name pid start_time attr t w =
     (case shr_id_node_get hm name (at_type attr) t of
        (None, t1) \<Rightarrow> Some (- ENODEV, attr, t1, w)
      | (Some node, t1) \<Rightarrow>
          (case shr_id_node_open0 node pid start_time attr of
             (ret, node', attr') \<Rightarrow> do {
               let t2 = shr_id_node_store hm node' t1;
               (t3, w3) \<leftarrow> (if ret \<noteq> 0 then shr_id_node_put hm res node' t2 w else Some (t2, w));
               Some (ret, attr', t3, w3)
             }))"

definition shr_id_node_close0 :: "shr_id_node \<Rightarrow> int \<Rightarrow> int \<times> shr_id_node" where
  "shr_id_node_close0 node pid =
     (let idx = shr_id_node_find_wlist_index node pid in
      if idx = SHR_ID_PID_MAX_NUM then (- EBUSY, node)
      else if wl_open_num (sn_wlist node ! idx) = 0 then (- EACCES, node)
      else (0, wlist_upd idx (\<lambda>e. e\<lparr>wl_open_num := wl_open_num e - 1\<rparr>) node))"

definition shr_id_node_close ::
    "(u32 \<Rightarrow> nat) \<Rightarrow> 'w shr_res \<Rightarrow> string \<Rightarrow> int \<Rightarrow> int \<Rightarrow> shr_htable \<Rightarrow> 'w \<Rightarrow> (int \<times> shr_htable \<times> 'w) option" where
  "shr_id_node_close hm res name ty pid t w =
     (case shr_id_node_get hm name ty t of
        (None, t1) \<Rightarrow> Some (- ENODEV, t1, w)
      | (Some node, t1) \<Rightarrow>
          (case shr_id_node_close0 node pid of
             (ret, node') \<Rightarrow> do {
               let t2 = shr_id_node_store hm node' t1;
               (t3, w3) \<leftarrow> (if ret = 0 then shr_id_node_put hm res node' t2 w else Some (t2, w));
               (t4, w4) \<leftarrow> shr_id_node_put hm res node' t3 w3;
               Some (ret, t4, w4)
             }))"

definition shr_id_node_init :: shr_htable where
  "shr_id_node_init = (\<lambda>_ _. [])"

section \<open>The table as a map\<close>

text \<open>The table is a map from type and name to nodes; the operations on buckets are updates of the map.\<close>

type_synonym shr_nodes = "int \<times> string \<rightharpoonup> shr_id_node"

definition nm_key :: "string \<Rightarrow> u32" where
  "nm_key nm = fold (\<lambda>c k. 16 * k + of_char c) nm 0"

lemma name_key_nm: "name_key s = nm_key (cstr s)"
  by (simp add: name_key_fold nm_key_def)

definition nodes :: "(u32 \<Rightarrow> nat) \<Rightarrow> shr_htable \<Rightarrow> shr_nodes" where
  "nodes hm t = (\<lambda>(ty, nm). hlist_find node_name nm (t ty (hm (nm_key nm))))"

abbreviation nkey :: "shr_id_node \<Rightarrow> int \<times> string" where
  "nkey n \<equiv> (sn_type n, cstr (sn_name n))"

definition table_ok :: "(u32 \<Rightarrow> nat) \<Rightarrow> shr_htable \<Rightarrow> bool" where
  "table_ok hm t \<longleftrightarrow>
     (\<forall>ty b n. n \<in> set (t ty b) \<longrightarrow> sn_type n = ty \<and> sn_key n = nm_key (cstr (sn_name n)) \<and> b = hm (sn_key n)) \<and>
     (\<forall>ty b. distinct (map node_name (t ty b))) \<and> finite (dom (nodes hm t))"

lemma find_nodes: "shr_id_node_find hm t name ty = nodes hm t (ty, cstr name)"
  by (simp add: shr_id_node_find_def nodes_def name_key_nm)

lemma nodes_key:
  assumes "table_ok hm t" "nodes hm t k = Some n"
  shows "nkey n = k" "sn_key n = nm_key (cstr (sn_name n))"
  using assms hlist_find_Some by (fastforce simp: nodes_def table_ok_def split: prod.splits)+

lemma bucket_upd_nodes:
  assumes key: "sn_key n = nm_key (cstr (sn_name n))"
    and f: "\<And>nm. hlist_find node_name nm (f (t (sn_type n) (hm (sn_key n)))) =
      (if nm = cstr (sn_name n) then v else hlist_find node_name nm (t (sn_type n) (hm (sn_key n))))"
  shows "nodes hm (shr_bucket_upd hm n f t) = (nodes hm t)(nkey n := v)"
  using f [unfolded key] by (auto simp: fun_eq_iff nodes_def shr_bucket_upd_def key)

lemma bucket_upd_ok:
  assumes ok: "table_ok hm t" and key: "sn_key n = nm_key (cstr (sn_name n))"
    and f: "set (f (t (sn_type n) (hm (sn_key n)))) \<subseteq> insert n (set (t (sn_type n) (hm (sn_key n))))"
      "distinct (map node_name (f (t (sn_type n) (hm (sn_key n)))))"
    and dom: "nodes hm (shr_bucket_upd hm n f t) = (nodes hm t)(nkey n := v)"
  shows "table_ok hm (shr_bucket_upd hm n f t)"
proof -
  have fin: "finite (dom (nodes hm (shr_bucket_upd hm n f t)))"
    unfolding dom using ok by (cases v) (simp_all add: table_ok_def)
  show ?thesis unfolding table_ok_def
  proof (intro conjI allI impI fin)
    fix ty b m assume "m \<in> set (shr_bucket_upd hm n f t ty b)"
    then consider "m \<in> set (t ty b)" | "m = n" "ty = sn_type n" "b = hm (sn_key n)"
      using f(1) by (auto simp: shr_bucket_upd_def split: if_splits)
    then have "sn_type m = ty \<and> sn_key m = nm_key (cstr (sn_name m)) \<and> b = hm (sn_key m)"
    proof cases
      case 1
      then show ?thesis using ok unfolding table_ok_def by blast
    qed (use key in simp)
    then show "sn_type m = ty" "sn_key m = nm_key (cstr (sn_name m))" "b = hm (sn_key m)" by blast+
  next
    fix ty b show "distinct (map node_name (shr_bucket_upd hm n f t ty b))"
      using ok f(2) by (simp add: table_ok_def shr_bucket_upd_def)
  qed
qed

lemma add_nodes:
  assumes "table_ok hm t" "sn_key n = nm_key (cstr (sn_name n))"
  shows "shr_id_node_add hm t n = (if nodes hm t (nkey n) \<noteq> None then (- EACCES, t)
      else (0, shr_bucket_upd hm n (\<lambda>ns. n # ns) t)) \<and>
    nodes hm (shr_bucket_upd hm n (\<lambda>ns. n # ns) t) = (nodes hm t)(nkey n \<mapsto> n) \<and>
    (nodes hm t (nkey n) = None \<longrightarrow> table_ok hm (shr_bucket_upd hm n (\<lambda>ns. n # ns) t))"
proof -
  let ?f = "\<lambda>ns. n # ns"
  have N: "nodes hm (shr_bucket_upd hm n ?f t) = (nodes hm t)(nkey n \<mapsto> n)"
    by (rule bucket_upd_nodes [OF assms(2)]) simp
  have "table_ok hm (shr_bucket_upd hm n ?f t)" if "nodes hm t (nkey n) = None"
  proof (rule bucket_upd_ok [OF assms(1,2) _ _ N])
    show "distinct (map node_name (n # t (sn_type n) (hm (sn_key n))))"
      using that assms by (auto simp: nodes_def hlist_find_None table_ok_def)
  qed simp
  with N show ?thesis by (simp add: shr_id_node_add_def find_nodes)
qed

lemma del_nodes:
  assumes "table_ok hm t" "sn_key n = nm_key (cstr (sn_name n))"
  shows "nodes hm (shr_id_node_del hm t n) = (nodes hm t)(nkey n := None) \<and> table_ok hm (shr_id_node_del hm t n)"
proof -
  have d: "distinct (map node_name (t (sn_type n) (hm (sn_key n))))" using assms(1) by (simp add: table_ok_def)
  have N: "nodes hm (shr_bucket_upd hm n (hlist_del node_name (cstr (sn_name n))) t) = (nodes hm t)(nkey n := None)"
    by (rule bucket_upd_nodes [OF assms(2)]) (simp add: hlist_find_del [OF d])
  moreover have "table_ok hm (shr_bucket_upd hm n (hlist_del node_name (cstr (sn_name n))) t)"
    by (rule bucket_upd_ok [OF assms subset_insertI2 [OF hlist_del_set] hlist_del_distinct [OF d] N])
  ultimately show ?thesis by (simp add: shr_id_node_del_def)
qed

lemma store_nodes:
  assumes "table_ok hm t" "sn_key n = nm_key (cstr (sn_name n))" "nodes hm t (nkey n) \<noteq> None"
  shows "nodes hm (shr_id_node_store hm n t) = (nodes hm t)(nkey n \<mapsto> n) \<and> table_ok hm (shr_id_node_store hm n t)"
proof -
  have d: "distinct (map node_name (t (sn_type n) (hm (sn_key n))))" using assms(1) by (simp add: table_ok_def)
  have there: "hlist_find node_name (cstr (sn_name n)) (t (sn_type n) (hm (sn_key n))) \<noteq> None" using assms(2,3) by (simp add: nodes_def)
  have N: "nodes hm (shr_bucket_upd hm n (hlist_set node_name n) t) = (nodes hm t)(nkey n \<mapsto> n)"
    by (rule bucket_upd_nodes [OF assms(2)]) (use there in \<open>auto simp: hlist_find_set\<close>)
  moreover have "table_ok hm (shr_bucket_upd hm n (hlist_set node_name n) t)"
    by (rule bucket_upd_ok [OF assms(1,2) _ _ N]) (use hlist_set_set [of node_name n] d in \<open>simp_all add: hlist_set_names\<close>)
  ultimately show ?thesis by (simp add: shr_id_node_store_def)
qed

section \<open>Well-formed nodes\<close>

definition opens :: "shr_id_node \<Rightarrow> nat" where
  "opens n = (\<Sum>e\<leftarrow>sn_wlist n. unat (wl_open_num e))"

definition live :: "shr_id_node \<Rightarrow> nat" where
  "live n = (if sn_pid n \<noteq> 0 then 1 else 0) + opens n"

definition wopen :: "shr_id_node \<Rightarrow> int \<Rightarrow> nat" where
  "wopen n p = (case List.find (\<lambda>e. wl_pid e = p) (sn_wlist n) of None \<Rightarrow> 0 | Some e \<Rightarrow> unat (wl_open_num e))"

definition node_wf :: "shr_id_node \<Rightarrow> bool" where
  "node_wf n \<longleftrightarrow> 0 \<le> sn_type n \<and> sn_type n < SHR_ID_TYPE_MAX \<and> length (sn_wlist n) = SHR_ID_PID_MAX_NUM \<and>
     distinct (filter (\<lambda>p. p \<noteq> 0) (map wl_pid (sn_wlist n))) \<and>
     (\<forall>e \<in> set (sn_wlist n). wl_open_num e \<le> TRS_SHR_ID_NODE_MAX_OPEN_NUM \<and> (wl_pid e = 0 \<longrightarrow> wl_open_num e = 0))"

text \<open>A node of the table between two operations: the counter is exact and never zero.\<close>

definition node_ok :: "shr_id_node \<Rightarrow> bool" where
  "node_ok n \<longleftrightarrow> node_wf n \<and> unat (sn_ref n) = live n \<and> 0 < live n"

definition same_node :: "shr_id_node \<Rightarrow> shr_id_node \<Rightarrow> bool" where
  "same_node n m \<longleftrightarrow> sn_inst m = sn_inst n \<and> sn_key m = sn_key n \<and> sn_name m = sn_name n \<and> sn_id m = sn_id n \<and>
     sn_type m = sn_type n \<and> sn_res_type m = sn_res_type n \<and> sn_flag m = sn_flag n"

lemma sum_list_bound: "(\<And>x. x \<in> set xs \<Longrightarrow> f x \<le> (b :: nat)) \<Longrightarrow> sum_list (map f xs) \<le> length xs * b"
  by (induction xs) (auto simp: add_mono)

lemma opens_bound: "node_wf n \<Longrightarrow> opens n \<le> 2147483616"
  using sum_list_bound [of "sn_wlist n" "\<lambda>e. unat (wl_open_num e)" 134217726]
  by (simp add: node_wf_def opens_def word_le_nat_alt)

lemma live_bound: "node_wf n \<Longrightarrow> live n \<le> 2147483617"
  using opens_bound [of n] by (simp add: live_def)

lemma wlist_index:
  assumes "node_wf n" "shr_id_node_find_wlist_index n p = i"
  shows "i \<le> SHR_ID_PID_MAX_NUM" "i \<noteq> SHR_ID_PID_MAX_NUM \<Longrightarrow> i < length (sn_wlist n) \<and> wl_pid (sn_wlist n ! i) = p \<and>
      List.find (\<lambda>e. wl_pid e = p) (sn_wlist n) = Some (sn_wlist n ! i)"
    "i = SHR_ID_PID_MAX_NUM \<longleftrightarrow> p \<notin> wl_pid ` set (sn_wlist n)"
proof -
  let ?l = "sn_wlist n"
  have i: "i = length (takeWhile (\<lambda>e. wl_pid e \<noteq> p) ?l)" using assms(2) by (simp add: shr_id_node_find_wlist_index_def)
  have len: "length ?l = 16" using assms(1) by (simp add: node_wf_def)
  show le: "i \<le> SHR_ID_PID_MAX_NUM" using len length_takeWhile_le [of "\<lambda>e. wl_pid e \<noteq> p" ?l] i by simp
  have all: "i = 16 \<longleftrightarrow> (\<forall>e \<in> set ?l. wl_pid e \<noteq> p)"
    using len i takeWhile_eq_take [of "\<lambda>e. wl_pid e \<noteq> p" ?l] by (metis (mono_tags, lifting) order_refl take_all takeWhile_eq_all_conv)
  then show "i = SHR_ID_PID_MAX_NUM \<longleftrightarrow> p \<notin> wl_pid ` set ?l" by auto
  assume "i \<noteq> SHR_ID_PID_MAX_NUM"
  then have lt: "i < length ?l" using le len by simp
  then have at: "wl_pid (?l ! i) = p" using nth_length_takeWhile [of "\<lambda>e. wl_pid e \<noteq> p" ?l] i by simp
  have before: "\<And>j. j < i \<Longrightarrow> wl_pid (?l ! j) \<noteq> p"
    using i by (metis (mono_tags, lifting) nth_mem set_takeWhileD takeWhile_nth)
  have "List.find (\<lambda>e. wl_pid e = p) ?l = Some (?l ! i)" using lt at before by (auto simp: find_Some_iff)
  then show "i < length ?l \<and> wl_pid (?l ! i) = p \<and> List.find (\<lambda>e. wl_pid e = p) ?l = Some (?l ! i)" using lt at by simp
qed

lemma find_update_pid:
  assumes "i = length (takeWhile (\<lambda>e. wl_pid e \<noteq> p) xs)" "i < length xs" "wl_pid v = q" "q = p \<or> q \<notin> wl_pid ` set xs" "r \<noteq> p \<or> p = q"
  shows "List.find (\<lambda>e. wl_pid e = r) (xs[i := v]) = (if r = q then Some v else List.find (\<lambda>e. wl_pid e = r) xs)"
  using assms
proof (induction xs arbitrary: i)
  case (Cons x xs)
  show ?case
  proof (cases "wl_pid x = p")
    case False
    then obtain j where "i = Suc j" "j = length (takeWhile (\<lambda>e. wl_pid e \<noteq> p) xs)" using Cons.prems(1) by simp
    then show ?thesis using Cons False by auto
  qed (use Cons.prems in auto)
qed simp

lemma opens_upd:
  assumes "i < length (sn_wlist n)"
  shows "opens (wlist_upd i f n) = opens n + unat (wl_open_num (f (sn_wlist n ! i))) - unat (wl_open_num (sn_wlist n ! i))"
proof -
  have "map (\<lambda>e. unat (wl_open_num e)) (sn_wlist n) ! i = unat (wl_open_num (sn_wlist n ! i))" using assms by simp
  then show ?thesis using assms sum_list_update [of i "map (\<lambda>e. unat (wl_open_num e)) (sn_wlist n)"]
    by (simp add: opens_def wlist_upd_def map_update)
qed

lemma opens_nth: "i < length (sn_wlist n) \<Longrightarrow> unat (wl_open_num (sn_wlist n ! i)) \<le> opens n"
  unfolding opens_def by (rule member_le_sum_list) simp_all

lemma wf_upd_same_pid:
  assumes "node_wf n" "i < length (sn_wlist n)" "\<And>e. wl_pid (f e) = wl_pid e"
    "wl_open_num (f (sn_wlist n ! i)) \<le> TRS_SHR_ID_NODE_MAX_OPEN_NUM" "wl_pid (sn_wlist n ! i) \<noteq> 0"
  shows "node_wf (wlist_upd i f n)"
proof -
  have "map wl_pid ((sn_wlist n)[i := f (sn_wlist n ! i)]) = map wl_pid (sn_wlist n)"
    using assms(2,3) by (simp add: map_update list_update_same_conv)
  then show ?thesis using assms by (auto simp: node_wf_def wlist_upd_def dest!: set_update_subset_insert [THEN subsetD])
qed

lemma wlist_upd_simps [simp]:
  "sn_inst (wlist_upd i f n) = sn_inst n" "sn_key (wlist_upd i f n) = sn_key n" "sn_name (wlist_upd i f n) = sn_name n"
  "sn_id (wlist_upd i f n) = sn_id n" "sn_type (wlist_upd i f n) = sn_type n" "sn_res_type (wlist_upd i f n) = sn_res_type n"
  "sn_pid (wlist_upd i f n) = sn_pid n" "sn_flag (wlist_upd i f n) = sn_flag n" "sn_ref (wlist_upd i f n) = sn_ref n"
  by (simp_all add: wlist_upd_def)

section \<open>References on the resource ids\<close>

text \<open>The references that the nodes of a table hold on each resource id.\<close>

type_synonym res_key = "trs_id_inst \<times> int \<times> u32"

abbreviation rkey :: "shr_id_node \<Rightarrow> res_key" where
  "rkey n \<equiv> (sn_inst n, sn_res_type n, sn_id n)"

definition local_id :: "shr_id_node \<Rightarrow> bool" where
  "local_id n \<longleftrightarrow> sn_flag n AND TSDRV_FLAG_REMOTE_ID = 0"

definition refs :: "shr_nodes \<Rightarrow> res_key \<Rightarrow> nat" where
  "refs N r = card {k \<in> dom N. local_id (the (N k)) \<and> rkey (the (N k)) = r}"

lemma refs_upd:
  assumes "N k = Some n" "same_node n m"
  shows "refs (N(k \<mapsto> m)) = refs N"
proof
  fix r
  have "{x \<in> dom (N(k \<mapsto> m)). local_id (the ((N(k \<mapsto> m)) x)) \<and> rkey (the ((N(k \<mapsto> m)) x)) = r} =
      {x \<in> dom N. local_id (the (N x)) \<and> rkey (the (N x)) = r}"
    using assms by (auto simp: same_node_def local_id_def)
  then show "refs (N(k \<mapsto> m)) r = refs N r" by (simp add: refs_def)
qed

lemma refs_add:
  assumes "N k = None" "finite (dom N)"
  shows "refs (N(k \<mapsto> n)) = (if local_id n then (refs N)(rkey n := Suc (refs N (rkey n))) else refs N)"
proof
  fix r
  let ?S = "\<lambda>N. {x \<in> dom N. local_id (the (N x)) \<and> rkey (the (N x)) = r}"
  have S: "?S (N(k \<mapsto> n)) = (if local_id n \<and> rkey n = r then insert k (?S N) else ?S N)"
    using assms(1) by (auto split: if_splits)
  have new: "k \<notin> ?S N" and fin: "finite (?S N)" using assms by auto
  have "card (?S (N(k \<mapsto> n))) = (if local_id n \<and> rkey n = r then Suc (card (?S N)) else card (?S N))"
    unfolding S card_insert_disjoint [OF fin new, symmetric] by (rule if_distrib)
  then show "refs (N(k \<mapsto> n)) r = (if local_id n then (refs N)(rkey n := Suc (refs N (rkey n))) else refs N) r"
    unfolding refs_def by auto
qed

lemma refs_del:
  assumes "N k = Some n" "finite (dom N)"
  shows "refs N = (if local_id n then (refs (N(k := None)))(rkey n := Suc (refs (N(k := None)) (rkey n))) else refs (N(k := None)))"
proof -
  have "refs ((N(k := None))(k \<mapsto> n)) =
      (if local_id n then (refs (N(k := None)))(rkey n := Suc (refs (N(k := None)) (rkey n))) else refs (N(k := None)))"
    by (rule refs_add) (use assms in auto)
  moreover have "(N(k := None))(k \<mapsto> n) = N" using assms(1) by auto
  ultimately show ?thesis by simp
qed

end
