(* ===== verification/Shr_Node_Refs.thy ===== *)
theory Shr_Node_Refs
  imports Shr_Node
begin

text \<open>
  What the operations of \<^verbatim>\<open>trs_shr_id_node.c\<close> do to the map of nodes and to the references on resource ids, over
  any provider of such references (locale \<open>id_refs\<close>). Each operation takes a counted pointer, changes the node under
  its lock and drops one pointer or two; \<open>put_n\<close> is the dropping.
\<close>

definition valid_name :: "string \<Rightarrow> int \<Rightarrow> bool" where
  "valid_name name ty \<longleftrightarrow> 0 < strnlen name SHR_ID_NSM_NAME_SIZE \<and> strnlen name SHR_ID_NSM_NAME_SIZE < SHR_ID_NSM_NAME_SIZE \<and>
     0 \<le> ty \<and> ty < SHR_ID_TYPE_MAX"

definition lookup :: "shr_nodes \<Rightarrow> string \<Rightarrow> int \<Rightarrow> shr_id_node option" where
  "lookup N name ty = (if valid_name name ty then N (ty, cstr name) else None)"

fun put_n :: "(u32 \<Rightarrow> nat) \<Rightarrow> 'w shr_res \<Rightarrow> shr_id_node \<Rightarrow> nat \<Rightarrow> shr_htable \<Rightarrow> 'w \<Rightarrow> (shr_htable \<times> 'w) option" where
  "put_n hm res node 0 t w = Some (t, w)"
| "put_n hm res node (Suc j) t w = do { (t', w') \<leftarrow> shr_id_node_put hm res node t w; put_n hm res node j t' w' }"

definition shr_inv :: "(u32 \<Rightarrow> nat) \<Rightarrow> ('w \<Rightarrow> (res_key \<Rightarrow> nat) \<Rightarrow> bool) \<Rightarrow> shr_htable \<Rightarrow> 'w \<Rightarrow> bool" where
  "shr_inv hm held t w \<longleftrightarrow>
     table_ok hm t \<and> (\<forall>k n. nodes hm t k = Some n \<longrightarrow> node_ok n) \<and> held w (refs (nodes hm t))"

lemma shr_invD:
  assumes "shr_inv hm held t w"
  shows "table_ok hm t" "\<And>k n. nodes hm t k = Some n \<Longrightarrow> node_ok n" "held w (refs (nodes hm t))"
  using assms unfolding shr_inv_def by blast+

lemma same_node_refl [simp]: "same_node n n"
  by (simp add: same_node_def)

lemma node_upd_simps [simp]:
  "opens (n\<lparr>sn_ref := r\<rparr>) = opens n" "live (n\<lparr>sn_ref := r\<rparr>) = live n" "node_wf (n\<lparr>sn_ref := r\<rparr>) = node_wf n"
  "wopen (n\<lparr>sn_ref := r\<rparr>) p = wopen n p" "same_node m (n\<lparr>sn_ref := r\<rparr>) = same_node m n"
  "opens (n\<lparr>sn_pid := q\<rparr>) = opens n" "node_wf (n\<lparr>sn_pid := q\<rparr>) = node_wf n" "wopen (n\<lparr>sn_pid := q\<rparr>) p = wopen n p"
  "same_node m (n\<lparr>sn_pid := q\<rparr>) = same_node m n" "local_id (n\<lparr>sn_ref := r\<rparr>) = local_id n" "local_id (n\<lparr>sn_pid := q\<rparr>) = local_id n"
  by (simp_all add: opens_def live_def node_wf_def wopen_def same_node_def local_id_def)

text \<open>A node found by name is counted: \<^verbatim>\<open>shr_id_node_get\<close>.\<close>

lemma get_effect:
  assumes "shr_inv hm held t w"
  shows "lookup (nodes hm t) name ty = None \<Longrightarrow> shr_id_node_get hm name ty t = (None, t)"
    "lookup (nodes hm t) name ty = Some n \<Longrightarrow>
       shr_id_node_get hm name ty t = (Some (n\<lparr>sn_ref := sn_ref n + 1\<rparr>), shr_id_node_store hm (n\<lparr>sn_ref := sn_ref n + 1\<rparr>) t)"
proof -
  assume "lookup (nodes hm t) name ty = None"
  then show "shr_id_node_get hm name ty t = (None, t)"
    by (auto simp: lookup_def valid_name_def shr_id_node_get_def find_nodes Let_def not_le split: if_splits)
next
  assume l: "lookup (nodes hm t) name ty = Some n"
  then have n: "valid_name name ty" "nodes hm t (ty, cstr name) = Some n" by (simp_all add: lookup_def split: if_splits)
  then have "node_ok n" using shr_invD(2) [OF assms] by blast
  then have "sn_ref n \<noteq> 0" by (auto simp: node_ok_def)
  then show "shr_id_node_get hm name ty t = (Some (n\<lparr>sn_ref := sn_ref n + 1\<rparr>), shr_id_node_store hm (n\<lparr>sn_ref := sn_ref n + 1\<rparr>) t)"
    using n by (simp add: shr_id_node_get_def find_nodes valid_name_def Let_def)
qed

text \<open>Storing a changed copy of a node.\<close>

lemma store_effect:
  assumes "table_ok hm t" "nodes hm t k = Some n" "same_node n m"
  shows "table_ok hm (shr_id_node_store hm m t)" "nodes hm (shr_id_node_store hm m t) = (nodes hm t)(k \<mapsto> m)"
proof -
  have k: "nkey m = k" "sn_key m = nm_key (cstr (sn_name m))" using nodes_key [OF assms(1,2)] assms(3) by (simp_all add: same_node_def)
  then have "nodes hm t (nkey m) \<noteq> None" using assms(2) by simp
  then show "table_ok hm (shr_id_node_store hm m t)" "nodes hm (shr_id_node_store hm m t) = (nodes hm t)(k \<mapsto> m)"
    using store_nodes [OF assms(1) k(2)] k(1) by simp_all
qed

lemma put_more:
  assumes "table_ok hm t" "nodes hm t k = Some m" "nkey node = k" "sn_ref m \<noteq> 1"
  shows "\<exists>t'. shr_id_node_put hm res node t w = Some (t', w) \<and> table_ok hm t' \<and> nodes hm t' = (nodes hm t)(k \<mapsto> m\<lparr>sn_ref := sn_ref m - 1\<rparr>)"
proof -
  let ?m = "m\<lparr>sn_ref := sn_ref m - 1\<rparr>"
  have "sn_ref m - 1 \<noteq> 0" using assms(4) by simp
  then have "shr_id_node_put hm res node t w = Some (shr_id_node_store hm ?m t, w)"
    using assms(2,3) by (auto simp: shr_id_node_put_def find_nodes)
  then show ?thesis using store_effect [OF assms(1,2), of ?m] by simp
qed

text \<open>The changes that each operation makes to a node under its lock.\<close>

definition keeps :: "shr_id_node \<Rightarrow> shr_id_node \<Rightarrow> bool" where
  "keeps n m \<longleftrightarrow> same_node n m \<and> sn_pid m = sn_pid n \<and> (\<forall>p. p \<noteq> 0 \<longrightarrow> wopen m p = wopen n p)"

lemma keeps_trans: "keeps a b \<Longrightarrow> keeps b c \<Longrightarrow> keeps a c"
  by (simp add: keeps_def same_node_def)

lemma idle_index: "shr_id_node_get_idle_wlist_index n = shr_id_node_find_wlist_index n 0"
  by (simp add: shr_id_node_get_idle_wlist_index_def shr_id_node_find_wlist_index_def)

lemma find_index_ref [simp]: "shr_id_node_find_wlist_index (n\<lparr>sn_ref := r\<rparr>) p = shr_id_node_find_wlist_index n p"
  by (simp add: shr_id_node_find_wlist_index_def)

lemma wopen_absent: "p \<notin> wl_pid ` set (sn_wlist n) \<Longrightarrow> wopen n p = 0"
  by (auto simp: wopen_def find_Some_iff split: option.split)

lemma wopen_upd:
  assumes "node_wf n" "shr_id_node_find_wlist_index n p = i" "i \<noteq> SHR_ID_PID_MAX_NUM" "wl_pid (f (sn_wlist n ! i)) = q"
    "q = p \<or> q \<notin> wl_pid ` set (sn_wlist n)" "r \<noteq> p \<or> p = q"
  shows "wopen (wlist_upd i f n) r = (if r = q then unat (wl_open_num (f (sn_wlist n ! i))) else wopen n r)"
proof -
  have i: "i = length (takeWhile (\<lambda>e. wl_pid e \<noteq> p) (sn_wlist n))" using assms(2) by (simp add: shr_id_node_find_wlist_index_def)
  have "i < length (sn_wlist n)" using wlist_index(2) [OF assms(1,2,3)] by simp
  from find_update_pid [OF i this assms(4,5,6)] show ?thesis by (simp add: wopen_def wlist_upd_def)
qed

lemma distinct_filter_update: "p \<notin> set xs \<Longrightarrow> distinct (filter P xs) \<Longrightarrow> distinct (filter P (xs[i := p]))"
proof (induction xs arbitrary: i)
  case (Cons x xs)
  show ?case
  proof (cases i)
    case (Suc j)
    have "x \<notin> set (filter P (xs[j := p]))" if "P x"
      using Cons.prems that set_update_subset_insert [of xs j p] by auto
    moreover have "distinct (filter P (xs[j := p]))" using Cons by (auto split: if_splits)
    ultimately show ?thesis using Suc by simp
  qed (use Cons.prems in \<open>auto split: if_splits\<close>)
qed simp

lemma set_pid_keeps:
  assumes "node_wf n" "p \<noteq> 0" "shr_id_node_set_pid now n p = (ret, m)"
  shows "node_wf m \<and> keeps n m \<and> sn_ref m = sn_ref n \<and> opens m = opens n"
proof -
  define idx where "idx = shr_id_node_find_wlist_index n p"
  define i where "i = (if idx = 16 then shr_id_node_find_wlist_index n 0 else idx)"
  let ?f = "\<lambda>e. e\<lparr>wl_pid := p, wl_set_time := now\<rparr>"
  have r: "(ret, m) = (if i = 16 then (- ENODEV, n) else (0, wlist_upd i ?f n))"
    
    using assms(3) unfolding shr_id_node_set_pid_def Let_def idx_def i_def idle_index by (rule sym)
  show ?thesis
  proof (cases "i = 16")
    case True
    then show ?thesis using r assms(1) by (simp add: keeps_def)
  next
    case ne: False
    then have m: "m = wlist_upd i ?f n" using r by simp
    define q where "q = (if idx = 16 then 0 else p)"
    have iq: "shr_id_node_find_wlist_index n q = i" by (simp add: i_def q_def idx_def)
    note w = wlist_index(2) [OF assms(1) iq ne]
    have new: "p = q \<or> p \<notin> wl_pid ` set (sn_wlist n)" using wlist_index(3) [OF assms(1) idx_def [symmetric]] by (auto simp: q_def)
    have wo: "wopen m r = (if r = p then unat (wl_open_num (sn_wlist n ! i)) else wopen n r)" if "r \<noteq> 0" for r
      unfolding m using wopen_upd [OF assms(1) iq ne, of ?f p r] new that by (auto simp: q_def)
    have "wopen n p = unat (wl_open_num (sn_wlist n ! i))"
    proof (cases "idx = 16")
      case True
      then have "p \<notin> wl_pid ` set (sn_wlist n)" "wl_pid (sn_wlist n ! i) = 0" using wlist_index(3) [OF assms(1) idx_def [symmetric]] w
        by (simp_all add: q_def)
      moreover have "wl_open_num (sn_wlist n ! i) = 0" using assms(1) w calculation(2) by (simp add: node_wf_def)
      ultimately show ?thesis by (simp add: wopen_absent)
    next
      case False
      then show ?thesis using w by (simp add: wopen_def q_def)
    qed
    then have k: "keeps n m" using wo by (simp add: keeps_def m same_node_def)
    have op: "opens m = opens n" using opens_upd [of i n ?f] w opens_nth [of i n] by (simp add: m)
    have "distinct (filter (\<lambda>p. p \<noteq> 0) (map wl_pid (sn_wlist m)))"
    proof -
      have pids: "map wl_pid (sn_wlist m) = (map wl_pid (sn_wlist n))[i := p]" by (simp add: m wlist_upd_def map_update)
      show ?thesis
      proof (cases "p = q")
        case True
        then have "map wl_pid (sn_wlist n) ! i = p" using w by simp
        then show ?thesis unfolding pids using assms(1) by (metis list_update_id node_wf_def)
      next
        case False
        then have "p \<notin> set (map wl_pid (sn_wlist n))" using new by simp
        then show ?thesis unfolding pids using assms(1) by (intro distinct_filter_update) (simp_all add: node_wf_def)
      qed
    qed
    moreover have "\<forall>e \<in> set (sn_wlist m). wl_open_num e \<le> TRS_SHR_ID_NODE_MAX_OPEN_NUM \<and> (wl_pid e = 0 \<longrightarrow> wl_open_num e = 0)"
    proof
      fix e assume "e \<in> set (sn_wlist m)"
      then have "e \<in> set (sn_wlist n) \<or> e = ?f (sn_wlist n ! i)"
        using set_update_subset_insert [of "sn_wlist n" i "?f (sn_wlist n ! i)"] by (auto simp: m wlist_upd_def)
      then show "wl_open_num e \<le> TRS_SHR_ID_NODE_MAX_OPEN_NUM \<and> (wl_pid e = 0 \<longrightarrow> wl_open_num e = 0)"
        using assms(1,2) w by (auto simp: node_wf_def)
    qed
    moreover have "length (sn_wlist m) = 16" using assms(1) by (simp add: m wlist_upd_def node_wf_def)
    ultimately have "node_wf m" using assms(1) by (simp add: node_wf_def m)
    with k op show ?thesis by (simp add: m)
  qed
qed

lemma set_pids_keeps:
  assumes "node_wf n" "shr_id_node_set_pids0 n pid pids = (ret, m)"
  shows "node_wf m \<and> keeps n m \<and> sn_ref m = sn_ref n \<and> opens m = opens n"
proof (cases "sn_pid n = pid")
  case True
  then have "set_pids_loop n pids = (ret, m)" using assms(2) by (simp add: shr_id_node_set_pids0_def)
  then show ?thesis using assms(1)
  proof (induction n pids arbitrary: ret m rule: set_pids_loop.induct)
    case (2 node p now ps)
    obtain r n1 where s: "shr_id_node_set_pid now node p = (r, n1)" by (cases "shr_id_node_set_pid now node p")
    show ?case
    proof (cases "p = 0 \<or> sn_pid node = p")
      case False
      then have k: "node_wf n1 \<and> keeps node n1 \<and> sn_ref n1 = sn_ref node \<and> opens n1 = opens node"
        using set_pid_keeps [OF "2.prems"(2) _ s] by simp
      show ?thesis
      proof (cases "r = 0")
        case True
        then have "set_pids_loop n1 ps = (ret, m)" using "2.prems"(1) False s by simp
        then have "node_wf m \<and> keeps n1 m \<and> sn_ref m = sn_ref n1 \<and> opens m = opens n1"
          using "2.IH"(2) [OF False s [symmetric]] True k by blast
        then show ?thesis using k keeps_trans by auto
      next
        case r: False
        then show ?thesis using "2.prems"(1) False s k by simp
      qed
    qed (use 2 in simp)
  qed (simp add: keeps_def)
next
  case False
  then show ?thesis using assms by (simp add: shr_id_node_set_pids0_def keeps_def)
qed

text \<open>The resource types behind the two types of shared ids: notifies and events.\<close>

definition res_shared :: "int \<Rightarrow> bool" where
  "res_shared ty \<longleftrightarrow> ty \<in> {3, 1}"

text \<open>
  The contract of the resource manager towards the nodes: \<open>held w g\<close> says that in state \<open>w\<close> the nodes hold \<open>g k\<close>
  references on the resource id \<open>k\<close>. A reference that was taken can be returned.
\<close>

locale id_refs =
  fixes res :: "'w shr_res" and held :: "'w \<Rightarrow> (res_key \<Rightarrow> nat) \<Rightarrow> bool"
  assumes get_law: "held w g \<Longrightarrow> res_shared ty \<Longrightarrow> tgid \<noteq> 0 \<Longrightarrow> sr_get res w inst tgid ty i = Some (ret, w') \<Longrightarrow>
      int (g (inst, ty, i)) < INT_MAX - 1 \<Longrightarrow>
      held w' (if ret = 0 then g((inst, ty, i) := Suc (g (inst, ty, i))) else g)"
    and get_total: "held w g \<Longrightarrow> res_shared ty \<Longrightarrow> \<exists>ret w'. sr_get res w inst tgid ty i = Some (ret, w')"
    and put_law: "held w g \<Longrightarrow> 0 < g (inst, ty, i) \<Longrightarrow>
      \<exists>w'. sr_put res w inst ty i = Some (0, w') \<and> held w' (g((inst, ty, i) := g (inst, ty, i) - 1))"
begin

lemma destroy0_effect:
  assumes "held w (refs N)" "N k = Some n" "finite (dom N)" "same_node n m"
  shows "\<exists>w'. shr_id_node_destroy0 res m w = Some w' \<and> held w' (refs (N(k := None)))"
proof (cases "local_id n")
  case True
  have r: "refs N = (refs (N(k := None)))(rkey n := Suc (refs (N(k := None)) (rkey n)))"
    using refs_del [OF assms(2,3)] True by simp
  have "0 < refs N (rkey n)" by (simp add: r)
  then obtain w' where w': "sr_put res w (sn_inst n) (sn_res_type n) (sn_id n) = Some (0, w')"
    "held w' ((refs N)(rkey n := refs N (rkey n) - 1))"
    using put_law [OF assms(1)] by blast
  have "(refs N)(rkey n := refs N (rkey n) - 1) = refs (N(k := None))" unfolding r by (simp add: fun_upd_idem)
  then show ?thesis using w' True assms(4) by (auto simp: shr_id_node_destroy0_def local_id_def same_node_def)
next
  case False
  then have "refs N = refs (N(k := None))" using refs_del [OF assms(2,3)] by simp
  then show ?thesis using False assms(1,4) by (auto simp: shr_id_node_destroy0_def local_id_def same_node_def)
qed

lemma put_last:
  assumes "table_ok hm t" "nodes hm t k = Some m" "nkey node = k" "sn_ref m = 1" "held w (refs (nodes hm t))"
  shows "\<exists>t' w'. shr_id_node_put hm res node t w = Some (t', w') \<and> table_ok hm t' \<and> nodes hm t' = (nodes hm t)(k := None) \<and>
    held w' (refs (nodes hm t'))"
proof -
  let ?m = "m\<lparr>sn_ref := sn_ref m - 1\<rparr>"
  have k: "nkey ?m = k" "sn_key ?m = nm_key (cstr (sn_name ?m))" using nodes_key [OF assms(1,2)] by simp_all
  have fin: "finite (dom (nodes hm t))" using assms(1) by (simp add: table_ok_def)
  obtain w' where w': "shr_id_node_destroy0 res ?m w = Some w'" "held w' (refs ((nodes hm t)(k := None)))"
    using destroy0_effect [OF assms(5,2) fin, of ?m] by auto
  have "shr_id_node_put hm res node t w = Some (shr_id_node_del hm t ?m, w')"
    using assms(2-4) w'(1) by (auto simp: shr_id_node_put_def find_nodes shr_id_node_release_def)
  then show ?thesis using del_nodes [OF assms(1) k(2)] k(1) w'(2) by auto
qed

text \<open>Dropping the counted pointers that an operation holds on a node.\<close>

lemma put_n_effect:
  assumes "table_ok hm t" "nodes hm t k = Some m" "nkey node = k" "node_wf m" "unat (sn_ref m) = live m + j" "0 < live m \<or> 0 < j"
    "held w (refs (nodes hm t))" "\<forall>k' n. k' \<noteq> k \<longrightarrow> nodes hm t k' = Some n \<longrightarrow> node_ok n"
  shows "\<exists>t' w'. put_n hm res node j t w = Some (t', w') \<and> shr_inv hm held t' w' \<and>
    nodes hm t' = (nodes hm t)(k := if live m = 0 then None else Some (m\<lparr>sn_ref := sn_ref m - of_nat j\<rparr>))"
  using assms
proof (induction j arbitrary: t w m)
  case 0
  have "nodes hm t k' = Some n \<Longrightarrow> node_ok n" for k' n
  proof (cases "k' = k")
    case True
    then show "nodes hm t k' = Some n \<Longrightarrow> node_ok n" using "0.prems"(2,4,5,6) by (simp add: node_ok_def)
  qed (use "0.prems"(8) in blast)
  then have "shr_inv hm held t w" using 0 by (auto simp: shr_inv_def)
  moreover have "(nodes hm t)(k := if live m = 0 then None else Some (m\<lparr>sn_ref := sn_ref m - of_nat 0\<rparr>)) = nodes hm t"
    using "0.prems"(2,6) by (auto simp: fun_upd_idem_iff)
  ultimately show ?case by simp
next
  case (Suc j)
  show ?case
  proof (cases "sn_ref m = 1")
    case True
    then have z: "live m = 0" "j = 0" using Suc.prems(5) by simp_all
    obtain t' w' where p: "shr_id_node_put hm res node t w = Some (t', w')" "table_ok hm t'"
      "nodes hm t' = (nodes hm t)(k := None)" "held w' (refs (nodes hm t'))"
      using put_last [OF Suc.prems(1-3) True Suc.prems(7)] by blast
    have "nodes hm t' k' = Some n \<Longrightarrow> node_ok n" for k' n
      using Suc.prems(8) p(3) by (metis fun_upd_apply option.distinct(1))
    then have "shr_inv hm held t' w'" using p by (auto simp: shr_inv_def)
    moreover have "put_n hm res node (Suc j) t w = Some (t', w')" using p(1) z(2) by simp
    moreover have "nodes hm t' = (nodes hm t)(k := if live m = 0 then None else Some (m\<lparr>sn_ref := sn_ref m - of_nat (Suc j)\<rparr>))"
      unfolding p(3) z(1) by (simp only: refl if_True)
    ultimately show ?thesis by blast
  next
    case False
    let ?m = "m\<lparr>sn_ref := sn_ref m - 1\<rparr>"
    from put_more [OF Suc.prems(1-3) False, of res w]
    obtain t' where p: "shr_id_node_put hm res node t w = Some (t', w)" "table_ok hm t'" "nodes hm t' = (nodes hm t)(k \<mapsto> ?m)"
      by (elim exE conjE)
    have "sn_ref m \<noteq> 0" using Suc.prems(5) by auto
    then have u: "unat (sn_ref m - 1) = unat (sn_ref m) - 1" by (rule unat_pred)
    have pos: "0 < live ?m \<or> 0 < j" using Suc.prems(5) False by (cases j) (auto simp: word_unat_eq_iff)
    have others: "\<forall>k' n. k' \<noteq> k \<longrightarrow> nodes hm t' k' = Some n \<longrightarrow> node_ok n" using Suc.prems(8) p(3) by auto
    have held': "held w (refs (nodes hm t'))" using Suc.prems(7) refs_upd [where N = "nodes hm t", OF Suc.prems(2), of ?m] p(3) by simp
    have at: "nodes hm t' k = Some ?m" unfolding p(3) by (rule fun_upd_same)
    have wf: "node_wf ?m" "unat (sn_ref ?m) = live ?m + j" using Suc.prems(4,5) u by simp_all
    from Suc.IH [OF p(2) at Suc.prems(3) wf pos held' others]
    obtain t2 w2 where q: "put_n hm res node j t' w = Some (t2, w2)" "shr_inv hm held t2 w2"
      "nodes hm t2 = (nodes hm t')(k := if live ?m = 0 then None else Some (?m\<lparr>sn_ref := sn_ref ?m - of_nat j\<rparr>))"
      by (elim exE conjE)
    have "?m\<lparr>sn_ref := sn_ref ?m - of_nat j\<rparr> = m\<lparr>sn_ref := sn_ref m - of_nat (Suc j)\<rparr>" by simp
    then have "nodes hm t2 = (nodes hm t)(k := if live m = 0 then None else Some (m\<lparr>sn_ref := sn_ref m - of_nat (Suc j)\<rparr>))"
      using q(3) unfolding p(3) by (simp only: fun_upd_upd node_upd_simps)
    moreover have "put_n hm res node (Suc j) t w = Some (t2, w2)" using p(1) q(1) by simp
    ultimately show ?thesis using q(2) by blast
  qed
qed

lemma work_effect:
  assumes inv: "shr_inv hm held t w" and l: "lookup (nodes hm t) name ty = Some n"
    and m: "same_node n m" "node_wf m" "unat (sn_ref m) = live m + j" "0 < live m \<or> 0 < j"
  shows "\<exists>t' w'. put_n hm res m j (shr_id_node_store hm m (shr_id_node_store hm (n\<lparr>sn_ref := sn_ref n + 1\<rparr>) t)) w = Some (t', w') \<and>
    shr_inv hm held t' w' \<and>
    nodes hm t' = (nodes hm t)((ty, cstr name) := if live m = 0 then None else Some (m\<lparr>sn_ref := sn_ref m - of_nat j\<rparr>))"
proof -
  let ?k = "(ty, cstr name)" and ?n = "n\<lparr>sn_ref := sn_ref n + 1\<rparr>"
  note I = shr_invD [OF inv]
  have at: "nodes hm t ?k = Some n" using l by (simp add: lookup_def split: if_splits)
  let ?t1 = "shr_id_node_store hm ?n t"
  have t1: "table_ok hm ?t1" "nodes hm ?t1 = (nodes hm t)(?k \<mapsto> ?n)" by (rule store_effect [OF I(1) at]; simp)+
  have at1: "nodes hm ?t1 ?k = Some ?n" unfolding t1(2) by (rule fun_upd_same)
  let ?t2 = "shr_id_node_store hm m ?t1"
  have "same_node ?n m" using m(1) by (simp add: same_node_def)
  from store_effect [OF t1(1) at1 this] have t2: "table_ok hm ?t2" "nodes hm ?t2 = (nodes hm t)(?k \<mapsto> m)"
    unfolding t1(2) by simp_all
  have at2: "nodes hm ?t2 ?k = Some m" unfolding t2(2) by (rule fun_upd_same)
  have key: "nkey m = ?k" using nodes_key(1) [OF I(1) at] m(1) by (simp add: same_node_def)
  have h: "held w (refs (nodes hm ?t2))" unfolding t2(2) using refs_upd [where N = "nodes hm t", OF at m(1)] I(3) by simp
  have others: "\<forall>k' n. k' \<noteq> ?k \<longrightarrow> nodes hm ?t2 k' = Some n \<longrightarrow> node_ok n" unfolding t2(2) using I(2) by auto
  from put_n_effect [OF t2(1) at2 key m(2,3,4) h others]
  show ?thesis unfolding t2(2) fun_upd_upd .
qed

lemma set_pids_effect:
  assumes inv: "shr_inv hm held t w"
  shows "\<exists>ret t' w'. shr_id_node_set_pids hm res name ty pid pids t w = Some (ret, t', w') \<and> shr_inv hm held t' w' \<and>
    (case lookup (nodes hm t) name ty of
       None \<Rightarrow> ret = - ENODEV \<and> nodes hm t' = nodes hm t
     | Some n \<Rightarrow> (if sn_pid n \<noteq> pid then ret = - EACCES else True) \<and> (\<exists>m. keeps n m \<and> nodes hm t' = (nodes hm t)((ty, cstr name) \<mapsto> m)))"
proof (cases "lookup (nodes hm t) name ty")
  case None
  then show ?thesis using inv get_effect(1) [OF inv None] by (simp add: shr_id_node_set_pids_def)
next
  case (Some n)
  let ?n = "n\<lparr>sn_ref := sn_ref n + 1\<rparr>"
  obtain ret m where m: "shr_id_node_set_pids0 ?n pid pids = (ret, m)" by (cases "shr_id_node_set_pids0 ?n pid pids")
  have ok: "node_ok n" using Some shr_invD(2) [OF inv] by (auto simp: lookup_def split: if_splits)
  have wf: "node_wf ?n" using ok by (simp add: node_ok_def)
  have k: "node_wf m \<and> keeps ?n m \<and> sn_ref m = sn_ref ?n \<and> opens m = opens ?n"
    using set_pids_keeps [OF wf m] .
  have kn: "keeps n m" using k by (simp add: keeps_def same_node_def)
  have lv: "live m = live n" using k by (simp add: live_def keeps_def)
  have pos: "0 < live m" using ok lv by (simp add: node_ok_def)
  have ref: "unat (sn_ref m) = live m + 1" using k ok live_bound [of n] by (simp add: node_ok_def lv unat_word_ariths)
  obtain t' w' where e: "put_n hm res m 1 (shr_id_node_store hm m (shr_id_node_store hm ?n t)) w = Some (t', w')" "shr_inv hm held t' w'"
    "nodes hm t' = (nodes hm t)((ty, cstr name) := if live m = 0 then None else Some (m\<lparr>sn_ref := sn_ref m - of_nat 1\<rparr>))"
    using work_effect [OF inv Some, of m 1] k kn ref by (auto simp: keeps_def)
  have "shr_id_node_set_pids hm res name ty pid pids t w = Some (ret, t', w')"
    using get_effect(2) [OF inv Some] m e(1) by (auto simp: shr_id_node_set_pids_def bind_eq_Some_conv)
  moreover have "keeps n (m\<lparr>sn_ref := sn_ref m - 1\<rparr>)" using kn by (simp add: keeps_def)
  moreover have "sn_pid n \<noteq> pid \<Longrightarrow> ret = - EACCES" using m by (simp add: shr_id_node_set_pids0_def)
  ultimately show ?thesis using Some e(2,3) pos by auto
qed

lemma destroy_effect:
  assumes inv: "shr_inv hm held t w" and pid: "pid \<noteq> 0"
  shows "\<exists>ret t' w'. shr_id_node_destroy hm res name ty pid t w = Some (ret, t', w') \<and> shr_inv hm held t' w' \<and>
    (case lookup (nodes hm t) name ty of
       None \<Rightarrow> ret = 0 \<and> nodes hm t' = nodes hm t
     | Some n \<Rightarrow>
         if sn_pid n \<noteq> pid then ret = - EACCES \<and> nodes hm t' = nodes hm t
         else ret = 0 \<and> nodes hm t' = (nodes hm t)((ty, cstr name) :=
                if opens n = 0 then None else Some (n\<lparr>sn_pid := 0, sn_ref := sn_ref n - 1\<rparr>)))"
proof (cases "lookup (nodes hm t) name ty")
  case None
  then show ?thesis using inv get_effect(1) [OF inv None] by (simp add: shr_id_node_destroy_def)
next
  case (Some n)
  let ?n = "n\<lparr>sn_ref := sn_ref n + 1\<rparr>"
  have at: "nodes hm t (ty, cstr name) = Some n" using Some by (simp add: lookup_def split: if_splits)
  have ok: "node_ok n" using shr_invD(2) [OF inv at] .
  have ref: "unat (sn_ref n + 1) = live n + 1" using ok live_bound [of n] by (simp add: node_ok_def unat_word_ariths)
  show ?thesis
  proof (cases "sn_pid n = pid")
    case False
    obtain t' w' where e: "put_n hm res ?n 1 (shr_id_node_store hm ?n (shr_id_node_store hm ?n t)) w = Some (t', w')" "shr_inv hm held t' w'"
      "nodes hm t' = (nodes hm t)((ty, cstr name) := if live ?n = 0 then None else Some (?n\<lparr>sn_ref := sn_ref ?n - of_nat 1\<rparr>))"
      using work_effect [OF inv Some, of ?n 1] ok ref by (auto simp: node_ok_def)
    have "nodes hm t' = nodes hm t" using e(3) ok at by (auto simp: node_ok_def fun_upd_idem)
    moreover have "shr_id_node_destroy hm res name ty pid t w = Some (- EACCES, t', w')"
      using get_effect(2) [OF inv Some] e(1) False by (auto simp: shr_id_node_destroy_def shr_id_node_uninit_def bind_eq_Some_conv)
    ultimately show ?thesis using Some e(2) False by simp
  next
    case True
    let ?m = "?n\<lparr>sn_pid := 0\<rparr>"
    have lv: "live ?m = opens n" "live n = opens n + 1" using True pid by (simp_all add: live_def)
    have wf: "same_node n ?m" "node_wf ?m" "unat (sn_ref ?m) = live ?m + 2" "0 < live ?m \<or> 0 < (2 :: nat)"
      using ok ref lv by (simp_all add: node_ok_def)
    from work_effect [OF inv Some wf]
    obtain t' w' where e: "put_n hm res ?m 2 (shr_id_node_store hm ?m (shr_id_node_store hm ?n t)) w = Some (t', w')" "shr_inv hm held t' w'"
      "nodes hm t' = (nodes hm t)((ty, cstr name) := if live ?m = 0 then None else Some (?m\<lparr>sn_ref := sn_ref ?m - of_nat 2\<rparr>))"
      by (elim exE conjE)
    have "shr_id_node_destroy hm res name ty pid t w = Some (0, t', w')"
      using get_effect(2) [OF inv Some] e(1) True
      by (auto simp: shr_id_node_destroy_def shr_id_node_uninit_def bind_eq_Some_conv numeral_2_eq_2)
    moreover have "?m\<lparr>sn_ref := sn_ref ?m - of_nat 2\<rparr> = n\<lparr>sn_pid := 0, sn_ref := sn_ref n - 1\<rparr>" by simp
    ultimately show ?thesis using Some e(2,3) True lv(1) by simp
  qed
qed

lemma open_effect:
  assumes inv: "shr_inv hm held t w" and pid0: "pid \<noteq> 0"
  shows "\<exists>ret attr' t' w'. shr_id_node_open hm res name pid start attr t w = Some (ret, attr', t', w') \<and> shr_inv hm held t' w' \<and>
    (case lookup (nodes hm t) name (at_type attr) of
       None \<Rightarrow> ret = - ENODEV \<and> nodes hm t' = nodes hm t
     | Some n \<Rightarrow>
         ret = fst (shr_id_node_open0 n pid start attr) \<and>
         (if ret \<noteq> 0 then nodes hm t' = nodes hm t
          else attr' = attr\<lparr>at_inst := sn_inst n, at_id := sint (sn_id n)\<rparr> \<and>
            (\<exists>m. nodes hm t' = (nodes hm t)((at_type attr, cstr name) \<mapsto> m) \<and> same_node n m \<and> sn_pid m = sn_pid n \<and>
               (\<forall>p. wopen m p = (if p = pid then wopen n p + 1 else wopen n p)) \<and> opens m = opens n + 1)))"
proof (cases "lookup (nodes hm t) name (at_type attr)")
  case None
  then show ?thesis using inv get_effect(1) [OF inv None] by (simp add: shr_id_node_open_def)
next
  case (Some n)
  let ?n = "n\<lparr>sn_ref := sn_ref n + 1\<rparr>" and ?k = "(at_type attr, cstr name)"
  have at: "nodes hm t ?k = Some n" using Some by (simp add: lookup_def split: if_splits)
  have ok: "node_ok n" using shr_invD(2) [OF inv at] .
  have wf: "node_wf n" using ok by (simp add: node_ok_def)
  have ref: "unat (sn_ref n + 1) = live n + 1" using ok live_bound [of n] by (simp add: node_ok_def unat_word_ariths)
  obtain ret m a where b: "shr_id_node_open0 ?n pid start attr = (ret, m, a)" by (cases "shr_id_node_open0 ?n pid start attr")
  have same: "fst (shr_id_node_open0 n pid start attr) = ret" using b by (auto simp: shr_id_node_open0_def Let_def split: if_splits)
  show ?thesis
  proof (cases "ret = 0")
    case False
    then have m: "m = ?n" using b by (auto simp: shr_id_node_open0_def Let_def split: if_splits)
    have wf1: "same_node n m" "node_wf m" "unat (sn_ref m) = live m + 1" "0 < live m \<or> 0 < (1 :: nat)" using wf ref by (simp_all add: m)
    from work_effect [OF inv Some wf1]
    obtain t' w' where e: "put_n hm res m 1 (shr_id_node_store hm m (shr_id_node_store hm ?n t)) w = Some (t', w')" "shr_inv hm held t' w'"
      "nodes hm t' = (nodes hm t)(?k := if live m = 0 then None else Some (m\<lparr>sn_ref := sn_ref m - of_nat 1\<rparr>))"
      by (elim exE conjE)
    have "nodes hm t' = nodes hm t" using e(3) ok at by (auto simp: m node_ok_def fun_upd_idem)
    moreover have "shr_id_node_open hm res name pid start attr t w = Some (ret, a, t', w')"
      using get_effect(2) [OF inv Some] b e(1) False by (auto simp: shr_id_node_open_def bind_eq_Some_conv)
    ultimately show ?thesis using Some e(2) False same by simp
  next
    case True
    define i where "i = shr_id_node_find_wlist_index n pid"
    let ?f = "\<lambda>e. e\<lparr>wl_open_num := wl_open_num e + 1\<rparr>"
    have o: "i \<noteq> 16" "wl_open_num (sn_wlist n ! i) < TRS_SHR_ID_NODE_MAX_OPEN_NUM" "m = wlist_upd i ?f ?n"
      "a = attr\<lparr>at_inst := sn_inst n, at_id := sint (sn_id n)\<rparr>"
      using b True by (auto simp: shr_id_node_open0_def Let_def i_def not_le split: if_splits)
    note wl = wlist_index(2) [OF wf i_def [symmetric] o(1)]
    have u: "unat (wl_open_num (sn_wlist n ! i) + 1) = unat (wl_open_num (sn_wlist n ! i)) + 1"
      using unat_Suc_less [OF o(2)] by simp
    have op: "opens m = opens n + 1" using opens_upd [of i ?n ?f] wl u by (simp add: o(3))
    have pid: "wl_pid (sn_wlist n ! i) = pid" using wl by simp
    have le: "wl_open_num (sn_wlist n ! i) + 1 \<le> TRS_SHR_ID_NODE_MAX_OPEN_NUM"
      using o(2) u by (simp add: word_le_nat_alt word_less_nat_alt)
    have wfm: "node_wf m" unfolding o(3) by (rule wf_upd_same_pid) (use wf wl le pid0 in simp_all)
    have lv: "live m = live n + 1" using op by (simp add: live_def o(3))
    have sm: "same_node n m" by (simp add: o(3) same_node_def)
    have m0: "unat (sn_ref m) = live m + 0" "0 < live m \<or> 0 < (0 :: nat)" using ref lv by (simp_all add: o(3))
    from work_effect [OF inv Some sm wfm m0]
    obtain t' w' where e: "put_n hm res m 0 (shr_id_node_store hm m (shr_id_node_store hm ?n t)) w = Some (t', w')" "shr_inv hm held t' w'"
      "nodes hm t' = (nodes hm t)(?k := if live m = 0 then None else Some (m\<lparr>sn_ref := sn_ref m - of_nat 0\<rparr>))"
      by (elim exE conjE)
    have wo: "wopen m p = (if p = pid then wopen n p + 1 else wopen n p)" for p
      using wopen_upd [of ?n pid i ?f pid p] wf i_def o(1) wl u by (simp add: o(3) wopen_def [of n pid])
    have N: "nodes hm t' = (nodes hm t)(?k \<mapsto> m)" using e(3) lv by simp
    have "shr_id_node_open hm res name pid start attr t w = Some (ret, a, t', w')"
      using get_effect(2) [OF inv Some] b e(1) True by (simp add: shr_id_node_open_def)
    moreover have "sn_pid m = sn_pid n" by (simp add: o(3))
    ultimately show ?thesis using Some e(2) True same o(4) N sm wo op
      by (intro exI [of _ ret] exI [of _ a] exI [of _ t'] exI [of _ w']) (auto intro!: exI [of _ m])
  qed
qed

lemma close_effect:
  assumes inv: "shr_inv hm held t w" and pid0: "pid \<noteq> 0"
  shows "\<exists>ret t' w'. shr_id_node_close hm res name ty pid t w = Some (ret, t', w') \<and> shr_inv hm held t' w' \<and>
    (case lookup (nodes hm t) name ty of
       None \<Rightarrow> ret = - ENODEV \<and> nodes hm t' = nodes hm t
     | Some n \<Rightarrow>
         if wopen n pid = 0 then (ret = - EBUSY \<or> ret = - EACCES) \<and> nodes hm t' = nodes hm t
         else ret = 0 \<and> (\<exists>m. nodes hm t' = (nodes hm t)((ty, cstr name) := if live m = 0 then None else Some m) \<and>
           same_node n m \<and> sn_pid m = sn_pid n \<and> (\<forall>p. wopen m p = (if p = pid then wopen n p - 1 else wopen n p)) \<and> opens m = opens n - 1))"
proof (cases "lookup (nodes hm t) name ty")
  case None
  then show ?thesis using inv get_effect(1) [OF inv None] by (simp add: shr_id_node_close_def)
next
  case (Some n)
  let ?n = "n\<lparr>sn_ref := sn_ref n + 1\<rparr>" and ?k = "(ty, cstr name)"
  have at: "nodes hm t ?k = Some n" using Some by (simp add: lookup_def split: if_splits)
  have ok: "node_ok n" using shr_invD(2) [OF inv at] .
  have wf: "node_wf n" using ok by (simp add: node_ok_def)
  have ref: "unat (sn_ref n + 1) = live n + 1" using ok live_bound [of n] by (simp add: node_ok_def unat_word_ariths)
  define i where "i = shr_id_node_find_wlist_index n pid"
  obtain ret m where b: "shr_id_node_close0 ?n pid = (ret, m)" by (cases "shr_id_node_close0 ?n pid")
  have wo0: "wopen n pid = (if i = 16 then 0 else unat (wl_open_num (sn_wlist n ! i)))"
    using wlist_index(2,3) [OF wf i_def [symmetric]] wopen_absent [of pid n] by (auto simp: wopen_def [of n pid])
  show ?thesis
  proof (cases "wopen n pid = 0")
    case True
    then have "i = 16 \<or> wl_open_num (sn_wlist n ! i) = 0" using wo0 by (metis neq0_conv unat_gt_0)
    then have m: "m = ?n" "ret = - EBUSY \<or> ret = - EACCES" "ret \<noteq> 0"
      using b by (auto simp: shr_id_node_close0_def Let_def i_def split: if_splits)
    have wf1: "same_node n m" "node_wf m" "unat (sn_ref m) = live m + 1" "0 < live m \<or> 0 < (1 :: nat)" using wf ref by (simp_all add: m(1))
    from work_effect [OF inv Some wf1]
    obtain t' w' where e: "put_n hm res m 1 (shr_id_node_store hm m (shr_id_node_store hm ?n t)) w = Some (t', w')" "shr_inv hm held t' w'"
      "nodes hm t' = (nodes hm t)(?k := if live m = 0 then None else Some (m\<lparr>sn_ref := sn_ref m - of_nat 1\<rparr>))"
      by (elim exE conjE)
    have "nodes hm t' = nodes hm t" using e(3) ok at by (auto simp: m(1) node_ok_def fun_upd_idem)
    moreover have "shr_id_node_close hm res name ty pid t w = Some (ret, t', w')"
      using get_effect(2) [OF inv Some] b e(1) m(3) by (auto simp: shr_id_node_close_def bind_eq_Some_conv)
    ultimately show ?thesis using Some e(2) True m(2) by simp
  next
    case False
    let ?f = "\<lambda>e. e\<lparr>wl_open_num := wl_open_num e - 1\<rparr>"
    have i16: "i \<noteq> 16" and nz: "wl_open_num (sn_wlist n ! i) \<noteq> 0" using False wo0 by (auto split: if_splits)
    then have m: "m = wlist_upd i ?f ?n" "ret = 0" using b by (auto simp: shr_id_node_close0_def Let_def i_def split: if_splits)
    note wl = wlist_index(2) [OF wf i_def [symmetric] i16]
    have u: "unat (wl_open_num (sn_wlist n ! i) - 1) = unat (wl_open_num (sn_wlist n ! i)) - 1" using nz by (rule unat_pred)
    have pos: "0 < unat (wl_open_num (sn_wlist n ! i))" using nz by (simp add: unat_gt_0)
    have op: "opens m = opens n - 1" using opens_upd [of i ?n ?f] wl u pos opens_nth [of i n] by (simp add: m(1))
    have opn: "0 < opens n" using opens_nth [of i n] wl pos by simp
    have "wl_open_num (sn_wlist n ! i) \<le> TRS_SHR_ID_NODE_MAX_OPEN_NUM" using wf wl by (simp add: node_wf_def)
    then have le: "wl_open_num (sn_wlist n ! i) - 1 \<le> TRS_SHR_ID_NODE_MAX_OPEN_NUM" using u by (simp add: word_le_nat_alt)
    have wfm: "node_wf m" unfolding m(1) by (rule wf_upd_same_pid) (use wf wl le pid0 in simp_all)
    have lv: "live n = live m + 1" using op opn by (simp add: live_def m(1))
    have sm: "same_node n m" by (simp add: m(1) same_node_def)
    have m2: "unat (sn_ref m) = live m + 2" "0 < live m \<or> 0 < (2 :: nat)" using ref lv by (simp_all add: m(1))
    from work_effect [OF inv Some sm wfm m2]
    obtain t' w' where e: "put_n hm res m 2 (shr_id_node_store hm m (shr_id_node_store hm ?n t)) w = Some (t', w')" "shr_inv hm held t' w'"
      "nodes hm t' = (nodes hm t)(?k := if live m = 0 then None else Some (m\<lparr>sn_ref := sn_ref m - of_nat 2\<rparr>))"
      by (elim exE conjE)
    have wo: "wopen m p = (if p = pid then wopen n p - 1 else wopen n p)" for p
      using wopen_upd [of ?n pid i ?f pid p] wf i_def i16 wl u by (simp add: m(1) wopen_def [of n pid])
    let ?m = "m\<lparr>sn_ref := sn_ref m - of_nat 2\<rparr>"
    have "shr_id_node_close hm res name ty pid t w = Some (ret, t', w')"
      using get_effect(2) [OF inv Some] b e(1) m(2) by (auto simp: shr_id_node_close_def bind_eq_Some_conv numeral_2_eq_2)
    moreover have "sn_pid ?m = sn_pid n" "same_node n ?m" "live ?m = live m" "opens ?m = opens n - 1" using sm op by (simp_all add: m(1))
    moreover have "\<forall>p. wopen ?m p = (if p = pid then wopen n p - 1 else wopen n p)" using wo by simp
    ultimately show ?thesis using Some e(2,3) False m(2)
      by (intro exI [of _ ret] exI [of _ t'] exI [of _ w']) (auto intro!: exI [of _ ?m])
  qed
qed

lemma create0_effect:
  assumes h: "held w g" and c: "shr_id_node_create0 res mem now tgid name pid attr flag w = Some (no, w')"
    and len: "length name = SHR_ID_NSM_NAME_SIZE" and sh: "res_shared (at_res_type attr)" "tgid \<noteq> 0"
    and lim: "int (g (at_inst attr, at_res_type attr, word_of_int (at_id attr))) < INT_MAX - 1"
  shows "case no of None \<Rightarrow> held w' g
    | Some n \<Rightarrow> sn_inst n = at_inst attr \<and> sn_res_type n = at_res_type attr \<and> sn_id n = word_of_int (at_id attr) \<and> sn_type n = at_type attr \<and>
        sn_name n = name \<and> sn_key n = nm_key (cstr name) \<and> sn_pid n = pid \<and> sn_ref n = 1 \<and>
        (local_id n \<longleftrightarrow> flag AND TSDRV_FLAG_REMOTE_ID = 0) \<and>
        sn_wlist n = \<lparr>wl_pid = pid, wl_set_time = now, wl_open_num = 0\<rparr> # replicate 15 \<lparr>wl_pid = 0, wl_set_time = 0, wl_open_num = 0\<rparr> \<and>
        held w' (if local_id n then g((at_inst attr, at_res_type attr, word_of_int (at_id attr)) :=
          Suc (g (at_inst attr, at_res_type attr, word_of_int (at_id attr)))) else g)"
proof (cases "mem \<and> flag AND TSDRV_FLAG_REMOTE_ID = 0")
  case True
  then obtain ret where g: "sr_get res w (at_inst attr) tgid (at_res_type attr) (word_of_int (at_id attr)) = Some (ret, w')"
    "no = (if ret \<noteq> 0 then None else Some (shr_id_node_init0 now name pid attr))"
    using c by (auto simp: shr_id_node_create0_def shr_id_node_init0_def Let_def bind_eq_Some_conv)
  then show ?thesis using get_law [OF h sh g(1) lim] len True by (auto simp: shr_id_node_init0_def name_key_nm local_id_def)
next
  case False
  then show ?thesis using c h len
    by (auto simp: shr_id_node_create0_def shr_id_node_init0_def Let_def name_key_nm local_id_def split: if_splits)
qed

lemma create_total:
  assumes inv: "shr_inv hm held t w" and a: "length name = SHR_ID_NSM_NAME_SIZE" "res_shared (at_res_type attr)" "tgid \<noteq> 0"
    and lim: "int (refs (nodes hm t) (at_inst attr, at_res_type attr, word_of_int (at_id attr))) < INT_MAX - 1"
  shows "\<exists>ret t' w'. shr_id_node_create hm res mem now tgid name pid attr flag t w = Some (ret, t', w')"
proof -
  note I = shr_invD [OF inv]
  obtain r0 w0 where g: "sr_get res w (at_inst attr) tgid (at_res_type attr) (word_of_int (at_id attr)) = Some (r0, w0)"
    using get_total [OF I(3) a(2)] by blast
  have "\<exists>no w1. shr_id_node_create0 res mem now tgid name pid attr flag w = Some (no, w1)"
    by (simp add: shr_id_node_create0_def shr_id_node_init0_def Let_def g)
  then obtain no w1 where c: "shr_id_node_create0 res mem now tgid name pid attr flag w = Some (no, w1)" by blast
  show ?thesis
  proof (cases no)
    case (Some n)
    have "\<exists>w2. shr_id_node_destroy0 res n w1 = Some w2"
      using create0_effect [OF I(3) c a lim] Some put_law [of w1 _ "sn_inst n" "sn_res_type n" "sn_id n"]
      by (cases "local_id n") (fastforce simp: shr_id_node_destroy0_def local_id_def)+
    then show ?thesis using c Some by (auto simp: shr_id_node_create_def split: prod.splits)
  qed (use c in \<open>simp add: shr_id_node_create_def\<close>)
qed

lemma create_effect:
  assumes inv: "shr_inv hm held t w" and r: "shr_id_node_create hm res mem now tgid name pid attr flag t w = Some (ret, t', w')"
    and a: "pid \<noteq> 0" "valid_name name (at_type attr)" "length name = SHR_ID_NSM_NAME_SIZE"
      "res_shared (at_res_type attr)" "tgid \<noteq> 0"
    and lim: "int (refs (nodes hm t) (at_inst attr, at_res_type attr, word_of_int (at_id attr))) < INT_MAX - 1"
  shows "shr_inv hm held t' w' \<and>
    (if ret \<noteq> 0 then nodes hm t' = nodes hm t
     else lookup (nodes hm t) name (at_type attr) = None \<and>
       (\<exists>n. nodes hm t' = (nodes hm t)((at_type attr, cstr name) \<mapsto> n) \<and> sn_pid n = pid \<and> opens n = 0 \<and> (\<forall>p. wopen n p = 0) \<and>
          rkey n = (at_inst attr, at_res_type attr, word_of_int (at_id attr)) \<and> (local_id n \<longleftrightarrow> flag AND TSDRV_FLAG_REMOTE_ID = 0)))"
proof -
  let ?N = "nodes hm t" and ?k = "(at_type attr, cstr name)" and ?r = "(at_inst attr, at_res_type attr, word_of_int (at_id attr))"
  note I = shr_invD [OF inv]
  have fin: "finite (dom ?N)" using I(1) by (simp add: table_ok_def)
  obtain no w1 where c: "shr_id_node_create0 res mem now tgid name pid attr flag w = Some (no, w1)"
    using r by (auto simp: shr_id_node_create_def bind_eq_Some_conv)
  note cr = create0_effect [OF I(3) c a(3,4,5) lim]
  show ?thesis
  proof (cases no)
    case None
    then have "ret = - ENODEV" "t' = t" "w' = w1" using r c by (auto simp: shr_id_node_create_def)
    then show ?thesis using cr None inv I by (simp add: shr_inv_def)
  next
    case (Some n)
    then have n: "sn_inst n = at_inst attr" "sn_res_type n = at_res_type attr" "sn_id n = word_of_int (at_id attr)" "sn_type n = at_type attr"
      "sn_name n = name" "sn_key n = nm_key (cstr name)" "sn_pid n = pid" "sn_ref n = 1"
      "local_id n \<longleftrightarrow> flag AND TSDRV_FLAG_REMOTE_ID = 0" "sn_wlist n = \<lparr>wl_pid = pid, wl_set_time = now, wl_open_num = 0\<rparr> #
        replicate 15 \<lparr>wl_pid = 0, wl_set_time = 0, wl_open_num = 0\<rparr>"
      "held w1 (if local_id n then (refs ?N)(?r := Suc (refs ?N ?r)) else refs ?N)" using cr by auto
    have key: "nkey n = ?k" "sn_key n = nm_key (cstr (sn_name n))" using n by simp_all
    note add = add_nodes [OF I(1) key(2), unfolded key(1)]
    have op: "opens n = 0" "wopen n p = 0" for p
      using n(10) by (auto simp: opens_def wopen_def sum_list_replicate find_Some_iff nth_Cons split: option.split nat.splits)
    show ?thesis
    proof (cases "?N ?k = None")
      case True
      let ?t = "shr_bucket_upd hm n (\<lambda>ns. n # ns) t"
      have res: "ret = 0" "t' = ?t" "w' = w1" using r c Some add True by (auto simp: shr_id_node_create_def)
      have N: "nodes hm t' = ?N(?k \<mapsto> n)" "table_ok hm t'" using add True res by simp_all
      have "0 \<le> sn_type n" "sn_type n < 2" using a(2) n(4) by (simp_all add: valid_name_def)
      then have "node_ok n" using op(1) n a(1) by (auto simp: node_ok_def node_wf_def live_def)
      moreover have "refs (?N(?k \<mapsto> n)) = (if local_id n then (refs ?N)(?r := Suc (refs ?N ?r)) else refs ?N)"
        using refs_add [OF True fin, of n] n(1-3) by simp
      ultimately have "shr_inv hm held t' w'" using I(2) N res n(11) by (auto simp: shr_inv_def)
      then show ?thesis using res N(1) op n(1-3,7,9) True by (auto simp: lookup_def)
    next
      case False
      then have f: "ret = - EACCES" "t' = t" "shr_id_node_destroy0 res n w1 = Some w'"
        using r c Some add by (auto simp: shr_id_node_create_def bind_eq_Some_conv)
      have "held w' (refs ?N)"
      proof (cases "local_id n")
        case True
        then obtain w2 where "sr_put res w1 (at_inst attr) (at_res_type attr) (word_of_int (at_id attr)) = Some (0, w2)"
          "held w2 (((refs ?N)(?r := Suc (refs ?N ?r)))(?r := ((refs ?N)(?r := Suc (refs ?N ?r))) ?r - 1))"
          using put_law [of w1 "(refs ?N)(?r := Suc (refs ?N ?r))" "at_inst attr" "at_res_type attr" "word_of_int (at_id attr)"] n(11) by auto
        then show ?thesis using f(3) True n(1-3) by (auto simp: shr_id_node_destroy0_def local_id_def)
      qed (use f(3) n(11) in \<open>auto simp: shr_id_node_destroy0_def local_id_def\<close>)
      then show ?thesis using f(1,2) I by (simp add: shr_inv_def)
    qed
  qed
qed

end

end
