(* ===== verification/Shr_Id.thy ===== *)
theory Shr_Id
  imports Shr_Node_Refs
begin

text \<open>
  Sharing of ids between processes, \<^verbatim>\<open>rms/trs_drv/shr_id/trs_shr_id.c\<close> and \<^verbatim>\<open>trs_shr_id_fops.c\<close>: every process that opened the device file has a context with the nodes it created and
  the nodes it opened, so that they can be recycled when the file is released. A context is identified by its
  process in the table of contexts, which \<^verbatim>\<open>shr_id_proc_add\<close> keeps unique. The operations take the context of the
  file and return it changed.
\<close>

section \<open>Data\<close>

abbreviation (input) EINTR :: int where "EINTR \<equiv> 4"
abbreviation (input) EEXIST :: int where "EEXIST \<equiv> 17"

record shr_id_proc_node =
  sp_name :: string
  sp_res_type :: int
  sp_type :: int
  sp_inst :: trs_id_inst
  sp_id :: int
  sp_ref :: u32
  sp_flag :: u32
  sp_opened_devid :: u32

record shr_id_proc_ctx =
  sc_pid :: int
  sc_start_time :: u64
  sc_open_node_num :: u32
  sc_create_node_num :: u32
  sc_create_list :: "shr_id_proc_node list"
  sc_open_list :: "shr_id_proc_node list"
  sc_ref :: u32

record shr_id_ioctl_info =
  io_opened_devid :: u32
  io_devid :: u32
  io_tsid :: u32
  io_shr_id :: u32
  io_id_type :: u32
  io_dev_addr :: u64
  io_host_addr :: u64
  io_name :: string
  io_pid :: "int list"
  io_flag :: u32

type_synonym shr_procs = "nat \<Rightarrow> shr_id_proc_ctx list"

definition shr_id_type_trans :: "int \<Rightarrow> int" where
  "shr_id_type_trans ty = (if ty = 0 then 3 else 1)"

section \<open>Contexts\<close>

definition shr_id_proc_num_inc :: "int \<Rightarrow> u32 \<Rightarrow> shr_id_proc_ctx \<Rightarrow> shr_id_proc_ctx" where
  "shr_id_proc_num_inc op num c =
     (if op = 0 then c\<lparr>sc_create_node_num := sc_create_node_num c + num\<rparr>
      else c\<lparr>sc_open_node_num := sc_open_node_num c + num\<rparr>)"

definition shr_id_proc_num_dec :: "int \<Rightarrow> u32 \<Rightarrow> shr_id_proc_ctx \<Rightarrow> shr_id_proc_ctx" where
  "shr_id_proc_num_dec op num c =
     (if op = 0 then c\<lparr>sc_create_node_num := sc_create_node_num c - num\<rparr>
      else c\<lparr>sc_open_node_num := sc_open_node_num c - num\<rparr>)"

definition proc_bucket :: "(u32 \<Rightarrow> nat) \<Rightarrow> int \<Rightarrow> nat" where
  "proc_bucket hm pid = hm (word_of_int (pid AND 15))"

definition shr_id_proc_create :: "bool \<Rightarrow> int \<Rightarrow> u64 \<Rightarrow> shr_id_proc_ctx option" where
  "shr_id_proc_create mem tgid start_time =
     (if \<not> mem then None
      else Some \<lparr>sc_pid = tgid, sc_start_time = start_time, sc_open_node_num = 0, sc_create_node_num = 0, sc_create_list = [],
             sc_open_list = [], sc_ref = 1\<rparr>)"

definition shr_id_find_proc :: "(u32 \<Rightarrow> nat) \<Rightarrow> shr_procs \<Rightarrow> int \<Rightarrow> shr_id_proc_ctx option" where
  "shr_id_find_proc hm pt pid = hlist_find sc_pid pid (pt (proc_bucket hm pid))"

definition shr_id_proc_add :: "(u32 \<Rightarrow> nat) \<Rightarrow> shr_procs \<Rightarrow> shr_id_proc_ctx \<Rightarrow> int \<times> shr_procs" where
  "shr_id_proc_add hm pt c =
     (if shr_id_find_proc hm pt (sc_pid c) \<noteq> None then (- EINVAL, pt)
      else (0, pt(proc_bucket hm (sc_pid c) := c # pt (proc_bucket hm (sc_pid c)))))"

definition shr_id_proc_del0 :: "(u32 \<Rightarrow> nat) \<Rightarrow> shr_procs \<Rightarrow> shr_id_proc_ctx \<Rightarrow> shr_procs" where
  "shr_id_proc_del0 hm pt c =
     pt(proc_bucket hm (sc_pid c) := hlist_del sc_pid (sc_pid c) (pt (proc_bucket hm (sc_pid c))))"

text \<open>Writing through a pointer to a context of the table.\<close>

definition shr_id_proc_store :: "(u32 \<Rightarrow> nat) \<Rightarrow> shr_id_proc_ctx \<Rightarrow> shr_procs \<Rightarrow> shr_procs" where
  "shr_id_proc_store hm c pt =
     pt(proc_bucket hm (sc_pid c) := hlist_set sc_pid c (pt (proc_bucket hm (sc_pid c))))"

text \<open>
  The waiting loop: \<open>found k\<close> is whether the context is still in the table at attempt \<open>k\<close>, \<open>intr k\<close> whether the
  sleep after it was interrupted.
\<close>

function wait_exit_from :: "(nat \<Rightarrow> bool) \<Rightarrow> (nat \<Rightarrow> bool) \<Rightarrow> nat \<Rightarrow> int" where
  "wait_exit_from found intr loop =
     (let timeout = (if loop < 100 then 1 else 1000 :: nat) in
      if \<not> found loop then 0
      else if \<not> timeout \<le> 1 \<and> intr loop then - EINTR
      else if loop + 1 < 400 then wait_exit_from found intr (loop + 1)
      else - EEXIST)"
  by pat_completeness auto
termination by (relation "measure (\<lambda>(found, intr, loop). 400 - loop)") auto

declare wait_exit_from.simps [simp del]

definition shr_id_wait_for_proc_exit :: "(nat \<Rightarrow> bool) \<Rightarrow> (nat \<Rightarrow> bool) \<Rightarrow> int" where
  "shr_id_wait_for_proc_exit found intr = wait_exit_from found intr 0"

section \<open>The nodes of a process\<close>

definition shr_id_creat_proc_node :: "bool \<Rightarrow> string \<Rightarrow> shr_id_node_op_attr \<Rightarrow> shr_id_proc_node option" where
  "shr_id_creat_proc_node mem name attr =
     (if \<not> mem then None
      else Some \<lparr>sp_name = take SHR_ID_NSM_NAME_SIZE name, sp_res_type = at_res_type attr, sp_type = at_type attr,
             sp_inst = at_inst attr, sp_id = at_id attr, sp_ref = 1, sp_flag = 0, sp_opened_devid = 0\<rparr>)"

definition shr_id_get_list_head :: "shr_id_proc_ctx \<Rightarrow> int \<Rightarrow> shr_id_proc_node list" where
  "shr_id_get_list_head c op = (if op = 0 then sc_create_list c else sc_open_list c)"

definition list_head_upd :: "int \<Rightarrow> (shr_id_proc_node list \<Rightarrow> shr_id_proc_node list) \<Rightarrow> shr_id_proc_ctx \<Rightarrow> shr_id_proc_ctx" where
  "list_head_upd op f c =
     (if op = 0 then c\<lparr>sc_create_list := f (sc_create_list c)\<rparr> else c\<lparr>sc_open_list := f (sc_open_list c)\<rparr>)"

abbreviation pnode_name :: "shr_id_proc_node \<Rightarrow> string" where
  "pnode_name e \<equiv> cstr (sp_name e)"

definition shr_id_find_proc_node :: "shr_id_proc_ctx \<Rightarrow> string \<Rightarrow> int \<Rightarrow> shr_id_proc_node option" where
  "shr_id_find_proc_node c name op = hlist_find pnode_name (cstr name) (shr_id_get_list_head c op)"

definition shr_id_add_to_proc ::
    "bool \<Rightarrow> shr_id_proc_ctx \<Rightarrow> shr_id_ioctl_info \<Rightarrow> shr_id_node_op_attr \<Rightarrow> int \<Rightarrow> int \<times> shr_id_proc_ctx \<times> shr_id_ioctl_info" where
  "shr_id_add_to_proc mem c io attr op =
     (case shr_id_find_proc_node c (io_name io) op of
        Some e \<Rightarrow>
          (0, shr_id_proc_num_inc op 1 (list_head_upd op (hlist_set pnode_name (e\<lparr>sp_ref := sp_ref e + 1\<rparr>)) c),
           if io_flag io AND TSDRV_FLAG_REMOTE_ID \<noteq> 0 then io\<lparr>io_flag := io_flag io AND NOT TSDRV_FLAG_REMOTE_ID\<rparr> else io)
      | None \<Rightarrow>
          (case shr_id_creat_proc_node mem (io_name io) attr of
             None \<Rightarrow> (- ENOMEM, c, io)
           | Some e \<Rightarrow>
               let remote = io_flag io AND TSDRV_FLAG_REMOTE_ID \<noteq> 0;
                   e' = (if remote then e\<lparr>sp_opened_devid := io_opened_devid io, sp_flag := sp_flag e OR TSDRV_FLAG_REMOTE_ID\<rparr> else e);
                   io' = (if remote then io\<lparr>io_flag := io_flag io OR TSDRV_FLAG_REMOTE_ID\<rparr> else io)
               in (0, shr_id_proc_num_inc op 1 (list_head_upd op (\<lambda>es. es @ [e']) c), io')))"

definition shr_id_del_from_proc ::
    "shr_id_proc_ctx \<Rightarrow> shr_id_ioctl_info \<Rightarrow> int \<Rightarrow> shr_id_proc_ctx \<times> shr_id_ioctl_info" where
  "shr_id_del_from_proc c io op =
     (case shr_id_find_proc_node c (io_name io) op of
        None \<Rightarrow> (c, io)
      | Some e \<Rightarrow>
          let c1 = shr_id_proc_num_dec op 1 c;
              e' = e\<lparr>sp_ref := sp_ref e - 1\<rparr>
          in if sp_ref e' = 0
             then (list_head_upd op (hlist_del pnode_name (pnode_name e)) c1,
                   if sp_flag e' AND TSDRV_FLAG_REMOTE_ID \<noteq> 0
                   then io\<lparr>io_opened_devid := sp_opened_devid e', io_flag := io_flag io OR TSDRV_FLAG_REMOTE_ID,
                           io_devid := ti_devid (sp_inst e'), io_tsid := ti_tsid (sp_inst e'),
                           io_id_type := word_of_int (sp_type e'), io_shr_id := word_of_int (sp_id e')\<rparr>
                   else io)
             else (list_head_upd op (hlist_set pnode_name e') c1, io))"

section \<open>Recycling\<close>

fun close_times ::
    "(u32 \<Rightarrow> nat) \<Rightarrow> 'w shr_res \<Rightarrow> string \<Rightarrow> int \<Rightarrow> int \<Rightarrow> nat \<Rightarrow> int \<Rightarrow> shr_htable \<Rightarrow> 'w \<Rightarrow> (int \<times> shr_htable \<times> 'w) option" where
  "close_times hm res name ty pid 0 ret t w = Some (ret, t, w)"
| "close_times hm res name ty pid (Suc k) ret t w = do {
     (r, t', w') \<leftarrow> shr_id_node_close hm res name ty pid t w;
     close_times hm res name ty pid k (ret OR r) t' w'
   }"

text \<open>\<^verbatim>\<open>list_for_each_entry_safe\<close> with \<^verbatim>\<open>list_del\<close> of each entry; \<open>ret\<close> is not reset between the entries.\<close>

fun recycle_opened_loop ::
    "(u32 \<Rightarrow> nat) \<Rightarrow> 'w shr_res \<Rightarrow> shr_id_proc_node list \<Rightarrow> int \<Rightarrow> shr_id_proc_ctx \<Rightarrow> shr_htable \<Rightarrow> 'w \<Rightarrow>
     (shr_id_proc_ctx \<times> shr_htable \<times> 'w) option" where
  "recycle_opened_loop hm res [] ret c t w = Some (c, t, w)"
| "recycle_opened_loop hm res (e # es) ret c t w = do {
     (ret', t', w') \<leftarrow> close_times hm res (sp_name e) (sp_type e) (sc_pid c) (unat (sp_ref e)) ret t w;
     let c1 = (if ret' = 0 then shr_id_proc_num_dec 1 (sp_ref e) c else c);
     recycle_opened_loop hm res es ret' (c1\<lparr>sc_open_list := es\<rparr>) t' w'
   }"

definition shr_id_recycle_opened ::
    "(u32 \<Rightarrow> nat) \<Rightarrow> 'w shr_res \<Rightarrow> shr_id_proc_ctx \<Rightarrow> shr_htable \<Rightarrow> 'w \<Rightarrow> (shr_id_proc_ctx \<times> shr_htable \<times> 'w) option" where
  "shr_id_recycle_opened hm res c t w = recycle_opened_loop hm res (sc_open_list c) 0 c t w"

fun recycle_created_loop ::
    "(u32 \<Rightarrow> nat) \<Rightarrow> 'w shr_res \<Rightarrow> shr_id_proc_node list \<Rightarrow> shr_id_proc_ctx \<Rightarrow> shr_htable \<Rightarrow> 'w \<Rightarrow>
     (shr_id_proc_ctx \<times> shr_htable \<times> 'w) option" where
  "recycle_created_loop hm res [] c t w = Some (c, t, w)"
| "recycle_created_loop hm res (e # es) c t w = do {
     (ret, t', w') \<leftarrow> shr_id_node_destroy hm res (sp_name e) (sp_type e) (sc_pid c) t w;
     let c1 = (if ret = 0 then shr_id_proc_num_dec 0 (sp_ref e) c else c);
     recycle_created_loop hm res es (c1\<lparr>sc_create_list := es\<rparr>) t' w'
   }"

definition shr_id_recycle_created ::
    "(u32 \<Rightarrow> nat) \<Rightarrow> 'w shr_res \<Rightarrow> shr_id_proc_ctx \<Rightarrow> shr_htable \<Rightarrow> 'w \<Rightarrow> (shr_id_proc_ctx \<times> shr_htable \<times> 'w) option" where
  "shr_id_recycle_created hm res c t w = recycle_created_loop hm res (sc_create_list c) c t w"

definition shr_id_node_recycle ::
    "(u32 \<Rightarrow> nat) \<Rightarrow> 'w shr_res \<Rightarrow> shr_id_proc_ctx \<Rightarrow> shr_htable \<Rightarrow> 'w \<Rightarrow> (shr_id_proc_ctx \<times> shr_htable \<times> 'w) option" where
  "shr_id_node_recycle hm res c t w = do {
     (c1, t1, w1) \<leftarrow> shr_id_recycle_opened hm res c t w;
     shr_id_recycle_created hm res c1 t1 w1
   }"

definition shr_id_proc_release ::
    "(u32 \<Rightarrow> nat) \<Rightarrow> 'w shr_res \<Rightarrow> shr_id_proc_ctx \<Rightarrow> shr_procs \<Rightarrow> shr_htable \<Rightarrow> 'w \<Rightarrow> (shr_procs \<times> shr_htable \<times> 'w) option" where
  "shr_id_proc_release hm res c pt t w = do {
     (c', t', w') \<leftarrow> shr_id_node_recycle hm res c t w;
     Some (shr_id_proc_del0 hm pt c', t', w')
   }"

definition shr_id_proc_get :: "(u32 \<Rightarrow> nat) \<Rightarrow> shr_procs \<Rightarrow> int \<Rightarrow> shr_id_proc_ctx option \<times> shr_procs" where
  "shr_id_proc_get hm pt pid =
     (case shr_id_find_proc hm pt pid of
        None \<Rightarrow> (None, pt)
      | Some c \<Rightarrow>
          if sc_ref c = 0 then (None, pt)
          else let c' = c\<lparr>sc_ref := sc_ref c + 1\<rparr> in (Some c', shr_id_proc_store hm c' pt))"

text \<open>\<^verbatim>\<open>kref_put\<close> of the context of a process, read from the table.\<close>

definition shr_id_proc_put ::
    "(u32 \<Rightarrow> nat) \<Rightarrow> 'w shr_res \<Rightarrow> int \<Rightarrow> shr_procs \<Rightarrow> shr_htable \<Rightarrow> 'w \<Rightarrow> (shr_procs \<times> shr_htable \<times> 'w) option" where
  "shr_id_proc_put hm res pid pt t w = do {
     c \<leftarrow> shr_id_find_proc hm pt pid;
     let c' = c\<lparr>sc_ref := sc_ref c - 1\<rparr>;
     if sc_ref c' = 0 then shr_id_proc_release hm res c' pt t w else Some (shr_id_proc_store hm c' pt, t, w)
   }"

definition shr_id_proc_del ::
    "(u32 \<Rightarrow> nat) \<Rightarrow> 'w shr_res \<Rightarrow> int \<Rightarrow> shr_procs \<Rightarrow> shr_htable \<Rightarrow> 'w \<Rightarrow> (shr_procs \<times> shr_htable \<times> 'w) option" where
  "shr_id_proc_del hm res pid pt t w = shr_id_proc_put hm res pid pt t w"

definition pnode_is :: "trs_id_inst \<Rightarrow> int \<Rightarrow> u32 \<Rightarrow> shr_id_proc_node \<Rightarrow> bool" where
  "pnode_is inst res_type res_id e \<longleftrightarrow>
     ti_devid (sp_inst e) = ti_devid inst \<and> ti_tsid (sp_inst e) = ti_tsid inst \<and> sp_res_type e = res_type \<and>
     word_of_int (sp_id e) = res_id"

definition shr_id_is_belong_to_proc ::
    "(u32 \<Rightarrow> nat) \<Rightarrow> 'w shr_res \<Rightarrow> trs_id_inst \<Rightarrow> int \<Rightarrow> int \<Rightarrow> u32 \<Rightarrow> shr_procs \<Rightarrow> shr_htable \<Rightarrow> 'w \<Rightarrow>
     (bool \<times> shr_procs \<times> shr_htable \<times> 'w) option" where
  "shr_id_is_belong_to_proc hm res inst pid res_type res_id pt t w =
     (case shr_id_proc_get hm pt pid of
        (None, pt1) \<Rightarrow> Some (False, pt1, t, w)
      | (Some c, pt1) \<Rightarrow>
          let is_belong = list_ex (pnode_is inst res_type res_id) (sc_open_list c) \<or>
                list_ex (pnode_is inst res_type res_id) (sc_create_list c)
          in do {
            (pt2, t2, w2) \<leftarrow> shr_id_proc_put hm res pid pt1 t w;
            Some (is_belong, pt2, t2, w2)
          })"

section \<open>The ioctls\<close>

text \<open>
  What the environment decides during one ioctl: whether the device is in the container of the process, the
  outcomes of the memory allocations, the clock, and \<^verbatim>\<open>current->tgid\<close>.
\<close>

record shr_env =
  se_in_container :: "u32 \<Rightarrow> bool"
  se_node_mem :: bool
  se_proc_mem :: bool
  se_now :: u64
  se_nows :: "u64 list"
  se_tgid :: int

definition shr_id_create ::
    "(u32 \<Rightarrow> nat) \<Rightarrow> 'w shr_res \<Rightarrow> shr_env \<Rightarrow> shr_id_proc_ctx \<Rightarrow> shr_id_ioctl_info \<Rightarrow> shr_htable \<Rightarrow> 'w \<Rightarrow>
     (int \<times> shr_id_proc_ctx \<times> shr_id_ioctl_info \<times> shr_htable \<times> 'w) option" where
  "shr_id_create hm res env c io t w =
     (let ty = io_id_type io in
      if \<not> se_in_container env (io_devid io) then Some (- EINVAL, c, io, t, w)
      else if ty \<ge> word_of_int SHR_ID_TYPE_MAX then Some (- EINVAL, c, io, t, w)
      else let attr = \<lparr>at_inst = \<lparr>ti_devid = io_devid io, ti_tsid = io_tsid io\<rparr>, at_res_type = shr_id_type_trans (sint ty),
                       at_type = sint ty, at_id = sint (io_shr_id io)\<rparr>;
               (ret, name) = shr_id_name_generate (io_devid io) (io_tsid io) (sc_pid c) ty (io_shr_id io) (io_name io);
               io1 = io\<lparr>io_name := name\<rparr>
           in if ret \<noteq> 0 then Some (ret, c, io1, t, w)
      else do {
        (ret, t1, w1) \<leftarrow> shr_id_node_create hm res (se_node_mem env) (se_now env) (se_tgid env) name (sc_pid c) attr (io_flag io1) t w;
        if ret \<noteq> 0 then Some (ret, c, io1, t1, w1)
        else (case shr_id_add_to_proc (se_proc_mem env) c io1 attr 0 of
                (ret, c2, io2) \<Rightarrow>
                  if ret \<noteq> 0 then do {
                    (_, t2, w2) \<leftarrow> shr_id_node_destroy hm res (io_name io2) (sint ty) (sc_pid c2) t1 w1;
                    Some (ret, c2, io2, t2, w2)
                  }
                  else Some (ret, c2, io2, t1, w1))
      })"

definition shr_id_destroy ::
    "(u32 \<Rightarrow> nat) \<Rightarrow> 'w shr_res \<Rightarrow> shr_id_proc_ctx \<Rightarrow> shr_id_ioctl_info \<Rightarrow> shr_htable \<Rightarrow> 'w \<Rightarrow>
     (int \<times> shr_id_proc_ctx \<times> shr_id_ioctl_info \<times> shr_htable \<times> 'w) option" where
  "shr_id_destroy hm res c io t w =
     (case shr_id_get_type_by_name (io_name io) of
        (ret, ty) \<Rightarrow>
          if ret \<noteq> 0 then Some (ret, c, io, t, w)
          else do {
            (ret, t1, w1) \<leftarrow> shr_id_node_destroy hm res (io_name io) (the ty) (sc_pid c) t w;
            if ret \<noteq> 0 then Some (ret, c, io, t1, w1)
            else (case shr_id_del_from_proc c io 0 of (c2, io2) \<Rightarrow> Some (0, c2, io2, t1, w1))
          })"

definition shr_id_open ::
    "(u32 \<Rightarrow> nat) \<Rightarrow> 'w shr_res \<Rightarrow> shr_env \<Rightarrow> shr_id_proc_ctx \<Rightarrow> shr_id_ioctl_info \<Rightarrow> shr_htable \<Rightarrow> 'w \<Rightarrow>
     (int \<times> shr_id_proc_ctx \<times> shr_id_ioctl_info \<times> shr_htable \<times> 'w) option" where
  "shr_id_open hm res env c io t w =
     (case shr_id_get_type_by_name (io_name io) of
        (ret, ty) \<Rightarrow>
          if ret \<noteq> 0 then Some (ret, c, io, t, w)
          else let attr = \<lparr>at_inst = \<lparr>ti_devid = 0, ti_tsid = 0\<rparr>, at_res_type = shr_id_type_trans (the ty), at_type = the ty, at_id = 0\<rparr>
          in do {
            (ret, attr1, t1, w1) \<leftarrow> shr_id_node_open hm res (io_name io) (sc_pid c) (sc_start_time c) attr t w;
            if ret \<noteq> 0 then Some (ret, c, io, t1, w1)
            else (case shr_id_add_to_proc (se_proc_mem env) c io attr1 1 of
                    (ret, c2, io2) \<Rightarrow>
                      if ret \<noteq> 0 then do {
                        (_, t2, w2) \<leftarrow> shr_id_node_close hm res (io_name io2) (the ty) (sc_pid c2) t1 w1;
                        Some (ret, c2, io2, t2, w2)
                      }
                      else Some (0, c2, io2\<lparr>io_devid := ti_devid (at_inst attr1), io_tsid := ti_tsid (at_inst attr1),
                                   io_id_type := word_of_int (at_type attr1), io_shr_id := word_of_int (at_id attr1)\<rparr>, t1, w1))
          })"

definition shr_id_close ::
    "(u32 \<Rightarrow> nat) \<Rightarrow> 'w shr_res \<Rightarrow> shr_id_proc_ctx \<Rightarrow> shr_id_ioctl_info \<Rightarrow> shr_htable \<Rightarrow> 'w \<Rightarrow>
     (int \<times> shr_id_proc_ctx \<times> shr_id_ioctl_info \<times> shr_htable \<times> 'w) option" where
  "shr_id_close hm res c io t w =
     (case shr_id_get_type_by_name (io_name io) of
        (ret, ty) \<Rightarrow>
          if ret \<noteq> 0 then Some (ret, c, io, t, w)
          else do {
            (ret, t1, w1) \<leftarrow> shr_id_node_close hm res (io_name io) (the ty) (sc_pid c) t w;
            if ret \<noteq> 0 then Some (ret, c, io, t1, w1)
            else (case shr_id_del_from_proc c io 1 of (c2, io2) \<Rightarrow> Some (0, c2, io2, t1, w1))
          })"

definition shr_id_set_pid ::
    "(u32 \<Rightarrow> nat) \<Rightarrow> 'w shr_res \<Rightarrow> shr_env \<Rightarrow> shr_id_proc_ctx \<Rightarrow> shr_id_ioctl_info \<Rightarrow> shr_htable \<Rightarrow> 'w \<Rightarrow>
     (int \<times> shr_id_proc_ctx \<times> shr_id_ioctl_info \<times> shr_htable \<times> 'w) option" where
  "shr_id_set_pid hm res env c io t w =
     (case shr_id_get_type_by_name (io_name io) of
        (ret, ty) \<Rightarrow>
          if ret \<noteq> 0 then Some (ret, c, io, t, w)
          else do {
            (ret, t1, w1) \<leftarrow> shr_id_node_set_pids hm res (io_name io) (the ty) (sc_pid c)
              (zip (take SHR_ID_PID_MAX_NUM (io_pid io)) (se_nows env)) t w;
            Some (ret, c, io, t1, w1)
          })"

section \<open>The device file\<close>

datatype shr_cmd = SHR_ID_CREATE | SHR_ID_OPEN | SHR_ID_CLOSE | SHR_ID_DESTROY | SHR_ID_SET_PID

definition shr_id_ioctl_handles ::
    "(u32 \<Rightarrow> nat) \<Rightarrow> 'w shr_res \<Rightarrow> shr_env \<Rightarrow> shr_cmd \<Rightarrow> shr_id_proc_ctx \<Rightarrow> shr_id_ioctl_info \<Rightarrow> shr_htable \<Rightarrow> 'w \<Rightarrow>
     (int \<times> shr_id_proc_ctx \<times> shr_id_ioctl_info \<times> shr_htable \<times> 'w) option" where
  "shr_id_ioctl_handles hm res env cmd =
     (case cmd of
        SHR_ID_CREATE \<Rightarrow> shr_id_create hm res env
      | SHR_ID_OPEN \<Rightarrow> shr_id_open hm res env
      | SHR_ID_CLOSE \<Rightarrow> shr_id_close hm res
      | SHR_ID_DESTROY \<Rightarrow> shr_id_destroy hm res
      | SHR_ID_SET_PID \<Rightarrow> shr_id_set_pid hm res env)"

text \<open>
  What a call of \<^verbatim>\<open>ioctl\<close> brings along: the direction bits of the command, which are the caller's and which the code does not
  compare with those of the command it runs, the outcomes of \<^verbatim>\<open>copy_from_user\<close> and \<^verbatim>\<open>copy_to_user\<close>, and what the stack holds
  where \<^verbatim>\<open>ioctl_arg\<close> lies.
\<close>

record shr_call =
  ca_write :: bool
  ca_read :: bool
  ca_copy_in :: bool
  ca_copy_out :: bool
  ca_stack :: shr_id_ioctl_info

definition ioctl_arg :: "shr_call \<Rightarrow> shr_id_ioctl_info \<Rightarrow> shr_id_ioctl_info" where
  "ioctl_arg call io = (if ca_write call then io else ca_stack call)"

text \<open>
  \<open>cmd\<close> is \<open>None\<close> for a command number that has no handler, \<open>arg\<close> is what the user's pointer points to, \<open>None\<close> for NULL; what the
  user sees there afterwards is returned.
\<close>

definition shr_id_file_ioctl ::
    "(u32 \<Rightarrow> nat) \<Rightarrow> 'w shr_res \<Rightarrow> shr_env \<Rightarrow> shr_call \<Rightarrow> shr_id_proc_ctx option \<Rightarrow> shr_cmd option \<Rightarrow> shr_id_ioctl_info option \<Rightarrow>
     shr_htable \<Rightarrow> 'w \<Rightarrow> (int \<times> shr_id_proc_ctx option \<times> shr_id_ioctl_info option \<times> shr_htable \<times> 'w) option" where
  "shr_id_file_ioctl hm res env call ctx cmd arg t w =
     (case (ctx, cmd, arg) of
        (Some c, Some cm, Some io) \<Rightarrow>
          if ca_write call \<and> \<not> ca_copy_in call then Some (- EFAULT, ctx, arg, t, w)
          else do {
            (ret, c', io', t', w') \<leftarrow> shr_id_ioctl_handles hm res env cm c (ioctl_arg call io) t w;
            if ret \<noteq> 0 then Some (ret, Some c', arg, t', w')
            else if ca_read call \<and> \<not> ca_copy_out call then Some (- EFAULT, Some c', arg, t', w')
            else Some (0, Some c', if ca_read call then Some io' else arg, t', w')
          }
      | _ \<Rightarrow> Some (- EINVAL, ctx, arg, t, w))"

definition shr_id_file_open ::
    "(u32 \<Rightarrow> nat) \<Rightarrow> (nat \<Rightarrow> bool) \<Rightarrow> (nat \<Rightarrow> bool) \<Rightarrow> bool \<Rightarrow> int \<Rightarrow> u64 \<Rightarrow> shr_procs \<Rightarrow> int \<times> shr_id_proc_ctx option \<times> shr_procs" where
  "shr_id_file_open hm found intr mem tgid start_time pt =
     (let ret = shr_id_wait_for_proc_exit found intr in
      if ret \<noteq> 0 then (ret, None, pt)
      else case shr_id_proc_create mem tgid start_time of
        None \<Rightarrow> (- ENOMEM, None, pt)
      | Some c \<Rightarrow>
          (case shr_id_proc_add hm pt c of
             (ret, pt') \<Rightarrow> if ret \<noteq> 0 then (ret, None, pt') else (0, Some c, pt')))"

definition shr_id_file_release ::
    "(u32 \<Rightarrow> nat) \<Rightarrow> 'w shr_res \<Rightarrow> int option \<Rightarrow> shr_procs \<Rightarrow> shr_htable \<Rightarrow> 'w \<Rightarrow> (int \<times> shr_procs \<times> shr_htable \<times> 'w) option" where
  "shr_id_file_release hm res ctx pt t w =
     (case ctx of
        None \<Rightarrow> Some (- EFAULT, pt, t, w)
      | Some pid \<Rightarrow> do { (pt', t', w') \<leftarrow> shr_id_proc_del hm res pid pt t w; Some (0, pt', t', w') })"

end
