(* ===== verification/Shr_Runs.thy ===== *)
theory Shr_Runs
  imports Shr_Id
begin

text \<open>
  Invariants of the contexts of \<^verbatim>\<open>trs_shr_id.c\<close> together with the nodes: what a process has in its lists is exactly
  what the nodes count for it, so that the release of its file leaves nothing behind. The runs are sequences of
  file operations of any processes.
\<close>

declare split_paired_All [simp del] split_paired_Ex [simp del]

section \<open>Entries of a process\<close>

abbreviation ekey :: "shr_id_proc_node \<Rightarrow> int \<times> string" where
  "ekey e \<equiv> (sp_type e, pnode_name e)"

definition pentry_ok :: "shr_id_proc_node \<Rightarrow> bool" where
  "pentry_ok e \<longleftrightarrow> shr_id_get_type_by_name (sp_name e) = (0, Some (sp_type e)) \<and> sp_ref e \<noteq> 0"

definition ctx_ok :: "shr_id_proc_ctx \<Rightarrow> bool" where
  "ctx_ok c \<longleftrightarrow> sc_pid c \<noteq> 0 \<and> sc_ref c = 1 \<and>
     (\<forall>e \<in> set (sc_create_list c) \<union> set (sc_open_list c). pentry_ok e) \<and> (\<forall>e \<in> set (sc_create_list c). sp_ref e = 1) \<and>
     distinct (map ekey (sc_create_list c)) \<and> distinct (map ekey (sc_open_list c))"

definition lref :: "shr_id_proc_node list \<Rightarrow> int \<times> string \<Rightarrow> nat" where
  "lref es k = (case hlist_find ekey k es of None \<Rightarrow> 0 | Some e \<Rightarrow> unat (sp_ref e))"

definition nopen :: "shr_nodes \<Rightarrow> int \<Rightarrow> int \<times> string \<Rightarrow> nat" where
  "nopen N p k = (case N k of None \<Rightarrow> 0 | Some n \<Rightarrow> wopen n p)"

definition creator :: "shr_nodes \<Rightarrow> int \<times> string \<Rightarrow> int" where
  "creator N k = (case N k of None \<Rightarrow> 0 | Some n \<Rightarrow> sn_pid n)"

text \<open>The context of a process and the nodes agree.\<close>

definition ctx_link :: "shr_nodes \<Rightarrow> shr_id_proc_ctx \<Rightarrow> bool" where
  "ctx_link N c \<longleftrightarrow> ctx_ok c \<and> (\<forall>k. nopen N (sc_pid c) k = lref (sc_open_list c) k) \<and>
     (\<forall>k. creator N k = sc_pid c \<longleftrightarrow> hlist_find ekey k (sc_create_list c) \<noteq> None)"

text \<open>Nothing that another process than \<open>p\<close> has in the nodes changes.\<close>

definition others :: "int \<Rightarrow> shr_nodes \<Rightarrow> shr_nodes \<Rightarrow> bool" where
  "others p N N' \<longleftrightarrow>
     (\<forall>q k. q \<noteq> 0 \<longrightarrow> q \<noteq> p \<longrightarrow> nopen N' q k = nopen N q k \<and> (creator N' k = q \<longleftrightarrow> creator N k = q))"

lemma others_refl [simp]: "others p N N"
  by (simp add: others_def)

lemma others_trans: "others p N1 N2 \<Longrightarrow> others p N2 N3 \<Longrightarrow> others p N1 N3"
  by (simp add: others_def)

lemma parse_valid: "shr_id_get_type_by_name name = (0, Some ty) \<Longrightarrow> valid_name name ty"
  by (auto simp: shr_id_get_type_by_name_def valid_name_def Let_def split: if_splits)

lemma parse_ret: "shr_id_get_type_by_name name = (0, ty) \<Longrightarrow> \<exists>x. ty = Some x"
  by (auto simp: shr_id_get_type_by_name_def Let_def split: if_splits)

lemma parse_unique:
  "shr_id_get_type_by_name a = (0, Some x) \<Longrightarrow> shr_id_get_type_by_name b = (0, Some y) \<Longrightarrow> cstr a = cstr b \<Longrightarrow> x = y"
  by (auto simp: shr_id_get_type_by_name_def Let_def split: if_splits)

lemma hlist_cong:
  assumes "\<And>x. x \<in> set xs \<Longrightarrow> f x = j \<longleftrightarrow> g x = k"
  shows "hlist_find f j xs = hlist_find g k xs" "hlist_del f j xs = hlist_del g k xs"
  using assms by (induction xs) auto

lemma hlist_set_cong:
  assumes "\<And>x. x \<in> set xs \<Longrightarrow> f x = f y \<longleftrightarrow> g x = g y"
  shows "hlist_set f y xs = hlist_set g y xs"
  using assms by (induction xs) auto

text \<open>The lists are searched by name; since a name determines the type, that is a search by type and name.\<close>

lemma find_by_name:
  assumes "\<forall>e \<in> set es. pentry_ok e" "shr_id_get_type_by_name name = (0, Some ty)"
  shows "hlist_find pnode_name (cstr name) es = hlist_find ekey (ty, cstr name) es"
    "hlist_del pnode_name (cstr name) es = hlist_del ekey (ty, cstr name) es"
    "ekey y = (ty, cstr name) \<Longrightarrow> hlist_set pnode_name y es = hlist_set ekey y es"
proof -
  have iff: "pnode_name e = cstr name \<longleftrightarrow> ekey e = (ty, cstr name)" if "e \<in> set es" for e
    using assms that parse_unique [of "sp_name e" "sp_type e" name ty] by (auto simp: pentry_ok_def)
  show "hlist_find pnode_name (cstr name) es = hlist_find ekey (ty, cstr name) es"
    "hlist_del pnode_name (cstr name) es = hlist_del ekey (ty, cstr name) es"
    by (rule hlist_cong(1), rule iff, assumption) (rule hlist_cong(2), rule iff, assumption)
  assume "ekey y = (ty, cstr name)"
  then show "hlist_set pnode_name y es = hlist_set ekey y es" using iff by (intro hlist_set_cong) auto
qed

lemma lref_append:
  "lref (es @ [e]) k = (if hlist_find ekey k es = None then if ekey e = k then unat (sp_ref e) else 0 else lref es k)"
proof -
  have "hlist_find ekey k (es @ [e]) = (case hlist_find ekey k es of None \<Rightarrow> if ekey e = k then Some e else None | Some x \<Rightarrow> Some x)"
    by (induction es) auto
  then show ?thesis by (auto simp: lref_def split: option.split)
qed

lemma lref_None: "hlist_find ekey k es = None \<Longrightarrow> lref es k = 0"
  by (simp add: lref_def)

lemma lref_zero: "\<forall>e \<in> set es. pentry_ok e \<Longrightarrow> lref es k = 0 \<longleftrightarrow> hlist_find ekey k es = None"
  by (auto simp: lref_def pentry_ok_def unat_eq_zero dest!: hlist_find_Some split: option.split)

lemma lref_set:
  assumes "hlist_find ekey (ekey y) es \<noteq> None"
  shows "lref (hlist_set ekey y es) k = (if k = ekey y then unat (sp_ref y) else lref es k)"
  using assms by (auto simp: lref_def hlist_find_set)

lemma lref_del: "distinct (map ekey es) \<Longrightarrow> lref (hlist_del ekey j es) k = (if k = j then 0 else lref es k)"
  by (simp add: lref_def hlist_find_del)

section \<open>Changes of the map of nodes\<close>

lemma nopen_upd [simp]: "nopen (N(k := v)) p j = (if j = k then (case v of None \<Rightarrow> 0 | Some n \<Rightarrow> wopen n p) else nopen N p j)"
  by (simp add: nopen_def)

lemma creator_upd [simp]: "creator (N(k := v)) j = (if j = k then (case v of None \<Rightarrow> 0 | Some n \<Rightarrow> sn_pid n) else creator N j)"
  by (simp add: creator_def)

lemma wopen_le_opens: "wopen n p \<le> opens n"
proof (cases "List.find (\<lambda>e. wl_pid e = p) (sn_wlist n)")
  case (Some e)
  then have "e \<in> set (sn_wlist n)" by (auto simp: find_Some_iff)
  then have "unat (wl_open_num e) \<le> opens n" unfolding opens_def by (intro member_le_sum_list) simp_all
  then show ?thesis using Some by (simp add: wopen_def)
qed (simp add: wopen_def)

lemma live_zero: "live n = 0 \<Longrightarrow> wopen n p = 0 \<and> sn_pid n = 0"
  using wopen_le_opens [of n p] by (auto simp: live_def split: if_splits)

lemma ctx_link_same:
  assumes "ctx_link N c" "\<And>k. nopen N' (sc_pid c) k = nopen N (sc_pid c) k" "\<And>k. creator N' k = sc_pid c \<longleftrightarrow> creator N k = sc_pid c"
  shows "ctx_link N' c"
  using assms by (simp add: ctx_link_def)

lemma lookup_parse: "shr_id_get_type_by_name name = (0, Some ty) \<Longrightarrow> lookup N name ty = N (ty, cstr name)"
  by (simp add: lookup_def parse_valid)

section \<open>Changes of the lists\<close>

lemma list_op_simps [simp]:
  "shr_id_get_list_head c 0 = sc_create_list c" "shr_id_get_list_head c 1 = sc_open_list c"
  "list_head_upd 0 f c = c\<lparr>sc_create_list := f (sc_create_list c)\<rparr>" "list_head_upd 1 f c = c\<lparr>sc_open_list := f (sc_open_list c)\<rparr>"
  by (simp_all add: shr_id_get_list_head_def list_head_upd_def)

lemma num_simps [simp]:
  "sc_pid (shr_id_proc_num_inc op n c) = sc_pid c" "sc_ref (shr_id_proc_num_inc op n c) = sc_ref c"
  "sc_create_list (shr_id_proc_num_inc op n c) = sc_create_list c" "sc_open_list (shr_id_proc_num_inc op n c) = sc_open_list c"
  "sc_pid (shr_id_proc_num_dec op n c) = sc_pid c" "sc_ref (shr_id_proc_num_dec op n c) = sc_ref c"
  "sc_create_list (shr_id_proc_num_dec op n c) = sc_create_list c" "sc_open_list (shr_id_proc_num_dec op n c) = sc_open_list c"
  "sc_start_time (shr_id_proc_num_inc op n c) = sc_start_time c" "sc_start_time (shr_id_proc_num_dec op n c) = sc_start_time c"
  by (simp_all add: shr_id_proc_num_inc_def shr_id_proc_num_dec_def)

lemma entry_ok_ref: "pentry_ok e \<Longrightarrow> r \<noteq> 0 \<Longrightarrow> pentry_ok (e\<lparr>sp_ref := r\<rparr>)"
  by (simp add: pentry_ok_def)

lemma del_opened:
  assumes ok: "ctx_ok c" and ty: "shr_id_get_type_by_name (io_name io) = (0, Some ty)"
    and d: "shr_id_del_from_proc c io 1 = (c2, io2)"
  shows "sc_pid c2 = sc_pid c \<and> ctx_ok c2 \<and> sc_create_list c2 = sc_create_list c \<and>
    (\<forall>j. lref (sc_open_list c2) j = (if j = (ty, cstr (io_name io)) then lref (sc_open_list c) j - 1 else lref (sc_open_list c) j))"
proof -
  let ?k = "(ty, cstr (io_name io))" and ?es = "sc_open_list c"
  have es: "\<forall>e \<in> set ?es. pentry_ok e" "distinct (map ekey ?es)" using ok by (auto simp: ctx_ok_def)
  note by_name = find_by_name [OF es(1) ty]
  show ?thesis
  proof (cases "hlist_find ekey ?k ?es")
    case None
    then have "c2 = c" using d by_name(1) by (simp add: shr_id_del_from_proc_def shr_id_find_proc_node_def)
    then show ?thesis using ok None by (auto simp: lref_def)
  next
    case (Some e)
    then have e: "e \<in> set ?es" "ekey e = ?k" using hlist_find_Some by fastforce+
    have ref: "sp_ref e \<noteq> 0" "pentry_ok e" using es(1) e(1) by (auto simp: pentry_ok_def)
    have f: "shr_id_find_proc_node c (io_name io) 1 = Some e" using by_name(1) Some by (simp add: shr_id_find_proc_node_def)
    let ?e = "e\<lparr>sp_ref := sp_ref e - 1\<rparr>"
    have u: "unat (sp_ref e - 1) = unat (sp_ref e) - 1" by (rule unat_pred [OF ref(1)])
    have at: "lref ?es ?k = unat (sp_ref e)" using Some by (simp add: lref_def)
    show ?thesis
    proof (cases "sp_ref e - 1 = 0")
      case True
      then have c2: "c2 = (shr_id_proc_num_dec 1 1 c)\<lparr>sc_open_list := hlist_del ekey ?k ?es\<rparr>"
        using d f by_name(2) e(2) by (auto simp: shr_id_del_from_proc_def Let_def)
      then have "ctx_ok c2" using ok hlist_del_set [of ekey ?k ?es] hlist_del_distinct [OF es(2)] by (auto simp: ctx_ok_def)
      then show ?thesis using c2 at u True by (auto simp: lref_del [OF es(2)])
    next
      case False
      have k2: "ekey ?e = ?k" using e(2) by simp
      have c2: "c2 = (shr_id_proc_num_dec 1 1 c)\<lparr>sc_open_list := hlist_set ekey ?e ?es\<rparr>"
        using d f by_name(3) [OF k2] False by (auto simp: shr_id_del_from_proc_def Let_def)
      have "set (hlist_set ekey ?e ?es) \<subseteq> insert ?e (set ?es)" by (rule hlist_set_set)
      then have "\<forall>x \<in> set (hlist_set ekey ?e ?es). pentry_ok x" using es(1) entry_ok_ref [OF ref(2) False] by blast
      moreover have "distinct (map ekey (hlist_set ekey ?e ?es))" unfolding hlist_set_names by (rule es(2))
      ultimately have "ctx_ok c2" using ok c2 by (auto simp: ctx_ok_def)
      moreover have "hlist_find ekey (ekey ?e) ?es \<noteq> None" unfolding k2 using Some by simp
      from lref_set [OF this, unfolded k2] have "\<forall>j. lref (sc_open_list c2) j = (if j = ?k then lref ?es j - 1 else lref ?es j)"
        using c2 u at by simp
      ultimately show ?thesis using c2 by simp
    qed
  qed
qed

lemma del_created:
  assumes ok: "ctx_ok c" and ty: "shr_id_get_type_by_name (io_name io) = (0, Some ty)"
    and d: "shr_id_del_from_proc c io 0 = (c2, io2)"
  shows "sc_pid c2 = sc_pid c \<and> ctx_ok c2 \<and> sc_open_list c2 = sc_open_list c \<and>
    (\<forall>j. hlist_find ekey j (sc_create_list c2) = (if j = (ty, cstr (io_name io)) then None else hlist_find ekey j (sc_create_list c)))"
proof -
  let ?k = "(ty, cstr (io_name io))" and ?es = "sc_create_list c"
  have es: "\<forall>e \<in> set ?es. pentry_ok e" "distinct (map ekey ?es)" "\<forall>e \<in> set ?es. sp_ref e = 1" using ok by (auto simp: ctx_ok_def)
  note by_name = find_by_name [OF es(1) ty]
  show ?thesis
  proof (cases "hlist_find ekey ?k ?es")
    case None
    then have "c2 = c" using d by_name(1) by (simp add: shr_id_del_from_proc_def shr_id_find_proc_node_def)
    then show ?thesis using ok None by auto
  next
    case (Some e)
    then have e: "e \<in> set ?es" "ekey e = ?k" using hlist_find_Some by fastforce+
    have f: "shr_id_find_proc_node c (io_name io) 0 = Some e" using by_name(1) Some by (simp add: shr_id_find_proc_node_def)
    have "sp_ref e = 1" using es(3) e(1) by simp
    then have c2: "c2 = (shr_id_proc_num_dec 0 1 c)\<lparr>sc_create_list := hlist_del ekey ?k ?es\<rparr>"
      using d f by_name(2) e(2) by (auto simp: shr_id_del_from_proc_def Let_def)
    then have "ctx_ok c2" using ok hlist_del_set [of ekey ?k ?es] hlist_del_distinct [OF es(2)] by (auto simp: ctx_ok_def)
    then show ?thesis using c2 by (simp add: hlist_find_del [OF es(2)])
  qed
qed

lemma add_opened:
  assumes ok: "ctx_ok c" and ty: "shr_id_get_type_by_name (io_name io) = (0, Some ty)" and len: "length (io_name io) = SHR_ID_NSM_NAME_SIZE"
    and at: "at_type attr = ty" and small: "lref (sc_open_list c) (ty, cstr (io_name io)) < 2 ^ 31"
    and d: "shr_id_add_to_proc mem c io attr 1 = (ret, c2, io2)"
  shows "io_name io2 = io_name io \<and>
    (if ret \<noteq> 0 then c2 = c
     else sc_pid c2 = sc_pid c \<and> ctx_ok c2 \<and> sc_create_list c2 = sc_create_list c \<and>
       (\<forall>j. lref (sc_open_list c2) j = (if j = (ty, cstr (io_name io)) then lref (sc_open_list c) j + 1 else lref (sc_open_list c) j)))"
proof -
  let ?k = "(ty, cstr (io_name io))" and ?es = "sc_open_list c"
  have es: "\<forall>e \<in> set ?es. pentry_ok e" "distinct (map ekey ?es)" using ok by (auto simp: ctx_ok_def)
  note by_name = find_by_name [OF es(1) ty]
  have nm: "io_name io2 = io_name io" using d by (auto simp: shr_id_add_to_proc_def Let_def split: option.splits if_splits)
  show ?thesis
  proof (cases "hlist_find ekey ?k ?es")
    case None
    then have f: "shr_id_find_proc_node c (io_name io) 1 = None" using by_name(1) by (simp add: shr_id_find_proc_node_def)
    show ?thesis
    proof (cases "ret = 0")
      case True
      then obtain e where e: "c2 = (shr_id_proc_num_inc 1 1 (c\<lparr>sc_open_list := ?es @ [e]\<rparr>))" "sp_name e = io_name io" "sp_type e = ty" "sp_ref e = 1"
        using d f len at by (auto simp: shr_id_add_to_proc_def shr_id_creat_proc_node_def Let_def split: if_splits)
      have "pentry_ok e" using e ty by (simp add: pentry_ok_def)
      moreover have "\<forall>x \<in> set ?es. ekey x \<noteq> ekey e" using None e by (simp add: hlist_find_None)
      ultimately have "ctx_ok c2" using ok e(1) by (auto simp: ctx_ok_def image_iff)
      moreover have "lref (sc_open_list c2) j = (if j = ?k then lref ?es j + 1 else lref ?es j)" for j
        using e None by (auto simp: lref_append lref_None)
      ultimately show ?thesis using nm e(1) True by simp
    next
      case False
      then have "c2 = c" using d f by (cases mem) (simp_all add: shr_id_add_to_proc_def shr_id_creat_proc_node_def Let_def)
      then show ?thesis using False nm by simp
    qed
  next
    case (Some e)
    then have e: "e \<in> set ?es" "ekey e = ?k" using hlist_find_Some by fastforce+
    have f: "shr_id_find_proc_node c (io_name io) 1 = Some e" using by_name(1) Some by (simp add: shr_id_find_proc_node_def)
    let ?e = "e\<lparr>sp_ref := sp_ref e + 1\<rparr>"
    have "unat (sp_ref e) < 2 ^ 31" using small Some by (simp add: lref_def)
    then have u: "unat (sp_ref e + 1) = unat (sp_ref e) + 1" by (simp add: unat_word_ariths)
    then have nz: "sp_ref e + 1 \<noteq> 0" by (metis add_is_0 unat_0 zero_neq_one)
    have k2: "ekey ?e = ?k" using e(2) by simp
    have c2: "ret = 0" "c2 = shr_id_proc_num_inc 1 1 (c\<lparr>sc_open_list := hlist_set ekey ?e ?es\<rparr>)"
      using d f by_name(3) [OF k2] by (auto simp: shr_id_add_to_proc_def)
    have "set (hlist_set ekey ?e ?es) \<subseteq> insert ?e (set ?es)" by (rule hlist_set_set)
    then have "\<forall>x \<in> set (hlist_set ekey ?e ?es). pentry_ok x" using es(1) entry_ok_ref [OF _ nz] e(1) by blast
    moreover have "distinct (map ekey (hlist_set ekey ?e ?es))" unfolding hlist_set_names by (rule es(2))
    ultimately have "ctx_ok c2" using ok c2(2) by (auto simp: ctx_ok_def)
    moreover have "hlist_find ekey (ekey ?e) ?es \<noteq> None" unfolding k2 using Some by simp
    from lref_set [OF this, unfolded k2] have "\<forall>j. lref (sc_open_list c2) j = (if j = ?k then lref ?es j + 1 else lref ?es j)"
      using c2(2) u Some by (simp add: lref_def)
    ultimately show ?thesis using nm c2 by simp
  qed
qed

lemma add_created:
  assumes ok: "ctx_ok c" and ty: "shr_id_get_type_by_name (io_name io) = (0, Some ty)" and len: "length (io_name io) = SHR_ID_NSM_NAME_SIZE"
    and at: "at_type attr = ty" and new: "hlist_find ekey (ty, cstr (io_name io)) (sc_create_list c) = None"
    and d: "shr_id_add_to_proc mem c io attr 0 = (ret, c2, io2)"
  shows "io_name io2 = io_name io \<and>
    (if ret \<noteq> 0 then c2 = c
     else sc_pid c2 = sc_pid c \<and> ctx_ok c2 \<and> sc_open_list c2 = sc_open_list c \<and>
       (\<forall>j. hlist_find ekey j (sc_create_list c2) \<noteq> None \<longleftrightarrow>
          j = (ty, cstr (io_name io)) \<or> hlist_find ekey j (sc_create_list c) \<noteq> None))"
proof -
  let ?k = "(ty, cstr (io_name io))" and ?es = "sc_create_list c"
  have es: "\<forall>e \<in> set ?es. pentry_ok e" using ok by (auto simp: ctx_ok_def)
  have f: "shr_id_find_proc_node c (io_name io) 0 = None" using new find_by_name(1) [OF es ty] by (simp add: shr_id_find_proc_node_def)
  have nm: "io_name io2 = io_name io" using d by (auto simp: shr_id_add_to_proc_def Let_def split: option.splits if_splits)
  show ?thesis
  proof (cases "ret = 0")
    case True
    then obtain e where e: "c2 = (shr_id_proc_num_inc 0 1 (c\<lparr>sc_create_list := ?es @ [e]\<rparr>))" "sp_name e = io_name io" "sp_type e = ty" "sp_ref e = 1"
      using d f len at by (auto simp: shr_id_add_to_proc_def shr_id_creat_proc_node_def Let_def split: if_splits)
    have "pentry_ok e" using e ty by (simp add: pentry_ok_def)
    moreover have "\<forall>x \<in> set ?es. ekey x \<noteq> ekey e" using new e by (simp add: hlist_find_None)
    ultimately have "ctx_ok c2" using ok e by (auto simp: ctx_ok_def image_iff)
    moreover have "hlist_find ekey j (?es @ [e]) \<noteq> None \<longleftrightarrow> j = ?k \<or> hlist_find ekey j ?es \<noteq> None" for j
      using e by (auto simp: hlist_find_None)
    ultimately show ?thesis using nm e(1) True by simp
  next
    case False
    then have "c2 = c" using d f by (cases mem) (simp_all add: shr_id_add_to_proc_def shr_id_creat_proc_node_def Let_def)
    then show ?thesis using False nm by simp
  qed
qed

section \<open>Single operations\<close>

text \<open>What an operation of the process of context \<open>c\<close> does to the nodes and to the context.\<close>

definition step_ok ::
    "(u32 \<Rightarrow> nat) \<Rightarrow> ('w \<Rightarrow> (res_key \<Rightarrow> nat) \<Rightarrow> bool) \<Rightarrow> shr_htable \<Rightarrow> shr_id_proc_ctx \<Rightarrow> shr_htable \<Rightarrow> 'w \<Rightarrow> shr_id_proc_ctx \<Rightarrow> bool" where
  "step_ok hm held t c t' w' c' \<longleftrightarrow>
     shr_inv hm held t' w' \<and> ctx_link (nodes hm t') c' \<and> others (sc_pid c) (nodes hm t) (nodes hm t') \<and> sc_pid c' = sc_pid c"

lemma step_ok_refl: "shr_inv hm held t w \<Longrightarrow> ctx_link (nodes hm t) c \<Longrightarrow> step_ok hm held t c t w c"
  by (simp add: step_ok_def)

lemma ctx_linkD:
  assumes "ctx_link N c"
  shows "ctx_ok c" "sc_pid c \<noteq> 0" "\<And>k. nopen N (sc_pid c) k = lref (sc_open_list c) k"
    "\<And>k. creator N k = sc_pid c \<longleftrightarrow> hlist_find ekey k (sc_create_list c) \<noteq> None"
  using assms by (simp_all add: ctx_link_def ctx_ok_def)

context id_refs
begin

lemma destroy_node_links:
  assumes inv: "shr_inv hm held t w" and pid: "pid \<noteq> 0" and ty: "shr_id_get_type_by_name name = (0, Some ty)"
  shows "\<exists>ret t' w'. shr_id_node_destroy hm res name ty pid t w = Some (ret, t', w') \<and> shr_inv hm held t' w' \<and>
    others pid (nodes hm t) (nodes hm t') \<and> (\<forall>k. nopen (nodes hm t') pid k = nopen (nodes hm t) pid k) \<and>
    (if nodes hm t (ty, cstr name) \<noteq> None \<and> creator (nodes hm t) (ty, cstr name) \<noteq> pid
     then ret = - EACCES \<and> nodes hm t' = nodes hm t
     else ret = 0 \<and> (\<forall>k. creator (nodes hm t') k = (if k = (ty, cstr name) then 0 else creator (nodes hm t) k)))"
proof -
  let ?k = "(ty, cstr name)"
  obtain ret t' w' where e: "shr_id_node_destroy hm res name ty pid t w = Some (ret, t', w')" "shr_inv hm held t' w'"
    "case nodes hm t ?k of
       None \<Rightarrow> ret = 0 \<and> nodes hm t' = nodes hm t
     | Some n \<Rightarrow>
         if sn_pid n \<noteq> pid then ret = - EACCES \<and> nodes hm t' = nodes hm t
         else ret = 0 \<and> nodes hm t' = (nodes hm t)(?k := if opens n = 0 then None else Some (n\<lparr>sn_pid := 0, sn_ref := sn_ref n - 1\<rparr>))"
    using destroy_effect [OF inv pid, of name ty] unfolding lookup_parse [OF ty] by blast
  show ?thesis
  proof (cases "nodes hm t ?k")
    case None
    then have "creator (nodes hm t) ?k = 0" by (simp add: creator_def)
    then show ?thesis using None e by (intro exI [of _ ret] exI [of _ t'] exI [of _ w']) auto
  next
    case (Some n)
    show ?thesis
    proof (cases "sn_pid n = pid")
      case False
      then show ?thesis using Some e by (intro exI [of _ ret] exI [of _ t'] exI [of _ w']) (auto simp: creator_def)
    next
      case True
      let ?v = "if opens n = 0 then None else Some (n\<lparr>sn_pid := 0, sn_ref := sn_ref n - 1\<rparr>)"
      have N: "ret = 0" "nodes hm t' = (nodes hm t)(?k := ?v)" using e(3) Some True by simp_all
      have w0: "opens n = 0 \<Longrightarrow> wopen n q = 0" for q using wopen_le_opens [of n q] by simp
      have op: "nopen (nodes hm t') q k = nopen (nodes hm t) q k" for q k
        unfolding N(2) using Some w0 [of q] by (auto simp: nopen_def)
      have cr: "creator (nodes hm t') k = (if k = ?k then 0 else creator (nodes hm t) k)" for k
        unfolding N(2) by (simp add: creator_def)
      have "others pid (nodes hm t) (nodes hm t')" using op cr Some True by (auto simp: others_def creator_def)
      then show ?thesis using e(1,2) op cr N(1) Some True by (intro exI [of _ ret] exI [of _ t'] exI [of _ w']) (auto simp: creator_def)
    qed
  qed
qed

lemma close_node_links:
  assumes inv: "shr_inv hm held t w" and pid: "pid \<noteq> 0" and ty: "shr_id_get_type_by_name name = (0, Some ty)"
  shows "\<exists>ret t' w'. shr_id_node_close hm res name ty pid t w = Some (ret, t', w') \<and> shr_inv hm held t' w' \<and>
    others pid (nodes hm t) (nodes hm t') \<and> (\<forall>k. creator (nodes hm t') k = creator (nodes hm t) k) \<and>
    (if nopen (nodes hm t) pid (ty, cstr name) = 0 then ret \<noteq> 0 \<and> nodes hm t' = nodes hm t
     else ret = 0 \<and> (\<forall>k. nopen (nodes hm t') pid k = (if k = (ty, cstr name) then nopen (nodes hm t) pid k - 1 else nopen (nodes hm t) pid k)))"
proof -
  let ?k = "(ty, cstr name)"
  obtain ret t' w' where e: "shr_id_node_close hm res name ty pid t w = Some (ret, t', w')" "shr_inv hm held t' w'"
    "case nodes hm t ?k of
       None \<Rightarrow> ret = - ENODEV \<and> nodes hm t' = nodes hm t
     | Some n \<Rightarrow>
         if wopen n pid = 0 then (ret = - EBUSY \<or> ret = - EACCES) \<and> nodes hm t' = nodes hm t
         else ret = 0 \<and> (\<exists>m. nodes hm t' = (nodes hm t)(?k := if live m = 0 then None else Some m) \<and>
           same_node n m \<and> sn_pid m = sn_pid n \<and> (\<forall>p. wopen m p = (if p = pid then wopen n p - 1 else wopen n p)) \<and> opens m = opens n - 1)"
    using close_effect [OF inv pid, of name ty] unfolding lookup_parse [OF ty] by blast
  show ?thesis
  proof (cases "nopen (nodes hm t) pid ?k = 0")
    case True
    then have "ret \<noteq> 0" "nodes hm t' = nodes hm t" using e(3) by (auto simp: nopen_def split: option.splits if_splits)
    then show ?thesis using e(1,2) True by (intro exI [of _ ret] exI [of _ t'] exI [of _ w']) auto
  next
    case False
    then obtain n where n: "nodes hm t ?k = Some n" "wopen n pid \<noteq> 0" by (auto simp: nopen_def split: option.splits)
    then obtain m where m: "ret = 0" "nodes hm t' = (nodes hm t)(?k := if live m = 0 then None else Some m)" "sn_pid m = sn_pid n"
      "\<forall>p. wopen m p = (if p = pid then wopen n p - 1 else wopen n p)"
      using e(3) by auto
    have op: "nopen (nodes hm t') q k = (if k = ?k then wopen m q else nopen (nodes hm t) q k)" for q k
      unfolding m(2) using live_zero [of m q] by (auto simp: nopen_def)
    have cr: "creator (nodes hm t') k = creator (nodes hm t) k" for k
      unfolding m(2) using live_zero [of m] n(1) m(3) by (auto simp: creator_def)
    have "others pid (nodes hm t) (nodes hm t')" using op cr m(4) n(1) by (auto simp: others_def nopen_def)
    moreover have "nopen (nodes hm t') pid k = (if k = ?k then nopen (nodes hm t) pid k - 1 else nopen (nodes hm t) pid k)" for k
      using op m(4) n(1) by (auto simp: nopen_def)
    ultimately show ?thesis using e(1,2) cr m(1) False by (intro exI [of _ ret] exI [of _ t'] exI [of _ w']) auto
  qed
qed

lemma destroy_step:
  assumes inv: "shr_inv hm held t w" and l: "ctx_link (nodes hm t) c"
    and r: "shr_id_destroy hm res c io t w = Some (ret, c', io', t', w')"
  shows "step_ok hm held t c t' w' c'"
proof (cases "fst (shr_id_get_type_by_name (io_name io)) = 0")
  case False
  then have "c' = c" "t' = t" "w' = w" using r by (auto simp: shr_id_destroy_def split: prod.splits)
  then show ?thesis using step_ok_refl [OF inv l] by simp
next
  case True
  then obtain ty where ty: "shr_id_get_type_by_name (io_name io) = (0, Some ty)" using parse_ret by (metis prod.collapse)
  let ?k = "(ty, cstr (io_name io))" and ?N = "nodes hm t"
  note L = ctx_linkD [OF l]
  obtain r1 t1 w1 where e: "shr_id_node_destroy hm res (io_name io) ty (sc_pid c) t w = Some (r1, t1, w1)" "shr_inv hm held t1 w1"
    "others (sc_pid c) ?N (nodes hm t1)" "\<forall>k. nopen (nodes hm t1) (sc_pid c) k = nopen ?N (sc_pid c) k"
    "if ?N ?k \<noteq> None \<and> creator ?N ?k \<noteq> sc_pid c then r1 = - EACCES \<and> nodes hm t1 = ?N
     else r1 = 0 \<and> (\<forall>k. creator (nodes hm t1) k = (if k = ?k then 0 else creator ?N k))"
    using destroy_node_links [OF inv L(2) ty] by blast
  show ?thesis
  proof (cases "r1 = 0")
    case False
    then have "c' = c" "t' = t1" "w' = w1" "nodes hm t1 = ?N" using r e(1,5) ty by (auto simp: shr_id_destroy_def split: if_splits)
    then show ?thesis using e(2) l by (simp add: step_ok_def)
  next
    case True
    obtain c2 io2 where d: "shr_id_del_from_proc c io 0 = (c2, io2)" by (cases "shr_id_del_from_proc c io 0")
    have eq: "c' = c2" "t' = t1" "w' = w1" using r e(1) ty True d by (auto simp: shr_id_destroy_def)
    note D = del_created [OF L(1) ty d]
    have cr: "creator (nodes hm t1) k = (if k = ?k then 0 else creator ?N k)" for k
      using e(5) True by (auto split: if_splits)
    have "ctx_link (nodes hm t1) c2"
      unfolding ctx_link_def using D e(4) L(2-4) cr by auto
    then show ?thesis using eq e(2,3) D by (simp add: step_ok_def)
  qed
qed

lemma close_step:
  assumes inv: "shr_inv hm held t w" and l: "ctx_link (nodes hm t) c"
    and r: "shr_id_close hm res c io t w = Some (ret, c', io', t', w')"
  shows "step_ok hm held t c t' w' c'"
proof (cases "fst (shr_id_get_type_by_name (io_name io)) = 0")
  case False
  then have "c' = c" "t' = t" "w' = w" using r by (auto simp: shr_id_close_def split: prod.splits)
  then show ?thesis using step_ok_refl [OF inv l] by simp
next
  case True
  then obtain ty where ty: "shr_id_get_type_by_name (io_name io) = (0, Some ty)" using parse_ret by (metis prod.collapse)
  let ?k = "(ty, cstr (io_name io))" and ?N = "nodes hm t"
  note L = ctx_linkD [OF l]
  obtain r1 t1 w1 where e: "shr_id_node_close hm res (io_name io) ty (sc_pid c) t w = Some (r1, t1, w1)" "shr_inv hm held t1 w1"
    "others (sc_pid c) ?N (nodes hm t1)" "\<forall>k. creator (nodes hm t1) k = creator ?N k"
    "if nopen ?N (sc_pid c) ?k = 0 then r1 \<noteq> 0 \<and> nodes hm t1 = ?N
     else r1 = 0 \<and> (\<forall>k. nopen (nodes hm t1) (sc_pid c) k = (if k = ?k then nopen ?N (sc_pid c) k - 1 else nopen ?N (sc_pid c) k))"
    using close_node_links [OF inv L(2) ty] by blast
  show ?thesis
  proof (cases "r1 = 0")
    case False
    then have "c' = c" "t' = t1" "w' = w1" "nodes hm t1 = ?N" using r e(1,5) ty by (auto simp: shr_id_close_def split: if_splits)
    then show ?thesis using e(2) l by (simp add: step_ok_def)
  next
    case True
    obtain c2 io2 where d: "shr_id_del_from_proc c io 1 = (c2, io2)" by (cases "shr_id_del_from_proc c io 1")
    have eq: "c' = c2" "t' = t1" "w' = w1" using r e(1) ty True d by (auto simp: shr_id_close_def)
    note D = del_opened [OF L(1) ty d]
    have op: "nopen (nodes hm t1) (sc_pid c) k = (if k = ?k then nopen ?N (sc_pid c) k - 1 else nopen ?N (sc_pid c) k)" for k
      using e(5) True by (auto split: if_splits)
    have "ctx_link (nodes hm t1) c2"
      unfolding ctx_link_def using D e(4) L(2-4) op by auto
    then show ?thesis using eq e(2,3) D by (simp add: step_ok_def)
  qed
qed

lemma lref_small:
  assumes "shr_inv hm held t w" "ctx_link (nodes hm t) c"
  shows "lref (sc_open_list c) k < 2 ^ 31 - 31"
proof -
  have "nopen (nodes hm t) (sc_pid c) k \<le> 2147483616"
  proof (cases "nodes hm t k")
    case (Some n)
    then have "node_wf n" using shr_invD(2) [OF assms(1)] by (simp add: node_ok_def)
    then show ?thesis using Some opens_bound [of n] wopen_le_opens [of n "sc_pid c"] by (simp add: nopen_def)
  qed (simp add: nopen_def)
  then show ?thesis using ctx_linkD(3) [OF assms(2), of k] by simp
qed

lemma open_step:
  assumes inv: "shr_inv hm held t w" and l: "ctx_link (nodes hm t) c" and len: "length (io_name io) = SHR_ID_NSM_NAME_SIZE"
    and r: "shr_id_open hm res env c io t w = Some (ret, c', io', t', w')"
  shows "step_ok hm held t c t' w' c'"
proof (cases "fst (shr_id_get_type_by_name (io_name io)) = 0")
  case False
  then have "c' = c" "t' = t" "w' = w" using r by (auto simp: shr_id_open_def split: prod.splits)
  then show ?thesis using step_ok_refl [OF inv l] by simp
next
  case True
  then obtain ty where ty: "shr_id_get_type_by_name (io_name io) = (0, Some ty)" using parse_ret by (metis prod.collapse)
  let ?k = "(ty, cstr (io_name io))" and ?N = "nodes hm t"
  let ?attr = "\<lparr>at_inst = \<lparr>ti_devid = 0, ti_tsid = 0\<rparr>, at_res_type = shr_id_type_trans ty, at_type = ty, at_id = 0\<rparr>"
  note L = ctx_linkD [OF l]
  have at0: "at_type ?attr = ty" by simp
  obtain r1 a1 t1 w1 where e: "shr_id_node_open hm res (io_name io) (sc_pid c) (sc_start_time c) ?attr t w = Some (r1, a1, t1, w1)"
    "shr_inv hm held t1 w1"
    "case ?N ?k of
       None \<Rightarrow> r1 = - ENODEV \<and> nodes hm t1 = ?N
     | Some n \<Rightarrow>
         r1 = fst (shr_id_node_open0 n (sc_pid c) (sc_start_time c) ?attr) \<and>
         (if r1 \<noteq> 0 then nodes hm t1 = ?N
          else a1 = ?attr\<lparr>at_inst := sn_inst n, at_id := sint (sn_id n)\<rparr> \<and>
            (\<exists>m. nodes hm t1 = ?N(?k \<mapsto> m) \<and> same_node n m \<and> sn_pid m = sn_pid n \<and>
               (\<forall>p. wopen m p = (if p = sc_pid c then wopen n p + 1 else wopen n p)) \<and> opens m = opens n + 1))"
    using open_effect [OF inv L(2), of "io_name io" "sc_start_time c" ?attr, unfolded at0 lookup_parse [OF ty]] by (elim exE conjE)
  show ?thesis
  proof (cases "r1 = 0")
    case False
    then have "c' = c" "t' = t1" "w' = w1" "nodes hm t1 = ?N" using r e(1,3) ty by (auto simp: shr_id_open_def split: if_splits option.splits)
    then show ?thesis using e(2) l by (simp add: step_ok_def)
  next
    case True
    then obtain n m where n: "?N ?k = Some n" "a1 = ?attr\<lparr>at_inst := sn_inst n, at_id := sint (sn_id n)\<rparr>" "nodes hm t1 = ?N(?k \<mapsto> m)"
      "sn_pid m = sn_pid n" "\<forall>p. wopen m p = (if p = sc_pid c then wopen n p + 1 else wopen n p)"
      using e(3) by (auto split: option.splits)
    have oth: "others (sc_pid c) ?N (nodes hm t1)" unfolding n(3) using n by (auto simp: others_def nopen_def creator_def)
    have cr: "creator (nodes hm t1) k = creator ?N k" for k unfolding n(3) using n by (auto simp: creator_def)
    have op: "nopen (nodes hm t1) (sc_pid c) k = (if k = ?k then nopen ?N (sc_pid c) k + 1 else nopen ?N (sc_pid c) k)" for k
      unfolding n(3) using n by (auto simp: nopen_def)
    obtain r2 c2 io2 where d: "shr_id_add_to_proc (se_proc_mem env) c io a1 1 = (r2, c2, io2)"
      by (cases "shr_id_add_to_proc (se_proc_mem env) c io a1 1")
    have "lref (sc_open_list c) ?k < 2 ^ 31" using lref_small [OF inv l, of ?k] by simp
    note D = add_opened [OF L(1) ty len _ this d]
    have at: "at_type a1 = ty" using n(2) by simp
    show ?thesis
    proof (cases "r2 = 0")
      case r2: True
      have eq: "c' = c2" "t' = t1" "w' = w1" using r e(1) ty True d r2 by (auto simp: shr_id_open_def)
      have "ctx_link (nodes hm t1) c2" unfolding ctx_link_def using D [OF at] r2 L(2-4) op cr by auto
      then show ?thesis using eq e(2) oth D [OF at] r2 by (simp add: step_ok_def)
    next
      case r2: False
      have c2: "c2 = c" "io_name io2 = io_name io" using D [OF at] r2 by simp_all
      obtain r3 t3 w3 where f: "shr_id_node_close hm res (io_name io) ty (sc_pid c) t1 w1 = Some (r3, t3, w3)" "shr_inv hm held t3 w3"
        "others (sc_pid c) (nodes hm t1) (nodes hm t3)" "\<forall>k. creator (nodes hm t3) k = creator (nodes hm t1) k"
        "\<forall>k. nopen (nodes hm t3) (sc_pid c) k = (if k = ?k then nopen (nodes hm t1) (sc_pid c) k - 1 else nopen (nodes hm t1) (sc_pid c) k)"
        using close_node_links [OF e(2) L(2) ty] op [of ?k] by auto
      have eq: "c' = c" "t' = t3" "w' = w3" using r e(1) ty True d r2 c2 f(1) by (auto simp: shr_id_open_def)
      have "ctx_link (nodes hm t3) c" by (rule ctx_link_same [OF l]) (use f(4,5) op cr in auto)
      then show ?thesis using eq f(2) others_trans [OF oth f(3)] by (simp add: step_ok_def)
    qed
  qed
qed

lemma set_pid_step:
  assumes inv: "shr_inv hm held t w" and l: "ctx_link (nodes hm t) c"
    and r: "shr_id_set_pid hm res env c io t w = Some (ret, c', io', t', w')"
  shows "step_ok hm held t c t' w' c'"
proof (cases "fst (shr_id_get_type_by_name (io_name io)) = 0")
  case False
  then have "c' = c" "t' = t" "w' = w" using r by (auto simp: shr_id_set_pid_def split: prod.splits)
  then show ?thesis using step_ok_refl [OF inv l] by simp
next
  case True
  then obtain ty where ty: "shr_id_get_type_by_name (io_name io) = (0, Some ty)" using parse_ret by (metis prod.collapse)
  let ?k = "(ty, cstr (io_name io))" and ?N = "nodes hm t"
  let ?pids = "zip (take 16 (io_pid io)) (se_nows env)"
  note L = ctx_linkD [OF l]
  obtain r1 t1 w1 where e: "shr_id_node_set_pids hm res (io_name io) ty (sc_pid c) ?pids t w = Some (r1, t1, w1)" "shr_inv hm held t1 w1"
    "case ?N ?k of
       None \<Rightarrow> r1 = - ENODEV \<and> nodes hm t1 = ?N
     | Some n \<Rightarrow> (if sn_pid n \<noteq> sc_pid c then r1 = - EACCES else True) \<and> (\<exists>m. keeps n m \<and> nodes hm t1 = ?N(?k \<mapsto> m))"
    using set_pids_effect [OF inv, of "io_name io" ty "sc_pid c" ?pids] unfolding lookup_parse [OF ty] by blast
  have eq: "c' = c" "t' = t1" "w' = w1" using r e(1) ty by (auto simp: shr_id_set_pid_def)
  have same: "p \<noteq> 0 \<Longrightarrow> nopen (nodes hm t1) p j = nopen ?N p j" "creator (nodes hm t1) j = creator ?N j" for p j
    using e(3) by (auto simp: nopen_def creator_def keeps_def split: option.splits if_splits)
  have "ctx_link (nodes hm t1) c" by (rule ctx_link_same [OF l]) (use same L(2) in auto)
  then show ?thesis using eq e(2) same by (simp add: step_ok_def others_def)
qed

lemma create_step:
  assumes inv: "shr_inv hm held t w" and l: "ctx_link (nodes hm t) c" and len: "length (io_name io) = SHR_ID_NSM_NAME_SIZE"
    and lim: "\<forall>k. int (refs (nodes hm t) k) < INT_MAX - 1" and tg: "se_tgid env \<noteq> 0"
    and r: "shr_id_create hm res env c io t w = Some (ret, c', io', t', w')"
  shows "step_ok hm held t c t' w' c'"
proof (cases "se_in_container env (io_devid io) \<and> io_id_type io < 2")
  case False
  then have "c' = c" "t' = t" "w' = w" using r by (auto simp: shr_id_create_def Let_def not_le split: if_splits)
  then show ?thesis using step_ok_refl [OF inv l] by simp
next
  case True
  let ?u = "io_id_type io"
  let ?ty = "sint ?u"
  let ?attr = "\<lparr>at_inst = \<lparr>ti_devid = io_devid io, ti_tsid = io_tsid io\<rparr>, at_res_type = shr_id_type_trans ?ty, at_type = ?ty, at_id = sint (io_shr_id io)\<rparr>"
  define name where "name = snd (shr_id_name_generate (io_devid io) (io_tsid io) (sc_pid c) ?u (io_shr_id io) (io_name io))"
  have g: "shr_id_name_generate (io_devid io) (io_tsid io) (sc_pid c) ?u (io_shr_id io) (io_name io) = (0, name)"
    by (simp add: name_def shr_id_name_generate_def Let_def)
  have ty: "shr_id_get_type_by_name name = (0, Some ?ty)" unfolding name_def using name_parse True by blast
  have ln: "length name = 65" using len by (simp add: name_def shr_id_name_generate_def Let_def)
  let ?io = "io\<lparr>io_name := name\<rparr>" and ?k = "(?ty, cstr name)" and ?N = "nodes hm t"
  note L = ctx_linkD [OF l]
  obtain r1 t1 w1 where c1: "shr_id_node_create hm res (se_node_mem env) (se_now env) (se_tgid env) name (sc_pid c) ?attr (io_flag io) t w = Some (r1, t1, w1)"
    using r True g by (auto simp: shr_id_create_def Let_def bind_eq_Some_conv split: if_splits)
  have v: "valid_name name (at_type ?attr)" using parse_valid [OF ty] by simp
  have sh: "res_shared (at_res_type ?attr)" by (simp add: res_shared_def shr_id_type_trans_def)
  note E = create_effect [OF inv c1 L(2) v ln sh tg lim [rule_format]]
  show ?thesis
  proof (cases "r1 = 0")
    case False
    then have "c' = c" "t' = t1" "w' = w1" "nodes hm t1 = ?N" using r True g c1 E by (auto simp: shr_id_create_def Let_def split: if_splits)
    then show ?thesis using E l by (simp add: step_ok_def)
  next
    case r1: True
    then obtain n where n: "shr_inv hm held t1 w1" "?N ?k = None" "nodes hm t1 = ?N(?k \<mapsto> n)" "sn_pid n = sc_pid c" "opens n = 0" "\<forall>p. wopen n p = 0"
      using E lookup_parse [OF ty] by auto
    have oth: "others (sc_pid c) ?N (nodes hm t1)" unfolding n(3) using n by (auto simp: others_def nopen_def creator_def)
    have op: "nopen (nodes hm t1) p k = nopen ?N p k" for p k unfolding n(3) using n by (auto simp: nopen_def)
    have cr: "creator (nodes hm t1) k = (if k = ?k then sc_pid c else creator ?N k)" for k unfolding n(3) using n by (auto simp: creator_def)
    have new: "hlist_find ekey ?k (sc_create_list c) = None" using L(2) L(4) [of ?k] n(2) by (auto simp: creator_def)
    obtain r2 c2 io2 where d: "shr_id_add_to_proc (se_proc_mem env) c ?io ?attr 0 = (r2, c2, io2)"
      by (cases "shr_id_add_to_proc (se_proc_mem env) c ?io ?attr 0")
    have ioN: "io_name ?io = name" and at: "at_type ?attr = ?ty" by simp_all
    have D: "io_name io2 = name \<and>
      (if r2 \<noteq> 0 then c2 = c
       else sc_pid c2 = sc_pid c \<and> ctx_ok c2 \<and> sc_open_list c2 = sc_open_list c \<and>
         (\<forall>j. hlist_find ekey j (sc_create_list c2) \<noteq> None \<longleftrightarrow> j = ?k \<or> hlist_find ekey j (sc_create_list c) \<noteq> None))"
      using add_created [where io = ?io and attr = ?attr, unfolded ioN, OF L(1) ty ln at new d] .
    show ?thesis
    proof (cases "r2 = 0")
      case r2: True
      have eq: "c' = c2" "t' = t1" "w' = w1" using r True g c1 r1 d r2 by (auto simp: shr_id_create_def Let_def split: if_splits)
      have "ctx_link (nodes hm t1) c2" unfolding ctx_link_def using D r2 L(2-4) op cr by auto
      then show ?thesis using eq n(1) oth D r2 by (simp add: step_ok_def)
    next
      case r2: False
      have c2: "c2 = c" "io_name io2 = name" using D r2 by simp_all
      obtain r3 t3 w3 where f: "shr_id_node_destroy hm res name ?ty (sc_pid c) t1 w1 = Some (r3, t3, w3)" "shr_inv hm held t3 w3"
        "others (sc_pid c) (nodes hm t1) (nodes hm t3)" "\<forall>k. nopen (nodes hm t3) (sc_pid c) k = nopen (nodes hm t1) (sc_pid c) k"
        "\<forall>k. creator (nodes hm t3) k = (if k = ?k then 0 else creator (nodes hm t1) k)"
        using destroy_node_links [OF n(1) L(2) ty] cr [of ?k] by auto
      have eq: "c' = c" "t' = t3" "w' = w3" using r True g c1 r1 d r2 c2 f(1) by (auto simp: shr_id_create_def Let_def split: if_splits)
      have "creator ?N ?k \<noteq> sc_pid c" using n(2) L(2) by (simp add: creator_def)
      then have "ctx_link (nodes hm t3) c" by (intro ctx_link_same [OF l]) (use f(4,5) op cr L(2) in auto)
      then show ?thesis using eq f(2) others_trans [OF oth f(3)] by (simp add: step_ok_def)
    qed
  qed
qed

lemma ioctl_step:
  assumes inv: "shr_inv hm held t w" and l: "ctx_link (nodes hm t) c"
    and lim: "\<forall>k. int (refs (nodes hm t) k) < INT_MAX - 1" and tg: "se_tgid env \<noteq> 0"
    and len: "\<forall>io. arg = Some io \<longrightarrow> length (io_name (ioctl_arg call io)) = SHR_ID_NSM_NAME_SIZE"
    and r: "shr_id_file_ioctl hm res env call (Some c) cmd arg t w = Some (ret, c', arg', t', w')"
  shows "\<exists>d. c' = Some d \<and> step_ok hm held t c t' w' d"
proof (cases "\<exists>cm io. cmd = Some cm \<and> arg = Some io \<and> (ca_write call \<longrightarrow> ca_copy_in call)")
  case False
  then have "c' = Some c" "t' = t" "w' = w" using r by (auto simp: shr_id_file_ioctl_def split: option.splits if_splits)
  then show ?thesis using step_ok_refl [OF inv l] by simp
next
  case True
  then obtain cm io where io: "cmd = Some cm" "arg = Some io" "ca_write call \<longrightarrow> ca_copy_in call" by blast
  obtain r1 d io1 where h: "shr_id_ioctl_handles hm res env cm c (ioctl_arg call io) t w = Some (r1, d, io1, t', w')" "c' = Some d"
    using r io by (auto simp: shr_id_file_ioctl_def bind_eq_Some_conv split: if_splits)
  have ln: "length (io_name (ioctl_arg call io)) = 65" using len io(2) by simp
  have "step_ok hm held t c t' w' d"
    using h(1) create_step [OF inv l ln lim tg] open_step [OF inv l ln] close_step [OF inv l] destroy_step [OF inv l] set_pid_step [OF inv l]
    by (cases cm) (simp_all add: shr_id_ioctl_handles_def)
  then show ?thesis using h(2) by simp
qed

text \<open>No ioctl touches a node that is no longer in the table.\<close>

lemma add_pid: "sc_pid (fst (snd (shr_id_add_to_proc mem c io attr op))) = sc_pid c"
  by (auto simp: shr_id_add_to_proc_def shr_id_proc_num_inc_def list_head_upd_def Let_def split: option.split)

lemma destroy_total:
  assumes "shr_inv hm held t w" "sc_pid c \<noteq> 0"
  shows "\<exists>r. shr_id_destroy hm res c io t w = Some r"
proof -
  obtain ret ty where p: "shr_id_get_type_by_name (io_name io) = (ret, ty)" by (cases "shr_id_get_type_by_name (io_name io)")
  obtain r t1 w1 where "shr_id_node_destroy hm res (io_name io) (the ty) (sc_pid c) t w = Some (r, t1, w1)"
    using destroy_effect [OF assms] by blast
  with p show ?thesis by (simp add: shr_id_destroy_def split: prod.split)
qed

lemma close_total:
  assumes "shr_inv hm held t w" "sc_pid c \<noteq> 0"
  shows "\<exists>r. shr_id_close hm res c io t w = Some r"
proof -
  obtain ret ty where p: "shr_id_get_type_by_name (io_name io) = (ret, ty)" by (cases "shr_id_get_type_by_name (io_name io)")
  obtain r t1 w1 where "shr_id_node_close hm res (io_name io) (the ty) (sc_pid c) t w = Some (r, t1, w1)"
    using close_effect [OF assms] by blast
  with p show ?thesis by (simp add: shr_id_close_def split: prod.split)
qed

lemma open_total:
  assumes "shr_inv hm held t w" "sc_pid c \<noteq> 0"
  shows "\<exists>r. shr_id_open hm res env c io t w = Some r"
proof -
  obtain ret ty where p: "shr_id_get_type_by_name (io_name io) = (ret, ty)" by (cases "shr_id_get_type_by_name (io_name io)")
  let ?attr = "\<lparr>at_inst = \<lparr>ti_devid = 0, ti_tsid = 0\<rparr>, at_res_type = shr_id_type_trans (the ty), at_type = the ty, at_id = 0\<rparr>"
  obtain r a1 t1 w1 where o: "shr_id_node_open hm res (io_name io) (sc_pid c) (sc_start_time c) ?attr t w = Some (r, a1, t1, w1)" "shr_inv hm held t1 w1"
    using open_effect [OF assms] by blast
  obtain r2 c2 io2 where d: "shr_id_add_to_proc (se_proc_mem env) c io a1 1 = (r2, c2, io2)" "sc_pid c2 = sc_pid c"
    using add_pid by (metis prod.collapse)
  have "\<exists>r3 t3 w3. shr_id_node_close hm res (io_name io2) (the ty) (sc_pid c2) t1 w1 = Some (r3, t3, w3)"
    using close_effect [OF o(2)] d(2) assms(2) by metis
  with p o(1) d(1) show ?thesis by (auto simp: shr_id_open_def)
qed

lemma create_ioctl_total:
  assumes inv: "shr_inv hm held t w" "sc_pid c \<noteq> 0" and len: "length (io_name io) = SHR_ID_NSM_NAME_SIZE"
    and lim: "\<forall>k. int (refs (nodes hm t) k) < INT_MAX - 1" and tg: "se_tgid env \<noteq> 0"
  shows "\<exists>r. shr_id_create hm res env c io t w = Some r"
proof (cases "se_in_container env (io_devid io) \<and> io_id_type io < 2")
  case False
  then show ?thesis by (auto simp: shr_id_create_def Let_def not_le)
next
  case True
  let ?u = "io_id_type io"
  let ?attr = "\<lparr>at_inst = \<lparr>ti_devid = io_devid io, ti_tsid = io_tsid io\<rparr>, at_res_type = shr_id_type_trans (sint ?u), at_type = sint ?u, at_id = sint (io_shr_id io)\<rparr>"
  define name where "name = snd (shr_id_name_generate (io_devid io) (io_tsid io) (sc_pid c) ?u (io_shr_id io) (io_name io))"
  have g: "shr_id_name_generate (io_devid io) (io_tsid io) (sc_pid c) ?u (io_shr_id io) (io_name io) = (0, name)"
    by (simp add: name_def shr_id_name_generate_def Let_def)
  have ln: "length name = 65" using len by (simp add: name_def shr_id_name_generate_def Let_def)
  have ty: "shr_id_get_type_by_name name = (0, Some (sint ?u))" unfolding name_def using name_parse True by blast
  have v: "valid_name name (at_type ?attr)" using parse_valid [OF ty] by simp
  have sh: "res_shared (at_res_type ?attr)" by (simp add: res_shared_def shr_id_type_trans_def)
  obtain r1 t1 w1 where c1: "shr_id_node_create hm res (se_node_mem env) (se_now env) (se_tgid env) name (sc_pid c) ?attr (io_flag io) t w = Some (r1, t1, w1)"
    using create_total [OF inv(1) ln sh tg lim [rule_format]] by blast
  have i1: "shr_inv hm held t1 w1" using create_effect [OF inv(1) c1 inv(2) v ln sh tg lim [rule_format]] by blast
  obtain r2 c2 io2 where d: "shr_id_add_to_proc (se_proc_mem env) c (io\<lparr>io_name := name\<rparr>) ?attr 0 = (r2, c2, io2)" "sc_pid c2 = sc_pid c"
    using add_pid by (metis prod.collapse)
  have "\<exists>r3 t3 w3. shr_id_node_destroy hm res (io_name io2) (sint ?u) (sc_pid c2) t1 w1 = Some (r3, t3, w3)"
    using destroy_effect [OF i1] d(2) inv(2) by metis
  with True g c1 d(1) show ?thesis by (auto simp: shr_id_create_def Let_def)
qed

lemma set_pid_total:
  assumes "shr_inv hm held t w"
  shows "\<exists>r. shr_id_set_pid hm res env c io t w = Some r"
proof -
  obtain ret ty where p: "shr_id_get_type_by_name (io_name io) = (ret, ty)" by (cases "shr_id_get_type_by_name (io_name io)")
  obtain r t1 w1 where "shr_id_node_set_pids hm res (io_name io) (the ty) (sc_pid c) (zip (take 16 (io_pid io)) (se_nows env)) t w = Some (r, t1, w1)"
    using set_pids_effect [OF assms] by blast
  with p show ?thesis by (simp add: shr_id_set_pid_def)
qed

lemma ioctl_total:
  assumes inv: "shr_inv hm held t w" and l: "ctx_link (nodes hm t) c"
    and lim: "\<forall>k. int (refs (nodes hm t) k) < INT_MAX - 1" and tg: "se_tgid env \<noteq> 0"
    and len: "\<forall>io. arg = Some io \<longrightarrow> length (io_name (ioctl_arg call io)) = SHR_ID_NSM_NAME_SIZE"
  shows "\<exists>ret c' arg' t' w'. shr_id_file_ioctl hm res env call (Some c) cmd arg t w = Some (ret, Some c', arg', t', w') \<and> step_ok hm held t c t' w' c'"
proof -
  have "\<exists>r. shr_id_file_ioctl hm res env call (Some c) cmd arg t w = Some r"
  proof (cases "\<exists>cm io. cmd = Some cm \<and> arg = Some io \<and> (ca_write call \<longrightarrow> ca_copy_in call)")
    case False
    then show ?thesis by (auto simp: shr_id_file_ioctl_def split: option.splits)
  next
    case True
    then obtain cm io where io: "cmd = Some cm" "arg = Some io" "ca_write call \<longrightarrow> ca_copy_in call" by blast
    have p: "sc_pid c \<noteq> 0" and ln: "length (io_name (ioctl_arg call io)) = 65" using ctx_linkD(2) [OF l] len io(2) by simp_all
    have "\<exists>r. shr_id_ioctl_handles hm res env cm c (ioctl_arg call io) t w = Some r"
      using create_ioctl_total [OF inv p ln lim tg] open_total [OF inv p] close_total [OF inv p] destroy_total [OF inv p] set_pid_total [OF inv]
      by (cases cm) (simp_all add: shr_id_ioctl_handles_def)
    then show ?thesis using io by (auto simp: shr_id_file_ioctl_def)
  qed
  then obtain ret c' arg' t' w' where r: "shr_id_file_ioctl hm res env call (Some c) cmd arg t w = Some (ret, c', arg', t', w')" by auto
  from ioctl_step [OF inv l lim tg len r] r show ?thesis by blast
qed

section \<open>Recycling\<close>

lemma close_times_links:
  assumes "shr_inv hm held t w" "pid \<noteq> 0" "shr_id_get_type_by_name name = (0, Some ty)" "j \<le> nopen (nodes hm t) pid (ty, cstr name)"
  shows "\<exists>t' w'. close_times hm res name ty pid j ret t w = Some (ret, t', w') \<and> shr_inv hm held t' w' \<and>
    others pid (nodes hm t) (nodes hm t') \<and> (\<forall>k. creator (nodes hm t') k = creator (nodes hm t) k) \<and>
    (\<forall>k. nopen (nodes hm t') pid k = (if k = (ty, cstr name) then nopen (nodes hm t) pid k - j else nopen (nodes hm t) pid k))"
  using assms
proof (induction j arbitrary: t w)
  case (Suc j)
  let ?k = "(ty, cstr name)"
  obtain t1 w1 where e: "shr_id_node_close hm res name ty pid t w = Some (0, t1, w1)" "shr_inv hm held t1 w1"
    "others pid (nodes hm t) (nodes hm t1)" "\<forall>k. creator (nodes hm t1) k = creator (nodes hm t) k"
    "\<forall>k. nopen (nodes hm t1) pid k = (if k = ?k then nopen (nodes hm t) pid k - 1 else nopen (nodes hm t) pid k)"
    using close_node_links [OF Suc.prems(1-3)] Suc.prems(4) by auto
  have "j \<le> nopen (nodes hm t1) pid ?k" using e(5) Suc.prems(4) by simp
  from Suc.IH [OF e(2) Suc.prems(2,3) this]
  obtain t2 w2 where f: "close_times hm res name ty pid j ret t1 w1 = Some (ret, t2, w2)" "shr_inv hm held t2 w2"
    "others pid (nodes hm t1) (nodes hm t2)" "\<forall>k. creator (nodes hm t2) k = creator (nodes hm t1) k"
    "\<forall>k. nopen (nodes hm t2) pid k = (if k = ?k then nopen (nodes hm t1) pid k - j else nopen (nodes hm t1) pid k)" by blast
  have "close_times hm res name ty pid (Suc j) ret t w = Some (ret, t2, w2)" using e(1) f(1) by simp
  moreover have "others pid (nodes hm t) (nodes hm t2)" by (rule others_trans [OF e(3) f(3)])
  ultimately show ?case using e(4,5) f(2,4,5) by (intro exI [of _ t2] exI [of _ w2]) auto
qed auto

lemma recycle_opened_links:
  assumes "shr_inv hm held t w" "sc_pid c \<noteq> 0" "\<forall>e \<in> set es. pentry_ok e" "distinct (map ekey es)"
    "\<forall>k. nopen (nodes hm t) (sc_pid c) k = lref es k" "sc_open_list c = es"
  shows "\<exists>c' t' w'. recycle_opened_loop hm res es 0 c t w = Some (c', t', w') \<and> shr_inv hm held t' w' \<and>
    others (sc_pid c) (nodes hm t) (nodes hm t') \<and> (\<forall>k. creator (nodes hm t') k = creator (nodes hm t) k) \<and>
    (\<forall>k. nopen (nodes hm t') (sc_pid c) k = 0) \<and> sc_pid c' = sc_pid c \<and> sc_create_list c' = sc_create_list c \<and> sc_open_list c' = []"
  using assms
proof (induction es arbitrary: c t w)
  case Nil
  then show ?case by (auto simp: lref_def)
next
  case (Cons e es)
  have ty: "shr_id_get_type_by_name (sp_name e) = (0, Some (sp_type e))" using Cons.prems(3) by (simp add: pentry_ok_def)
  have at: "nopen (nodes hm t) (sc_pid c) (ekey e) = unat (sp_ref e)" using Cons.prems(5) by (simp add: lref_def)
  obtain t1 w1 where f: "close_times hm res (sp_name e) (sp_type e) (sc_pid c) (unat (sp_ref e)) 0 t w = Some (0, t1, w1)"
    "shr_inv hm held t1 w1" "others (sc_pid c) (nodes hm t) (nodes hm t1)" "\<forall>k. creator (nodes hm t1) k = creator (nodes hm t) k"
    "\<forall>k. nopen (nodes hm t1) (sc_pid c) k = (if k = ekey e then nopen (nodes hm t) (sc_pid c) k - unat (sp_ref e) else nopen (nodes hm t) (sc_pid c) k)"
    using close_times_links [OF Cons.prems(1,2) ty, of "unat (sp_ref e)" 0] at by auto
  let ?c = "(shr_id_proc_num_dec 1 (sp_ref e) c)\<lparr>sc_open_list := es\<rparr>"
  have "hlist_find ekey (ekey e) es = None" using Cons.prems(4) by (rule hlist_find_tl)
  then have l0: "lref es (ekey e) = 0" by (simp add: lref_def)
  have op: "\<forall>k. nopen (nodes hm t1) (sc_pid ?c) k = lref es k"
  proof
    fix k show "nopen (nodes hm t1) (sc_pid ?c) k = lref es k"
      using f(5) Cons.prems(5) at l0 by (cases "k = ekey e") (simp_all add: lref_def)
  qed
  from Cons.IH [OF f(2) _ _ _ op] Cons.prems
  obtain c' t' w' where g: "recycle_opened_loop hm res es 0 ?c t1 w1 = Some (c', t', w')" "shr_inv hm held t' w'"
    "others (sc_pid c) (nodes hm t1) (nodes hm t')" "\<forall>k. creator (nodes hm t') k = creator (nodes hm t1) k"
    "\<forall>k. nopen (nodes hm t') (sc_pid c) k = 0" "sc_pid c' = sc_pid c" "sc_create_list c' = sc_create_list c" "sc_open_list c' = []"
    by auto
  have "recycle_opened_loop hm res (e # es) 0 c t w = Some (c', t', w')" using f(1) g(1) by simp
  then show ?case using g f(4) others_trans [OF f(3) g(3)] by (intro exI [of _ c'] exI [of _ t'] exI [of _ w']) auto
qed

lemma recycle_created_links:
  assumes "shr_inv hm held t w" "sc_pid c \<noteq> 0" "\<forall>e \<in> set es. pentry_ok e" "distinct (map ekey es)"
    "\<forall>k. creator (nodes hm t) k = sc_pid c \<longleftrightarrow> hlist_find ekey k es \<noteq> None"
  shows "\<exists>c' t' w'. recycle_created_loop hm res es c t w = Some (c', t', w') \<and> shr_inv hm held t' w' \<and>
    others (sc_pid c) (nodes hm t) (nodes hm t') \<and> (\<forall>k. nopen (nodes hm t') (sc_pid c) k = nopen (nodes hm t) (sc_pid c) k) \<and>
    (\<forall>k. creator (nodes hm t') k \<noteq> sc_pid c) \<and> sc_pid c' = sc_pid c"
  using assms
proof (induction es arbitrary: c t w)
  case (Cons e es)
  have ty: "shr_id_get_type_by_name (sp_name e) = (0, Some (sp_type e))" using Cons.prems(3) by (simp add: pentry_ok_def)
  have mine: "creator (nodes hm t) (ekey e) = sc_pid c" using Cons.prems(5) by simp
  obtain t1 w1 where f: "shr_id_node_destroy hm res (sp_name e) (sp_type e) (sc_pid c) t w = Some (0, t1, w1)"
    "shr_inv hm held t1 w1" "others (sc_pid c) (nodes hm t) (nodes hm t1)"
    "\<forall>k. nopen (nodes hm t1) (sc_pid c) k = nopen (nodes hm t) (sc_pid c) k"
    "\<forall>k. creator (nodes hm t1) k = (if k = ekey e then 0 else creator (nodes hm t) k)"
    using destroy_node_links [OF Cons.prems(1,2) ty] mine by auto
  let ?c = "(shr_id_proc_num_dec 0 (sp_ref e) c)\<lparr>sc_create_list := es\<rparr>"
  have no: "hlist_find ekey (ekey e) es = None" using Cons.prems(4) by (rule hlist_find_tl)
  have cr: "\<forall>k. creator (nodes hm t1) k = sc_pid ?c \<longleftrightarrow> hlist_find ekey k es \<noteq> None"
  proof
    fix k show "creator (nodes hm t1) k = sc_pid ?c \<longleftrightarrow> hlist_find ekey k es \<noteq> None"
      using f(5) Cons.prems(2,5) no by (cases "k = ekey e") auto
  qed
  from Cons.IH [OF f(2) _ _ _ cr] Cons.prems
  obtain c' t' w' where g: "recycle_created_loop hm res es ?c t1 w1 = Some (c', t', w')" "shr_inv hm held t' w'"
    "others (sc_pid c) (nodes hm t1) (nodes hm t')" "\<forall>k. nopen (nodes hm t') (sc_pid c) k = nopen (nodes hm t1) (sc_pid c) k"
    "\<forall>k. creator (nodes hm t') k \<noteq> sc_pid c" "sc_pid c' = sc_pid c"
    by auto
  have "recycle_created_loop hm res (e # es) c t w = Some (c', t', w')" using f(1) g(1) by simp
  then show ?case using g f(4) others_trans [OF f(3) g(3)] by (intro exI [of _ c'] exI [of _ t'] exI [of _ w']) auto
qed auto

text \<open>
  Recycling succeeds for every entry, takes nothing from another process and leaves no trace of its own. The
  counter of the context, which is zero by then, is not looked at.
\<close>

lemma recycle_links:
  assumes inv: "shr_inv hm held t w" and l: "ctx_link (nodes hm t) c"
  shows "\<exists>c' t' w'. shr_id_node_recycle hm res (c\<lparr>sc_ref := r\<rparr>) t w = Some (c', t', w') \<and> shr_inv hm held t' w' \<and> sc_pid c' = sc_pid c \<and>
    others (sc_pid c) (nodes hm t) (nodes hm t') \<and>
    (\<forall>k. nopen (nodes hm t') (sc_pid c) k = 0 \<and> creator (nodes hm t') k \<noteq> sc_pid c)"
proof -
  let ?d = "c\<lparr>sc_ref := r\<rparr>"
  note L = ctx_linkD [OF l]
  have ok: "\<forall>e \<in> set (sc_open_list c). pentry_ok e" "\<forall>e \<in> set (sc_create_list c). pentry_ok e" "distinct (map ekey (sc_open_list c))"
    "distinct (map ekey (sc_create_list c))" using L(1) by (auto simp: ctx_ok_def)
  obtain c1 t1 w1 where a: "recycle_opened_loop hm res (sc_open_list c) 0 ?d t w = Some (c1, t1, w1)" "shr_inv hm held t1 w1"
    "others (sc_pid c) (nodes hm t) (nodes hm t1)" "\<forall>k. creator (nodes hm t1) k = creator (nodes hm t) k"
    "\<forall>k. nopen (nodes hm t1) (sc_pid c) k = 0" "sc_pid c1 = sc_pid c" "sc_create_list c1 = sc_create_list c"
    using recycle_opened_links [OF inv _ ok(1,3), of ?d] L(2,3) by auto
  have "\<forall>k. creator (nodes hm t1) k = sc_pid c1 \<longleftrightarrow> hlist_find ekey k (sc_create_list c) \<noteq> None" using a(4,6) L(4) by simp
  from recycle_created_links [OF a(2) _ ok(2,4) this] a(6) L(2)
  obtain c2 t2 w2 where b: "recycle_created_loop hm res (sc_create_list c) c1 t1 w1 = Some (c2, t2, w2)" "shr_inv hm held t2 w2"
    "others (sc_pid c) (nodes hm t1) (nodes hm t2)" "\<forall>k. nopen (nodes hm t2) (sc_pid c) k = nopen (nodes hm t1) (sc_pid c) k"
    "\<forall>k. creator (nodes hm t2) k \<noteq> sc_pid c" "sc_pid c2 = sc_pid c"
    by auto
  have "shr_id_node_recycle hm res ?d t w = Some (c2, t2, w2)"
    using a(1,7) b(1) by (simp add: shr_id_node_recycle_def shr_id_recycle_opened_def shr_id_recycle_created_def)
  then show ?thesis using a(5) b others_trans [OF a(3) b(3)] by (intro exI [of _ c2] exI [of _ t2] exI [of _ w2]) auto
qed

end

section \<open>The table of contexts\<close>

definition ctxs_ok :: "(u32 \<Rightarrow> nat) \<Rightarrow> shr_procs \<Rightarrow> bool" where
  "ctxs_ok hm pt \<longleftrightarrow> (\<forall>b. (\<forall>c \<in> set (pt b). b = proc_bucket hm (sc_pid c)) \<and> distinct (map sc_pid (pt b)))"

lemma find_proc_pid: "shr_id_find_proc hm pt p = Some c \<Longrightarrow> sc_pid c = p"
  using hlist_find_Some [of sc_pid p] by (auto simp: shr_id_find_proc_def)

lemma add_procs:
  assumes "ctxs_ok hm pt" "shr_id_proc_add hm pt c = (0, pt')"
  shows "ctxs_ok hm pt' \<and> shr_id_find_proc hm pt (sc_pid c) = None \<and> shr_id_find_proc hm pt' = (shr_id_find_proc hm pt)(sc_pid c \<mapsto> c)"
proof -
  let ?b = "proc_bucket hm (sc_pid c)"
  have n: "shr_id_find_proc hm pt (sc_pid c) = None" "pt' = pt(?b := c # pt ?b)"
    using assms(2) by (auto simp: shr_id_proc_add_def split: if_splits)
  then have "\<forall>x \<in> set (pt ?b). sc_pid x \<noteq> sc_pid c" by (simp add: shr_id_find_proc_def hlist_find_None)
  then have "ctxs_ok hm pt'" using assms(1) n(2) by (auto simp: ctxs_ok_def)
  moreover have "shr_id_find_proc hm pt' = (shr_id_find_proc hm pt)(sc_pid c \<mapsto> c)"
    unfolding n(2) by (auto simp: fun_eq_iff shr_id_find_proc_def)
  ultimately show ?thesis using n(1) by simp
qed

lemma del_procs:
  assumes "ctxs_ok hm pt"
  shows "ctxs_ok hm (shr_id_proc_del0 hm pt c) \<and> shr_id_find_proc hm (shr_id_proc_del0 hm pt c) = (shr_id_find_proc hm pt)(sc_pid c := None)"
proof -
  let ?b = "proc_bucket hm (sc_pid c)"
  have d: "distinct (map sc_pid (pt ?b))" using assms by (simp add: ctxs_ok_def)
  have "ctxs_ok hm (shr_id_proc_del0 hm pt c)"
    using assms hlist_del_set [of sc_pid "sc_pid c" "pt ?b"] hlist_del_distinct [OF d] by (auto simp: ctxs_ok_def shr_id_proc_del0_def)
  moreover have "shr_id_find_proc hm (shr_id_proc_del0 hm pt c) p = ((shr_id_find_proc hm pt)(sc_pid c := None)) p" for p
    by (auto simp: shr_id_find_proc_def shr_id_proc_del0_def hlist_find_del [OF d])
  ultimately show ?thesis by (simp add: fun_eq_iff)
qed

lemma store_procs:
  assumes "ctxs_ok hm pt" "shr_id_find_proc hm pt (sc_pid c) \<noteq> None"
  shows "ctxs_ok hm (shr_id_proc_store hm c pt) \<and> shr_id_find_proc hm (shr_id_proc_store hm c pt) = (shr_id_find_proc hm pt)(sc_pid c \<mapsto> c)"
proof -
  let ?b = "proc_bucket hm (sc_pid c)"
  have "set (hlist_set sc_pid c (pt ?b)) \<subseteq> insert c (set (pt ?b))" by (rule hlist_set_set)
  then have "ctxs_ok hm (shr_id_proc_store hm c pt)" using assms(1) by (auto simp: ctxs_ok_def shr_id_proc_store_def hlist_set_names)
  moreover have "shr_id_find_proc hm (shr_id_proc_store hm c pt) p = ((shr_id_find_proc hm pt)(sc_pid c \<mapsto> c)) p" for p
    using assms(2) by (auto simp: shr_id_find_proc_def shr_id_proc_store_def hlist_find_set)
  ultimately show ?thesis by (simp add: fun_eq_iff)
qed

section \<open>Runs\<close>

text \<open>
  The state of the module: the nodes and the contexts agree, and a process without a context has nothing in the
  nodes.
\<close>

definition sys_inv ::
    "(u32 \<Rightarrow> nat) \<Rightarrow> ('w \<Rightarrow> (res_key \<Rightarrow> nat) \<Rightarrow> bool) \<Rightarrow> shr_htable \<Rightarrow> shr_procs \<Rightarrow> 'w \<Rightarrow> bool" where
  "sys_inv hm held t pt w \<longleftrightarrow> shr_inv hm held t w \<and> ctxs_ok hm pt \<and>
     (\<forall>p c. shr_id_find_proc hm pt p = Some c \<longrightarrow> ctx_link (nodes hm t) c) \<and>
     (\<forall>p k. p \<noteq> 0 \<longrightarrow> shr_id_find_proc hm pt p = None \<longrightarrow> nopen (nodes hm t) p k = 0 \<and> creator (nodes hm t) k \<noteq> p)"

text \<open>
  \<open>shr_reach hm res held t pt w\<close>: the module can be in this state. \<open>sh_env\<close> is everything the resource manager
  does in between. Fewer than \<open>INT_MAX\<close> nodes share one id, which the code does not check.
\<close>

inductive shr_reach ::
    "(u32 \<Rightarrow> nat) \<Rightarrow> 'w shr_res \<Rightarrow> ('w \<Rightarrow> (res_key \<Rightarrow> nat) \<Rightarrow> bool) \<Rightarrow> shr_htable \<Rightarrow> shr_procs \<Rightarrow> 'w \<Rightarrow> bool"
  for hm res held where
  sh_start: "held w (\<lambda>_. 0) \<Longrightarrow> shr_reach hm res held shr_id_node_init (\<lambda>_. []) w"
| sh_open: "shr_reach hm res held t pt w \<Longrightarrow> tgid \<noteq> 0 \<Longrightarrow> shr_id_file_open hm found intr mem tgid start pt = (ret, ctx, pt') \<Longrightarrow>
    shr_reach hm res held t pt' w"
| sh_ioctl: "shr_reach hm res held t pt w \<Longrightarrow> shr_id_find_proc hm pt p = Some c \<Longrightarrow> (\<forall>k. int (refs (nodes hm t) k) < INT_MAX - 1) \<Longrightarrow>
    se_tgid env \<noteq> 0 \<Longrightarrow> (\<forall>io. arg = Some io \<longrightarrow> length (io_name (ioctl_arg call io)) = SHR_ID_NSM_NAME_SIZE) \<Longrightarrow>
    shr_id_file_ioctl hm res env call (Some c) cmd arg t w = Some (ret, Some c', arg', t', w') \<Longrightarrow>
    shr_reach hm res held t' (shr_id_proc_store hm c' pt) w'"
| sh_release: "shr_reach hm res held t pt w \<Longrightarrow> shr_id_find_proc hm pt p = Some c \<Longrightarrow>
    shr_id_file_release hm res (Some p) pt t w = Some (ret, pt', t', w') \<Longrightarrow> shr_reach hm res held t' pt' w'"
| sh_belong: "shr_reach hm res held t pt w \<Longrightarrow> shr_id_is_belong_to_proc hm res inst p rty i pt t w = Some (b, pt', t', w') \<Longrightarrow>
    shr_reach hm res held t' pt' w'"
| sh_env: "shr_reach hm res held t pt w \<Longrightarrow> (\<forall>g. held w g \<longrightarrow> held w' g) \<Longrightarrow> shr_reach hm res held t pt w'"

lemma sys_link:
  assumes "sys_inv hm held t pt w" "shr_id_find_proc hm pt p = Some c"
  shows "ctx_link (nodes hm t) c" "sc_pid c = p" "p \<noteq> 0" "sc_ref c = 1"
  using assms find_proc_pid [OF assms(2)] ctx_linkD(2) by (fastforce simp: sys_inv_def ctx_link_def ctx_ok_def)+

text \<open>A step of one process keeps the state of the module; \<open>v\<close> is its context afterwards.\<close>

lemma sys_step:
  assumes inv: "sys_inv hm held t pt w" and c: "shr_id_find_proc hm pt p = Some c"
    and s: "shr_inv hm held t' w'" "others p (nodes hm t) (nodes hm t')" "ctxs_ok hm pt'"
      "shr_id_find_proc hm pt' = (shr_id_find_proc hm pt)(p := v)"
    and v: "case v of None \<Rightarrow> \<forall>k. nopen (nodes hm t') p k = 0 \<and> creator (nodes hm t') k \<noteq> p
      | Some d \<Rightarrow> ctx_link (nodes hm t') d"
  shows "sys_inv hm held t' pt' w'"
  unfolding sys_inv_def
proof (intro conjI allI impI s)
  fix q d assume q: "shr_id_find_proc hm pt' q = Some d"
  show "ctx_link (nodes hm t') d"
  proof (cases "q = p")
    case True
    then show ?thesis using q s(4) v by simp
  next
    case False
    then have d: "shr_id_find_proc hm pt q = Some d" using q s(4) by simp
    note L = sys_link [OF inv d]
    show ?thesis by (rule ctx_link_same [OF L(1)]) (use s(2) L(2,3) False in \<open>auto simp: others_def\<close>)
  qed
next
  fix q k assume q: "q \<noteq> 0" "shr_id_find_proc hm pt' q = None"
  then have "nopen (nodes hm t') q k = 0 \<and> creator (nodes hm t') k \<noteq> q"
  proof (cases "q = p")
    case True
    then show ?thesis using q s(4) v by (auto split: option.splits)
  next
    case False
    then have "shr_id_find_proc hm pt q = None" using q s(4) by simp
    then show ?thesis using inv s(2) q(1) False by (auto simp: sys_inv_def others_def)
  qed
  then show "nopen (nodes hm t') q k = 0" "creator (nodes hm t') k \<noteq> q" by blast+
qed

lemma nodes_init: "nodes hm shr_id_node_init = Map.empty"
  by (auto simp: nodes_def shr_id_node_init_def fun_eq_iff)

lemma belong_same:
  assumes inv: "sys_inv hm held t pt w"
  shows "\<exists>b pt'. shr_id_is_belong_to_proc hm res inst p rty i pt t w = Some (b, pt', t, w) \<and> ctxs_ok hm pt' \<and>
    shr_id_find_proc hm pt' = shr_id_find_proc hm pt \<and>
    (b \<longleftrightarrow> (\<exists>c. shr_id_find_proc hm pt p = Some c \<and> (\<exists>e \<in> set (sc_open_list c) \<union> set (sc_create_list c). pnode_is inst rty i e)))"
proof (cases "shr_id_find_proc hm pt p")
  case None
  then show ?thesis using inv
    by (intro exI [of _ False] exI [of _ pt]) (simp add: shr_id_is_belong_to_proc_def shr_id_proc_get_def sys_inv_def)
next
  case (Some c)
  note L = sys_link [OF inv Some]
  let ?c = "c\<lparr>sc_ref := sc_ref c + 1\<rparr>"
  have ok: "ctxs_ok hm pt" using inv by (simp add: sys_inv_def)
  have p1: "ctxs_ok hm (shr_id_proc_store hm ?c pt)" "shr_id_find_proc hm (shr_id_proc_store hm ?c pt) = (shr_id_find_proc hm pt)(p \<mapsto> ?c)"
    using store_procs [OF ok, of ?c] Some L(2) by simp_all
  let ?pt = "shr_id_proc_store hm (?c\<lparr>sc_ref := sc_ref ?c - 1\<rparr>) (shr_id_proc_store hm ?c pt)"
  have p2: "ctxs_ok hm ?pt" "shr_id_find_proc hm ?pt = shr_id_find_proc hm pt"
    using store_procs [OF p1(1), of "?c\<lparr>sc_ref := sc_ref ?c - 1\<rparr>"] p1(2) Some L(2) by (auto simp: fun_upd_idem)
  have g: "shr_id_proc_get hm pt p = (Some ?c, shr_id_proc_store hm ?c pt)" using Some L(4) by (simp add: shr_id_proc_get_def Let_def)
  have "shr_id_proc_put hm res p (shr_id_proc_store hm ?c pt) t w = Some (?pt, t, w)"
    using p1(2) L(4) by (simp add: shr_id_proc_put_def Let_def)
  then have "shr_id_is_belong_to_proc hm res inst p rty i pt t w =
      Some (list_ex (pnode_is inst rty i) (sc_open_list c) \<or> list_ex (pnode_is inst rty i) (sc_create_list c), ?pt, t, w)"
    using g by (simp add: shr_id_is_belong_to_proc_def)
  then show ?thesis using p2 Some by (auto simp: list_ex_iff)
qed

context id_refs
begin

lemma release_sys:
  assumes inv: "sys_inv hm held t pt w" and c: "shr_id_find_proc hm pt p = Some c"
  shows "\<exists>pt' t' w'. shr_id_file_release hm res (Some p) pt t w = Some (0, pt', t', w') \<and> sys_inv hm held t' pt' w' \<and>
    shr_id_find_proc hm pt' = (shr_id_find_proc hm pt)(p := None) \<and> others p (nodes hm t) (nodes hm t') \<and>
    (\<forall>k. nopen (nodes hm t') p k = 0 \<and> creator (nodes hm t') k \<noteq> p)"
proof -
  note L = sys_link [OF inv c]
  let ?c = "c\<lparr>sc_ref := sc_ref c - 1\<rparr>"
  have I: "shr_inv hm held t w" "ctxs_ok hm pt" using inv by (simp_all add: sys_inv_def)
  obtain c' t' w' where r: "shr_id_node_recycle hm res ?c t w = Some (c', t', w')" "shr_inv hm held t' w'" "sc_pid c' = p"
    "others p (nodes hm t) (nodes hm t')" "\<forall>k. nopen (nodes hm t') p k = 0 \<and> creator (nodes hm t') k \<noteq> p"
    using recycle_links [OF I(1) L(1), of "sc_ref c - 1"] L(2) by auto
  let ?pt = "shr_id_proc_del0 hm pt c'"
  have D: "ctxs_ok hm ?pt" "shr_id_find_proc hm ?pt = (shr_id_find_proc hm pt)(p := None)"
    using del_procs [OF I(2), of c'] r(3) by simp_all
  have "shr_id_file_release hm res (Some p) pt t w = Some (0, ?pt, t', w')"
    using c r(1) L(4) by (simp add: shr_id_file_release_def shr_id_proc_del_def shr_id_proc_put_def shr_id_proc_release_def)
  moreover have "sys_inv hm held t' ?pt w'"
    by (rule sys_step [OF inv c r(2,4) D(1,2)]) (use r(5) in simp)
  ultimately show ?thesis using D(2) r(4,5) by blast
qed

lemma reach_sys: "shr_reach hm res held t pt w \<Longrightarrow> sys_inv hm held t pt w"
proof (induction rule: shr_reach.induct)
  case (sh_start w)
  have "refs Map.empty = (\<lambda>_. 0)" by (simp add: refs_def fun_eq_iff)
  then show ?case using sh_start
    by (auto simp: sys_inv_def shr_inv_def table_ok_def nodes_init ctxs_ok_def shr_id_find_proc_def nopen_def creator_def)
      (simp add: shr_id_node_init_def)+
next
  case (sh_open t pt w tgid found intr mem start ret ctx pt')
  show ?case
  proof (cases "pt' = pt")
    case False
    then obtain c where c: "shr_id_proc_create mem tgid start = Some c" "shr_id_proc_add hm pt c = (0, pt')"
      using sh_open.hyps(3) by (auto simp: shr_id_file_open_def shr_id_proc_add_def Let_def split: if_splits option.splits)
    then have new: "sc_pid c = tgid" "sc_create_list c = []" "sc_open_list c = []" "sc_ref c = 1"
      by (auto simp: shr_id_proc_create_def split: if_splits)
    have A: "ctxs_ok hm pt'" "shr_id_find_proc hm pt tgid = None" "shr_id_find_proc hm pt' = (shr_id_find_proc hm pt)(tgid \<mapsto> c)"
      using add_procs [OF _ c(2)] sh_open.IH new(1) by (simp_all add: sys_inv_def)
    then have "ctx_link (nodes hm t) c" using sh_open.IH sh_open.hyps(2) new by (auto simp: sys_inv_def ctx_link_def ctx_ok_def lref_def)
    then show ?thesis using A sh_open.IH by (auto simp: sys_inv_def)
  qed (use sh_open.IH in simp)
next
  case (sh_ioctl t pt w p c arg env call cmd ret c' arg' t' w')
  note L = sys_link [OF sh_ioctl.IH sh_ioctl.hyps(2)]
  have I: "shr_inv hm held t w" "ctxs_ok hm pt" using sh_ioctl.IH by (simp_all add: sys_inv_def)
  have s: "step_ok hm held t c t' w' c'" using ioctl_step [OF I(1) L(1) sh_ioctl.hyps(3,4,5,6)] by simp
  then have S: "shr_inv hm held t' w'" "others p (nodes hm t) (nodes hm t')" "ctx_link (nodes hm t') c'" "sc_pid c' = p"
    using L(2) by (simp_all add: step_ok_def)
  have P: "ctxs_ok hm (shr_id_proc_store hm c' pt)" "shr_id_find_proc hm (shr_id_proc_store hm c' pt) = (shr_id_find_proc hm pt)(p := Some c')"
    using store_procs [OF I(2), of c'] S(4) sh_ioctl.hyps(2) by simp_all
  show ?case by (rule sys_step [OF sh_ioctl.IH sh_ioctl.hyps(2) S(1,2) P]) (use S(3) in simp)
next
  case (sh_release t pt w p c ret pt' t' w')
  then show ?case using release_sys [OF sh_release.IH sh_release.hyps(2)] by auto
next
  case (sh_belong t pt w inst p rty i b pt' t' w')
  obtain b0 pt0 where "shr_id_is_belong_to_proc hm res inst p rty i pt t w = Some (b0, pt0, t, w)" "ctxs_ok hm pt0"
    "shr_id_find_proc hm pt0 = shr_id_find_proc hm pt"
    using belong_same [OF sh_belong.IH, of res inst p rty i] by blast
  then show ?case using sh_belong by (auto simp: sys_inv_def)
next
  case (sh_env t pt w w')
  then show ?case by (simp add: sys_inv_def shr_inv_def)
qed

end

end
