(* ===== verification/Id_Pool.thy ===== *)
theory Id_Pool
  imports Prelude
begin

text \<open>
  The physical id pools of the task resource scheduler, \<^verbatim>\<open>rms/trs_drv/id_pool/id_pool.c\<close>:
  one pool per (device, sub-device, id type), each a red-black tree of disjoint id ranges, each
  range with an \<^verbatim>\<open>idr\<close> of the ids handed out.

  The global array \<^verbatim>\<open>g_id_pool\<close> is a map from (devid, sub id, type) to pools; the functions of the
  file are functions on that map. Locks are not modelled: every operation runs under
  \<^verbatim>\<open>pool->mutex\<close> and is one step. A pointer argument the code compares with NULL is an option;
  an output pointer is a flag that says whether it is not NULL. A \<^verbatim>\<open>kzalloc\<close> result is a boolean
  argument (False is NULL). A call that would dereference NULL has the result \<open>None\<close>.
\<close>

section \<open>Data\<close>

abbreviation (input) MAX_ID_POOL_DEVID :: u32 where "MAX_ID_POOL_DEVID \<equiv> 4"
abbreviation (input) MAX_ID_POOL_SUB_ID :: u32 where "MAX_ID_POOL_SUB_ID \<equiv> 2"
abbreviation (input) MAX_ID_POOL_TYPE :: int where "MAX_ID_POOL_TYPE \<equiv> TRS_ID_TYPE_MAX"
abbreviation (input) MAX_ID_POOL_NUM :: u16 where "MAX_ID_POOL_NUM \<equiv> 32"

record id_pool_node =
  pn_idr :: "u32 set"
  pn_node_tunable :: bool
  pn_id_start :: u32
  pn_id_avail_num :: u32
  pn_id_total_num :: u32

record id_pool =
  ip_phy_devid :: u32
  ip_sub_id :: u32
  ip_type :: int
  ip_root :: "id_pool_node tree"
  ip_pool_num :: u16
  ip_id_total_num :: u32

record id_pool_inst =
  inst_phy_devid :: u32
  inst_sub_id :: u32

record id_pool_attr =
  ia_node_tunable :: u32
  ia_id_start :: u32
  ia_id_total_num :: u32

text \<open>The index of \<^verbatim>\<open>g_id_pool[devid][sub_id][type]\<close>.\<close>

datatype id_pool_idx = IdPoolIdx u32 u32 int

type_synonym id_pools = "id_pool_idx \<rightharpoonup> id_pool"

definition id_pool_inst_pack :: "u32 \<Rightarrow> u32 \<Rightarrow> id_pool_inst" where
  "id_pool_inst_pack devid sub_id = \<lparr>inst_phy_devid = devid, inst_sub_id = sub_id\<rparr>"

definition id_pool_attr_pack :: "bool \<Rightarrow> u32 \<Rightarrow> u32 \<Rightarrow> id_pool_attr" where
  "id_pool_attr_pack tunable id_start id_total_num =
     \<lparr>ia_node_tunable = (if tunable then 1 else 0), ia_id_start = id_start,
      ia_id_total_num = id_total_num\<rparr>"

definition id_pool_key :: "id_pool_inst \<Rightarrow> int \<Rightarrow> id_pool_idx" where
  "id_pool_key inst ty = IdPoolIdx (inst_phy_devid inst) (inst_sub_id inst) ty"

text \<open>The end of a range, computed in \<^verbatim>\<open>u32\<close> arithmetic as the code does.\<close>

definition pn_end :: "id_pool_node \<Rightarrow> u32" where
  "pn_end n = pn_id_start n + pn_id_total_num n"

section \<open>Pools and nodes\<close>

definition id_pool_create :: "bool \<Rightarrow> u32 \<Rightarrow> u32 \<Rightarrow> int \<Rightarrow> id_pool option" where
  "id_pool_create mem phy_devid sub_id ty =
     (if \<not> mem then None
      else Some \<lparr>ip_phy_devid = phy_devid, ip_sub_id = sub_id, ip_type = ty, ip_root = Leaf,
                 ip_pool_num = 0, ip_id_total_num = 0\<rparr>)"

text \<open>The descent of \<^verbatim>\<open>id_pool_node_add\<close> with \<^verbatim>\<open>rb_link_node\<close>; \<open>None\<close> is an overlapping range.\<close>

fun id_pool_node_link :: "id_pool_node \<Rightarrow> id_pool_node tree \<Rightarrow> id_pool_node tree option" where
  "id_pool_node_link n Leaf = Some (Node Leaf n Leaf)"
| "id_pool_node_link n (Node l e r) =
     (if pn_end n \<le> pn_id_start e then map_option (\<lambda>l'. Node l' e r) (id_pool_node_link n l)
      else if pn_id_start n \<ge> pn_end e then map_option (\<lambda>r'. Node l e r') (id_pool_node_link n r)
      else None)"

definition id_pool_node_add ::
    "id_pool_node rb_ops \<Rightarrow> id_pool \<Rightarrow> id_pool_node \<Rightarrow> int \<times> id_pool" where
  "id_pool_node_add rb pool n =
     (let id_total_num = ip_id_total_num pool + pn_id_total_num n in
      if ip_pool_num pool \<ge> MAX_ID_POOL_NUM then (- EBUSY, pool)
      else if id_total_num < ip_id_total_num pool then (- EFAULT, pool)
      else case id_pool_node_link n (ip_root pool) of
        None \<Rightarrow> (- ENODEV, pool)
      | Some t \<Rightarrow> (0, pool\<lparr>ip_root := rb_insert_color rb t,
                         ip_pool_num := ip_pool_num pool + 1,
                         ip_id_total_num := ip_id_total_num pool + pn_id_total_num n\<rparr>))"

definition id_pool_node_del :: "id_pool_node rb_ops \<Rightarrow> id_pool \<Rightarrow> id_pool_node \<Rightarrow> id_pool" where
  "id_pool_node_del rb pool n =
     pool\<lparr>ip_root := rb_erase rb n (ip_root pool), ip_pool_num := ip_pool_num pool - 1,
          ip_id_total_num := ip_id_total_num pool - pn_id_total_num n\<rparr>"

definition idr_release :: "u32 \<Rightarrow> id_pool_node \<Rightarrow> id_pool_node" where
  "idr_release i n = n\<lparr>pn_idr := pn_idr n - {i}, pn_id_avail_num := pn_id_avail_num n + 1\<rparr>"

text \<open>The loop of \<^verbatim>\<open>id_pool_node_destroy\<close>: what the node holds when its \<^verbatim>\<open>idr\<close> is destroyed.\<close>

function id_pool_node_destroy :: "u32 \<Rightarrow> u32 \<Rightarrow> id_pool_node \<Rightarrow> id_pool_node" where
  "id_pool_node_destroy i stop n =
     (if i < stop
      then id_pool_node_destroy (i + 1) stop (if i \<in> pn_idr n then idr_release i n else n)
      else n)"
  by pat_completeness auto
termination
proof (relation "measure (\<lambda>(i, stop, n). unat stop - unat i)")
  fix i stop :: u32 and n :: id_pool_node
  assume "i < stop"
  then show "((i + 1, stop, if i \<in> pn_idr n then idr_release i n else n), i, stop, n)
      \<in> measure (\<lambda>(i, stop, n). unat stop - unat i)"
    using unat_Suc_less [of i stop] by (simp add: word_less_nat_alt)
qed simp

declare id_pool_node_destroy.simps [simp del]

text \<open>
  \<^verbatim>\<open>id_pool_node_destroy_all\<close>: erases the first node until the tree is empty. That the loop ends
  depends on \<^verbatim>\<open>rb_erase\<close>, so the result is an option.
\<close>

partial_function (option) id_pool_node_destroy_all ::
    "id_pool_node rb_ops \<Rightarrow> id_pool \<Rightarrow> id_pool option" where
  "id_pool_node_destroy_all rb pool =
     (case inorder (ip_root pool) of
        [] \<Rightarrow> Some pool
      | n # _ \<Rightarrow> id_pool_node_destroy_all rb (id_pool_node_del rb pool n))"

definition id_pool_init :: "bool \<Rightarrow> id_pools \<Rightarrow> id_pool_inst \<Rightarrow> int \<Rightarrow> id_pool option \<times> id_pools" where
  "id_pool_init mem g inst ty =
     (case g (id_pool_key inst ty) of
        Some pool \<Rightarrow> (Some pool, g)
      | None \<Rightarrow>
          (let pool = id_pool_create mem (inst_phy_devid inst) (inst_sub_id inst) ty
           in (pool, g(id_pool_key inst ty := pool))))"

definition id_pool_uninit :: "id_pool_node rb_ops \<Rightarrow> id_pools \<Rightarrow> id_pool_inst \<Rightarrow> int \<Rightarrow> id_pools option" where
  "id_pool_uninit rb g inst ty =
     (let pool = g (id_pool_key inst ty); g' = g(id_pool_key inst ty := None) in
      case pool of
        None \<Rightarrow> Some g'
      | Some p \<Rightarrow> map_option (\<lambda>_. g') (id_pool_node_destroy_all rb p))"

definition id_pool_get :: "id_pools \<Rightarrow> id_pool_inst \<Rightarrow> int \<Rightarrow> id_pool option" where
  "id_pool_get g inst ty = g (id_pool_key inst ty)"

definition id_pool_node_create :: "bool \<Rightarrow> id_pool_attr \<Rightarrow> id_pool_node option" where
  "id_pool_node_create mem attr =
     (if \<not> mem then None
      else Some \<lparr>pn_idr = {}, pn_node_tunable = (ia_node_tunable attr \<noteq> 0),
                 pn_id_start = ia_id_start attr, pn_id_avail_num = ia_id_total_num attr,
                 pn_id_total_num = ia_id_total_num attr\<rparr>)"

fun id_pool_node_find_by_id :: "id_pool_node tree \<Rightarrow> u32 \<Rightarrow> id_pool_node option" where
  "id_pool_node_find_by_id Leaf i = None"
| "id_pool_node_find_by_id (Node l n r) i =
     (if i < pn_id_start n then id_pool_node_find_by_id l i
      else if i \<ge> pn_end n then id_pool_node_find_by_id r i
      else Some n)"

definition id_pool_node_find_by_range :: "id_pool \<Rightarrow> u32 \<Rightarrow> u32 \<Rightarrow> id_pool_node option" where
  "id_pool_node_find_by_range pool start total_num =
     List.find (\<lambda>n. pn_id_start n = start \<and> pn_id_total_num n = total_num) (inorder (ip_root pool))"

definition id_pool_attr_check :: "id_pool_attr option \<Rightarrow> int" where
  "id_pool_attr_check attr =
     (case attr of
        None \<Rightarrow> - EINVAL
      | Some a \<Rightarrow>
          if ia_id_total_num a = 0 \<or> ia_id_start a + ia_id_total_num a < ia_id_start a
          then - ENODEV else 0)"

definition id_pool_inst_check :: "id_pool_inst option \<Rightarrow> int \<Rightarrow> int" where
  "id_pool_inst_check inst ty =
     (case inst of
        None \<Rightarrow> - EINVAL
      | Some i \<Rightarrow>
          if inst_phy_devid i \<ge> MAX_ID_POOL_DEVID \<or> inst_sub_id i \<ge> MAX_ID_POOL_SUB_ID \<or>
             ty \<ge> MAX_ID_POOL_TYPE \<or> ty < 0
          then - ENODEV else 0)"

section \<open>Registration\<close>

definition id_pool_register ::
    "id_pool_node rb_ops \<Rightarrow> bool \<Rightarrow> bool \<Rightarrow> id_pools \<Rightarrow> id_pool_inst option \<Rightarrow> int \<Rightarrow>
     id_pool_attr option \<Rightarrow> int \<times> id_pools" where
  "id_pool_register rb pool_mem node_mem g inst ty attr =
     (let ret = id_pool_inst_check inst ty in
      if ret \<noteq> 0 then (ret, g)
      else let ret = id_pool_attr_check attr in
      if ret \<noteq> 0 then (ret, g)
      else case id_pool_init pool_mem g (the inst) ty of
        (None, g') \<Rightarrow> (- ENOMEM, g')
      | (Some pool, g') \<Rightarrow>
          (case id_pool_node_create node_mem (the attr) of
             None \<Rightarrow> (- ENOMEM, g')
           | Some n \<Rightarrow>
               (let (ret, pool') = id_pool_node_add rb pool n
                in (ret, g'(id_pool_key (the inst) ty \<mapsto> pool')))))"

definition id_pool_unregister ::
    "id_pool_node rb_ops \<Rightarrow> id_pools \<Rightarrow> id_pool_inst option \<Rightarrow> int \<Rightarrow> id_pool_attr option \<Rightarrow> id_pools" where
  "id_pool_unregister rb g inst ty attr =
     (if id_pool_inst_check inst ty \<noteq> 0 then g
      else if id_pool_attr_check attr \<noteq> 0 then g
      else case id_pool_get g (the inst) ty of
        None \<Rightarrow> g
      | Some pool \<Rightarrow>
          (case id_pool_node_find_by_range pool (ia_id_start (the attr)) (ia_id_total_num (the attr)) of
             None \<Rightarrow> g
           | Some n \<Rightarrow> g(id_pool_key (the inst) ty \<mapsto> id_pool_node_del rb pool n)))"

section \<open>Allocation and release inside one pool\<close>

definition idr_take :: "u32 \<Rightarrow> id_pool_node \<Rightarrow> id_pool_node" where
  "idr_take i n = n\<lparr>pn_idr := insert i (pn_idr n), pn_id_avail_num := pn_id_avail_num n - 1\<rparr>"

text \<open>Writing through the pointer to one node of the tree.\<close>

definition id_pool_set_node :: "id_pool_node \<Rightarrow> id_pool_node \<Rightarrow> id_pool \<Rightarrow> id_pool" where
  "id_pool_set_node n n' pool =
     pool\<lparr>ip_root := map_tree (\<lambda>m. if m = n then n' else m) (ip_root pool)\<rparr>"

fun id_pool_alloc_scan :: "idr_alloc \<Rightarrow> id_pool_node list \<Rightarrow> (u32 \<times> id_pool_node) option" where
  "id_pool_alloc_scan ida [] = None"
| "id_pool_alloc_scan ida (n # ns) =
     (let tmp_id = ida (pn_idr n) (sint (pn_id_start n)) (sint (pn_end n)) in
      if tmp_id < 0 then id_pool_alloc_scan ida ns else Some (word_of_int tmp_id, n))"

definition id_pool_alloc0 :: "idr_alloc \<Rightarrow> id_pool \<Rightarrow> int \<times> u32 option \<times> id_pool" where
  "id_pool_alloc0 ida pool =
     (case id_pool_alloc_scan ida (inorder (ip_root pool)) of
        None \<Rightarrow> (- ENOSPC, None, pool)
      | Some (i, n) \<Rightarrow> (0, Some i, id_pool_set_node n (idr_take i n) pool))"

definition id_pool_free0 :: "id_pool \<Rightarrow> u32 \<Rightarrow> int \<times> id_pool" where
  "id_pool_free0 pool i =
     (case id_pool_node_find_by_id (ip_root pool) i of
        None \<Rightarrow> (- ENODEV, pool)
      | Some n \<Rightarrow>
          if i \<notin> pn_idr n then (- EFAULT, pool)
          else (0, id_pool_set_node n (idr_release i n) pool))"

fun id_pool_range_scan ::
    "idr_alloc \<Rightarrow> u32 \<Rightarrow> u32 \<Rightarrow> id_pool_node list \<Rightarrow> (u32 \<times> id_pool_node) option" where
  "id_pool_range_scan ida start stop [] = None"
| "id_pool_range_scan ida start stop (n # ns) =
     (if start \<ge> pn_end n \<or> stop \<le> pn_id_start n then id_pool_range_scan ida start stop ns
      else let real_start = max start (pn_id_start n); real_end = min stop (pn_end n);
               tmp_id = ida (pn_idr n) (sint real_start) (sint real_end) in
      if tmp_id < 0 then id_pool_range_scan ida start stop ns else Some (word_of_int tmp_id, n))"

definition id_pool_alloc_range0 ::
    "idr_alloc \<Rightarrow> id_pool \<Rightarrow> u32 \<Rightarrow> u32 \<Rightarrow> int \<times> u32 option \<times> id_pool" where
  "id_pool_alloc_range0 ida pool start stop =
     (case id_pool_range_scan ida start stop (inorder (ip_root pool)) of
        None \<Rightarrow> (- ENOSPC, None, pool)
      | Some (i, n) \<Rightarrow> (0, Some i, id_pool_set_node n (idr_take i n) pool))"

section \<open>Queries inside one pool\<close>

definition id_pool_avail_num0 :: "id_pool \<Rightarrow> u32" where
  "id_pool_avail_num0 pool = fold (\<lambda>n acc. acc + pn_id_avail_num n) (inorder (ip_root pool)) 0"

definition id_pool_total_num0 :: "id_pool \<Rightarrow> u32" where
  "id_pool_total_num0 pool = fold (\<lambda>n acc. acc + pn_id_total_num n) (inorder (ip_root pool)) 0"

definition id_pool_range0 :: "id_pool \<Rightarrow> u32 \<times> u32" where
  "id_pool_range0 pool =
     fold (\<lambda>n (s, e). (min s (pn_id_start n), max e (pn_end n))) (inorder (ip_root pool)) (0xFFFFFFFF, 0)"

definition id_pool_total_num_by_range0 :: "id_pool \<Rightarrow> u32 \<Rightarrow> u32 \<Rightarrow> u32" where
  "id_pool_total_num_by_range0 pool start stop =
     fold (\<lambda>n acc. if start < pn_end n \<and> stop > pn_id_start n
                   then acc + (min stop (pn_end n) - max start (pn_id_start n)) else acc)
       (inorder (ip_root pool)) 0"

definition id_pool_tunable_range_by_range0 :: "id_pool \<Rightarrow> u32 \<Rightarrow> u32 \<Rightarrow> u32 \<times> u32" where
  "id_pool_tunable_range_by_range0 pool start stop =
     (case List.find (\<lambda>n. pn_id_start n \<ge> start \<and> pn_end n \<le> stop \<and> pn_node_tunable n)
             (inorder (ip_root pool)) of
        None \<Rightarrow> (start, stop)
      | Some n \<Rightarrow> (pn_id_start n, pn_end n))"

section \<open>Exported operations\<close>

text \<open>
  \<^verbatim>\<open>id_pool_alloc_by_range\<close> logs \<^verbatim>\<open>inst->phy_devid\<close> on its first two error paths, before
  \<^verbatim>\<open>id_pool_inst_check\<close> has compared \<^verbatim>\<open>inst\<close> with NULL.
\<close>

definition id_pool_alloc_by_range ::
    "idr_alloc \<Rightarrow> id_pools \<Rightarrow> id_pool_inst option \<Rightarrow> int \<Rightarrow> u32 \<Rightarrow> u32 \<Rightarrow> bool \<Rightarrow>
     (int \<times> u32 option \<times> id_pools) option" where
  "id_pool_alloc_by_range ida g inst ty start stop id_ptr =
     (if \<not> id_ptr then (case inst of None \<Rightarrow> None | Some _ \<Rightarrow> Some (- EINVAL, None, g))
      else if start \<ge> stop then (case inst of None \<Rightarrow> None | Some _ \<Rightarrow> Some (- EFAULT, None, g))
      else let ret = id_pool_inst_check inst ty in
      if ret \<noteq> 0 then Some (ret, None, g)
      else case id_pool_get g (the inst) ty of
        None \<Rightarrow> Some (- ENXIO, None, g)
      | Some pool \<Rightarrow>
          (case id_pool_alloc_range0 ida pool start stop of
             (ret, i, pool') \<Rightarrow> Some (ret, i, g(id_pool_key (the inst) ty \<mapsto> pool'))))"

definition id_pool_alloc ::
    "idr_alloc \<Rightarrow> id_pools \<Rightarrow> id_pool_inst option \<Rightarrow> int \<Rightarrow> bool \<Rightarrow> int \<times> u32 option \<times> id_pools" where
  "id_pool_alloc ida g inst ty id_ptr =
     (if \<not> id_ptr then (- EINVAL, None, g)
      else let ret = id_pool_inst_check inst ty in
      if ret \<noteq> 0 then (ret, None, g)
      else case id_pool_get g (the inst) ty of
        None \<Rightarrow> (- ENXIO, None, g)
      | Some pool \<Rightarrow>
          (case id_pool_alloc0 ida pool of
             (ret, i, pool') \<Rightarrow> (ret, i, g(id_pool_key (the inst) ty \<mapsto> pool'))))"

definition id_pool_free :: "id_pools \<Rightarrow> id_pool_inst option \<Rightarrow> int \<Rightarrow> u32 \<Rightarrow> id_pools" where
  "id_pool_free g inst ty i =
     (if id_pool_inst_check inst ty \<noteq> 0 then g
      else case id_pool_get g (the inst) ty of
        None \<Rightarrow> g
      | Some pool \<Rightarrow> g(id_pool_key (the inst) ty \<mapsto> snd (id_pool_free0 pool i)))"

definition id_pool_get_total_num :: "id_pools \<Rightarrow> id_pool_inst option \<Rightarrow> int \<Rightarrow> bool \<Rightarrow> int \<times> u32 option" where
  "id_pool_get_total_num g inst ty ptr =
     (if \<not> ptr then (- EINVAL, None)
      else if id_pool_inst_check inst ty \<noteq> 0 then (- EFAULT, None)
      else case id_pool_get g (the inst) ty of
        None \<Rightarrow> (- ENXIO, None)
      | Some pool \<Rightarrow> (0, Some (id_pool_total_num0 pool)))"

definition id_pool_get_range :: "id_pools \<Rightarrow> id_pool_inst option \<Rightarrow> int \<Rightarrow> int \<times> (u32 \<times> u32) option" where
  "id_pool_get_range g inst ty =
     (if id_pool_inst_check inst ty \<noteq> 0 then (- EFAULT, None)
      else case id_pool_get g (the inst) ty of
        None \<Rightarrow> (- ENXIO, None)
      | Some pool \<Rightarrow> (0, Some (id_pool_range0 pool)))"

definition id_pool_get_total_num_by_range ::
    "id_pools \<Rightarrow> id_pool_inst option \<Rightarrow> int \<Rightarrow> u32 \<Rightarrow> u32 \<Rightarrow> bool \<Rightarrow> int \<times> u32 option" where
  "id_pool_get_total_num_by_range g inst ty start stop ptr =
     (if id_pool_inst_check inst ty \<noteq> 0 then (- EFAULT, None)
      else case id_pool_get g (the inst) ty of
        None \<Rightarrow> (- ENXIO, None)
      | Some pool \<Rightarrow> (0, if ptr then Some (id_pool_total_num_by_range0 pool start stop) else None))"

definition id_pool_get_tunable_range_by_range ::
    "id_pools \<Rightarrow> id_pool_inst option \<Rightarrow> int \<Rightarrow> u32 \<Rightarrow> u32 \<Rightarrow> int \<times> u32 \<times> u32" where
  "id_pool_get_tunable_range_by_range g inst ty start stop =
     (if id_pool_inst_check inst ty \<noteq> 0 then (- EFAULT, start, stop)
      else case id_pool_get g (the inst) ty of
        None \<Rightarrow> (- ENXIO, start, stop)
      | Some pool \<Rightarrow> (0, id_pool_tunable_range_by_range0 pool start stop))"

definition id_pool_get_avail_num :: "id_pools \<Rightarrow> id_pool_inst option \<Rightarrow> int \<Rightarrow> bool \<Rightarrow> int \<times> u32 option" where
  "id_pool_get_avail_num g inst ty ptr =
     (if \<not> ptr then (- EINVAL, None)
      else if id_pool_inst_check inst ty \<noteq> 0 then (- EFAULT, None)
      else case id_pool_get g (the inst) ty of
        None \<Rightarrow> (- ENXIO, None)
      | Some pool \<Rightarrow> (0, Some (id_pool_avail_num0 pool)))"

text \<open>The index triples the module's start and exit loops visit, in the code's order.\<close>

definition id_pool_all_keys :: "id_pool_idx list" where
  "id_pool_all_keys =
     concat (map (\<lambda>d. concat (map (\<lambda>s. map (\<lambda>t. IdPoolIdx d s t) [0 .. 18]) [0, 1])) [0, 1, 2, 3])"

fun id_pool_exit_loop :: "id_pool_node rb_ops \<Rightarrow> id_pool_idx list \<Rightarrow> id_pools \<Rightarrow> id_pools option" where
  "id_pool_exit_loop rb [] g = Some g"
| "id_pool_exit_loop rb (IdPoolIdx d s t # ks) g =
     (case id_pool_uninit rb g (id_pool_inst_pack d s) t of
        None \<Rightarrow> None | Some g' \<Rightarrow> id_pool_exit_loop rb ks g')"

definition id_pool_exit_all :: "id_pool_node rb_ops \<Rightarrow> id_pools \<Rightarrow> id_pools option" where
  "id_pool_exit_all rb g = id_pool_exit_loop rb id_pool_all_keys g"

definition id_pool_clear :: "id_pool_idx \<Rightarrow> id_pools \<Rightarrow> id_pools" where
  "id_pool_clear k g = g(k := None)"

definition id_pool_init_all :: "id_pools \<Rightarrow> id_pools" where
  "id_pool_init_all g = fold id_pool_clear id_pool_all_keys g"

section \<open>Invariant and abstraction\<close>

text \<open>
  A node is well formed when its range is not empty and does not wrap, its \<^verbatim>\<open>idr\<close> holds only ids
  of the range, and \<^verbatim>\<open>id_avail_num\<close> counts the ids that are not in the \<^verbatim>\<open>idr\<close>. The nodes of a
  pool are in order and disjoint, at most 32, and the two counters of the pool agree with them.
\<close>

definition pn_ok :: "id_pool_node \<Rightarrow> bool" where
  "pn_ok n \<longleftrightarrow> pn_id_total_num n \<noteq> 0 \<and> pn_id_start n < pn_end n \<and>
     pn_idr n \<subseteq> {pn_id_start n ..< pn_end n} \<and>
     unat (pn_id_avail_num n) + card (pn_idr n) = unat (pn_id_total_num n)"

definition nodes_ok :: "id_pool_node list \<Rightarrow> bool" where
  "nodes_ok ns \<longleftrightarrow> sorted_wrt (\<lambda>a b. pn_end a \<le> pn_id_start b) ns \<and> (\<forall>n \<in> set ns. pn_ok n)"

definition id_pool_inv :: "id_pool \<Rightarrow> bool" where
  "id_pool_inv p \<longleftrightarrow> nodes_ok (inorder (ip_root p)) \<and>
     unat (ip_pool_num p) = length (inorder (ip_root p)) \<and>
     length (inorder (ip_root p)) \<le> 32 \<and>
     unat (ip_id_total_num p) = sum_list (map (\<lambda>n. unat (pn_id_total_num n)) (inorder (ip_root p)))"

definition id_pools_inv :: "id_pools \<Rightarrow> bool" where
  "id_pools_inv g \<longleftrightarrow> (\<forall>k p. g k = Some p \<longrightarrow>
     id_pool_inv p \<and> k = IdPoolIdx (ip_phy_devid p) (ip_sub_id p) (ip_type p))"

text \<open>The abstract view of a pool: the ids it owns and the ids in use.\<close>

definition id_pool_ids :: "id_pool \<Rightarrow> u32 set" where
  "id_pool_ids p = (\<Union>n \<in> set (inorder (ip_root p)). {pn_id_start n ..< pn_end n})"

definition id_pool_used :: "id_pool \<Rightarrow> u32 set" where
  "id_pool_used p = (\<Union>n \<in> set (inorder (ip_root p)). pn_idr n)"


lemma set_node_simps [simp]:
  "inorder (ip_root (id_pool_set_node n n' p)) = map (\<lambda>m. if m = n then n' else m) (inorder (ip_root p))"
  "ip_pool_num (id_pool_set_node n n' p) = ip_pool_num p"
  "ip_id_total_num (id_pool_set_node n n' p) = ip_id_total_num p"
  "ip_phy_devid (id_pool_set_node n n' p) = ip_phy_devid p"
  "ip_sub_id (id_pool_set_node n n' p) = ip_sub_id p"
  "ip_type (id_pool_set_node n n' p) = ip_type p"
  by (simp_all add: id_pool_set_node_def inorder_map)

lemma idr_take_simps [simp]:
  "pn_idr (idr_take i n) = insert i (pn_idr n)" "pn_id_start (idr_take i n) = pn_id_start n"
  "pn_id_total_num (idr_take i n) = pn_id_total_num n" "pn_end (idr_take i n) = pn_end n"
  "pn_id_avail_num (idr_take i n) = pn_id_avail_num n - 1"
  by (simp_all add: idr_take_def pn_end_def)

lemma idr_release_simps [simp]:
  "pn_idr (idr_release i n) = pn_idr n - {i}" "pn_id_start (idr_release i n) = pn_id_start n"
  "pn_id_total_num (idr_release i n) = pn_id_total_num n" "pn_end (idr_release i n) = pn_end n"
  "pn_id_avail_num (idr_release i n) = pn_id_avail_num n + 1"
  by (simp_all add: idr_release_def pn_end_def)

lemma pn_ok_card: "pn_ok n \<Longrightarrow> card {pn_id_start n ..< pn_end n} = unat (pn_id_total_num n)"
  using card_word_interval [of "pn_id_start n" "pn_end n"]
        word_no_wrap_add [of "pn_id_start n" "pn_id_total_num n"]
  by (auto simp: pn_ok_def pn_end_def)

lemma pn_ok_take:
  assumes "pn_ok n" "i \<in> {pn_id_start n ..< pn_end n}" "i \<notin> pn_idr n"
  shows "pn_ok (idr_take i n)"
proof -
  have sub: "insert i (pn_idr n) \<subseteq> {pn_id_start n ..< pn_end n}"
    using assms by (auto simp: pn_ok_def)
  then have "card (insert i (pn_idr n)) \<le> unat (pn_id_total_num n)"
    using card_mono [of "{pn_id_start n ..< pn_end n}" "insert i (pn_idr n)"] pn_ok_card [OF assms(1)] by simp
  moreover have "card (insert i (pn_idr n)) = Suc (card (pn_idr n))"
    using assms(3) by (simp add: finite_subset [of _ "UNIV :: u32 set"])
  ultimately have "0 < unat (pn_id_avail_num n)" using assms(1) by (auto simp: pn_ok_def)
  then have "pn_id_avail_num n \<noteq> 0" by (auto simp: unat_eq_0)
  then show ?thesis
    using assms(1) sub \<open>card (insert i (pn_idr n)) = _\<close> \<open>0 < unat (pn_id_avail_num n)\<close>
    by (auto simp: pn_ok_def unat_pred)
qed

lemma pn_ok_release:
  assumes "pn_ok n" "i \<in> pn_idr n"
  shows "pn_ok (idr_release i n)"
proof -
  have fin: "finite (pn_idr n)" by (simp add: finite_subset [of _ "UNIV :: u32 set"])
  have "0 < card (pn_idr n)" using assms(2) fin by (auto simp: card_gt_0_iff)
  then have "unat (pn_id_avail_num n) < unat (pn_id_total_num n)" using assms(1) by (simp add: pn_ok_def)
  then have "unat (pn_id_avail_num n + 1) = Suc (unat (pn_id_avail_num n))"
    using unat_Suc_less [of "pn_id_avail_num n" "pn_id_total_num n"] by (simp add: word_less_nat_alt)
  moreover have "card (pn_idr n) = Suc (card (pn_idr n - {i}))"
    using fin assms(2) by (metis card.remove)
  ultimately show ?thesis using assms(1) by (auto simp: pn_ok_def)
qed

lemma nodes_ok_distinct: "nodes_ok ns \<Longrightarrow> distinct ns"
proof (induction ns)
  case (Cons n ns)
  have "n \<notin> set ns" using Cons.prems by (auto simp: nodes_ok_def pn_ok_def linorder_not_less [symmetric])
  with Cons show ?case by (simp add: nodes_ok_def)
qed simp

lemma nodes_ok_upd:
  assumes "nodes_ok ns" "n \<in> set ns" "pn_ok n'" "pn_id_start n' = pn_id_start n" "pn_end n' = pn_end n"
  shows "nodes_ok (map (\<lambda>m. if m = n then n' else m) ns)"
proof -
  let ?f = "\<lambda>m. if m = n then n' else m"
  have "sorted_wrt (\<lambda>a b. pn_end a \<le> pn_id_start b) (map ?f ns)
      = sorted_wrt (\<lambda>a b. pn_end a \<le> pn_id_start b) ns"
    using assms(4,5) by (intro sorted_wrt_map_cong) auto
  with assms show ?thesis by (auto simp: nodes_ok_def)
qed

lemma nodes_ok_unique:
  assumes "nodes_ok ns" "m \<in> set ns" "n \<in> set ns"
    "i \<in> {pn_id_start m ..< pn_end m}" "i \<in> {pn_id_start n ..< pn_end n}"
  shows "m = n"
  using assms
proof (induction ns)
  case (Cons a ns)
  have disj: "\<And>b. b \<in> set ns \<Longrightarrow> pn_end a \<le> pn_id_start b"
    using Cons.prems(1) by (simp add: nodes_ok_def)
  have ok: "nodes_ok ns" using Cons.prems(1) by (simp add: nodes_ok_def)
  from Cons.prems(2,3) show ?case
    using Cons.IH [OF ok] Cons.prems(4,5) disj by fastforce
qed simp

lemma id_pool_inv_set_node:
  assumes "id_pool_inv p" "n \<in> set (inorder (ip_root p))" "pn_ok n'"
    "pn_id_start n' = pn_id_start n" "pn_id_total_num n' = pn_id_total_num n"
  shows "id_pool_inv (id_pool_set_node n n' p)"
proof -
  have ok: "nodes_ok (inorder (ip_root p))" using assms(1) by (simp add: id_pool_inv_def)
  have "pn_end n' = pn_end n" using assms(4,5) by (simp add: pn_end_def)
  then have 1: "nodes_ok (map (\<lambda>m. if m = n then n' else m) (inorder (ip_root p)))"
    using nodes_ok_upd [OF ok assms(2,3,4)] by simp
  have "sum_list (map (\<lambda>n. unat (pn_id_total_num n)) (map (\<lambda>m. if m = n then n' else m) (inorder (ip_root p))))
      = sum_list (map (\<lambda>n. unat (pn_id_total_num n)) (inorder (ip_root p)))"
    using sum_list_map_upd [OF nodes_ok_distinct [OF ok] assms(2), of "\<lambda>n. unat (pn_id_total_num n)" n'] assms(5)
    by simp
  with 1 assms(1) show ?thesis by (simp add: id_pool_inv_def)
qed


subsection \<open>Searching and linking\<close>

lemma nodes_ok_append:
  "nodes_ok (xs @ ys) \<longleftrightarrow>
   nodes_ok xs \<and> nodes_ok ys \<and> (\<forall>x \<in> set xs. \<forall>y \<in> set ys. pn_end x \<le> pn_id_start y)"
  by (auto simp: nodes_ok_def sorted_wrt_append)

lemma nodes_ok_Cons:
  "nodes_ok (x # ys) \<longleftrightarrow> pn_ok x \<and> nodes_ok ys \<and> (\<forall>y \<in> set ys. pn_end x \<le> pn_id_start y)"
  by (auto simp: nodes_ok_def)

lemma pn_ok_less: "pn_ok n \<Longrightarrow> pn_id_start n < pn_end n"
  by (simp add: pn_ok_def)

lemma nodes_ok_member: "nodes_ok ns \<Longrightarrow> n \<in> set ns \<Longrightarrow> pn_ok n"
  by (simp add: nodes_ok_def)

lemma find_by_id_Some:
  assumes "nodes_ok (inorder t)"
  shows "id_pool_node_find_by_id t i = Some n \<longleftrightarrow>
         n \<in> set (inorder t) \<and> i \<in> {pn_id_start n ..< pn_end n}"
  using assms
proof (induction t)
  case (Node l a r)
  have okl: "nodes_ok (inorder l)" and okr: "nodes_ok (inorder r)" and oka: "pn_ok a"
    and la: "\<And>x. x \<in> set (inorder l) \<Longrightarrow> pn_end x \<le> pn_id_start a"
    and ar: "\<And>y. y \<in> set (inorder r) \<Longrightarrow> pn_end a \<le> pn_id_start y"
    using Node.prems by (auto simp: nodes_ok_append nodes_ok_Cons)
  have a: "pn_id_start a < pn_end a" using oka by (rule pn_ok_less)
  consider "i < pn_id_start a" | "i \<ge> pn_end a" | "i \<in> {pn_id_start a ..< pn_end a}"
    by (meson atLeastLessThan_iff linorder_not_less)
  then show ?case
  proof cases
    case 1
    then have "\<And>y. y \<in> set (inorder r) \<Longrightarrow> \<not> pn_id_start y \<le> i" using ar a by fastforce
    with 1 Node.IH(1) [OF okl] show ?thesis by auto
  next
    case 2
    then have "\<And>x. x \<in> set (inorder l) \<Longrightarrow> \<not> i < pn_end x" using la a by fastforce
    with 2 a Node.IH(2) [OF okr] show ?thesis by auto
  next
    case 3
    then show ?thesis using nodes_ok_unique [OF Node.prems, of a n i] by auto
  qed
qed simp

lemma find_by_id_None:
  assumes "nodes_ok (inorder t)"
  shows "id_pool_node_find_by_id t i = None \<longleftrightarrow>
         (\<forall>n \<in> set (inorder t). i \<notin> {pn_id_start n ..< pn_end n})"
  using find_by_id_Some [OF assms, of i] by (metis not_Some_eq)

definition pn_overlap :: "id_pool_node \<Rightarrow> id_pool_node \<Rightarrow> bool" where
  "pn_overlap m n \<longleftrightarrow> {pn_id_start m ..< pn_end m} \<inter> {pn_id_start n ..< pn_end n} \<noteq> {}"

lemma pn_overlap_iff:
  assumes "pn_id_start m < pn_end m" "pn_id_start n < pn_end n"
  shows "pn_overlap m n \<longleftrightarrow> \<not> pn_end m \<le> pn_id_start n \<and> \<not> pn_end n \<le> pn_id_start m"
proof
  assume "\<not> pn_end m \<le> pn_id_start n \<and> \<not> pn_end n \<le> pn_id_start m"
  then have "max (pn_id_start m) (pn_id_start n) \<in> {pn_id_start m ..< pn_end m} \<inter> {pn_id_start n ..< pn_end n}"
    using assms by auto
  then show "pn_overlap m n" unfolding pn_overlap_def by blast
qed (use assms in \<open>auto simp: pn_overlap_def\<close>)

lemma link_Some:
  assumes "nodes_ok (inorder t)" "pn_ok n" "id_pool_node_link n t = Some t'"
  shows "\<exists>xs ys. inorder t = xs @ ys \<and> inorder t' = xs @ n # ys \<and> nodes_ok (inorder t')"
  using assms
proof (induction t arbitrary: t')
  case (Node l e r)
  have okl: "nodes_ok (inorder l)" and okr: "nodes_ok (inorder r)" and oke: "pn_ok e"
    and le: "\<And>x. x \<in> set (inorder l) \<Longrightarrow> pn_end x \<le> pn_id_start e"
    and er: "\<And>y. y \<in> set (inorder r) \<Longrightarrow> pn_end e \<le> pn_id_start y"
    and lr: "\<And>x y. x \<in> set (inorder l) \<Longrightarrow> y \<in> set (inorder r) \<Longrightarrow> pn_end x \<le> pn_id_start y"
    using Node.prems(1) by (auto simp: nodes_ok_append nodes_ok_Cons)
  have e: "pn_id_start e < pn_end e" and n: "pn_id_start n < pn_end n"
    using oke Node.prems(2) by (simp_all add: pn_ok_less)
  show ?case
  proof (cases "pn_end n \<le> pn_id_start e")
    case True
    then obtain l' where l': "id_pool_node_link n l = Some l'" "t' = Node l' e r"
      using Node.prems(3) by auto
    from Node.IH(1) [OF okl Node.prems(2) l'(1)] obtain xs ys where
      xy: "inorder l = xs @ ys" "inorder l' = xs @ n # ys" "nodes_ok (inorder l')" by blast
    have nr: "\<And>y. y \<in> set (inorder r) \<Longrightarrow> pn_end n \<le> pn_id_start y"
      using True er e by (meson less_imp_le order_trans)
    have "nodes_ok (inorder t')"
      using xy l'(2) okr oke le er lr nr True by (auto simp: nodes_ok_append nodes_ok_Cons)
    with xy l'(2) show ?thesis by (intro exI [of _ xs] exI [of _ "ys @ e # inorder r"]) simp
  next
    case False
    then obtain r' where r': "pn_id_start n \<ge> pn_end e" "id_pool_node_link n r = Some r'" "t' = Node l e r'"
      using Node.prems(3) by (auto split: if_splits)
    from Node.IH(2) [OF okr Node.prems(2) r'(2)] obtain xs ys where
      xy: "inorder r = xs @ ys" "inorder r' = xs @ n # ys" "nodes_ok (inorder r')" by blast
    have ln: "\<And>x. x \<in> set (inorder l) \<Longrightarrow> pn_end x \<le> pn_id_start n"
      using r'(1) le e by (meson less_imp_le order_trans)
    have "nodes_ok (inorder t')"
      using xy r' okl oke le er lr ln by (auto simp: nodes_ok_append nodes_ok_Cons)
    with xy r'(3) show ?thesis by (intro exI [of _ "inorder l @ e # xs"] exI [of _ ys]) simp
  qed
qed (auto simp: nodes_ok_def)

lemma link_None_iff:
  assumes "nodes_ok (inorder t)" "pn_id_start n < pn_end n"
  shows "id_pool_node_link n t = None \<longleftrightarrow> (\<exists>e \<in> set (inorder t). pn_overlap n e)"
  using assms
proof (induction t)
  case (Node l e r)
  have okl: "nodes_ok (inorder l)" and okr: "nodes_ok (inorder r)" and oke: "pn_ok e"
    and le: "\<And>x. x \<in> set (inorder l) \<Longrightarrow> pn_end x \<le> pn_id_start e"
    and er: "\<And>y. y \<in> set (inorder r) \<Longrightarrow> pn_end e \<le> pn_id_start y"
    using Node.prems(1) by (auto simp: nodes_ok_append nodes_ok_Cons)
  have e: "pn_id_start e < pn_end e" using oke by (rule pn_ok_less)
  have l: "\<And>x. x \<in> set (inorder l) \<Longrightarrow> pn_id_start x < pn_end x"
    using okl by (simp add: nodes_ok_def pn_ok_less)
  have r: "\<And>x. x \<in> set (inorder r) \<Longrightarrow> pn_id_start x < pn_end x"
    using okr by (simp add: nodes_ok_def pn_ok_less)
  have ne: "pn_overlap n e \<longleftrightarrow> \<not> pn_end n \<le> pn_id_start e \<and> \<not> pn_end e \<le> pn_id_start n"
    using pn_overlap_iff [OF Node.prems(2) e] .
  have R: "pn_end n \<le> pn_id_start e \<Longrightarrow> x \<in> set (inorder r) \<Longrightarrow> \<not> pn_overlap n x" for x
    using er [of x] e pn_overlap_iff [OF Node.prems(2) r, of x] by (meson less_imp_le order_trans)
  have L: "pn_end e \<le> pn_id_start n \<Longrightarrow> x \<in> set (inorder l) \<Longrightarrow> \<not> pn_overlap n x" for x
    using le [of x] e pn_overlap_iff [OF Node.prems(2) l, of x] by (meson less_imp_le order_trans)
  show ?case
    using Node.IH(1) [OF okl Node.prems(2)] Node.IH(2) [OF okr Node.prems(2)] ne R L
    by (cases "pn_end n \<le> pn_id_start e"; cases "pn_end e \<le> pn_id_start n") auto
qed simp


subsection \<open>Allocation and release inside one pool\<close>

lemma alloc_scan_Some:
  assumes "idr_ok ida" "\<forall>n \<in> set ns. pn_ok n" "id_pool_alloc_scan ida ns = Some (i, n)"
  shows "n \<in> set ns \<and> i \<in> {pn_id_start n ..< pn_end n} - pn_idr n"
  using assms(2,3)
proof (induction ns)
  case (Cons m ns)
  show ?case
  proof (cases "ida (pn_idr m) (sint (pn_id_start m)) (sint (pn_end m)) < 0")
    case True
    with Cons show ?thesis by (simp add: Let_def)
  next
    case False
    then have "word_of_int (ida (pn_idr m) (sint (pn_id_start m)) (sint (pn_end m)))
        \<in> {pn_id_start m ..< pn_end m} - pn_idr m"
      using idr_alloc_in_range [OF assms(1) pn_ok_less] Cons.prems(1) by simp
    with False Cons.prems(2) show ?thesis by (auto simp: Let_def)
  qed
qed simp

lemma range_scan_Some:
  assumes "idr_ok ida" "start < stop" "\<forall>n \<in> set ns. pn_ok n"
    "id_pool_range_scan ida start stop ns = Some (i, n)"
  shows "n \<in> set ns \<and> i \<in> {pn_id_start n ..< pn_end n} - pn_idr n \<and> i \<in> {start ..< stop}"
  using assms(3,4)
proof (induction ns)
  case (Cons m ns)
  let ?s = "max start (pn_id_start m)" and ?e = "min stop (pn_end m)"
  show ?case
  proof (cases "start \<ge> pn_end m \<or> stop \<le> pn_id_start m \<or> ida (pn_idr m) (sint ?s) (sint ?e) < 0")
    case True
    with Cons show ?thesis by (auto simp: Let_def split: if_splits)
  next
    case False
    then have "?s < ?e" using assms(2) pn_ok_less [of m] Cons.prems(1) by (auto simp: not_le)
    then have "word_of_int (ida (pn_idr m) (sint ?s) (sint ?e)) \<in> {?s ..< ?e} - pn_idr m"
      using False by (intro idr_alloc_in_range [OF assms(1)]) (simp_all add: not_less)
    with False Cons.prems(2) show ?thesis by (auto simp: Let_def)
  qed
qed simp

lemma alloc_scan_None:
  assumes "idr_ok ida" "\<And>used s e. ida used s e \<noteq> - ENOMEM" "\<forall>n \<in> set ns. pn_ok n"
    "id_pool_alloc_scan ida ns = None" "n \<in> set ns" "i \<in> {pn_id_start n ..< pn_end n}"
    "i < 0x80000000"
  shows "i \<in> pn_idr n"
  using assms(3-5)
proof (induction ns)
  case (Cons m ns)
  have neg: "ida (pn_idr m) (sint (pn_id_start m)) (sint (pn_end m)) < 0"
    using Cons.prems(2) by (simp add: Let_def split: if_splits)
  show ?case
  proof (cases "n = m")
    case True
    have i: "uint (pn_id_start m) \<le> uint i" "uint i < uint (pn_end m)" "uint i < 2147483648"
      using assms(6,7) True by (simp_all add: word_le_def word_less_def)
    then have "sint (pn_id_start m) = uint (pn_id_start m)" by (simp add: sint_u32)
    moreover have "uint i < idr_limit (sint (pn_end m))"
      using i uint_nonnegative [of i] uint_bounded [of "pn_end m"] by (auto simp: idr_limit_def sint_u32)
    ultimately have "word_of_int (uint i) \<in> pn_idr m"
      using idr_ok_fail [OF assms(1) _ neg assms(2), of "uint i"] i by simp
    with True show ?thesis by simp
  next
    case False
    with Cons neg show ?thesis by (simp add: Let_def)
  qed
qed simp

lemma id_pool_inv_nodes: "id_pool_inv p \<Longrightarrow> nodes_ok (inorder (ip_root p))"
  by (simp add: id_pool_inv_def)

lemma idr_subset_range: "nodes_ok ns \<Longrightarrow> n \<in> set ns \<Longrightarrow> i \<in> pn_idr n \<Longrightarrow> i \<in> {pn_id_start n ..< pn_end n}"
  unfolding nodes_ok_def pn_ok_def by blast

lemma used_subset_ids: "id_pool_inv p \<Longrightarrow> id_pool_used p \<subseteq> id_pool_ids p"
  using idr_subset_range [OF id_pool_inv_nodes] unfolding id_pool_used_def id_pool_ids_def by blast

lemma used_member:
  assumes "id_pool_inv p" "n \<in> set (inorder (ip_root p))" "i \<in> {pn_id_start n ..< pn_end n}"
  shows "i \<in> id_pool_used p \<longleftrightarrow> i \<in> pn_idr n"
proof
  assume "i \<in> id_pool_used p"
  then obtain m where m: "m \<in> set (inorder (ip_root p))" "i \<in> pn_idr m"
    by (auto simp: id_pool_used_def)
  then have "m = n"
    using nodes_ok_unique [OF id_pool_inv_nodes [OF assms(1)] m(1) assms(2) _ assms(3)]
      idr_subset_range [OF id_pool_inv_nodes [OF assms(1)]] by blast
  with m show "i \<in> pn_idr n" by simp
next
  assume "i \<in> pn_idr n"
  with assms(2) show "i \<in> id_pool_used p" unfolding id_pool_used_def by blast
qed

lemma ids_set_node:
  assumes "n \<in> set (inorder (ip_root p))" "pn_id_start n' = pn_id_start n" "pn_end n' = pn_end n"
  shows "id_pool_ids (id_pool_set_node n n' p) = id_pool_ids p"
  using assms by (auto simp: id_pool_ids_def split: if_splits)

lemma used_take:
  assumes "n \<in> set (inorder (ip_root p))"
  shows "id_pool_used (id_pool_set_node n (idr_take i n) p) = insert i (id_pool_used p)"
  using assms by (auto simp: id_pool_used_def split: if_splits)

lemma used_release:
  assumes "id_pool_inv p" "n \<in> set (inorder (ip_root p))" "i \<in> pn_idr n"
  shows "id_pool_used (id_pool_set_node n (idr_release i n) p) = id_pool_used p - {i}"
proof -
  have "i \<in> {pn_id_start n ..< pn_end n}"
    using idr_subset_range [OF id_pool_inv_nodes [OF assms(1)] assms(2,3)] .
  then have "\<And>m. m \<in> set (inorder (ip_root p)) \<Longrightarrow> i \<in> pn_idr m \<Longrightarrow> m = n"
    using nodes_ok_unique [OF id_pool_inv_nodes [OF assms(1)] _ assms(2)]
      idr_subset_range [OF id_pool_inv_nodes [OF assms(1)]] by blast
  then show ?thesis using assms(2) by (auto simp: id_pool_used_def split: if_splits)
qed

text \<open>What taking an id from a node of the pool does to the pool.\<close>

lemma take_spec:
  assumes "id_pool_inv p" "n \<in> set (inorder (ip_root p))" "i \<in> {pn_id_start n ..< pn_end n} - pn_idr n"
  shows "i \<in> id_pool_ids p - id_pool_used p"
    and "id_pool_inv (id_pool_set_node n (idr_take i n) p)"
    and "id_pool_ids (id_pool_set_node n (idr_take i n) p) = id_pool_ids p"
    and "id_pool_used (id_pool_set_node n (idr_take i n) p) = insert i (id_pool_used p)"
proof -
  have ok: "pn_ok n" using id_pool_inv_nodes [OF assms(1)] assms(2) by (rule nodes_ok_member)
  show "i \<in> id_pool_ids p - id_pool_used p"
    using assms used_member [OF assms(1,2)] by (auto simp: id_pool_ids_def)
  show "id_pool_inv (id_pool_set_node n (idr_take i n) p)"
    using assms pn_ok_take [OF ok] by (intro id_pool_inv_set_node) auto
  show "id_pool_ids (id_pool_set_node n (idr_take i n) p) = id_pool_ids p"
    using assms(2) by (simp add: ids_set_node)
  show "id_pool_used (id_pool_set_node n (idr_take i n) p) = insert i (id_pool_used p)"
    using assms(2) by (rule used_take)
qed

lemma alloc0_cases:
  assumes "id_pool_inv p" "idr_ok ida"
  obtains (ok) i n where "id_pool_alloc0 ida p = (0, Some i, id_pool_set_node n (idr_take i n) p)"
      "n \<in> set (inorder (ip_root p))" "i \<in> {pn_id_start n ..< pn_end n} - pn_idr n"
  | (full) "id_pool_alloc0 ida p = (- ENOSPC, None, p)" "id_pool_alloc_scan ida (inorder (ip_root p)) = None"
proof (cases "id_pool_alloc_scan ida (inorder (ip_root p))")
  case None
  then show ?thesis by (intro full) (simp_all add: id_pool_alloc0_def)
next
  case (Some r)
  obtain i n where r: "r = (i, n)" by (cases r)
  have "\<forall>n \<in> set (inorder (ip_root p)). pn_ok n"
    using nodes_ok_member [OF id_pool_inv_nodes [OF assms(1)]] by blast
  from alloc_scan_Some [OF assms(2) this Some [unfolded r]] show ?thesis
    using Some r by (intro ok [of i n]) (simp_all add: id_pool_alloc0_def)
qed

lemma alloc_range0_cases:
  assumes "id_pool_inv p" "idr_ok ida" "start < stop"
  obtains (ok) i n where
      "id_pool_alloc_range0 ida p start stop = (0, Some i, id_pool_set_node n (idr_take i n) p)"
      "n \<in> set (inorder (ip_root p))" "i \<in> {pn_id_start n ..< pn_end n} - pn_idr n" "i \<in> {start ..< stop}"
  | (full) "id_pool_alloc_range0 ida p start stop = (- ENOSPC, None, p)"
proof (cases "id_pool_range_scan ida start stop (inorder (ip_root p))")
  case None
  then show ?thesis by (intro full) (simp add: id_pool_alloc_range0_def)
next
  case (Some r)
  obtain i n where r: "r = (i, n)" by (cases r)
  have "\<forall>n \<in> set (inorder (ip_root p)). pn_ok n"
    using nodes_ok_member [OF id_pool_inv_nodes [OF assms(1)]] by blast
  from range_scan_Some [OF assms(2,3) this Some [unfolded r]] show ?thesis
    using Some r by (intro ok [of i n]) (simp_all add: id_pool_alloc_range0_def)
qed

lemma free0_cases:
  assumes "id_pool_inv p"
  obtains (ok) n where "id_pool_free0 p i = (0, id_pool_set_node n (idr_release i n) p)"
      "n \<in> set (inorder (ip_root p))" "i \<in> pn_idr n" "i \<in> id_pool_used p"
  | (unowned) "id_pool_free0 p i = (- ENODEV, p)" "i \<notin> id_pool_ids p"
  | (unused) "id_pool_free0 p i = (- EFAULT, p)" "i \<in> id_pool_ids p - id_pool_used p"
proof (cases "id_pool_node_find_by_id (ip_root p) i")
  case None
  then have "i \<notin> id_pool_ids p"
    using find_by_id_None [OF id_pool_inv_nodes [OF assms]] by (auto simp: id_pool_ids_def)
  with None unowned show ?thesis by (simp add: id_pool_free0_def)
next
  case (Some n)
  then have n: "n \<in> set (inorder (ip_root p))" "i \<in> {pn_id_start n ..< pn_end n}"
    using find_by_id_Some [OF id_pool_inv_nodes [OF assms]] by auto
  then have "i \<in> id_pool_ids p" by (auto simp: id_pool_ids_def)
  with Some n ok unused used_member [OF assms n] show ?thesis
    by (cases "i \<in> pn_idr n") (auto simp: id_pool_free0_def)
qed


subsection \<open>Adding and removing ranges\<close>

lemma node_add_cases:
  assumes "rb_ok rb" "id_pool_inv p" "pn_ok n"
  obtains (busy) "id_pool_node_add rb p n = (- EBUSY, p)" "length (inorder (ip_root p)) = 32"
  | (overflow) "id_pool_node_add rb p n = (- EFAULT, p)"
      "unat (ip_id_total_num p) + unat (pn_id_total_num n) \<ge> 2 ^ 32"
  | (overlap) "id_pool_node_add rb p n = (- ENODEV, p)" "\<exists>e \<in> set (inorder (ip_root p)). pn_overlap n e"
  | (ok) p' where "id_pool_node_add rb p n = (0, p')" "id_pool_inv p'"
      "set (inorder (ip_root p')) = insert n (set (inorder (ip_root p)))"
      "\<forall>e \<in> set (inorder (ip_root p)). \<not> pn_overlap n e"
      "ip_phy_devid p' = ip_phy_devid p" "ip_sub_id p' = ip_sub_id p" "ip_type p' = ip_type p"
proof -
  have nodes: "nodes_ok (inorder (ip_root p))" using assms(2) by (rule id_pool_inv_nodes)
  have num: "unat (ip_pool_num p) = length (inorder (ip_root p))" "length (inorder (ip_root p)) \<le> 32"
    using assms(2) by (simp_all add: id_pool_inv_def)
  show ?thesis
  proof (cases "ip_pool_num p \<ge> 32")
    case True
    then have "length (inorder (ip_root p)) = 32" using num by (simp add: word_le_nat_alt)
    with True show ?thesis by (intro busy) (simp_all add: id_pool_node_add_def)
  next
    case notbusy: False
    show ?thesis
    proof (cases "ip_id_total_num p + pn_id_total_num n < ip_id_total_num p")
      case True
      then have "unat (ip_id_total_num p) + unat (pn_id_total_num n) \<ge> 2 ^ 32"
        using word_wrap_add by fastforce
      with True notbusy show ?thesis by (intro overflow) (simp_all add: id_pool_node_add_def)
    next
      case nowrap: False
      show ?thesis
      proof (cases "id_pool_node_link n (ip_root p)")
        case None
        with notbusy nowrap link_None_iff [OF nodes pn_ok_less [OF assms(3)]] show ?thesis
          by (intro overlap) (auto simp: id_pool_node_add_def)
      next
        case (Some t)
        from link_Some [OF nodes assms(3) Some] obtain xs ys where
          t: "inorder (ip_root p) = xs @ ys" "inorder t = xs @ n # ys" "nodes_ok (inorder t)" by blast
        have "unat (ip_pool_num p + 1) = Suc (unat (ip_pool_num p))"
          using notbusy unat_Suc_less [of "ip_pool_num p" 32] by simp
        moreover have "unat (ip_id_total_num p + pn_id_total_num n)
            = unat (ip_id_total_num p) + unat (pn_id_total_num n)"
          using nowrap by (intro word_no_wrap_add) simp
        moreover have "length (inorder (ip_root p)) < 32" using notbusy num by (simp add: word_le_nat_alt)
        ultimately show ?thesis
          using Some notbusy nowrap t assms(2) rb_ok_insert_color [OF assms(1), of t]
            link_None_iff [OF nodes pn_ok_less [OF assms(3)]]
          by (intro ok [of "p\<lparr>ip_root := rb_insert_color rb t, ip_pool_num := ip_pool_num p + 1,
                ip_id_total_num := ip_id_total_num p + pn_id_total_num n\<rparr>"])
             (auto simp: id_pool_node_add_def id_pool_inv_def)
      qed
    qed
  qed
qed

lemma node_del_inv:
  assumes "rb_ok rb" "id_pool_inv p" "n \<in> set (inorder (ip_root p))"
  shows "id_pool_inv (id_pool_node_del rb p n)"
    and "set (inorder (ip_root (id_pool_node_del rb p n))) = set (inorder (ip_root p)) - {n}"
proof -
  have nodes: "nodes_ok (inorder (ip_root p))" using assms(2) by (rule id_pool_inv_nodes)
  have d: "distinct (inorder (ip_root p))" using nodes by (rule nodes_ok_distinct)
  have io: "inorder (ip_root (id_pool_node_del rb p n)) = remove1 n (inorder (ip_root p))"
    using rb_ok_erase [OF assms(1) d assms(3)] by (simp add: id_pool_node_del_def)
  then show "set (inorder (ip_root (id_pool_node_del rb p n))) = set (inorder (ip_root p)) - {n}"
    using d by simp
  have "nodes_ok (remove1 n (inorder (ip_root p)))"
    using nodes unfolding nodes_ok_def
    by (auto intro: sorted_wrt_remove1 dest: set_remove1_subset [THEN subsetD])
  moreover have "unat (pn_id_total_num n)
        + sum_list (map (\<lambda>n. unat (pn_id_total_num n)) (remove1 n (inorder (ip_root p))))
      = unat (ip_id_total_num p)"
    using sum_list_remove1 [OF assms(3), of "\<lambda>n. unat (pn_id_total_num n)"] assms(2)
    by (simp add: id_pool_inv_def)
  moreover have "unat (ip_pool_num p - 1) = length (remove1 n (inorder (ip_root p)))"
  proof -
    have len: "unat (ip_pool_num p) = length (inorder (ip_root p))" using assms(2) by (simp add: id_pool_inv_def)
    have "length (inorder (ip_root p)) > 0" using assms(3) by (metis length_pos_if_in_set)
    then have "ip_pool_num p \<noteq> 0" using len by auto
    then show ?thesis using len assms(3) by (simp add: unat_pred length_remove1)
  qed
  ultimately show "id_pool_inv (id_pool_node_del rb p n)"
    using assms(2,3) io
    by (auto simp: id_pool_inv_def id_pool_node_del_def unat_sub word_le_nat_alt length_remove1)
qed

lemma node_del_fields [simp]:
  "ip_phy_devid (id_pool_node_del rb p n) = ip_phy_devid p" "ip_sub_id (id_pool_node_del rb p n) = ip_sub_id p"
  "ip_type (id_pool_node_del rb p n) = ip_type p"
  by (simp_all add: id_pool_node_del_def)

lemma node_del_ids:
  assumes "rb_ok rb" "id_pool_inv p" "n \<in> set (inorder (ip_root p))"
  shows "id_pool_ids (id_pool_node_del rb p n) = id_pool_ids p - {pn_id_start n ..< pn_end n}"
    and "id_pool_used (id_pool_node_del rb p n) = id_pool_used p - {pn_id_start n ..< pn_end n}"
proof -
  have nodes: "nodes_ok (inorder (ip_root p))" using assms(2) by (rule id_pool_inv_nodes)
  have u: "\<And>m i. m \<in> set (inorder (ip_root p)) \<Longrightarrow> i \<in> {pn_id_start m ..< pn_end m} \<Longrightarrow>
      i \<in> {pn_id_start n ..< pn_end n} \<Longrightarrow> m = n"
    using nodes_ok_unique [OF nodes _ assms(3)] by blast
  show "id_pool_ids (id_pool_node_del rb p n) = id_pool_ids p - {pn_id_start n ..< pn_end n}"
    unfolding id_pool_ids_def node_del_inv(2) [OF assms] using u by blast
  show "id_pool_used (id_pool_node_del rb p n) = id_pool_used p - {pn_id_start n ..< pn_end n}"
    unfolding id_pool_used_def node_del_inv(2) [OF assms]
    using u idr_subset_range [OF nodes] by blast
qed

lemma node_destroy_all_ends:
  assumes "rb_ok rb" "id_pool_inv p"
  shows "\<exists>p'. id_pool_node_destroy_all rb p = Some p' \<and> ip_root p' = Leaf \<and> ip_pool_num p' = 0 \<and>
    ip_id_total_num p' = 0"
  using assms(2)
proof (induction "length (inorder (ip_root p))" arbitrary: p)
  case 0
  then have "inorder (ip_root p) = []" by simp
  moreover have "ip_root p = Leaf" using calculation by (cases "ip_root p") auto
  ultimately show ?case using 0
    by (subst id_pool_node_destroy_all.simps) (auto simp: id_pool_inv_def unat_eq_0)
next
  case (Suc k)
  then obtain n ns where ns: "inorder (ip_root p) = n # ns" by (cases "inorder (ip_root p)") auto
  then have n: "n \<in> set (inorder (ip_root p))" by simp
  have inv: "id_pool_inv (id_pool_node_del rb p n)" using node_del_inv(1) [OF assms(1) Suc.prems n] .
  have "inorder (ip_root (id_pool_node_del rb p n)) = ns"
    using rb_ok_erase [OF assms(1) nodes_ok_distinct [OF id_pool_inv_nodes [OF Suc.prems]] n] ns
    by (simp add: id_pool_node_del_def)
  then have "k = length (inorder (ip_root (id_pool_node_del rb p n)))" using Suc.hyps(2) ns by simp
  from Suc.hyps(1) [OF this inv] show ?case
    by (subst id_pool_node_destroy_all.simps) (simp add: ns)
qed

text \<open>The loop of \<^verbatim>\<open>id_pool_node_destroy\<close> returns every id before the \<^verbatim>\<open>idr\<close> is destroyed.\<close>

lemma node_destroy_loop:
  assumes "pn_ok n" "pn_idr n \<subseteq> {i ..< stop}" "i \<le> stop"
  shows "pn_idr (id_pool_node_destroy i stop n) = {} \<and> pn_ok (id_pool_node_destroy i stop n) \<and>
    pn_id_total_num (id_pool_node_destroy i stop n) = pn_id_total_num n"
  using assms
proof (induction i stop n rule: id_pool_node_destroy.induct)
  case (1 i stop n)
  show ?case
  proof (cases "i < stop")
    case True
    let ?n = "if i \<in> pn_idr n then idr_release i n else n"
    have i1: "unat (i + 1) = Suc (unat i)" using True by (rule unat_Suc_less)
    have "pn_idr ?n \<subseteq> {i + 1 ..< stop}"
    proof
      fix j assume "j \<in> pn_idr ?n"
      then have "j \<in> pn_idr n" "j \<noteq> i" by (auto split: if_splits)
      then have "i \<le> j" "j < stop" "j \<noteq> i" using "1.prems"(2) by auto
      then show "j \<in> {i + 1 ..< stop}" using i1
        by (auto simp: word_le_nat_alt word_less_nat_alt word_unat_eq_iff)
    qed
    moreover have "pn_ok ?n" using "1.prems"(1) pn_ok_release by simp
    moreover have "i + 1 \<le> stop" using True i1 by (simp add: word_le_nat_alt word_less_nat_alt)
    moreover have "pn_id_total_num ?n = pn_id_total_num n" by simp
    ultimately show ?thesis using "1.IH" [OF True] True
      by (simp add: id_pool_node_destroy.simps [of i stop n])
  next
    case False
    then have "id_pool_node_destroy i stop n = n" by (simp add: id_pool_node_destroy.simps [of i stop n])
    with False "1.prems" show ?thesis by auto
  qed
qed


subsection \<open>Counting\<close>

lemma fold_add_sum_list:
  fixes f :: "'a \<Rightarrow> 'b::comm_monoid_add"
  shows "fold (\<lambda>x acc. acc + f x) xs a = a + sum_list (map f xs)"
  by (induction xs arbitrary: a) (auto simp: ac_simps)

lemma unat_sum_list:
  fixes f :: "'a \<Rightarrow> 'b::len word"
  assumes "sum_list (map (\<lambda>x. unat (f x)) xs) < 2 ^ LENGTH('b)"
  shows "unat (sum_list (map f xs)) = sum_list (map (\<lambda>x. unat (f x)) xs)"
  using assms
proof (induction xs)
  case (Cons x xs)
  then have "unat (sum_list (map f xs)) = sum_list (map (\<lambda>x. unat (f x)) xs)" by simp
  with Cons.prems show ?case by (simp add: unat_word_ariths)
qed simp

lemma nodes_ok_card_Union:
  assumes "nodes_ok ns" "\<And>n. n \<in> set ns \<Longrightarrow> F n \<subseteq> {pn_id_start n ..< pn_end n}"
  shows "card (\<Union>n \<in> set ns. F n) = sum_list (map (\<lambda>n. card (F n)) ns)"
  using assms
proof (induction ns)
  case (Cons n ns)
  have ok: "nodes_ok ns" "\<And>m. m \<in> set ns \<Longrightarrow> pn_end n \<le> pn_id_start m"
    using Cons.prems(1) by (auto simp: nodes_ok_Cons)
  have sub: "F m \<subseteq> {pn_id_start m ..< pn_end m}" if "m \<in> set (n # ns)" for m
    using Cons.prems(2) that by blast
  have "F n \<inter> (\<Union>m \<in> set ns. F m) = {}"
  proof -
    have "i \<notin> F n" if "m \<in> set ns" "i \<in> F m" for m i
    proof -
      have "pn_id_start m \<le> i" using sub [of m] that by auto
      then have "pn_end n \<le> i" using ok(2) [OF that(1)] by simp
      then have "i \<notin> {pn_id_start n ..< pn_end n}" by (simp add: linorder_not_less)
      then show ?thesis using sub [of n] by (meson list.set_intros(1) subsetD)
    qed
    then show ?thesis by blast
  qed
  moreover have "finite (F m)" for m by (simp add: finite_subset [of _ "UNIV :: u32 set"])
  ultimately have "card (\<Union>m \<in> set (n # ns). F m) = card (F n) + card (\<Union>m \<in> set ns. F m)"
    by (simp add: card_Un_disjoint)
  with Cons.IH [OF ok(1)] sub show ?case by simp
qed simp

lemma card_ids: "id_pool_inv p \<Longrightarrow> card (id_pool_ids p) = unat (ip_id_total_num p)"
proof -
  assume inv: "id_pool_inv p"
  have ok: "nodes_ok (inorder (ip_root p))" using inv by (rule id_pool_inv_nodes)
  have "card (id_pool_ids p) = sum_list (map (\<lambda>n. card {pn_id_start n ..< pn_end n}) (inorder (ip_root p)))"
    unfolding id_pool_ids_def using ok by (rule nodes_ok_card_Union) simp
  also have "\<dots> = sum_list (map (\<lambda>n. unat (pn_id_total_num n)) (inorder (ip_root p)))"
    using nodes_ok_member [OF ok] by (intro arg_cong [of _ _ sum_list] map_cong) (auto simp: pn_ok_card)
  finally show ?thesis using inv by (simp add: id_pool_inv_def)
qed

lemma total_num0_card: "id_pool_inv p \<Longrightarrow> unat (id_pool_total_num0 p) = card (id_pool_ids p)"
proof -
  assume inv: "id_pool_inv p"
  have "sum_list (map (\<lambda>n. unat (pn_id_total_num n)) (inorder (ip_root p))) < 2 ^ 32"
    using inv unsigned_less [of "ip_id_total_num p", where ?'a = nat] by (simp add: id_pool_inv_def)
  then show ?thesis
    using unat_sum_list [of pn_id_total_num "inorder (ip_root p)"] card_ids [OF inv] inv
    by (simp add: id_pool_total_num0_def fold_add_sum_list id_pool_inv_def)
qed

lemma avail_num0_card: "id_pool_inv p \<Longrightarrow> unat (id_pool_avail_num0 p) = card (id_pool_ids p - id_pool_used p)"
proof -
  assume inv: "id_pool_inv p"
  let ?ns = "inorder (ip_root p)"
  have ok: "nodes_ok ?ns" using inv by (rule id_pool_inv_nodes)
  have used: "card (id_pool_used p) = sum_list (map (\<lambda>n. card (pn_idr n)) ?ns)"
    unfolding id_pool_used_def using ok by (rule nodes_ok_card_Union) (auto dest: idr_subset_range [OF ok])
  have "sum_list (map (\<lambda>n. unat (pn_id_avail_num n)) ?ns) + sum_list (map (\<lambda>n. card (pn_idr n)) ?ns)
      = sum_list (map (\<lambda>n. unat (pn_id_total_num n)) ?ns)"
    using ok unfolding sum_list_addf [symmetric]
    by (intro arg_cong [of _ _ sum_list] map_cong) (auto simp: nodes_ok_def pn_ok_def)
  then have sum: "sum_list (map (\<lambda>n. unat (pn_id_avail_num n)) ?ns) + card (id_pool_used p) = card (id_pool_ids p)"
    using used card_ids [OF inv] inv by (simp add: id_pool_inv_def)
  moreover have "card (id_pool_ids p) < 2 ^ 32"
    using card_ids [OF inv] unsigned_less [of "ip_id_total_num p", where ?'a = nat] by simp
  ultimately have "unat (id_pool_avail_num0 p) = card (id_pool_ids p) - card (id_pool_used p)"
    using unat_sum_list [of pn_id_avail_num ?ns] by (simp add: id_pool_avail_num0_def fold_add_sum_list)
  also have "\<dots> = card (id_pool_ids p - id_pool_used p)"
    using used_subset_ids [OF inv] by (simp add: card_Diff_subset finite_subset [of _ "UNIV :: u32 set"])
  finally show ?thesis .
qed

lemma total_num_by_range0_card:
  assumes "id_pool_inv p" "start \<le> stop"
  shows "unat (id_pool_total_num_by_range0 p start stop) = card (id_pool_ids p \<inter> {start ..< stop})"
proof -
  let ?ns = "inorder (ip_root p)"
  let ?f = "\<lambda>n. if start < pn_end n \<and> stop > pn_id_start n
                then min stop (pn_end n) - max start (pn_id_start n) else 0 :: u32"
  let ?F = "\<lambda>n. {pn_id_start n ..< pn_end n} \<inter> {start ..< stop}"
  have ok: "nodes_ok ?ns" using assms(1) by (rule id_pool_inv_nodes)
  have card: "unat (?f n) = card (?F n)" if "n \<in> set ?ns" for n
  proof (cases "start < pn_end n \<and> stop > pn_id_start n")
    case True
    have I: "?F n = {max start (pn_id_start n) ..< min stop (pn_end n)}" by auto
    have "max start (pn_id_start n) \<le> min stop (pn_end n)"
      using True assms(2) pn_ok_less [OF nodes_ok_member [OF ok that]] by auto
    then have "unat (min stop (pn_end n) - max start (pn_id_start n)) = card (?F n)"
      unfolding I by (simp only: card_word_interval unat_sub)
    with True show ?thesis by simp
  next
    case False
    then have "?F n = {}" by auto
    with False show ?thesis by auto
  qed
  have "card (id_pool_ids p \<inter> {start ..< stop}) = card (\<Union>n \<in> set ?ns. ?F n)"
    by (rule arg_cong [of _ _ card]) (auto simp: id_pool_ids_def)
  also have "\<dots> = sum_list (map (\<lambda>n. card (?F n)) ?ns)" using ok by (rule nodes_ok_card_Union) blast
  also have "\<dots> = sum_list (map (\<lambda>n. unat (?f n)) ?ns)"
    using card by (intro arg_cong [of _ _ sum_list] map_cong) simp_all
  finally have eq: "card (id_pool_ids p \<inter> {start ..< stop}) = sum_list (map (\<lambda>n. unat (?f n)) ?ns)" .
  moreover have "card (id_pool_ids p \<inter> {start ..< stop}) < 2 ^ 32"
  proof -
    have "card (id_pool_ids p \<inter> {start ..< stop}) \<le> card (id_pool_ids p)"
      by (rule card_mono) (simp_all add: finite_subset [of _ "UNIV :: u32 set"])
    then show ?thesis
      using card_ids [OF assms(1)] unsigned_less [of "ip_id_total_num p", where ?'a = nat] by simp
  qed
  ultimately have "unat (sum_list (map ?f ?ns)) = card (id_pool_ids p \<inter> {start ..< stop})"
    using unat_sum_list [of ?f ?ns] by simp
  moreover have "id_pool_total_num_by_range0 p start stop = sum_list (map ?f ?ns)"
  proof -
    have "(\<lambda>n acc. if start < pn_end n \<and> stop > pn_id_start n
            then acc + (min stop (pn_end n) - max start (pn_id_start n)) else acc) = (\<lambda>n acc. acc + ?f n)"
      by (intro ext) simp
    then show ?thesis by (simp only: id_pool_total_num_by_range0_def fold_add_sum_list add_0)
  qed
  ultimately show ?thesis by simp
qed

lemma range0_fold:
  fixes s0 e0 :: u32
  assumes "fold (\<lambda>n (s, e). (min s (pn_id_start n), max e (pn_end n))) ns (s0, e0) = (s, e)"
  shows "s \<le> s0 \<and> e0 \<le> e \<and> (\<forall>n \<in> set ns. s \<le> pn_id_start n \<and> pn_end n \<le> e) \<and>
    (s = s0 \<or> (\<exists>n \<in> set ns. s = pn_id_start n)) \<and> (e = e0 \<or> (\<exists>n \<in> set ns. e = pn_end n))"
  using assms
proof (induction ns arbitrary: s0 e0)
  case (Cons n ns)
  then have "fold (\<lambda>n (s, e). (min s (pn_id_start n), max e (pn_end n))) ns
      (min s0 (pn_id_start n), max e0 (pn_end n)) = (s, e)" by simp
  from Cons.IH [OF this] show ?case by (auto simp: min_def max_def split: if_splits)
qed simp

lemma range0_tight:
  assumes "id_pool_inv p" "ip_root p \<noteq> Leaf" "id_pool_range0 p = (s, e)"
  shows "id_pool_ids p \<subseteq> {s ..< e} \<and> s \<in> id_pool_ids p \<and> e - 1 \<in> id_pool_ids p"
proof -
  let ?ns = "inorder (ip_root p)"
  have ok: "nodes_ok ?ns" using assms(1) by (rule id_pool_inv_nodes)
  have R: "\<forall>n \<in> set ?ns. s \<le> pn_id_start n \<and> pn_end n \<le> e"
    "s = 0xFFFFFFFF \<or> (\<exists>n \<in> set ?ns. s = pn_id_start n)" "e = 0 \<or> (\<exists>n \<in> set ?ns. e = pn_end n)"
    using range0_fold [OF assms(3) [unfolded id_pool_range0_def]] by auto
  obtain n where n: "n \<in> set ?ns" using assms(2) by (cases "ip_root p") auto
  have n1: "pn_id_start n < pn_end n" using pn_ok_less [OF nodes_ok_member [OF ok n]] .
  have "\<exists>m \<in> set ?ns. s = pn_id_start m"
  proof (cases "s = 0xFFFFFFFF")
    case True
    then have "4294967295 \<le> unat (pn_id_start n)" using R(1) n by (auto simp: word_le_nat_alt)
    moreover have "unat (pn_id_start n) < 4294967296"
      using unsigned_less [of "pn_id_start n", where ?'a = nat] by simp
    ultimately have "s = pn_id_start n" using True by (simp add: word_unat_eq_iff)
    with n show ?thesis by blast
  qed (use R(2) in blast)
  then have s: "s \<in> id_pool_ids p"
    using nodes_ok_member [OF ok] pn_ok_less by (fastforce simp: id_pool_ids_def)
  have "e \<noteq> 0" using R(1) n n1 by force
  then obtain m where m: "m \<in> set ?ns" "e = pn_end m" using R(3) by blast
  have "pn_id_start m < pn_end m" using pn_ok_less [OF nodes_ok_member [OF ok m(1)]] .
  then have "e - 1 \<in> {pn_id_start m ..< pn_end m}"
    using m(2) \<open>e \<noteq> 0\<close> unat_pred [of e] by (auto simp: word_le_nat_alt word_less_nat_alt)
  then have "e - 1 \<in> id_pool_ids p" using m(1) by (auto simp: id_pool_ids_def)
  moreover have "id_pool_ids p \<subseteq> {s ..< e}" using R(1) by (fastforce simp: id_pool_ids_def)
  ultimately show ?thesis using s by blast
qed


subsection \<open>Exported operations keep the invariant\<close>

lemma inv_lookup: "id_pools_inv g \<Longrightarrow> g k = Some p \<Longrightarrow> id_pool_inv p"
  unfolding id_pools_inv_def by blast

lemma inv_key: "id_pools_inv g \<Longrightarrow> g k = Some p \<Longrightarrow> k = IdPoolIdx (ip_phy_devid p) (ip_sub_id p) (ip_type p)"
  unfolding id_pools_inv_def by blast

lemma inv_update:
  assumes "id_pools_inv g" "id_pool_inv p" "k = IdPoolIdx (ip_phy_devid p) (ip_sub_id p) (ip_type p)"
  shows "id_pools_inv (g(k \<mapsto> p))"
  using assms by (simp add: id_pools_inv_def)

lemma inv_remove: "id_pools_inv g \<Longrightarrow> id_pools_inv (g(k := None))"
  by (simp add: id_pools_inv_def)

lemma inv_same_fields:
  assumes "id_pools_inv g" "g k = Some p" "id_pool_inv p'"
    "ip_phy_devid p' = ip_phy_devid p" "ip_sub_id p' = ip_sub_id p" "ip_type p' = ip_type p"
  shows "id_pools_inv (g(k \<mapsto> p'))"
  using inv_update [OF assms(1,3), of k] inv_key [OF assms(1,2)] assms(4-6) by simp

definition id_pool_empty :: "u32 \<Rightarrow> u32 \<Rightarrow> int \<Rightarrow> id_pool" where
  "id_pool_empty d s t = \<lparr>ip_phy_devid = d, ip_sub_id = s, ip_type = t, ip_root = Leaf,
                          ip_pool_num = 0, ip_id_total_num = 0\<rparr>"

lemma id_pool_empty_inv: "id_pool_inv (id_pool_empty d s t)"
  by (simp add: id_pool_inv_def id_pool_empty_def nodes_ok_def)

lemma id_pool_empty_ids [simp]: "id_pool_ids (id_pool_empty d s t) = {}" "id_pool_used (id_pool_empty d s t) = {}"
  by (simp_all add: id_pool_ids_def id_pool_used_def id_pool_empty_def)

text \<open>The pool \<^verbatim>\<open>id_pool_register\<close> works on: the one of the table, or the new one.\<close>

definition id_pool_at :: "id_pools \<Rightarrow> id_pool_inst \<Rightarrow> int \<Rightarrow> id_pool" where
  "id_pool_at g inst ty =
     (case g (id_pool_key inst ty) of
        Some p \<Rightarrow> p | None \<Rightarrow> id_pool_empty (inst_phy_devid inst) (inst_sub_id inst) ty)"

lemma id_pool_at_inv:
  assumes "id_pools_inv g"
  shows "id_pool_inv (id_pool_at g inst ty)"
    and "id_pool_key inst ty = IdPoolIdx (ip_phy_devid (id_pool_at g inst ty)) (ip_sub_id (id_pool_at g inst ty))
                                (ip_type (id_pool_at g inst ty))"
  using inv_lookup [OF assms] inv_key [OF assms] id_pool_empty_inv
  by (auto simp: id_pool_at_def id_pool_key_def id_pool_empty_def split: option.splits)

lemma id_pool_init_mem: "id_pool_init True g inst ty = (Some (id_pool_at g inst ty), g(id_pool_key inst ty \<mapsto> id_pool_at g inst ty))"
  by (auto simp: id_pool_init_def id_pool_at_def id_pool_create_def id_pool_empty_def Let_def fun_upd_idem
           split: option.splits)

definition attr_node :: "id_pool_attr \<Rightarrow> id_pool_node" where
  "attr_node a = \<lparr>pn_idr = {}, pn_node_tunable = (ia_node_tunable a \<noteq> 0), pn_id_start = ia_id_start a,
                  pn_id_avail_num = ia_id_total_num a, pn_id_total_num = ia_id_total_num a\<rparr>"

lemma attr_node_ok: "id_pool_attr_check (Some a) = 0 \<Longrightarrow> pn_ok (attr_node a)"
  using word_add_less_iff [of "ia_id_total_num a" "ia_id_start a"]
  by (auto simp: id_pool_attr_check_def pn_ok_def attr_node_def pn_end_def split: if_splits)

lemma register_eq:
  assumes "id_pool_inst_check (Some inst) ty = 0" "id_pool_attr_check (Some a) = 0"
  shows "id_pool_register rb True True g (Some inst) ty (Some a) =
    (let (ret, p') = id_pool_node_add rb (id_pool_at g inst ty) (attr_node a)
     in (ret, g(id_pool_key inst ty \<mapsto> p')))"
  using assms
  by (simp add: id_pool_register_def id_pool_init_mem id_pool_node_create_def attr_node_def Let_def
           split: prod.splits)

lemma register_cases:
  "snd (id_pool_register rb m1 m2 g inst ty attr) = g \<or>
   (\<exists>i a. inst = Some i \<and> attr = Some a \<and> id_pool_inst_check inst ty = 0 \<and> id_pool_attr_check attr = 0 \<and>
     (snd (id_pool_register rb m1 m2 g inst ty attr) = g(id_pool_key i ty := None) \<and> g (id_pool_key i ty) = None \<or>
      snd (id_pool_register rb m1 m2 g inst ty attr) = g(id_pool_key i ty \<mapsto> id_pool_at g i ty) \<or>
      id_pool_register rb m1 m2 g inst ty attr = id_pool_register rb True True g inst ty attr))"
proof (cases "id_pool_inst_check inst ty = 0 \<and> id_pool_attr_check attr = 0")
  case True
  then obtain i a where ia: "inst = Some i" "attr = Some a"
    by (cases inst; cases attr) (auto simp: id_pool_inst_check_def id_pool_attr_check_def)
  show ?thesis
  proof (cases "m1 \<or> g (id_pool_key i ty) \<noteq> None")
    case m1: True
    then have "id_pool_init m1 g i ty = id_pool_init True g i ty"
      by (cases m1) (auto simp: id_pool_init_def)
    then show ?thesis using True ia
      by (cases m2) (auto simp: id_pool_register_def id_pool_init_mem id_pool_node_create_def)
  next
    case False
    then show ?thesis using True ia
      by (simp add: id_pool_register_def id_pool_init_def id_pool_create_def)
  qed
qed (auto simp: id_pool_register_def Let_def)

lemma register_inv [inv_intros]:
  assumes "rb_ok rb" "id_pools_inv g"
  shows "id_pools_inv (snd (id_pool_register rb m1 m2 g inst ty attr))"
proof -
  have step: "id_pools_inv (snd (id_pool_register rb True True g (Some i) ty (Some a)))"
    if c: "id_pool_inst_check (Some i) ty = 0" "id_pool_attr_check (Some a) = 0" for i a
  proof -
    let ?p = "id_pool_at g i ty"
    obtain ret p' where add: "id_pool_node_add rb ?p (attr_node a) = (ret, p')" "id_pool_inv p'"
        "ip_phy_devid p' = ip_phy_devid ?p" "ip_sub_id p' = ip_sub_id ?p" "ip_type p' = ip_type ?p"
      using node_add_cases [OF assms(1) id_pool_at_inv(1) [OF assms(2), of i ty] attr_node_ok [OF c(2)]]
        id_pool_at_inv(1) [OF assms(2), of i ty] by metis
    have "id_pools_inv (g(id_pool_key i ty \<mapsto> p'))"
      using id_pool_at_inv(2) [OF assms(2), of i ty] add by (intro inv_update [OF assms(2)]) simp_all
    then show ?thesis using register_eq [OF c, of rb g] add(1) by simp
  qed
  show ?thesis
    using register_cases [of rb m1 m2 g inst ty attr] assms(2) step
      inv_update [OF assms(2) id_pool_at_inv [OF assms(2)]] inv_remove [OF assms(2)]
    by metis
qed

lemma unregister_inv [inv_intros]:
  assumes "rb_ok rb" "id_pools_inv g"
  shows "id_pools_inv (id_pool_unregister rb g inst ty attr)"
proof -
  have "id_pools_inv (g(k \<mapsto> id_pool_node_del rb p n))"
    if "g k = Some p" "id_pool_node_find_by_range p s t = Some n" for k p n s t
  proof -
    have "n \<in> set (inorder (ip_root p))"
      using that(2) by (auto simp: id_pool_node_find_by_range_def find_Some_iff)
    from node_del_inv(1) [OF assms(1) inv_lookup [OF assms(2) that(1)] this] show ?thesis
      by (intro inv_same_fields [OF assms(2) that(1)]) simp_all
  qed
  then show ?thesis using assms(2)
    by (auto simp: id_pool_unregister_def id_pool_get_def split: option.splits)
qed

lemma alloc0_inv:
  assumes "idr_ok ida" "id_pools_inv g" "g k = Some p" "id_pool_alloc0 ida p = (ret, i, p')"
  shows "id_pools_inv (g(k \<mapsto> p'))"
proof -
  have inv: "id_pool_inv p" using assms(2,3) by (rule inv_lookup)
  show ?thesis
  proof (rule alloc0_cases [OF inv assms(1)])
    fix i n
    assume "id_pool_alloc0 ida p = (0, Some i, id_pool_set_node n (idr_take i n) p)"
      "n \<in> set (inorder (ip_root p))" "i \<in> {pn_id_start n ..< pn_end n} - pn_idr n"
    then show ?thesis using assms(4) take_spec(2) [OF inv]
      by (intro inv_same_fields [OF assms(2,3)]) auto
  next
    assume "id_pool_alloc0 ida p = (- ENOSPC, None, p)"
    then show ?thesis using assms by (simp add: fun_upd_idem)
  qed
qed

lemma alloc_inv [inv_intros]:
  assumes "idr_ok ida" "id_pools_inv g"
  shows "id_pools_inv (snd (snd (id_pool_alloc ida g inst ty ptr)))"
  using assms(2) alloc0_inv [OF assms]
  by (auto simp: id_pool_alloc_def id_pool_get_def Let_def split: option.splits prod.splits)

lemma alloc_by_range_inv [inv_intros]:
  assumes "idr_ok ida" "id_pools_inv g" "id_pool_alloc_by_range ida g inst ty start stop ptr = Some (ret, i, g')"
  shows "id_pools_inv g'"
proof -
  have "id_pools_inv (g(k \<mapsto> p'))"
    if lt: "start < stop" and k: "g k = Some p" and r: "id_pool_alloc_range0 ida p start stop = (ret, i, p')"
    for k p p' ret i
  proof -
    have inv: "id_pool_inv p" using assms(2) k by (rule inv_lookup)
    show ?thesis
    proof (rule alloc_range0_cases [OF inv assms(1) lt])
      fix i n
      assume "id_pool_alloc_range0 ida p start stop = (0, Some i, id_pool_set_node n (idr_take i n) p)"
        "n \<in> set (inorder (ip_root p))" "i \<in> {pn_id_start n ..< pn_end n} - pn_idr n"
      then show ?thesis using r take_spec(2) [OF inv] by (intro inv_same_fields [OF assms(2) k]) auto
    next
      assume "id_pool_alloc_range0 ida p start stop = (- ENOSPC, None, p)"
      then show ?thesis using r k assms(2) by (simp add: fun_upd_idem)
    qed
  qed
  then show ?thesis using assms(2,3)
    by (auto simp: id_pool_alloc_by_range_def id_pool_get_def Let_def not_le split: option.splits prod.splits if_splits)
qed

lemma free_inv [inv_intros]:
  assumes "id_pools_inv g"
  shows "id_pools_inv (id_pool_free g inst ty i)"
proof -
  have "id_pools_inv (g(k \<mapsto> snd (id_pool_free0 p i)))" if k: "g k = Some p" for k p
  proof -
    have inv: "id_pool_inv p" using assms k by (rule inv_lookup)
    show ?thesis
    proof (rule free0_cases [OF inv, of i])
      fix n
      assume n: "id_pool_free0 p i = (0, id_pool_set_node n (idr_release i n) p)"
        "n \<in> set (inorder (ip_root p))" "i \<in> pn_idr n"
      have "id_pool_inv (id_pool_set_node n (idr_release i n) p)"
        using pn_ok_release [OF nodes_ok_member [OF id_pool_inv_nodes [OF inv] n(2)] n(3)]
        by (intro id_pool_inv_set_node [OF inv n(2)]) simp_all
      then show ?thesis using n(1) by (intro inv_same_fields [OF assms k]) simp_all
    qed (use assms k in \<open>simp_all add: fun_upd_idem\<close>)
  qed
  then show ?thesis using assms by (auto simp: id_pool_free_def id_pool_get_def split: option.splits)
qed

lemma uninit_ends:
  assumes "rb_ok rb" "id_pools_inv g"
  shows "id_pool_uninit rb g inst ty = Some (g(id_pool_key inst ty := None))"
  using node_destroy_all_ends [OF assms(1) inv_lookup [OF assms(2)], of "id_pool_key inst ty"]
  by (auto simp: id_pool_uninit_def Let_def split: option.splits)

lemma exit_loop_ends:
  assumes "rb_ok rb" "id_pools_inv g"
  shows "id_pool_exit_loop rb ks g = Some (fold id_pool_clear ks g)"
  using assms(2)
proof (induction ks arbitrary: g)
  case (Cons k ks)
  obtain d s t where k: "k = IdPoolIdx d s t" by (cases k)
  have "id_pool_uninit rb g (id_pool_inst_pack d s) t = Some (id_pool_clear k g)"
    using uninit_ends [OF assms(1) Cons.prems, of "id_pool_inst_pack d s" t] k
    by (simp add: id_pool_key_def id_pool_inst_pack_def id_pool_clear_def)
  moreover have "id_pools_inv (id_pool_clear k g)"
    using inv_remove [OF Cons.prems, of k] by (simp add: id_pool_clear_def)
  ultimately show ?case using Cons.IH k by simp
qed simp

lemma fold_clear: "fold id_pool_clear ks g x = (if x \<in> set ks then None else g x)"
  by (induction ks arbitrary: g) (auto simp: id_pool_clear_def)


section \<open>Runs of the module\<close>

text \<open>One exported call, in any order and with any arguments and any \<^verbatim>\<open>kzalloc\<close> outcome.\<close>

inductive id_pool_step :: "id_pool_node rb_ops \<Rightarrow> idr_alloc \<Rightarrow> id_pools \<Rightarrow> id_pools \<Rightarrow> bool"
  for rb ida where
  register: "id_pool_step rb ida g (snd (id_pool_register rb m1 m2 g inst ty attr))"
| unregister: "id_pool_step rb ida g (id_pool_unregister rb g inst ty attr)"
| alloc: "id_pool_step rb ida g (snd (snd (id_pool_alloc ida g inst ty ptr)))"
| alloc_by_range: "id_pool_alloc_by_range ida g inst ty start stop ptr = Some (ret, i, g') \<Longrightarrow>
    id_pool_step rb ida g g'"
| free: "id_pool_step rb ida g (id_pool_free g inst ty i)"

inductive id_pool_reach :: "id_pool_node rb_ops \<Rightarrow> idr_alloc \<Rightarrow> id_pools \<Rightarrow> bool"
  for rb ida where
  start: "id_pool_reach rb ida (id_pool_init_all Map.empty)"
| step: "id_pool_reach rb ida g \<Longrightarrow> id_pool_step rb ida g g' \<Longrightarrow> id_pool_reach rb ida g'"

lemma id_pool_step_inv:
  assumes "id_pool_step rb ida g g'" "rb_ok rb" "idr_ok ida" "id_pools_inv g"
  shows "id_pools_inv g'"
  using assms by (cases rule: id_pool_step.cases) (auto intro: inv_intros)

section \<open>Properties\<close>

text \<open>A small pool for closed examples: ids 2 to 9 of device 0, sub-device 0, type 0.\<close>

definition demo_node :: id_pool_node where
  "demo_node = \<lparr>pn_idr = {}, pn_node_tunable = True, pn_id_start = 2, pn_id_avail_num = 8, pn_id_total_num = 8\<rparr>"

definition demo_pool :: id_pool where
  "demo_pool = \<lparr>ip_phy_devid = 0, ip_sub_id = 0, ip_type = 0, ip_root = Node Leaf demo_node Leaf,
                ip_pool_num = 1, ip_id_total_num = 8\<rparr>"

definition demo_inst :: id_pool_inst where
  "demo_inst = id_pool_inst_pack 0 0"

definition demo_pools :: id_pools where
  "demo_pools = [id_pool_key demo_inst 0 \<mapsto> demo_pool]"

lemmas demo_defs = demo_node_def demo_pool_def demo_inst_def demo_pools_def id_pool_inst_pack_def id_pool_key_def

lemma demo_inv: "id_pools_inv demo_pools"
  by (simp add: id_pools_inv_def id_pool_inv_def nodes_ok_def pn_ok_def pn_end_def demo_defs)

lemma demo_alloc:
  "id_pool_alloc idr_lowest demo_pools (Some demo_inst) 0 True =
   (0, Some 2, demo_pools(id_pool_key demo_inst 0 \<mapsto> id_pool_set_node demo_node (idr_take 2 demo_node) demo_pool))"
  by (simp add: id_pool_alloc_def id_pool_get_def id_pool_inst_check_def id_pool_alloc0_def idr_lowest_def
      idr_limit_def pn_end_def upto_rec_numeral Let_def demo_defs)

text \<open>C1. In every state the module can reach from its start, by any sequence of exported calls with
  any arguments and allocation failures, every pool is well formed: its ranges are ordered, not
  empty and disjoint, every id in use lies in its range, and the three counters (ids available per
  range, ranges, ids) agree with the tree.\<close>

theorem id_pool_reachable_inv:
  assumes "rb_ok rb" "idr_ok ida" "id_pool_reach rb ida g"
  shows "id_pools_inv g"
  using assms(3)
proof induction
  case start
  then show ?case by (simp add: id_pools_inv_def id_pool_init_all_def fold_clear)
next
  case (step g g')
  then show ?case using id_pool_step_inv [OF _ assms(1,2)] by blast
qed

theorem id_pool_reachable_inv_witness:
  "rb_ok plain_rb \<and> idr_ok idr_lowest \<and> id_pools_inv (id_pool_free (id_pool_init_all Map.empty) None 0 0)"
proof -
  have "id_pool_reach plain_rb idr_lowest (id_pool_free (id_pool_init_all Map.empty) None 0 0)"
    by (rule id_pool_reach.step [OF id_pool_reach.start id_pool_step.free])
  with id_pool_reachable_inv [OF plain_rb_ok idr_lowest_ok] show ?thesis
    using plain_rb_ok idr_lowest_ok by blast
qed

text \<open>C2. A successful \<^verbatim>\<open>id_pool_alloc\<close> returns an id that the pool owns and that was not in use; the
  pool's ids are unchanged, exactly that id becomes in use, and no other pool changes.\<close>

theorem id_pool_alloc_fresh:
  assumes "idr_ok ida" "id_pools_inv g" "id_pool_alloc ida g (Some inst) ty ptr = (0, r, g')"
  shows "\<exists>p p' i. g (id_pool_key inst ty) = Some p \<and> g' = g(id_pool_key inst ty \<mapsto> p') \<and> r = Some i \<and>
    i \<in> id_pool_ids p - id_pool_used p \<and> id_pool_ids p' = id_pool_ids p \<and>
    id_pool_used p' = insert i (id_pool_used p)"
proof -
  obtain p p' where p: "g (id_pool_key inst ty) = Some p" "id_pool_alloc0 ida p = (0, r, p')"
      "g' = g(id_pool_key inst ty \<mapsto> p')"
    using assms(3)
    by (auto simp: id_pool_alloc_def id_pool_get_def id_pool_inst_check_def Let_def split: option.splits prod.splits if_splits)
  have inv: "id_pool_inv p" using assms(2) p(1) by (rule inv_lookup)
  show ?thesis
  proof (rule alloc0_cases [OF inv assms(1)])
    fix i n
    assume "id_pool_alloc0 ida p = (0, Some i, id_pool_set_node n (idr_take i n) p)"
      and n: "n \<in> set (inorder (ip_root p))" "i \<in> {pn_id_start n ..< pn_end n} - pn_idr n"
    with p show ?thesis using take_spec(1,3,4) [OF inv n] by auto
  qed (use p(2) in auto)
qed

theorem id_pool_alloc_fresh_witness:
  "idr_ok idr_lowest \<and> id_pools_inv demo_pools \<and>
   (\<exists>g'. id_pool_alloc idr_lowest demo_pools (Some demo_inst) 0 True = (0, Some 2, g') \<and>
     (\<exists>p p' i. demo_pools (id_pool_key demo_inst 0) = Some p \<and> g' = demo_pools(id_pool_key demo_inst 0 \<mapsto> p') \<and>
       Some 2 = Some i \<and> i \<in> id_pool_ids p - id_pool_used p \<and> id_pool_ids p' = id_pool_ids p \<and>
       id_pool_used p' = insert i (id_pool_used p)))"
  using id_pool_alloc_fresh [OF idr_lowest_ok demo_inv demo_alloc] idr_lowest_ok demo_inv demo_alloc by blast

text \<open>C3. Completeness of the search: when memory does not run out, \<^verbatim>\<open>id_pool_alloc\<close> on a registered
  pool fails only with \<^verbatim>\<open>-ENOSPC\<close>, changes nothing, and then every id of the pool below \<^verbatim>\<open>2^31\<close> (the
  ids an \<^verbatim>\<open>idr\<close> can hold) is in use.\<close>

theorem id_pool_alloc_complete:
  assumes "idr_ok ida" "\<And>used s e. ida used s e \<noteq> - ENOMEM" "id_pools_inv g"
    "id_pool_inst_check (Some inst) ty = 0" "g (id_pool_key inst ty) = Some p"
    "id_pool_alloc ida g (Some inst) ty True = (ret, r, g')" "ret \<noteq> 0"
  shows "ret = - ENOSPC \<and> r = None \<and> g' = g \<and> id_pool_ids p \<inter> {i. i < 0x80000000} \<subseteq> id_pool_used p"
proof -
  have inv: "id_pool_inv p" using assms(3,5) by (rule inv_lookup)
  show ?thesis
  proof (rule alloc0_cases [OF inv assms(1)])
    fix i n
    assume "id_pool_alloc0 ida p = (0, Some i, id_pool_set_node n (idr_take i n) p)"
    then show ?thesis using assms(4-7) by (simp add: id_pool_alloc_def id_pool_get_def)
  next
    assume none: "id_pool_alloc0 ida p = (- ENOSPC, None, p)" "id_pool_alloc_scan ida (inorder (ip_root p)) = None"
    have "\<forall>n \<in> set (inorder (ip_root p)). pn_ok n"
      using nodes_ok_member [OF id_pool_inv_nodes [OF inv]] by blast
    from alloc_scan_None [OF assms(1,2) this none(2)]
    have "id_pool_ids p \<inter> {i. i < 0x80000000} \<subseteq> id_pool_used p"
      by (auto simp: id_pool_ids_def id_pool_used_def)
    then show ?thesis using none(1) assms(4-6)
      by (simp add: id_pool_alloc_def id_pool_get_def fun_upd_idem)
  qed
qed

theorem id_pool_alloc_complete_witness:
  "id_pool_alloc idr_lowest [id_pool_key demo_inst 0 \<mapsto> id_pool_empty 0 0 0] (Some demo_inst) 0 True
     = (- ENOSPC, None, [id_pool_key demo_inst 0 \<mapsto> id_pool_empty 0 0 0])"
proof -
  have nomem: "\<And>used s e. idr_lowest used s e \<noteq> - ENOMEM"
    by (auto simp: idr_lowest_def find_Some_iff split: option.splits dest!: nth_mem)
  have inv: "id_pools_inv [id_pool_key demo_inst 0 \<mapsto> id_pool_empty 0 0 0]"
    using id_pool_empty_inv by (simp add: id_pools_inv_def id_pool_empty_def demo_defs)
  obtain ret r g' where e: "id_pool_alloc idr_lowest [id_pool_key demo_inst 0 \<mapsto> id_pool_empty 0 0 0] (Some demo_inst) 0 True = (ret, r, g')"
    by (cases "id_pool_alloc idr_lowest [id_pool_key demo_inst 0 \<mapsto> id_pool_empty 0 0 0] (Some demo_inst) 0 True")
  have "ret \<noteq> 0" using e
    by (simp add: id_pool_alloc_def id_pool_get_def id_pool_inst_check_def id_pool_alloc0_def id_pool_empty_def demo_defs)
  from id_pool_alloc_complete [OF idr_lowest_ok nomem inv _ _ e this] e show ?thesis
    by (simp add: id_pool_inst_check_def demo_defs)
qed


text \<open>\<^verbatim>\<open>id_pool_alloc_by_range\<close> on an accepted instance either returns a fresh id of the pool inside
  the caller's window and marks exactly that id in use, or fails and changes nothing.\<close>

theorem id_pool_alloc_by_range_spec:
  assumes "idr_ok ida" "id_pools_inv g" "id_pool_inst_check (Some inst) ty = 0"
    "g (id_pool_key inst ty) = Some p"
    "id_pool_alloc_by_range ida g (Some inst) ty start stop True = Some (ret, r, g')"
  shows "ret = 0 \<and> (\<exists>i p'. r = Some i \<and> i \<in> (id_pool_ids p - id_pool_used p) \<inter> {start ..< stop} \<and>
           g' = g(id_pool_key inst ty \<mapsto> p') \<and> id_pool_ids p' = id_pool_ids p \<and>
           id_pool_used p' = insert i (id_pool_used p))
       \<or> (ret = - ENOSPC \<and> start < stop \<or> ret = - EFAULT \<and> stop \<le> start) \<and> r = None \<and> g' = g"
proof (cases "start < stop")
  case True
  have inv: "id_pool_inv p" using assms(2,4) by (rule inv_lookup)
  have ns: "\<not> stop \<le> start" using True by (simp add: linorder_not_le)
  have eq: "(case id_pool_alloc_range0 ida p start stop of
      (ret, i, pool') \<Rightarrow> (ret, i, g(id_pool_key inst ty \<mapsto> pool'))) = (ret, r, g')"
    using assms(3-5) ns by (simp add: id_pool_alloc_by_range_def id_pool_get_def split: prod.splits)
  show ?thesis
  proof (rule alloc_range0_cases [OF inv assms(1) True])
    fix i n
    assume a: "id_pool_alloc_range0 ida p start stop = (0, Some i, id_pool_set_node n (idr_take i n) p)"
      and n: "n \<in> set (inorder (ip_root p))" "i \<in> {pn_id_start n ..< pn_end n} - pn_idr n"
      and i: "i \<in> {start ..< stop}"
    show ?thesis using eq a i take_spec(1,3,4) [OF inv n] by (intro disjI1) auto
  next
    assume "id_pool_alloc_range0 ida p start stop = (- ENOSPC, None, p)"
    then show ?thesis using eq True assms(4) by (auto simp: fun_upd_idem)
  qed
next
  case False
  then have "stop \<le> start" by (simp add: linorder_not_less)
  then show ?thesis using assms(5) by (auto simp: id_pool_alloc_by_range_def)
qed

lemma demo_alloc_by_range:
  "id_pool_alloc_by_range idr_lowest demo_pools (Some demo_inst) 0 5 7 True =
   Some (0, Some 5, demo_pools(id_pool_key demo_inst 0 \<mapsto> id_pool_set_node demo_node (idr_take 5 demo_node) demo_pool))"
  by (simp add: id_pool_alloc_by_range_def id_pool_get_def id_pool_inst_check_def id_pool_alloc_range0_def
      idr_lowest_def idr_limit_def pn_end_def upto_rec_numeral Let_def demo_defs)

theorem id_pool_alloc_by_range_spec_witness:
  "\<exists>i p'. Some 5 = Some i \<and> i \<in> (id_pool_ids demo_pool - id_pool_used demo_pool) \<inter> {5 ..< 7} \<and>
     id_pool_used p' = insert i (id_pool_used demo_pool)"
proof -
  have "id_pool_inst_check (Some demo_inst) 0 = 0" by (simp add: id_pool_inst_check_def demo_defs)
  moreover have "demo_pools (id_pool_key demo_inst 0) = Some demo_pool" by (simp add: demo_pools_def)
  ultimately show ?thesis
    using id_pool_alloc_by_range_spec [OF idr_lowest_ok demo_inv _ _ demo_alloc_by_range] by auto
qed

text \<open>What \<^verbatim>\<open>map_tree\<close> over the tree undoes: writing a node and writing the old value back.\<close>

lemma set_node_undo:
  assumes "n' \<notin> set (inorder (ip_root p))"
  shows "id_pool_set_node n' n (id_pool_set_node n n' p) = p"
proof -
  have "map_tree ((\<lambda>m. if m = n' then n else m) \<circ> (\<lambda>m. if m = n then n' else m)) (ip_root p)
      = map_tree id (ip_root p)"
    using assms by (intro tree.map_cong0) (auto simp: set_inorder [symmetric])
  then show ?thesis by (simp add: id_pool_set_node_def tree.map_comp tree.map_id)
qed

lemma idr_release_take: "i \<notin> pn_idr n \<Longrightarrow> idr_release i (idr_take i n) = n"
  by (simp add: idr_release_def idr_take_def)

text \<open>Round trip: freeing an id that \<^verbatim>\<open>id_pool_alloc\<close> just returned restores the whole state of the
  module, tree shape and counters included.\<close>

theorem id_pool_alloc_free_roundtrip:
  assumes "idr_ok ida" "id_pools_inv g" "id_pool_alloc ida g (Some inst) ty ptr = (0, Some i, g')"
  shows "id_pool_free g' (Some inst) ty i = g"
proof -
  obtain p p' where p: "g (id_pool_key inst ty) = Some p" "id_pool_alloc0 ida p = (0, Some i, p')"
      "g' = g(id_pool_key inst ty \<mapsto> p')" and chk: "id_pool_inst_check (Some inst) ty = 0"
    using assms(3)
    by (auto simp: id_pool_alloc_def id_pool_get_def Let_def split: option.splits prod.splits if_splits)
  have inv: "id_pool_inv p" using assms(2) p(1) by (rule inv_lookup)
  obtain n where n: "p' = id_pool_set_node n (idr_take i n) p" "n \<in> set (inorder (ip_root p))"
      "i \<in> {pn_id_start n ..< pn_end n} - pn_idr n"
    using p(2) by (rule_tac alloc0_cases [OF inv assms(1)]) auto
  have inv': "id_pool_inv p'" using take_spec(2) [OF inv n(2,3)] n(1) by simp
  have mem: "idr_take i n \<in> set (inorder (ip_root p'))" using n(1,2) by auto
  have find: "id_pool_node_find_by_id (ip_root p') i = Some (idr_take i n)"
    using find_by_id_Some [OF id_pool_inv_nodes [OF inv']] mem n(3) by simp
  have new: "idr_take i n \<notin> set (inorder (ip_root p))"
    using nodes_ok_unique [OF id_pool_inv_nodes [OF inv] _ n(2), of "idr_take i n" i] n(3)
    by (metis DiffE idr_take_simps(1,2,4) insertI1)
  have "snd (id_pool_free0 p' i) = p"
    using find n(3) set_node_undo [OF new, of n] by (simp add: id_pool_free0_def idr_release_take n(1))
  then show ?thesis using chk p(1,3) by (simp add: id_pool_free_def id_pool_get_def fun_upd_idem)
qed

theorem id_pool_alloc_free_roundtrip_witness:
  "id_pool_free (snd (snd (id_pool_alloc idr_lowest demo_pools (Some demo_inst) 0 True))) (Some demo_inst) 0 2
     = demo_pools"
  using id_pool_alloc_free_roundtrip [OF idr_lowest_ok demo_inv demo_alloc] demo_alloc by simp

text \<open>\<^verbatim>\<open>id_pool_free\<close> of an id that is in use makes exactly that id free; of any other id (not in
  use, or not of the pool) it changes nothing, so a double free is harmless.\<close>

theorem id_pool_free_spec:
  assumes "id_pools_inv g" "id_pool_inst_check (Some inst) ty = 0" "g (id_pool_key inst ty) = Some p"
  shows "\<exists>p'. id_pool_free g (Some inst) ty i = g(id_pool_key inst ty \<mapsto> p') \<and>
    id_pool_ids p' = id_pool_ids p \<and> id_pool_used p' = id_pool_used p - {i} \<and>
    (i \<notin> id_pool_used p \<longrightarrow> p' = p)"
proof -
  have inv: "id_pool_inv p" using assms(1,3) by (rule inv_lookup)
  have "id_pool_ids (snd (id_pool_free0 p i)) = id_pool_ids p \<and>
        id_pool_used (snd (id_pool_free0 p i)) = id_pool_used p - {i} \<and>
        (i \<notin> id_pool_used p \<longrightarrow> snd (id_pool_free0 p i) = p)"
  proof (rule free0_cases [OF inv, of i])
    fix n
    assume "id_pool_free0 p i = (0, id_pool_set_node n (idr_release i n) p)"
      and n: "n \<in> set (inorder (ip_root p))" "i \<in> pn_idr n" "i \<in> id_pool_used p"
    then show ?thesis using used_release [OF inv n(1,2)] ids_set_node [OF n(1), of "idr_release i n"] by simp
  next
    assume "id_pool_free0 p i = (- ENODEV, p)" "i \<notin> id_pool_ids p"
    then show ?thesis using used_subset_ids [OF inv] by auto
  qed auto
  then show ?thesis using assms(2,3) by (auto simp: id_pool_free_def id_pool_get_def)
qed

theorem id_pool_free_spec_witness:
  "\<exists>p'. id_pool_free demo_pools (Some demo_inst) 0 3 = demo_pools(id_pool_key demo_inst 0 \<mapsto> p') \<and> p' = demo_pool"
proof -
  have "id_pool_inst_check (Some demo_inst) 0 = 0" by (simp add: id_pool_inst_check_def demo_defs)
  moreover have "demo_pools (id_pool_key demo_inst 0) = Some demo_pool" by (simp add: demo_pools_def)
  moreover have "3 \<notin> id_pool_used demo_pool" by (simp add: id_pool_used_def demo_defs)
  ultimately show ?thesis using id_pool_free_spec [OF demo_inv, of demo_inst 0 demo_pool 3] by auto
qed

text \<open>Registering a valid range with memory at hand fails with \<^verbatim>\<open>-EBUSY\<close> when the pool has 32
  ranges, with \<^verbatim>\<open>-ENODEV\<close> when the range overlaps a registered one, with \<^verbatim>\<open>-EFAULT\<close> when the id count
  would overflow, and in all these cases leaves the pool's ids as they were; otherwise it returns 0
  and adds exactly the range, with every new id free.\<close>

theorem id_pool_register_spec:
  assumes "rb_ok rb" "id_pools_inv g" "id_pool_inst_check (Some inst) ty = 0" "id_pool_attr_check (Some a) = 0"
    "id_pool_register rb True True g (Some inst) ty (Some a) = (ret, g')"
  shows "\<exists>p'. g' = g(id_pool_key inst ty \<mapsto> p') \<and>
    id_pool_used p' = id_pool_used (id_pool_at g inst ty) \<and>
    (ret = 0 \<and> id_pool_ids p' = id_pool_ids (id_pool_at g inst ty) \<union> {ia_id_start a ..< ia_id_start a + ia_id_total_num a}
       \<and> id_pool_ids (id_pool_at g inst ty) \<inter> {ia_id_start a ..< ia_id_start a + ia_id_total_num a} = {} \<or>
     p' = id_pool_at g inst ty \<and>
     (ret = - EBUSY \<and> length (inorder (ip_root (id_pool_at g inst ty))) = 32 \<or>
      ret = - EFAULT \<and> card (id_pool_ids (id_pool_at g inst ty)) + unat (ia_id_total_num a) \<ge> 2 ^ 32 \<or>
      ret = - ENODEV \<and> id_pool_ids (id_pool_at g inst ty) \<inter> {ia_id_start a ..< ia_id_start a + ia_id_total_num a} \<noteq> {}))"
proof -
  let ?p = "id_pool_at g inst ty" and ?n = "attr_node a"
  have inv: "id_pool_inv ?p" using id_pool_at_inv(1) [OF assms(2)] .
  have n: "pn_ok ?n" "pn_idr ?n = {}" "pn_id_start ?n = ia_id_start a"
      "pn_end ?n = ia_id_start a + ia_id_total_num a" "pn_id_total_num ?n = ia_id_total_num a"
    using attr_node_ok [OF assms(4)] by (simp_all add: attr_node_def pn_end_def)
  obtain p' where p': "id_pool_node_add rb ?p ?n = (ret, p')" "g' = g(id_pool_key inst ty \<mapsto> p')"
    using register_eq [OF assms(3,4), of rb g] assms(5) by (auto simp: Let_def split: prod.splits)
  show ?thesis
  proof (rule node_add_cases [OF assms(1) inv n(1)])
    fix q
    assume q: "id_pool_node_add rb ?p ?n = (0, q)" "id_pool_inv q"
      "set (inorder (ip_root q)) = insert ?n (set (inorder (ip_root ?p)))"
      and dis: "\<forall>e \<in> set (inorder (ip_root ?p)). \<not> pn_overlap ?n e"
    have "id_pool_used q = id_pool_used ?p" using q(3) n(2) by (simp add: id_pool_used_def)
    moreover have "id_pool_ids q = {pn_id_start ?n ..< pn_end ?n} \<union> id_pool_ids ?p"
      using q(3) by (simp add: id_pool_ids_def)
    moreover have "id_pool_ids ?p \<inter> {pn_id_start ?n ..< pn_end ?n} = {}"
      using dis unfolding pn_overlap_def id_pool_ids_def by blast
    ultimately show ?thesis using p' q(1) n(3,4) by (intro exI [of _ q]) (simp add: Un_commute)
  next
    assume add: "id_pool_node_add rb ?p ?n = (- ENODEV, ?p)" and "\<exists>e \<in> set (inorder (ip_root ?p)). pn_overlap ?n e"
    then have "id_pool_ids ?p \<inter> {pn_id_start ?n ..< pn_end ?n} \<noteq> {}"
      unfolding pn_overlap_def id_pool_ids_def by blast
    then show ?thesis using p' add n(3,4) by auto
  qed (use p' n card_ids [OF inv] in auto)
qed

definition demo_attr :: "u32 \<Rightarrow> u32 \<Rightarrow> id_pool_attr" where
  "demo_attr s n = \<lparr>ia_node_tunable = 1, ia_id_start = s, ia_id_total_num = n\<rparr>"

lemma demo_num: "\<not> (32 :: u16) \<le> 1"
  by (simp add: word_le_nat_alt)

lemma demo_attr_sel [simp]: "ia_id_start (demo_attr s n) = s" "ia_id_total_num (demo_attr s n) = n"
  by (simp_all add: demo_attr_def)

lemma demo_register:
  "id_pool_register plain_rb True True demo_pools (Some demo_inst) 0 (Some (demo_attr 20 4)) =
   (0, demo_pools(id_pool_key demo_inst 0 \<mapsto>
      demo_pool\<lparr>ip_root := Node Leaf demo_node (Node Leaf (attr_node (demo_attr 20 4)) Leaf),
                ip_pool_num := 2, ip_id_total_num := 12\<rparr>))"
  using demo_num by (simp add: id_pool_register_def id_pool_inst_check_def id_pool_attr_check_def id_pool_init_def
      id_pool_node_create_def id_pool_node_add_def attr_node_def plain_rb_def pn_end_def Let_def demo_attr_def demo_defs)

theorem id_pool_register_spec_witness:
  "\<exists>p'. snd (id_pool_register plain_rb True True demo_pools (Some demo_inst) 0 (Some (demo_attr 20 4)))
         = demo_pools(id_pool_key demo_inst 0 \<mapsto> p') \<and>
     id_pool_ids p' = id_pool_ids demo_pool \<union> {20 ..< 24}"
proof -
  have c: "id_pool_inst_check (Some demo_inst) 0 = 0" "id_pool_attr_check (Some (demo_attr 20 4)) = 0"
    by (simp_all add: id_pool_inst_check_def id_pool_attr_check_def demo_attr_def demo_defs)
  have "id_pool_at demo_pools demo_inst 0 = demo_pool" by (simp add: id_pool_at_def demo_pools_def)
  with id_pool_register_spec [OF plain_rb_ok demo_inv c demo_register] show ?thesis
    by (auto simp: demo_register)
qed

text \<open>The counting queries are exact: on a registered pool \<^verbatim>\<open>id_pool_get_avail_num\<close> returns the number
  of ids not in use, \<^verbatim>\<open>id_pool_get_total_num\<close> the number of ids, and, for \<^verbatim>\<open>start <= end\<close>,
  \<^verbatim>\<open>id_pool_get_total_num_by_range\<close> the number of ids inside the window.\<close>

theorem id_pool_counts_exact:
  assumes "id_pools_inv g" "id_pool_inst_check (Some inst) ty = 0" "g (id_pool_key inst ty) = Some p"
    "start \<le> stop"
  shows "\<exists>a t w. id_pool_get_avail_num g (Some inst) ty True = (0, Some a) \<and>
    id_pool_get_total_num g (Some inst) ty True = (0, Some t) \<and>
    id_pool_get_total_num_by_range g (Some inst) ty start stop True = (0, Some w) \<and>
    unat a = card (id_pool_ids p - id_pool_used p) \<and> unat t = card (id_pool_ids p) \<and>
    unat w = card (id_pool_ids p \<inter> {start ..< stop})"
  using assms(2,3) avail_num0_card [OF inv_lookup [OF assms(1,3)]] total_num0_card [OF inv_lookup [OF assms(1,3)]]
    total_num_by_range0_card [OF inv_lookup [OF assms(1,3)] assms(4)]
  by (simp add: id_pool_get_avail_num_def id_pool_get_total_num_def id_pool_get_total_num_by_range_def id_pool_get_def)

theorem id_pool_counts_exact_witness:
  "\<exists>a t w. id_pool_get_avail_num demo_pools (Some demo_inst) 0 True = (0, Some a) \<and>
    id_pool_get_total_num demo_pools (Some demo_inst) 0 True = (0, Some t) \<and>
    id_pool_get_total_num_by_range demo_pools (Some demo_inst) 0 5 7 True = (0, Some w) \<and>
    unat a = card (id_pool_ids demo_pool - id_pool_used demo_pool) \<and> unat t = card (id_pool_ids demo_pool) \<and>
    unat w = card (id_pool_ids demo_pool \<inter> {5 ..< 7})"
proof (rule id_pool_counts_exact [OF demo_inv])
  show "id_pool_inst_check (Some demo_inst) 0 = 0" by (simp add: id_pool_inst_check_def demo_defs)
qed (simp_all add: demo_pools_def)

lemma idx_in_product:
  "d \<in> set ds \<Longrightarrow> s \<in> set ss \<Longrightarrow> t \<in> set ts \<Longrightarrow>
   IdPoolIdx d s t \<in> set (concat (map (\<lambda>d. concat (map (\<lambda>s. map (\<lambda>t. IdPoolIdx d s t) ts) ss)) ds))"
  by auto

text \<open>Unloading the module ends and frees every pool: \<^verbatim>\<open>id_pool_exit_all\<close> returns, whatever the pools
  hold, and no pool of the table is left.\<close>

theorem id_pool_exit_all_ends:
  assumes "rb_ok rb" "id_pools_inv g"
  shows "\<exists>g'. id_pool_exit_all rb g = Some g' \<and>
    (\<forall>inst ty. id_pool_inst_check (Some inst) ty = 0 \<longrightarrow> id_pool_get g' inst ty = None)"
proof -
  have dom: "d \<in> set [0, 1, 2, 3]" if "d < 4" for d :: u32
  proof -
    have "unat d < 4" using that by (simp add: word_less_nat_alt)
    then have "unat d = 0 \<or> unat d = 1 \<or> unat d = 2 \<or> unat d = 3" by linarith
    then show ?thesis by (auto simp: word_unat_eq_iff)
  qed
  have sub: "s \<in> set [0, 1]" if "s < 2" for s :: u32
  proof -
    have "unat s < 2" using that by (simp add: word_less_nat_alt)
    then have "unat s = 0 \<or> unat s = 1" by linarith
    then show ?thesis by (auto simp: word_unat_eq_iff)
  qed
  have keys: "id_pool_key inst ty \<in> set id_pool_all_keys"
    if "id_pool_inst_check (Some inst) ty = 0" for inst ty
  proof -
    have "inst_phy_devid inst < 4" "inst_sub_id inst < 2" "0 \<le> ty" "ty \<le> 18"
      using that by (auto simp: id_pool_inst_check_def linorder_not_le split: if_splits)
    then have "inst_phy_devid inst \<in> set [0, 1, 2, 3]" "inst_sub_id inst \<in> set [0, 1]" "ty \<in> set [0 .. 18]"
      using dom sub by auto
    then show ?thesis unfolding id_pool_all_keys_def id_pool_key_def by (rule idx_in_product)
  qed
  show ?thesis
    unfolding id_pool_exit_all_def exit_loop_ends [OF assms] id_pool_get_def
    using keys by (simp add: fold_clear)
qed

theorem id_pool_exit_all_ends_witness:
  "\<exists>g'. id_pool_exit_all plain_rb demo_pools = Some g' \<and> id_pool_get g' demo_inst 0 = None"
proof -
  have "id_pool_inst_check (Some demo_inst) 0 = 0" by (simp add: id_pool_inst_check_def demo_defs)
  with id_pool_exit_all_ends [OF plain_rb_ok demo_inv] show ?thesis by blast
qed

text \<open>Unlike every other entry point, \<^verbatim>\<open>id_pool_alloc_by_range\<close> dereferences a NULL \<^verbatim>\<open>inst\<close> on its first
  two error paths (it logs \<^verbatim>\<open>inst->phy_devid\<close> before \<^verbatim>\<open>id_pool_inst_check\<close>): the call has no defined
  result exactly when \<^verbatim>\<open>inst\<close> is NULL and the output pointer is NULL or the window is empty.\<close>

theorem id_pool_alloc_by_range_null_inst:
  "id_pool_alloc_by_range ida g inst ty start stop id_ptr = None \<longleftrightarrow>
   inst = None \<and> (id_ptr = False \<or> stop \<le> start)"
  by (auto simp: id_pool_alloc_by_range_def id_pool_inst_check_def Let_def split: option.splits prod.splits)

end
