(* ===== verification/Trs_Device_Id.thy ===== *)
theory Trs_Device_Id
  imports Id_Pool Trs_Id
begin

text \<open>
  The device side adapter between the id allocator and the id pools,
  \<^verbatim>\<open>rms/trs_drv/lba/local/sia/adapt/trs_device_id.c\<close>: it implements the callbacks of
  \<^verbatim>\<open>struct trs_id_ops\<close> on top of \<^verbatim>\<open>id_pool\<close> and registers an allocator pool for every id type of an
  instance. The backend state of the allocator is the table of id pools.

  \<open>sync\<close> is the notice operation \<^verbatim>\<open>sync_id_proc\<close>, a message to the other side that may register more
  ids and is NULL when no module registered one; \<open>sync_ok\<close> names what the adapter relies on: the
  exchange keeps the id pools well formed and releases or takes no id.
\<close>

unbundle bit_operations_syntax

type_synonym sync_id_proc = "id_pools \<Rightarrow> u32 \<Rightarrow> u32 \<Rightarrow> int \<Rightarrow> int \<times> id_pools"

definition sync_ok :: "sync_id_proc option \<Rightarrow> bool" where
  "sync_ok sync \<longleftrightarrow>
     (\<forall>f g d t ty. sync = Some f \<longrightarrow> id_pools_inv g \<longrightarrow>
        id_pools_inv (snd (f g d t ty)) \<and>
        (\<forall>inst ty'. id_pool_used (id_pool_at (snd (f g d t ty)) inst ty') = id_pool_used (id_pool_at g inst ty')))"

section \<open>Callbacks\<close>

text \<open>\<^verbatim>\<open>id_chip_def\<close> with the constants of the chip's \<^verbatim>\<open>trs_chip_def.h\<close>; entries not named are zero.\<close>

definition trs_id_get_local_range :: "int \<Rightarrow> u32 \<times> u32" where
  "trs_id_get_local_range ty =
     (if ty = TRS_LOGIC_CQ_ID then (0, 2048)
      else if ty = TRS_CB_SQ_ID then (0, 1024)
      else if ty = TRS_CB_CQ_ID then (0, 1024)
      else (0, 0))"

definition trs_device_pool_inst :: "trs_id_inst \<Rightarrow> id_pool_inst" where
  "trs_device_pool_inst inst = id_pool_inst_pack (ti_devid inst) (ti_tsid inst)"

text \<open>What the array \<^verbatim>\<open>id[]\<close> holds is read by the caller only below \<^verbatim>\<open>real_id_num\<close>.\<close>

definition trs_device_alloc_id_batch ::
    "idr_alloc \<Rightarrow> sync_id_proc option \<Rightarrow> id_pools \<Rightarrow> trs_id_inst \<Rightarrow> int \<Rightarrow> u32 \<Rightarrow> int \<times> (nat \<Rightarrow> u32) \<times> u32 \<times> id_pools" where
  "trs_device_alloc_id_batch ida sync g inst ty id_num =
     (let pool_inst = trs_device_pool_inst inst in
      case id_pool_get_avail_num g (Some pool_inst) ty True of
        (ret, avail_num) \<Rightarrow>
          if ret \<noteq> 0 then (ret, \<lambda>_. 0, 0, g)
          else (case (if avail_num = Some 0
                      then (case sync of None \<Rightarrow> (0, g) | Some f \<Rightarrow> f g (ti_devid inst) (ti_tsid inst) ty)
                      else (0, g)) of
                  (ret, g1) \<Rightarrow>
                    if ret \<noteq> 0 then (ret, \<lambda>_. 0, 0, g1)
                    else (case id_pool_alloc ida g1 (Some pool_inst) ty True of
                            (ret, i, g2) \<Rightarrow>
                              if ret = 0 then (0, \<lambda>_. the i, 1, g2) else (ret, \<lambda>_. 0, 0, g2))))"

definition trs_device_free_id_batch ::
    "id_pools \<Rightarrow> trs_id_inst \<Rightarrow> int \<Rightarrow> u32 list \<Rightarrow> int \<times> id_pools" where
  "trs_device_free_id_batch g inst ty ids =
     (0, fold (\<lambda>i g. id_pool_free g (Some (trs_device_pool_inst inst)) ty i) ids g)"

definition trs_device_get_id_range :: "id_pools \<Rightarrow> trs_id_inst \<Rightarrow> int \<Rightarrow> int \<times> (u32 \<times> u32) option" where
  "trs_device_get_id_range g inst ty =
     (if trs_id_is_local_type ty then (0, Some (trs_id_get_local_range ty))
      else id_pool_get_range g (Some (trs_device_pool_inst inst)) ty)"

definition trs_device_get_id_total_num :: "id_pools \<Rightarrow> trs_id_inst \<Rightarrow> int \<Rightarrow> int \<times> u32 option" where
  "trs_device_get_id_total_num g inst ty =
     (if trs_id_is_local_type ty
      then (case trs_id_get_local_range ty of (start, stop) \<Rightarrow> (0, Some (stop - start)))
      else id_pool_get_total_num g (Some (trs_device_pool_inst inst)) ty True)"

definition trs_device_get_id_split :: "id_pools \<Rightarrow> trs_id_inst \<Rightarrow> int \<Rightarrow> int \<times> u32 option" where
  "trs_device_get_id_split g inst ty =
     (case trs_device_get_id_range g inst ty of
        (ret, r) \<Rightarrow> if ret = 0 then (ret, map_option fst r) else (ret, None))"

definition trs_device_res_avail_query :: "id_pools \<Rightarrow> trs_id_inst \<Rightarrow> int \<Rightarrow> int \<times> u32 option" where
  "trs_device_res_avail_query g inst ty = id_pool_get_avail_num g (Some (trs_device_pool_inst inst)) ty True"

definition trs_device_id_is_non_cache_type :: "int \<Rightarrow> bool" where
  "trs_device_id_is_non_cache_type ty \<longleftrightarrow>
     ty = TRS_RSV_HW_SQ_ID \<or> ty = TRS_RSV_HW_CQ_ID \<or> ty = TRS_HW_SQ_ID \<or> ty = TRS_HW_CQ_ID \<or>
     ty = TRS_TASK_SCHED_CQ_ID \<or> ty = TRS_CDQM_ID"

definition trs_device_ops :: "idr_alloc \<Rightarrow> sync_id_proc option \<Rightarrow> id_pools trs_id_ops" where
  "trs_device_ops ida sync =
     \<lparr>op_alloc_batch = Some (trs_device_alloc_id_batch ida sync), op_free_batch = Some trs_device_free_id_batch,
      op_avail_query = Some trs_device_res_avail_query, op_trans = None,
      op_is_non_cache_type = Some trs_device_id_is_non_cache_type\<rparr>"

section \<open>Configuration of an instance\<close>

abbreviation (input) TRS_ID_CACHE_BATCH_NUM :: u32 where "TRS_ID_CACHE_BATCH_NUM \<equiv> 64"

definition trs_device_id_attr :: "int \<Rightarrow> u32 \<Rightarrow> u32 \<Rightarrow> u32 \<Rightarrow> u32 \<Rightarrow> trs_id_attr" where
  "trs_device_id_attr ty start stop total_num split =
     \<lparr>ta_id_start = start, ta_id_end = stop, ta_id_num = total_num,
      ta_batch_num = (if trs_device_id_is_non_cache_type ty then 1 else TRS_ID_CACHE_BATCH_NUM), ta_split = split\<rparr>"

definition trs_device_id_init ::
    "idr_alloc \<Rightarrow> sync_id_proc option \<Rightarrow> bool \<Rightarrow> (u32 \<Rightarrow> bool) \<Rightarrow> nat \<Rightarrow> id_pools trs_ids \<Rightarrow> trs_id_inst \<Rightarrow> int \<Rightarrow>
     (int \<times> id_pools trs_ids) option" where
  "trs_device_id_init ida sync pool_mem mem a st inst ty =
     (case trs_device_get_id_range (ts_back st) inst ty of
        (r1, rng) \<Rightarrow>
      case trs_device_get_id_total_num (ts_back st) inst ty of
        (r2, total_num) \<Rightarrow>
      case trs_device_get_id_split (ts_back st) inst ty of
        (r3, split) \<Rightarrow>
      let ret = r1 OR r2 OR r3 in
      if ret \<noteq> 0 then Some (ret, st)
      else let ops = (if \<not> trs_id_is_local_type ty then Some (trs_device_ops ida sync) else None) in
      if total_num = Some 0 then Some (0, st)
      else trs_id_register pool_mem mem a st (Some inst) ty
             (Some (trs_device_id_attr ty (fst (the rng)) (snd (the rng)) (the total_num) (the split))) ops)"

definition trs_device_id_uninit :: "id_pools trs_ids \<Rightarrow> trs_id_inst \<Rightarrow> int \<Rightarrow> id_pools trs_ids option" where
  "trs_device_id_uninit st inst ty = map_option snd (trs_id_unregister st (Some inst) ty)"

text \<open>
  The loops over the types. The memory outcomes and the address of a new pool may differ for every
  type; the result of \<^verbatim>\<open>trs_device_id_init\<close> is only logged.
\<close>

fun trs_id_config_types ::
    "idr_alloc \<Rightarrow> sync_id_proc option \<Rightarrow> (int \<Rightarrow> bool) \<Rightarrow> (int \<Rightarrow> u32 \<Rightarrow> bool) \<Rightarrow> (int \<Rightarrow> nat) \<Rightarrow> trs_id_inst \<Rightarrow> int list \<Rightarrow>
     id_pools trs_ids \<Rightarrow> id_pools trs_ids option" where
  "trs_id_config_types ida sync pm mem a inst [] st = Some st"
| "trs_id_config_types ida sync pm mem a inst (ty # tys) st =
     (case trs_device_id_init ida sync (pm ty) (mem ty) (a ty) st inst ty of
        None \<Rightarrow> None
      | Some (ret, st') \<Rightarrow> trs_id_config_types ida sync pm mem a inst tys st')"

definition trs_id_config ::
    "idr_alloc \<Rightarrow> sync_id_proc option \<Rightarrow> (int \<Rightarrow> bool) \<Rightarrow> (int \<Rightarrow> u32 \<Rightarrow> bool) \<Rightarrow> (int \<Rightarrow> nat) \<Rightarrow> id_pools trs_ids \<Rightarrow>
     trs_id_inst \<Rightarrow> (int \<times> id_pools trs_ids) option" where
  "trs_id_config ida sync pm mem a st inst =
     map_option (\<lambda>st'. (0, st')) (trs_id_config_types ida sync pm mem a inst [0 .. 18] st)"

fun trs_id_deconfig_types :: "trs_id_inst \<Rightarrow> int list \<Rightarrow> id_pools trs_ids \<Rightarrow> id_pools trs_ids option" where
  "trs_id_deconfig_types inst [] st = Some st"
| "trs_id_deconfig_types inst (ty # tys) st =
     (case trs_device_id_uninit st inst ty of None \<Rightarrow> None | Some st' \<Rightarrow> trs_id_deconfig_types inst tys st')"

definition trs_id_deconfig :: "id_pools trs_ids \<Rightarrow> trs_id_inst \<Rightarrow> id_pools trs_ids option" where
  "trs_id_deconfig st inst = trs_id_deconfig_types inst [0 .. 18] st"

section \<open>The id pools are a backend of the allocator\<close>

definition device_owned :: "trs_id_inst \<Rightarrow> int \<Rightarrow> id_pools \<Rightarrow> u32 set" where
  "device_owned inst ty g = id_pool_used (id_pool_at g (trs_device_pool_inst inst) ty)"

definition device_inv :: "idr_alloc \<Rightarrow> sync_id_proc option \<Rightarrow> trs_id_inst \<Rightarrow> int \<Rightarrow> id_pools \<Rightarrow> bool" where
  "device_inv ida sync inst ty g \<longleftrightarrow>
     idr_ok ida \<and> sync_ok sync \<and> id_pools_inv g \<and> \<not> trs_id_is_local_type ty \<and>
     id_pool_inst_check (Some (trs_device_pool_inst inst)) ty = 0"

lemma pool_alloc_cases:
  assumes "idr_ok ida" "id_pools_inv g"
  obtains (ok) i g' where "id_pool_alloc ida g (Some inst) ty True = (0, Some i, g')" "id_pools_inv g'"
      "i \<in> id_pool_ids (id_pool_at g inst ty) - id_pool_used (id_pool_at g inst ty)"
      "id_pool_used (id_pool_at g' inst ty) = insert i (id_pool_used (id_pool_at g inst ty))"
  | (fail) ret where "id_pool_alloc ida g (Some inst) ty True = (ret, None, g)" "ret \<noteq> 0"
proof (cases "id_pool_inst_check (Some inst) ty = 0 \<and> g (id_pool_key inst ty) \<noteq> None")
  case False
  then show ?thesis
    using fail [of "id_pool_inst_check (Some inst) ty"] fail [of "- ENXIO"]
    by (cases "id_pool_inst_check (Some inst) ty = 0") (auto simp: id_pool_alloc_def id_pool_get_def Let_def)
next
  case True
  then obtain p where p: "g (id_pool_key inst ty) = Some p" by auto
  have inv: "id_pool_inv p" using assms(2) p by (rule inv_lookup)
  show ?thesis
  proof (rule alloc0_cases [OF inv assms(1)])
    fix i n
    assume a: "id_pool_alloc0 ida p = (0, Some i, id_pool_set_node n (idr_take i n) p)"
      and n: "n \<in> set (inorder (ip_root p))" "i \<in> {pn_id_start n ..< pn_end n} - pn_idr n"
    let ?g = "g(id_pool_key inst ty \<mapsto> id_pool_set_node n (idr_take i n) p)"
    have e: "id_pool_alloc ida g (Some inst) ty True = (0, Some i, ?g)"
      using True p a by (simp add: id_pool_alloc_def id_pool_get_def)
    have "id_pools_inv ?g" using alloc_inv [OF assms, of "Some inst" ty True] e by simp
    then show ?thesis using take_spec [OF inv n] p by (intro ok [OF e]) (simp_all add: id_pool_at_def)
  next
    assume "id_pool_alloc0 ida p = (- ENOSPC, None, p)"
    then show ?thesis using True p
      by (intro fail [of "- ENOSPC"]) (simp_all add: id_pool_alloc_def id_pool_get_def fun_upd_idem)
  qed
qed

lemma pool_free_used:
  assumes "id_pools_inv g" "id_pool_inst_check (Some inst) ty = 0"
  shows "id_pool_used (id_pool_at (id_pool_free g (Some inst) ty i) inst ty) = id_pool_used (id_pool_at g inst ty) - {i}"
proof (cases "g (id_pool_key inst ty)")
  case None
  then show ?thesis using assms(2) by (simp add: id_pool_free_def id_pool_get_def id_pool_at_def)
next
  case (Some p)
  have inv: "id_pool_inv p" using assms(1) Some by (rule inv_lookup)
  have "id_pool_used (snd (id_pool_free0 p i)) = id_pool_used p - {i}"
  proof (rule free0_cases [OF inv, of i])
    fix n
    assume "id_pool_free0 p i = (0, id_pool_set_node n (idr_release i n) p)"
      "n \<in> set (inorder (ip_root p))" "i \<in> pn_idr n"
    then show ?thesis using used_release [OF inv] by simp
  next
    assume "id_pool_free0 p i = (- ENODEV, p)" "i \<notin> id_pool_ids p"
    then show ?thesis using used_subset_ids [OF inv] by auto
  qed auto
  then show ?thesis using Some assms(2) by (simp add: id_pool_free_def id_pool_get_def id_pool_at_def)
qed

lemma pools_free_batch:
  assumes "id_pools_inv g" "id_pool_inst_check (Some inst) ty = 0"
  shows "id_pools_inv (fold (\<lambda>i g. id_pool_free g (Some inst) ty i) js g) \<and>
         id_pool_used (id_pool_at (fold (\<lambda>i g. id_pool_free g (Some inst) ty i) js g) inst ty) =
           id_pool_used (id_pool_at g inst ty) - set js"
  using assms(1)
proof (induction js arbitrary: g)
  case (Cons i js)
  have "id_pools_inv (id_pool_free g (Some inst) ty i)" by (rule free_inv [OF Cons.prems])
  from Cons.IH [OF this] pool_free_used [OF Cons.prems assms(2), of i] show ?case by auto
qed simp

text \<open>What one call of \<^verbatim>\<open>trs_device_alloc_id_batch\<close> does: one fresh id, or an error that takes none.\<close>

lemma device_alloc_cases:
  assumes inv: "device_inv ida sync inst ty g"
    and r: "trs_device_alloc_id_batch ida sync g inst ty n = (ret, ids, k, g')"
  shows "device_inv ida sync inst ty g' \<and>
         (ret = 0 \<and> k = 1 \<and> ids 0 \<notin> device_owned inst ty g \<and> device_owned inst ty g' = insert (ids 0) (device_owned inst ty g) \<or>
          ret \<noteq> 0 \<and> device_owned inst ty g' = device_owned inst ty g)"
proof -
  let ?pi = "trs_device_pool_inst inst"
  have I: "idr_ok ida" "id_pools_inv g" using inv by (auto simp: device_inv_def)
  obtain r0 av where av: "id_pool_get_avail_num g (Some ?pi) ty True = (r0, av)" by (cases "id_pool_get_avail_num g (Some ?pi) ty True")
  obtain r1 g1 where g1: "(if av = Some 0 then (case sync of None \<Rightarrow> (0, g) | Some f \<Rightarrow> f g (ti_devid inst) (ti_tsid inst) ty) else (0, g)) = (r1, g1)"
    by (metis surj_pair)
  have s1: "id_pools_inv g1 \<and> device_owned inst ty g1 = device_owned inst ty g"
  proof (cases sync)
    case None
    then show ?thesis using g1 I by (auto split: if_splits)
  next
    case (Some f)
    have "sync_ok sync" using inv by (simp add: device_inv_def)
    then have "id_pools_inv (snd (f g (ti_devid inst) (ti_tsid inst) ty)) \<and>
        device_owned inst ty (snd (f g (ti_devid inst) (ti_tsid inst) ty)) = device_owned inst ty g"
      using Some I(2) by (simp add: sync_ok_def device_owned_def)
    then show ?thesis using g1 Some I(2) by (cases "av = Some 0") auto
  qed
  have unfold: "(ret, ids, k, g') =
      (if r0 \<noteq> 0 then (r0, \<lambda>_. 0, 0, g)
       else if r1 \<noteq> 0 then (r1, \<lambda>_. 0, 0, g1)
       else case id_pool_alloc ida g1 (Some ?pi) ty True of
              (ret, i, g2) \<Rightarrow> if ret = 0 then (0, \<lambda>_. the i, 1, g2) else (ret, \<lambda>_. 0, 0, g2))"
    using r unfolding trs_device_alloc_id_batch_def Let_def av prod.case g1 by simp
  show ?thesis
  proof (cases "r0 \<noteq> 0 \<or> r1 \<noteq> 0")
    case True
    then show ?thesis using unfold inv s1 by (auto simp: device_inv_def split: if_splits)
  next
    case False
    show ?thesis
    proof (rule pool_alloc_cases [OF I(1) conjunct1 [OF s1], of ?pi ty])
      fix i g2 assume "id_pool_alloc ida g1 (Some ?pi) ty True = (0, Some i, g2)" "id_pools_inv g2"
        "i \<in> id_pool_ids (id_pool_at g1 ?pi ty) - id_pool_used (id_pool_at g1 ?pi ty)"
        "id_pool_used (id_pool_at g2 ?pi ty) = insert i (id_pool_used (id_pool_at g1 ?pi ty))"
      then show ?thesis using unfold False inv s1 by (auto simp: device_inv_def device_owned_def)
    next
      fix r2 assume "id_pool_alloc ida g1 (Some ?pi) ty True = (r2, None, g1)" "r2 \<noteq> 0"
      then show ?thesis using unfold False inv s1 by (auto simp: device_inv_def)
    qed
  qed
qed

interpretation dev: id_backend "device_inv ida sync inst ty" "device_owned inst ty"
  "trs_device_alloc_id_batch ida sync" trs_device_free_id_batch inst ty
  for ida sync inst ty
proof unfold_locales
  fix s n ids k s'
  assume a: "device_inv ida sync inst ty s" "0 < n" "trs_device_alloc_id_batch ida sync s inst ty n = (0, ids, k, s')"
  from device_alloc_cases [OF a(1,3)] a(2)
  show "device_inv ida sync inst ty s' \<and> 0 < k \<and> k \<le> n \<and> distinct (map ids [0 ..< unat k]) \<and>
      set (map ids [0 ..< unat k]) \<inter> device_owned inst ty s = {} \<and>
      device_owned inst ty s' = device_owned inst ty s \<union> set (map ids [0 ..< unat k])"
    by (auto simp: word_less_nat_alt word_le_nat_alt)
next
  fix s n ret ids k s'
  assume "device_inv ida sync inst ty s" "trs_device_alloc_id_batch ida sync s inst ty n = (ret, ids, k, s')" "ret \<noteq> 0"
  then show "device_inv ida sync inst ty s' \<and> device_owned inst ty s' = device_owned inst ty s"
    using device_alloc_cases by blast
next
  fix s assume "device_inv ida sync inst ty s"
  then show "\<not> trs_id_is_local_type ty" by (simp add: device_inv_def)
next
  fix s js ret s'
  assume "device_inv ida sync inst ty s" "trs_device_free_id_batch s inst ty js = (ret, s')"
  then show "ret = 0 \<and> device_inv ida sync inst ty s' \<and> device_owned inst ty s' = device_owned inst ty s - set js"
    using pools_free_batch [of s "trs_device_pool_inst inst" ty js]
    by (auto simp: device_inv_def trs_device_free_id_batch_def device_owned_def)
qed

lemma created_device_pool:
  assumes "trs_id_pool_create True mem inst ty attr (Some (trs_device_ops ida sync)) = Some p"
    "device_inv ida sync inst ty g" "device_owned inst ty g = {}"
  shows "uses_backend (trs_device_alloc_id_batch ida sync) trs_device_free_id_batch inst ty p \<and>
         cached_inv (device_owned inst ty g) p {} \<and> trs_id_range p = {ta_id_start attr ..< ta_id_end attr}"
  using assms
  by (auto simp: trs_id_pool_create_def Let_def uses_backend_def cached_inv_def trs_device_ops_def trs_id_range_def
      linorder_not_less word_neq_0_conv split: if_splits)

section \<open>Configuration\<close>

lemma id_pool_get_total_cases:
  assumes "id_pools_inv g" "id_pool_get_total_num g (Some inst) ty True = (0, Some n)" "n \<noteq> 0"
  shows "\<exists>s e. id_pool_get_range g (Some inst) ty = (0, Some (s, e)) \<and> s \<le> s + n"
proof -
  obtain p where p: "g (id_pool_key inst ty) = Some p" "n = id_pool_total_num0 p" "id_pool_inst_check (Some inst) ty = 0"
    using assms(2) by (auto simp: id_pool_get_total_num_def id_pool_get_def split: if_splits option.splits)
  have inv: "id_pool_inv p" using assms(1) p(1) by (rule inv_lookup)
  have n: "unat n = card (id_pool_ids p)" using total_num0_card [OF inv] p(2) by simp
  obtain s e where r: "id_pool_range0 p = (s, e)" by (cases "id_pool_range0 p")
  have "ip_root p \<noteq> Leaf" using p(2) assms(3) by (auto simp: id_pool_total_num0_def)
  then have sub: "id_pool_ids p \<subseteq> {s ..< e}" "s \<in> id_pool_ids p" using range0_tight [OF inv _ r] by auto
  then have "s \<le> e" by force
  have "unat n \<le> card {s ..< e}" unfolding n by (rule card_mono [OF _ sub(1)]) simp
  also have "\<dots> = unat e - unat s" by (rule card_word_interval [OF \<open>s \<le> e\<close>])
  finally have "unat s + unat n < 2 ^ LENGTH(32)"
    using \<open>s \<le> e\<close> unsigned_less [of e, where ?'a = nat] by (simp add: word_le_nat_alt)
  then have "unat (s + n) = unat s + unat n" by (simp add: unat_word_ariths)
  then have "s \<le> s + n" by (simp add: word_le_nat_alt)
  with p r show ?thesis by (simp add: id_pool_get_range_def id_pool_get_def)
qed

text \<open>Which types of an instance get an allocator pool: those that have ids.\<close>

definition device_has_ids :: "id_pools \<Rightarrow> trs_id_inst \<Rightarrow> int \<Rightarrow> bool" where
  "device_has_ids g inst ty \<longleftrightarrow>
     trs_id_is_local_type ty \<or>
     (\<exists>n. id_pool_get_total_num g (Some (trs_device_pool_inst inst)) ty True = (0, Some n) \<and> n \<noteq> 0)"

lemma get_total_range_ret:
  "fst (id_pool_get_range g (Some inst) ty) = fst (id_pool_get_total_num g (Some inst) ty True)"
  by (simp add: id_pool_get_range_def id_pool_get_total_num_def split: option.splits)

lemma get_total_Some: "id_pool_get_total_num g (Some inst) ty True = (0, t) \<Longrightarrow> t \<noteq> None"
  by (auto simp: id_pool_get_total_num_def split: if_splits option.splits)

lemma device_init_noids:
  assumes "\<not> device_has_ids (ts_back st) inst ty"
  shows "\<exists>ret. trs_device_id_init ida sync pm mem a st inst ty = Some (ret, st)"
proof -
  let ?g = "ts_back st" and ?pi = "trs_device_pool_inst inst"
  have nl: "\<not> trs_id_is_local_type ty" using assms by (simp add: device_has_ids_def)
  obtain r1 rng where rng: "id_pool_get_range ?g (Some ?pi) ty = (r1, rng)" by (cases "id_pool_get_range ?g (Some ?pi) ty")
  obtain t where t: "id_pool_get_total_num ?g (Some ?pi) ty True = (r1, t)"
    using get_total_range_ret [of ?g ?pi ty] rng by (cases "id_pool_get_total_num ?g (Some ?pi) ty True") auto
  have "t = Some 0" if "r1 = 0" using assms t nl that get_total_Some by (fastforce simp: device_has_ids_def)
  then show ?thesis using nl rng t
    by (auto simp: trs_device_id_init_def trs_device_get_id_range_def trs_device_get_id_total_num_def
        trs_device_get_id_split_def Let_def)
qed

lemma device_init_attr:
  assumes "device_has_ids (ts_back st) inst ty" "id_pools_inv (ts_back st)"
  shows "\<exists>attr. trs_device_id_init ida sync pm mem a st inst ty =
             trs_id_register pm mem a st (Some inst) ty (Some attr)
               (if trs_id_is_local_type ty then None else Some (trs_device_ops ida sync)) \<and>
           trs_id_attr_check (Some attr) = 0 \<and> ta_batch_num attr \<noteq> 0"
proof -
  let ?g = "ts_back st" and ?pi = "trs_device_pool_inst inst"
  obtain s e n where r: "trs_device_get_id_range ?g inst ty = (0, Some (s, e))"
    "trs_device_get_id_total_num ?g inst ty = (0, Some n)" "n \<noteq> 0" "s \<le> s + n"
  proof (cases "trs_id_is_local_type ty")
    case True
    then show ?thesis
      using that [of "fst (trs_id_get_local_range ty)" "snd (trs_id_get_local_range ty)"
          "snd (trs_id_get_local_range ty) - fst (trs_id_get_local_range ty)"]
      by (auto simp: trs_device_get_id_range_def trs_device_get_id_total_num_def trs_id_get_local_range_def
          trs_id_is_local_type_def split: if_splits)
  next
    case False
    then obtain n where n: "id_pool_get_total_num ?g (Some ?pi) ty True = (0, Some n)" "n \<noteq> 0"
      using assms(1) by (auto simp: device_has_ids_def)
    with id_pool_get_total_cases [OF assms(2) n] False that show ?thesis
      by (auto simp: trs_device_get_id_range_def trs_device_get_id_total_num_def)
  qed
  have "trs_id_attr_check (Some (trs_device_id_attr ty s e n s)) = 0"
    using r(3,4) by (auto simp: trs_id_attr_check_def trs_device_id_attr_def linorder_not_less)
  then show ?thesis using r
    by (intro exI [of _ "trs_device_id_attr ty s e n s"])
      (auto simp: trs_device_id_init_def trs_device_get_id_split_def trs_device_id_attr_def)
qed

lemma device_reg_ok: "trs_id_reg_ok ty (if trs_id_is_local_type ty then None else Some (trs_device_ops ida sync))"
  by (simp add: trs_id_reg_ok_def trs_device_ops_def trs_id_ops_ok_def)

text \<open>One round of the configuration loop, with memory at hand.\<close>

lemma device_init_ok:
  assumes inv: "trs_ids_inv st H" "id_pools_inv (ts_back st)" and a: "ts_heap st a = None"
    and c: "trs_id_param_check (Some inst) ty = 0"
  shows "\<exists>ret st'. trs_device_id_init ida sync True (\<lambda>_. True) a st inst ty = Some (ret, st') \<and> trs_ids_inv st' H \<and>
           ts_back st' = ts_back st \<and> (\<forall>b. b \<noteq> a \<longrightarrow> ts_heap st' b = ts_heap st b) \<and>
           ts_table st' = (if device_has_ids (ts_back st) inst ty \<and> ts_table st (trs_id_key inst ty) = None
                           then (ts_table st)(trs_id_key inst ty \<mapsto> a) else ts_table st)"
proof (cases "device_has_ids (ts_back st) inst ty")
  case False
  then show ?thesis using device_init_noids [OF False, of ida sync True "\<lambda>_. True" a] inv by auto
next
  case True
  let ?ops = "if trs_id_is_local_type ty then None else Some (trs_device_ops ida sync)"
  obtain attr where attr: "trs_device_id_init ida sync True (\<lambda>_. True) a st inst ty =
      trs_id_register True (\<lambda>_. True) a st (Some inst) ty (Some attr) ?ops"
      "trs_id_attr_check (Some attr) = 0" "ta_batch_num attr \<noteq> 0"
    using device_init_attr [OF True inv(2)] by blast
  obtain p where p: "trs_id_pool_create True (\<lambda>_. True) inst ty attr ?ops = Some p" "tp_inst p = inst"
    "\<forall>s. trs_id_pool_destroy p s = Some s"
    using register_create [OF device_reg_ok, of "\<lambda>_. True" "Some inst" ty "Some attr" ida sync] c attr(2,3)
    by (simp only: option.sel simp_thms) blast
  have e: "trs_device_id_init ida sync True (\<lambda>_. True) a st inst ty =
      (if ts_table st (trs_id_key inst ty) \<noteq> None then Some (- ENODEV, st)
       else Some (0, st\<lparr>ts_table := (ts_table st)(trs_id_key inst ty \<mapsto> a), ts_heap := (ts_heap st)(a \<mapsto> p)\<rparr>))"
    using attr p c by (simp add: trs_id_register_def trs_id_pool_add_def)
  obtain ret st' where r: "trs_device_id_init ida sync True (\<lambda>_. True) a st inst ty = Some (ret, st')" "trs_ids_inv st' H"
    using trs_register_inv [OF inv(1) a device_reg_ok] attr(1) by metis
  with e True show ?thesis by (cases "ts_table st (trs_id_key inst ty)") auto
qed

lemma config_types_ok:
  assumes "trs_ids_inv st H" "id_pools_inv (ts_back st)" "trs_id_inst_check (Some inst) = 0"
    "distinct tys" "set tys \<subseteq> {0 .. 18}" "inj_on a (set tys)" "\<forall>ty \<in> set tys. ts_heap st (a ty) = None"
  shows "\<exists>st'. trs_id_config_types ida sync (\<lambda>_. True) (\<lambda>_ _. True) a inst tys st = Some st' \<and> trs_ids_inv st' H \<and>
           ts_back st' = ts_back st \<and>
           (\<forall>k. ts_table st' k =
             (case List.find (\<lambda>ty. k = trs_id_key inst ty) tys of
                Some ty \<Rightarrow> if device_has_ids (ts_back st) inst ty \<and> ts_table st k = None then Some (a ty) else ts_table st k
              | None \<Rightarrow> ts_table st k))"
  using assms
proof (induction tys arbitrary: st)
  case (Cons ty tys)
  have c: "trs_id_param_check (Some inst) ty = 0"
    using Cons.prems(3,5) by (simp add: trs_id_param_check_def trs_id_type_check_def)
  obtain ret st1 where st1: "trs_device_id_init ida sync True (\<lambda>_. True) (a ty) st inst ty = Some (ret, st1)" "trs_ids_inv st1 H"
      "ts_back st1 = ts_back st" "\<forall>b. b \<noteq> a ty \<longrightarrow> ts_heap st1 b = ts_heap st b"
      "ts_table st1 = (if device_has_ids (ts_back st) inst ty \<and> ts_table st (trs_id_key inst ty) = None
                       then (ts_table st)(trs_id_key inst ty \<mapsto> a ty) else ts_table st)"
    using device_init_ok [OF Cons.prems(1,2) _ c, of "a ty" ida sync] Cons.prems(7) by auto
  have fresh: "\<forall>t \<in> set tys. ts_heap st1 (a t) = None"
    using Cons.prems(4,6,7) st1(4) by (auto simp: inj_on_def)
  obtain st' where st': "trs_id_config_types ida sync (\<lambda>_. True) (\<lambda>_ _. True) a inst tys st1 = Some st'" "trs_ids_inv st' H"
      "ts_back st' = ts_back st1"
      "\<forall>k. ts_table st' k =
             (case List.find (\<lambda>ty. k = trs_id_key inst ty) tys of
                Some ty \<Rightarrow> if device_has_ids (ts_back st1) inst ty \<and> ts_table st1 k = None then Some (a ty) else ts_table st1 k
              | None \<Rightarrow> ts_table st1 k)"
    using Cons.IH [OF st1(2) _ Cons.prems(3) _ _ _ fresh] Cons.prems st1(3) by (auto simp: inj_on_def)
  have "ts_table st' k = (case List.find (\<lambda>ty. k = trs_id_key inst ty) (ty # tys) of
          Some ty \<Rightarrow> if device_has_ids (ts_back st) inst ty \<and> ts_table st k = None then Some (a ty) else ts_table st k
        | None \<Rightarrow> ts_table st k)" for k
  proof (cases "k = trs_id_key inst ty")
    case True
    then have "List.find (\<lambda>t. k = trs_id_key inst t) tys = None"
      using Cons.prems(4) by (auto simp: find_None_iff trs_id_key_def)
    then show ?thesis using st'(4) True st1(5) by auto
  next
    case False
    then show ?thesis using st'(4) st1(3,5) by (auto split: option.splits)
  qed
  with st1 st' show ?case by auto
qed simp

lemma find_key: "0 \<le> ty \<Longrightarrow> ty \<le> 18 \<Longrightarrow> List.find (\<lambda>t. trs_id_key inst ty = trs_id_key inst t) [0 .. 18] = Some ty"
proof -
  assume ty: "0 \<le> ty" "ty \<le> 18"
  have "(\<lambda>t. trs_id_key inst ty = trs_id_key inst t) = (\<lambda>t. t = ty)" by (auto simp: trs_id_key_def)
  moreover have "List.find (\<lambda>t. t = ty) xs = (if ty \<in> set xs then Some ty else None)" for xs :: "int list"
    by (induction xs) auto
  ultimately show ?thesis using ty by simp
qed

lemma find_no_key: "\<forall>ty. k \<noteq> trs_id_key inst ty \<Longrightarrow> List.find (\<lambda>t. k = trs_id_key inst t) xs = None"
  by (induction xs) auto

lemma deconfig_types_ok:
  assumes "trs_ids_inv st H" "trs_id_inst_check (Some inst) = 0" "set tys \<subseteq> {0 .. 18}"
  shows "\<exists>st'. trs_id_deconfig_types inst tys st = Some st' \<and> trs_ids_inv st' H \<and>
           ts_table st' = (\<lambda>k. if k \<in> trs_id_key inst ` set tys then None else ts_table st k)"
  using assms
proof (induction tys arbitrary: st)
  case (Cons ty tys)
  have c: "trs_id_param_check (Some inst) ty = 0"
    using Cons.prems(2,3) by (simp add: trs_id_param_check_def trs_id_type_check_def)
  obtain st1 where st1: "trs_device_id_uninit st inst ty = Some st1" "trs_ids_inv st1 H"
      "ts_table st1 = (ts_table st)(trs_id_key inst ty := None)"
    using pool_del_inv [OF Cons.prems(1), of inst ty] c
    by (auto simp: trs_device_id_uninit_def trs_id_unregister_def)
  from Cons.IH [OF st1(2) Cons.prems(2)] Cons.prems(3) st1(1,3) show ?case by (auto simp: fun_eq_iff)
qed simp

section \<open>Demonstration data\<close>

text \<open>A closed example: streams of device 0, ids 2 to 9 in the id pools, one id allocated.\<close>

definition demo_dev_attr :: trs_id_attr where
  "demo_dev_attr = demo_id_attr 2 10 2"

definition demo_dev_pool :: "u32 \<Rightarrow> id_pools trs_id_pool" where
  "demo_dev_pool n =
     \<lparr>tp_inst = demo_id_inst, tp_type = TRS_STREAM_ID, tp_attr = demo_dev_attr, tp_allocatable_num = 0,
      tp_alloc_num = n, tp_head = [], tp_ops = trs_device_ops idr_lowest None, tp_ref = 1\<rparr>"

definition demo_pools2 :: id_pools where
  "demo_pools2 = demo_pools(id_pool_key demo_inst 0 \<mapsto> id_pool_set_node demo_node (idr_take 2 demo_node) demo_pool)"

lemma demo_dev_inst: "trs_device_pool_inst demo_id_inst = demo_inst"
  by (simp add: trs_device_pool_inst_def demo_id_inst_def demo_inst_def)

lemma demo_dev_inv: "device_inv idr_lowest None demo_id_inst TRS_STREAM_ID demo_pools"
  by (simp add: device_inv_def idr_lowest_ok sync_ok_def demo_inv trs_id_is_local_type_def demo_dev_inst
      id_pool_inst_check_def demo_inst_def id_pool_inst_pack_def)

lemma demo_dev_owned: "device_owned demo_id_inst TRS_STREAM_ID demo_pools = {}"
  by (simp add: device_owned_def demo_dev_inst id_pool_at_def demo_pools_def id_pool_used_def demo_pool_def demo_node_def)

lemma demo_dev_create:
  "trs_id_pool_create True (\<lambda>_. True) demo_id_inst TRS_STREAM_ID demo_dev_attr (Some (trs_device_ops idr_lowest None)) =
     Some (demo_dev_pool 0)"
  by (simp add: trs_id_pool_create_def demo_dev_pool_def demo_dev_attr_def demo_id_attr_def Let_def)

lemma demo_dev_batch:
  "\<exists>ids. trs_device_alloc_id_batch idr_lowest None demo_pools demo_id_inst TRS_STREAM_ID n = (0, ids, 1, demo_pools2) \<and> ids 0 = 2"
proof -
  have av: "id_pool_get_avail_num demo_pools (Some demo_inst) 0 True = (0, Some 8)"
    by (simp add: id_pool_get_avail_num_def id_pool_inst_check_def id_pool_get_def id_pool_avail_num0_def demo_defs)
  show ?thesis
    by (simp add: trs_device_alloc_id_batch_def demo_dev_inst av demo_alloc demo_pools2_def)
qed

lemma demo_dev_alloc:
  "trs_id_pool_alloc (\<lambda>_. True) (demo_dev_pool 0) demo_pools = Some (0, Some 2, demo_dev_pool 1, demo_pools2)"
proof -
  obtain ids where "trs_device_alloc_id_batch idr_lowest None demo_pools demo_id_inst TRS_STREAM_ID 2 = (0, ids, 1, demo_pools2)" "ids 0 = 2"
    using demo_dev_batch by blast
  moreover have n: "\<not> (2 :: u32) \<le> 1" "\<not> (2 :: u32) < 1" by (simp_all add: word_le_nat_alt word_less_nat_alt)
  ultimately show ?thesis
    by (simp add: n trs_id_pool_alloc_def trs_id_non_cache_def trs_id_alloc_cache_def trs_id_pool_alloc_batch_def Let_def
        demo_dev_pool_def demo_dev_attr_def demo_id_attr_def trs_device_ops_def trs_device_id_is_non_cache_type_def
        trs_id_pool_range_check_def trs_id_pool_add_node_def trs_id_pool_alloc_one_id_def trs_id_pool_del_node_def)
qed

lemma demo_dev_run: "cached_run (demo_dev_pool 0) demo_pools {} (demo_dev_pool 1) demo_pools2 {2}"
  using run_alloc [OF run_start demo_dev_alloc, of "{}"] by simp

definition demo_dev_ids :: "id_pools trs_ids" where
  "demo_dev_ids = \<lparr>ts_table = Map.empty, ts_heap = Map.empty, ts_back = demo_pools\<rparr>"

lemma demo_dev_creach: "trs_id_creach demo_dev_ids {#}"
  unfolding demo_dev_ids_def by (rule cr_init)

lemma demo_inst_check: "trs_id_inst_check (Some demo_id_inst) = 0"
  by (simp add: trs_id_inst_check_def demo_id_inst_def)

section \<open>Properties\<close>

text \<open>
  C10. From the creation of a device pool on, over any sequence of allocations, releases of held ids
  and flushes (with any memory failures, and id synchronisation in between), no id is handed out
  twice: the cached ids are distinct, none of them is held by a client, both are in use in the id
  pools, every id of the range that is in use there is cached or held, and the next allocation returns
  an id that nobody holds and that is then in use, or \<^verbatim>\<open>-ENOSPC\<close>.
\<close>
theorem trs_device_ids_unique:
  assumes "device_inv ida sync inst ty g0" "device_owned inst ty g0 = {}"
    "trs_id_pool_create True mem inst ty attr (Some (trs_device_ops ida sync)) = Some p0"
    "cached_run p0 g0 {} p g out"
  shows "distinct (tp_head p) \<and> set (tp_head p) \<inter> out = {} \<and> set (tp_head p) \<union> out \<subseteq> device_owned inst ty g \<and>
         device_owned inst ty g \<inter> {ta_id_start attr ..< ta_id_end attr} \<subseteq> set (tp_head p) \<union> out \<and>
         (\<exists>ret r p' g'. trs_id_pool_alloc kmem p g = Some (ret, r, p', g') \<and>
            (case r of None \<Rightarrow> ret = - ENOSPC
                     | Some i \<Rightarrow> ret = 0 \<and> i \<notin> out \<and> i \<in> device_owned inst ty g'))"
proof -
  note c = created_device_pool [OF assms(3,1,2)]
  have I: "device_inv ida sync inst ty g" "uses_backend (trs_device_alloc_id_batch ida sync) trs_device_free_id_batch inst ty p"
    "trs_id_pool_frame p0 p" "cached_inv (device_owned inst ty g) p out"
    using dev.run_inv [OF assms(4,1)] c by auto
  have r: "trs_id_range p = {ta_id_start attr ..< ta_id_end attr}" using range_frame [OF I(3)] c by simp
  obtain ret r p' g' where a: "trs_id_pool_alloc kmem p g = Some (ret, r, p', g')"
    "cached_inv (device_owned inst ty g') p' (out \<union> set_option r)"
    "case r of None \<Rightarrow> ret = - ENOSPC | Some i \<Rightarrow> ret = 0 \<and> i \<notin> out"
    using dev.pool_alloc_inv [OF I(1,2,4), of kmem] by blast
  from a(2,3) have "case r of None \<Rightarrow> ret = - ENOSPC | Some i \<Rightarrow> ret = 0 \<and> i \<notin> out \<and> i \<in> device_owned inst ty g'"
    by (cases r) (auto simp: cached_inv_def)
  with a(1) I(4) show ?thesis unfolding r [symmetric] by (simp add: cached_inv_def)
qed

text \<open>
  C11. Flushing such a pool ends without error, empties its cache and gives every cached id back to the
  id pools: of the ids of the range, exactly those that clients hold stay in use.
\<close>
theorem trs_device_flush_gives_back:
  assumes "device_inv ida sync inst ty g0" "device_owned inst ty g0 = {}"
    "trs_id_pool_create True mem inst ty attr (Some (trs_device_ops ida sync)) = Some p0"
    "cached_run p0 g0 {} p g out"
  shows "\<exists>p' g'. trs_id_pool_free_batch p g = Some (0, p', g') \<and> tp_head p' = [] \<and> tp_alloc_num p' = tp_alloc_num p \<and>
           device_owned inst ty g' = device_owned inst ty g - set (tp_head p) \<and>
           device_owned inst ty g' \<inter> {ta_id_start attr ..< ta_id_end attr} = out \<inter> {ta_id_start attr ..< ta_id_end attr}"
proof -
  note c = created_device_pool [OF assms(3,1,2)]
  have I: "device_inv ida sync inst ty g" "uses_backend (trs_device_alloc_id_batch ida sync) trs_device_free_id_batch inst ty p"
    "trs_id_pool_frame p0 p" "cached_inv (device_owned inst ty g) p out"
    using dev.run_inv [OF assms(4,1)] c by auto
  have r: "trs_id_range p = {ta_id_start attr ..< ta_id_end attr}" using range_frame [OF I(3)] c by simp
  obtain p' g' where f: "trs_id_pool_free_batch p g = Some (0, p', g')" "tp_head p' = []" "trs_id_pool_frame p p'"
    "device_owned inst ty g' = device_owned inst ty g - set (tp_head p)" "cached_inv (device_owned inst ty g') p' out"
    using dev.pool_flush_inv [OF I(1,2,4)] by blast
  have "device_owned inst ty g' \<inter> trs_id_range p = out \<inter> trs_id_range p"
    using f(2,5) range_frame [OF f(3)] by (auto simp: cached_inv_def)
  moreover have "tp_alloc_num p' = tp_alloc_num p" using f(5) I(4) by (simp add: cached_inv_def)
  ultimately show ?thesis using f unfolding r by blast
qed

text \<open>
  Configuring an instance, with memory at hand: \<^verbatim>\<open>trs_id_config\<close> returns 0, keeps the reference
  counts right and fills exactly the empty slots of those types of the instance that have ids; slots
  of other instances are unchanged.
\<close>
theorem trs_id_config_spec:
  assumes "trs_id_creach st H" "id_pools_inv (ts_back st)" "trs_id_inst_check (Some inst) = 0"
    "inj_on a {0 .. 18}" "\<forall>ty \<in> {0 .. 18}. ts_heap st (a ty) = None"
  shows "\<exists>st'. trs_id_config ida sync (\<lambda>_. True) (\<lambda>_ _. True) a st inst = Some (0, st') \<and> trs_ids_inv st' H \<and>
           ts_back st' = ts_back st \<and>
           (\<forall>ty. 0 \<le> ty \<and> ty \<le> 18 \<longrightarrow> ts_table st' (trs_id_key inst ty) =
              (if device_has_ids (ts_back st) inst ty \<and> ts_table st (trs_id_key inst ty) = None
               then Some (a ty) else ts_table st (trs_id_key inst ty))) \<and>
           (\<forall>k. (\<forall>ty. k \<noteq> trs_id_key inst ty) \<longrightarrow> ts_table st' k = ts_table st k)"
proof -
  have d: "distinct [0 .. 18 :: int]" "set [0 .. 18 :: int] = {0 .. 18}" by simp_all
  from config_types_ok [OF creach_inv [OF assms(1)] assms(2,3) d(1), of a ida sync, unfolded d(2), OF _ assms(4,5)]
  obtain st' where st': "trs_id_config_types ida sync (\<lambda>_. True) (\<lambda>_ _. True) a inst [0 .. 18] st = Some st'"
    "trs_ids_inv st' H" "ts_back st' = ts_back st"
    "\<forall>k. ts_table st' k = (case List.find (\<lambda>ty. k = trs_id_key inst ty) [0 .. 18] of
        Some ty \<Rightarrow> if device_has_ids (ts_back st) inst ty \<and> ts_table st k = None then Some (a ty) else ts_table st k
      | None \<Rightarrow> ts_table st k)" by auto
  have "ts_table st' (trs_id_key inst ty) =
      (if device_has_ids (ts_back st) inst ty \<and> ts_table st (trs_id_key inst ty) = None
       then Some (a ty) else ts_table st (trs_id_key inst ty))" if "0 \<le> ty" "ty \<le> 18" for ty
    using st'(4) find_key [OF that, of inst] by (simp only: option.case)
  moreover have "ts_table st' k = ts_table st k" if "\<forall>ty. k \<noteq> trs_id_key inst ty" for k
    using st'(4) find_no_key [OF that, of "[0 .. 18]"] by (simp only: option.case)
  ultimately show ?thesis using st'(1-3) by (auto simp: trs_id_config_def)
qed

text \<open>
  Deconfiguring an instance ends, empties all its slots and no other, and leaves every pool object
  of it allocated only if a caller still holds a reference.
\<close>
theorem trs_id_deconfig_spec:
  assumes "trs_id_creach st H" "trs_id_inst_check (Some inst) = 0"
  shows "\<exists>st'. trs_id_deconfig st inst = Some st' \<and>
           ts_table st' = (\<lambda>k. if \<exists>ty. 0 \<le> ty \<and> ty \<le> 18 \<and> k = trs_id_key inst ty then None else ts_table st k) \<and>
           (\<forall>a. ts_heap st' a \<noteq> None \<longleftrightarrow> a \<in># H \<or> a \<in> ran (ts_table st'))"
proof -
  obtain st' where st': "trs_id_deconfig st inst = Some st'" "trs_ids_inv st' H"
    "ts_table st' = (\<lambda>k. if k \<in> trs_id_key inst ` set [0 .. 18] then None else ts_table st k)"
    using deconfig_types_ok [OF creach_inv [OF assms(1)] assms(2), of "[0 .. 18]"] by (auto simp: trs_id_deconfig_def)
  have "k \<in> trs_id_key inst ` set [0 .. 18] \<longleftrightarrow> (\<exists>ty. 0 \<le> ty \<and> ty \<le> 18 \<and> k = trs_id_key inst ty)" for k by auto
  with st' inv_live_iff [OF st'(2)] show ?thesis by auto
qed

theorem trs_device_ids_unique_witness:
  "\<exists>ret r p' g'. trs_id_pool_alloc (\<lambda>_. True) (demo_dev_pool 1) demo_pools2 = Some (ret, r, p', g') \<and>
     (case r of None \<Rightarrow> ret = - ENOSPC | Some i \<Rightarrow> ret = 0 \<and> i \<notin> {2} \<and> i \<in> device_owned demo_id_inst TRS_STREAM_ID g')"
  using trs_device_ids_unique [OF demo_dev_inv demo_dev_owned demo_dev_create demo_dev_run] by blast

theorem trs_device_flush_gives_back_witness:
  "\<exists>p' g'. trs_id_pool_free_batch (demo_dev_pool 1) demo_pools2 = Some (0, p', g') \<and> tp_head p' = [] \<and>
     device_owned demo_id_inst TRS_STREAM_ID g' \<inter> {2 ..< 10} = {2} \<inter> {2 ..< 10}"
  using trs_device_flush_gives_back [OF demo_dev_inv demo_dev_owned demo_dev_create demo_dev_run]
  by (auto simp: demo_dev_attr_def demo_id_attr_def)

theorem trs_id_config_spec_witness:
  "\<exists>st'. trs_id_config idr_lowest None (\<lambda>_. True) (\<lambda>_ _. True) nat demo_dev_ids demo_id_inst = Some (0, st') \<and>
     ts_table st' (trs_id_key demo_id_inst TRS_LOGIC_CQ_ID) = Some 15"
proof -
  have h: "id_pools_inv (ts_back demo_dev_ids)" "inj_on nat {0 .. 18}" "\<forall>ty \<in> {0 .. 18}. ts_heap demo_dev_ids (nat ty) = None"
    by (auto simp: demo_dev_ids_def demo_inv inj_on_def)
  have "device_has_ids (ts_back demo_dev_ids) demo_id_inst TRS_LOGIC_CQ_ID" "ts_table demo_dev_ids (trs_id_key demo_id_inst TRS_LOGIC_CQ_ID) = None"
    by (simp_all add: device_has_ids_def trs_id_is_local_type_def demo_dev_ids_def)
  with trs_id_config_spec [OF demo_dev_creach h(1) demo_inst_check h(2,3), of idr_lowest None] show ?thesis by force
qed

theorem trs_id_deconfig_spec_witness:
  "\<exists>st'. trs_id_deconfig demo_dev_ids demo_id_inst = Some st' \<and> ts_heap st' 0 = None"
proof -
  obtain st' where st': "trs_id_deconfig demo_dev_ids demo_id_inst = Some st'"
      "ts_table st' = (\<lambda>k. if \<exists>ty. 0 \<le> ty \<and> ty \<le> 18 \<and> k = trs_id_key demo_id_inst ty then None else ts_table demo_dev_ids k)"
      "\<forall>a. ts_heap st' a \<noteq> None \<longleftrightarrow> a \<in># {#} \<or> a \<in> ran (ts_table st')"
    using trs_id_deconfig_spec [OF demo_dev_creach demo_inst_check] by blast
  have "ts_table st' k = None" for k unfolding st'(2) by (simp add: demo_dev_ids_def)
  then have "ran (ts_table st') = {}" by (simp add: ran_def)
  with st'(1) st'(3) [rule_format, of 0] show ?thesis by simp
qed

end
