(* ===== verification/Trs_Proc.thy ===== *)
theory Trs_Proc
  imports Trs_Id "HOL-Library.Monad_Syntax"
begin

text \<open>
  Ownership of task resources by processes, \<^verbatim>\<open>rms/trs_drv/trs_core/trs_proc.c\<close>: every resource type of a
  task scheduler instance has a table of entries (owner, status, reference count), and every process
  counts the entries it owns.

  An operation reads the instance and the process context and returns them changed. The arrays are
  lists behind a pointer that may be NULL; an access out of bounds or through NULL has the result
  \<open>None\<close>. The mutex of a type makes the body of each operation atomic. C \<^verbatim>\<open>int\<close> counters are integers
  that wrap at 32 bits (\<open>i32\<close>).
\<close>

section \<open>Data\<close>

definition i32 :: "int \<Rightarrow> int" where
  "i32 x = sint (word_of_int x :: u32)"

abbreviation (input) TRS_STREAM :: int where "TRS_STREAM \<equiv> 0"
abbreviation (input) TRS_EVENT :: int where "TRS_EVENT \<equiv> 1"
abbreviation (input) TRS_NOTIFY :: int where "TRS_NOTIFY \<equiv> 2"
abbreviation (input) TRS_MODEL :: int where "TRS_MODEL \<equiv> 3"
abbreviation (input) TRS_CMO :: int where "TRS_CMO \<equiv> 4"
abbreviation (input) TRS_HW_SQ :: int where "TRS_HW_SQ \<equiv> 5"
abbreviation (input) TRS_HW_CQ :: int where "TRS_HW_CQ \<equiv> 6"
abbreviation (input) TRS_SW_SQ :: int where "TRS_SW_SQ \<equiv> 7"
abbreviation (input) TRS_SW_CQ :: int where "TRS_SW_CQ \<equiv> 8"
abbreviation (input) TRS_CB_SQ :: int where "TRS_CB_SQ \<equiv> 9"
abbreviation (input) TRS_CB_CQ :: int where "TRS_CB_CQ \<equiv> 10"
abbreviation (input) TRS_LOGIC_CQ :: int where "TRS_LOGIC_CQ \<equiv> 11"
abbreviation (input) TRS_CORE_MAX_ID_TYPE :: int where "TRS_CORE_MAX_ID_TYPE \<equiv> 12"

abbreviation (input) RES_STATUS_NORMAL :: int where "RES_STATUS_NORMAL \<equiv> 0"
abbreviation (input) RES_STATUS_DEL :: int where "RES_STATUS_DEL \<equiv> 1"

record trs_res_ids =
  ri_status :: int
  ri_task_id :: u32
  ri_pid :: int
  ri_ref :: int

record trs_res_mng =
  rm_res_type :: int
  rm_id_num :: u32
  rm_max_id :: u32
  rm_use_num :: u32
  rm_ids :: "trs_res_ids list option"

record trs_stream_ctx =
  sc_host_pid :: int
  sc_sq :: int
  sc_cq :: int
  sc_logic_cq :: int

record trs_proc_ts_ctx =
  pt_thread_bind_irq_num :: int
  pt_current_id_num :: "int \<Rightarrow> int"
  pt_chan_id :: int

record trs_proc_ctx =
  pc_task_id :: u32
  pc_pid :: int
  pc_status :: int
  pc_cp_ssid :: int
  pc_devid :: u32
  pc_ts_ctx :: "u32 \<Rightarrow> trs_proc_ts_ctx"

text \<open>The messages to the task scheduler that this layer sends.\<close>

datatype trs_mbox_msg =
    ResMapMsg (mm_resource_type: "8 word") (mm_operation_type: "8 word") (mm_id: u16) (mm_host_pid: u32)
  | NotifyMsg (mm_notifyId: u16) (mm_tgid: u32) (mm_notify_type: "8 word")
  | RecycleMsg (mm_cmd_type: u16) (mm_pid: int)
  | LogicCqAllocMsg (mm_phy_cq_addr: u64) (mm_cqe_size: u16) (mm_cq_depth: u16) (mm_vpid: u32) (mm_logic_cqid: u16)
      (mm_phy_cqid: u16) (mm_cq_irq: u16) (mm_thread_bind_irq_flag: "8 word") (mm_info: "u32 list")
  | LogicCqFreeMsg (mm_free_vpid: u32) (mm_free_logic_cqid: u16) (mm_free_phy_cqid: u16)

text \<open>
  The adapter's callbacks. \<open>'h\<close> is the state of the hardware behind them; those for ids may also use
  the id allocator. \<^verbatim>\<open>notice_ts\<close> returns its result and the \<^verbatim>\<open>result\<close> field of the message header.
\<close>

record ('s, 'h) trs_core_adapt_ops =
  ao_res_id_check :: "('h \<Rightarrow> trs_id_inst \<Rightarrow> int \<Rightarrow> u32 \<Rightarrow> int) option"
  ao_id_alloc :: "int \<Rightarrow> ('s trs_ids \<Rightarrow> trs_id_inst \<Rightarrow> u32 \<Rightarrow> (int \<times> u32) \<times> 's trs_ids) option"
  ao_id_free :: "int \<Rightarrow> ('s trs_ids \<Rightarrow> trs_id_inst \<Rightarrow> u32 \<Rightarrow> int \<times> 's trs_ids) option"
  ao_notice_ts :: "'h \<Rightarrow> trs_id_inst \<Rightarrow> trs_mbox_msg \<Rightarrow> int \<times> u32 \<times> 'h"
  ao_res_id_ctrl :: "('h \<Rightarrow> trs_id_inst \<Rightarrow> u32 \<Rightarrow> u32 \<Rightarrow> u32 \<Rightarrow> int \<times> 'h) option"
  ao_res_id_query :: "('h \<Rightarrow> trs_id_inst \<Rightarrow> u32 \<Rightarrow> u32 \<Rightarrow> u32 \<Rightarrow> int \<times> u64) option"
  ao_get_res_reg_offset :: "'h \<Rightarrow> trs_id_inst \<Rightarrow> int \<Rightarrow> u32 \<Rightarrow> int \<times> u32"
  ao_get_res_reg_total_size :: "'h \<Rightarrow> trs_id_inst \<Rightarrow> int \<Rightarrow> int \<times> u32"

record ('s, 'h) trs_core_ts_inst =
  ct_hw_type :: int
  ct_featur_mode :: u32
  ct_surport_proc_num :: u32
  ct_inst :: trs_id_inst
  ct_ops :: "('s, 'h) trs_core_adapt_ops"
  ct_cur_task_id :: u32
  ct_proc_list :: "trs_proc_ctx list"
  ct_exit_proc_list :: "trs_proc_ctx list"
  ct_res_mng :: "int \<Rightarrow> trs_res_mng"
  ct_stream_ctx :: "trs_stream_ctx list option"

section \<open>Array accesses\<close>

text \<open>\<^verbatim>\<open>ts_inst->res_mng[res_type]\<close>, \<^verbatim>\<open>res_mng->ids[res_id]\<close> and the stores to them.\<close>

definition res_mng_at :: "('s, 'h) trs_core_ts_inst \<Rightarrow> int \<Rightarrow> trs_res_mng option" where
  "res_mng_at ts ty = (if 0 \<le> ty \<and> ty < TRS_CORE_MAX_ID_TYPE then Some (ct_res_mng ts ty) else None)"

definition res_mng_set :: "int \<Rightarrow> trs_res_mng \<Rightarrow> ('s, 'h) trs_core_ts_inst \<Rightarrow> ('s, 'h) trs_core_ts_inst" where
  "res_mng_set ty m ts = ts\<lparr>ct_res_mng := (ct_res_mng ts)(ty := m)\<rparr>"

definition res_ids_at :: "trs_res_mng \<Rightarrow> u32 \<Rightarrow> trs_res_ids option" where
  "res_ids_at m i =
     (case rm_ids m of
        None \<Rightarrow> None
      | Some xs \<Rightarrow> if unat i < length xs then Some (xs ! unat i) else None)"

definition res_ids_set :: "u32 \<Rightarrow> trs_res_ids \<Rightarrow> trs_res_mng \<Rightarrow> trs_res_mng" where
  "res_ids_set i x m = m\<lparr>rm_ids := map_option (\<lambda>xs. xs[unat i := x]) (rm_ids m)\<rparr>"

definition trs_get_proc_res_num :: "trs_proc_ctx \<Rightarrow> u32 \<Rightarrow> int \<Rightarrow> int" where
  "trs_get_proc_res_num c tsid ty = pt_current_id_num (pc_ts_ctx c tsid) ty"

text \<open>\<^verbatim>\<open>atomic_inc\<close> and \<^verbatim>\<open>atomic_dec\<close> of \<^verbatim>\<open>proc_ctx->ts_ctx[tsid].current_id_num[res_type]\<close>.\<close>

definition proc_res_num_add :: "u32 \<Rightarrow> int \<Rightarrow> int \<Rightarrow> trs_proc_ctx \<Rightarrow> trs_proc_ctx" where
  "proc_res_num_add tsid ty d c =
     (let t = pc_ts_ctx c tsid in
      c\<lparr>pc_ts_ctx := (pc_ts_ctx c)(tsid :=
          t\<lparr>pt_current_id_num := (pt_current_id_num t)(ty := i32 (pt_current_id_num t ty + d))\<rparr>)\<rparr>)"

section \<open>Ownership\<close>

definition trs_is_id_pid_match :: "trs_res_ids \<Rightarrow> int \<Rightarrow> u32 \<Rightarrow> bool" where
  "trs_is_id_pid_match x pid task_id \<longleftrightarrow> ri_pid x = pid \<and> ri_task_id x = task_id \<and> ri_status x = RES_STATUS_NORMAL"

definition trs_is_res_pid_match :: "('s, 'h) trs_core_ts_inst \<Rightarrow> int \<Rightarrow> u32 \<Rightarrow> int \<Rightarrow> u32 \<Rightarrow> bool option" where
  "trs_is_res_pid_match ts pid task_id ty i = do {
     m \<leftarrow> res_mng_at ts ty;
     if i \<ge> rm_max_id m then Some False
     else do {
       x \<leftarrow> res_ids_at m i;
       Some (trs_is_id_pid_match x pid task_id)
     }
   }"

definition trs_proc_has_res :: "trs_proc_ctx \<Rightarrow> ('s, 'h) trs_core_ts_inst \<Rightarrow> int \<Rightarrow> u32 \<Rightarrow> bool option" where
  "trs_proc_has_res c ts ty i = trs_is_res_pid_match ts (pc_pid c) (pc_task_id c) ty i"

definition trs_proc_ctx_find :: "trs_proc_ctx list \<Rightarrow> int \<Rightarrow> trs_proc_ctx option" where
  "trs_proc_ctx_find procs pid = List.find (\<lambda>c. pc_pid c = pid) procs"

text \<open>
  \<open>procs0\<close> is the process list of the instance with tsid 0 of the same device, \<open>None\<close> when that instance
  is not registered.
\<close>

definition trs_get_proc_task_id ::
    "trs_proc_ctx list option \<Rightarrow> ('s, 'h) trs_core_ts_inst \<Rightarrow> int \<Rightarrow> int \<times> u32 option" where
  "trs_get_proc_task_id procs0 ts pid =
     (if ti_tsid (ct_inst ts) \<noteq> 0 \<and> procs0 = None then (- EINVAL, None)
      else case trs_proc_ctx_find (if ti_tsid (ct_inst ts) \<noteq> 0 then the procs0 else ct_proc_list ts) pid of
        None \<Rightarrow> (- EINVAL, None)
      | Some c \<Rightarrow> (0, Some (pc_task_id c)))"

text \<open>\<open>ts\<close> is \<open>None\<close> when the instance is not registered.\<close>

definition trs_core_get_ssid :: "('s, 'h) trs_core_ts_inst option \<Rightarrow> int \<Rightarrow> int \<times> u32 option" where
  "trs_core_get_ssid ts pid =
     (case ts of
        None \<Rightarrow> (- EINVAL, None)
      | Some t \<Rightarrow>
          (case trs_proc_ctx_find (ct_proc_list t) pid of
             None \<Rightarrow> (- ENOENT, None)
           | Some c \<Rightarrow> (0, Some (word_of_int (pc_cp_ssid c)))))"

definition trs_proc_has_res_with_pid ::
    "trs_proc_ctx list option \<Rightarrow> ('s, 'h) trs_core_ts_inst \<Rightarrow> int \<Rightarrow> int \<Rightarrow> u32 \<Rightarrow> bool option" where
  "trs_proc_has_res_with_pid procs0 ts pid ty i =
     (case trs_get_proc_task_id procs0 ts pid of
        (ret, task_id) \<Rightarrow> if ret \<noteq> 0 then Some False else trs_is_res_pid_match ts pid (the task_id) ty i)"

section \<open>References\<close>

definition trs_res_get ::
    "trs_proc_ctx list option \<Rightarrow> ('s, 'h) trs_core_ts_inst \<Rightarrow> int \<Rightarrow> int \<Rightarrow> u32 \<Rightarrow>
     (int \<times> ('s, 'h) trs_core_ts_inst) option" where
  "trs_res_get procs0 ts pid ty i = do {
     m \<leftarrow> res_mng_at ts ty;
     case trs_get_proc_task_id procs0 ts pid of
       (ret, task_id) \<Rightarrow>
         if ret \<noteq> 0 then Some (ret, ts)
         else do {
           b \<leftarrow> trs_is_res_pid_match ts pid (the task_id) ty i;
           if \<not> b then Some (- EINVAL, ts)
           else do {
             x \<leftarrow> res_ids_at m i;
             Some (0, res_mng_set ty (res_ids_set i (x\<lparr>ri_ref := i32 (ri_ref x + 1)\<rparr>) m) ts)
           }
         }
   }"

definition trs_res_put ::
    "('s, 'h) trs_core_ts_inst \<Rightarrow> int \<Rightarrow> u32 \<Rightarrow> (int \<times> ('s, 'h) trs_core_ts_inst) option" where
  "trs_res_put ts ty i = do {
     m \<leftarrow> res_mng_at ts ty;
     if i \<ge> rm_max_id m then Some (- EINVAL, ts)
     else do {
       x \<leftarrow> res_ids_at m i;
       if ri_ref x = 0 then Some (- EINVAL, ts)
       else let ref = i32 (ri_ref x - 1) in
         if ref \<le> 0
         then Some (ref, res_mng_set ty ((res_ids_set i (x\<lparr>ri_ref := ref, ri_pid := 0\<rparr>) m)\<lparr>rm_use_num := rm_use_num m - 1\<rparr>) ts)
         else Some (ref, res_mng_set ty (res_ids_set i (x\<lparr>ri_ref := ref\<rparr>) m) ts)
     }
   }"

definition trs_proc_add_res ::
    "trs_proc_ctx \<Rightarrow> ('s, 'h) trs_core_ts_inst \<Rightarrow> int \<Rightarrow> u32 \<Rightarrow>
     (int \<times> trs_proc_ctx \<times> ('s, 'h) trs_core_ts_inst) option" where
  "trs_proc_add_res c ts ty i = do {
     m \<leftarrow> res_mng_at ts ty;
     if i \<ge> rm_max_id m then Some (- EINVAL, c, ts)
     else do {
       x \<leftarrow> res_ids_at m i;
       if ri_pid x \<noteq> 0 then Some (- EINVAL, c, ts)
       else Some (0, proc_res_num_add (ti_tsid (ct_inst ts)) ty 1 c,
              res_mng_set ty ((res_ids_set i \<lparr>ri_status = RES_STATUS_NORMAL, ri_task_id = pc_task_id c, ri_pid = pc_pid c,
                ri_ref = 1\<rparr> m)\<lparr>rm_use_num := rm_use_num m + 1\<rparr>) ts)
     }
   }"

definition trs_is_proc_res_limited :: "trs_proc_ctx \<Rightarrow> ('s, 'h) trs_core_ts_inst \<Rightarrow> int \<Rightarrow> bool option" where
  "trs_is_proc_res_limited c ts ty = do {
     m \<leftarrow> res_mng_at ts ty;
     Some (rm_id_num m - rm_use_num m < ct_surport_proc_num ts \<and> trs_get_proc_res_num c (ti_tsid (ct_inst ts)) ty > 0)
   }"

definition trs_proc_del_res ::
    "trs_proc_ctx \<Rightarrow> ('s, 'h) trs_core_ts_inst \<Rightarrow> int \<Rightarrow> u32 \<Rightarrow>
     (int \<times> trs_proc_ctx \<times> ('s, 'h) trs_core_ts_inst) option" where
  "trs_proc_del_res c ts ty i = do {
     m \<leftarrow> res_mng_at ts ty;
     b \<leftarrow> trs_proc_has_res c ts ty i;
     if \<not> b then Some (- EINVAL, c, ts)
     else do {
       x \<leftarrow> res_ids_at m i;
       let ts' = res_mng_set ty (res_ids_set i (x\<lparr>ri_status := RES_STATUS_DEL\<rparr>) m) ts;
       let c' = proc_res_num_add (ti_tsid (ct_inst ts)) ty (- 1) c;
       (ret, ts'') \<leftarrow> trs_res_put ts' ty i;
       Some (ret, c', ts'')
     }
   }"

section \<open>Waiting for a process to go\<close>

abbreviation (input) TRS_MAX_WAIT_PROC_EXIT_CNT :: nat where "TRS_MAX_WAIT_PROC_EXIT_CNT \<equiv> 100"

text \<open>\<open>obs k\<close> is the process list that the k-th round reads: other threads change it while this one sleeps.\<close>

fun wait_for_exit_from :: "(nat \<Rightarrow> trs_proc_ctx list) \<Rightarrow> int \<Rightarrow> nat \<Rightarrow> nat \<Rightarrow> int" where
  "wait_for_exit_from obs pid k 0 = - EBUSY"
| "wait_for_exit_from obs pid k (Suc n) =
     (if trs_proc_ctx_find (obs k) pid = None then 0 else wait_for_exit_from obs pid (Suc k) n)"

definition trs_proc_wait_for_exit :: "(nat \<Rightarrow> trs_proc_ctx list) \<Rightarrow> int \<Rightarrow> int" where
  "trs_proc_wait_for_exit obs pid = wait_for_exit_from obs pid 0 TRS_MAX_WAIT_PROC_EXIT_CNT"

text \<open>\<open>mem\<close> is the outcome of \<^verbatim>\<open>kzalloc\<close>, \<open>tgid\<close> is \<^verbatim>\<open>current->tgid\<close>; the name is only logged.\<close>

definition trs_proc_ctx_create ::
    "bool \<Rightarrow> int \<Rightarrow> ('s, 'h) trs_core_ts_inst \<Rightarrow> trs_proc_ctx option \<times> ('s, 'h) trs_core_ts_inst" where
  "trs_proc_ctx_create mem tgid ts =
     (if \<not> mem then (None, ts)
      else (Some \<lparr>pc_task_id = ct_cur_task_id ts, pc_pid = tgid, pc_status = 0, pc_cp_ssid = 0,
                 pc_devid = ti_devid (ct_inst ts),
                 pc_ts_ctx = (\<lambda>_. \<lparr>pt_thread_bind_irq_num = 0, pt_current_id_num = (\<lambda>_. 0), pt_chan_id = - 1\<rparr>)\<rparr>,
            ts\<lparr>ct_cur_task_id := ct_cur_task_id ts + 1\<rparr>))"

section \<open>Messages to the task scheduler\<close>

definition trs_core_notice_ts ::
    "('s, 'h) trs_core_ts_inst \<Rightarrow> 'h \<Rightarrow> trs_mbox_msg \<Rightarrow> int \<times> 'h" where
  "trs_core_notice_ts ts h msg =
     (case ao_notice_ts (ct_ops ts) h (ct_inst ts) msg of
        (ret, result, h') \<Rightarrow> (if ret = 0 \<and> result = 0 then 0 else - EFAULT, h'))"

abbreviation (input) TRS_MBOX_RECYCLE_PID :: u16 where "TRS_MBOX_RECYCLE_PID \<equiv> 18"
abbreviation (input) TRS_MBOX_RECYCLE_CHECK :: u16 where "TRS_MBOX_RECYCLE_CHECK \<equiv> 40"
abbreviation (input) ETIMEDOUT :: int where "ETIMEDOUT \<equiv> 110"

definition trs_proc_release_msg_send :: "('s, 'h) trs_core_ts_inst \<Rightarrow> 'h \<Rightarrow> int \<Rightarrow> u16 \<Rightarrow> int \<times> 'h" where
  "trs_proc_release_msg_send ts h pid cmd_type = trs_core_notice_ts ts h (RecycleMsg cmd_type pid)"

text \<open>
  The loop of \<^verbatim>\<open>trs_proc_release_check_ts\<close>: \<open>insts k\<close> is the instance that the k-th lookup finds.
\<close>

fun release_check_from ::
    "(nat \<Rightarrow> ('s, 'h) trs_core_ts_inst option) \<Rightarrow> trs_proc_ctx \<Rightarrow> 'h \<Rightarrow> nat \<Rightarrow> nat \<Rightarrow> int \<times> 'h" where
  "release_check_from insts c h k 0 = (- ETIMEDOUT, h)"
| "release_check_from insts c h k (Suc n) =
     (case insts k of
        None \<Rightarrow> (0, h)
      | Some ts \<Rightarrow>
          (case trs_proc_release_msg_send ts h (pc_pid c) TRS_MBOX_RECYCLE_CHECK of
             (ret, h') \<Rightarrow> if ret = 0 then (0, h') else release_check_from insts c h' (Suc k) n))"

definition trs_proc_release_check_ts ::
    "(nat \<Rightarrow> ('s, 'h) trs_core_ts_inst option) \<Rightarrow> trs_proc_ctx \<Rightarrow> 'h \<Rightarrow> int \<times> 'h" where
  "trs_proc_release_check_ts insts c h = release_check_from insts c h 0 300"

fun trs_proc_release_notice_ts :: "trs_proc_ctx \<Rightarrow> ('s, 'h) trs_core_ts_inst \<Rightarrow> nat \<Rightarrow> 'h \<Rightarrow> 'h" where
  "trs_proc_release_notice_ts c ts 0 h = h"
| "trs_proc_release_notice_ts c ts (Suc n) h =
     (case trs_proc_release_msg_send ts h (pc_pid c) TRS_MBOX_RECYCLE_PID of
        (ret, h') \<Rightarrow> if ret = 0 then h' else trs_proc_release_notice_ts c ts n h')"

section \<open>Recycling\<close>

text \<open>
  The loop of \<^verbatim>\<open>trs_for_each_proc_res_id\<close> over the ids that are left. \<open>'w\<close> is whatever else
  \<^verbatim>\<open>recycle_func\<close> works on.
\<close>

fun for_each_proc_res_from ::
    "(trs_proc_ctx \<Rightarrow> ('s, 'h) trs_core_ts_inst \<Rightarrow> 'w \<Rightarrow> int \<Rightarrow> u32 \<Rightarrow>
        (trs_proc_ctx \<times> ('s, 'h) trs_core_ts_inst \<times> 'w) option) \<Rightarrow>
     int \<Rightarrow> u32 list \<Rightarrow> trs_proc_ctx \<times> ('s, 'h) trs_core_ts_inst \<times> 'w \<Rightarrow>
     (trs_proc_ctx \<times> ('s, 'h) trs_core_ts_inst \<times> 'w) option" where
  "for_each_proc_res_from rf ty [] (c, ts, w) = Some (c, ts, w)"
| "for_each_proc_res_from rf ty (i # is) (c, ts, w) =
     (case res_ids_at (ct_res_mng ts ty) i of
        None \<Rightarrow> None
      | Some x \<Rightarrow>
          if trs_is_id_pid_match x (pc_pid c) (pc_task_id c)
          then (case rf c ts w ty i of
                  None \<Rightarrow> None
                | Some (c', ts', w') \<Rightarrow>
                    if trs_get_proc_res_num c' (ti_tsid (ct_inst ts')) ty = 0 then Some (c', ts', w')
                    else for_each_proc_res_from rf ty is (c', ts', w'))
          else for_each_proc_res_from rf ty is (c, ts, w))"

definition trs_for_each_proc_res_id ::
    "(trs_proc_ctx \<Rightarrow> ('s, 'h) trs_core_ts_inst \<Rightarrow> 'w \<Rightarrow> int \<Rightarrow> u32 \<Rightarrow>
        (trs_proc_ctx \<times> ('s, 'h) trs_core_ts_inst \<times> 'w) option) \<Rightarrow>
     int \<Rightarrow> trs_proc_ctx \<Rightarrow> ('s, 'h) trs_core_ts_inst \<Rightarrow> 'w \<Rightarrow>
     (trs_proc_ctx \<times> ('s, 'h) trs_core_ts_inst \<times> 'w) option" where
  "trs_for_each_proc_res_id rf ty c ts w = do {
     m \<leftarrow> res_mng_at ts ty;
     if trs_get_proc_res_num c (ti_tsid (ct_inst ts)) ty = 0 then Some (c, ts, w)
     else for_each_proc_res_from rf ty (map of_nat [0 ..< unat (rm_max_id m)]) (c, ts, w)
   }"

text \<open>
  \<^verbatim>\<open>trs_proc_leak_res_show\<close> for one type: the ids reported as leaked. The entry looked at is \<^verbatim>\<open>ids[i]\<close>,
  \<^verbatim>\<open>i\<close> the type.
\<close>

fun leak_res_show_from :: "trs_proc_ctx \<Rightarrow> trs_res_mng \<Rightarrow> int \<Rightarrow> int \<Rightarrow> int \<Rightarrow> nat \<Rightarrow> nat \<Rightarrow> (int \<times> nat) list option" where
  "leak_res_show_from c m ty held num j 0 = Some []"
| "leak_res_show_from c m ty held num j (Suc n) =
     (if num = held then Some []
      else case res_ids_at m (word_of_int ty) of
        None \<Rightarrow> None
      | Some x \<Rightarrow>
          if trs_is_id_pid_match x (pc_pid c) (pc_task_id c)
          then map_option ((#) (ty, j)) (leak_res_show_from c m ty held (num + 1) (Suc j) n)
          else leak_res_show_from c m ty held num (Suc j) n)"

fun leak_res_show_types :: "trs_proc_ctx \<Rightarrow> ('s, 'h) trs_core_ts_inst \<Rightarrow> int list \<Rightarrow> (int \<times> nat) list option" where
  "leak_res_show_types c ts [] = Some []"
| "leak_res_show_types c ts (ty # tys) = do {
     let m = ct_res_mng ts ty;
     a \<leftarrow> leak_res_show_from c m ty (trs_get_proc_res_num c (ti_tsid (ct_inst ts)) ty) 0 0 (unat (rm_max_id m));
     b \<leftarrow> leak_res_show_types c ts tys;
     Some (a @ b)
   }"

definition trs_proc_leak_res_show :: "trs_proc_ctx \<Rightarrow> ('s, 'h) trs_core_ts_inst \<Rightarrow> (int \<times> nat) list option" where
  "trs_proc_leak_res_show c ts = leak_res_show_types c ts [0 .. 11]"

definition trs_proc_is_res_leak :: "trs_proc_ctx \<Rightarrow> u32 \<Rightarrow> bool" where
  "trs_proc_is_res_leak c tsid \<longleftrightarrow>
     pt_chan_id (pc_ts_ctx c tsid) \<ge> 0 \<or> list_ex (\<lambda>ty. trs_get_proc_res_num c tsid ty > 0) [0 .. 11]"


section \<open>The ownership table\<close>

text \<open>
  An entry is owned while its process has not released it. Its reference count is one for the owner and
  one for each user that \<^verbatim>\<open>trs_res_get\<close> has admitted (\<open>n\<close> of them), and an entry without references has
  no process.
\<close>

definition res_owned :: "trs_res_ids \<Rightarrow> bool" where
  "res_owned x \<longleftrightarrow> ri_pid x \<noteq> 0 \<and> ri_status x = RES_STATUS_NORMAL"

definition entry_ok :: "trs_res_ids \<Rightarrow> nat \<Rightarrow> bool" where
  "entry_ok x n \<longleftrightarrow>
     ri_ref x = (if res_owned x then 1 else 0) + int n \<and> (ri_ref x = 0 \<longleftrightarrow> ri_pid x = 0) \<and> ri_ref x \<le> INT_MAX"

abbreviation res_live :: "trs_res_ids \<Rightarrow> bool" where
  "res_live x \<equiv> ri_ref x \<noteq> 0"

definition res_table :: "trs_res_mng \<Rightarrow> trs_res_ids list \<Rightarrow> (nat \<Rightarrow> nat) \<Rightarrow> bool" where
  "res_table m xs g \<longleftrightarrow>
     rm_ids m = Some xs \<and> length xs = unat (rm_max_id m) \<and> length xs \<le> 2147483647 \<and>
     (\<forall>k < length xs. entry_ok (xs ! k) (g k)) \<and> (\<forall>k \<ge> length xs. g k = 0) \<and>
     rm_use_num m = of_nat (length (filter res_live xs))"

definition proc_match :: "trs_proc_ctx \<Rightarrow> trs_res_ids \<Rightarrow> bool" where
  "proc_match c x \<longleftrightarrow> trs_is_id_pid_match x (pc_pid c) (pc_task_id c)"

text \<open>The processes with a context: distinct, and each with an exact count of the entries it owns.\<close>

definition procs_ok :: "u32 \<Rightarrow> int \<Rightarrow> trs_res_ids list \<Rightarrow> (nat \<rightharpoonup> trs_proc_ctx) \<Rightarrow> bool" where
  "procs_ok tsid ty xs procs \<longleftrightarrow>
     (\<forall>a c. procs a = Some c \<longrightarrow>
        pc_pid c \<noteq> 0 \<and> trs_get_proc_res_num c tsid ty = int (length (filter (proc_match c) xs))) \<and>
     (\<forall>a b c d. procs a = Some c \<longrightarrow> procs b = Some d \<longrightarrow> pc_pid c = pc_pid d \<longrightarrow> pc_task_id c = pc_task_id d \<longrightarrow> a = b)"

lemma i32_id: "- 2147483648 \<le> x \<Longrightarrow> x \<le> INT_MAX \<Longrightarrow> i32 x = x"
  by (simp add: i32_def sint_sbintrunc' signed_take_bit_int_eq_self)

lemma filter_upd:
  "k < length xs \<Longrightarrow>
   length (filter P (xs[k := x])) + of_bool (P (xs ! k)) = length (filter P xs) + of_bool (P x)"
proof (induction xs arbitrary: k)
  case (Cons y ys)
  then show ?case by (cases k) auto
qed simp

lemma filter_upd_same: "k < length xs \<Longrightarrow> P x = P (xs ! k) \<Longrightarrow> length (filter P (xs[k := x])) = length (filter P xs)"
  using filter_upd [of k xs P x] by simp

lemma table_at:
  assumes "res_table m xs g" "unat i < length xs"
  shows "res_ids_at m i = Some (xs ! unat i)" "\<not> i \<ge> rm_max_id m" "entry_ok (xs ! unat i) (g (unat i))"
  using assms by (auto simp: res_table_def res_ids_at_def word_le_nat_alt)

lemma table_out:
  assumes "res_table m xs g" "\<not> unat i < length xs"
  shows "i \<ge> rm_max_id m" "g (unat i) = 0"
  using assms by (auto simp: res_table_def word_le_nat_alt)

lemma table_upd:
  assumes t: "res_table m xs g" and k: "unat i < length xs" and e: "entry_ok x n"
    and u: "u = rm_use_num m + of_bool (res_live x) - of_bool (res_live (xs ! unat i))"
  shows "res_table ((res_ids_set i x m)\<lparr>rm_use_num := u\<rparr>) (xs[unat i := x]) (g(unat i := n))"
proof -
  have "u = of_nat (length (filter res_live (xs[unat i := x])))"
  proof -
    have "of_nat (length (filter res_live (xs[unat i := x])) + of_bool (res_live (xs ! unat i))) =
        (of_nat (length (filter res_live xs) + of_bool (res_live x)) :: u32)"
      using filter_upd [OF k, of res_live x] by simp
    moreover have "u + of_bool (res_live (xs ! unat i)) = of_nat (length (filter res_live xs) + of_bool (res_live x))"
      using t u by (simp add: res_table_def)
    ultimately show ?thesis by (metis add_right_imp_eq of_nat_add of_nat_of_bool)
  qed
  then show ?thesis using t k e by (auto simp: res_table_def res_ids_set_def nth_list_update)
qed

lemma set_id_use: "res_ids_set i x m = (res_ids_set i x m)\<lparr>rm_use_num := rm_use_num m\<rparr>"
  by (simp add: res_ids_set_def)

lemma table_upd_same:
  assumes "res_table m xs g" "unat i < length xs" "entry_ok x n" "res_live x = res_live (xs ! unat i)"
  shows "res_table (res_ids_set i x m) (xs[unat i := x]) (g(unat i := n))"
  by (subst set_id_use, rule table_upd [OF assms(1-3)]) (simp add: assms(4))

lemma procs_same:
  assumes "procs_ok tsid ty xs procs" "k < length xs" "\<And>c. proc_match c x = proc_match c (xs ! k)"
  shows "procs_ok tsid ty (xs[k := x]) procs"
  using assms filter_upd_same [OF assms(2)] by (simp add: procs_ok_def)

lemma num_add:
  "pc_pid (proc_res_num_add tsid ty d c) = pc_pid c" "pc_task_id (proc_res_num_add tsid ty d c) = pc_task_id c"
  "trs_get_proc_res_num (proc_res_num_add tsid ty d c) tsid ty = i32 (trs_get_proc_res_num c tsid ty + d)"
  by (simp_all add: proc_res_num_add_def Let_def trs_get_proc_res_num_def)

lemma procs_one:
  assumes ok: "procs_ok tsid ty xs procs" and k: "k < length xs" and c: "procs a = Some c"
    and d: "of_bool (proc_match c x) = of_bool (proc_match c (xs ! k)) + (d :: int)"
    and others: "\<And>e. pc_pid e \<noteq> 0 \<Longrightarrow> (pc_pid e, pc_task_id e) \<noteq> (pc_pid c, pc_task_id c) \<Longrightarrow> proc_match e x = proc_match e (xs ! k)"
    and len: "length xs \<le> 2147483647"
  shows "procs_ok tsid ty (xs[k := x]) (procs(a \<mapsto> proc_res_num_add tsid ty d c))"
proof -
  let ?c = "proc_res_num_add tsid ty d c"
  have m: "proc_match ?c = proc_match c" by (simp add: fun_eq_iff proc_match_def num_add)
  have pid: "pc_pid c \<noteq> 0" "trs_get_proc_res_num c tsid ty = int (length (filter (proc_match c) xs))"
    using ok c by (auto simp: procs_ok_def)
  have eq: "int (length (filter (proc_match c) (xs[k := x]))) = int (length (filter (proc_match c) xs)) + d"
  proof -
    have "int (length (filter (proc_match c) (xs[k := x])) + of_bool (proc_match c (xs ! k))) =
      int (length (filter (proc_match c) xs) + of_bool (proc_match c x))"
      using filter_upd [OF k, of "proc_match c" x] by presburger
    then show ?thesis using d by simp
  qed
  have "int (length (filter (proc_match c) (xs[k := x]))) \<le> INT_MAX"
    using length_filter_le [of "proc_match c" "xs[k := x]"] len by simp
  then have n: "trs_get_proc_res_num ?c tsid ty = int (length (filter (proc_match ?c) (xs[k := x])))"
    unfolding m num_add pid(2) eq [symmetric] by (intro i32_id) simp_all
  have other: "trs_get_proc_res_num e tsid ty = int (length (filter (proc_match e) (xs[k := x])))"
    if "procs b = Some e" "b \<noteq> a" for b e
  proof -
    have e: "pc_pid e \<noteq> 0" "trs_get_proc_res_num e tsid ty = int (length (filter (proc_match e) xs))"
      using ok that(1) by (auto simp: procs_ok_def)
    have ne: "(pc_pid e, pc_task_id e) \<noteq> (pc_pid c, pc_task_id c)"
    proof
      assume "(pc_pid e, pc_task_id e) = (pc_pid c, pc_task_id c)"
      then have "pc_pid e = pc_pid c" "pc_task_id e = pc_task_id c" by auto
      then show False using ok that c unfolding procs_ok_def by blast
    qed
    have "length (filter (proc_match e) (xs[k := x])) = length (filter (proc_match e) xs)"
      by (rule filter_upd_same [OF k others [OF e(1) ne]])
    then show ?thesis using e(2) by simp
  qed
  show ?thesis unfolding procs_ok_def
  proof (intro conjI allI impI)
    fix b e assume "(procs(a \<mapsto> ?c)) b = Some e"
    then show "pc_pid e \<noteq> 0" "trs_get_proc_res_num e tsid ty = int (length (filter (proc_match e) (xs[k := x])))"
      using pid(1) n other ok by (auto simp: num_add procs_ok_def split: if_splits)
  next
    fix b b' e e'
    assume h: "(procs(a \<mapsto> ?c)) b = Some e" "(procs(a \<mapsto> ?c)) b' = Some e'" "pc_pid e = pc_pid e'" "pc_task_id e = pc_task_id e'"
    obtain f where f: "procs b = Some f" "pc_pid f = pc_pid e" "pc_task_id f = pc_task_id e"
      using h(1) c by (auto simp: num_add split: if_splits)
    obtain f' where f': "procs b' = Some f'" "pc_pid f' = pc_pid e'" "pc_task_id f' = pc_task_id e'"
      using h(2) c by (auto simp: num_add split: if_splits)
    show "b = b'" using ok f f' h(3,4) unfolding procs_ok_def by metis
  qed
qed


section \<open>Operations on the table\<close>

text \<open>
  \<open>res_inv ty ts procs out g\<close>: the table of type \<open>ty\<close> is well-formed for the users \<open>g\<close>, the processes count
  exactly, and every entry with a reference is an id that this layer holds from the allocator (\<open>out\<close>).
\<close>

definition res_inv ::
    "int \<Rightarrow> ('s, 'h) trs_core_ts_inst \<Rightarrow> (nat \<rightharpoonup> trs_proc_ctx) \<Rightarrow> u32 set \<Rightarrow> (nat \<Rightarrow> nat) \<Rightarrow> bool" where
  "res_inv ty ts procs out g \<longleftrightarrow>
     0 \<le> ty \<and> ty < TRS_CORE_MAX_ID_TYPE \<and>
     (\<exists>xs. res_table (ct_res_mng ts ty) xs g \<and> procs_ok (ti_tsid (ct_inst ts)) ty xs procs \<and>
        (\<forall>k < length xs. res_live (xs ! k) \<longrightarrow> of_nat k \<in> out))"

text \<open>The entry of an id, and how many users it has, for ids in range.\<close>

definition res_entry :: "('s, 'h) trs_core_ts_inst \<Rightarrow> int \<Rightarrow> u32 \<Rightarrow> trs_res_ids option" where
  "res_entry ts ty i = res_ids_at (ct_res_mng ts ty) i"

lemma set_mng [simp]:
  "ct_res_mng (res_mng_set ty m ts) ty = m" "ct_inst (res_mng_set ty m ts) = ct_inst ts"
  "ct_ops (res_mng_set ty m ts) = ct_ops ts" "ct_proc_list (res_mng_set ty m ts) = ct_proc_list ts"
  "ct_stream_ctx (res_mng_set ty m ts) = ct_stream_ctx ts"
  "ty' \<noteq> ty \<Longrightarrow> ct_res_mng (res_mng_set ty m ts) ty' = ct_res_mng ts ty'"
  by (simp_all add: res_mng_set_def)

lemma set_ids [simp]:
  "rm_max_id (res_ids_set i x m) = rm_max_id m" "rm_use_num (res_ids_set i x m) = rm_use_num m"
  "rm_ids m = Some xs \<Longrightarrow> rm_ids (res_ids_set i x m) = Some (xs[unat i := x])"
  by (simp_all add: res_ids_set_def)

text \<open>Only the table of type \<open>ty\<close> differs, and its length does not.\<close>

definition res_frame :: "int \<Rightarrow> ('s, 'h) trs_core_ts_inst \<Rightarrow> ('s, 'h) trs_core_ts_inst \<Rightarrow> bool" where
  "res_frame ty ts ts' \<longleftrightarrow> (\<exists>m. ts' = res_mng_set ty m ts \<and> rm_max_id m = rm_max_id (ct_res_mng ts ty))"

lemma res_frameI [intro!]: "rm_max_id m = rm_max_id (ct_res_mng ts ty) \<Longrightarrow> res_frame ty ts (res_mng_set ty m ts)"
  by (auto simp: res_frame_def)

lemma res_invE:
  assumes "res_inv ty ts procs out g"
  obtains xs where "0 \<le> ty" "ty < TRS_CORE_MAX_ID_TYPE" "res_mng_at ts ty = Some (ct_res_mng ts ty)"
    "res_table (ct_res_mng ts ty) xs g" "procs_ok (ti_tsid (ct_inst ts)) ty xs procs"
    "\<And>k. k < length xs \<Longrightarrow> res_live (xs ! k) \<Longrightarrow> of_nat k \<in> out"
  using assms by (auto simp: res_inv_def res_mng_at_def)

text \<open>The invariant after one entry has been replaced.\<close>

lemma res_inv_upd:
  assumes "0 \<le> ty" "ty < TRS_CORE_MAX_ID_TYPE" "res_table m' (xs[unat i := x]) g'"
    "procs_ok (ti_tsid (ct_inst ts)) ty (xs[unat i := x]) procs'"
    "\<And>k. k < length xs \<Longrightarrow> res_live (xs ! k) \<Longrightarrow> of_nat k \<in> out"
    "out' = (if res_live x then insert i out else out - {i})"
  shows "res_inv ty (res_mng_set ty m' ts) procs' out' g'"
proof -
  have "of_nat k \<in> out'" if "k < length (xs[unat i := x])" "res_live (xs[unat i := x] ! k)" for k
  proof (cases "k = unat i")
    case True
    then show ?thesis using that assms(6) by (simp split: if_splits)
  next
    case False
    have "k < 2 ^ 32" using that(1) assms(3) unsigned_less [of "rm_max_id m'", where ?'a = nat] by (simp add: res_table_def)
    then have "(of_nat k :: u32) \<noteq> i" using False by (auto simp: unat_of_nat)
    then show ?thesis using False that assms(5) [of k] assms(6) by simp
  qed
  then show ?thesis unfolding res_inv_def
    using assms(1-4) by (intro conjI exI [of _ "xs[unat i := x]"]) simp_all
qed

lemma entry_after:
  assumes "res_table m xs g" "unat i < length xs" "rm_ids m' = Some (xs[unat i := x])"
  shows "res_entry (res_mng_set ty m' ts) ty i = Some x"
  using assms by (simp add: res_entry_def res_ids_at_def)

lemma put_inv:
  assumes inv: "res_inv ty ts procs out g" and user: "0 < g (unat i)"
  obtains x ret ts' where "res_entry ts ty i = Some x" "trs_res_put ts ty i = Some (ret, ts')" "0 \<le> ret"
    "ret = 0 \<longleftrightarrow> \<not> res_owned x \<and> g (unat i) = 1"
    "res_inv ty ts' procs (if ret = 0 then out - {i} else out) (g(unat i := g (unat i) - 1))" "i \<in> out"
    "res_frame ty ts ts'" "\<exists>y. res_entry ts' ty i = Some y \<and> (ret = 0 \<longrightarrow> ri_pid y = 0)"
proof -
  from inv obtain xs where I: "0 \<le> ty" "ty < TRS_CORE_MAX_ID_TYPE" "res_mng_at ts ty = Some (ct_res_mng ts ty)"
    "res_table (ct_res_mng ts ty) xs g" "procs_ok (ti_tsid (ct_inst ts)) ty xs procs"
    "\<And>k. k < length xs \<Longrightarrow> res_live (xs ! k) \<Longrightarrow> of_nat k \<in> out" by (rule res_invE) blast
  let ?m = "ct_res_mng ts ty"
  have k: "unat i < length xs" using table_out(2) [OF I(4)] user by fastforce
  note T = table_at [OF I(4) k]
  let ?x = "xs ! unat i"
  have ref: "ri_ref ?x = (if res_owned ?x then 1 else 0) + int (g (unat i))" "ri_ref ?x \<le> INT_MAX" "ri_pid ?x \<noteq> 0"
    using T(3) user by (auto simp: entry_ok_def split: if_splits)
  have live: "res_live ?x" using ref(1) user by simp
  let ?r = "ri_ref ?x - 1"
  have r: "i32 ?r = ?r" "0 \<le> ?r" using ref user by (auto intro: i32_id)
  have io: "i \<in> out" using I(6) [OF k live] by simp
  have ent: "res_entry ts ty i = Some ?x" using T(1) by (simp add: res_entry_def)
  show thesis
  proof (cases "?r = 0")
    case True
    then have nown: "\<not> res_owned ?x" "g (unat i) = 1" using ref(1) user by (auto split: if_splits)
    let ?y = "?x\<lparr>ri_ref := 0, ri_pid := 0\<rparr>"
    let ?m' = "(res_ids_set i ?y ?m)\<lparr>rm_use_num := rm_use_num ?m - 1\<rparr>"
    have P: "trs_res_put ts ty i = Some (0, res_mng_set ty ?m' ts)"
      using I(3) T(1,2) live r True by (simp add: trs_res_put_def Let_def)
    have e: "entry_ok ?y 0" by (simp add: entry_ok_def res_owned_def)
    have t: "res_table ?m' (xs[unat i := ?y]) (g(unat i := 0))"
      by (rule table_upd [OF I(4) k e]) (use live in simp)
    have p: "procs_ok (ti_tsid (ct_inst ts)) ty (xs[unat i := ?y]) procs"
    proof -
      have "proc_match c ?y = proc_match c ?x" if "pc_pid c \<noteq> 0" for c
        using that nown(1) ref(3) by (auto simp: proc_match_def trs_is_id_pid_match_def res_owned_def)
      then show ?thesis using I(5) filter_upd_same [OF k] by (simp add: procs_ok_def)
    qed
    have "res_inv ty (res_mng_set ty ?m' ts) procs (out - {i}) (g(unat i := 0))"
      by (rule res_inv_upd [OF I(1,2) t p I(6)]) simp_all
    moreover have "res_entry (res_mng_set ty ?m' ts) ty i = Some ?y"
      by (rule entry_after [OF I(4) k]) (use I(4) in \<open>simp add: res_table_def\<close>)
    ultimately show thesis using nown io by (intro that [OF ent P]) auto
  next
    case False
    let ?y = "?x\<lparr>ri_ref := ?r\<rparr>"
    let ?m' = "res_ids_set i ?y ?m"
    have P: "trs_res_put ts ty i = Some (?r, res_mng_set ty ?m' ts)"
      using I(3) T(1,2) live r False by (simp add: trs_res_put_def Let_def)
    have own: "res_owned ?y = res_owned ?x" by (simp add: res_owned_def)
    have e: "entry_ok ?y (g (unat i) - 1)" using ref user False unfolding entry_ok_def own by auto
    have t: "res_table ?m' (xs[unat i := ?y]) (g(unat i := g (unat i) - 1))"
      by (rule table_upd_same [OF I(4) k e]) (use live False in simp)
    have p: "procs_ok (ti_tsid (ct_inst ts)) ty (xs[unat i := ?y]) procs"
      by (rule procs_same [OF I(5) k]) (simp add: proc_match_def trs_is_id_pid_match_def)
    have "res_inv ty (res_mng_set ty ?m' ts) procs out (g(unat i := g (unat i) - 1))"
      by (rule res_inv_upd [OF I(1,2) t p I(6)]) (use False io in auto)
    moreover have "res_entry (res_mng_set ty ?m' ts) ty i = Some ?y"
      by (rule entry_after [OF I(4) k]) (use I(4) in \<open>simp add: res_table_def\<close>)
    moreover have "\<not> (\<not> res_owned ?x \<and> g (unat i) = 1)" using False ref(1) by (auto split: if_splits)
    ultimately show thesis using False io by (intro that [OF ent P r(2)]) auto
  qed
qed


lemma match_inv:
  assumes "res_inv ty ts procs out g"
  shows "trs_is_res_pid_match ts pid task_id ty i =
    Some (case res_entry ts ty i of None \<Rightarrow> False | Some x \<Rightarrow> trs_is_id_pid_match x pid task_id)"
proof -
  from assms obtain xs where I: "res_mng_at ts ty = Some (ct_res_mng ts ty)" "res_table (ct_res_mng ts ty) xs g"
    by (rule res_invE) blast
  show ?thesis
  proof (cases "unat i < length xs")
    case True
    then show ?thesis using I(1) table_at [OF I(2) True] by (simp add: trs_is_res_pid_match_def res_entry_def)
  next
    case False
    have "res_ids_at (ct_res_mng ts ty) i = None" using False I(2) by (simp add: res_ids_at_def res_table_def)
    then show ?thesis using I(1) table_out(1) [OF I(2) False] by (simp add: trs_is_res_pid_match_def res_entry_def)
  qed
qed

lemma get_inv:
  assumes inv: "res_inv ty ts procs out g" and room: "int (g (unat i)) < INT_MAX - 1" and pid0: "pid \<noteq> 0"
    and call: "trs_res_get procs0 ts pid ty i = Some (ret, ts')"
  shows "if ret = 0
    then (\<exists>x. res_entry ts ty i = Some x \<and> res_owned x \<and> ri_pid x = pid) \<and> res_inv ty ts' procs out (g(unat i := g (unat i) + 1)) \<and>
         res_frame ty ts ts'
    else ret = - EINVAL \<and> ts' = ts"
proof -
  from inv obtain xs where I: "0 \<le> ty" "ty < TRS_CORE_MAX_ID_TYPE" "res_mng_at ts ty = Some (ct_res_mng ts ty)"
    "res_table (ct_res_mng ts ty) xs g" "procs_ok (ti_tsid (ct_inst ts)) ty xs procs"
    "\<And>k. k < length xs \<Longrightarrow> res_live (xs ! k) \<Longrightarrow> of_nat k \<in> out" by (rule res_invE) blast
  let ?m = "ct_res_mng ts ty"
  obtain r task where tid: "trs_get_proc_task_id procs0 ts pid = (r, task)" by (cases "trs_get_proc_task_id procs0 ts pid")
  have rr: "r \<noteq> 0 \<Longrightarrow> r = - EINVAL" using tid by (auto simp: trs_get_proc_task_id_def split: if_splits option.splits)
  note C = call [unfolded trs_res_get_def I(3) match_inv [OF inv] tid, simplified]
  show ?thesis
  proof (cases "r \<noteq> 0 \<or> \<not> (case res_entry ts ty i of None \<Rightarrow> False | Some x \<Rightarrow> trs_is_id_pid_match x pid (the task))")
    case True
    then show ?thesis using C rr by (auto split: if_splits)
  next
    case False
    then obtain x where x: "res_entry ts ty i = Some x" "trs_is_id_pid_match x pid (the task)" "r = 0"
      by (auto split: option.splits)
    have k: "unat i < length xs" using x(1) I(4) by (auto simp: res_entry_def res_ids_at_def res_table_def split: if_splits)
    note T = table_at [OF I(4) k]
    have xx: "x = xs ! unat i" using x(1) T(1) by (simp add: res_entry_def)
    let ?y = "x\<lparr>ri_ref := i32 (ri_ref x + 1)\<rparr>"
    have ts': "ret = 0" "ts' = res_mng_set ty (res_ids_set i ?y ?m) ts"
      using C x T(1) xx by (auto split: if_splits)
    have pid: "res_owned x" "ri_pid x = pid" using x(2) pid0 by (auto simp: trs_is_id_pid_match_def res_owned_def)
    have ref: "ri_ref x = 1 + int (g (unat i))" using T(3) pid(1) xx by (simp add: entry_ok_def)
    have r1: "i32 (ri_ref x + 1) = ri_ref x + 1" using room ref by (intro i32_id) auto
    have e: "entry_ok ?y (g (unat i) + 1)" using pid pid0 ref room r1 by (auto simp: entry_ok_def res_owned_def)
    have live: "res_live ?y" "res_live x" using ref r1 by simp_all
    have t: "res_table (res_ids_set i ?y ?m) (xs[unat i := ?y]) (g(unat i := g (unat i) + 1))"
      by (rule table_upd_same [OF I(4) k e]) (use live xx in simp)
    have p: "procs_ok (ti_tsid (ct_inst ts)) ty (xs[unat i := ?y]) procs"
      by (rule procs_same [OF I(5) k]) (simp add: proc_match_def trs_is_id_pid_match_def xx)
    have io: "i \<in> out" using I(6) [OF k] live(2) xx by simp
    have "res_inv ty (res_mng_set ty (res_ids_set i ?y ?m) ts) procs out (g(unat i := g (unat i) + 1))"
      by (rule res_inv_upd [OF I(1,2) t p I(6)]) (use live(1) io in auto)
    then show ?thesis using ts' x(1) pid by auto
  qed
qed


lemma add_inv:
  assumes inv: "res_inv ty ts procs out g" and c: "procs a = Some c" and i: "i \<notin> out" "i < rm_max_id (ct_res_mng ts ty)"
  obtains c' ts' where "trs_proc_add_res c ts ty i = Some (0, c', ts')"
    "res_inv ty ts' (procs(a \<mapsto> c')) (insert i out) g"
    "res_entry ts' ty i = Some \<lparr>ri_status = RES_STATUS_NORMAL, ri_task_id = pc_task_id c, ri_pid = pc_pid c, ri_ref = 1\<rparr>"
    "pc_pid c' = pc_pid c" "pc_task_id c' = pc_task_id c" "res_frame ty ts ts'" "\<exists>x. res_entry ts ty i = Some x \<and> ri_pid x = 0"
    "g (unat i) = 0"
proof -
  from inv obtain xs where I: "0 \<le> ty" "ty < TRS_CORE_MAX_ID_TYPE" "res_mng_at ts ty = Some (ct_res_mng ts ty)"
    "res_table (ct_res_mng ts ty) xs g" "procs_ok (ti_tsid (ct_inst ts)) ty xs procs"
    "\<And>k. k < length xs \<Longrightarrow> res_live (xs ! k) \<Longrightarrow> of_nat k \<in> out" by (rule res_invE) blast
  let ?m = "ct_res_mng ts ty"
  let ?y = "\<lparr>ri_status = RES_STATUS_NORMAL, ri_task_id = pc_task_id c, ri_pid = pc_pid c, ri_ref = 1\<rparr>"
  let ?m' = "(res_ids_set i ?y ?m)\<lparr>rm_use_num := rm_use_num ?m + 1\<rparr>"
  let ?tsid = "ti_tsid (ct_inst ts)"
  let ?c = "proc_res_num_add ?tsid ty 1 c"
  have k: "unat i < length xs" using i(2) I(4) by (simp add: res_table_def word_less_nat_alt)
  note T = table_at [OF I(4) k]
  have dead: "\<not> res_live (xs ! unat i)" using I(6) [OF k] i(1) by auto
  then have x: "ri_pid (xs ! unat i) = 0" "g (unat i) = 0" "\<not> res_owned (xs ! unat i)"
    using T(3) by (auto simp: entry_ok_def split: if_splits)
  have pid: "pc_pid c \<noteq> 0" using I(5) c by (auto simp: procs_ok_def)
  have A: "trs_proc_add_res c ts ty i = Some (0, ?c, res_mng_set ty ?m' ts)"
    using I(3) T(1,2) x(1) by (simp add: trs_proc_add_res_def)
  have e: "entry_ok ?y 0" using pid by (simp add: entry_ok_def res_owned_def)
  have t: "res_table ?m' (xs[unat i := ?y]) (g(unat i := 0))"
    by (rule table_upd [OF I(4) k e]) (use dead in simp)
  have len: "length xs \<le> 2147483647" using I(4) by (simp add: res_table_def)
  have p: "procs_ok ?tsid ty (xs[unat i := ?y]) (procs(a \<mapsto> ?c))"
    by (rule procs_one [OF I(5) k c _ _ len]) (use pid x(1) in \<open>auto simp: proc_match_def trs_is_id_pid_match_def\<close>)
  have "g(unat i := 0) = g" using x(2) by auto
  with t have "res_inv ty (res_mng_set ty ?m' ts) (procs(a \<mapsto> ?c)) (insert i out) g"
    by (intro res_inv_upd [OF I(1,2) _ p I(6)]) simp_all
  moreover have "res_entry (res_mng_set ty ?m' ts) ty i = Some ?y"
    by (rule entry_after [OF I(4) k]) (use I(4) in \<open>simp add: res_table_def\<close>)
  moreover have "res_entry ts ty i = Some (xs ! unat i)" using T(1) by (simp add: res_entry_def)
  ultimately show thesis using x(1,2) by (intro that [OF A]) (auto simp: num_add)
qed

lemma del_inv:
  assumes inv: "res_inv ty ts procs out g" and c: "procs a = Some c" and own: "trs_proc_has_res c ts ty i = Some True"
  obtains ret c' ts' where "trs_proc_del_res c ts ty i = Some (ret, c', ts')" "0 \<le> ret" "ret = 0 \<longleftrightarrow> g (unat i) = 0"
    "res_inv ty ts' (procs(a \<mapsto> c')) (if ret = 0 then out - {i} else out) g" "i \<in> out"
    "pc_pid c' = pc_pid c" "pc_task_id c' = pc_task_id c" "res_frame ty ts ts'"
    "\<exists>y. res_entry ts' ty i = Some y \<and> \<not> res_owned y \<and> (ret = 0 \<longrightarrow> ri_pid y = 0)"
    "trs_get_proc_res_num c' (ti_tsid (ct_inst ts)) ty = trs_get_proc_res_num c (ti_tsid (ct_inst ts)) ty - 1"
    "\<And>j. j \<noteq> i \<Longrightarrow> res_entry ts' ty j = res_entry ts ty j"
proof -
  from inv obtain xs where I: "0 \<le> ty" "ty < TRS_CORE_MAX_ID_TYPE" "res_mng_at ts ty = Some (ct_res_mng ts ty)"
    "res_table (ct_res_mng ts ty) xs g" "procs_ok (ti_tsid (ct_inst ts)) ty xs procs"
    "\<And>k. k < length xs \<Longrightarrow> res_live (xs ! k) \<Longrightarrow> of_nat k \<in> out" by (rule res_invE) blast
  let ?m = "ct_res_mng ts ty"
  let ?tsid = "ti_tsid (ct_inst ts)"
  let ?c = "proc_res_num_add ?tsid ty (- 1) c"
  obtain x where ent: "res_entry ts ty i = Some x" and mt: "proc_match c x"
    using own match_inv [OF inv] by (auto simp: trs_proc_has_res_def proc_match_def split: option.splits)
  have k: "unat i < length xs" using ent I(4) by (auto simp: res_entry_def res_ids_at_def res_table_def split: if_splits)
  note T = table_at [OF I(4) k]
  have xx: "x = xs ! unat i" using ent T(1) by (simp add: res_entry_def)
  have pid: "pc_pid c \<noteq> 0" "trs_get_proc_res_num c ?tsid ty = int (length (filter (proc_match c) xs))"
    using I(5) c by (auto simp: procs_ok_def)
  have o: "res_owned x" using mt pid(1) by (auto simp: proc_match_def trs_is_id_pid_match_def res_owned_def)
  have ref: "ri_ref x = 1 + int (g (unat i))" "ri_ref x \<le> INT_MAX" "ri_pid x \<noteq> 0"
    using T(3) o xx by (auto simp: entry_ok_def)
  have r: "i32 (int (g (unat i))) = int (g (unat i))" using ref by (intro i32_id) auto
  let ?y = "if g (unat i) = 0 then x\<lparr>ri_status := RES_STATUS_DEL, ri_ref := 0, ri_pid := 0\<rparr>
    else x\<lparr>ri_status := RES_STATUS_DEL, ri_ref := int (g (unat i))\<rparr>"
  let ?m' = "(res_ids_set i ?y ?m)\<lparr>rm_use_num := rm_use_num ?m - (if g (unat i) = 0 then 1 else 0)\<rparr>"
  have ids: "rm_ids ?m = Some xs" using I(4) by (simp add: res_table_def)
  have put: "trs_res_put (res_mng_set ty (res_ids_set i (x\<lparr>ri_status := RES_STATUS_DEL\<rparr>) ?m) ts) ty i =
      Some (int (g (unat i)), res_mng_set ty ?m' ts)"
    using I(1,2) T(2) ids k ref r
    by (auto simp: trs_res_put_def res_mng_at_def res_ids_at_def Let_def res_mng_set_def res_ids_set_def)
  have D: "trs_proc_del_res c ts ty i = Some (int (g (unat i)), ?c, res_mng_set ty ?m' ts)"
    using I(3) own T(1) xx put by (simp add: trs_proc_del_res_def Let_def)
  have e: "entry_ok ?y (g (unat i))" using ref by (auto simp: entry_ok_def res_owned_def)
  have live: "res_live x" using ref by simp
  have "res_table ?m' (xs[unat i := ?y]) (g(unat i := g (unat i)))"
    by (rule table_upd [OF I(4) k e]) (use live xx in auto)
  then have t: "res_table ?m' (xs[unat i := ?y]) g" by simp
  have len: "length xs \<le> 2147483647" using I(4) by (simp add: res_table_def)
  have p: "procs_ok ?tsid ty (xs[unat i := ?y]) (procs(a \<mapsto> ?c))"
    by (rule procs_one [OF I(5) k c _ _ len]) (use mt xx in \<open>auto simp: proc_match_def trs_is_id_pid_match_def\<close>)
  have io: "i \<in> out" using I(6) [OF k] live xx by simp
  have inv': "res_inv ty (res_mng_set ty ?m' ts) (procs(a \<mapsto> ?c)) (if int (g (unat i)) = 0 then out - {i} else out) g"
    by (rule res_inv_upd [OF I(1,2) t p I(6)]) (use io in auto)
  have ent': "res_entry (res_mng_set ty ?m' ts) ty i = Some ?y"
    by (rule entry_after [OF I(4) k]) (use ids in simp)
  have cnt: "trs_get_proc_res_num ?c ?tsid ty = trs_get_proc_res_num c ?tsid ty - 1"
  proof -
    have "proc_match c (xs ! unat i)" using mt xx by simp
    then have "filter (proc_match c) xs \<noteq> []" using nth_mem [OF k] by (auto simp: filter_empty_conv)
    then have "0 < length (filter (proc_match c) xs)" by simp
    moreover have "length (filter (proc_match c) xs) \<le> 2147483647" using length_filter_le len by (rule order_trans)
    ultimately show ?thesis unfolding num_add pid(2) by (intro trans [OF i32_id]) auto
  qed
  have oth: "res_entry (res_mng_set ty ?m' ts) ty j = res_entry ts ty j" if "j \<noteq> i" for j
  proof -
    have "unat j \<noteq> unat i" using that by (simp add: word_unat_eq_iff)
    then show ?thesis using ids by (simp add: res_entry_def res_ids_at_def)
  qed
  show thesis
    by (rule that [OF D _ _ inv' io _ _ _ _ cnt oth]) (use ent' in \<open>auto simp: num_add res_owned_def\<close>)
qed


lemma res_inv_mono: "res_inv ty ts procs out g \<Longrightarrow> out \<subseteq> out' \<Longrightarrow> res_inv ty ts procs out' g"
  by (auto simp: res_inv_def)

lemma res_inv_cong:
  "ct_res_mng ts' ty = ct_res_mng ts ty \<Longrightarrow> ct_inst ts' = ct_inst ts \<Longrightarrow> res_inv ty ts' procs out g = res_inv ty ts procs out g"
  by (simp add: res_inv_def)

lemma res_inv_drop: "res_inv ty ts procs out g \<Longrightarrow> res_inv ty ts (procs(a := None)) out g"
  by (force simp: res_inv_def procs_ok_def)

lemma entry_nth:
  assumes "res_table (ct_res_mng ts ty) xs g" "k < length xs"
  shows "res_entry ts ty (of_nat k) = Some (xs ! k)"
proof -
  have "k < 2 ^ 32" using assms by (simp add: res_table_def)
  then have "unat (of_nat k :: u32) = k" by (simp add: unat_of_nat)
  then show ?thesis using assms by (simp add: res_entry_def res_ids_at_def res_table_def)
qed

lemma res_inv_new:
  assumes "res_inv ty ts procs out g" "pc_pid c \<noteq> 0" "trs_get_proc_res_num c (ti_tsid (ct_inst ts)) ty = 0"
    "\<And>i x. res_entry ts ty i = Some x \<Longrightarrow> \<not> proc_match c x"
    "\<And>b d. procs b = Some d \<Longrightarrow> (pc_pid d, pc_task_id d) \<noteq> (pc_pid c, pc_task_id c)"
  shows "res_inv ty ts (procs(a \<mapsto> c)) out g"
proof -
  from assms(1) obtain xs where I: "0 \<le> ty" "ty < TRS_CORE_MAX_ID_TYPE" "res_mng_at ts ty = Some (ct_res_mng ts ty)"
    "res_table (ct_res_mng ts ty) xs g" "procs_ok (ti_tsid (ct_inst ts)) ty xs procs"
    "\<And>k. k < length xs \<Longrightarrow> res_live (xs ! k) \<Longrightarrow> of_nat k \<in> out" by (rule res_invE) blast
  have "\<not> proc_match c x" if x: "x \<in> set xs" for x
  proof -
    obtain k where k: "k < length xs" "xs ! k = x" using x by (auto simp: in_set_conv_nth)
    then show ?thesis using assms(4) entry_nth [OF I(4) k(1)] by blast
  qed
  then have "filter (proc_match c) xs = []" by (simp add: filter_empty_conv)
  then have n: "trs_get_proc_res_num c (ti_tsid (ct_inst ts)) ty = int (length (filter (proc_match c) xs))"
    using assms(3) by simp
  have "procs_ok (ti_tsid (ct_inst ts)) ty xs (procs(a \<mapsto> c))"
    unfolding procs_ok_def
  proof (intro conjI allI impI)
    fix b d assume "(procs(a \<mapsto> c)) b = Some d"
    then show "pc_pid d \<noteq> 0" "trs_get_proc_res_num d (ti_tsid (ct_inst ts)) ty = int (length (filter (proc_match d) xs))"
      using I(5) assms(2) n by (auto simp: procs_ok_def split: if_splits)
  next
    fix b b' d d'
    assume h: "(procs(a \<mapsto> c)) b = Some d" "(procs(a \<mapsto> c)) b' = Some d'" "pc_pid d = pc_pid d'" "pc_task_id d = pc_task_id d'"
    have old: "b = b'" if "procs b = Some d" "procs b' = Some d'" using I(5) h(3,4) that unfolding procs_ok_def by blast
    have e: "(pc_pid d, pc_task_id d) = (pc_pid d', pc_task_id d')" using h(3,4) by simp
    show "b = b'"
    proof (cases "b = a")
      case True
      then have "d = c" using h(1) by simp
      then show ?thesis using True h(2) e assms(5) [of b' d'] by (cases "b' = a") simp_all
    next
      case False
      then have "procs b = Some d" using h(1) by simp
      then show ?thesis using h(2) e assms(5) [of b d] old by (cases "b' = a") simp_all
    qed
  qed
  then show ?thesis using I unfolding res_inv_def by blast
qed

text \<open>A process whose count is zero owns nothing.\<close>

lemma res_inv_count:
  assumes "res_inv ty ts procs out g" "procs a = Some c"
  shows "trs_get_proc_res_num c (ti_tsid (ct_inst ts)) ty = 0 \<longleftrightarrow> (\<forall>i x. res_entry ts ty i = Some x \<longrightarrow> \<not> proc_match c x)"
proof -
  from assms(1) obtain xs where I: "res_table (ct_res_mng ts ty) xs g" "procs_ok (ti_tsid (ct_inst ts)) ty xs procs"
    by (rule res_invE) blast
  have n: "trs_get_proc_res_num c (ti_tsid (ct_inst ts)) ty = int (length (filter (proc_match c) xs))"
    using I(2) assms(2) by (auto simp: procs_ok_def)
  have "(\<forall>i x. res_entry ts ty i = Some x \<longrightarrow> \<not> proc_match c x) \<longleftrightarrow> (\<forall>x \<in> set xs. \<not> proc_match c x)"
  proof (intro iffI allI impI ballI)
    fix x assume h: "\<forall>i x. res_entry ts ty i = Some x \<longrightarrow> \<not> proc_match c x" and x: "x \<in> set xs"
    obtain k where k: "k < length xs" "xs ! k = x" using x by (auto simp: in_set_conv_nth)
    then show "\<not> proc_match c x" using h entry_nth [OF I(1) k(1)] by blast
  next
    fix i x assume "\<forall>x \<in> set xs. \<not> proc_match c x" "res_entry ts ty i = Some x"
    then show "\<not> proc_match c x" using I(1) by (auto simp: res_entry_def res_ids_at_def res_table_def split: if_splits)
  qed
  then show ?thesis unfolding n by (simp add: filter_empty_conv)
qed

lemma has_res_inv:
  assumes "res_inv ty ts procs out g"
  shows "trs_proc_has_res c ts ty i = Some (case res_entry ts ty i of None \<Rightarrow> False | Some x \<Rightarrow> proc_match c x)"
  using match_inv [OF assms] by (cases "res_entry ts ty i") (simp_all add: trs_proc_has_res_def proc_match_def)

end
