(* ===== verification/Trs_Res_Mng.thy ===== *)
theory Trs_Res_Mng
  imports Trs_Proc
begin

text \<open>
  The resource ids of a task scheduler instance, \<^verbatim>\<open>rms/trs_drv/trs_core/trs_res_mng.c\<close>, and the ioctl that
  dispatches to it (\<^verbatim>\<open>trs_fops.c\<close>): ids come from the allocator of \<^verbatim>\<open>trs_id.c\<close> and are entered in the
  ownership tables of \<^verbatim>\<open>trs_proc.c\<close>; events and notifies are announced to the task scheduler.

  \<open>trs_res_w\<close> is what an operation changes besides the instance and the process: the id allocator, the
  hardware behind the adapter's callbacks, and the messages sent so far. \<open>trs_res_env\<close> collects the
  outcomes of \<^verbatim>\<open>try_module_get\<close> and \<^verbatim>\<open>kmalloc\<close> of the calls into the allocator, and the value an
  uninitialised local variable happens to have.
\<close>

section \<open>Data\<close>

record ('s, 'h) trs_res_w =
  rw_ids :: "'s trs_ids"
  rw_hw :: 'h
  rw_sent :: "trs_mbox_msg list"

record trs_res_env =
  en_modok :: bool
  en_mem :: "nat \<Rightarrow> bool"
  en_fmodok :: bool
  en_fmem :: bool
  en_stack :: u64

record trs_res_id_para =
  rp_tsid :: u32
  rp_res_type :: int
  rp_id :: u32
  rp_para :: u32
  rp_prop :: int
  rp_value :: "u32 \<times> u32"

abbreviation (input) TRS_RES_OP_RESET :: u32 where "TRS_RES_OP_RESET \<equiv> 0"
abbreviation (input) TRS_RES_OP_RECORD :: u32 where "TRS_RES_OP_RECORD \<equiv> 1"
abbreviation (input) TRS_RES_OP_ENABLE :: u32 where "TRS_RES_OP_ENABLE \<equiv> 2"
abbreviation (input) TRS_RES_OP_DISABLE :: u32 where "TRS_RES_OP_DISABLE \<equiv> 3"
abbreviation (input) TRS_RES_OP_CHECK_AND_RESET :: u32 where "TRS_RES_OP_CHECK_AND_RESET \<equiv> 4"
abbreviation (input) DRV_STREAM_BIND_LOGIC_CQ :: int where "DRV_STREAM_BIND_LOGIC_CQ \<equiv> 0"
abbreviation (input) DRV_STREAM_UNBIND_LOGIC_CQ :: int where "DRV_STREAM_UNBIND_LOGIC_CQ \<equiv> 1"
abbreviation (input) DRV_ID_RECORD :: int where "DRV_ID_RECORD \<equiv> 2"

text \<open>\<^verbatim>\<open>id_type_trans\<close>: the allocator's type of a resource type.\<close>

definition trs_res_get_id_type :: "int \<Rightarrow> int" where
  "trs_res_get_id_type ty =
     (if ty = TRS_CB_SQ then TRS_CB_SQ_ID else if ty = TRS_CB_CQ then TRS_CB_CQ_ID
      else if ty = TRS_LOGIC_CQ then TRS_LOGIC_CQ_ID else ty)"

definition trs_is_stars_inst :: "('s, 'h) trs_core_ts_inst \<Rightarrow> bool" where
  "trs_is_stars_inst ts \<longleftrightarrow> ct_hw_type ts = 1"

definition trs_res_replace_res_type :: "('s, 'h) trs_core_ts_inst \<Rightarrow> int \<Rightarrow> int" where
  "trs_res_replace_res_type ts ty =
     (if \<not> trs_is_stars_inst ts
      then let ty1 = (if ty = TRS_SW_SQ then TRS_HW_SQ else ty) in if ty1 = TRS_SW_CQ then TRS_HW_CQ else ty1
      else ty)"

definition trs_is_host_pid_match :: "(int \<Rightarrow> int option) \<Rightarrow> int \<Rightarrow> int \<Rightarrow> bool" where
  "trs_is_host_pid_match host_pid_of cur_pid host_pid =
     (case host_pid_of cur_pid of None \<Rightarrow> False | Some pid \<Rightarrow> pid = host_pid)"

definition trs_res_get_id_num :: "('s, 'h) trs_core_ts_inst \<Rightarrow> int \<Rightarrow> u32" where
  "trs_res_get_id_num ts ty = rm_id_num (ct_res_mng ts ty)"

definition trs_res_get_max_id :: "('s, 'h) trs_core_ts_inst \<Rightarrow> int \<Rightarrow> u32" where
  "trs_res_get_max_id ts ty = rm_max_id (ct_res_mng ts ty)"

definition trs_res_get_id_used_num :: "('s, 'h) trs_core_ts_inst \<Rightarrow> int \<Rightarrow> u32" where
  "trs_res_get_id_used_num ts ty = rm_use_num (ct_res_mng ts ty)"

section \<open>Stream contexts\<close>

definition trs_stream_ctx_init :: "trs_stream_ctx \<Rightarrow> trs_stream_ctx" where
  "trs_stream_ctx_init x = x\<lparr>sc_sq := - 1, sc_cq := - 1, sc_logic_cq := - 1\<rparr>"

definition stream_ctx_at :: "('s, 'h) trs_core_ts_inst \<Rightarrow> u32 \<Rightarrow> trs_stream_ctx option" where
  "stream_ctx_at ts i =
     (case ct_stream_ctx ts of
        None \<Rightarrow> None
      | Some xs \<Rightarrow> if unat i < length xs then Some (xs ! unat i) else None)"

definition stream_ctx_set :: "u32 \<Rightarrow> trs_stream_ctx \<Rightarrow> ('s, 'h) trs_core_ts_inst \<Rightarrow> ('s, 'h) trs_core_ts_inst" where
  "stream_ctx_set i x ts = ts\<lparr>ct_stream_ctx := map_option (\<lambda>xs. xs[unat i := x]) (ct_stream_ctx ts)\<rparr>"

definition trs_res_id_init_para ::
    "('s, 'h) trs_core_ts_inst \<Rightarrow> int \<Rightarrow> u32 \<Rightarrow> ('s, 'h) trs_core_ts_inst option" where
  "trs_res_id_init_para ts ty i =
     (if ty = TRS_STREAM
      then map_option (\<lambda>x. stream_ctx_set i (trs_stream_ctx_init x) ts) (stream_ctx_at ts i)
      else Some ts)"

section \<open>Notices\<close>

text \<open>\<^verbatim>\<open>trs_core_notice_ts\<close> on the state of this layer.\<close>

definition res_send ::
    "('s, 'h) trs_core_ts_inst \<Rightarrow> ('s, 'h) trs_res_w \<Rightarrow> trs_mbox_msg \<Rightarrow> int \<times> ('s, 'h) trs_res_w" where
  "res_send ts w msg =
     (case trs_core_notice_ts ts (rw_hw w) msg of
        (ret, h) \<Rightarrow> (ret, w\<lparr>rw_hw := h, rw_sent := rw_sent w @ [msg]\<rparr>))"

definition trs_event_notice_ts ::
    "('s, 'h) trs_core_ts_inst \<Rightarrow> ('s, 'h) trs_res_w \<Rightarrow> int \<Rightarrow> u32 \<Rightarrow> (int \<times> ('s, 'h) trs_res_w) option" where
  "trs_event_notice_ts ts w op event_id = do {
     x \<leftarrow> res_ids_at (ct_res_mng ts TRS_EVENT) event_id;
     Some (res_send ts w (ResMapMsg 1 (word_of_int op) (ucast event_id) (word_of_int (ri_pid x))))
   }"

definition trs_notify_notice_ts ::
    "('s, 'h) trs_core_ts_inst \<Rightarrow> ('s, 'h) trs_res_w \<Rightarrow> int \<Rightarrow> u32 \<Rightarrow> (int \<times> ('s, 'h) trs_res_w) option" where
  "trs_notify_notice_ts ts w op notify_id = do {
     x \<leftarrow> res_ids_at (ct_res_mng ts TRS_NOTIFY) notify_id;
     Some (res_send ts w (NotifyMsg (ucast notify_id) (word_of_int (ri_pid x)) 0))
   }"

definition trs_res_notice_ts ::
    "('s, 'h) trs_core_ts_inst \<Rightarrow> ('s, 'h) trs_res_w \<Rightarrow> int \<Rightarrow> int \<Rightarrow> u32 \<Rightarrow> (int \<times> ('s, 'h) trs_res_w) option" where
  "trs_res_notice_ts ts w op ty i =
     (if ty = TRS_EVENT then trs_event_notice_ts ts w op i
      else if ty = TRS_NOTIFY then trs_notify_notice_ts ts w op i
      else Some (0, w))"

section \<open>Allocation and release\<close>

definition trs_res_mng_id_alloc ::
    "trs_res_env \<Rightarrow> ('s, 'h) trs_core_ts_inst \<Rightarrow> ('s, 'h) trs_res_w \<Rightarrow> int \<Rightarrow> u32 \<Rightarrow>
     ((int \<times> u32 option) \<times> ('s, 'h) trs_res_w) option" where
  "trs_res_mng_id_alloc env ts w ty para =
     (case ao_id_alloc (ct_ops ts) ty of
        Some f \<Rightarrow>
          (case f (rw_ids w) (ct_inst ts) para of
             ((ret, i), ids) \<Rightarrow> Some ((ret, Some i), w\<lparr>rw_ids := ids\<rparr>))
      | None \<Rightarrow>
          map_option (\<lambda>(r, ids). (r, w\<lparr>rw_ids := ids\<rparr>))
            (trs_id_alloc (en_modok env) (en_mem env) (rw_ids w) (Some (ct_inst ts)) (trs_res_get_id_type ty) True))"

text \<open>The result of the release is only logged.\<close>

definition trs_res_mng_id_free ::
    "trs_res_env \<Rightarrow> ('s, 'h) trs_core_ts_inst \<Rightarrow> ('s, 'h) trs_res_w \<Rightarrow> int \<Rightarrow> u32 \<Rightarrow> ('s, 'h) trs_res_w option" where
  "trs_res_mng_id_free env ts w ty i =
     (case ao_id_free (ct_ops ts) ty of
        Some f \<Rightarrow> Some (w\<lparr>rw_ids := snd (f (rw_ids w) (ct_inst ts) i)\<rparr>)
      | None \<Rightarrow>
          map_option (\<lambda>(ret, ids). w\<lparr>rw_ids := ids\<rparr>)
            (trs_id_free (en_fmodok env) (en_fmem env) (rw_ids w) (Some (ct_inst ts)) (trs_res_get_id_type ty) i))"

definition trs_res_id_need_reset :: "int \<Rightarrow> bool" where
  "trs_res_id_need_reset ty \<longleftrightarrow> ty = TRS_EVENT"

definition trs_res_id_ctrl ::
    "('s, 'h) trs_core_ts_inst \<Rightarrow> ('s, 'h) trs_res_w \<Rightarrow> int \<Rightarrow> u32 \<Rightarrow> u32 \<Rightarrow> int \<times> ('s, 'h) trs_res_w" where
  "trs_res_id_ctrl ts w ty i cmd =
     (case ao_res_id_ctrl (ct_ops ts) of
        Some f \<Rightarrow> (case f (rw_hw w) (ct_inst ts) (word_of_int ty) i cmd of (ret, h) \<Rightarrow> (ret, w\<lparr>rw_hw := h\<rparr>))
      | None \<Rightarrow> (0, w))"

text \<open>\<open>stack\<close> is what the caller's variable holds before the call.\<close>

definition trs_res_id_query_addr ::
    "u64 \<Rightarrow> ('s, 'h) trs_core_ts_inst \<Rightarrow> ('s, 'h) trs_res_w \<Rightarrow> int \<Rightarrow> u32 \<Rightarrow> int \<times> u64" where
  "trs_res_id_query_addr stack ts w ty i =
     (case ao_res_id_query (ct_ops ts) of
        Some f \<Rightarrow> f (rw_hw w) (ct_inst ts) (word_of_int ty) i 0
      | None \<Rightarrow> (0, stack))"

definition trs_res_id_alloc ::
    "trs_res_env \<Rightarrow> trs_proc_ctx \<Rightarrow> ('s, 'h) trs_core_ts_inst \<Rightarrow> ('s, 'h) trs_res_w \<Rightarrow> trs_res_id_para \<Rightarrow>
     (int \<times> trs_proc_ctx \<times> ('s, 'h) trs_core_ts_inst \<times> ('s, 'h) trs_res_w \<times> trs_res_id_para) option" where
  "trs_res_id_alloc env c ts w para = do {
     let ty = rp_res_type para;
     ((ret, r), w1) \<leftarrow> trs_res_mng_id_alloc env ts w ty (rp_para para);
     let para1 = (case r of None \<Rightarrow> para | Some i \<Rightarrow> para\<lparr>rp_id := i\<rparr>);
     let i = rp_id para1;
     if ret \<noteq> 0 then Some (ret, c, ts, w1, para1)
     else do {
       ts1 \<leftarrow> trs_res_id_init_para ts ty i;
       (ret2, w2) \<leftarrow> trs_res_notice_ts ts1 w1 0 ty i;
       if ret2 \<noteq> 0
       then do {
         w3 \<leftarrow> trs_res_mng_id_free env ts1 w2 ty i;
         Some (ret2, c, ts1, w3, para1)
       }
       else do {
         (ret3, c', ts2) \<leftarrow> trs_proc_add_res c ts1 ty i;
         if ret3 \<noteq> 0
         then do {
           (_, w3) \<leftarrow> trs_res_notice_ts ts2 w2 1 ty i;
           w4 \<leftarrow> trs_res_mng_id_free env ts2 w3 ty i;
           Some (ret3, c', ts2, w4, para1)
         }
         else
           (case trs_res_id_query_addr (en_stack env) ts2 w2 ty i of
              (ret4, v) \<Rightarrow>
                Some (0, c', ts2,
                  (if trs_res_id_need_reset ty then snd (trs_res_id_ctrl ts2 w2 ty i TRS_RES_OP_CHECK_AND_RESET) else w2),
                  para1\<lparr>rp_value := (if ret4 = 0 then (ucast v, ucast (drop_bit 32 v)) else (0, 0))\<rparr>))
       }
     }
   }"

definition trs_res_id_free0 ::
    "trs_res_env \<Rightarrow> trs_proc_ctx \<Rightarrow> ('s, 'h) trs_core_ts_inst \<Rightarrow> ('s, 'h) trs_res_w \<Rightarrow> int \<Rightarrow> u32 \<Rightarrow>
     (int \<times> trs_proc_ctx \<times> ('s, 'h) trs_core_ts_inst \<times> ('s, 'h) trs_res_w) option" where
  "trs_res_id_free0 env c ts w ty i = do {
     (ret, c', ts') \<leftarrow> trs_proc_del_res c ts ty i;
     if ret < 0 then Some (ret, c', ts', w)
     else if ret = 0
     then do {
       let w1 = (if trs_res_id_need_reset ty then snd (trs_res_id_ctrl ts' w ty i TRS_RES_OP_RESET) else w);
       (_, w2) \<leftarrow> trs_res_notice_ts ts' w1 1 ty i;
       w3 \<leftarrow> trs_res_mng_id_free env ts' w2 ty i;
       Some (0, c', ts', w3)
     }
     else Some (0, c', ts', w)
   }"

definition trs_res_id_free ::
    "trs_res_env \<Rightarrow> trs_proc_ctx \<Rightarrow> ('s, 'h) trs_core_ts_inst \<Rightarrow> ('s, 'h) trs_res_w \<Rightarrow> trs_res_id_para \<Rightarrow>
     (int \<times> trs_proc_ctx \<times> ('s, 'h) trs_core_ts_inst \<times> ('s, 'h) trs_res_w) option" where
  "trs_res_id_free env c ts w para = trs_res_id_free0 env c ts w (rp_res_type para) (rp_id para)"

definition trs_res_id_recycle ::
    "trs_res_env \<Rightarrow> trs_proc_ctx \<Rightarrow> ('s, 'h) trs_core_ts_inst \<Rightarrow> ('s, 'h) trs_res_w \<Rightarrow> int \<Rightarrow> u32 \<Rightarrow>
     (trs_proc_ctx \<times> ('s, 'h) trs_core_ts_inst \<times> ('s, 'h) trs_res_w) option" where
  "trs_res_id_recycle env c ts w ty i = map_option snd (trs_res_id_free0 env c ts w ty i)"

text \<open>
  The exported operations look the instance up by device and scheduler: \<open>ts\<close> is \<open>None\<close> when it is not
  registered. \<^verbatim>\<open>shr_proc_ops\<close> are the functions registered with \<^verbatim>\<open>trs_res_share_proc_ops_register\<close>.
\<close>

type_synonym shr_proc_ops = "int \<rightharpoonup> (trs_id_inst \<Rightarrow> int \<Rightarrow> int \<Rightarrow> u32 \<Rightarrow> bool)"

definition trs_res_share_proc_ops_register ::
    "int \<Rightarrow> (trs_id_inst \<Rightarrow> int \<Rightarrow> int \<Rightarrow> u32 \<Rightarrow> bool) option \<Rightarrow> shr_proc_ops \<Rightarrow> shr_proc_ops" where
  "trs_res_share_proc_ops_register ty func shr = shr(ty := func)"

definition trs_res_is_belong_to_proc ::
    "shr_proc_ops \<Rightarrow> trs_proc_ctx list option \<Rightarrow> ('s, 'h) trs_core_ts_inst option \<Rightarrow> trs_id_inst \<Rightarrow> int \<Rightarrow> int \<Rightarrow> u32 \<Rightarrow>
     bool option" where
  "trs_res_is_belong_to_proc shr procs0 ts inst pid ty i =
     (case ts of
        None \<Rightarrow> Some False
      | Some t \<Rightarrow> do {
          ret \<leftarrow> trs_proc_has_res_with_pid procs0 t pid ty i;
          Some (if \<not> ret then (case shr ty of Some f \<Rightarrow> f inst pid ty i | None \<Rightarrow> ret) else ret)
        })"

text \<open>\<^verbatim>\<open>return false\<close> in a function of type \<^verbatim>\<open>int\<close>: the value 0.\<close>

definition trs_res_id_check :: "'h \<Rightarrow> ('s, 'h) trs_core_ts_inst option \<Rightarrow> trs_id_inst \<Rightarrow> int \<Rightarrow> u32 \<Rightarrow> int" where
  "trs_res_id_check h ts inst ty i =
     (case ts of
        None \<Rightarrow> 0
      | Some t \<Rightarrow> (case ao_res_id_check (ct_ops t) of Some f \<Rightarrow> f h inst ty i | None \<Rightarrow> 0))"

definition trs_res_id_para_check :: "trs_id_inst option \<Rightarrow> int \<Rightarrow> u32 \<Rightarrow> int" where
  "trs_res_id_para_check inst ty i =
     (if trs_id_inst_check inst \<noteq> 0 then - EINVAL else if ty \<ge> TRS_HW_SQ then - EINVAL else 0)"

definition trs_res_id_get ::
    "trs_proc_ctx list option \<Rightarrow> ('s, 'h) trs_core_ts_inst option \<Rightarrow> trs_id_inst option \<Rightarrow> int \<Rightarrow> int \<Rightarrow> u32 \<Rightarrow>
     (int \<times> ('s, 'h) trs_core_ts_inst option) option" where
  "trs_res_id_get procs0 ts inst tgid ty i =
     (let ret = trs_res_id_para_check inst ty i in
      if ret \<noteq> 0 then Some (ret, ts)
      else case ts of
        None \<Rightarrow> Some (- EINVAL, ts)
      | Some t \<Rightarrow> map_option (\<lambda>(ret, t'). (ret, Some t')) (trs_res_get procs0 t tgid ty i))"

definition trs_res_id_put ::
    "trs_res_env \<Rightarrow> ('s, 'h) trs_core_ts_inst option \<Rightarrow> ('s, 'h) trs_res_w \<Rightarrow> trs_id_inst option \<Rightarrow> int \<Rightarrow> u32 \<Rightarrow>
     (int \<times> ('s, 'h) trs_core_ts_inst option \<times> ('s, 'h) trs_res_w) option" where
  "trs_res_id_put env ts w inst ty i =
     (let ret = trs_res_id_para_check inst ty i in
      if ret \<noteq> 0 then Some (ret, ts, w)
      else case ts of
        None \<Rightarrow> Some (- EINVAL, ts, w)
      | Some t \<Rightarrow> do {
          (ret, t') \<leftarrow> trs_res_put t ty i;
          if ret = 0
          then do {
            (_, w1) \<leftarrow> trs_res_notice_ts t' w 1 ty i;
            w2 \<leftarrow> trs_res_mng_id_free env t' w1 ty i;
            Some (0, Some t', w2)
          }
          else Some (if ret < 0 then ret else 0, Some t', w)
        })"

section \<open>Queries\<close>

definition trs_res_id_num_query :: "('s, 'h) trs_core_ts_inst \<Rightarrow> trs_res_id_para \<Rightarrow> int \<times> trs_res_id_para" where
  "trs_res_id_num_query ts para = (0, para\<lparr>rp_para := trs_res_get_id_num ts (rp_res_type para)\<rparr>)"

definition trs_res_id_max_query :: "('s, 'h) trs_core_ts_inst \<Rightarrow> trs_res_id_para \<Rightarrow> int \<times> trs_res_id_para" where
  "trs_res_id_max_query ts para = (0, para\<lparr>rp_para := trs_res_get_max_id ts (rp_res_type para)\<rparr>)"

text \<open>One call of \<^verbatim>\<open>trs_id_get_used_num\<close>.\<close>

definition res_used_num ::
    "trs_res_env \<Rightarrow> ('s, 'h) trs_core_ts_inst \<Rightarrow> ('s, 'h) trs_res_w \<Rightarrow> int \<Rightarrow> (int \<times> u32 \<times> ('s, 'h) trs_res_w) option" where
  "res_used_num env ts w ty = do {
     ((ret, n), ids) \<leftarrow> trs_id_get_used_num (en_modok env) (rw_ids w) (Some (ct_inst ts)) (trs_res_get_id_type ty) True;
     Some (ret, case n of None \<Rightarrow> 0 | Some k \<Rightarrow> k, w\<lparr>rw_ids := ids\<rparr>)
   }"

text \<open>A type that is both \<^verbatim>\<open>TRS_HW_SQ\<close> and \<^verbatim>\<open>TRS_HW_CQ\<close> does not exist: the two tests exclude each other.\<close>

definition trs_res_id_used_query ::
    "trs_res_env \<Rightarrow> ('s, 'h) trs_core_ts_inst \<Rightarrow> ('s, 'h) trs_res_w \<Rightarrow> trs_res_id_para \<Rightarrow>
     (int \<times> ('s, 'h) trs_res_w \<times> trs_res_id_para) option" where
  "trs_res_id_used_query env ts w para = do {
     let ty = rp_res_type para;
     (ret, n, w1) \<leftarrow> res_used_num env ts w ty;
     if ret \<noteq> 0 then Some (ret, w1, para)
     else let para1 = para\<lparr>rp_para := n\<rparr> in
       if \<not> trs_is_stars_inst ts \<and> (ty = TRS_HW_SQ \<or> ty = TRS_HW_CQ)
       then do {
         (ret2, n2, w2) \<leftarrow> res_used_num env ts w1 (if ty = TRS_HW_SQ then TRS_SW_SQ else TRS_SW_CQ);
         if ret2 \<noteq> 0 then Some (ret2, w2, para1) else Some (0, w2, para1\<lparr>rp_para := rp_para para1 + n2\<rparr>)
       }
       else Some (0, w1, para1)
   }"

definition trs_res_id_avail_query ::
    "trs_res_env \<Rightarrow> ('s, 'h) trs_core_ts_inst \<Rightarrow> ('s, 'h) trs_res_w \<Rightarrow> trs_res_id_para \<Rightarrow>
     (int \<times> ('s, 'h) trs_res_w \<times> trs_res_id_para) option" where
  "trs_res_id_avail_query env ts w para = do {
     ((ret, n), ids) \<leftarrow> trs_id_get_avail_num_in_pool (en_modok env) (rw_ids w) (Some (ct_inst ts))
        (trs_res_get_id_type (rp_res_type para));
     Some (0, w\<lparr>rw_ids := ids\<rparr>, case n of None \<Rightarrow> para | Some k \<Rightarrow> para\<lparr>rp_para := k\<rparr>)
   }"

definition trs_res_id_reg_offset_query ::
    "('s, 'h) trs_core_ts_inst \<Rightarrow> ('s, 'h) trs_res_w \<Rightarrow> trs_res_id_para \<Rightarrow> int \<times> trs_res_id_para" where
  "trs_res_id_reg_offset_query ts w para =
     (if \<not> (rp_res_type para = TRS_NOTIFY \<or> rp_res_type para = TRS_EVENT) \<or>
         rp_id para \<ge> trs_res_get_max_id ts (rp_res_type para)
      then (- EINVAL, para)
      else case ao_get_res_reg_offset (ct_ops ts) (rw_hw w) (ct_inst ts) (trs_res_get_id_type (rp_res_type para)) (rp_id para) of
        (ret, v) \<Rightarrow> (ret, para\<lparr>rp_para := v\<rparr>))"

definition trs_res_id_reg_size_query ::
    "('s, 'h) trs_core_ts_inst \<Rightarrow> ('s, 'h) trs_res_w \<Rightarrow> trs_res_id_para \<Rightarrow> int \<times> trs_res_id_para" where
  "trs_res_id_reg_size_query ts w para =
     (if \<not> (rp_res_type para = TRS_NOTIFY \<or> rp_res_type para = TRS_EVENT) then (- EINVAL, para)
      else case ao_get_res_reg_total_size (ct_ops ts) (rw_hw w) (ct_inst ts) (trs_res_get_id_type (rp_res_type para)) of
        (ret, v) \<Rightarrow> (ret, para\<lparr>rp_para := v\<rparr>))"

section \<open>Configuration of streams, events and notifies\<close>

definition trs_get_stream_logic_cq :: "('s, 'h) trs_core_ts_inst \<Rightarrow> u32 \<Rightarrow> int option" where
  "trs_get_stream_logic_cq ts stream_id =
     (if stream_id \<ge> trs_res_get_max_id ts TRS_STREAM then Some (- 1)
      else map_option sc_logic_cq (stream_ctx_at ts stream_id))"

definition trs_stream_bind_logic_cq ::
    "trs_proc_ctx \<Rightarrow> ('s, 'h) trs_core_ts_inst \<Rightarrow> u32 \<Rightarrow> u32 \<Rightarrow> (int \<times> ('s, 'h) trs_core_ts_inst) option" where
  "trs_stream_bind_logic_cq c ts stream_id logic_cq = do {
     b \<leftarrow> trs_proc_has_res c ts TRS_LOGIC_CQ logic_cq;
     if \<not> b then Some (- EINVAL, ts)
     else do {
       x \<leftarrow> stream_ctx_at ts stream_id;
       Some (0, stream_ctx_set stream_id (x\<lparr>sc_logic_cq := sint logic_cq\<rparr>) ts)
     }
   }"

definition trs_stream_unbind_logic_cq ::
    "('s, 'h) trs_core_ts_inst \<Rightarrow> u32 \<Rightarrow> (int \<times> ('s, 'h) trs_core_ts_inst) option" where
  "trs_stream_unbind_logic_cq ts stream_id = do {
     x \<leftarrow> stream_ctx_at ts stream_id;
     Some (0, stream_ctx_set stream_id (x\<lparr>sc_logic_cq := - 1\<rparr>) ts)
   }"

definition trs_stream_cfg ::
    "trs_proc_ctx \<Rightarrow> ('s, 'h) trs_core_ts_inst \<Rightarrow> trs_res_id_para \<Rightarrow> (int \<times> ('s, 'h) trs_core_ts_inst) option" where
  "trs_stream_cfg c ts para = do {
     b \<leftarrow> trs_proc_has_res c ts TRS_STREAM (rp_id para);
     if \<not> b then Some (- EINVAL, ts)
     else if rp_prop para = DRV_STREAM_BIND_LOGIC_CQ then trs_stream_bind_logic_cq c ts (rp_id para) (rp_para para)
     else if rp_prop para = DRV_STREAM_UNBIND_LOGIC_CQ then trs_stream_unbind_logic_cq ts (rp_id para)
     else Some (- EINVAL, ts)
   }"

definition trs_set_res_id_ctrl ::
    "('s, 'h) trs_core_ts_inst \<Rightarrow> ('s, 'h) trs_res_w \<Rightarrow> int \<Rightarrow> u32 \<Rightarrow> u32 \<Rightarrow> int \<times> ('s, 'h) trs_res_w" where
  "trs_set_res_id_ctrl ts w ty i cmd =
     (if i \<ge> trs_res_get_id_num ts ty then (- EINVAL, w)
      else case ao_res_id_ctrl (ct_ops ts) of
        None \<Rightarrow> (- EINVAL, w)
      | Some f \<Rightarrow> (case f (rw_hw w) (ct_inst ts) (word_of_int ty) i cmd of (ret, h) \<Rightarrow> (ret, w\<lparr>rw_hw := h\<rparr>)))"

definition trs_notify_cfg ::
    "('s, 'h) trs_core_ts_inst \<Rightarrow> ('s, 'h) trs_res_w \<Rightarrow> trs_res_id_para \<Rightarrow> int \<times> ('s, 'h) trs_res_w" where
  "trs_notify_cfg ts w para =
     (if rp_prop para = DRV_ID_RECORD then trs_set_res_id_ctrl ts w TRS_NOTIFY (rp_id para) TRS_RES_OP_RECORD
      else (- EINVAL, w))"

definition trs_event_cfg ::
    "('s, 'h) trs_core_ts_inst \<Rightarrow> ('s, 'h) trs_res_w \<Rightarrow> trs_res_id_para \<Rightarrow> int \<times> ('s, 'h) trs_res_w" where
  "trs_event_cfg ts w para =
     (if rp_prop para = DRV_ID_RECORD then trs_set_res_id_ctrl ts w TRS_EVENT (rp_id para) TRS_RES_OP_RECORD
      else (- EINVAL, w))"

definition trs_res_id_cfg ::
    "trs_proc_ctx \<Rightarrow> ('s, 'h) trs_core_ts_inst \<Rightarrow> ('s, 'h) trs_res_w \<Rightarrow> trs_res_id_para \<Rightarrow>
     (int \<times> ('s, 'h) trs_core_ts_inst \<times> ('s, 'h) trs_res_w) option" where
  "trs_res_id_cfg c ts w para =
     (if rp_res_type para = TRS_STREAM then map_option (\<lambda>(ret, ts'). (ret, ts', w)) (trs_stream_cfg c ts para)
      else if rp_res_type para = TRS_EVENT then (case trs_event_cfg ts w para of (ret, w') \<Rightarrow> Some (ret, ts, w'))
      else if rp_res_type para = TRS_NOTIFY then (case trs_notify_cfg ts w para of (ret, w') \<Rightarrow> Some (ret, ts, w'))
      else Some (- EINVAL, ts, w))"

text \<open>\<open>host_pid_of\<close> is the answer of the device manager for the host process of a local one.\<close>

definition trs_stream_id_ctrl ::
    "(int \<Rightarrow> int option) \<Rightarrow> trs_proc_ctx \<Rightarrow> ('s, 'h) trs_core_ts_inst \<Rightarrow> ('s, 'h) trs_res_w \<Rightarrow> u32 \<Rightarrow> u32 \<Rightarrow>
     (int \<times> ('s, 'h) trs_res_w) option" where
  "trs_stream_id_ctrl host_pid_of c ts w stream_id cmd =
     (case ao_res_id_ctrl (ct_ops ts) of
        None \<Rightarrow> Some (- EINVAL, w)
      | Some f \<Rightarrow>
          if stream_id \<ge> trs_res_get_id_num ts TRS_STREAM then Some (- EINVAL, w)
          else do {
            x \<leftarrow> stream_ctx_at ts stream_id;
            if sc_sq x < 0 \<or> word_of_int (sc_sq x) \<ge> trs_res_get_max_id ts TRS_HW_SQ then Some (- EINVAL, w)
            else do {
              b \<leftarrow> trs_proc_has_res c ts TRS_STREAM stream_id;
              if \<not> b \<and> \<not> trs_is_host_pid_match host_pid_of (pc_pid c) (sc_host_pid x) then Some (- EINVAL, w)
              else (case f (rw_hw w) (ct_inst ts) (word_of_int TRS_HW_SQ) (word_of_int (sc_sq x)) cmd of
                      (ret, h) \<Rightarrow> Some (ret, w\<lparr>rw_hw := h\<rparr>))
            }
          })"

definition trs_res_id_enable ::
    "(int \<Rightarrow> int option) \<Rightarrow> trs_proc_ctx \<Rightarrow> ('s, 'h) trs_core_ts_inst \<Rightarrow> ('s, 'h) trs_res_w \<Rightarrow> trs_res_id_para \<Rightarrow>
     (int \<times> ('s, 'h) trs_res_w) option" where
  "trs_res_id_enable host_pid_of c ts w para =
     (if rp_res_type para = TRS_STREAM then trs_stream_id_ctrl host_pid_of c ts w (rp_id para) TRS_RES_OP_ENABLE
      else Some (- EINVAL, w))"

definition trs_res_id_disable ::
    "(int \<Rightarrow> int option) \<Rightarrow> trs_proc_ctx \<Rightarrow> ('s, 'h) trs_core_ts_inst \<Rightarrow> ('s, 'h) trs_res_w \<Rightarrow> trs_res_id_para \<Rightarrow>
     (int \<times> ('s, 'h) trs_res_w) option" where
  "trs_res_id_disable host_pid_of c ts w para =
     (if rp_res_type para = TRS_STREAM then trs_stream_id_ctrl host_pid_of c ts w (rp_id para) TRS_RES_OP_DISABLE
      else Some (- EINVAL, w))"

definition trs_stream_set_bind_sqcq ::
    "('s, 'h) trs_core_ts_inst \<Rightarrow> u32 \<Rightarrow> u32 \<Rightarrow> u32 \<Rightarrow> int \<Rightarrow> ('s, 'h) trs_core_ts_inst option" where
  "trs_stream_set_bind_sqcq ts stream_id sqid cqid host_pid = do {
     x \<leftarrow> stream_ctx_at ts stream_id;
     Some (stream_ctx_set stream_id (x\<lparr>sc_sq := sint sqid, sc_cq := sint cqid, sc_host_pid := host_pid\<rparr>) ts)
   }"

definition trs_stream_bind_remote_sqcq ::
    "('s, 'h) trs_core_ts_inst option \<Rightarrow> trs_id_inst option \<Rightarrow> u32 \<Rightarrow> u32 \<Rightarrow> u32 \<Rightarrow> int \<Rightarrow>
     (int \<times> ('s, 'h) trs_core_ts_inst option) option" where
  "trs_stream_bind_remote_sqcq ts inst stream_id sqid cqid host_pid =
     (case inst of
        None \<Rightarrow> Some (- EINVAL, ts)
      | Some _ \<Rightarrow>
          (case ts of
             None \<Rightarrow> Some (- EINVAL, ts)
           | Some t \<Rightarrow>
               if stream_id \<ge> trs_res_get_max_id t TRS_STREAM then Some (- EINVAL, ts)
               else map_option (\<lambda>t'. (0, Some t')) (trs_stream_set_bind_sqcq t stream_id sqid cqid host_pid)))"

section \<open>Start and stop of an instance\<close>

text \<open>Memory that \<^verbatim>\<open>vzalloc\<close> returns is zero; \<open>mem\<close> is its outcome.\<close>

definition trs_res_stream_init ::
    "bool \<Rightarrow> ('s, 'h) trs_core_ts_inst \<Rightarrow> int \<times> ('s, 'h) trs_core_ts_inst" where
  "trs_res_stream_init mem ts =
     (let stream_num = trs_res_get_max_id ts TRS_STREAM in
      if stream_num = 0 then (0, ts)
      else if \<not> mem then (- ENOMEM, ts)
      else (0, ts\<lparr>ct_stream_ctx := Some (replicate (unat stream_num)
              (trs_stream_ctx_init \<lparr>sc_host_pid = 0, sc_sq = 0, sc_cq = 0, sc_logic_cq = 0\<rparr>))\<rparr>))"

definition trs_res_stream_uninit :: "('s, 'h) trs_core_ts_inst \<Rightarrow> ('s, 'h) trs_core_ts_inst" where
  "trs_res_stream_uninit ts = ts\<lparr>ct_stream_ctx := None\<rparr>"

text \<open>\<open>modok\<close> gives, for every type, the outcome of \<^verbatim>\<open>try_module_get\<close> in each of the two calls of the allocator.\<close>

definition trs_res_id_init ::
    "(int \<Rightarrow> bool \<times> bool) \<Rightarrow> (int \<Rightarrow> bool) \<Rightarrow> ('s, 'h) trs_core_ts_inst \<Rightarrow> 's trs_ids \<Rightarrow> int \<Rightarrow>
     (int \<times> ('s, 'h) trs_core_ts_inst \<times> 's trs_ids) option" where
  "trs_res_id_init modok mem ts ids ty = do {
     let id_type = trs_res_get_id_type (trs_res_replace_res_type ts ty);
     let m = ct_res_mng ts ty;
     ((ret, n), ids1) \<leftarrow> trs_id_get_total_num (fst (modok ty)) ids (Some (ct_inst ts)) id_type True;
     let m1 = m\<lparr>rm_id_num := (if ret \<noteq> 0 then 0 else the n)\<rparr>;
     if rm_id_num m1 > 0
     then do {
       ((ret2, k), ids2) \<leftarrow> trs_id_get_max_id (snd (modok ty)) ids1 (Some (ct_inst ts)) id_type True;
       if ret2 \<noteq> 0 then Some (ret2, res_mng_set ty m1 ts, ids2)
       else let m2 = m1\<lparr>rm_max_id := the k\<rparr> in
         if \<not> mem ty then Some (- ENOMEM, res_mng_set ty (m2\<lparr>rm_ids := None\<rparr>) ts, ids2)
         else Some (0, res_mng_set ty (m2\<lparr>rm_ids := Some (replicate (unat (the k))
                \<lparr>ri_status = 0, ri_task_id = 0, ri_pid = 0, ri_ref = 0\<rparr>), rm_res_type := ty\<rparr>) ts, ids2)
     }
     else Some (0, res_mng_set ty (m1\<lparr>rm_res_type := ty\<rparr>) ts, ids1)
   }"

definition trs_res_mng_uninit :: "('s, 'h) trs_core_ts_inst \<Rightarrow> ('s, 'h) trs_core_ts_inst" where
  "trs_res_mng_uninit ts =
     (let ts1 = trs_res_stream_uninit ts in
      ts1\<lparr>ct_res_mng := (\<lambda>ty. if 0 \<le> ty \<and> ty < TRS_CORE_MAX_ID_TYPE then (ct_res_mng ts1 ty)\<lparr>rm_ids := None\<rparr> else ct_res_mng ts1 ty)\<rparr>)"

fun res_mng_init_types ::
    "(int \<Rightarrow> bool \<times> bool) \<Rightarrow> (int \<Rightarrow> bool) \<Rightarrow> int list \<Rightarrow> ('s, 'h) trs_core_ts_inst \<Rightarrow> 's trs_ids \<Rightarrow>
     (int \<times> ('s, 'h) trs_core_ts_inst \<times> 's trs_ids) option" where
  "res_mng_init_types modok mem [] ts ids = Some (0, ts, ids)"
| "res_mng_init_types modok mem (ty # tys) ts ids = do {
     (ret, ts', ids') \<leftarrow> trs_res_id_init modok mem ts ids ty;
     if ret \<noteq> 0 then Some (ret, trs_res_mng_uninit ts', ids') else res_mng_init_types modok mem tys ts' ids'
   }"

definition trs_res_mng_init ::
    "(int \<Rightarrow> bool \<times> bool) \<Rightarrow> (int \<Rightarrow> bool) \<Rightarrow> bool \<Rightarrow> ('s, 'h) trs_core_ts_inst \<Rightarrow> 's trs_ids \<Rightarrow>
     (int \<times> ('s, 'h) trs_core_ts_inst \<times> 's trs_ids) option" where
  "trs_res_mng_init modok mem stream_mem ts ids = do {
     (ret, ts1, ids1) \<leftarrow> res_mng_init_types modok mem [0 .. 11] ts ids;
     if ret \<noteq> 0 then Some (ret, ts1, ids1)
     else (case trs_res_stream_init stream_mem ts1 of
             (ret2, ts2) \<Rightarrow> if ret2 \<noteq> 0 then Some (ret2, trs_res_mng_uninit ts2, ids1) else Some (0, ts2, ids1))
   }"

section \<open>The ioctl\<close>

datatype trs_res_cmd =
    RES_ID_ALLOC | RES_ID_FREE | RES_ID_ENABLE | RES_ID_DISABLE | RES_ID_NUM_QUERY | RES_ID_MAX_QUERY
  | RES_ID_USED_NUM_QUERY | RES_ID_AVAIL_NUM_QUERY | RES_ID_REG_OFFSET_QUERY | RES_ID_REG_SIZE_QUERY | RES_ID_CFG

definition trs_is_id_query_cmd :: "trs_res_cmd \<Rightarrow> bool" where
  "trs_is_id_query_cmd cmd \<longleftrightarrow>
     cmd \<in> {RES_ID_NUM_QUERY, RES_ID_MAX_QUERY, RES_ID_USED_NUM_QUERY, RES_ID_REG_OFFSET_QUERY,
            RES_ID_REG_SIZE_QUERY, RES_ID_AVAIL_NUM_QUERY}"

text \<open>\<^verbatim>\<open>trs_res_id_handles[_IOC_NR(cmd)]\<close>, with the parameters as each handler leaves them.\<close>

definition trs_res_id_handles ::
    "trs_res_cmd \<Rightarrow> trs_res_env \<Rightarrow> (int \<Rightarrow> int option) \<Rightarrow> trs_proc_ctx \<Rightarrow> ('s, 'h) trs_core_ts_inst \<Rightarrow> ('s, 'h) trs_res_w \<Rightarrow>
     trs_res_id_para \<Rightarrow>
     (int \<times> trs_proc_ctx \<times> ('s, 'h) trs_core_ts_inst \<times> ('s, 'h) trs_res_w \<times> trs_res_id_para) option" where
  "trs_res_id_handles cmd env host_pid_of c ts w para =
     (case cmd of
        RES_ID_ALLOC \<Rightarrow> trs_res_id_alloc env c ts w para
      | RES_ID_FREE \<Rightarrow> map_option (\<lambda>(ret, c', ts', w'). (ret, c', ts', w', para)) (trs_res_id_free env c ts w para)
      | RES_ID_ENABLE \<Rightarrow> map_option (\<lambda>(ret, w'). (ret, c, ts, w', para)) (trs_res_id_enable host_pid_of c ts w para)
      | RES_ID_DISABLE \<Rightarrow> map_option (\<lambda>(ret, w'). (ret, c, ts, w', para)) (trs_res_id_disable host_pid_of c ts w para)
      | RES_ID_NUM_QUERY \<Rightarrow> (case trs_res_id_num_query ts para of (ret, para') \<Rightarrow> Some (ret, c, ts, w, para'))
      | RES_ID_MAX_QUERY \<Rightarrow> (case trs_res_id_max_query ts para of (ret, para') \<Rightarrow> Some (ret, c, ts, w, para'))
      | RES_ID_USED_NUM_QUERY \<Rightarrow> map_option (\<lambda>(ret, w', para'). (ret, c, ts, w', para')) (trs_res_id_used_query env ts w para)
      | RES_ID_AVAIL_NUM_QUERY \<Rightarrow> map_option (\<lambda>(ret, w', para'). (ret, c, ts, w', para')) (trs_res_id_avail_query env ts w para)
      | RES_ID_REG_OFFSET_QUERY \<Rightarrow> (case trs_res_id_reg_offset_query ts w para of (ret, para') \<Rightarrow> Some (ret, c, ts, w, para'))
      | RES_ID_REG_SIZE_QUERY \<Rightarrow> (case trs_res_id_reg_size_query ts w para of (ret, para') \<Rightarrow> Some (ret, c, ts, w, para'))
      | RES_ID_CFG \<Rightarrow> map_option (\<lambda>(ret, ts', w'). (ret, c, ts', w', para)) (trs_res_id_cfg c ts w para))"

text \<open>
  \<^verbatim>\<open>ioctl_trs_res_id_comm\<close>: \<open>copied\<close> is the result of \<^verbatim>\<open>copy_from_user\<close>, \<open>put k\<close> that of the k-th \<^verbatim>\<open>put_user\<close>,
  \<open>ts\<close> the instance of the process's device and \<^verbatim>\<open>para.tsid\<close>. The last component is what the caller reads
  back: the parameters when every copy out succeeded.
\<close>

definition ioctl_trs_res_id_comm ::
    "int \<Rightarrow> (nat \<Rightarrow> int) \<Rightarrow> trs_res_cmd \<Rightarrow> trs_res_env \<Rightarrow> (int \<Rightarrow> int option) \<Rightarrow> trs_proc_ctx \<Rightarrow>
     ('s, 'h) trs_core_ts_inst option \<Rightarrow> ('s, 'h) trs_res_w \<Rightarrow> trs_res_id_para \<Rightarrow>
     (int \<times> trs_proc_ctx \<times> ('s, 'h) trs_core_ts_inst option \<times> ('s, 'h) trs_res_w \<times> trs_res_id_para option) option" where
  "ioctl_trs_res_id_comm copied put cmd env host_pid_of c ts w para =
     (if copied \<noteq> 0 then Some (copied, c, ts, w, None)
      else if rp_res_type para < 0 \<or> trs_is_id_query_cmd cmd \<and> rp_res_type para \<ge> TRS_CORE_MAX_ID_TYPE \<or>
              \<not> trs_is_id_query_cmd cmd \<and> rp_res_type para \<ge> TRS_HW_SQ
      then Some (- EINVAL, c, ts, w, None)
      else case ts of
        None \<Rightarrow> Some (- EINVAL, c, ts, w, None)
      | Some t \<Rightarrow> do {
          (ret, c', t', w', para') \<leftarrow> trs_res_id_handles cmd env host_pid_of c t w para;
          let n = (if ret = 0 then if cmd = RES_ID_ALLOC then 3 else if trs_is_id_query_cmd cmd then 1 else 0 else 0 :: nat);
          let ret' = (if ret \<noteq> 0 then ret else case List.find (\<lambda>r. r \<noteq> 0) (map put [0 ..< n]) of None \<Rightarrow> 0 | Some r \<Rightarrow> r);
          Some (ret', c', Some t', w', if 0 < n \<and> ret' = 0 then Some para' else None)
        })"


section \<open>Resource ids over an id source\<close>

text \<open>
  \<open>res_state\<close>: the table of one resource type together with the allocator it takes its ids from. \<open>holds st out\<close>
  says that this layer holds exactly the ids \<open>out\<close> of the allocator. No adapter of the repository sets
  \<^verbatim>\<open>ops.id_alloc\<close> or \<^verbatim>\<open>ops.id_free\<close>.
\<close>

definition res_state ::
    "('s trs_ids \<Rightarrow> u32 set \<Rightarrow> bool) \<Rightarrow> trs_id_inst \<Rightarrow> u32 \<Rightarrow> int \<Rightarrow> ('s, 'h) trs_core_ts_inst \<Rightarrow>
     (nat \<rightharpoonup> trs_proc_ctx) \<Rightarrow> ('s, 'h) trs_res_w \<Rightarrow> u32 set \<Rightarrow> (nat \<Rightarrow> nat) \<Rightarrow> bool" where
  "res_state holds inst lim ty ts procs w out g \<longleftrightarrow>
     res_inv ty ts procs out g \<and> holds (rw_ids w) out \<and> ct_inst ts = inst \<and> rm_max_id (ct_res_mng ts ty) = lim \<and>
     ao_id_alloc (ct_ops ts) ty = None \<and> ao_id_free (ct_ops ts) ty = None \<and>
     (ty = TRS_STREAM \<longrightarrow> (\<exists>ss. ct_stream_ctx ts = Some ss \<and> length ss = unat lim))"

text \<open>The process a message names.\<close>

fun res_msg_pid :: "trs_mbox_msg \<Rightarrow> int" where
  "res_msg_pid (ResMapMsg _ _ _ pid) = uint pid"
| "res_msg_pid (NotifyMsg _ pid _) = uint pid"
| "res_msg_pid (RecycleMsg _ pid) = pid"
| "res_msg_pid (LogicCqAllocMsg _ _ _ vpid _ _ _ _ _) = uint vpid"
| "res_msg_pid (LogicCqFreeMsg vpid _ _) = uint vpid"

text \<open>The messages sent between two states name no process.\<close>

definition anonymous :: "('s, 'h) trs_res_w \<Rightarrow> ('s, 'h) trs_res_w \<Rightarrow> bool" where
  "anonymous w w' \<longleftrightarrow> (\<exists>ms. rw_sent w' = rw_sent w @ ms \<and> (\<forall>m \<in> set ms. res_msg_pid m = 0))"

lemma anonymous_refl [simp]: "rw_sent w' = rw_sent w \<Longrightarrow> anonymous w w'"
  by (simp add: anonymous_def)

lemma anonymous_trans: "anonymous w1 w2 \<Longrightarrow> anonymous w2 w3 \<Longrightarrow> anonymous w1 w3"
  by (auto simp: anonymous_def)

lemma notice_anonymous:
  assumes "res_entry ts ty i = Some x" "ri_pid x = 0"
  obtains ret w' where "trs_res_notice_ts ts w op ty i = Some (ret, w')" "rw_ids w' = rw_ids w" "anonymous w w'"
proof -
  let ?msg = "if ty = TRS_EVENT then ResMapMsg 1 (word_of_int op) (ucast i) 0 else NotifyMsg (ucast i) 0 0"
  have "trs_res_notice_ts ts w op ty i = Some (if ty = TRS_EVENT \<or> ty = TRS_NOTIFY then res_send ts w ?msg else (0, w))"
    using assms by (auto simp: trs_res_notice_ts_def trs_event_notice_ts_def trs_notify_notice_ts_def res_entry_def)
  moreover have "anonymous w (snd (res_send ts w ?msg))" "rw_ids (snd (res_send ts w ?msg)) = rw_ids w"
    by (auto simp: res_send_def anonymous_def split: prod.splits)
  ultimately show thesis
    by (intro that [of "fst (if ty = TRS_EVENT \<or> ty = TRS_NOTIFY then res_send ts w ?msg else (0, w))"
            "snd (if ty = TRS_EVENT \<or> ty = TRS_NOTIFY then res_send ts w ?msg else (0, w))"]) simp_all
qed

lemma ctrl_quiet:
  "rw_ids (snd (trs_res_id_ctrl ts w ty i cmd)) = rw_ids w" "rw_sent (snd (trs_res_id_ctrl ts w ty i cmd)) = rw_sent w"
  by (simp_all add: trs_res_id_ctrl_def split: option.splits prod.splits)

lemma stream_set [simp]:
  "ct_res_mng (stream_ctx_set i x ts) = ct_res_mng ts" "ct_inst (stream_ctx_set i x ts) = ct_inst ts"
  "ct_ops (stream_ctx_set i x ts) = ct_ops ts" "res_entry (stream_ctx_set i x ts) ty j = res_entry ts ty j"
  by (simp_all add: stream_ctx_set_def res_entry_def)

lemma res_state_procs: "res_state holds inst lim ty ts procs w out g \<Longrightarrow> res_inv ty ts procs out g"
  by (simp add: res_state_def)

lemma res_state_quiet:
  "res_state holds inst lim ty ts procs w out g \<Longrightarrow> rw_ids w' = rw_ids w \<Longrightarrow> res_state holds inst lim ty ts procs w' out g"
  by (simp add: res_state_def)

lemma res_state_frame:
  assumes "res_state holds inst lim ty ts procs w out g" "res_frame ty ts ts'" "res_inv ty ts' procs' out g'"
  shows "res_state holds inst lim ty ts' procs' w out g'"
  using assms by (auto simp: res_state_def res_frame_def)

lemma init_para_state:
  assumes st: "res_state holds inst lim ty ts procs w out g" and i: "i < lim"
  obtains ts' where "trs_res_id_init_para ts ty i = Some ts'" "res_state holds inst lim ty ts' procs w out g"
    "ct_res_mng ts' = ct_res_mng ts" "ct_inst ts' = ct_inst ts" "ct_ops ts' = ct_ops ts"
proof (cases "ty = TRS_STREAM")
  case True
  then obtain ss where ss: "ct_stream_ctx ts = Some ss" "length ss = unat lim" using st by (auto simp: res_state_def)
  let ?ts = "stream_ctx_set i (trs_stream_ctx_init (ss ! unat i)) ts"
  have p: "trs_res_id_init_para ts ty i = Some ?ts"
    using True ss i by (simp add: trs_res_id_init_para_def stream_ctx_at_def word_less_nat_alt)
  have "res_inv ty ?ts procs out g = res_inv ty ts procs out g" by (rule res_inv_cong) simp_all
  then have "res_state holds inst lim ty ?ts procs w out g" using st ss by (simp add: res_state_def stream_ctx_set_def)
  with p show thesis by (rule that) simp_all
next
  case False
  then show thesis using that [of ts] st by (simp add: trs_res_id_init_para_def)
qed

section \<open>Runs\<close>

text \<open>
  The life of one resource type of an instance, as the callers of all processes interleave: \<open>procs\<close> are the
  contexts of the processes that have the device open, \<open>g\<close> counts for every id the users that
  \<^verbatim>\<open>trs_res_id_get\<close> has admitted and that have not called \<^verbatim>\<open>trs_res_id_put\<close>. A step of \<open>rr_other\<close> is anything
  that leaves the table, the processes' counts and the ids of this type alone: operations on other types,
  streams and processes. A new process has a task id that no entry of the table names.
\<close>

inductive res_reach ::
    "('s trs_ids \<Rightarrow> u32 set \<Rightarrow> bool) \<Rightarrow> trs_id_inst \<Rightarrow> u32 \<Rightarrow> int \<Rightarrow> ('s, 'h) trs_core_ts_inst \<Rightarrow>
     (nat \<rightharpoonup> trs_proc_ctx) \<Rightarrow> ('s, 'h) trs_res_w \<Rightarrow> (nat \<Rightarrow> nat) \<Rightarrow> bool"
  for holds inst lim ty where
  rr_start: "res_state holds inst lim ty ts Map.empty w {} (\<lambda>_. 0) \<Longrightarrow> res_reach holds inst lim ty ts Map.empty w (\<lambda>_. 0)"
| rr_open: "res_reach holds inst lim ty ts procs w g \<Longrightarrow> trs_proc_ctx_create True tgid ts = (Some c, ts') \<Longrightarrow> tgid \<noteq> 0 \<Longrightarrow>
    procs a = None \<Longrightarrow> (\<forall>i x. res_entry ts ty i = Some x \<longrightarrow> ri_task_id x \<noteq> pc_task_id c \<or> ri_pid x \<noteq> tgid) \<Longrightarrow>
    (\<forall>b d. procs b = Some d \<longrightarrow> pc_task_id d \<noteq> pc_task_id c) \<Longrightarrow> res_reach holds inst lim ty ts' (procs(a \<mapsto> c)) w g"
| rr_close: "res_reach holds inst lim ty ts procs w g \<Longrightarrow> res_reach holds inst lim ty ts (procs(a := None)) w g"
| rr_alloc: "res_reach holds inst lim ty ts procs w g \<Longrightarrow> procs a = Some c \<Longrightarrow> rp_res_type para = ty \<Longrightarrow>
    trs_res_id_alloc env c ts w para = Some (ret, c', ts', w', para') \<Longrightarrow> res_reach holds inst lim ty ts' (procs(a \<mapsto> c')) w' g"
| rr_free: "res_reach holds inst lim ty ts procs w g \<Longrightarrow> procs a = Some c \<Longrightarrow>
    trs_res_id_free0 env c ts w ty i = Some (ret, c', ts', w') \<Longrightarrow> res_reach holds inst lim ty ts' (procs(a \<mapsto> c')) w' g"
| rr_get: "res_reach holds inst lim ty ts procs w g \<Longrightarrow> tgid \<noteq> 0 \<Longrightarrow> int (g (unat i)) < INT_MAX - 1 \<Longrightarrow> ty < TRS_HW_SQ \<Longrightarrow>
    trs_res_id_get procs0 (Some ts) (Some inst) tgid ty i = Some (ret, Some ts') \<Longrightarrow>
    res_reach holds inst lim ty ts' procs w (if ret = 0 then g(unat i := g (unat i) + 1) else g)"
| rr_put: "res_reach holds inst lim ty ts procs w g \<Longrightarrow> 0 < g (unat i) \<Longrightarrow> ty < TRS_HW_SQ \<Longrightarrow> trs_id_inst_check (Some inst) = 0 \<Longrightarrow>
    trs_res_id_put env (Some ts) w (Some inst) ty i = Some (ret, Some ts', w') \<Longrightarrow>
    res_reach holds inst lim ty ts' procs w' (g(unat i := g (unat i) - 1))"
| rr_recycle: "res_reach holds inst lim ty ts procs w g \<Longrightarrow> procs a = Some c \<Longrightarrow>
    trs_for_each_proc_res_id (trs_res_id_recycle env) ty c ts w = Some (c', ts', w') \<Longrightarrow>
    res_reach holds inst lim ty ts' (procs(a \<mapsto> c')) w' g"
| rr_other: "res_reach holds inst lim ty ts procs w g \<Longrightarrow> ct_res_mng ts' ty = ct_res_mng ts ty \<Longrightarrow> ct_inst ts' = ct_inst ts \<Longrightarrow>
    ct_ops ts' = ct_ops ts \<Longrightarrow> map_option length (ct_stream_ctx ts') = map_option length (ct_stream_ctx ts) \<Longrightarrow>
    (\<forall>out. holds (rw_ids w) out \<longrightarrow> holds (rw_ids w') out) \<Longrightarrow> dom procs' = dom procs \<Longrightarrow>
    (\<forall>a c c'. procs a = Some c \<longrightarrow> procs' a = Some c' \<longrightarrow> pc_pid c' = pc_pid c \<and> pc_task_id c' = pc_task_id c \<and>
       trs_get_proc_res_num c' (ti_tsid inst) ty = trs_get_proc_res_num c (ti_tsid inst) ty) \<Longrightarrow>
    res_reach holds inst lim ty ts' procs' w' g"

lemma other_state:
  assumes st: "res_state holds inst lim ty ts procs w out g"
    and ts: "ct_res_mng ts' ty = ct_res_mng ts ty" "ct_inst ts' = ct_inst ts" "ct_ops ts' = ct_ops ts"
      "map_option length (ct_stream_ctx ts') = map_option length (ct_stream_ctx ts)"
    and ids: "\<forall>out. holds (rw_ids w) out \<longrightarrow> holds (rw_ids w') out" and dom: "dom procs' = dom procs"
    and same: "\<forall>a c c'. procs a = Some c \<longrightarrow> procs' a = Some c' \<longrightarrow> pc_pid c' = pc_pid c \<and> pc_task_id c' = pc_task_id c \<and>
       trs_get_proc_res_num c' (ti_tsid inst) ty = trs_get_proc_res_num c (ti_tsid inst) ty"
  shows "res_state holds inst lim ty ts' procs' w' out g"
proof -
  have old: "\<exists>c. procs a = Some c \<and> pc_pid c' = pc_pid c \<and> pc_task_id c' = pc_task_id c \<and> proc_match c' = proc_match c \<and>
      trs_get_proc_res_num c' (ti_tsid inst) ty = trs_get_proc_res_num c (ti_tsid inst) ty" if "procs' a = Some c'" for a c'
  proof -
    have "a \<in> dom procs" using that by (simp add: dom [symmetric] domI)
    then obtain c where c: "procs a = Some c" using domD by fast
    note s = same [rule_format, OF c that]
    then have "proc_match c' = proc_match c" by (simp add: fun_eq_iff proc_match_def)
    then show ?thesis using s c by blast
  qed
  have inv: "res_inv ty ts procs out g" by (rule res_state_procs [OF st])
  then obtain xs where I: "0 \<le> ty" "ty < TRS_CORE_MAX_ID_TYPE" "res_table (ct_res_mng ts ty) xs g"
    "procs_ok (ti_tsid (ct_inst ts)) ty xs procs" "\<And>k. k < length xs \<Longrightarrow> res_live (xs ! k) \<Longrightarrow> of_nat k \<in> out"
    by (rule res_invE) blast
  have ins: "ct_inst ts = inst" using st by (simp add: res_state_def)
  have "procs_ok (ti_tsid inst) ty xs procs'" unfolding procs_ok_def
  proof (intro conjI allI impI)
    fix a c' assume "procs' a = Some c'"
    then show "pc_pid c' \<noteq> 0" "trs_get_proc_res_num c' (ti_tsid inst) ty = int (length (filter (proc_match c') xs))"
      using old [of a c'] I(4) ins by (auto simp: procs_ok_def)
  next
    fix a b c' d' assume h: "procs' a = Some c'" "procs' b = Some d'" "pc_pid c' = pc_pid d'" "pc_task_id c' = pc_task_id d'"
    obtain c where c: "procs a = Some c" "pc_pid c' = pc_pid c" "pc_task_id c' = pc_task_id c" using old [OF h(1)] by blast
    obtain d where d: "procs b = Some d" "pc_pid d' = pc_pid d" "pc_task_id d' = pc_task_id d" using old [OF h(2)] by blast
    have "pc_pid c = pc_pid d" "pc_task_id c = pc_task_id d" using h(3,4) c(2,3) d(2,3) by simp_all
    then show "a = b" using I(4) c(1) d(1) unfolding procs_ok_def by blast
  qed
  then have "res_inv ty ts' procs' out g" using I ts(1,2) ins unfolding res_inv_def by auto
  then show ?thesis using st ts ids by (auto simp: res_state_def)
qed

text \<open>
  The contract of the allocator for one instance and type: an allocation gives an id below \<open>lim\<close> that is
  not held, or an error; a release takes an id back, or reports an error and does not.
\<close>

locale id_source =
  fixes holds :: "'s trs_ids \<Rightarrow> u32 set \<Rightarrow> bool" and inst :: trs_id_inst and ty :: int and lim :: u32
  assumes alloc_law: "holds st out \<Longrightarrow>
      \<exists>ret r st'. trs_id_alloc modok kmem st (Some inst) (trs_res_get_id_type ty) True = Some ((ret, r), st') \<and>
        holds st' (out \<union> set_option r) \<and> (case r of None \<Rightarrow> ret \<noteq> 0 | Some i \<Rightarrow> ret = 0 \<and> i \<notin> out \<and> i < lim)"
    and free_law: "holds st out \<Longrightarrow> i \<in> out \<Longrightarrow> i < lim \<Longrightarrow>
      \<exists>ret st'. trs_id_free modok fmem st (Some inst) (trs_res_get_id_type ty) i = Some (ret, st') \<and>
        holds st' (if ret = 0 then out - {i} else out)"
begin

lemma id_free_state:
  assumes st: "res_state holds inst lim ty ts procs w out g" and dead: "res_inv ty ts procs (out - {i}) g" and i: "i \<in> out" "i < lim"
  obtains w' out' where "trs_res_mng_id_free env ts w ty i = Some w'" "res_state holds inst lim ty ts procs w' out' g"
    "rw_sent w' = rw_sent w" "out - {i} \<subseteq> out'" "out' \<subseteq> out"
proof -
  have S: "holds (rw_ids w) out" "ct_inst ts = inst" "ao_id_free (ct_ops ts) ty = None" using st by (auto simp: res_state_def)
  obtain ret ids where f: "trs_id_free (en_fmodok env) (en_fmem env) (rw_ids w) (Some inst) (trs_res_get_id_type ty) i = Some (ret, ids)"
    "holds ids (if ret = 0 then out - {i} else out)"
    using free_law [OF S(1) i] by blast
  let ?out = "if ret = 0 then out - {i} else out"
  have "trs_res_mng_id_free env ts w ty i = Some (w\<lparr>rw_ids := ids\<rparr>)" using f(1) S by (simp add: trs_res_mng_id_free_def)
  moreover have "res_inv ty ts procs ?out g" using dead st by (simp add: res_state_def)
  then have "res_state holds inst lim ty ts procs (w\<lparr>rw_ids := ids\<rparr>) ?out g" using st f(2) by (simp add: res_state_def)
  ultimately show thesis by (rule that) auto
qed

text \<open>Returning an id whose entry has no reference left, as the three callers do it.\<close>

lemma release_state:
  assumes st: "res_state holds inst lim ty ts procs w out g" and dead: "res_inv ty ts procs (out - {i}) g" and i: "i \<in> out"
    and x: "res_entry ts ty i = Some x" "ri_pid x = 0"
  obtains r w1 w' out' where "trs_res_notice_ts ts w 1 ty i = Some (r, w1)" "trs_res_mng_id_free env ts w1 ty i = Some w'"
    "res_state holds inst lim ty ts procs w' out' g" "anonymous w w'" "out - {i} \<subseteq> out'" "out' \<subseteq> out"
proof -
  obtain r w1 where n: "trs_res_notice_ts ts w 1 ty i = Some (r, w1)" "rw_ids w1 = rw_ids w" "anonymous w w1"
    by (rule notice_anonymous [OF x])
  have st1: "res_state holds inst lim ty ts procs w1 out g" by (rule res_state_quiet [OF st n(2)])
  have "i < lim" using x(1) st by (auto simp: res_state_def res_inv_def res_table_def res_entry_def res_ids_at_def word_less_nat_alt
      split: if_splits)
  then obtain w' out' where f: "trs_res_mng_id_free env ts w1 ty i = Some w'" "res_state holds inst lim ty ts procs w' out' g"
    "rw_sent w' = rw_sent w1" "out - {i} \<subseteq> out'" "out' \<subseteq> out"
    using id_free_state [OF st1 dead i, of env] by blast
  then show thesis using that [OF n(1) f(1,2) anonymous_trans [OF n(3)]] by simp
qed

lemma put_state:
  assumes st: "res_state holds inst lim ty ts procs w out g" and user: "0 < g (unat i)" and ty: "ty < TRS_HW_SQ"
    and chk: "trs_id_inst_check (Some inst) = 0"
  obtains ts' w' out' where "trs_res_id_put env (Some ts) w (Some inst) ty i = Some (0, Some ts', w')"
    "res_state holds inst lim ty ts' procs w' out' (g(unat i := g (unat i) - 1))" "out' \<subseteq> out" "anonymous w w'"
    "out - {i} \<subseteq> out'"
proof -
  have inv: "res_inv ty ts procs out g" by (rule res_state_procs [OF st])
  from inv user obtain x ret ts' where p: "res_entry ts ty i = Some x" "trs_res_put ts ty i = Some (ret, ts')" "0 \<le> ret"
    "res_inv ty ts' procs (if ret = 0 then out - {i} else out) (g(unat i := g (unat i) - 1))" "i \<in> out"
    "res_frame ty ts ts'" "\<exists>y. res_entry ts' ty i = Some y \<and> (ret = 0 \<longrightarrow> ri_pid y = 0)"
    by (rule put_inv) blast
  have low: "res_inv ty ts' procs (out - {i}) (g(unat i := g (unat i) - 1)) \<Longrightarrow> res_inv ty ts' procs out (g(unat i := g (unat i) - 1))"
    by (rule res_inv_mono) auto
  then have st': "res_state holds inst lim ty ts' procs w out (g(unat i := g (unat i) - 1))"
    using res_state_frame [OF st p(6)] p(4) by (auto split: if_splits)
  have chk': "trs_res_id_para_check (Some inst) ty i = 0" using chk ty by (simp add: trs_res_id_para_check_def)
  show thesis
  proof (cases "ret = 0")
    case True
    then obtain y where y: "res_entry ts' ty i = Some y" "ri_pid y = 0" using p(7) by auto
    have dead: "res_inv ty ts' procs (out - {i}) (g(unat i := g (unat i) - 1))" using p(4) True by simp
    show thesis
    proof (rule release_state [OF st' dead p(5) y, where env = env])
      fix r w1 w' out'
      assume "trs_res_notice_ts ts' w 1 ty i = Some (r, w1)" "trs_res_mng_id_free env ts' w1 ty i = Some w'"
        "res_state holds inst lim ty ts' procs w' out' (g(unat i := g (unat i) - 1))" "anonymous w w'" "out - {i} \<subseteq> out'" "out' \<subseteq> out"
      then show thesis using that [of ts' w' out'] p(2) chk' True by (simp add: trs_res_id_put_def)
    qed
  next
    case False
    then show thesis using that [OF _ st'] p(2,3) chk' by (simp add: trs_res_id_put_def)
  qed
qed

lemma free_state:
  assumes st: "res_state holds inst lim ty ts procs w out g" and c: "procs a = Some c"
  shows "if trs_proc_has_res c ts ty i = Some True
    then \<exists>c' ts' w' out'. trs_res_id_free0 env c ts w ty i = Some (0, c', ts', w') \<and>
           res_state holds inst lim ty ts' (procs(a \<mapsto> c')) w' out' g \<and> out - {i} \<subseteq> out' \<and> out' \<subseteq> out \<and> anonymous w w' \<and>
           pc_pid c' = pc_pid c \<and> pc_task_id c' = pc_task_id c \<and>
           (\<exists>y. res_entry ts' ty i = Some y \<and> \<not> res_owned y \<and> (g (unat i) = 0 \<longrightarrow> ri_pid y = 0)) \<and>
           (\<forall>j. j \<noteq> i \<longrightarrow> res_entry ts' ty j = res_entry ts ty j)
    else trs_res_id_free0 env c ts w ty i = Some (- EINVAL, c, ts, w)"
proof (cases "trs_proc_has_res c ts ty i = Some True")
  case False
  have inv: "res_inv ty ts procs out g" by (rule res_state_procs [OF st])
  obtain b where "trs_proc_has_res c ts ty i = Some b" using has_res_inv [OF inv] by blast
  with False have "trs_proc_has_res c ts ty i = Some False" by (cases b) simp_all
  moreover obtain m where "res_mng_at ts ty = Some m" using inv by (auto simp: res_inv_def res_mng_at_def)
  ultimately show ?thesis using False by (simp add: trs_res_id_free0_def trs_proc_del_res_def)
next
  case True
  have inv: "res_inv ty ts procs out g" by (rule res_state_procs [OF st])
  from inv c True obtain ret c' ts' where d: "trs_proc_del_res c ts ty i = Some (ret, c', ts')" "0 \<le> ret" "ret = 0 \<longleftrightarrow> g (unat i) = 0"
    "res_inv ty ts' (procs(a \<mapsto> c')) (if ret = 0 then out - {i} else out) g" "i \<in> out"
    "pc_pid c' = pc_pid c" "pc_task_id c' = pc_task_id c" "res_frame ty ts ts'"
    "\<exists>y. res_entry ts' ty i = Some y \<and> \<not> res_owned y \<and> (ret = 0 \<longrightarrow> ri_pid y = 0)"
    "\<And>j. j \<noteq> i \<Longrightarrow> res_entry ts' ty j = res_entry ts ty j"
    by (rule del_inv) metis
  have low: "res_inv ty ts' (procs(a \<mapsto> c')) (out - {i}) g \<Longrightarrow> res_inv ty ts' (procs(a \<mapsto> c')) out g"
    by (rule res_inv_mono) auto
  then have st': "res_state holds inst lim ty ts' (procs(a \<mapsto> c')) w out g"
    using res_state_frame [OF st d(8)] d(4) by (auto split: if_splits)
  show ?thesis
  proof (cases "ret = 0")
    case r0: True
    let ?w = "if trs_res_id_need_reset ty then snd (trs_res_id_ctrl ts' w ty i TRS_RES_OP_RESET) else w"
    have q: "rw_ids ?w = rw_ids w" "anonymous w ?w" by (simp_all add: ctrl_quiet)
    obtain y where y: "res_entry ts' ty i = Some y" "ri_pid y = 0" "\<not> res_owned y" using d(9) r0 by auto
    have dead: "res_inv ty ts' (procs(a \<mapsto> c')) (out - {i}) g" using d(4) r0 by simp
    show ?thesis
    proof (rule release_state [OF res_state_quiet [OF st' q(1)] dead d(5) y(1,2), where env = env])
      fix r w1 w' out'
      assume n: "trs_res_notice_ts ts' ?w 1 ty i = Some (r, w1)" "trs_res_mng_id_free env ts' w1 ty i = Some w'"
        "res_state holds inst lim ty ts' (procs(a \<mapsto> c')) w' out' g" "anonymous ?w w'" "out - {i} \<subseteq> out'" "out' \<subseteq> out"
      have f: "trs_res_id_free0 env c ts w ty i = Some (0, c', ts', w')"
        using d(1) r0 n(1,2) by (simp add: trs_res_id_free0_def Let_def)
      show ?thesis unfolding if_P [OF True]
        using n(3,5,6) y d(6,7,10) anonymous_trans [OF q(2) n(4)] by (intro exI conjI) (rule f, auto)
    qed
  next
    case False
    then have f: "trs_res_id_free0 env c ts w ty i = Some (0, c', ts', w)"
      using d(1,2) by (simp add: trs_res_id_free0_def)
    obtain y where "res_entry ts' ty i = Some y" "\<not> res_owned y" using d(9) by blast
    then show ?thesis unfolding if_P [OF True]
      using st' d(3,6,7,10) False by (intro exI conjI) (rule f, auto)
  qed
qed

lemma alloc_state:
  assumes st: "res_state holds inst lim ty ts procs w out g" and c: "procs a = Some c" and para: "rp_res_type para = ty"
  obtains (got) i c' ts' w' para' where "trs_res_id_alloc env c ts w para = Some (0, c', ts', w', para')" "rp_id para' = i"
      "i \<notin> out" "i < lim" "g (unat i) = 0" "res_state holds inst lim ty ts' (procs(a \<mapsto> c')) w' (insert i out) g" "anonymous w w'"
      "res_entry ts' ty i = Some \<lparr>ri_status = RES_STATUS_NORMAL, ri_task_id = pc_task_id c, ri_pid = pc_pid c, ri_ref = 1\<rparr>"
      "\<exists>x. res_entry ts ty i = Some x \<and> ri_pid x = 0" "pc_pid c' = pc_pid c" "pc_task_id c' = pc_task_id c"
  | (failed) ret ts' w' para' out' where "trs_res_id_alloc env c ts w para = Some (ret, c, ts', w', para')" "ret \<noteq> 0"
      "res_state holds inst lim ty ts' procs w' out' g" "ct_res_mng ts' = ct_res_mng ts" "out \<subseteq> out'" "anonymous w w'"
proof -
  have S: "holds (rw_ids w) out" "ct_inst ts = inst" "ao_id_alloc (ct_ops ts) ty = None" "rm_max_id (ct_res_mng ts ty) = lim"
    using st by (auto simp: res_state_def)
  obtain ret r ids where A: "trs_id_alloc (en_modok env) (en_mem env) (rw_ids w) (Some inst) (trs_res_get_id_type ty) True = Some ((ret, r), ids)"
    "holds ids (out \<union> set_option r)" "case r of None \<Rightarrow> ret \<noteq> 0 | Some i \<Rightarrow> ret = 0 \<and> i \<notin> out \<and> i < lim"
    using alloc_law [OF S(1), of "en_modok env" "en_mem env"] by blast
  let ?w1 = "w\<lparr>rw_ids := ids\<rparr>"
  have m: "trs_res_mng_id_alloc env ts w ty (rp_para para) = Some ((ret, r), ?w1)"
    using A(1) S by (simp add: trs_res_mng_id_alloc_def)
  have st1: "res_state holds inst lim ty ts procs ?w1 (out \<union> set_option r) g"
    using st A(2) res_inv_mono [OF res_state_procs [OF st], of "out \<union> set_option r"] by (simp add: res_state_def)
  show thesis
  proof (cases r)
    case None
    then have "ret \<noteq> 0" using A(3) by simp
    then show thesis using failed [of ret ts ?w1 para out] m None st1 para by (simp add: trs_res_id_alloc_def Let_def)
  next
    case (Some i)
    then have i: "ret = 0" "i \<notin> out" "i < lim" using A(3) by auto
    let ?para = "para\<lparr>rp_id := i\<rparr>"
    have st1': "res_state holds inst lim ty ts procs ?w1 (insert i out) g" using st1 Some by simp
    obtain ts1 where t1: "trs_res_id_init_para ts ty i = Some ts1" "res_state holds inst lim ty ts1 procs ?w1 (insert i out) g"
      "ct_res_mng ts1 = ct_res_mng ts" "ct_inst ts1 = ct_inst ts" "ct_ops ts1 = ct_ops ts"
      by (rule init_para_state [OF st1' i(3)])
    have inv1: "res_inv ty ts1 procs out g" using res_inv_cong [of ts1 ty ts] t1(3,4) res_state_procs [OF st] by simp
    have e1: "res_entry ts1 ty j = res_entry ts ty j" for j using t1(3) by (simp add: res_entry_def)
    have lim1: "i < rm_max_id (ct_res_mng ts1 ty)" using i(3) t1(3) S(4) by simp
    from inv1 c i(2) lim1 obtain c' ts2 where ad: "trs_proc_add_res c ts1 ty i = Some (0, c', ts2)"
      "res_inv ty ts2 (procs(a \<mapsto> c')) (insert i out) g"
      "res_entry ts2 ty i = Some \<lparr>ri_status = RES_STATUS_NORMAL, ri_task_id = pc_task_id c, ri_pid = pc_pid c, ri_ref = 1\<rparr>"
      "pc_pid c' = pc_pid c" "pc_task_id c' = pc_task_id c" "res_frame ty ts1 ts2"
      "\<exists>x. res_entry ts1 ty i = Some x \<and> ri_pid x = 0" "g (unat i) = 0" by (rule add_inv)
    obtain x where x: "res_entry ts1 ty i = Some x" "ri_pid x = 0" using ad(7) by blast
    obtain ret2 w2 where n: "trs_res_notice_ts ts1 ?w1 0 ty i = Some (ret2, w2)" "rw_ids w2 = rw_ids ?w1" "anonymous ?w1 w2"
      by (rule notice_anonymous [OF x])
    have an: "anonymous w w2" using anonymous_trans [of w ?w1 w2] n(3) by simp
    have st2: "res_state holds inst lim ty ts1 procs w2 (insert i out) g" by (rule res_state_quiet [OF t1(2) n(2)])
    show thesis
    proof (cases "ret2 = 0")
      case False
      have dead: "res_inv ty ts1 procs (insert i out - {i}) g" using inv1 i(2) by simp
      obtain w3 out' where f: "trs_res_mng_id_free env ts1 w2 ty i = Some w3" "res_state holds inst lim ty ts1 procs w3 out' g"
        "rw_sent w3 = rw_sent w2" "insert i out - {i} \<subseteq> out'"
        by (rule id_free_state [OF st2 dead insertI1 i(3), of env])
      have "trs_res_id_alloc env c ts w para = Some (ret2, c, ts1, w3, ?para)"
        using m Some i(1) t1(1) n(1) False f(1) para by (simp add: trs_res_id_alloc_def Let_def)
      moreover have "out \<subseteq> out'" using f(4) i(2) by auto
      ultimately show thesis using failed [OF _ False f(2) t1(3)] anonymous_trans [OF an, of w3] f(3) by simp
    next
      case True
      obtain ret4 v where q: "trs_res_id_query_addr (en_stack env) ts2 w2 ty i = (ret4, v)" by (cases "trs_res_id_query_addr (en_stack env) ts2 w2 ty i")
      let ?w3 = "if trs_res_id_need_reset ty then snd (trs_res_id_ctrl ts2 w2 ty i TRS_RES_OP_CHECK_AND_RESET) else w2"
      let ?p = "?para\<lparr>rp_value := (if ret4 = 0 then (ucast v, ucast (drop_bit 32 v)) else (0, 0))\<rparr>"
      have r: "trs_res_id_alloc env c ts w para = Some (0, c', ts2, ?w3, ?p)"
        using m Some i(1) t1(1) n(1) True ad(1) q para by (simp add: trs_res_id_alloc_def Let_def)
      have st3: "res_state holds inst lim ty ts2 (procs(a \<mapsto> c')) ?w3 (insert i out) g"
        by (rule res_state_quiet [OF res_state_frame [OF st2 ad(6,2)]]) (simp add: ctrl_quiet)
      have an3: "anonymous w ?w3" by (rule anonymous_trans [OF an]) (simp add: ctrl_quiet)
      show thesis
        by (rule got [OF r _ i(2,3) ad(8) st3 an3 ad(3) _ ad(4,5)]) (use ad(7) e1 in simp_all)
    qed
  qed
qed

text \<open>Recycling: after the loop the process owns no id of the type, wherever the loop stops.\<close>

lemma recycle_loop:
  assumes "res_state holds inst lim ty ts procs w out g" "procs a = Some c" "set is \<subseteq> {i. i < lim}"
    "\<forall>j x. res_entry ts ty j = Some x \<longrightarrow> proc_match c x \<longrightarrow> j \<in> set is"
  shows "\<exists>c' ts' w' out'. for_each_proc_res_from (trs_res_id_recycle env) ty is (c, ts, w) = Some (c', ts', w') \<and>
    res_state holds inst lim ty ts' (procs(a \<mapsto> c')) w' out' g \<and> out' \<subseteq> out \<and> anonymous w w' \<and>
    pc_pid c' = pc_pid c \<and> pc_task_id c' = pc_task_id c \<and>
    trs_get_proc_res_num c' (ti_tsid inst) ty = 0"
  using assms
proof (induction "is" arbitrary: c ts procs w out)
  case Nil
  have "procs(a \<mapsto> c) = procs" using Nil.prems(2) by auto
  moreover have "trs_get_proc_res_num c (ti_tsid (ct_inst ts)) ty = 0"
    using res_inv_count [OF res_state_procs [OF Nil.prems(1)] Nil.prems(2)] Nil.prems(4) by auto
  moreover have "ct_inst ts = inst" using Nil.prems(1) by (simp add: res_state_def)
  ultimately show ?case using Nil.prems(1)
    by (intro exI [of _ c] exI [of _ ts] exI [of _ w] exI [of _ out]) simp
next
  case (Cons i "is")
  have inv: "res_inv ty ts procs out g" by (rule res_state_procs [OF Cons.prems(1)])
  have ins: "ct_inst ts = inst" "rm_max_id (ct_res_mng ts ty) = lim" using Cons.prems(1) by (simp_all add: res_state_def)
  obtain x where x: "res_ids_at (ct_res_mng ts ty) i = Some x"
    using inv Cons.prems(3) ins(2) by (auto simp: res_inv_def res_table_def res_ids_at_def word_less_nat_alt)
  show ?case
  proof (cases "proc_match c x")
    case False
    have "\<forall>j y. res_entry ts ty j = Some y \<longrightarrow> proc_match c y \<longrightarrow> j \<in> set is"
      using Cons.prems(4) False x by (metis option.inject res_entry_def set_ConsD)
    then show ?thesis using Cons.IH [OF Cons.prems(1,2), of] Cons.prems(3) False x by (simp add: proc_match_def)
  next
    case True
    have "trs_proc_has_res c ts ty i = Some True" using has_res_inv [OF inv] x True by (simp add: res_entry_def)
    then obtain c' ts' w' out' y where f: "trs_res_id_free0 env c ts w ty i = Some (0, c', ts', w')"
      "res_state holds inst lim ty ts' (procs(a \<mapsto> c')) w' out' g" "out' \<subseteq> out" "anonymous w w'"
      "pc_pid c' = pc_pid c" "pc_task_id c' = pc_task_id c" "res_entry ts' ty i = Some y" "\<not> res_owned y"
      "\<And>j. j \<noteq> i \<Longrightarrow> res_entry ts' ty j = res_entry ts ty j"
      using free_state [OF Cons.prems(1,2), of i env] by auto
    have ins': "ct_inst ts' = inst" using f(2) by (simp add: res_state_def)
    have pm: "proc_match c' = proc_match c" using f(5,6) by (simp add: fun_eq_iff proc_match_def)
    have pid: "pc_pid c \<noteq> 0" using inv Cons.prems(2) by (auto simp: res_inv_def procs_ok_def)
    have "j \<in> set is" if "res_entry ts' ty j = Some z" "proc_match c' z" for j z
    proof -
      have "j \<noteq> i" using that f(7,8) pid by (auto simp: pm proc_match_def trs_is_id_pid_match_def res_owned_def)
      then show ?thesis using Cons.prems(4) that f(9) by (auto simp: pm)
    qed
    then have left: "\<forall>j z. res_entry ts' ty j = Some z \<longrightarrow> proc_match c' z \<longrightarrow> j \<in> set is" by blast
    have at: "(procs(a \<mapsto> c')) a = Some c'" and sub: "set is \<subseteq> {i. i < lim}" using Cons.prems(3) by simp_all
    show ?thesis
    proof (cases "trs_get_proc_res_num c' (ti_tsid inst) ty = 0")
      case z: True
      then have "for_each_proc_res_from (trs_res_id_recycle env) ty (i # is) (c, ts, w) = Some (c', ts', w')"
        using x True f(1) ins' by (simp add: proc_match_def trs_res_id_recycle_def)
      then show ?thesis using f(2-6) z by blast
    next
      case z: False
      have "for_each_proc_res_from (trs_res_id_recycle env) ty (i # is) (c, ts, w) =
          for_each_proc_res_from (trs_res_id_recycle env) ty is (c', ts', w')"
        using x True f(1) ins' z by (simp add: proc_match_def trs_res_id_recycle_def)
      moreover obtain c2 ts2 w2 out2 where IH: "for_each_proc_res_from (trs_res_id_recycle env) ty is (c', ts', w') = Some (c2, ts2, w2)"
        "res_state holds inst lim ty ts2 ((procs(a \<mapsto> c'))(a \<mapsto> c2)) w2 out2 g" "out2 \<subseteq> out'" "anonymous w' w2"
        "pc_pid c2 = pc_pid c'" "pc_task_id c2 = pc_task_id c'" "trs_get_proc_res_num c2 (ti_tsid inst) ty = 0"
        using Cons.IH [OF f(2) at sub left] by blast
      ultimately show ?thesis using f(3,5,6) IH(2,3,5-7) anonymous_trans [OF f(4) IH(4)]
        by (intro exI [of _ c2] exI [of _ ts2] exI [of _ w2] exI [of _ out2])
          (simp add: order_trans [OF IH(3) f(3)] del: fun_upd_apply for_each_proc_res_from.simps)
    qed
  qed
qed

lemma recycle_state:
  assumes st: "res_state holds inst lim ty ts procs w out g" and c: "procs a = Some c"
  shows "\<exists>c' ts' w' out'. trs_for_each_proc_res_id (trs_res_id_recycle env) ty c ts w = Some (c', ts', w') \<and>
    res_state holds inst lim ty ts' (procs(a \<mapsto> c')) w' out' g \<and> out' \<subseteq> out \<and> anonymous w w' \<and>
    pc_pid c' = pc_pid c \<and> pc_task_id c' = pc_task_id c \<and>
    trs_get_proc_res_num c' (ti_tsid inst) ty = 0 \<and>
    (\<forall>i x. res_entry ts' ty i = Some x \<longrightarrow> \<not> proc_match c x)"
proof -
  have inv: "res_inv ty ts procs out g" by (rule res_state_procs [OF st])
  have ins: "ct_inst ts = inst" "rm_max_id (ct_res_mng ts ty) = lim" using st by (simp_all add: res_state_def)
  have m: "res_mng_at ts ty = Some (ct_res_mng ts ty)" using inv by (auto simp: res_inv_def res_mng_at_def)
  have none: "\<forall>i x. res_entry ts' ty i = Some x \<longrightarrow> \<not> proc_match c x"
    if "res_state holds inst lim ty ts' (procs(a \<mapsto> c')) w' out' g" "trs_get_proc_res_num c' (ti_tsid inst) ty = 0"
      "pc_pid c' = pc_pid c" "pc_task_id c' = pc_task_id c" for c' ts' w' out'
  proof -
    have "ct_inst ts' = inst" using that(1) by (simp add: res_state_def)
    moreover have "proc_match c' = proc_match c" using that(3,4) by (simp add: fun_eq_iff proc_match_def)
    ultimately show ?thesis using res_inv_count [OF res_state_procs [OF that(1)], of a c'] that(2) by simp
  qed
  show ?thesis
  proof (cases "trs_get_proc_res_num c (ti_tsid inst) ty = 0")
    case True
    have "procs(a \<mapsto> c) = procs" using c by auto
    moreover have "trs_for_each_proc_res_id (trs_res_id_recycle env) ty c ts w = Some (c, ts, w)"
      using m True ins by (simp add: trs_for_each_proc_res_id_def)
    ultimately show ?thesis using st True none [of ts c w out]
      by (intro exI [of _ c] exI [of _ ts] exI [of _ w] exI [of _ out]) simp
  next
    case False
    let ?is = "map of_nat [0 ..< unat lim] :: u32 list"
    have loop: "trs_for_each_proc_res_id (trs_res_id_recycle env) ty c ts w =
        for_each_proc_res_from (trs_res_id_recycle env) ty ?is (c, ts, w)"
      using m False ins by (simp add: trs_for_each_proc_res_id_def)
    have is1: "set ?is \<subseteq> {i. i < lim}"
    proof
      fix i :: u32 assume "i \<in> set ?is"
      then obtain k where k: "i = of_nat k" "k < unat lim" by auto
      then have "unat i \<le> k" by (simp add: unat_of_nat)
      then show "i \<in> {i. i < lim}" using k by (simp add: word_less_nat_alt)
    qed
    have "j \<in> set ?is" if "res_entry ts ty j = Some x" for j x
    proof -
      have "unat j < unat lim" using that inv ins(2)
        by (auto simp: res_inv_def res_table_def res_entry_def res_ids_at_def split: if_splits)
      then show ?thesis by (auto intro!: image_eqI [of _ _ "unat j"])
    qed
    then have "\<forall>j x. res_entry ts ty j = Some x \<longrightarrow> proc_match c x \<longrightarrow> j \<in> set ?is" by blast
    from recycle_loop [OF st c is1 this, of env] obtain c' ts' w' out' where
      R: "for_each_proc_res_from (trs_res_id_recycle env) ty ?is (c, ts, w) = Some (c', ts', w')"
        "res_state holds inst lim ty ts' (procs(a \<mapsto> c')) w' out' g" "out' \<subseteq> out" "anonymous w w'"
        "pc_pid c' = pc_pid c" "pc_task_id c' = pc_task_id c" "trs_get_proc_res_num c' (ti_tsid inst) ty = 0" by blast
    show ?thesis unfolding loop using R none [OF R(2,7,5,6)]
      by (intro exI [of _ c'] exI [of _ ts'] exI [of _ w'] exI [of _ out']) simp
  qed
qed

lemma reach_state:
  assumes "res_reach holds inst lim ty ts procs w g"
  shows "\<exists>out. res_state holds inst lim ty ts procs w out g"
  using assms
proof induction
  case (rr_start ts w)
  then show ?case by blast
next
  case (rr_open ts procs w g tgid c ts' a)
  then obtain out where st: "res_state holds inst lim ty ts procs w out g" by blast
  have c: "pc_pid c = tgid" "trs_get_proc_res_num c (ti_tsid (ct_inst ts)) ty = 0" "ts' = ts\<lparr>ct_cur_task_id := ct_cur_task_id ts + 1\<rparr>"
    using rr_open.hyps(2) by (auto simp: trs_proc_ctx_create_def trs_get_proc_res_num_def)
  have "res_inv ty ts (procs(a \<mapsto> c)) out g"
    by (rule res_inv_new [OF res_state_procs [OF st]])
      (use c rr_open.hyps in \<open>auto simp: proc_match_def trs_is_id_pid_match_def\<close>)
  then have "res_inv ty ts' (procs(a \<mapsto> c)) out g" using res_inv_cong [of ts' ty ts] c(3) by simp
  then have "res_state holds inst lim ty ts' (procs(a \<mapsto> c)) w out g" using st c(3) by (simp add: res_state_def)
  then show ?case by blast
next
  case (rr_close ts procs w g a)
  then obtain out where "res_state holds inst lim ty ts procs w out g" by blast
  then have "res_state holds inst lim ty ts (procs(a := None)) w out g" using res_inv_drop [of ty ts procs out g a] by (simp add: res_state_def)
  then show ?case by blast
next
  case (rr_alloc ts procs w g a c para env ret c' ts' w' para')
  then obtain out where st: "res_state holds inst lim ty ts procs w out g" by blast
  have same: "procs(a \<mapsto> c) = procs" using rr_alloc.hyps(2) by auto
  show ?case
    by (rule alloc_state [OF st rr_alloc.hyps(2,3), of env]) (use rr_alloc.hyps(4) same in \<open>auto simp del: fun_upd_apply\<close>)
next
  case (rr_free ts procs w g a c env i ret c' ts' w')
  then obtain out where st: "res_state holds inst lim ty ts procs w out g" by blast
  have same: "procs(a \<mapsto> c) = procs" using rr_free.hyps(2) by auto
  show ?case using free_state [OF st rr_free.hyps(2), of i env] rr_free.hyps(3) st same by (auto simp del: fun_upd_apply split: if_splits)
next
  case (rr_get ts procs w g tgid i procs0 ret ts')
  then obtain out where st: "res_state holds inst lim ty ts procs w out g" by blast
  show ?case
  proof (cases "trs_res_id_para_check (Some inst) ty i = 0")
    case False
    then show ?thesis using rr_get.hyps st by (auto simp: trs_res_id_get_def Let_def split: if_splits)
  next
    case True
    then have "trs_res_get procs0 ts tgid ty i = Some (ret, ts')" using rr_get.hyps by (auto simp: trs_res_id_get_def)
    from get_inv [OF res_state_procs [OF st] rr_get.hyps(3,2) this] res_state_frame [OF st] st
    show ?thesis by (auto simp del: fun_upd_apply split: if_splits)
  qed
next
  case (rr_put ts procs w g i env ret ts' w')
  then obtain out where st: "res_state holds inst lim ty ts procs w out g" by blast
  show ?case by (rule put_state [OF st rr_put.hyps(2-4), of env]) (use rr_put.hyps(5) in \<open>auto simp del: fun_upd_apply\<close>)
next
  case (rr_recycle ts procs w g a c env c' ts' w')
  then obtain out where st: "res_state holds inst lim ty ts procs w out g" by blast
  show ?case using recycle_state [OF st rr_recycle.hyps(2), of env] rr_recycle.hyps(3) by (auto simp del: fun_upd_apply)
next
  case (rr_other ts procs w g ts' w' procs')
  then obtain out where st: "res_state holds inst lim ty ts procs w out g" by blast
  show ?case by (rule exI, rule other_state [OF st rr_other.hyps(2-8)])
qed

end


section \<open>Properties of single operations\<close>

lemma init_para_ops: "trs_res_id_init_para ts ty i = Some ts' \<Longrightarrow> ct_ops ts' = ct_ops ts"
  by (auto simp: trs_res_id_init_para_def split: if_splits)

lemma add_res_ops: "trs_proc_add_res c ts ty i = Some (r, c', ts') \<Longrightarrow> ct_ops ts' = ct_ops ts"
  by (auto simp: trs_proc_add_res_def bind_eq_Some_conv split: if_splits)

text \<open>
  C16. When the adapter has no \<^verbatim>\<open>res_id_query\<close>, the address an allocation reports to user space is the content of an
  uninitialised kernel stack variable.
\<close>

theorem res_id_alloc_stack_leak:
  assumes "trs_res_id_alloc env c ts w para = Some (0, c', ts', w', para')" "ao_res_id_query (ct_ops ts) = None"
  shows "rp_value para' = (ucast (en_stack env), ucast (drop_bit 32 (en_stack env)))"
proof -
  let ?ty = "rp_res_type para"
  note D = assms(1) [unfolded trs_res_id_alloc_def Let_def]
  obtain ret r w1 where m: "trs_res_mng_id_alloc env ts w ?ty (rp_para para) = Some ((ret, r), w1)"
    using D by (cases "trs_res_mng_id_alloc env ts w ?ty (rp_para para)") auto
  define para1 where "para1 = (case r of None \<Rightarrow> para | Some i \<Rightarrow> para\<lparr>rp_id := i\<rparr>)"
  note D = D [unfolded m Option.bind.simps prod.case, folded para1_def]
  have "ret = 0" using D by (cases "ret = 0") auto
  note D = D [unfolded this, simplified]
  obtain ts1 where t1: "trs_res_id_init_para ts ?ty (rp_id para1) = Some ts1"
    using D by (cases "trs_res_id_init_para ts ?ty (rp_id para1)") auto
  obtain ret2 w2 where n: "trs_res_notice_ts ts1 w1 0 ?ty (rp_id para1) = Some (ret2, w2)"
    using D t1 by (cases "trs_res_notice_ts ts1 w1 0 ?ty (rp_id para1)") auto
  have "ret2 = 0"
    using D t1 n by (cases "ret2 = 0"; cases "trs_res_mng_id_free env ts1 w2 ?ty (rp_id para1)") auto
  note D = D [unfolded t1, simplified, unfolded n this, simplified]
  obtain ret3 c2 ts2 where ad: "trs_proc_add_res c ts1 ?ty (rp_id para1) = Some (ret3, c2, ts2)"
    using D by (cases "trs_proc_add_res c ts1 ?ty (rp_id para1)") auto
  have "ret3 = 0"
  proof (rule ccontr)
    assume "ret3 \<noteq> 0"
    with D ad show False
      by (cases "trs_res_notice_ts ts2 w2 1 ?ty (rp_id para1)"; cases "trs_res_mng_id_free env ts2 (snd (the (trs_res_notice_ts ts2 w2 1 ?ty (rp_id para1)))) ?ty (rp_id para1)")
        auto
  qed
  moreover have "ao_res_id_query (ct_ops ts2) = None" using add_res_ops [OF ad] init_para_ops [OF t1] assms(2) by simp
  ultimately show ?thesis using D ad by (auto simp: trs_res_id_query_addr_def)
qed


text \<open>A concrete adapter that hands out id 3 and has no \<^verbatim>\<open>res_id_query\<close>.\<close>

definition demo_leak_ops :: "(unit, unit) trs_core_adapt_ops" where
  "demo_leak_ops =
     \<lparr>ao_res_id_check = None, ao_id_alloc = (\<lambda>_. Some (\<lambda>ids _ _. ((0, 3), ids))), ao_id_free = (\<lambda>_. None),
      ao_notice_ts = (\<lambda>h _ _. (0, 0, h)), ao_res_id_ctrl = None, ao_res_id_query = None,
      ao_get_res_reg_offset = (\<lambda>_ _ _ _. (0, 0)), ao_get_res_reg_total_size = (\<lambda>_ _ _. (0, 0))\<rparr>"

definition demo_leak_ts :: "(unit, unit) trs_core_ts_inst" where
  "demo_leak_ts =
     \<lparr>ct_hw_type = 1, ct_featur_mode = 0, ct_surport_proc_num = 0, ct_inst = \<lparr>ti_devid = 0, ti_tsid = 0\<rparr>, ct_ops = demo_leak_ops,
      ct_cur_task_id = 0, ct_proc_list = [], ct_exit_proc_list = [],
      ct_res_mng = (\<lambda>ty. \<lparr>rm_res_type = ty, rm_id_num = 4, rm_max_id = 4, rm_use_num = 0,
        rm_ids = Some (replicate 4 \<lparr>ri_status = 0, ri_task_id = 0, ri_pid = 0, ri_ref = 0\<rparr>)\<rparr>),
      ct_stream_ctx = None\<rparr>"

definition demo_leak_w :: "(unit, unit) trs_res_w" where
  "demo_leak_w = \<lparr>rw_ids = \<lparr>ts_table = Map.empty, ts_heap = Map.empty, ts_back = ()\<rparr>, rw_hw = (), rw_sent = []\<rparr>"

definition demo_leak_env :: trs_res_env where
  "demo_leak_env = \<lparr>en_modok = True, en_mem = (\<lambda>_. True), en_fmodok = True, en_fmem = True, en_stack = 12345\<rparr>"

definition demo_leak_para :: trs_res_id_para where
  "demo_leak_para = \<lparr>rp_tsid = 0, rp_res_type = TRS_NOTIFY, rp_id = 0, rp_para = 0, rp_prop = 0, rp_value = (0, 0)\<rparr>"

definition demo_leak_proc :: trs_proc_ctx where
  "demo_leak_proc = the (fst (trs_proc_ctx_create True 42 demo_leak_ts))"

theorem res_id_alloc_stack_leak_witness:
  "\<exists>c' ts' w' para'. trs_res_id_alloc demo_leak_env demo_leak_proc demo_leak_ts demo_leak_w demo_leak_para = Some (0, c', ts', w', para') \<and>
     rp_value para' = (12345, 0)"
proof -
  have "\<exists>c' ts' w' para'. trs_res_id_alloc demo_leak_env demo_leak_proc demo_leak_ts demo_leak_w demo_leak_para = Some (0, c', ts', w', para')"
    by (simp add: trs_res_id_alloc_def trs_res_mng_id_alloc_def trs_res_id_init_para_def trs_res_notice_ts_def trs_notify_notice_ts_def
        res_ids_at_def res_send_def trs_core_notice_ts_def trs_proc_add_res_def res_mng_at_def trs_res_id_query_addr_def
        demo_leak_ts_def demo_leak_ops_def demo_leak_para_def demo_leak_w_def Let_def word_le_nat_alt)
  moreover have "ao_res_id_query (ct_ops demo_leak_ts) = None" by (simp add: demo_leak_ts_def demo_leak_ops_def)
  moreover have "en_stack demo_leak_env = 12345" by (simp add: demo_leak_env_def)
  ultimately show ?thesis using res_id_alloc_stack_leak [of demo_leak_env demo_leak_proc demo_leak_ts demo_leak_w demo_leak_para]
    by (fastforce simp: drop_bit_eq_div)
qed

section \<open>Start of an instance\<close>

text \<open>What \<^verbatim>\<open>trs_res_id_init\<close> leaves of a table: nothing for a type without ids, or an entry of zeros for every id.\<close>

definition res_mng_fresh :: "trs_res_mng \<Rightarrow> bool" where
  "res_mng_fresh m \<longleftrightarrow>
     (if rm_id_num m = 0 then rm_ids m = None
      else rm_ids m = Some (replicate (unat (rm_max_id m)) \<lparr>ri_status = 0, ri_task_id = 0, ri_pid = 0, ri_ref = 0\<rparr>))"

lemma id_init_set:
  assumes "trs_res_id_init modok mem ts ids ty = Some (ret, ts', ids')" "rm_ids (ct_res_mng ts ty) = None"
  shows "\<exists>m. ts' = res_mng_set ty m ts \<and> (ret = 0 \<longrightarrow> res_mng_fresh m) \<and> rm_use_num m = rm_use_num (ct_res_mng ts ty)"
proof -
  let ?t = "trs_res_get_id_type (trs_res_replace_res_type ts ty)"
  note D = assms(1) [unfolded trs_res_id_init_def Let_def]
  obtain r1 n ids1 where t: "trs_id_get_total_num (fst (modok ty)) ids (Some (ct_inst ts)) ?t True = Some ((r1, n), ids1)"
    using D by (cases "trs_id_get_total_num (fst (modok ty)) ids (Some (ct_inst ts)) ?t True") auto
  define m1 where "m1 = (ct_res_mng ts ty)\<lparr>rm_id_num := (if r1 \<noteq> 0 then 0 else the n)\<rparr>"
  have u: "rm_use_num m1 = rm_use_num (ct_res_mng ts ty)" "rm_ids m1 = None" using assms(2) by (simp_all add: m1_def)
  note D = D [unfolded t Option.bind.simps prod.case, folded m1_def]
  show ?thesis
  proof (cases "rm_id_num m1 > 0")
    case False
    then have "ts' = res_mng_set ty (m1\<lparr>rm_res_type := ty\<rparr>) ts" using D by simp
    moreover have "rm_id_num m1 = 0" using False by (metis word_neq_0_conv)
    ultimately show ?thesis using u by (intro exI [of _ "m1\<lparr>rm_res_type := ty\<rparr>"]) (simp add: res_mng_fresh_def)
  next
    case True
    obtain r2 k ids2 where x: "trs_id_get_max_id (snd (modok ty)) ids1 (Some (ct_inst ts)) ?t True = Some ((r2, k), ids2)"
      using D True by (cases "trs_id_get_max_id (snd (modok ty)) ids1 (Some (ct_inst ts)) ?t True") auto
    note D = D [unfolded if_P [OF True] x Option.bind.simps prod.case]
    have id: "rm_id_num m1 \<noteq> 0" using True by auto
    let ?m = "if r2 \<noteq> 0 then m1 else if \<not> mem ty then m1\<lparr>rm_max_id := the k, rm_ids := None\<rparr>
      else m1\<lparr>rm_max_id := the k, rm_ids := Some (replicate (unat (the k)) \<lparr>ri_status = 0, ri_task_id = 0, ri_pid = 0, ri_ref = 0\<rparr>),
        rm_res_type := ty\<rparr>"
    have "ts' = res_mng_set ty ?m ts \<and> (ret = 0 \<longrightarrow> r2 = 0 \<and> mem ty)" using D by (cases "r2 = 0"; cases "mem ty") simp_all
    moreover have "res_mng_fresh ?m" if "r2 = 0" "mem ty" using that id by (simp add: res_mng_fresh_def)
    ultimately show ?thesis using u(1) by (intro exI [of _ ?m]) simp
  qed
qed

lemma id_init_fresh:
  assumes "trs_res_id_init modok mem ts ids ty = Some (ret, ts', ids')" "rm_ids (ct_res_mng ts ty) = None"
  shows "ty' \<noteq> ty \<Longrightarrow> ct_res_mng ts' ty' = ct_res_mng ts ty'" "ret = 0 \<Longrightarrow> res_mng_fresh (ct_res_mng ts' ty)"
    "ct_stream_ctx ts' = ct_stream_ctx ts" "rm_use_num (ct_res_mng ts' ty) = rm_use_num (ct_res_mng ts ty)"
  using id_init_set [OF assms] by auto

lemma init_types_fresh:
  assumes "res_mng_init_types modok mem tys ts ids = Some (ret, ts', ids')" "distinct tys" "set tys \<subseteq> {0 .. 11}"
    "\<forall>ty \<in> set tys. rm_ids (ct_res_mng ts ty) = None" "ct_stream_ctx ts = None"
  shows "(ret = 0 \<longrightarrow> (\<forall>ty \<in> set tys. res_mng_fresh (ct_res_mng ts' ty) \<and> rm_use_num (ct_res_mng ts' ty) = rm_use_num (ct_res_mng ts ty)) \<and>
            (\<forall>ty. ty \<notin> set tys \<longrightarrow> ct_res_mng ts' ty = ct_res_mng ts ty)) \<and>
         (ret \<noteq> 0 \<longrightarrow> (\<forall>ty. 0 \<le> ty \<and> ty < TRS_CORE_MAX_ID_TYPE \<longrightarrow> rm_ids (ct_res_mng ts' ty) = None)) \<and>
         ct_stream_ctx ts' = None"
  using assms
proof (induction tys arbitrary: ts ids)
  case (Cons ty tys)
  obtain r ts1 ids1 where i: "trs_res_id_init modok mem ts ids ty = Some (r, ts1, ids1)"
    using Cons.prems(1) by (cases "trs_res_id_init modok mem ts ids ty") auto
  note f = id_init_fresh [OF i, of]
  have none: "rm_ids (ct_res_mng ts ty) = None" using Cons.prems(4) by simp
  show ?case
  proof (cases "r = 0")
    case False
    then have "ret = r" "ts' = trs_res_mng_uninit ts1" using Cons.prems(1) i by auto
    then show ?thesis using False by (auto simp: trs_res_mng_uninit_def trs_res_stream_uninit_def Let_def)
  next
    case True
    have r: "res_mng_init_types modok mem tys ts1 ids1 = Some (ret, ts', ids')" using Cons.prems(1) i True by simp
    have same: "ct_res_mng ts1 t = ct_res_mng ts t" if "t \<in> set tys" for t
      by (rule f(1) [OF none]) (use that Cons.prems(2) in auto)
    then have "\<forall>t \<in> set tys. rm_ids (ct_res_mng ts1 t) = None" using Cons.prems(4) by simp
    from Cons.IH [OF r _ _ this] Cons.prems(2,3,5) f(3) [OF none]
    have IH: "(ret = 0 \<longrightarrow> (\<forall>ty \<in> set tys. res_mng_fresh (ct_res_mng ts' ty) \<and> rm_use_num (ct_res_mng ts' ty) = rm_use_num (ct_res_mng ts1 ty)) \<and>
            (\<forall>ty. ty \<notin> set tys \<longrightarrow> ct_res_mng ts' ty = ct_res_mng ts1 ty)) \<and>
         (ret \<noteq> 0 \<longrightarrow> (\<forall>ty. 0 \<le> ty \<and> ty < TRS_CORE_MAX_ID_TYPE \<longrightarrow> rm_ids (ct_res_mng ts' ty) = None)) \<and>
         ct_stream_ctx ts' = None" by auto
    have "ct_res_mng ts' ty = ct_res_mng ts1 ty" if "ret = 0" using IH that Cons.prems(2) by simp
    then show ?thesis using IH same f(1,4) [OF none] f(2) [OF none True] by auto
  qed
qed simp

text \<open>
  C17. Starting the tables of a new instance: on success every type has no table and no ids, or a table with one
  zero entry for every id below its maximum and nothing in use, and there is a stream context for every stream
  id; on failure, wherever it happens, no table and no stream context is left.
\<close>

theorem trs_res_mng_init_spec:
  assumes "trs_res_mng_init modok mem stream_mem ts ids = Some (ret, ts', ids')" "ct_stream_ctx ts = None"
    "\<forall>ty. 0 \<le> ty \<and> ty < TRS_CORE_MAX_ID_TYPE \<longrightarrow> rm_ids (ct_res_mng ts ty) = None \<and> rm_use_num (ct_res_mng ts ty) = 0"
  shows "if ret = 0
    then (\<forall>ty. 0 \<le> ty \<and> ty < TRS_CORE_MAX_ID_TYPE \<longrightarrow> res_mng_fresh (ct_res_mng ts' ty) \<and> rm_use_num (ct_res_mng ts' ty) = 0) \<and>
         map_option length (ct_stream_ctx ts') =
           (if trs_res_get_max_id ts' TRS_STREAM = 0 then None else Some (unat (trs_res_get_max_id ts' TRS_STREAM)))
    else (\<forall>ty. 0 \<le> ty \<and> ty < TRS_CORE_MAX_ID_TYPE \<longrightarrow> rm_ids (ct_res_mng ts' ty) = None) \<and> ct_stream_ctx ts' = None"
proof -
  obtain r ts1 ids1 where i: "res_mng_init_types modok mem [0 .. 11] ts ids = Some (r, ts1, ids1)"
    using assms(1) by (cases "res_mng_init_types modok mem [0 .. 11] ts ids") (auto simp: trs_res_mng_init_def)
  have d: "distinct [0 .. 11 :: int]" "set [0 .. 11 :: int] = {0 .. 11}" by simp_all
  have n: "\<forall>ty \<in> set [0 .. 11]. rm_ids (ct_res_mng ts ty) = None" using assms(3) by auto
  have F: "(r = 0 \<longrightarrow> (\<forall>ty \<in> {0 .. 11}. res_mng_fresh (ct_res_mng ts1 ty) \<and> rm_use_num (ct_res_mng ts1 ty) = rm_use_num (ct_res_mng ts ty)))"
    "r \<noteq> 0 \<longrightarrow> (\<forall>ty. 0 \<le> ty \<and> ty < TRS_CORE_MAX_ID_TYPE \<longrightarrow> rm_ids (ct_res_mng ts1 ty) = None)" "ct_stream_ctx ts1 = None"
    using init_types_fresh [OF i d(1) _ n assms(2)] unfolding d(2) by auto
  show ?thesis
  proof (cases "r = 0")
    case False
    then have "ret = r" "ts' = ts1" using assms(1) i by (auto simp: trs_res_mng_init_def)
    then show ?thesis using False F by simp
  next
    case True
    have "trs_res_get_max_id (ts1\<lparr>ct_stream_ctx := x\<rparr>) TRS_STREAM = trs_res_get_max_id ts1 TRS_STREAM" for x
      by (simp add: trs_res_get_max_id_def)
    then show ?thesis using assms(1,3) i True F
      by (auto simp: trs_res_mng_init_def trs_res_stream_init_def trs_res_mng_uninit_def trs_res_stream_uninit_def Let_def split: if_splits)
  qed
qed


definition demo_init_ts :: "(unit, unit) trs_core_ts_inst" where
  "demo_init_ts = demo_leak_ts\<lparr>ct_res_mng := (\<lambda>ty. \<lparr>rm_res_type = 0, rm_id_num = 0, rm_max_id = 0, rm_use_num = 0, rm_ids = None\<rparr>)\<rparr>"

definition demo_init_ids :: "unit trs_ids" where
  "demo_init_ids =
     \<lparr>ts_table = [TrsIdIdx 0 TRS_LOGIC_CQ_ID \<mapsto> 7],
      ts_heap = [7 \<mapsto> \<lparr>tp_inst = \<lparr>ti_devid = 0, ti_tsid = 0\<rparr>, tp_type = TRS_LOGIC_CQ_ID,
        tp_attr = \<lparr>ta_id_start = 2, ta_id_end = 5, ta_id_num = 3, ta_batch_num = 0, ta_split = 0\<rparr>,
        tp_allocatable_num = 3, tp_alloc_num = 0, tp_head = [2, 3, 4], tp_ops = no_ops, tp_ref = 1\<rparr>],
      ts_back = ()\<rparr>"

lemma demo_init:
  "map_option (\<lambda>(ret, ts', ids'). (ret, rm_max_id (ct_res_mng ts' TRS_LOGIC_CQ)))
     (trs_res_mng_init (\<lambda>_. (True, True)) (\<lambda>_. True) True demo_init_ts demo_init_ids) = Some (0, 5)"
  by code_simp

theorem trs_res_mng_init_spec_witness:
  "\<exists>ts' ids'. trs_res_mng_init (\<lambda>_. (True, True)) (\<lambda>_. True) True demo_init_ts demo_init_ids = Some (0, ts', ids') \<and>
     res_mng_fresh (ct_res_mng ts' TRS_LOGIC_CQ) \<and> rm_max_id (ct_res_mng ts' TRS_LOGIC_CQ) = 5"
proof -
  obtain ts' ids' where i: "trs_res_mng_init (\<lambda>_. (True, True)) (\<lambda>_. True) True demo_init_ts demo_init_ids = Some (0, ts', ids')"
    "rm_max_id (ct_res_mng ts' TRS_LOGIC_CQ) = 5" using demo_init by auto
  have "ct_stream_ctx demo_init_ts = None"
    "\<forall>ty. 0 \<le> ty \<and> ty < TRS_CORE_MAX_ID_TYPE \<longrightarrow> rm_ids (ct_res_mng demo_init_ts ty) = None \<and> rm_use_num (ct_res_mng demo_init_ts ty) = 0"
    by (simp_all add: demo_init_ts_def demo_leak_ts_def)
  from trs_res_mng_init_spec [OF i(1) this] i show ?thesis by auto
qed

end
