(* ===== verification/Trs_Pool_Source.thy ===== *)
theory Trs_Pool_Source
  imports Trs_Res_Mng
begin

text \<open>
  A registered pool of the id allocator as an id source of the resource manager. What allocation and release do to a
  pool object is the contract \<open>pool_source\<close>; that the allocator finds the pool in its table, counts the reference and puts
  it back is the same for every kind of pool, and is done here once.
\<close>

declare split_paired_All [simp del] split_paired_Ex [simp del]

definition registered ::
    "('s \<Rightarrow> 's trs_id_pool \<Rightarrow> u32 set \<Rightarrow> bool) \<Rightarrow> trs_id_inst \<Rightarrow> int \<Rightarrow> 's trs_ids \<Rightarrow> u32 set \<Rightarrow> bool" where
  "registered good inst ty st out \<longleftrightarrow>
     (\<exists>H a p. trs_ids_inv st H \<and> trs_id_param_check (Some inst) ty = 0 \<and>
        ts_table st (trs_id_key inst ty) = Some a \<and> ts_heap st a = Some p \<and> good (ts_back st) p out)"

text \<open>Without the reference on the module the pool is not looked for.\<close>

lemma registered_nomod:
  "registered good inst ty st out \<Longrightarrow> trs_id_with_pool False st (Some inst) ty nopool body = Some (nopool, st)"
  by (auto simp: registered_def trs_id_with_pool_def trs_id_pool_get_def)

text \<open>\<open>good s p out\<close>: with the state \<open>s\<close> of the backend, exactly the ids \<open>out\<close> are allocated from the pool \<open>p\<close>.\<close>

locale pool_source =
  fixes good :: "'s \<Rightarrow> 's trs_id_pool \<Rightarrow> u32 set \<Rightarrow> bool" and inst :: trs_id_inst and ty :: int and lim :: u32
  assumes good_ok: "good s p out \<Longrightarrow> trs_id_pool_ok p"
    and good_ref: "good s (p\<lparr>tp_ref := n\<rparr>) out = good s p out"
    and pool_alloc_law: "good s p out \<Longrightarrow>
      \<exists>ret r p' s'. trs_id_pool_alloc kmem p s = Some (ret, r, p', s') \<and> trs_id_pool_frame p p' \<and>
        good s' p' (out \<union> set_option r) \<and> (case r of None \<Rightarrow> ret \<noteq> 0 | Some i \<Rightarrow> ret = 0 \<and> i \<notin> out \<and> i < lim)"
    and pool_free_law: "good s p out \<Longrightarrow> i \<in> out \<Longrightarrow>
      \<exists>ret p' s'. trs_id_pool_free fmem p s i = Some (ret, p', s') \<and> trs_id_pool_frame p p' \<and>
        good s' p' (if ret = 0 then out - {i} else out)"
begin

lemma pool_work:
  assumes inv: "trs_ids_inv st H" "trs_id_param_check (Some inst) ty' = 0" "ts_table st (trs_id_key inst ty') = Some a"
      "ts_heap st a = Some p"
    and b: "body (p\<lparr>tp_ref := tp_ref p + 1\<rparr>) (ts_back st) = Some (r, p', s')" "trs_id_pool_frame (p\<lparr>tp_ref := tp_ref p + 1\<rparr>) p'"
      "good s' p' out"
  obtains st' where "trs_id_with_pool True st (Some inst) ty' nopool body = Some (r, st')" "registered good inst ty' st' out"
proof -
  let ?q = "p'\<lparr>tp_ref := tp_ref p\<rparr>"
  let ?st = "st\<lparr>ts_heap := (ts_heap st)(a \<mapsto> ?q), ts_back := s'\<rparr>"
  have fr: "trs_id_pool_frame p ?q" using b(2) by (simp add: trs_id_pool_frame_def)
  have g: "good s' ?q out" using b(3) by (simp add: good_ref)
  have "trs_id_with_pool True st (Some inst) ty' nopool body = Some (r, ?st)"
    by (rule with_pool_effect [where body = body, OF inv b(1)]) (use b(2) in \<open>simp add: trs_id_pool_frame_def\<close>)
  moreover have "trs_ids_inv ?st H" by (rule pool_work_inv [OF inv(1,4) good_ok [OF g] fr])
  then have "registered good inst ty' ?st out"
    unfolding registered_def using inv(2,3) g by (intro exI [of _ H] exI [of _ a] exI [of _ ?q]) simp
  ultimately show thesis by (rule that)
qed

lemma registered_alloc:
  assumes "registered good inst ty' st out"
  shows "\<exists>ret r st'. trs_id_alloc modok kmem st (Some inst) ty' True = Some ((ret, r), st') \<and>
    registered good inst ty' st' (out \<union> set_option r) \<and> (case r of None \<Rightarrow> ret \<noteq> 0 | Some i \<Rightarrow> ret = 0 \<and> i \<notin> out \<and> i < lim)"
proof (cases modok)
  case False
  then have "trs_id_alloc modok kmem st (Some inst) ty' True = Some ((- EFAULT, None), st)"
    using registered_nomod [OF assms] by (simp add: trs_id_alloc_def)
  then show ?thesis using assms by simp
next
  case True
  obtain H a p where I: "trs_ids_inv st H" "trs_id_param_check (Some inst) ty' = 0" "ts_table st (trs_id_key inst ty') = Some a"
    "ts_heap st a = Some p" and g: "good (ts_back st) p out" using assms unfolding registered_def by blast
  let ?p = "p\<lparr>tp_ref := tp_ref p + 1\<rparr>"
  let ?body = "\<lambda>p s. if True then map_option (\<lambda>(ret, i, p', s'). ((ret, i), p', s')) (trs_id_pool_alloc kmem p s)
      else Some ((- EFAULT, None), p, s)"
  have "good (ts_back st) ?p out" using g by (simp add: good_ref)
  then obtain ret r p' s' where A: "trs_id_pool_alloc kmem ?p (ts_back st) = Some (ret, r, p', s')" "trs_id_pool_frame ?p p'"
    "good s' p' (out \<union> set_option r)" "case r of None \<Rightarrow> ret \<noteq> 0 | Some i \<Rightarrow> ret = 0 \<and> i \<notin> out \<and> i < lim"
    using pool_alloc_law by blast
  have "?body ?p (ts_back st) = Some ((ret, r), p', s')" using A(1) by simp
  then obtain st' where "trs_id_alloc True kmem st (Some inst) ty' True = Some ((ret, r), st')" "registered good inst ty' st' (out \<union> set_option r)"
    unfolding trs_id_alloc_def by (rule pool_work [OF I, where body = ?body, OF _ A(2,3)])
  then show ?thesis using True A(4) by (intro exI [of _ ret] exI [of _ r] exI [of _ st']) simp
qed

lemma registered_free:
  assumes "registered good inst ty' st out" "i \<in> out"
  shows "\<exists>ret st'. trs_id_free modok fmem st (Some inst) ty' i = Some (ret, st') \<and>
    registered good inst ty' st' (if ret = 0 then out - {i} else out)"
proof (cases modok)
  case False
  then have "trs_id_free modok fmem st (Some inst) ty' i = Some (- ENODEV, st)"
    using registered_nomod [OF assms(1)] by (simp add: trs_id_free_def)
  then show ?thesis using assms(1) by simp
next
  case True
  obtain H a p where I: "trs_ids_inv st H" "trs_id_param_check (Some inst) ty' = 0" "ts_table st (trs_id_key inst ty') = Some a"
    "ts_heap st a = Some p" and g: "good (ts_back st) p out" using assms(1) unfolding registered_def by blast
  let ?p = "p\<lparr>tp_ref := tp_ref p + 1\<rparr>"
  have "good (ts_back st) ?p out" using g by (simp add: good_ref)
  then obtain ret p' s' where A: "trs_id_pool_free fmem ?p (ts_back st) i = Some (ret, p', s')" "trs_id_pool_frame ?p p'"
    "good s' p' (if ret = 0 then out - {i} else out)"
    using pool_free_law [OF _ assms(2)] by blast
  obtain st' where "trs_id_free True fmem st (Some inst) ty' i = Some (ret, st')" "registered good inst ty' st' (if ret = 0 then out - {i} else out)"
    unfolding trs_id_free_def by (rule pool_work [OF I, where body = "\<lambda>p s. trs_id_pool_free fmem p s i", OF A])
  then show ?thesis using True by (intro exI [of _ ret] exI [of _ st']) simp
qed

end

sublocale pool_source \<subseteq> psrc: id_source "registered good inst (trs_res_get_id_type ty)" inst ty lim
  by unfold_locales (use registered_alloc registered_free in blast)+

end
