(* ===== verification/Trs_Device_Res.thy ===== *)
theory Trs_Device_Res
  imports Trs_Device_Id Trs_Pool_Source
begin

text \<open>
  Resource ids on a device: the ownership tables over the id allocator over the id pools. The allocator
  with the device adapter is an id source of the resource manager, so that what holds of the tables over
  any id source holds of the composed system.
\<close>

section \<open>The device allocator is an id source\<close>

text \<open>
  \<open>device_holds ida sync inst ty lim st out\<close>: the pool of the type is registered over the id pools, caches ids,
  and exactly the ids \<open>out\<close>, all below \<open>lim\<close>, are allocated from it.
\<close>

definition device_holds ::
    "idr_alloc \<Rightarrow> sync_id_proc option \<Rightarrow> trs_id_inst \<Rightarrow> int \<Rightarrow> u32 \<Rightarrow> id_pools trs_ids \<Rightarrow> u32 set \<Rightarrow> bool" where
  "device_holds ida sync inst ty lim st out \<longleftrightarrow>
     (\<exists>H a p. trs_ids_inv st H \<and> trs_id_param_check (Some inst) ty = 0 \<and>
        ts_table st (trs_id_key inst ty) = Some a \<and> ts_heap st a = Some p \<and> \<not> trs_id_non_cache p \<and>
        uses_backend (trs_device_alloc_id_batch ida sync) trs_device_free_id_batch inst ty p \<and>
        device_inv ida sync inst ty (ts_back st) \<and> cached_inv (device_owned inst ty (ts_back st)) p out \<and>
        out \<subseteq> trs_id_range p \<and> trs_id_range p \<subseteq> {i. i < lim})"

lemma set_ref_simps [simp]:
  "trs_id_non_cache (p\<lparr>tp_ref := n\<rparr>) = trs_id_non_cache p"
  "uses_backend ab fb inst ty (p\<lparr>tp_ref := n\<rparr>) = uses_backend ab fb inst ty p"
  "cached_inv own (p\<lparr>tp_ref := n\<rparr>) out = cached_inv own p out"
  "trs_id_range (p\<lparr>tp_ref := n\<rparr>) = trs_id_range p"
  by (simp_all add: trs_id_non_cache_def uses_backend_def cached_inv_def trs_id_range_def split: option.split)

lemma non_cache_frame: "trs_id_pool_frame p q \<Longrightarrow> trs_id_non_cache q = trs_id_non_cache p"
  by (simp add: trs_id_non_cache_def trs_id_pool_frame_def split: option.split)

text \<open>The part of \<open>device_holds\<close> about the pool object and the backend.\<close>

definition device_good ::
    "idr_alloc \<Rightarrow> sync_id_proc option \<Rightarrow> trs_id_inst \<Rightarrow> int \<Rightarrow> u32 \<Rightarrow> id_pools \<Rightarrow> id_pools trs_id_pool \<Rightarrow> u32 set \<Rightarrow> bool" where
  "device_good ida sync inst ty lim s p out \<longleftrightarrow>
     \<not> trs_id_non_cache p \<and> uses_backend (trs_device_alloc_id_batch ida sync) trs_device_free_id_batch inst ty p \<and>
     device_inv ida sync inst ty s \<and> cached_inv (device_owned inst ty s) p out \<and>
     out \<subseteq> trs_id_range p \<and> trs_id_range p \<subseteq> {i. i < lim}"

lemma device_holds_registered: "device_holds ida sync inst ty lim = registered (device_good ida sync inst ty lim) inst ty"
  by (simp add: fun_eq_iff device_holds_def registered_def device_good_def)

lemmas device_holds_nomod = registered_nomod [of "device_good ida sync inst ty lim" inst ty, folded device_holds_registered]
  for ida sync inst ty lim

lemma device_good_frame:
  assumes "device_good ida sync inst ty lim s p out" "trs_id_pool_frame p p'" "device_inv ida sync inst ty s'"
    "cached_inv (device_owned inst ty s') p' out'" "out' \<subseteq> trs_id_range p"
  shows "device_good ida sync inst ty lim s' p' out'"
  using assms non_cache_frame [OF assms(2)] range_frame [OF assms(2)] uses_backend_mono [OF assms(2)]
  by (simp add: device_good_def)

interpretation dpool: pool_source "device_good ida sync inst (trs_res_get_id_type ty) lim" inst ty lim
  for ida sync inst ty lim
proof unfold_locales
  let ?ty = "trs_res_get_id_type ty"
  show "device_good ida sync inst ?ty lim s p out \<Longrightarrow> trs_id_pool_ok p" for s p out
    using uses_backend_ok by (auto simp: device_good_def)
  show "device_good ida sync inst ?ty lim s (p\<lparr>tp_ref := n\<rparr>) out = device_good ida sync inst ?ty lim s p out" for s p n out
    by (simp add: device_good_def)
  fix s p out assume g: "device_good ida sync inst ?ty lim s p out"
  then have P: "device_inv ida sync inst ?ty s" "uses_backend (trs_device_alloc_id_batch ida sync) trs_device_free_id_batch inst ?ty p"
    "cached_inv (device_owned inst ?ty s) p out" "\<not> trs_id_non_cache p" "out \<subseteq> trs_id_range p" "trs_id_range p \<subseteq> {i. i < lim}"
    by (auto simp: device_good_def)
  show "\<exists>ret r p' s'. trs_id_pool_alloc kmem p s = Some (ret, r, p', s') \<and> trs_id_pool_frame p p' \<and>
      device_good ida sync inst ?ty lim s' p' (out \<union> set_option r) \<and>
      (case r of None \<Rightarrow> ret \<noteq> 0 | Some i \<Rightarrow> ret = 0 \<and> i \<notin> out \<and> i < lim)" for kmem
  proof -
    from dev.pool_alloc_inv [OF P(1-3), of kmem] P(4) obtain ret r p' s' where
      A: "trs_id_pool_alloc kmem p s = Some (ret, r, p', s')" "device_inv ida sync inst ?ty s'" "trs_id_pool_frame p p'"
        "cached_inv (device_owned inst ?ty s') p' (out \<union> set_option r)"
        "case r of None \<Rightarrow> ret = - ENOSPC | Some i \<Rightarrow> ret = 0 \<and> i \<notin> out" "set_option r \<subseteq> trs_id_range p" by auto
    have "device_good ida sync inst ?ty lim s' p' (out \<union> set_option r)"
      by (rule device_good_frame [OF g A(3,2,4)]) (use P(5) A(6) in blast)
    moreover have "case r of None \<Rightarrow> ret \<noteq> 0 | Some i \<Rightarrow> ret = 0 \<and> i \<notin> out \<and> i < lim" using A(5,6) P(6) by (cases r) auto
    ultimately show ?thesis using A(1,3) by blast
  qed
  show "\<exists>ret p' s'. trs_id_pool_free fmem p s i = Some (ret, p', s') \<and> trs_id_pool_frame p p' \<and>
      device_good ida sync inst ?ty lim s' p' (if ret = 0 then out - {i} else out)" if i: "i \<in> out" for i fmem
  proof -
    from dev.pool_free_inv [OF P(1-3) i, of fmem] P(5) i obtain p' s' where
      A: "trs_id_pool_free fmem p s i = Some (0, p', s')" "device_inv ida sync inst ?ty s'" "trs_id_pool_frame p p'"
        "cached_inv (device_owned inst ?ty s') p' (out - {i})" by auto
    have "device_good ida sync inst ?ty lim s' p' (out - {i})"
      by (rule device_good_frame [OF g A(3,2,4)]) (use P(5) in blast)
    then show ?thesis using A(1,3) by auto
  qed
qed

interpretation dsrc: id_source "device_holds ida sync inst (trs_res_get_id_type ty) lim" inst ty lim
  for ida sync inst ty lim
  unfolding device_holds_registered by (rule dpool.psrc.id_source_axioms)

section \<open>Demonstration data\<close>

text \<open>Events of device 0: the id pools hold the ids 2 to 9, the allocator pool is registered and empty.\<close>

definition demo_ev_pools :: id_pools where
  "demo_ev_pools = demo_pools(id_pool_key demo_inst 1 \<mapsto> demo_pool\<lparr>ip_type := 1\<rparr>)"

definition demo_ev_pool :: "id_pools trs_id_pool" where
  "demo_ev_pool = (demo_dev_pool 0)\<lparr>tp_type := TRS_EVENT_ID\<rparr>"

definition demo_ev_ids :: "id_pools trs_ids" where
  "demo_ev_ids = \<lparr>ts_table = [trs_id_key demo_id_inst TRS_EVENT_ID \<mapsto> 7], ts_heap = [7 \<mapsto> demo_ev_pool], ts_back = demo_ev_pools\<rparr>"

definition demo_core_ops :: "(id_pools, unit) trs_core_adapt_ops" where
  "demo_core_ops =
     \<lparr>ao_res_id_check = None, ao_id_alloc = (\<lambda>_. None), ao_id_free = (\<lambda>_. None), ao_notice_ts = (\<lambda>h _ _. (0, 0, h)),
      ao_res_id_ctrl = None, ao_res_id_query = None, ao_get_res_reg_offset = (\<lambda>_ _ _ _. (0, 0)),
      ao_get_res_reg_total_size = (\<lambda>_ _ _. (0, 0))\<rparr>"

definition demo_res_mng :: trs_res_mng where
  "demo_res_mng =
     \<lparr>rm_res_type = TRS_EVENT, rm_id_num = 8, rm_max_id = 10, rm_use_num = 0,
      rm_ids = Some (replicate 10 \<lparr>ri_status = 0, ri_task_id = 0, ri_pid = 0, ri_ref = 0\<rparr>)\<rparr>"

definition demo_core_ts :: "(id_pools, unit) trs_core_ts_inst" where
  "demo_core_ts =
     \<lparr>ct_hw_type = 1, ct_featur_mode = 0, ct_surport_proc_num = 0, ct_inst = demo_id_inst, ct_ops = demo_core_ops,
      ct_cur_task_id = 5, ct_proc_list = [], ct_exit_proc_list = [], ct_res_mng = (\<lambda>_. demo_res_mng), ct_stream_ctx = None\<rparr>"

definition demo_res_w :: "(id_pools, unit) trs_res_w" where
  "demo_res_w = \<lparr>rw_ids = demo_ev_ids, rw_hw = (), rw_sent = []\<rparr>"

abbreviation demo_holds :: "id_pools trs_ids \<Rightarrow> u32 set \<Rightarrow> bool" where
  "demo_holds \<equiv> device_holds idr_lowest None demo_id_inst TRS_EVENT_ID 10"

lemma demo_ev_pools_inv: "id_pools_inv demo_ev_pools"
proof -
  have "id_pool_inv (demo_pool\<lparr>ip_type := 1\<rparr>)"
    by (simp add: id_pool_inv_def nodes_ok_def pn_ok_def pn_end_def demo_defs)
  moreover have "id_pool_key demo_inst 1 = IdPoolIdx (ip_phy_devid demo_pool) (ip_sub_id demo_pool) 1"
    by (simp add: demo_defs)
  ultimately show ?thesis using demo_inv by (auto simp: id_pools_inv_def demo_ev_pools_def)
qed

lemma demo_ev_register:
  "trs_id_register True (\<lambda>_. True) 7 \<lparr>ts_table = Map.empty, ts_heap = Map.empty, ts_back = demo_ev_pools\<rparr> (Some demo_id_inst) TRS_EVENT_ID
     (Some demo_dev_attr) (Some (trs_device_ops idr_lowest None)) = Some (0, demo_ev_ids)"
  by (simp add: trs_id_register_def trs_id_param_check_def trs_id_inst_check_def trs_id_type_check_def trs_id_attr_check_def
      trs_id_pool_create_def trs_id_pool_add_def demo_ev_ids_def demo_ev_pool_def demo_dev_pool_def demo_dev_attr_def demo_id_attr_def
      demo_id_inst_def Let_def)

lemma demo_ev_inv: "trs_ids_inv demo_ev_ids {#}"
proof -
  have e: "trs_ids_inv \<lparr>ts_table = Map.empty, ts_heap = Map.empty, ts_back = demo_ev_pools\<rparr> {#}"
    by (simp add: trs_ids_inv_def)
  have "trs_id_reg_ok TRS_EVENT_ID (Some (trs_device_ops idr_lowest None))"
    by (simp add: trs_id_reg_ok_def trs_device_ops_def trs_id_ops_ok_def)
  then show ?thesis using trs_register_inv [OF e, of 7 TRS_EVENT_ID "Some (trs_device_ops idr_lowest None)" True "\<lambda>_. True"
      "Some demo_id_inst" "Some demo_dev_attr"] demo_ev_register by simp
qed

lemma demo_ev_holds: "demo_holds demo_ev_ids {}"
proof -
  have r: "trs_id_range demo_ev_pool = {2 ..< 10}"
    by (simp add: trs_id_range_def demo_ev_pool_def demo_dev_pool_def demo_dev_attr_def demo_id_attr_def)
  have "device_inv idr_lowest None demo_id_inst TRS_EVENT_ID demo_ev_pools"
    by (simp add: device_inv_def idr_lowest_ok sync_ok_def demo_ev_pools_inv trs_id_is_local_type_def demo_dev_inst
        id_pool_inst_check_def demo_inst_def id_pool_inst_pack_def)
  moreover have "device_owned demo_id_inst TRS_EVENT_ID demo_ev_pools = {}"
    by (simp add: device_owned_def demo_dev_inst id_pool_at_def demo_ev_pools_def id_pool_used_def demo_pool_def demo_node_def)
  moreover have "trs_id_param_check (Some demo_id_inst) TRS_EVENT_ID = 0"
    by (simp add: trs_id_param_check_def trs_id_inst_check_def trs_id_type_check_def demo_id_inst_def)
  moreover have "uses_backend (trs_device_alloc_id_batch idr_lowest None) trs_device_free_id_batch demo_id_inst TRS_EVENT_ID demo_ev_pool"
    "\<not> trs_id_non_cache demo_ev_pool" "cached_inv {} demo_ev_pool {}"
    by (simp_all add: uses_backend_def trs_id_non_cache_def cached_inv_def demo_ev_pool_def demo_dev_pool_def demo_dev_attr_def
        demo_id_attr_def trs_device_ops_def trs_device_id_is_non_cache_type_def)
  ultimately show ?thesis unfolding device_holds_def using demo_ev_inv r
    by (intro exI [of _ "{#}"] exI [of _ 7] exI [of _ demo_ev_pool]) (auto simp: demo_ev_ids_def)
qed

lemma demo_res_state: "res_state demo_holds demo_id_inst 10 TRS_EVENT demo_core_ts Map.empty demo_res_w {} (\<lambda>_. 0)"
proof -
  have "res_table demo_res_mng (replicate 10 \<lparr>ri_status = 0, ri_task_id = 0, ri_pid = 0, ri_ref = 0\<rparr>) (\<lambda>_. 0)"
    by (simp add: res_table_def demo_res_mng_def entry_ok_def res_owned_def)
  then have "res_inv TRS_EVENT demo_core_ts Map.empty {} (\<lambda>_. 0)"
    unfolding res_inv_def
    by (intro conjI exI [of _ "replicate 10 \<lparr>ri_status = 0, ri_task_id = 0, ri_pid = 0, ri_ref = 0\<rparr>"])
      (simp_all add: demo_core_ts_def procs_ok_def)
  then show ?thesis using demo_ev_holds
    by (simp add: res_state_def demo_core_ts_def demo_core_ops_def demo_res_mng_def demo_res_w_def)
qed

definition demo_proc :: trs_proc_ctx where
  "demo_proc = the (fst (trs_proc_ctx_create True 42 demo_core_ts))"

definition demo_core_ts1 :: "(id_pools, unit) trs_core_ts_inst" where
  "demo_core_ts1 = snd (trs_proc_ctx_create True 42 demo_core_ts)"

lemma demo_res_reach: "res_reach demo_holds demo_id_inst 10 TRS_EVENT demo_core_ts1 [0 \<mapsto> demo_proc] demo_res_w (\<lambda>_. 0)"
proof (rule rr_open [OF rr_start [OF demo_res_state]])
  show "trs_proc_ctx_create True 42 demo_core_ts = (Some demo_proc, demo_core_ts1)"
    by (simp add: demo_proc_def demo_core_ts1_def trs_proc_ctx_create_def)
  show "\<forall>i x. res_entry demo_core_ts TRS_EVENT i = Some x \<longrightarrow> ri_task_id x \<noteq> pc_task_id demo_proc \<or> ri_pid x \<noteq> 42"
    by (auto simp: res_entry_def res_ids_at_def demo_core_ts_def demo_res_mng_def split: if_splits)
qed simp_all

abbreviation demo_ev_source :: "id_pools trs_ids \<Rightarrow> u32 set \<Rightarrow> bool" where
  "demo_ev_source \<equiv> device_holds idr_lowest None demo_id_inst (trs_res_get_id_type TRS_EVENT) 10"

lemma demo_ev_reach: "res_reach demo_ev_source demo_id_inst 10 TRS_EVENT demo_core_ts1 [0 \<mapsto> demo_proc] demo_res_w (\<lambda>_. 0)"
proof -
  have "trs_res_get_id_type TRS_EVENT = TRS_EVENT_ID" by (simp add: trs_res_get_id_type_def)
  then show ?thesis using demo_res_reach by simp
qed

definition demo_env :: trs_res_env where
  "demo_env = \<lparr>en_modok = True, en_mem = (\<lambda>_. True), en_fmodok = True, en_fmem = True, en_stack = 5\<rparr>"

definition demo_para :: trs_res_id_para where
  "demo_para = \<lparr>rp_tsid = 0, rp_res_type = TRS_EVENT, rp_id = 0, rp_para = 0, rp_prop = 0, rp_value = (0, 0)\<rparr>"

lemma entry_ref:
  assumes "res_inv ty ts procs out g" "res_entry ts ty i = Some x"
  shows "ri_ref x = (if res_owned x then 1 else 0) + int (g (unat i))" "ri_ref x \<noteq> 0 \<longrightarrow> i \<in> out"
proof -
  from assms(1) obtain xs where I: "res_table (ct_res_mng ts ty) xs g"
    "\<And>k. k < length xs \<Longrightarrow> res_live (xs ! k) \<Longrightarrow> of_nat k \<in> out" by (rule res_invE) blast
  have k: "unat i < length xs" "x = xs ! unat i"
    using assms(2) I(1) by (auto simp: res_entry_def res_ids_at_def res_table_def split: if_splits)
  then show "ri_ref x = (if res_owned x then 1 else 0) + int (g (unat i))" "ri_ref x \<noteq> 0 \<longrightarrow> i \<in> out"
    using table_at(3) [OF I(1) k(1)] I(2) [OF k(1)] by (simp_all add: entry_ok_def)
qed

section \<open>Properties\<close>

text \<open>
  C12. Reference counting of resource ids on a device, over any interleaving of opens, closes, allocations,
  releases, gets, puts and recycling by any number of processes: the count of an entry is one for an owner
  that has not released it plus one for every user, an entry with references is an id that is still
  allocated in the device's id allocator (so that nobody else can be given it), and the number of entries
  in use is exact.
\<close>

theorem res_ids_refcount_safe:
  assumes "res_reach (device_holds ida sync inst (trs_res_get_id_type ty) lim) inst lim ty ts procs w g"
  shows "\<exists>out. device_holds ida sync inst (trs_res_get_id_type ty) lim (rw_ids w) out \<and>
    (\<forall>i x. res_entry ts ty i = Some x \<longrightarrow>
       ri_ref x = (if res_owned x then 1 else 0) + int (g (unat i)) \<and> (ri_ref x \<noteq> 0 \<longrightarrow> i \<in> out)) \<and>
    rm_use_num (ct_res_mng ts ty) = of_nat (length (filter (\<lambda>x. ri_ref x \<noteq> 0) (the (rm_ids (ct_res_mng ts ty)))))"
proof -
  obtain out where st: "res_state (device_holds ida sync inst (trs_res_get_id_type ty) lim) inst lim ty ts procs w out g"
    using dsrc.reach_state [OF assms] by blast
  note inv = res_state_procs [OF st]
  from inv obtain xs where "res_table (ct_res_mng ts ty) xs g" by (rule res_invE) blast
  moreover have "device_holds ida sync inst (trs_res_get_id_type ty) lim (rw_ids w) out" using st by (simp add: res_state_def)
  ultimately show ?thesis using entry_ref [OF inv] by (intro exI [of _ out]) (simp add: res_table_def)
qed

theorem res_ids_refcount_safe_witness:
  "\<exists>out. device_holds idr_lowest None demo_id_inst (trs_res_get_id_type TRS_EVENT) 10 (rw_ids demo_res_w) out \<and>
     rm_use_num (ct_res_mng demo_core_ts1 TRS_EVENT) =
       of_nat (length (filter (\<lambda>x. ri_ref x \<noteq> 0) (the (rm_ids (ct_res_mng demo_core_ts1 TRS_EVENT)))))"
  using res_ids_refcount_safe [OF demo_ev_reach] by blast

text \<open>
  C13. Allocation of a resource id in any reachable state, every outcome: on success the id had no owner and
  no user, lies below the limit, and is now owned by the calling process with a single reference; otherwise
  the tables and the process are as before. The checks of \<^verbatim>\<open>trs_proc_add_res\<close> never fail.
\<close>

theorem res_id_alloc_fresh:
  assumes "res_reach (device_holds ida sync inst (trs_res_get_id_type ty) lim) inst lim ty ts procs w g"
    "procs a = Some c" "rp_res_type para = ty"
  shows "\<exists>ret c' ts' w' para'. trs_res_id_alloc env c ts w para = Some (ret, c', ts', w', para') \<and>
    (if ret = 0
     then (\<exists>x. res_entry ts ty (rp_id para') = Some x \<and> ri_pid x = 0) \<and> g (unat (rp_id para')) = 0 \<and> rp_id para' < lim \<and>
          res_entry ts' ty (rp_id para') =
            Some \<lparr>ri_status = RES_STATUS_NORMAL, ri_task_id = pc_task_id c, ri_pid = pc_pid c, ri_ref = 1\<rparr>
     else c' = c \<and> ct_res_mng ts' = ct_res_mng ts)"
proof -
  obtain out where st: "res_state (device_holds ida sync inst (trs_res_get_id_type ty) lim) inst lim ty ts procs w out g"
    using dsrc.reach_state [OF assms(1)] by blast
  show ?thesis by (rule dsrc.alloc_state [OF st assms(2,3), of env]) auto
qed

theorem res_id_alloc_fresh_witness:
  "\<exists>ret c' ts' w' para'. trs_res_id_alloc demo_env demo_proc demo_core_ts1 demo_res_w demo_para = Some (ret, c', ts', w', para') \<and>
     (ret = 0 \<longrightarrow> rp_id para' < 10)"
  using res_id_alloc_fresh [OF demo_ev_reach, of 0 demo_proc demo_para demo_env] by (auto simp: demo_para_def split: if_splits)

text \<open>
  Release by the owner in any reachable state: the entry loses its owner, no other entry changes, and its
  references are exactly the remaining users, so that the id goes back to the allocator now when there are
  none and with the last put otherwise. A process that does not own the id gets \<^verbatim>\<open>-EINVAL\<close> and changes nothing.
\<close>

theorem res_id_free_spec:
  assumes "res_reach (device_holds ida sync inst (trs_res_get_id_type ty) lim) inst lim ty ts procs w g" "procs a = Some c"
  shows "if trs_proc_has_res c ts ty i = Some True
    then \<exists>c' ts' w' y. trs_res_id_free0 env c ts w ty i = Some (0, c', ts', w') \<and> res_entry ts' ty i = Some y \<and>
      \<not> res_owned y \<and> ri_ref y = int (g (unat i)) \<and> (g (unat i) = 0 \<longrightarrow> ri_pid y = 0) \<and>
      (\<forall>j. j \<noteq> i \<longrightarrow> res_entry ts' ty j = res_entry ts ty j)
    else trs_res_id_free0 env c ts w ty i = Some (- EINVAL, c, ts, w)"
proof -
  obtain out where st: "res_state (device_holds ida sync inst (trs_res_get_id_type ty) lim) inst lim ty ts procs w out g"
    using dsrc.reach_state [OF assms(1)] by blast
  show ?thesis
  proof (cases "trs_proc_has_res c ts ty i = Some True")
    case True
    with dsrc.free_state [OF st assms(2), of i env] obtain c' ts' w' out' y where
      f: "trs_res_id_free0 env c ts w ty i = Some (0, c', ts', w')"
        "res_state (device_holds ida sync inst (trs_res_get_id_type ty) lim) inst lim ty ts' (procs(a \<mapsto> c')) w' out' g"
        "res_entry ts' ty i = Some y" "\<not> res_owned y" "g (unat i) = 0 \<longrightarrow> ri_pid y = 0"
        "\<forall>j. j \<noteq> i \<longrightarrow> res_entry ts' ty j = res_entry ts ty j" by auto
    have "ri_ref y = int (g (unat i))" using entry_ref [OF res_state_procs [OF f(2)] f(3)] f(4) by simp
    then show ?thesis using True f by auto
  next
    case False
    then show ?thesis using dsrc.free_state [OF st assms(2), of i env] by simp
  qed
qed

theorem res_id_free_spec_witness:
  "trs_res_id_free0 demo_env demo_proc demo_core_ts1 demo_res_w TRS_EVENT 3 = Some (- EINVAL, demo_proc, demo_core_ts1, demo_res_w)"
proof -
  have "trs_proc_has_res demo_proc demo_core_ts1 TRS_EVENT 3 \<noteq> Some True"
    by (simp add: trs_proc_has_res_def trs_is_res_pid_match_def res_mng_at_def res_ids_at_def trs_is_id_pid_match_def demo_core_ts1_def
        trs_proc_ctx_create_def demo_core_ts_def demo_res_mng_def demo_proc_def)
  then show ?thesis using res_id_free_spec [OF demo_ev_reach, of 0 demo_proc 3 demo_env] by simp
qed

text \<open>
  C14. Recycling at the exit of a process always ends and is complete: afterwards the process owns no id of the
  type, whatever the loop's early exit does, its count is zero, and it keeps its identity.
\<close>

theorem res_recycle_complete:
  assumes "res_reach (device_holds ida sync inst (trs_res_get_id_type ty) lim) inst lim ty ts procs w g" "procs a = Some c"
  shows "\<exists>c' ts' w'. trs_for_each_proc_res_id (trs_res_id_recycle env) ty c ts w = Some (c', ts', w') \<and>
    trs_get_proc_res_num c' (ti_tsid inst) ty = 0 \<and> pc_pid c' = pc_pid c \<and>
    (\<forall>i x. res_entry ts' ty i = Some x \<longrightarrow> \<not> trs_is_id_pid_match x (pc_pid c) (pc_task_id c))"
proof -
  obtain out where st: "res_state (device_holds ida sync inst (trs_res_get_id_type ty) lim) inst lim ty ts procs w out g"
    using dsrc.reach_state [OF assms(1)] by blast
  from dsrc.recycle_state [OF st assms(2), of env] show ?thesis unfolding proc_match_def by blast
qed

theorem res_recycle_complete_witness:
  "\<exists>c' ts' w'. trs_for_each_proc_res_id (trs_res_id_recycle demo_env) TRS_EVENT demo_proc demo_core_ts1 demo_res_w = Some (c', ts', w') \<and>
     trs_get_proc_res_num c' (ti_tsid demo_id_inst) TRS_EVENT = 0"
  using res_recycle_complete [OF demo_ev_reach, of 0 demo_proc demo_env] by auto

text \<open>
  C15. The process that the event and notify messages of allocation and release name is always 0: the message
  of an allocation is sent before the owner is entered, that of a release after it has been removed.
\<close>

theorem res_messages_name_no_process:
  assumes "res_reach (device_holds ida sync inst (trs_res_get_id_type ty) lim) inst lim ty ts procs w g" "procs a = Some c"
  shows "(rp_res_type para = ty \<longrightarrow> trs_res_id_alloc env c ts w para = Some (ret, c', ts', w', para') \<longrightarrow>
      (\<exists>ms. rw_sent w' = rw_sent w @ ms \<and> (\<forall>m \<in> set ms. res_msg_pid m = 0))) \<and>
    (trs_res_id_free0 env c ts w ty i = Some (ret, c', ts', w') \<longrightarrow>
      (\<exists>ms. rw_sent w' = rw_sent w @ ms \<and> (\<forall>m \<in> set ms. res_msg_pid m = 0)))"
proof -
  obtain out where st: "res_state (device_holds ida sync inst (trs_res_get_id_type ty) lim) inst lim ty ts procs w out g"
    using dsrc.reach_state [OF assms(1)] by blast
  have "anonymous w w'" if "rp_res_type para = ty" "trs_res_id_alloc env c ts w para = Some (ret, c', ts', w', para')"
    by (rule dsrc.alloc_state [OF st assms(2) that(1), of env]) (use that(2) in auto)
  moreover have "anonymous w w'" if "trs_res_id_free0 env c ts w ty i = Some (ret, c', ts', w')"
    using dsrc.free_state [OF st assms(2), of i env] that by (auto split: if_splits)
  ultimately show ?thesis by (simp add: anonymous_def)
qed

theorem res_messages_name_no_process_witness:
  "\<exists>ret c' ts' w' para'. trs_res_id_alloc demo_env demo_proc demo_core_ts1 demo_res_w demo_para = Some (ret, c', ts', w', para') \<and>
     (\<forall>m \<in> set (rw_sent w'). res_msg_pid m = 0)"
proof -
  obtain out where st: "res_state demo_ev_source demo_id_inst 10 TRS_EVENT demo_core_ts1 [0 \<mapsto> demo_proc] demo_res_w out (\<lambda>_. 0)"
    using dsrc.reach_state [OF demo_ev_reach] by blast
  obtain ret c' ts' w' para' where r: "trs_res_id_alloc demo_env demo_proc demo_core_ts1 demo_res_w demo_para = Some (ret, c', ts', w', para')"
    by (rule dsrc.alloc_state [OF st, of 0 demo_proc demo_para demo_env]) (auto simp: demo_para_def)
  have "rw_sent demo_res_w = []" by (simp add: demo_res_w_def)
  then show ?thesis
    using res_messages_name_no_process [OF demo_ev_reach, of 0 demo_proc demo_para demo_env ret c' ts' w' para'] r
    by (auto simp: demo_para_def)
qed

end
