(* ===== verification/Shr_Device.thy ===== *)
theory Shr_Device
  imports Shr_Runs Trs_Device_Res
begin

text \<open>
  Shared ids on a device: the sharing module over the ownership tables of events and notifies, over the id
  allocator and the id pools. The resource manager with its two tables provides the references that the nodes
  count on, so that what holds of the module over any provider holds of the composed system.
\<close>

section \<open>Operations on one type leave the other alone\<close>

lemma pool_free_other:
  "ty' \<noteq> ty \<Longrightarrow> id_pool_at (id_pool_free g inst ty i) j ty' = id_pool_at g j ty'"
  by (auto simp: id_pool_free_def id_pool_at_def id_pool_key_def split: option.split)

lemma device_free_other:
  assumes "trs_device_free_id_batch g inst ty js = (ret, g')" "ty' \<noteq> ty"
  shows "device_owned inst' ty' g' = device_owned inst' ty' g"
proof -
  have "id_pool_at (fold (\<lambda>i g. id_pool_free g (Some p) ty i) js g) j ty' = id_pool_at g j ty'" for p j
    using assms(2) by (induction js arbitrary: g) (simp_all add: pool_free_other)
  then show ?thesis using assms(1) by (auto simp: trs_device_free_id_batch_def device_owned_def)
qed

text \<open>Releasing an id to a pool reaches the backend with the type of the pool, or not at all.\<close>

lemma pool_free_back:
  assumes "trs_id_pool_free mem p s i = Some (ret, p', s')" "uses_backend ab trs_device_free_id_batch inst ty p" "ty' \<noteq> ty"
  shows "device_owned inst' ty' s' = device_owned inst' ty' s"
proof -
  have nc: "device_owned inst' ty' s2 = device_owned inst' ty' s"
    if "trs_id_free_non_cache q s i = Some (r, p2, s2)" "tp_ops q = tp_ops p" "tp_type q = tp_type p" "tp_inst q = tp_inst p" for q r p2 s2
    using that assms(2,3) device_free_other [of s inst ty "[i]"]
    by (auto simp: trs_id_free_non_cache_def uses_backend_def split: prod.splits if_splits)
  show ?thesis using assms(1) nc [of p] nc [of "snd (trs_id_pool_add_node mem p i)"]
    by (auto simp: trs_id_pool_free_def trs_id_free_cache_def trs_id_pool_add_node_def Let_def split: if_splits)
qed

lemma free_other_type:
  assumes h1: "device_holds ida sync inst ty lim st out" "i \<in> out" and h2: "device_holds ida sync inst ty' lim' st out'" and ne: "ty' \<noteq> ty"
    and f: "trs_id_free modok mem st (Some inst) ty i = Some (ret, st')"
  shows "device_holds ida sync inst ty' lim' st' out'"
proof (cases modok)
  case False
  then show ?thesis using f h2 device_holds_nomod [OF h1(1), of "- ENODEV" "\<lambda>p s. trs_id_pool_free mem p s i"] by (simp add: trs_id_free_def)
next
  case True
  from h1 obtain H a p where I: "trs_ids_inv st H" "trs_id_param_check (Some inst) ty = 0" "ts_table st (trs_id_key inst ty) = Some a"
    "ts_heap st a = Some p" "uses_backend (trs_device_alloc_id_batch ida sync) trs_device_free_id_batch inst ty p"
    "device_inv ida sync inst ty (ts_back st)" "cached_inv (device_owned inst ty (ts_back st)) p out" "out \<subseteq> trs_id_range p"
    unfolding device_holds_def by blast
  from h2 obtain H' a' p' where J: "trs_ids_inv st H'" "trs_id_param_check (Some inst) ty' = 0" "ts_table st (trs_id_key inst ty') = Some a'"
    "ts_heap st a' = Some p'" "\<not> trs_id_non_cache p'"
    "uses_backend (trs_device_alloc_id_batch ida sync) trs_device_free_id_batch inst ty' p'"
    "device_inv ida sync inst ty' (ts_back st)" "cached_inv (device_owned inst ty' (ts_back st)) p' out'"
    "out' \<subseteq> trs_id_range p'" "trs_id_range p' \<subseteq> {i. i < lim'}"
    unfolding device_holds_def by blast
  have ne': "a' \<noteq> a" using I(4,5) J(4,6) ne by (auto simp: uses_backend_def)
  let ?p = "p\<lparr>tp_ref := tp_ref p + 1\<rparr>"
  have P: "uses_backend (trs_device_alloc_id_batch ida sync) trs_device_free_id_batch inst ty ?p"
    "cached_inv (device_owned inst ty (ts_back st)) ?p out" using I(5,7) by simp_all
  from dev.pool_free_inv [OF I(6) P h1(2), of mem] obtain r q s' where
    A: "trs_id_pool_free mem ?p (ts_back st) i = Some (r, q, s')" "device_inv ida sync inst ty s'" "trs_id_pool_frame ?p q"
      "\<exists>o2. cached_inv (device_owned inst ty s') q o2" by blast
  let ?q = "q\<lparr>tp_ref := tp_ref p\<rparr>"
  let ?st = "st\<lparr>ts_heap := (ts_heap st)(a \<mapsto> ?q), ts_back := s'\<rparr>"
  have eff: "trs_id_free True mem st (Some inst) ty i = Some (r, ?st)" unfolding trs_id_free_def
    by (rule with_pool_effect [where body = "\<lambda>p s. trs_id_pool_free mem p s i", OF I(1-4) A(1)]) (use A(3) in \<open>simp add: trs_id_pool_frame_def\<close>)
  have fr: "trs_id_pool_frame p ?q" using A(3) by (simp add: trs_id_pool_frame_def)
  have ub: "uses_backend (trs_device_alloc_id_batch ida sync) trs_device_free_id_batch inst ty ?q" by (rule uses_backend_mono [OF fr I(5)])
  have "trs_id_pool_ok ?q" using A(4) uses_backend_ok [OF ub] by auto
  then have "trs_ids_inv ?st H'" by (rule pool_work_inv [OF J(1) I(4) _ fr])
  moreover have "device_owned inst ty' s' = device_owned inst ty' (ts_back st)" by (rule pool_free_back [OF A(1) P(1) ne])
  moreover have "device_inv ida sync inst ty' s'" using A(2) J(7) by (simp add: device_inv_def)
  ultimately have "device_holds ida sync inst ty' lim' ?st out'"
    unfolding device_holds_def using J ne' by (intro exI [of _ H'] exI [of _ a'] exI [of _ p']) simp
  then show ?thesis using f eff True by simp
qed


lemma frame_other:
  assumes st: "res_state holds inst lim ty' ts procs w out g" and fr: "res_frame ty ts ts'" and ne: "ty' \<noteq> ty"
    and ids: "holds (rw_ids w') out"
  shows "res_state holds inst lim ty' ts' procs w' out g"
proof -
  have "res_state (\<lambda>s o'. s = rw_ids w \<or> s = rw_ids w') inst lim ty' ts procs w out g" using st by (simp add: res_state_def)
  from other_state [OF this, of ts' w' procs] fr ne
  have "res_state (\<lambda>s o'. s = rw_ids w \<or> s = rw_ids w') inst lim ty' ts' procs w' out g" by (auto simp: res_frame_def res_mng_set_def)
  then show ?thesis using ids by (simp add: res_state_def)
qed

text \<open>A put of one type: what it does to the table and to the ids.\<close>

lemma put_effect:
  assumes st: "res_state holds inst lim ty ts procs w out g" and user: "0 < g (unat i)"
    and p: "trs_res_id_put env (Some ts) w (Some inst) ty i = Some (ret, Some ts', w')"
    and chk: "trs_res_id_para_check (Some inst) ty i = 0"
  shows "res_frame ty ts ts' \<and> i \<in> out \<and> (rw_ids w' = rw_ids w \<or>
    (\<exists>r. trs_id_free (en_fmodok env) (en_fmem env) (rw_ids w) (Some inst) (trs_res_get_id_type ty) i = Some (r, rw_ids w')))"
proof -
  from res_state_procs [OF st] user obtain x r0 ts1 where a: "trs_res_put ts ty i = Some (r0, ts1)" "i \<in> out" "res_frame ty ts ts1"
    "\<exists>y. res_entry ts1 ty i = Some y \<and> (r0 = 0 \<longrightarrow> ri_pid y = 0)" by (rule put_inv) blast
  have S: "ct_inst ts1 = inst" "ao_id_free (ct_ops ts1) ty = None" using st a(3) by (auto simp: res_state_def res_frame_def res_mng_set_def)
  show ?thesis
  proof (cases "r0 = 0")
    case False
    then show ?thesis using p a(1-3) chk by (auto simp: trs_res_id_put_def)
  next
    case True
    then obtain y where y: "res_entry ts1 ty i = Some y" "ri_pid y = 0" using a(4) by auto
    obtain r1 w1 where n: "trs_res_notice_ts ts1 w 1 ty i = Some (r1, w1)" "rw_ids w1 = rw_ids w"
      using notice_anonymous [OF y, of w 1] by blast
    have q: "trs_res_mng_id_free env ts1 w1 ty i = Some w'" "ts' = ts1"
      using p a(1) chk True n(1) by (auto simp: trs_res_id_put_def bind_eq_Some_conv)
    then show ?thesis using a(2,3) S n(2) by (auto simp: trs_res_mng_id_free_def)
  qed
qed

text \<open>A get of a consistent table touches only memory of the table.\<close>

lemma get_some:
  assumes "res_inv ty ts procs out g"
  shows "\<exists>r. trs_res_get procs0 ts pid ty i = Some r"
proof -
  obtain xs where I: "res_mng_at ts ty = Some (ct_res_mng ts ty)" "res_table (ct_res_mng ts ty) xs g" using assms by (rule res_invE) blast
  obtain ret task where t: "trs_get_proc_task_id procs0 ts pid = (ret, task)" by (cases "trs_get_proc_task_id procs0 ts pid")
  show ?thesis
    by (cases "res_ids_at (ct_res_mng ts ty) i") (simp_all add: trs_res_get_def I(1) t match_inv [OF assms] res_entry_def)
qed

section \<open>The resource manager provides references\<close>

type_synonym 'h core_state = "(id_pools, 'h) trs_core_ts_inst \<times> (id_pools, 'h) trs_res_w"

text \<open>
  The services of the resource manager on its only instance \<open>inst\<close>. What the environment decides during a call, and
  the processes of the physical function, may differ from call to call.
\<close>

definition core_res ::
    "('h core_state \<Rightarrow> trs_res_env) \<Rightarrow> ('h core_state \<Rightarrow> trs_proc_ctx list option) \<Rightarrow> trs_id_inst \<Rightarrow> 'h core_state shr_res" where
  "core_res env procs0 inst =
     \<lparr>sr_get = (\<lambda>(ts, w) i tgid ty d.
        map_option (\<lambda>(ret, t'). (ret, case t' of None \<Rightarrow> ts | Some t \<Rightarrow> t, w))
          (trs_res_id_get (procs0 (ts, w)) (if i = inst then Some ts else None) (Some i) tgid ty d)),
      sr_put = (\<lambda>(ts, w) i ty d.
        map_option (\<lambda>(ret, t', w'). (ret, case t' of None \<Rightarrow> ts | Some t \<Rightarrow> t, w'))
          (trs_res_id_put (env (ts, w)) (if i = inst then Some ts else None) w (Some i) ty d)),
      sr_check = (\<lambda>(ts, w) i ty d. trs_res_id_check (rw_hw w) (if i = inst then Some ts else None) i ty d)\<rparr>"

definition users_of :: "trs_id_inst \<Rightarrow> int \<Rightarrow> (res_key \<Rightarrow> nat) \<Rightarrow> nat \<Rightarrow> nat" where
  "users_of inst ty g j = (if j < 2 ^ 32 then g (inst, ty, of_nat j) else 0)"

lemma users_of_upd:
  "users_of inst ty (g((inst, ty', i) := v)) = (if ty = ty' then (users_of inst ty g)(unat i := v) else users_of inst ty g)"
proof -
  have "unat i < 2 ^ 32" by (rule order_less_le_trans [OF unsigned_less]) simp
  moreover have "j < 2 ^ 32 \<Longrightarrow> (of_nat j = i) = (j = unat i)" for j by (auto simp: unat_of_nat)
  ultimately show ?thesis by (auto simp: users_of_def fun_eq_iff)
qed

lemma users_of_unat [simp]: "users_of inst ty g (unat i) = g (inst, ty, i)"
proof -
  have "unat i < 2 ^ 32" by (rule order_less_le_trans [OF unsigned_less]) simp
  then show ?thesis by (simp add: users_of_def)
qed

text \<open>
  \<open>core_holds\<close>: both tables are consistent over the device's id allocator, with \<open>g\<close> as the users of the ids.
\<close>

definition core_holds ::
    "idr_alloc \<Rightarrow> sync_id_proc option \<Rightarrow> trs_id_inst \<Rightarrow> (int \<Rightarrow> u32) \<Rightarrow> 'h core_state \<Rightarrow> (res_key \<Rightarrow> nat) \<Rightarrow> bool" where
  "core_holds ida sync inst lim s g \<longleftrightarrow>
     trs_id_inst_check (Some inst) = 0 \<and> (\<forall>i ty d. 0 < g (i, ty, d) \<longrightarrow> i = inst \<and> res_shared ty) \<and>
     (\<forall>ty. res_shared ty \<longrightarrow> (\<exists>procs out. res_state (device_holds ida sync inst (trs_res_get_id_type ty) (lim ty)) inst (lim ty) ty
        (fst s) procs (snd s) out (users_of inst ty g)))"

lemma core_holdsD:
  assumes "core_holds ida sync inst lim (ts, w) g"
  shows "trs_id_inst_check (Some inst) = 0" "0 < g (i, ty, d) \<Longrightarrow> i = inst \<and> res_shared ty"
    "res_shared ty \<Longrightarrow> \<exists>procs out. res_state (device_holds ida sync inst (trs_res_get_id_type ty) (lim ty)) inst (lim ty) ty ts procs w out (users_of inst ty g)"
  using assms unfolding core_holds_def by auto

text \<open>A change of one table, with the other one undisturbed.\<close>

lemma core_holds_upd:
  assumes h: "core_holds ida sync inst lim (ts, w) g" and ty: "res_shared ty" and fr: "res_frame ty ts ts'"
    and st: "res_state (device_holds ida sync inst (trs_res_get_id_type ty) (lim ty)) inst (lim ty) ty ts' procs w' out
      ((users_of inst ty g)(unat i := v))"
    and oth: "\<And>ty' out'. ty' \<noteq> ty \<Longrightarrow> res_shared ty' \<Longrightarrow> device_holds ida sync inst (trs_res_get_id_type ty') (lim ty') (rw_ids w) out' \<Longrightarrow>
      device_holds ida sync inst (trs_res_get_id_type ty') (lim ty') (rw_ids w') out'"
  shows "core_holds ida sync inst lim (ts', w') (g((inst, ty, i) := v))"
proof -
  have "\<exists>procs out. res_state (device_holds ida sync inst (trs_res_get_id_type ty') (lim ty')) inst (lim ty') ty' ts' procs w' out
      (users_of inst ty' (g((inst, ty, i) := v)))" if t: "res_shared ty'" for ty'
  proof (cases "ty' = ty")
    case True
    then show ?thesis using st by (auto simp: users_of_upd)
  next
    case False
    obtain procs2 out2 where s2: "res_state (device_holds ida sync inst (trs_res_get_id_type ty') (lim ty')) inst (lim ty') ty' ts procs2 w out2 (users_of inst ty' g)"
      using core_holdsD(3) [OF h t] by blast
    then have "device_holds ida sync inst (trs_res_get_id_type ty') (lim ty') (rw_ids w) out2" by (simp add: res_state_def)
    from frame_other [OF s2 fr False oth [OF False t this]] False show ?thesis by (auto simp: users_of_upd)
  qed
  moreover have "\<forall>j ty' d. 0 < (g((inst, ty, i) := v)) (j, ty', d) \<longrightarrow> j = inst \<and> res_shared ty'"
    using core_holdsD(2) [OF h] ty by (auto split: if_splits)
  ultimately show ?thesis unfolding core_holds_def fst_conv snd_conv using core_holdsD(1) [OF h] by blast
qed


lemma shared_types:
  assumes "res_shared ty"
  shows "ty < TRS_HW_SQ" "res_shared ty' \<Longrightarrow> ty' \<noteq> ty \<Longrightarrow> trs_res_get_id_type ty' \<noteq> trs_res_get_id_type ty"
  using assms by (auto simp: res_shared_def trs_res_get_id_type_def)

lemma get_core_total:
  assumes "core_holds ida sync inst lim (ts, w) g" "res_shared ty"
  shows "\<exists>r. trs_res_id_get procs0 (if i = inst then Some ts else None) (Some i) tgid ty d = Some r"
proof -
  obtain procs out where st: "res_state (device_holds ida sync inst (trs_res_get_id_type ty) (lim ty)) inst (lim ty) ty ts procs w out (users_of inst ty g)"
    using core_holdsD(3) [OF assms] by blast
  then have "\<exists>r. trs_res_get procs0 ts tgid ty d = Some r" by (intro get_some) (rule res_state_procs)
  then show ?thesis by (auto simp: trs_res_id_get_def Let_def)
qed

interpretation core: id_refs "core_res env procs0 inst" "core_holds ida sync inst lim"
  for env procs0 inst ida sync lim
proof unfold_locales
  fix s s' :: "'a core_state" and g i tgid ty d ret
  assume h0: "core_holds ida sync inst lim s g" and ty: "res_shared ty" and tg: "tgid \<noteq> 0"
    and r0: "sr_get (core_res env procs0 inst) s i tgid ty d = Some (ret, s')" and room: "int (g (i, ty, d)) < INT_MAX - 1"
  obtain ts w where s: "s = (ts, w)" by (cases s)
  note h = h0 [unfolded s]
  show "core_holds ida sync inst lim s' (if ret = 0 then g((i, ty, d) := Suc (g (i, ty, d))) else g)"
  proof (cases "i = inst")
    case False
    then have "ret \<noteq> 0" "s' = s" using r0 s by (auto simp: core_res_def trs_res_id_get_def Let_def split: if_splits)
    then show ?thesis using h0 by simp
  next
    case True
    have chk: "trs_res_id_para_check (Some inst) ty d = 0"
      using core_holdsD(1) [OF h] shared_types(1) [OF ty] by (simp add: trs_res_id_para_check_def)
    obtain procs out where st: "res_state (device_holds ida sync inst (trs_res_get_id_type ty) (lim ty)) inst (lim ty) ty ts procs w out (users_of inst ty g)"
      using core_holdsD(3) [OF h ty] by blast
    obtain ts' where t: "trs_res_get (procs0 (ts, w)) ts tgid ty d = Some (ret, ts')" "s' = (ts', w)"
      using r0 s True chk by (auto simp: core_res_def trs_res_id_get_def)
    have room': "int (users_of inst ty g (unat d)) < INT_MAX - 1" using room True by simp
    note G = get_inv [OF res_state_procs [OF st] room' tg t(1)]
    show ?thesis
    proof (cases "ret = 0")
      case r: True
      then have nst: "res_state (device_holds ida sync inst (trs_res_get_id_type ty) (lim ty)) inst (lim ty) ty ts' procs w out
          ((users_of inst ty g)(unat d := users_of inst ty g (unat d) + 1))" and fr: "res_frame ty ts ts'"
        using G res_state_frame [OF st] by simp_all
      from core_holds_upd [OF h ty fr nst] show ?thesis using r True t(2) by simp
    next
      case False
      then show ?thesis using G t(2) h by simp
    qed
  qed
next
  fix s :: "'a core_state" and g i ty tgid d
  assume "core_holds ida sync inst lim s g" "res_shared ty"
  then show "\<exists>ret s'. sr_get (core_res env procs0 inst) s i tgid ty d = Some (ret, s')"
    using get_core_total [of ida sync inst lim "fst s" "snd s" g ty "procs0 s" i tgid d] by (auto simp: core_res_def split: prod.split)
next
  fix s :: "'a core_state" and g i ty d
  assume h0: "core_holds ida sync inst lim s g" and u: "0 < g (i, ty, d)"
  obtain ts w where s: "s = (ts, w)" by (cases s)
  note h = h0 [unfolded s]
  have i: "i = inst" and ty: "res_shared ty" using core_holdsD(2) [OF h u] by blast+
  have chk: "trs_res_id_para_check (Some inst) ty d = 0"
    using core_holdsD(1) [OF h] shared_types(1) [OF ty] by (simp add: trs_res_id_para_check_def)
  obtain procs out where st: "res_state (device_holds ida sync inst (trs_res_get_id_type ty) (lim ty)) inst (lim ty) ty ts procs w out (users_of inst ty g)"
    using core_holdsD(3) [OF h ty] by blast
  have user: "0 < users_of inst ty g (unat d)" using u i by simp
  obtain ts' w' out' where p: "trs_res_id_put (env s) (Some ts) w (Some inst) ty d = Some (0, Some ts', w')"
    "res_state (device_holds ida sync inst (trs_res_get_id_type ty) (lim ty)) inst (lim ty) ty ts' procs w' out'
      ((users_of inst ty g)(unat d := users_of inst ty g (unat d) - 1))"
    by (rule dsrc.put_state [OF st user shared_types(1) [OF ty] core_holdsD(1) [OF h], where env = "env s"])
  note E = put_effect [OF st user p(1) chk]
  have hold: "device_holds ida sync inst (trs_res_get_id_type ty) (lim ty) (rw_ids w) out" using st by (simp add: res_state_def)
  have "core_holds ida sync inst lim (ts', w') (g((inst, ty, d) := users_of inst ty g (unat d) - 1))"
  proof (rule core_holds_upd [OF h ty _ p(2)])
    show "res_frame ty ts ts'" using E by blast
  next
    fix ty' o' assume t: "ty' \<noteq> ty" "res_shared ty'" "device_holds ida sync inst (trs_res_get_id_type ty') (lim ty') (rw_ids w) o'"
    show "device_holds ida sync inst (trs_res_get_id_type ty') (lim ty') (rw_ids w') o'"
      using E t(3) free_other_type [OF hold _ t(3) shared_types(2) [OF ty t(2,1)]] by auto
  qed
  then show "\<exists>s'. sr_put (core_res env procs0 inst) s i ty d = Some (0, s') \<and>
      core_holds ida sync inst lim s' (g((i, ty, d) := g (i, ty, d) - 1))"
    using p(1) i s by (auto simp: core_res_def)
qed

declare split_paired_All [simp del] split_paired_Ex [simp del]

section \<open>Who may open a node\<close>

definition may_open :: "shr_id_node \<Rightarrow> int \<Rightarrow> u64 \<Rightarrow> bool" where
  "may_open n p start \<longleftrightarrow>
     (\<exists>e \<in> set (sn_wlist n). wl_pid e = p \<and> \<not> time_after start (wl_set_time e) \<and> wl_open_num e < TRS_SHR_ID_NODE_MAX_OPEN_NUM)"

lemma distinct_filter_eq:
  "distinct (filter P (map f xs)) \<Longrightarrow> x \<in> set xs \<Longrightarrow> y \<in> set xs \<Longrightarrow> f x = f y \<Longrightarrow> P (f x) \<Longrightarrow> x = y"
  by (induction xs) (auto split: if_splits, metis imageI)

lemma open0_ok:
  assumes "node_wf n" "p \<noteq> 0"
  shows "fst (shr_id_node_open0 n p start attr) = 0 \<longleftrightarrow> may_open n p start"
proof -
  let ?i = "shr_id_node_find_wlist_index n p" and ?l = "sn_wlist n"
  note W = wlist_index [OF assms(1) refl, of p]
  show ?thesis
  proof (cases "?i = SHR_ID_PID_MAX_NUM")
    case True
    then show ?thesis using W(3) by (auto simp: shr_id_node_open0_def may_open_def)
  next
    case False
    then have i: "?l ! ?i \<in> set ?l" "wl_pid (?l ! ?i) = p" using W(2) by auto
    have "e = ?l ! ?i" if "e \<in> set ?l" "wl_pid e = p" for e
      using distinct_filter_eq [of "\<lambda>p. p \<noteq> 0" wl_pid ?l e "?l ! ?i"] assms i that by (simp add: node_wf_def)
    then have "may_open n p start \<longleftrightarrow> \<not> time_after start (wl_set_time (?l ! ?i)) \<and> wl_open_num (?l ! ?i) < TRS_SHR_ID_NODE_MAX_OPEN_NUM"
      unfolding may_open_def using i by metis
    then show ?thesis using False by (auto simp: shr_id_node_open0_def Let_def not_le)
  qed
qed

context id_refs
begin

lemma open_ioctl_spec:
  assumes inv: "shr_inv hm held t w" and l: "ctx_link (nodes hm t) c" and len: "length (io_name io) = SHR_ID_NSM_NAME_SIZE"
  shows "\<exists>ret c' io' t' w'. shr_id_open hm res env c io t w = Some (ret, c', io', t', w') \<and>
    (if ret = 0
     then \<exists>ty n m. shr_id_get_type_by_name (io_name io) = (0, Some ty) \<and> nodes hm t (ty, cstr (io_name io)) = Some n \<and>
       may_open n (sc_pid c) (sc_start_time c) \<and> io_shr_id io' = sn_id n \<and> io_devid io' = ti_devid (sn_inst n) \<and> io_tsid io' = ti_tsid (sn_inst n) \<and>
       nodes hm t' (ty, cstr (io_name io)) = Some m \<and> wopen m (sc_pid c) = wopen n (sc_pid c) + 1
     else c' = c \<and> (\<forall>k. nopen (nodes hm t') (sc_pid c) k = nopen (nodes hm t) (sc_pid c) k) \<and>
       (\<forall>ty n. shr_id_get_type_by_name (io_name io) = (0, Some ty) \<longrightarrow> nodes hm t (ty, cstr (io_name io)) = Some n \<longrightarrow>
          may_open n (sc_pid c) (sc_start_time c) \<longrightarrow> \<not> se_proc_mem env))"
proof -
  note L = ctx_linkD [OF l]
  obtain ret c' io' t' w' where r: "shr_id_open hm res env c io t w = Some (ret, c', io', t', w')"
    using open_total [OF inv L(2), of env io] by (metis prod_cases5)
  have link: "ctx_link (nodes hm t') c'" using open_step [OF inv l len r] by (simp add: step_ok_def)
  have same: "c' = c \<Longrightarrow> nopen (nodes hm t') (sc_pid c) k = nopen (nodes hm t) (sc_pid c) k" for k
    using ctx_linkD(3) [OF link, of k] L(3) [of k] by simp
  obtain rt ty0 where p: "shr_id_get_type_by_name (io_name io) = (rt, ty0)" by (cases "shr_id_get_type_by_name (io_name io)")
  show ?thesis
  proof (cases "rt = 0")
    case False
    then have "ret \<noteq> 0" "c' = c" using r p by (auto simp: shr_id_open_def)
    then show ?thesis using r p False same by auto
  next
    case True
    then obtain ty where ty: "shr_id_get_type_by_name (io_name io) = (0, Some ty)" using p parse_ret by (metis prod.collapse fst_conv)
    let ?N = "nodes hm t" and ?k = "(ty, cstr (io_name io))"
    let ?attr = "\<lparr>at_inst = \<lparr>ti_devid = 0, ti_tsid = 0\<rparr>, at_res_type = shr_id_type_trans ty, at_type = ty, at_id = 0\<rparr>"
    have at0: "at_type ?attr = ty" by simp
    obtain r1 a1 t1 w1 where e: "shr_id_node_open hm res (io_name io) (sc_pid c) (sc_start_time c) ?attr t w = Some (r1, a1, t1, w1)"
      "shr_inv hm held t1 w1"
      "case ?N ?k of
         None \<Rightarrow> r1 = - ENODEV \<and> nodes hm t1 = ?N
       | Some n \<Rightarrow>
           r1 = fst (shr_id_node_open0 n (sc_pid c) (sc_start_time c) ?attr) \<and>
           (if r1 \<noteq> 0 then nodes hm t1 = ?N
            else a1 = ?attr\<lparr>at_inst := sn_inst n, at_id := sint (sn_id n)\<rparr> \<and>
              (\<exists>m. nodes hm t1 = ?N(?k \<mapsto> m) \<and> same_node n m \<and> sn_pid m = sn_pid n \<and>
                 (\<forall>p. wopen m p = (if p = sc_pid c then wopen n p + 1 else wopen n p)) \<and> opens m = opens n + 1))"
      using open_effect [OF inv L(2), of "io_name io" "sc_start_time c" ?attr, unfolded at0 lookup_parse [OF ty]] by (elim exE conjE)
    have may: "fst (shr_id_node_open0 n (sc_pid c) (sc_start_time c) ?attr) = 0 \<longleftrightarrow> may_open n (sc_pid c) (sc_start_time c)"
      if "?N ?k = Some n" for n
      using open0_ok [OF _ L(2)] shr_invD(2) [OF inv that] by (simp add: node_ok_def)
    show ?thesis
    proof (cases "r1 = 0")
      case False
      then have "ret \<noteq> 0" "c' = c" using r ty e(1) by (auto simp: shr_id_open_def)
      then show ?thesis using r ty False same e(3) may by (auto split: option.splits)
    next
      case r1: True
      then obtain n m where n: "?N ?k = Some n" "a1 = ?attr\<lparr>at_inst := sn_inst n, at_id := sint (sn_id n)\<rparr>" "nodes hm t1 = ?N(?k \<mapsto> m)"
        "wopen m (sc_pid c) = wopen n (sc_pid c) + 1" "may_open n (sc_pid c) (sc_start_time c)"
        using e(3) may by (auto split: option.splits)
      obtain r2 c2 io2 where d: "shr_id_add_to_proc (se_proc_mem env) c io a1 1 = (r2, c2, io2)"
        by (cases "shr_id_add_to_proc (se_proc_mem env) c io a1 1")
      show ?thesis
      proof (cases "r2 = 0")
        case True
        then show ?thesis using r ty e(1) r1 d n by (auto simp: shr_id_open_def)
      next
        case False
        then have "c2 = c" "\<not> se_proc_mem env" using d
          by (auto simp: shr_id_add_to_proc_def shr_id_creat_proc_node_def Let_def split: option.splits if_splits)
        then have "c' = c" "ret = r2" "\<not> se_proc_mem env" using r ty e(1) r1 d False by (auto simp: shr_id_open_def bind_eq_Some_conv)
        then show ?thesis using r False same by auto
      qed
    qed
  qed
qed

end

section \<open>Demonstration data\<close>

text \<open>
  Events and notifies of device 0: of the ids 2 to 9 of either type, 2 is allocated and owned by process 42.
\<close>

definition demo_shr_node :: id_pool_node where
  "demo_shr_node = demo_node\<lparr>pn_idr := {2}, pn_id_avail_num := 7\<rparr>"

definition demo_shr_pool :: "int \<Rightarrow> id_pool" where
  "demo_shr_pool ty = demo_pool\<lparr>ip_type := ty, ip_root := Node Leaf demo_shr_node Leaf\<rparr>"

definition demo_shr_pools :: id_pools where
  "demo_shr_pools = [id_pool_key demo_inst 1 \<mapsto> demo_shr_pool 1, id_pool_key demo_inst 3 \<mapsto> demo_shr_pool 3]"

definition demo_shr_trs :: "int \<Rightarrow> id_pools trs_id_pool" where
  "demo_shr_trs ty = (demo_dev_pool 1)\<lparr>tp_type := ty\<rparr>"

definition demo_shr_ids :: "id_pools trs_ids" where
  "demo_shr_ids = \<lparr>ts_table = [trs_id_key demo_id_inst 1 \<mapsto> 7, trs_id_key demo_id_inst 3 \<mapsto> 8],
     ts_heap = [7 \<mapsto> demo_shr_trs 1, 8 \<mapsto> demo_shr_trs 3], ts_back = demo_shr_pools\<rparr>"

definition demo_shr_entries :: "trs_res_ids list" where
  "demo_shr_entries = (let z = \<lparr>ri_status = 0, ri_task_id = 0, ri_pid = 0, ri_ref = 0\<rparr> in
     z # z # \<lparr>ri_status = RES_STATUS_NORMAL, ri_task_id = pc_task_id demo_proc, ri_pid = 42, ri_ref = 1\<rparr> # replicate 7 z)"

definition demo_shr_mng :: trs_res_mng where
  "demo_shr_mng = demo_res_mng\<lparr>rm_use_num := 1, rm_ids := Some demo_shr_entries\<rparr>"

definition demo_shr_ts :: "(id_pools, unit) trs_core_ts_inst" where
  "demo_shr_ts = demo_core_ts\<lparr>ct_proc_list := [demo_proc], ct_res_mng := (\<lambda>_. demo_shr_mng)\<rparr>"

definition demo_shr_w :: "unit core_state" where
  "demo_shr_w = (demo_shr_ts, demo_res_w\<lparr>rw_ids := demo_shr_ids\<rparr>)"

lemma demo_shr_check: "res_shared ty \<Longrightarrow> trs_id_param_check (Some demo_id_inst) ty = 0"
  by (auto simp: res_shared_def trs_id_param_check_def trs_id_inst_check_def trs_id_type_check_def demo_id_inst_def)

lemma demo_shr_ids_inv: "trs_ids_inv demo_shr_ids {#}"
proof -
  have k: "trs_id_key demo_id_inst 1 \<noteq> trs_id_key demo_id_inst 3" by (simp add: trs_id_key_def)
  have ran: "ran (ts_table demo_shr_ids) = {7, 8}" using k by (auto simp: demo_shr_ids_def)
  have "trs_id_pool_ok (demo_shr_trs ty)" for ty
    by (simp add: demo_shr_trs_def demo_dev_pool_def demo_dev_attr_def demo_id_attr_def trs_id_pool_ok_def trs_id_ops_ok_def trs_device_ops_def)
  moreover have "tp_ref (demo_shr_trs ty) = 1" "tp_inst (demo_shr_trs ty) = demo_id_inst" "tp_type (demo_shr_trs ty) = ty" for ty
    by (simp_all add: demo_shr_trs_def demo_dev_pool_def)
  moreover have "trs_id_key demo_id_inst ty \<in> set trs_id_all_keys" if "res_shared ty" for ty
    by (rule key_in_all_keys [OF demo_shr_check [OF that]])
  ultimately show ?thesis using k ran by (auto simp: res_shared_def trs_ids_inv_def demo_shr_ids_def split: if_splits)
qed

lemma demo_shr_pools_inv: "id_pools_inv demo_shr_pools"
  by (auto simp: id_pools_inv_def id_pool_inv_def nodes_ok_def pn_ok_def pn_end_def demo_shr_pools_def demo_shr_pool_def demo_shr_node_def demo_defs
      split: if_splits)

lemma demo_shr_holds:
  assumes "res_shared ty"
  shows "device_holds idr_lowest None demo_id_inst (trs_res_get_id_type ty) 10 demo_shr_ids {2}"
proof -
  have ty: "ty = 1 \<or> ty = 3" "trs_res_get_id_type ty = ty" using assms by (auto simp: res_shared_def trs_res_get_id_type_def)
  obtain a where a: "ts_table demo_shr_ids (trs_id_key demo_id_inst ty) = Some a" "ts_heap demo_shr_ids a = Some (demo_shr_trs ty)"
    using ty by (auto simp: demo_shr_ids_def trs_id_key_def)
  have r: "trs_id_range (demo_shr_trs ty) = {2 ..< 10}"
    by (simp add: trs_id_range_def demo_shr_trs_def demo_dev_pool_def demo_dev_attr_def demo_id_attr_def)
  have "device_inv idr_lowest None demo_id_inst ty demo_shr_pools"
    using ty by (auto simp: device_inv_def idr_lowest_ok sync_ok_def demo_shr_pools_inv trs_id_is_local_type_def demo_dev_inst
        id_pool_inst_check_def demo_inst_def id_pool_inst_pack_def)
  moreover have "device_owned demo_id_inst ty demo_shr_pools = {2}"
    using ty by (auto simp: device_owned_def demo_dev_inst id_pool_at_def demo_shr_pools_def id_pool_used_def demo_shr_pool_def demo_shr_node_def demo_defs)
  moreover have "uses_backend (trs_device_alloc_id_batch idr_lowest None) trs_device_free_id_batch demo_id_inst ty (demo_shr_trs ty)"
    by (simp add: uses_backend_def demo_shr_trs_def demo_dev_pool_def demo_dev_attr_def demo_id_attr_def trs_device_ops_def)
  moreover have "\<not> trs_id_non_cache (demo_shr_trs ty)"
    using ty by (auto simp: trs_id_non_cache_def demo_shr_trs_def demo_dev_pool_def demo_dev_attr_def
        demo_id_attr_def trs_device_ops_def trs_device_id_is_non_cache_type_def)
  moreover have "cached_inv {2} (demo_shr_trs ty) {2}" by (simp add: cached_inv_def demo_shr_trs_def demo_dev_pool_def)
  ultimately show ?thesis unfolding device_holds_def ty(2) using demo_shr_ids_inv r a demo_shr_check [OF assms]
    by (intro exI [of _ "{#}"] exI [of _ a] exI [of _ "demo_shr_trs ty"]) (auto simp: demo_shr_ids_def word_less_nat_alt word_le_nat_alt)
qed

lemma demo_core_holds: "core_holds idr_lowest None demo_id_inst (\<lambda>_. 10) demo_shr_w (\<lambda>_. 0)"
proof -
  have all: "\<forall>x \<in> set demo_shr_entries. entry_ok x 0" and live: "\<forall>k < length demo_shr_entries. res_live (demo_shr_entries ! k) \<longrightarrow> k = 2"
    by (auto simp: demo_shr_entries_def Let_def entry_ok_def res_owned_def nth_Cons split: nat.splits)
  have "res_table demo_shr_mng demo_shr_entries (\<lambda>_. 0)"
    using all by (simp add: res_table_def demo_shr_mng_def demo_res_mng_def all_set_conv_all_nth) (simp add: demo_shr_entries_def Let_def)
  then have "res_inv ty demo_shr_ts Map.empty {2} (\<lambda>_. 0)" if "res_shared ty" for ty
    unfolding res_inv_def using that live
    by (intro conjI exI [of _ demo_shr_entries]) (auto simp: demo_shr_ts_def demo_core_ts_def procs_ok_def res_shared_def)
  then have "res_state (device_holds idr_lowest None demo_id_inst (trs_res_get_id_type ty) 10) demo_id_inst 10 ty demo_shr_ts Map.empty
      (demo_res_w\<lparr>rw_ids := demo_shr_ids\<rparr>) {2} (\<lambda>_. 0)" if "res_shared ty" for ty
    using that demo_shr_holds [OF that]
    by (auto simp: res_state_def demo_shr_ts_def demo_core_ts_def demo_core_ops_def demo_shr_mng_def demo_res_mng_def demo_res_w_def res_shared_def)
  moreover have "users_of demo_id_inst ty (\<lambda>_. 0) = (\<lambda>_. 0)" for ty by (simp add: users_of_def fun_eq_iff)
  ultimately show ?thesis unfolding core_holds_def demo_shr_w_def fst_conv snd_conv using demo_inst_check
    by auto
qed

text \<open>\<^verbatim>\<open>hash_32\<close> of the kernel for 16 buckets.\<close>

definition demo_hm :: "u32 \<Rightarrow> nat" where
  "demo_hm k = unat (drop_bit 28 (k * 1640531527))"

abbreviation demo_shr_res :: "unit core_state shr_res" where
  "demo_shr_res \<equiv> core_res (\<lambda>_. demo_env) (\<lambda>_. None) demo_id_inst"

abbreviation demo_shr_held :: "unit core_state \<Rightarrow> (res_key \<Rightarrow> nat) \<Rightarrow> bool" where
  "demo_shr_held \<equiv> core_holds idr_lowest None demo_id_inst (\<lambda>_. 10)"

definition demo_shr_ctx :: shr_id_proc_ctx where
  "demo_shr_ctx = the (shr_id_proc_create True 42 100)"

definition demo_shr_io :: shr_id_ioctl_info where
  "demo_shr_io = \<lparr>io_opened_devid = 0, io_devid = 0, io_tsid = 0, io_shr_id = 2, io_id_type = 1, io_dev_addr = 0, io_host_addr = 0,
     io_name = replicate 65 (CHR 0x00), io_pid = [], io_flag = 0\<rparr>"

definition demo_shr_env :: shr_env where
  "demo_shr_env = \<lparr>se_in_container = (\<lambda>_. True), se_node_mem = True, se_proc_mem = True, se_now = 200, se_nows = [], se_tgid = 42\<rparr>"

definition demo_shr_call :: shr_call where
  "demo_shr_call = \<lparr>ca_write = True, ca_read = True, ca_copy_in = True, ca_copy_out = True, ca_stack = demo_shr_io\<rparr>"

definition demo_shr_name :: string where
  "demo_shr_name = snd (shr_id_name_generate 0 0 42 1 2 (replicate 65 (CHR 0x00)))"

definition demo_shr_attr :: shr_id_node_op_attr where
  "demo_shr_attr = \<lparr>at_inst = demo_id_inst, at_res_type = 1, at_type = 1, at_id = 2\<rparr>"

definition demo_shr_new :: shr_id_node where
  "demo_shr_new = shr_id_node_init0 200 demo_shr_name 42 demo_shr_attr"

definition demo_shr_pnode :: shr_id_proc_node where
  "demo_shr_pnode = the (shr_id_creat_proc_node True demo_shr_name demo_shr_attr)"

text \<open>The state after process 42 has opened the file and shared its event 2.\<close>

definition demo_shr_pt :: shr_procs where
  "demo_shr_pt = (\<lambda>_. [])(proc_bucket demo_hm 42 := [demo_shr_ctx])"

definition demo_shr_ctx1 :: shr_id_proc_ctx where
  "demo_shr_ctx1 = demo_shr_ctx\<lparr>sc_create_node_num := 1, sc_create_list := [demo_shr_pnode]\<rparr>"

definition demo_shr_t1 :: shr_htable where
  "demo_shr_t1 = shr_bucket_upd demo_hm demo_shr_new (\<lambda>ns. demo_shr_new # ns) shr_id_node_init"

definition demo_shr_w1 :: "unit core_state" where
  "demo_shr_w1 = (res_mng_set 1 (res_ids_set 2 \<lparr>ri_status = RES_STATUS_NORMAL, ri_task_id = pc_task_id demo_proc, ri_pid = 42, ri_ref = 2\<rparr>
     demo_shr_mng) demo_shr_ts, snd demo_shr_w)"

lemma demo_sr_get: "sr_get demo_shr_res demo_shr_w demo_id_inst 42 1 2 = Some (0, demo_shr_w1)"
proof -
  have "trs_id_inst_check (Some \<lparr>ti_devid = 0, ti_tsid = 0\<rparr>) = 0" using demo_inst_check by (simp add: demo_id_inst_def)
  then show ?thesis
    by (simp add: core_res_def demo_shr_w_def demo_shr_w1_def trs_res_id_get_def trs_res_id_para_check_def
        trs_res_get_def res_mng_at_def demo_shr_ts_def demo_core_ts_def trs_get_proc_task_id_def trs_proc_ctx_find_def
        demo_proc_def trs_proc_ctx_create_def trs_is_res_pid_match_def demo_shr_mng_def demo_res_mng_def res_ids_at_def demo_shr_entries_def Let_def
        trs_is_id_pid_match_def demo_id_inst_def i32_id)
qed

lemma demo_shr_open:
  "shr_id_file_open demo_hm (\<lambda>_. False) (\<lambda>_. False) True 42 100 (\<lambda>_. []) = (0, Some demo_shr_ctx, demo_shr_pt)"
  by (simp add: shr_id_file_open_def shr_id_wait_for_proc_exit_def wait_exit_from.simps shr_id_proc_create_def shr_id_proc_add_def shr_id_find_proc_def
      demo_shr_pt_def demo_shr_ctx_def)

lemma demo_shr_node_create:
  "shr_id_node_create demo_hm demo_shr_res True 200 42 demo_shr_name 42 demo_shr_attr 0 shr_id_node_init demo_shr_w =
     Some (0, demo_shr_t1, demo_shr_w1)"
proof -
  have "shr_id_node_create0 demo_shr_res True 200 42 demo_shr_name 42 demo_shr_attr 0 demo_shr_w = Some (Some demo_shr_new, demo_shr_w1)"
    using demo_sr_get by (simp add: shr_id_node_create0_def demo_shr_new_def shr_id_node_init0_def demo_shr_attr_def Let_def)
  moreover have "shr_id_node_add demo_hm shr_id_node_init demo_shr_new = (0, demo_shr_t1)"
    by (simp add: shr_id_node_add_def shr_id_node_find_def shr_id_node_init_def demo_shr_t1_def)
  ultimately show ?thesis by (simp add: shr_id_node_create_def)
qed

lemma demo_shr_create:
  "shr_id_file_ioctl demo_hm demo_shr_res demo_shr_env demo_shr_call (Some demo_shr_ctx) (Some SHR_ID_CREATE) (Some demo_shr_io) shr_id_node_init demo_shr_w =
     Some (0, Some demo_shr_ctx1, Some (demo_shr_io\<lparr>io_name := demo_shr_name\<rparr>), demo_shr_t1, demo_shr_w1)"
proof -
  have n: "shr_id_name_generate 0 0 42 1 2 (replicate 65 (CHR 0x00)) = (0, demo_shr_name)"
    by (simp add: demo_shr_name_def shr_id_name_generate_def Let_def)
  have c: "sc_pid demo_shr_ctx = 42" by (simp add: demo_shr_ctx_def shr_id_proc_create_def)
  have a: "\<lparr>at_inst = \<lparr>ti_devid = 0, ti_tsid = 0\<rparr>, at_res_type = shr_id_type_trans 1, at_type = 1, at_id = 2\<rparr> = demo_shr_attr"
    by (simp add: demo_shr_attr_def demo_id_inst_def shr_id_type_trans_def)
  have p: "shr_id_add_to_proc True demo_shr_ctx (demo_shr_io\<lparr>io_name := demo_shr_name\<rparr>) demo_shr_attr 0 =
      (0, demo_shr_ctx1, demo_shr_io\<lparr>io_name := demo_shr_name\<rparr>)"
    by (simp add: shr_id_add_to_proc_def shr_id_find_proc_node_def shr_id_get_list_head_def demo_shr_ctx_def shr_id_proc_create_def
        shr_id_creat_proc_node_def demo_shr_pnode_def demo_shr_io_def list_head_upd_def shr_id_proc_num_inc_def demo_shr_ctx1_def Let_def)
  have "shr_id_create demo_hm demo_shr_res demo_shr_env demo_shr_ctx demo_shr_io shr_id_node_init demo_shr_w =
      Some (0, demo_shr_ctx1, demo_shr_io\<lparr>io_name := demo_shr_name\<rparr>, demo_shr_t1, demo_shr_w1)"
    unfolding shr_id_create_def using p by (simp add: demo_shr_env_def demo_shr_io_def Let_def c n a demo_shr_node_create word_le_nat_alt)
  then show ?thesis by (simp add: shr_id_file_ioctl_def shr_id_ioctl_handles_def demo_shr_call_def ioctl_arg_def)
qed

definition demo_shr_pt1 :: shr_procs where
  "demo_shr_pt1 = shr_id_proc_store demo_hm demo_shr_ctx1 demo_shr_pt"

lemma demo_shr_reach0: "shr_reach demo_hm demo_shr_res demo_shr_held shr_id_node_init demo_shr_pt demo_shr_w"
  by (rule sh_open [OF sh_start [where held = demo_shr_held, OF demo_core_holds] _ demo_shr_open]) simp

lemma demo_shr_proc0: "shr_id_find_proc demo_hm demo_shr_pt 42 = Some demo_shr_ctx"
  by (simp add: shr_id_find_proc_def demo_shr_pt_def demo_shr_ctx_def shr_id_proc_create_def)

lemma demo_no_refs: "refs (nodes hm shr_id_node_init) k = 0"
  by (simp add: nodes_init refs_def)

lemma demo_shr_reach1: "shr_reach demo_hm demo_shr_res demo_shr_held demo_shr_t1 demo_shr_pt1 demo_shr_w1"
  unfolding demo_shr_pt1_def
  by (rule sh_ioctl [OF demo_shr_reach0 demo_shr_proc0 _ _ _ demo_shr_create])
    (simp_all add: demo_no_refs demo_shr_env_def demo_shr_io_def demo_shr_call_def ioctl_arg_def)

lemma demo_shr_nodes1: "nodes demo_hm demo_shr_t1 = [(1, cstr demo_shr_name) \<mapsto> demo_shr_new]"
proof -
  have "sn_type demo_shr_new = 1" "cstr (sn_name demo_shr_new) = cstr demo_shr_name" "sn_key demo_shr_new = nm_key (cstr demo_shr_name)"
    by (simp_all add: demo_shr_new_def shr_id_node_init0_def demo_shr_attr_def name_key_nm demo_shr_name_def shr_id_name_generate_def Let_def)
  then show ?thesis by (auto simp: fun_eq_iff split_paired_All nodes_def demo_shr_t1_def shr_bucket_upd_def shr_id_node_init_def)
qed

lemma demo_shr_node1: "nodes demo_hm demo_shr_t1 (1, cstr demo_shr_name) = Some demo_shr_new"
  by (simp add: demo_shr_nodes1)

lemma demo_shr_proc1: "shr_id_find_proc demo_hm demo_shr_pt1 42 = Some demo_shr_ctx1"
  by (simp add: shr_id_find_proc_def demo_shr_pt1_def demo_shr_pt_def shr_id_proc_store_def demo_shr_ctx1_def demo_shr_ctx_def shr_id_proc_create_def)


section \<open>Properties\<close>

lemma reach_node:
  assumes "shr_reach hm (core_res env procs0 inst) (core_holds ida sync inst lim) t pt s" "nodes hm t k = Some n"
  shows "node_ok n" "core_holds ida sync inst lim s (refs (nodes hm t))" "finite (dom (nodes hm t))"
  using core.reach_sys [OF assms(1)] assms(2) by (auto simp: sys_inv_def shr_inv_def table_ok_def)

lemma refs_pos:
  assumes "finite (dom N)" "N k = Some n" "local_id n"
  shows "0 < refs N (rkey n)"
proof -
  let ?S = "{k \<in> dom N. local_id (the (N k)) \<and> rkey (the (N k)) = rkey n}"
  have "k \<in> ?S" using assms(2,3) by auto
  moreover have "finite ?S" by (rule finite_subset [OF _ assms(1)]) auto
  ultimately show ?thesis unfolding refs_def card_gt_0_iff by blast
qed

lemma refs_le: "finite (dom N) \<Longrightarrow> refs N r \<le> card (dom N)"
  unfolding refs_def by (rule card_mono) auto

text \<open>What another process has in a node survives.\<close>

lemma others_node:
  assumes "others p N N'" "q \<noteq> 0" "q \<noteq> p" "N k = Some n" "sn_pid n = q \<or> 0 < wopen n q"
  shows "\<exists>m. N' k = Some m \<and> (sn_pid m = q \<longleftrightarrow> sn_pid n = q) \<and> wopen m q = wopen n q"
proof -
  have "nopen N' q k = nopen N q k \<and> (creator N' k = q \<longleftrightarrow> creator N k = q)" using assms(1-3) unfolding others_def by blast
  then show ?thesis using assms(2,4,5) by (cases "N' k") (auto simp: nopen_def creator_def)
qed

text \<open>
  C28. In every reachable state of the sharing module on a device the counter of a node is one for a creator that has
  not destroyed it plus the opens not yet closed, and these never come near the end of the counter. Every process
  with the file open has exactly its share of them in its own lists, which is what the release of its file undoes.
\<close>

theorem shr_node_counts_exact:
  assumes "shr_reach hm (core_res env procs0 inst) (core_holds ida sync inst lim) t pt s" "nodes hm t k = Some n"
  shows "unat (sn_ref n) = (if sn_pid n \<noteq> 0 then 1 else 0) + opens n \<and> 0 < unat (sn_ref n) \<and> unat (sn_ref n) < 2 ^ 31 - 30 \<and>
    (\<forall>p c. shr_id_find_proc hm pt p = Some c \<longrightarrow> wopen n p = lref (sc_open_list c) k \<and>
       (sn_pid n = p \<longleftrightarrow> hlist_find ekey k (sc_create_list c) \<noteq> None))"
proof -
  have sys: "sys_inv hm (core_holds ida sync inst lim) t pt s" by (rule core.reach_sys [OF assms(1)])
  have ok: "node_ok n" by (rule reach_node [OF assms])
  then have "opens n \<le> 2147483616" using opens_bound by (simp add: node_ok_def)
  moreover have "wopen n p = lref (sc_open_list c) k \<and> (sn_pid n = p \<longleftrightarrow> hlist_find ekey k (sc_create_list c) \<noteq> None)"
    if "shr_id_find_proc hm pt p = Some c" for p c
    using ctx_linkD(3,4) [OF sys_link(1) [OF sys that], of k] sys_link(2) [OF sys that] assms(2) by (simp add: nopen_def creator_def)
  ultimately show ?thesis using ok by (auto simp: node_ok_def live_def)
qed

theorem shr_node_counts_exact_witness:
  "unat (sn_ref demo_shr_new) = (if sn_pid demo_shr_new \<noteq> 0 then 1 else 0) + opens demo_shr_new"
  using shr_node_counts_exact [OF demo_shr_reach1 demo_shr_node1] by blast

text \<open>
  C27. A shared id stays allocated as long as it is shared: in every reachable state the entry of the id of every node of
  this device carries one reference for an owner that has not released it plus one for every node, and the id
  is taken in the allocator of the device, whatever its owner did in the meantime.
\<close>

theorem shr_ids_stay_allocated:
  assumes "shr_reach hm (core_res env procs0 inst) (core_holds ida sync inst lim) t pt (ts, w)" "nodes hm t k = Some n" "local_id n"
  shows "sn_inst n = inst \<and> 0 < refs (nodes hm t) (rkey n) \<and>
    (\<exists>x out. res_entry ts (sn_res_type n) (sn_id n) = Some x \<and>
       ri_ref x = (if res_owned x then 1 else 0) + int (refs (nodes hm t) (rkey n)) \<and>
       device_holds ida sync inst (trs_res_get_id_type (sn_res_type n)) (lim (sn_res_type n)) (rw_ids w) out \<and> sn_id n \<in> out)"
proof -
  let ?g = "refs (nodes hm t)" and ?ty = "sn_res_type n"
  note R = reach_node [OF assms(1,2)]
  have u: "0 < ?g (rkey n)" by (rule refs_pos [OF R(3) assms(2,3)])
  then have i: "sn_inst n = inst" "res_shared ?ty" using core_holdsD(2) [OF R(2)] by blast+
  obtain procs out where st: "res_state (device_holds ida sync inst (trs_res_get_id_type ?ty) (lim ?ty)) inst (lim ?ty) ?ty ts procs w out (users_of inst ?ty ?g)"
    using core_holdsD(3) [OF R(2) i(2)] by blast
  have user: "0 < users_of inst ?ty ?g (unat (sn_id n))" using u i(1) by simp
  obtain x where x: "res_entry ts ?ty (sn_id n) = Some x" "sn_id n \<in> out" using put_inv [OF res_state_procs [OF st] user] by metis
  have "ri_ref x = (if res_owned x then 1 else 0) + int (?g (rkey n))" using entry_ref(1) [OF res_state_procs [OF st] x(1)] i(1) by simp
  moreover have "device_holds ida sync inst (trs_res_get_id_type ?ty) (lim ?ty) (rw_ids w) out" using st by (simp add: res_state_def)
  ultimately show ?thesis using u i(1) x by blast
qed

theorem shr_ids_stay_allocated_witness:
  "\<exists>x out. res_entry (fst demo_shr_w1) 1 2 = Some x \<and> 0 < ri_ref x \<and>
     device_holds idr_lowest None demo_id_inst (trs_res_get_id_type 1) 10 (rw_ids (snd demo_shr_w1)) out \<and> 2 \<in> out"
proof -
  have n: "sn_res_type demo_shr_new = 1" "sn_id demo_shr_new = 2" "local_id demo_shr_new"
    by (simp_all add: demo_shr_new_def shr_id_node_init0_def demo_shr_attr_def local_id_def)
  have r: "shr_reach demo_hm demo_shr_res demo_shr_held demo_shr_t1 demo_shr_pt1 (fst demo_shr_w1, snd demo_shr_w1)" using demo_shr_reach1 by simp
  show ?thesis using shr_ids_stay_allocated [OF r demo_shr_node1 n(3)] n(1,2) by auto
qed

text \<open>
  C29. Releasing the file of a process in any reachable state always succeeds and is complete: no node has an open or a
  creator of that process any more, its context is gone, and nothing that another process created or opened changes.
\<close>

theorem shr_release_complete:
  assumes "shr_reach hm (core_res env procs0 inst) (core_holds ida sync inst lim) t pt s" "shr_id_find_proc hm pt p = Some c"
  shows "\<exists>pt' t' s'. shr_id_file_release hm (core_res env procs0 inst) (Some p) pt t s = Some (0, pt', t', s') \<and>
    shr_id_find_proc hm pt' = (shr_id_find_proc hm pt)(p := None) \<and>
    (\<forall>k n. nodes hm t' k = Some n \<longrightarrow> sn_pid n \<noteq> p \<and> wopen n p = 0) \<and>
    (\<forall>q k n. q \<noteq> 0 \<longrightarrow> q \<noteq> p \<longrightarrow> nodes hm t k = Some n \<longrightarrow> sn_pid n = q \<or> 0 < wopen n q \<longrightarrow>
       (\<exists>m. nodes hm t' k = Some m \<and> (sn_pid m = q \<longleftrightarrow> sn_pid n = q) \<and> wopen m q = wopen n q))"
proof -
  obtain pt' t' s' where r: "shr_id_file_release hm (core_res env procs0 inst) (Some p) pt t s = Some (0, pt', t', s')"
    "shr_id_find_proc hm pt' = (shr_id_find_proc hm pt)(p := None)" "others p (nodes hm t) (nodes hm t')"
    "\<forall>k. nopen (nodes hm t') p k = 0 \<and> creator (nodes hm t') k \<noteq> p"
    using core.release_sys [OF core.reach_sys [OF assms(1)] assms(2)] by blast
  have "sn_pid n \<noteq> p \<and> wopen n p = 0" if "nodes hm t' k = Some n" for k n
    using spec [OF r(4), of k] that by (simp add: nopen_def creator_def)
  moreover have "\<exists>m. nodes hm t' k = Some m \<and> (sn_pid m = q \<longleftrightarrow> sn_pid n = q) \<and> wopen m q = wopen n q"
    if "q \<noteq> 0" "q \<noteq> p" "nodes hm t k = Some n" "sn_pid n = q \<or> 0 < wopen n q" for q k n
    by (rule others_node [OF r(3) that])
  ultimately show ?thesis using r(1,2) by blast
qed

theorem shr_release_complete_witness:
  "\<exists>pt' t' s'. shr_id_file_release demo_hm demo_shr_res (Some 42) demo_shr_pt1 demo_shr_t1 demo_shr_w1 = Some (0, pt', t', s') \<and>
     (\<forall>k n. nodes demo_hm t' k = Some n \<longrightarrow> sn_pid n \<noteq> 42)"
  using shr_release_complete [OF demo_shr_reach1 demo_shr_proc1] by blast

text \<open>
  C30. Every ioctl of a reachable state returns, that is, never reaches a node that has been freed or finds a
  reference missing, and it leaves what every other process created or opened as it is.
\<close>

theorem shr_ioctl_isolated:
  assumes "shr_reach hm (core_res env procs0 inst) (core_holds ida sync inst lim) t pt s" "shr_id_find_proc hm pt p = Some c"
    "\<forall>k. int (refs (nodes hm t) k) < INT_MAX - 1" "se_tgid e \<noteq> 0" "\<forall>io. arg = Some io \<longrightarrow> length (io_name (ioctl_arg call io)) = SHR_ID_NSM_NAME_SIZE"
  shows "\<exists>ret c' arg' t' s'. shr_id_file_ioctl hm (core_res env procs0 inst) e call (Some c) cmd arg t s = Some (ret, Some c', arg', t', s') \<and>
    sc_pid c' = p \<and>
    (\<forall>q k n. q \<noteq> 0 \<longrightarrow> q \<noteq> p \<longrightarrow> nodes hm t k = Some n \<longrightarrow> sn_pid n = q \<or> 0 < wopen n q \<longrightarrow>
       (\<exists>m. nodes hm t' k = Some m \<and> (sn_pid m = q \<longleftrightarrow> sn_pid n = q) \<and> wopen m q = wopen n q))"
proof -
  note sys = core.reach_sys [OF assms(1)]
  have inv: "shr_inv hm (core_holds ida sync inst lim) t s" using sys by (simp add: sys_inv_def)
  note L = sys_link [OF sys assms(2)]
  obtain ret c' arg' t' s' where r: "shr_id_file_ioctl hm (core_res env procs0 inst) e call (Some c) cmd arg t s = Some (ret, Some c', arg', t', s')"
    "step_ok hm (core_holds ida sync inst lim) t c t' s' c'"
    using core.ioctl_total [OF inv L(1) assms(3,4,5)] by blast
  have o: "others p (nodes hm t) (nodes hm t')" "sc_pid c' = p" using r(2) L(2) by (simp_all add: step_ok_def)
  have "\<exists>m. nodes hm t' k = Some m \<and> (sn_pid m = q \<longleftrightarrow> sn_pid n = q) \<and> wopen m q = wopen n q"
    if "q \<noteq> 0" "q \<noteq> p" "nodes hm t k = Some n" "sn_pid n = q \<or> 0 < wopen n q" for q k n
    by (rule others_node [OF o(1) that])
  then show ?thesis using r(1) o(2) by blast
qed

theorem shr_ioctl_isolated_witness:
  "\<exists>ret c' arg' t' s'. shr_id_file_ioctl demo_hm demo_shr_res demo_shr_env demo_shr_call (Some demo_shr_ctx1) (Some SHR_ID_DESTROY)
     (Some (demo_shr_io\<lparr>io_name := demo_shr_name\<rparr>)) demo_shr_t1 demo_shr_w1 = Some (ret, Some c', arg', t', s') \<and> sc_pid c' = 42"
proof -
  have "int (refs (nodes demo_hm demo_shr_t1) k) < INT_MAX - 1" for k using refs_le [of "nodes demo_hm demo_shr_t1" k] by (simp add: demo_shr_nodes1)
  moreover have "length demo_shr_name = 65" by (simp add: demo_shr_name_def shr_id_name_generate_def Let_def)
  ultimately show ?thesis
    using shr_ioctl_isolated [OF demo_shr_reach1 demo_shr_proc1, of demo_shr_env "Some (demo_shr_io\<lparr>io_name := demo_shr_name\<rparr>)" demo_shr_call "Some SHR_ID_DESTROY"]
    by (fastforce simp: demo_shr_env_def demo_shr_call_def ioctl_arg_def)
qed


text \<open>
  C31. Opening a shared id in any reachable state: it succeeds exactly for a process that the creator has put on the
  white list of the node, that was not started after that (so that a process that got the number of a dead one is
  refused), and that has not used up its opens, up to the memory for its own list. The process then learns the id
  and the device of the node and has one more open; otherwise it has what it had.
\<close>

theorem shr_open_authorised:
  assumes "shr_reach hm (core_res env procs0 inst) (core_holds ida sync inst lim) t pt s" "shr_id_find_proc hm pt p = Some c"
    "length (io_name io) = SHR_ID_NSM_NAME_SIZE"
  shows "\<exists>ret c' io' t' s'. shr_id_open hm (core_res env procs0 inst) e c io t s = Some (ret, c', io', t', s') \<and>
    (if ret = 0
     then \<exists>ty n m. shr_id_get_type_by_name (io_name io) = (0, Some ty) \<and> nodes hm t (ty, cstr (io_name io)) = Some n \<and>
       may_open n p (sc_start_time c) \<and> io_shr_id io' = sn_id n \<and> io_devid io' = ti_devid (sn_inst n) \<and> io_tsid io' = ti_tsid (sn_inst n) \<and>
       nodes hm t' (ty, cstr (io_name io)) = Some m \<and> wopen m p = wopen n p + 1
     else c' = c \<and> (\<forall>k. nopen (nodes hm t') p k = nopen (nodes hm t) p k) \<and>
       (\<forall>ty n. shr_id_get_type_by_name (io_name io) = (0, Some ty) \<longrightarrow> nodes hm t (ty, cstr (io_name io)) = Some n \<longrightarrow>
          may_open n p (sc_start_time c) \<longrightarrow> \<not> se_proc_mem e))"
proof -
  note sys = core.reach_sys [OF assms(1)]
  have inv: "shr_inv hm (core_holds ida sync inst lim) t s" using sys by (simp add: sys_inv_def)
  note L = sys_link [OF sys assms(2)]
  show ?thesis using core.open_ioctl_spec [OF inv L(1) assms(3), of env procs0 e] unfolding L(2) .
qed

theorem shr_open_authorised_witness:
  "\<exists>c' io' t' s'. shr_id_open demo_hm demo_shr_res demo_shr_env demo_shr_ctx1 (demo_shr_io\<lparr>io_name := demo_shr_name\<rparr>) demo_shr_t1 demo_shr_w1 =
     Some (0, c', io', t', s') \<and> io_shr_id io' = 2"
proof -
  let ?io = "demo_shr_io\<lparr>io_name := demo_shr_name\<rparr>"
  have len: "length (io_name ?io) = SHR_ID_NSM_NAME_SIZE" by (simp add: demo_shr_name_def shr_id_name_generate_def Let_def)
  have ty: "shr_id_get_type_by_name demo_shr_name = (0, Some 1)"
    unfolding demo_shr_name_def using name_parse [of 1 0 0 42 2] by simp
  have m: "may_open demo_shr_new 42 (sc_start_time demo_shr_ctx1)"
    by (simp add: may_open_def demo_shr_new_def shr_id_node_init0_def demo_shr_ctx1_def demo_shr_ctx_def shr_id_proc_create_def time_after_def)
  have i: "sn_id demo_shr_new = 2" by (simp add: demo_shr_new_def shr_id_node_init0_def demo_shr_attr_def)
  have e: "se_proc_mem demo_shr_env" by (simp add: demo_shr_env_def)
  show ?thesis using shr_open_authorised [OF demo_shr_reach1 demo_shr_proc1 len, of demo_shr_env] ty m i e demo_shr_nodes1
    by (auto split: if_splits)
qed

end
