(* ===== verification/Shr_Event.thy ===== *)
theory Shr_Event
  imports Shr_Device
begin

text \<open>
  The message by which a process asks for the address of the register behind a shared id,
  \<^verbatim>\<open>rms/trs_drv/shr_id/trs_shr_id_event_update.c\<close>. The handler sits in front of the event scheduler and fills the
  address into the message. \<open>topology\<close> is \<^verbatim>\<open>dms_get_dev_topology\<close>, \<open>devinfo\<close> is \<^verbatim>\<open>devdrv_manager_get_devdrv_info\<close> (the
  chip and the die of a device), both of other drivers.
\<close>

section \<open>Addresses\<close>

abbreviation (input) SHRID_STARS_BASE_ADDR :: u64 where "SHRID_STARS_BASE_ADDR \<equiv> 0x06a0000000"
abbreviation (input) SHRID_ASCEND920_CHIP_ADDR_OFFSET :: u64 where "SHRID_ASCEND920_CHIP_ADDR_OFFSET \<equiv> 0x80000000000"
abbreviation (input) SHRID_ASCEND920_DIE_ADDR_OFFSET :: u64 where "SHRID_ASCEND920_DIE_ADDR_OFFSET \<equiv> 0x10000000000"
abbreviation (input) SHRID_STARS_PCIE_BASE_ADDR :: u64 where "SHRID_STARS_PCIE_BASE_ADDR \<equiv> 0x400004008000"
abbreviation (input) SHRID_STARS_NOTIFY_BASE_ADDR :: u64 where "SHRID_STARS_NOTIFY_BASE_ADDR \<equiv> 0x100000"
abbreviation (input) TOPOLOGY_HCCS :: int where "TOPOLOGY_HCCS \<equiv> 0"
abbreviation (input) TOPOLOGY_PIX :: int where "TOPOLOGY_PIX \<equiv> 1"
abbreviation (input) TOPOLOGY_PIB :: int where "TOPOLOGY_PIB \<equiv> 2"
abbreviation (input) TOPOLOGY_PHB :: int where "TOPOLOGY_PHB \<equiv> 3"
abbreviation (input) TOPOLOGY_SYS :: int where "TOPOLOGY_SYS \<equiv> 4"
abbreviation (input) TOPOLOGY_SIO :: int where "TOPOLOGY_SIO \<equiv> 5"

definition shr_id_get_notify_base_addr ::
    "(u32 \<Rightarrow> u32 \<Rightarrow> int \<times> int) \<Rightarrow> (u32 \<Rightarrow> (8 word \<times> u32) option) \<Rightarrow> u32 \<Rightarrow> u32 \<Rightarrow> int \<times> u64 option" where
  "shr_id_get_notify_base_addr topology devinfo devid remotePhyId =
     (case topology devid remotePhyId of
        (ret, topology_type) \<Rightarrow>
          if ret \<noteq> 0 then (ret, None)
          else if topology_type = TOPOLOGY_HCCS \<or> topology_type = TOPOLOGY_SIO
          then (case devinfo remotePhyId of
                  None \<Rightarrow> (- EINVAL, None)
                | Some (chip_id, die_id) \<Rightarrow>
                    (0, Some (SHRID_STARS_BASE_ADDR + SHRID_STARS_NOTIFY_BASE_ADDR +
                       SHRID_ASCEND920_CHIP_ADDR_OFFSET * ucast chip_id + SHRID_ASCEND920_DIE_ADDR_OFFSET * ucast die_id)))
          else if topology_type = TOPOLOGY_PIX \<or> topology_type = TOPOLOGY_PIB \<or> topology_type = TOPOLOGY_PHB \<or> topology_type = TOPOLOGY_SYS
          then (0, Some (SHRID_STARS_PCIE_BASE_ADDR + SHRID_STARS_NOTIFY_BASE_ADDR +
                  push_bit 32 (ucast remotePhyId) + push_bit 36 (ucast devid)))
          else (- EINVAL, None))"

definition shr_id_get_notify_offset :: "u32 \<Rightarrow> u32" where
  "shr_id_get_notify_offset i = (i mod 512) * 4 + (i div 512) * (64 * 1024)"

section \<open>The message\<close>

text \<open>The 40 bytes of the message: \<^verbatim>\<open>struct event_sync_msg\<close>, \<^verbatim>\<open>struct drvShrIdInfo\<close>, and four bytes that are not looked at.\<close>

record shr_event_msg =
  ev_sync :: u64
  ev_devid :: u32
  ev_tsid :: u32
  ev_id_type :: u32
  ev_shrid :: u32
  ev_flag :: u32
  ev_rsv0 :: u32
  ev_rsv1 :: u32
  ev_rest :: u32

abbreviation (input) DRV_SUBEVENT_TRS_SHR_ID_CONFIG_MSG :: u32 where "DRV_SUBEVENT_TRS_SHR_ID_CONFIG_MSG \<equiv> 36"
abbreviation (input) DRV_SUBEVENT_TRS_SHR_ID_DECONFIG_MSG :: u32 where "DRV_SUBEVENT_TRS_SHR_ID_DECONFIG_MSG \<equiv> 37"

text \<open>
  \<open>msg\<close> is the content of the user's buffer, \<open>None\<close> for a NULL pointer; the content afterwards is returned. \<open>copy_in\<close>
  and \<open>copy_out\<close> are the outcomes of \<^verbatim>\<open>copy_from_user\<close> and \<^verbatim>\<open>copy_to_user\<close>, \<open>tgid\<close> is \<^verbatim>\<open>current->tgid\<close>.
\<close>

definition shr_id_event_update ::
    "(u32 \<Rightarrow> u32 \<Rightarrow> int \<times> int) \<Rightarrow> (u32 \<Rightarrow> (8 word \<times> u32) option) \<Rightarrow> (u32 \<Rightarrow> nat) \<Rightarrow> 'w shr_res \<Rightarrow> bool \<Rightarrow> bool \<Rightarrow> int \<Rightarrow> u32 \<Rightarrow> u32 \<Rightarrow>
     shr_event_msg option \<Rightarrow> shr_procs \<Rightarrow> shr_htable \<Rightarrow> 'w \<Rightarrow> (int \<times> shr_event_msg option \<times> shr_procs \<times> shr_htable \<times> 'w) option" where
  "shr_id_event_update topology devinfo hm res copy_in copy_out tgid devid subevent_id msg pt t w =
     (if subevent_id \<noteq> DRV_SUBEVENT_TRS_SHR_ID_CONFIG_MSG \<and> subevent_id \<noteq> DRV_SUBEVENT_TRS_SHR_ID_DECONFIG_MSG
      then Some (0, msg, pt, t, w)
      else case msg of
        None \<Rightarrow> Some (- EINVAL, msg, pt, t, w)
      | Some info \<Rightarrow>
          if \<not> copy_in then Some (- EFAULT, msg, pt, t, w)
          else if ev_id_type info \<ge> word_of_int SHR_ID_TYPE_MAX then Some (- EINVAL, msg, pt, t, w)
          else do {
            (ok, pt1, t1, w1) \<leftarrow>
              (if subevent_id = DRV_SUBEVENT_TRS_SHR_ID_CONFIG_MSG
               then shr_id_is_belong_to_proc hm res \<lparr>ti_devid = ev_devid info, ti_tsid = ev_tsid info\<rparr> tgid
                      (shr_id_type_trans (sint (ev_id_type info))) (ev_shrid info) pt t w
               else Some (True, pt, t, w));
            if \<not> ok then Some (- EACCES, msg, pt1, t1, w1)
            else case shr_id_get_notify_base_addr topology devinfo devid (ev_devid info) of
              (ret, baseAddr) \<Rightarrow>
                if ret \<noteq> 0 then Some (ret, msg, pt1, t1, w1)
                else let notify_addr = the baseAddr + ucast (shr_id_get_notify_offset (ev_shrid info));
                         info' = info\<lparr>ev_rsv0 := ucast (notify_addr AND 0xffffffff), ev_rsv1 := ucast (drop_bit 32 notify_addr)\<rparr>
                     in if \<not> copy_out then Some (- EFAULT, msg, pt1, t1, w1) else Some (0, Some info', pt1, t1, w1)
          })"

section \<open>Distinct ids have distinct registers\<close>

lemma notify_offset_unat:
  assumes "i < 2 ^ 25"
  shows "unat (shr_id_get_notify_offset i) = (unat i mod 512) * 4 + (unat i div 512) * 65536"
proof -
  have i: "unat i < 2 ^ 25" using assms by (simp add: word_less_nat_alt)
  have m: "unat i mod 512 \<le> 511" by simp
  have d: "unat i div 512 \<le> 65535" using i by simp
  have "(unat i mod 512) * 4 + (unat i div 512) * 65536 < 4294967296" using m d by linarith
  then show ?thesis
    by (simp add: shr_id_get_notify_offset_def unat_word_ariths unat_div unat_mod)
qed

lemma slots_eq:
  assumes "(a :: nat) * 4 + b * 65536 = c * 4 + d * 65536" "a < 512" "c < 512"
  shows "a = c \<and> b = d"
proof -
  have e: "a + b * 16384 = c + d * 16384" using assms(1) by simp
  have "(a + b * 16384) div 16384 = b" "(c + d * 16384) div 16384 = d" using assms(2,3) by simp_all
  then have "b = d" using e by simp
  then show ?thesis using e by simp
qed

lemma notify_offset_inj:
  assumes "i < 2 ^ 25" "j < 2 ^ 25" "shr_id_get_notify_offset i = shr_id_get_notify_offset j"
  shows "i = j"
proof -
  have "(unat i mod 512) * 4 + (unat i div 512) * 65536 = (unat j mod 512) * 4 + (unat j div 512) * 65536"
    using notify_offset_unat assms by metis
  from slots_eq [OF this] have "unat i div 512 = unat j div 512" "unat i mod 512 = unat j mod 512" by simp_all
  then have "unat i = unat j" by (metis div_mult_mod_eq)
  then show ?thesis by (simp add: word_unat_eq_iff)
qed

section \<open>The lists of a process name the ids of its nodes\<close>

text \<open>Every node is one that was there before, with the same name and id.\<close>

definition kept :: "shr_nodes \<Rightarrow> shr_nodes \<Rightarrow> bool" where
  "kept N N' \<longleftrightarrow> (\<forall>k m. N' k = Some m \<longrightarrow> (\<exists>n. N k = Some n \<and> same_node n m))"

lemma same_node_trans: "same_node a b \<Longrightarrow> same_node b c \<Longrightarrow> same_node a c"
  by (simp add: same_node_def)

lemma kept_refl [simp]: "kept N N"
  by (simp add: kept_def)

lemma kept_trans: "kept A B \<Longrightarrow> kept B C \<Longrightarrow> kept A C"
  unfolding kept_def using same_node_trans by blast

lemma kept_upd: "N k = Some n \<Longrightarrow> (\<forall>m. v = Some m \<longrightarrow> same_node n m) \<Longrightarrow> kept N (N(k := v))"
  by (auto simp: kept_def)

context id_refs
begin

lemma destroy_kept:
  assumes "shr_inv hm held t w" "pid \<noteq> 0" "shr_id_node_destroy hm res name ty pid t w = Some (ret, t', w')"
  shows "shr_inv hm held t' w' \<and> kept (nodes hm t) (nodes hm t')"
  using destroy_effect [OF assms(1,2), of name ty] assms(3)
  by (auto simp: lookup_def same_node_def split: option.splits if_splits intro!: kept_upd)

lemma close_kept:
  assumes "shr_inv hm held t w" "pid \<noteq> 0" "shr_id_node_close hm res name ty pid t w = Some (ret, t', w')"
  shows "shr_inv hm held t' w' \<and> kept (nodes hm t) (nodes hm t')"
  using close_effect [OF assms(1,2), of name ty] assms(3)
  by (auto simp: lookup_def split: option.splits if_splits intro!: kept_upd)

lemma open_kept:
  assumes "shr_inv hm held t w" "pid \<noteq> 0" "shr_id_node_open hm res name pid start attr t w = Some (ret, attr', t', w')"
  shows "shr_inv hm held t' w' \<and> kept (nodes hm t) (nodes hm t') \<and>
    (ret = 0 \<longrightarrow> (\<exists>n. nodes hm t (at_type attr, cstr name) = Some n \<and> attr' = attr\<lparr>at_inst := sn_inst n, at_id := sint (sn_id n)\<rparr>))"
  using open_effect [OF assms(1,2), of name start attr] assms(3)
  by (auto simp: lookup_def split: option.splits if_splits intro!: kept_upd)

lemma set_pids_kept:
  assumes "shr_inv hm held t w" "shr_id_node_set_pids hm res name ty pid pids t w = Some (ret, t', w')"
  shows "shr_inv hm held t' w' \<and> kept (nodes hm t) (nodes hm t')"
  using set_pids_effect [OF assms(1), of name ty pid pids] assms(2)
  by (auto simp: lookup_def keeps_def split: option.splits if_splits intro!: kept_upd)

lemma close_times_kept:
  assumes "shr_inv hm held t w" "pid \<noteq> 0" "close_times hm res name ty pid k ret t w = Some (ret', t', w')"
  shows "shr_inv hm held t' w' \<and> kept (nodes hm t) (nodes hm t')"
  using assms
proof (induction k arbitrary: ret t w)
  case (Suc k)
  then obtain r t1 w1 where c: "shr_id_node_close hm res name ty pid t w = Some (r, t1, w1)"
    "close_times hm res name ty pid k (ret OR r) t1 w1 = Some (ret', t', w')" by (auto simp: bind_eq_Some_conv)
  note K = close_kept [OF Suc.prems(1,2) c(1)]
  from Suc.IH [OF _ Suc.prems(2) c(2)] K show ?case using kept_trans by blast
qed simp

lemma opened_loop_kept:
  assumes "shr_inv hm held t w" "sc_pid c \<noteq> 0" "recycle_opened_loop hm res es ret c t w = Some (c', t', w')"
  shows "shr_inv hm held t' w' \<and> kept (nodes hm t) (nodes hm t') \<and> sc_pid c' = sc_pid c"
  using assms
proof (induction es arbitrary: ret c t w)
  case (Cons e es)
  then obtain r t1 w1 where c: "close_times hm res (sp_name e) (sp_type e) (sc_pid c) (unat (sp_ref e)) ret t w = Some (r, t1, w1)"
    "recycle_opened_loop hm res es r ((if r = 0 then shr_id_proc_num_dec 1 (sp_ref e) c else c)\<lparr>sc_open_list := es\<rparr>) t1 w1 = Some (c', t', w')"
    by (auto simp: bind_eq_Some_conv Let_def)
  note K = close_times_kept [OF Cons.prems(1,2) c(1)]
  have p: "sc_pid ((if r = 0 then shr_id_proc_num_dec 1 (sp_ref e) c else c)\<lparr>sc_open_list := es\<rparr>) = sc_pid c" by (simp add: shr_id_proc_num_dec_def)
  from Cons.IH [OF _ _ c(2)] K Cons.prems(2) p show ?case using kept_trans by metis
qed simp

lemma created_loop_kept:
  assumes "shr_inv hm held t w" "sc_pid c \<noteq> 0" "recycle_created_loop hm res es c t w = Some (c', t', w')"
  shows "shr_inv hm held t' w' \<and> kept (nodes hm t) (nodes hm t')"
  using assms
proof (induction es arbitrary: c t w)
  case (Cons e es)
  then obtain r t1 w1 where c: "shr_id_node_destroy hm res (sp_name e) (sp_type e) (sc_pid c) t w = Some (r, t1, w1)"
    "recycle_created_loop hm res es ((if r = 0 then shr_id_proc_num_dec 0 (sp_ref e) c else c)\<lparr>sc_create_list := es\<rparr>) t1 w1 = Some (c', t', w')"
    by (auto simp: bind_eq_Some_conv Let_def)
  note K = destroy_kept [OF Cons.prems(1,2) c(1)]
  have p: "sc_pid ((if r = 0 then shr_id_proc_num_dec 0 (sp_ref e) c else c)\<lparr>sc_create_list := es\<rparr>) = sc_pid c" by (simp add: shr_id_proc_num_dec_def)
  from Cons.IH [OF _ _ c(2)] K Cons.prems(2) p show ?case using kept_trans by metis
qed simp

lemma recycle_kept:
  assumes "shr_inv hm held t w" "sc_pid c \<noteq> 0" "shr_id_node_recycle hm res c t w = Some (c', t', w')"
  shows "kept (nodes hm t) (nodes hm t')"
proof -
  obtain c1 t1 w1 where a: "recycle_opened_loop hm res (sc_open_list c) 0 c t w = Some (c1, t1, w1)"
    "recycle_created_loop hm res (sc_create_list c1) c1 t1 w1 = Some (c', t', w')"
    using assms(3) by (auto simp: shr_id_node_recycle_def shr_id_recycle_opened_def shr_id_recycle_created_def bind_eq_Some_conv)
  note K = opened_loop_kept [OF assms(1,2) a(1)]
  from created_loop_kept [OF _ _ a(2)] K assms(2) show ?thesis using kept_trans by metis
qed

end

text \<open>What the entries of a process say about its ids, and when a node bears it out.\<close>

definition eid :: "shr_id_proc_node \<Rightarrow> (int \<times> string) \<times> res_key" where
  "eid e = (ekey e, sp_inst e, sp_res_type e, word_of_int (sp_id e))"

definition entries :: "shr_id_proc_ctx \<Rightarrow> ((int \<times> string) \<times> res_key) set" where
  "entries c = eid ` (set (sc_open_list c) \<union> set (sc_create_list c))"

definition named :: "shr_nodes \<Rightarrow> (int \<times> string) \<times> res_key \<Rightarrow> bool" where
  "named N x \<longleftrightarrow> (\<exists>n. N (fst x) = Some n \<and> rkey n = snd x)"

definition ids_same :: "shr_nodes \<Rightarrow> shr_nodes \<Rightarrow> bool" where
  "ids_same N N' \<longleftrightarrow> (\<forall>k n m. N k = Some n \<longrightarrow> N' k = Some m \<longrightarrow> same_node n m)"

definition typed :: "shr_nodes \<Rightarrow> bool" where
  "typed N \<longleftrightarrow> (\<forall>k n. N k = Some n \<longrightarrow> sn_res_type n = shr_id_type_trans (fst k))"

lemma kept_same: "kept N N' \<Longrightarrow> ids_same N N'"
  by (fastforce simp: kept_def ids_same_def)

lemma same_kept: "ids_same A B \<Longrightarrow> kept B C \<Longrightarrow> ids_same A C"
  unfolding kept_def ids_same_def using same_node_trans by metis

lemma typed_kept: "typed N \<Longrightarrow> kept N N' \<Longrightarrow> typed N'"
  unfolding kept_def typed_def same_node_def by metis

lemma link_present:
  assumes "ctx_link N c" "x \<in> entries c"
  shows "N (fst x) \<noteq> None"
proof -
  note L = ctx_linkD [OF assms(1)]
  obtain e where e: "x = eid e" "e \<in> set (sc_open_list c) \<or> e \<in> set (sc_create_list c)" using assms(2) by (auto simp: entries_def)
  have ok: "pentry_ok e" "distinct (map ekey (sc_open_list c))" "distinct (map ekey (sc_create_list c))" using L(1) e(2) by (auto simp: ctx_ok_def)
  from e(2) show ?thesis
  proof
    assume "e \<in> set (sc_open_list c)"
    then have "hlist_find ekey (ekey e) (sc_open_list c) = Some e" by (rule hlist_find_distinct [OF ok(2)])
    then have "nopen N (sc_pid c) (ekey e) = unat (sp_ref e)" using L(3) by (simp add: lref_def)
    moreover have "unat (sp_ref e) \<noteq> 0" using ok(1) by (simp add: pentry_ok_def unat_eq_zero)
    ultimately show ?thesis using e(1) by (cases "N (ekey e)") (simp_all add: eid_def nopen_def)
  next
    assume "e \<in> set (sc_create_list c)"
    then have "hlist_find ekey (ekey e) (sc_create_list c) = Some e" by (rule hlist_find_distinct [OF ok(3)])
    then have "creator N (ekey e) = sc_pid c" using L(4) by simp
    then show ?thesis using L(2) e(1) by (cases "N (ekey e)") (simp_all add: eid_def creator_def)
  qed
qed

lemma named_same:
  assumes "named N x" "ids_same N N'" "N' (fst x) \<noteq> None"
  shows "named N' x"
proof -
  obtain n m where nm: "N (fst x) = Some n" "rkey n = snd x" "N' (fst x) = Some m" using assms(1,3) by (auto simp: named_def)
  then have "same_node n m" using assms(2) unfolding ids_same_def by blast
  then show ?thesis using nm by (simp add: named_def same_node_def)
qed

lemma eid_ref [simp]: "eid (e\<lparr>sp_ref := r\<rparr>) = eid e"
  by (simp add: eid_def)

lemma head_entries: "eid ` set (shr_id_get_list_head c op) \<subseteq> entries c"
  by (auto simp: entries_def shr_id_get_list_head_def)

lemma head_upd_entries:
  "eid ` set (f (shr_id_get_list_head c op)) \<subseteq> X \<Longrightarrow> entries c \<subseteq> X \<Longrightarrow> entries (list_head_upd op f c) \<subseteq> X"
  by (auto simp: entries_def list_head_upd_def shr_id_get_list_head_def split: if_splits)

lemma num_entries [simp]:
  "entries (shr_id_proc_num_inc op n c) = entries c" "entries (shr_id_proc_num_dec op n c) = entries c"
  "shr_id_get_list_head (shr_id_proc_num_dec op n c) op' = shr_id_get_list_head c op'"
  by (simp_all add: entries_def shr_id_proc_num_inc_def shr_id_proc_num_dec_def shr_id_get_list_head_def)

lemma set_entries:
  assumes "e \<in> set es"
  shows "eid ` set (hlist_set pnode_name (e\<lparr>sp_ref := r\<rparr>) es) \<subseteq> eid ` set es"
proof -
  have "eid ` set (hlist_set pnode_name (e\<lparr>sp_ref := r\<rparr>) es) \<subseteq> eid ` insert (e\<lparr>sp_ref := r\<rparr>) (set es)" by (rule image_mono [OF hlist_set_set])
  also have "\<dots> = eid ` set es" using assms by (simp add: insert_absorb)
  finally show ?thesis .
qed

lemma del_entries: "entries (fst (shr_id_del_from_proc c io op)) \<subseteq> entries c"
proof (cases "shr_id_find_proc_node c (io_name io) op")
  case None
  then show ?thesis by (simp add: shr_id_del_from_proc_def)
next
  case (Some e)
  let ?es = "shr_id_get_list_head c op"
  have "e \<in> set ?es" using Some hlist_find_Some by (fastforce simp: shr_id_find_proc_node_def)
  then have "eid ` set (hlist_set pnode_name (e\<lparr>sp_ref := r\<rparr>) ?es) \<subseteq> entries c" for r
    by (rule order_trans [OF set_entries head_entries])
  moreover have "eid ` set (hlist_del pnode_name k ?es) \<subseteq> entries c" for k by (rule order_trans [OF image_mono [OF hlist_del_set] head_entries])
  ultimately show ?thesis using Some by (simp add: shr_id_del_from_proc_def Let_def head_upd_entries)
qed

lemma add_entries:
  assumes "length (io_name io) = SHR_ID_NSM_NAME_SIZE"
  shows "entries (fst (snd (shr_id_add_to_proc mem c io attr op))) \<subseteq>
    insert ((at_type attr, cstr (io_name io)), at_inst attr, at_res_type attr, word_of_int (at_id attr)) (entries c)"
    (is "_ \<subseteq> ?X")
proof (cases "shr_id_find_proc_node c (io_name io) op")
  case (Some e)
  let ?es = "shr_id_get_list_head c op"
  have "e \<in> set ?es" using Some hlist_find_Some by (fastforce simp: shr_id_find_proc_node_def)
  then have "eid ` set (hlist_set pnode_name (e\<lparr>sp_ref := r\<rparr>) ?es) \<subseteq> ?X" for r
    using set_entries head_entries by blast
  moreover have "entries c \<subseteq> ?X" by blast
  ultimately show ?thesis using Some by (simp add: shr_id_add_to_proc_def head_upd_entries)
next
  case None
  have "entries c \<subseteq> ?X" by blast
  moreover have "eid ` set (shr_id_get_list_head c op @ [\<lparr>sp_name = take SHR_ID_NSM_NAME_SIZE (io_name io), sp_res_type = at_res_type attr,
      sp_type = at_type attr, sp_inst = at_inst attr, sp_id = at_id attr, sp_ref = 1, sp_flag = f, sp_opened_devid = d\<rparr>]) \<subseteq> ?X" for f d
    using head_entries [of c op] assms by (auto simp: eid_def)
  ultimately show ?thesis using None by (simp add: shr_id_add_to_proc_def shr_id_creat_proc_node_def Let_def head_upd_entries)
qed

definition ids_step :: "shr_nodes \<Rightarrow> shr_id_proc_ctx \<Rightarrow> shr_nodes \<Rightarrow> shr_id_proc_ctx \<Rightarrow> bool" where
  "ids_step N c N' c' \<longleftrightarrow> ids_same N N' \<and> typed N' \<and> (\<forall>x \<in> entries c'. x \<in> entries c \<or> named N x \<or> named N' x)"

lemma ids_step_kept: "typed N \<Longrightarrow> kept N N' \<Longrightarrow> entries c' \<subseteq> entries c \<Longrightarrow> ids_step N c N' c'"
  by (auto simp: ids_step_def kept_same typed_kept)

context id_refs
begin

lemma destroy_ids:
  assumes "shr_inv hm held t w" "sc_pid c \<noteq> 0" "typed (nodes hm t)" "shr_id_destroy hm res c io t w = Some (ret, c', io', t', w')"
  shows "ids_step (nodes hm t) c (nodes hm t') c'"
proof -
  obtain rt ty where p: "shr_id_get_type_by_name (io_name io) = (rt, ty)" by (cases "shr_id_get_type_by_name (io_name io)")
  obtain r t1 w1 where d: "shr_id_node_destroy hm res (io_name io) (the ty) (sc_pid c) t w = Some (r, t1, w1)"
    using destroy_effect [OF assms(1,2)] by blast
  have k: "kept (nodes hm t) (nodes hm t1)" using destroy_kept [OF assms(1,2) d] by blast
  have "(t' = t \<or> t' = t1) \<and> (c' = c \<or> c' = fst (shr_id_del_from_proc c io 0))"
    using assms(4) p d by (auto simp: shr_id_destroy_def split: if_splits prod.splits)
  then show ?thesis using k del_entries [of c io 0] by (intro ids_step_kept [OF assms(3)]) auto
qed

lemma close_ids:
  assumes "shr_inv hm held t w" "sc_pid c \<noteq> 0" "typed (nodes hm t)" "shr_id_close hm res c io t w = Some (ret, c', io', t', w')"
  shows "ids_step (nodes hm t) c (nodes hm t') c'"
proof -
  obtain rt ty where p: "shr_id_get_type_by_name (io_name io) = (rt, ty)" by (cases "shr_id_get_type_by_name (io_name io)")
  obtain r t1 w1 where d: "shr_id_node_close hm res (io_name io) (the ty) (sc_pid c) t w = Some (r, t1, w1)"
    using close_effect [OF assms(1,2)] by blast
  have k: "kept (nodes hm t) (nodes hm t1)" using close_kept [OF assms(1,2) d] by blast
  have "(t' = t \<or> t' = t1) \<and> (c' = c \<or> c' = fst (shr_id_del_from_proc c io 1))"
    using assms(4) p d by (auto simp: shr_id_close_def split: if_splits prod.splits)
  then show ?thesis using k del_entries [of c io 1] by (intro ids_step_kept [OF assms(3)]) auto
qed

lemma set_pid_ids:
  assumes "shr_inv hm held t w" "typed (nodes hm t)" "shr_id_set_pid hm res env c io t w = Some (ret, c', io', t', w')"
  shows "ids_step (nodes hm t) c (nodes hm t') c'"
proof -
  obtain rt ty where p: "shr_id_get_type_by_name (io_name io) = (rt, ty)" by (cases "shr_id_get_type_by_name (io_name io)")
  obtain r t1 w1 where d: "shr_id_node_set_pids hm res (io_name io) (the ty) (sc_pid c) (zip (take 16 (io_pid io)) (se_nows env)) t w = Some (r, t1, w1)"
    using set_pids_effect [OF assms(1)] by blast
  have k: "kept (nodes hm t) (nodes hm t1)" using set_pids_kept [OF assms(1) d] by blast
  have "(t' = t \<or> t' = t1) \<and> c' = c" using assms(3) p d by (auto simp: shr_id_set_pid_def split: if_splits)
  then show ?thesis using k by (intro ids_step_kept [OF assms(2)]) auto
qed

lemma open_ids:
  assumes inv: "shr_inv hm held t w" "sc_pid c \<noteq> 0" "typed (nodes hm t)" and len: "length (io_name io) = SHR_ID_NSM_NAME_SIZE"
    and r: "shr_id_open hm res env c io t w = Some (ret, c', io', t', w')"
  shows "ids_step (nodes hm t) c (nodes hm t') c'"
proof -
  let ?N = "nodes hm t"
  obtain rt ty where p: "shr_id_get_type_by_name (io_name io) = (rt, ty)" by (cases "shr_id_get_type_by_name (io_name io)")
  let ?attr = "\<lparr>at_inst = \<lparr>ti_devid = 0, ti_tsid = 0\<rparr>, at_res_type = shr_id_type_trans (the ty), at_type = the ty, at_id = 0\<rparr>"
  obtain r1 a1 t1 w1 where o: "shr_id_node_open hm res (io_name io) (sc_pid c) (sc_start_time c) ?attr t w = Some (r1, a1, t1, w1)"
    using open_effect [OF inv(1,2)] by blast
  note K = open_kept [OF inv(1,2) o]
  obtain r2 c2 io2 where d: "shr_id_add_to_proc (se_proc_mem env) c io a1 1 = (r2, c2, io2)" by (cases "shr_id_add_to_proc (se_proc_mem env) c io a1 1")
  have pid: "sc_pid c2 \<noteq> 0" using add_pid [of "se_proc_mem env" c io a1 1] d inv(2) by simp
  obtain r3 t3 w3 where f: "shr_id_node_close hm res (io_name io2) (the ty) (sc_pid c2) t1 w1 = Some (r3, t3, w3)"
    using close_effect [OF conjunct1 [OF K] pid] by blast
  have k3: "kept (nodes hm t1) (nodes hm t3)" using close_kept [OF conjunct1 [OF K] pid f] by blast
  have cases: "(t' = t \<or> t' = t1 \<or> t' = t3) \<and> (c' = c \<or> r1 = 0 \<and> c' = c2)"
    using r p o d f by (auto simp: shr_id_open_def split: if_splits)
  then have kept: "kept ?N (nodes hm t')" using K k3 kept_trans by auto
  moreover have "x \<in> entries c \<or> named ?N x" if x: "x \<in> entries c'" for x
  proof (cases "x \<in> entries c")
    case False
    then have c2: "r1 = 0" "c' = c2" using cases x by auto
    then obtain n where n: "?N (the ty, cstr (io_name io)) = Some n" "a1 = ?attr\<lparr>at_inst := sn_inst n, at_id := sint (sn_id n)\<rparr>" using K by auto
    then have "sn_res_type n = shr_id_type_trans (the ty)" using inv(3) unfolding typed_def by fastforce
    then have "x = ((the ty, cstr (io_name io)), rkey n)" using add_entries [OF len, of "se_proc_mem env" c a1 1] d x c2(2) False n(2) by auto
    then show ?thesis using n(1) by (simp add: named_def)
  qed simp
  ultimately show ?thesis unfolding ids_step_def using kept_same [OF kept] typed_kept [OF inv(3) kept] by blast
qed

lemma create_ids:
  assumes inv: "shr_inv hm held t w" "sc_pid c \<noteq> 0" "typed (nodes hm t)" and len: "length (io_name io) = SHR_ID_NSM_NAME_SIZE"
    and lim: "\<forall>k. int (refs (nodes hm t) k) < INT_MAX - 1" and tg: "se_tgid env \<noteq> 0"
    and r: "shr_id_create hm res env c io t w = Some (ret, c', io', t', w')"
  shows "ids_step (nodes hm t) c (nodes hm t') c'"
proof (cases "se_in_container env (io_devid io) \<and> io_id_type io < 2")
  case False
  then have "c' = c" "t' = t" using r by (auto simp: shr_id_create_def Let_def not_le split: if_splits)
  then show ?thesis by (simp add: ids_step_kept [OF inv(3)])
next
  case True
  let ?u = "io_id_type io" and ?N = "nodes hm t"
  let ?attr = "\<lparr>at_inst = \<lparr>ti_devid = io_devid io, ti_tsid = io_tsid io\<rparr>, at_res_type = shr_id_type_trans (sint ?u), at_type = sint ?u, at_id = sint (io_shr_id io)\<rparr>"
  define name where "name = snd (shr_id_name_generate (io_devid io) (io_tsid io) (sc_pid c) ?u (io_shr_id io) (io_name io))"
  have g: "shr_id_name_generate (io_devid io) (io_tsid io) (sc_pid c) ?u (io_shr_id io) (io_name io) = (0, name)"
    by (simp add: name_def shr_id_name_generate_def Let_def)
  have ln: "length name = 65" using len by (simp add: name_def shr_id_name_generate_def Let_def)
  have ty: "shr_id_get_type_by_name name = (0, Some (sint ?u))" unfolding name_def using name_parse True by blast
  have v: "valid_name name (at_type ?attr)" using parse_valid [OF ty] by simp
  have sh: "res_shared (at_res_type ?attr)" by (simp add: res_shared_def shr_id_type_trans_def)
  obtain r1 t1 w1 where c1: "shr_id_node_create hm res (se_node_mem env) (se_now env) (se_tgid env) name (sc_pid c) ?attr (io_flag io) t w = Some (r1, t1, w1)"
    using create_total [OF inv(1) ln sh tg lim [rule_format]] by blast
  note E = create_effect [OF inv(1) c1 inv(2) v ln sh tg lim [rule_format]]
  have new: "ids_same ?N (nodes hm t1) \<and> typed (nodes hm t1) \<and>
      (r1 = 0 \<longrightarrow> named (nodes hm t1) ((sint ?u, cstr name), at_inst ?attr, at_res_type ?attr, word_of_int (at_id ?attr)))"
  proof (cases "r1 = 0")
    case False
    then show ?thesis using E inv(3) by (simp add: kept_same)
  next
    case r1: True
    then obtain n where n: "?N (sint ?u, cstr name) = None" "nodes hm t1 = ?N((sint ?u, cstr name) \<mapsto> n)"
      "rkey n = (at_inst ?attr, at_res_type ?attr, word_of_int (at_id ?attr))"
      using E lookup_parse [OF ty] by auto
    then show ?thesis using inv(3) by (auto simp: ids_same_def typed_def named_def)
  qed
  obtain r2 c2 io2 where d: "shr_id_add_to_proc (se_proc_mem env) c (io\<lparr>io_name := name\<rparr>) ?attr 0 = (r2, c2, io2)"
    by (cases "shr_id_add_to_proc (se_proc_mem env) c (io\<lparr>io_name := name\<rparr>) ?attr 0")
  have pid: "sc_pid c2 \<noteq> 0" using add_pid [of "se_proc_mem env" c "io\<lparr>io_name := name\<rparr>" ?attr 0] d inv(2) by simp
  obtain r3 t3 w3 where f: "shr_id_node_destroy hm res (io_name io2) (sint ?u) (sc_pid c2) t1 w1 = Some (r3, t3, w3)"
    using destroy_effect [OF conjunct1 [OF E] pid] by blast
  have k3: "kept (nodes hm t1) (nodes hm t3)" using destroy_kept [OF conjunct1 [OF E] pid f] by blast
  have add: "r2 \<noteq> 0 \<longrightarrow> c2 = c" using d
    by (auto simp: shr_id_add_to_proc_def shr_id_creat_proc_node_def Let_def split: option.splits if_splits)
  have cases: "t' = t1 \<and> (c' = c \<or> r1 = 0 \<and> c' = c2) \<or> t' = t3 \<and> c' = c"
    using r True g c1 d f add by (auto simp: shr_id_create_def Let_def not_le split: if_splits)
  moreover have "x \<in> entries c \<or> named (nodes hm t1) x" if "x \<in> entries c2" "r1 = 0" for x
    using add_entries [of "io\<lparr>io_name := name\<rparr>" "se_proc_mem env" c ?attr 0] d ln that new by auto
  ultimately show ?thesis unfolding ids_step_def using new same_kept [OF _ k3] typed_kept [OF _ k3] by (elim disjE conjE) blast+
qed

lemma ioctl_ids:
  assumes inv: "shr_inv hm held t w" "sc_pid c \<noteq> 0" "typed (nodes hm t)"
    and lim: "\<forall>k. int (refs (nodes hm t) k) < INT_MAX - 1" and tg: "se_tgid env \<noteq> 0"
    and len: "\<forall>io. arg = Some io \<longrightarrow> length (io_name (ioctl_arg call io)) = SHR_ID_NSM_NAME_SIZE"
    and r: "shr_id_file_ioctl hm res env call (Some c) cmd arg t w = Some (ret, Some c', arg', t', w')"
  shows "ids_step (nodes hm t) c (nodes hm t') c'"
proof (cases "\<exists>cm io. cmd = Some cm \<and> arg = Some io \<and> (ca_write call \<longrightarrow> ca_copy_in call)")
  case False
  then have "c' = c" "t' = t" using r by (auto simp: shr_id_file_ioctl_def split: option.splits if_splits)
  then show ?thesis by (simp add: ids_step_kept [OF inv(3)])
next
  case True
  then obtain cm io where io: "cmd = Some cm" "arg = Some io" "ca_write call \<longrightarrow> ca_copy_in call" by blast
  obtain r1 io1 where h: "shr_id_ioctl_handles hm res env cm c (ioctl_arg call io) t w = Some (r1, c', io1, t', w')"
    using r io by (auto simp: shr_id_file_ioctl_def bind_eq_Some_conv split: if_splits)
  have ln: "length (io_name (ioctl_arg call io)) = 65" using len io(2) by simp
  show ?thesis
    using h create_ids [OF inv ln lim tg] open_ids [OF inv ln] close_ids [OF inv] destroy_ids [OF inv] set_pid_ids [OF inv(1,3)]
    by (cases cm) (simp_all add: shr_id_ioctl_handles_def)
qed

end

lemma named_later:
  assumes "\<forall>x \<in> entries c. named N x" "ids_step N c N' d" "ctx_link N' d" "x \<in> entries d"
  shows "named N' x"
  using assms named_same [of N x N'] link_present [OF assms(3,4)] unfolding ids_step_def by blast

context id_refs
begin

lemma release_kept:
  assumes "sys_inv hm held t pt w" "shr_id_find_proc hm pt p = Some c" "shr_id_file_release hm res (Some p) pt t w = Some (ret, pt', t', w')"
  shows "kept (nodes hm t) (nodes hm t')"
proof -
  note L = sys_link [OF assms(1,2)]
  have inv: "shr_inv hm held t w" using assms(1) by (simp add: sys_inv_def)
  obtain c' where "shr_id_node_recycle hm res (c\<lparr>sc_ref := sc_ref c - 1\<rparr>) t w = Some (c', t', w')"
    using assms(2,3) L(4) by (auto simp: shr_id_file_release_def shr_id_proc_del_def shr_id_proc_put_def shr_id_proc_release_def bind_eq_Some_conv)
  then show ?thesis using recycle_kept [OF inv, of "c\<lparr>sc_ref := sc_ref c - 1\<rparr>"] L(2,3) by simp
qed

lemma reach_ids:
  "shr_reach hm res held t pt w \<Longrightarrow>
   typed (nodes hm t) \<and> (\<forall>p c. shr_id_find_proc hm pt p = Some c \<longrightarrow> (\<forall>x \<in> entries c. named (nodes hm t) x))"
proof (induction rule: shr_reach.induct)
  case (sh_start w)
  then show ?case by (simp add: nodes_init typed_def shr_id_find_proc_def)
next
  case (sh_open t pt w tgid found intr mem start ret ctx pt')
  have "shr_id_find_proc hm pt' p = shr_id_find_proc hm pt p \<or> (\<forall>c. shr_id_find_proc hm pt' p = Some c \<longrightarrow> entries c = {})" for p
  proof (cases "pt' = pt")
    case False
    then obtain c where c: "shr_id_proc_create mem tgid start = Some c" "shr_id_proc_add hm pt c = (0, pt')"
      using sh_open.hyps(3) by (auto simp: shr_id_file_open_def shr_id_proc_add_def Let_def split: if_splits option.splits)
    have "ctxs_ok hm pt" using reach_sys [OF sh_open.hyps(1)] by (simp add: sys_inv_def)
    then have "shr_id_find_proc hm pt' = (shr_id_find_proc hm pt)(sc_pid c \<mapsto> c)" using add_procs [OF _ c(2)] by blast
    moreover have "entries c = {}" using c(1) by (auto simp: shr_id_proc_create_def entries_def split: if_splits)
    ultimately show ?thesis by simp
  qed simp
  then show ?case using sh_open.IH by (metis empty_iff)
next
  case (sh_ioctl t pt w p c arg env call cmd ret c' arg' t' w')
  note sys = reach_sys [OF sh_ioctl.hyps(1)]
  have sys': "sys_inv hm held t' (shr_id_proc_store hm c' pt) w'"
    using reach_sys [OF shr_reach.sh_ioctl [OF sh_ioctl.hyps]] .
  note L = sys_link [OF sys sh_ioctl.hyps(2)]
  have inv: "shr_inv hm held t w" "sc_pid c \<noteq> 0" using sys L(2,3) by (simp_all add: sys_inv_def)
  have st: "ids_step (nodes hm t) c (nodes hm t') c'"
    using ioctl_ids [OF inv _ sh_ioctl.hyps(3,4,5,6)] sh_ioctl.IH by blast
  have pid: "sc_pid c' = p" using ioctl_step [OF inv(1) L(1) sh_ioctl.hyps(3,4,5,6)] L(2) by (auto simp: step_ok_def)
  have f: "shr_id_find_proc hm (shr_id_proc_store hm c' pt) = (shr_id_find_proc hm pt)(p \<mapsto> c')"
    using store_procs [of hm pt c'] sys pid sh_ioctl.hyps(2) by (simp add: sys_inv_def)
  have "named (nodes hm t') x" if q: "shr_id_find_proc hm (shr_id_proc_store hm c' pt) q = Some d" "x \<in> entries d" for q d x
  proof -
    have ld: "ctx_link (nodes hm t') d" by (rule sys_link(1) [OF sys' q(1)])
    show ?thesis
    proof (cases "q = p")
      case True
      then show ?thesis using q f named_later [OF _ st, of x] ld sh_ioctl.IH sh_ioctl.hyps(2) by auto
    next
      case False
      then have "shr_id_find_proc hm pt q = Some d" using q(1) f by simp
      then have "named (nodes hm t) x" using sh_ioctl.IH q(2) by blast
      then show ?thesis using named_same link_present [OF ld q(2)] st unfolding ids_step_def by blast
    qed
  qed
  then show ?case using st by (simp add: ids_step_def)
next
  case (sh_release t pt w p c ret pt' t' w')
  note sys = reach_sys [OF sh_release.hyps(1)]
  have sys': "sys_inv hm held t' pt' w'" using reach_sys [OF shr_reach.sh_release [OF sh_release.hyps]] .
  have k: "kept (nodes hm t) (nodes hm t')" by (rule release_kept [OF sys sh_release.hyps(2,3)])
  have f: "shr_id_find_proc hm pt' = (shr_id_find_proc hm pt)(p := None)" using release_sys [OF sys sh_release.hyps(2)] sh_release.hyps(3) by auto
  have "named (nodes hm t') x" if q: "shr_id_find_proc hm pt' q = Some d" "x \<in> entries d" for q d x
  proof -
    have "shr_id_find_proc hm pt q = Some d" using q(1) f by (simp split: if_splits)
    then have "named (nodes hm t) x" using sh_release.IH q(2) by blast
    then show ?thesis using named_same kept_same [OF k] link_present [OF sys_link(1) [OF sys' q(1)] q(2)] by blast
  qed
  then show ?case using typed_kept [OF _ k] sh_release.IH by blast
next
  case (sh_belong t pt w inst p rty i b pt' t' w')
  obtain b0 pt0 where "shr_id_is_belong_to_proc hm res inst p rty i pt t w = Some (b0, pt0, t, w)" "shr_id_find_proc hm pt0 = shr_id_find_proc hm pt"
    using belong_same [OF reach_sys [OF sh_belong.hyps(1)], of res inst p rty i] by blast
  then show ?case using sh_belong by simp
qed simp

text \<open>An id that belongs to a process is the id of a node that it created or has open.\<close>

lemma belong_node:
  assumes r: "shr_reach hm res held t pt w" and c: "shr_id_find_proc hm pt p = Some c"
    and e: "e \<in> set (sc_open_list c) \<union> set (sc_create_list c)" "pnode_is inst rty i e"
  shows "\<exists>k n. nodes hm t k = Some n \<and> (sn_pid n = p \<or> 0 < wopen n p) \<and> sn_inst n = inst \<and> sn_res_type n = rty \<and> sn_id n = i"
proof -
  note sys = reach_sys [OF r]
  note L = sys_link [OF sys c]
  note C = ctx_linkD [OF L(1)]
  have "eid e \<in> entries c" using e(1) by (auto simp: entries_def)
  then obtain n where n: "nodes hm t (ekey e) = Some n" "rkey n = (sp_inst e, sp_res_type e, word_of_int (sp_id e))"
    using reach_ids [OF r] c by (fastforce simp: named_def eid_def)
  have ok: "pentry_ok e" "distinct (map ekey (sc_open_list c))" "distinct (map ekey (sc_create_list c))" using C(1) e(1) by (auto simp: ctx_ok_def)
  have "sn_pid n = p \<or> 0 < wopen n p"
  proof (cases "e \<in> set (sc_open_list c)")
    case True
    then have "nopen (nodes hm t) p (ekey e) = unat (sp_ref e)" using hlist_find_distinct [OF ok(2)] C(3) [of "ekey e"] L(2) by (simp add: lref_def)
    moreover have "unat (sp_ref e) \<noteq> 0" using ok(1) by (simp add: pentry_ok_def unat_eq_zero)
    ultimately show ?thesis using n(1) by (simp add: nopen_def)
  next
    case False
    then have "creator (nodes hm t) (ekey e) = p" using e(1) hlist_find_distinct [OF ok(3)] C(4) [of "ekey e"] L(2) by auto
    then show ?thesis using n(1) by (simp add: creator_def)
  qed
  moreover have "sp_inst e = inst" "sp_res_type e = rty" "word_of_int (sp_id e) = i" using e(2) by (simp_all add: pnode_is_def)
  ultimately show ?thesis using n by auto
qed

end

section \<open>Properties\<close>

lemma addr_join:
  "push_bit 32 (ucast (ucast (drop_bit 32 a) :: u32)) OR ucast (ucast (a AND 0xffffffff) :: u32) = (a :: u64)"
proof -
  have m: "a AND 0xffffffff = take_bit 32 a" by (simp add: take_bit_eq_mask mask_eq_exp_minus_1)
  have d: "32 + (n - 32) = n" if "\<not> n < 32" for n :: nat using that by simp
  show ?thesis unfolding m by (rule bit_eqI) (auto simp: bit_simps d not_less)
qed

lemma base_addr_some: "shr_id_get_notify_base_addr topology devinfo devid remote = (0, b) \<Longrightarrow> \<exists>a. b = Some a"
  by (auto simp: shr_id_get_notify_base_addr_def split: prod.splits if_splits option.splits)

text \<open>A request to configure is answered only for ids of nodes that the process created or has open.\<close>

lemma config_own_ids_only:
  assumes "shr_reach hm (core_res env procs0 inst) (core_holds ida sync inst lim) t pt s"
  shows "\<exists>ret msg' pt'. shr_id_event_update topology devinfo hm (core_res env procs0 inst) cin cout tgid devid
      DRV_SUBEVENT_TRS_SHR_ID_CONFIG_MSG msg pt t s = Some (ret, msg', pt', t, s) \<and>
    shr_id_find_proc hm pt' = shr_id_find_proc hm pt \<and>
    (if ret = 0
     then \<exists>info k n base info'. msg = Some info \<and> msg' = Some info' \<and> nodes hm t k = Some n \<and> (sn_pid n = tgid \<or> 0 < wopen n tgid) \<and>
       sn_inst n = \<lparr>ti_devid = ev_devid info, ti_tsid = ev_tsid info\<rparr> \<and> sn_res_type n = shr_id_type_trans (sint (ev_id_type info)) \<and>
       sn_id n = ev_shrid info \<and> shr_id_get_notify_base_addr topology devinfo devid (ev_devid info) = (0, Some base) \<and>
       push_bit 32 (ucast (ev_rsv1 info')) OR ucast (ev_rsv0 info') = base + ucast (shr_id_get_notify_offset (ev_shrid info))
     else msg' = msg)"
proof (cases "\<exists>info. msg = Some info \<and> cin \<and> ev_id_type info < 2")
  case False
  then show ?thesis by (intro exI [of _ "if msg = None \<or> cin then - EINVAL else - EFAULT"] exI [of _ msg] exI [of _ pt])
      (auto simp: shr_id_event_update_def not_le not_less split: option.split)
next
  case True
  then obtain info where m: "msg = Some info" "cin" "ev_id_type info < 2" by blast
  let ?i = "\<lparr>ti_devid = ev_devid info, ti_tsid = ev_tsid info\<rparr>" and ?ty = "shr_id_type_trans (sint (ev_id_type info))"
  obtain b pt' where b: "shr_id_is_belong_to_proc hm (core_res env procs0 inst) ?i tgid ?ty (ev_shrid info) pt t s = Some (b, pt', t, s)"
    "shr_id_find_proc hm pt' = shr_id_find_proc hm pt"
    "b \<longleftrightarrow> (\<exists>c. shr_id_find_proc hm pt tgid = Some c \<and>
       (\<exists>e \<in> set (sc_open_list c) \<union> set (sc_create_list c). pnode_is ?i ?ty (ev_shrid info) e))"
    using belong_same [OF core.reach_sys [OF assms], of "core_res env procs0 inst" ?i tgid ?ty "ev_shrid info"] by blast
  obtain r0 base where a: "shr_id_get_notify_base_addr topology devinfo devid (ev_devid info) = (r0, base)"
    by (cases "shr_id_get_notify_base_addr topology devinfo devid (ev_devid info)")
  show ?thesis
  proof (cases "b \<and> r0 = 0 \<and> cout")
    case False
    then show ?thesis using m b(1,2) a
      by (intro exI [of _ "if \<not> b then - EACCES else if r0 \<noteq> 0 then r0 else - EFAULT"] exI [of _ msg] exI [of _ pt'])
        (auto simp: shr_id_event_update_def Let_def)
  next
    case ok: True
    then obtain c e where e: "shr_id_find_proc hm pt tgid = Some c" "e \<in> set (sc_open_list c) \<union> set (sc_create_list c)" "pnode_is ?i ?ty (ev_shrid info) e"
      using b(3) by blast
    obtain k n where n: "nodes hm t k = Some n" "sn_pid n = tgid \<or> 0 < wopen n tgid" "sn_inst n = ?i" "sn_res_type n = ?ty" "sn_id n = ev_shrid info"
      using core.belong_node [OF assms e] by blast
    obtain ad where ad: "base = Some ad" using base_addr_some a ok by blast
    let ?a = "ad + ucast (shr_id_get_notify_offset (ev_shrid info))"
    let ?info = "info\<lparr>ev_rsv0 := ucast (?a AND 0xffffffff), ev_rsv1 := ucast (drop_bit 32 ?a)\<rparr>"
    have u: "shr_id_event_update topology devinfo hm (core_res env procs0 inst) cin cout tgid devid DRV_SUBEVENT_TRS_SHR_ID_CONFIG_MSG msg pt t s =
        Some (0, Some ?info, pt', t, s)"
      using m b(1) a ad ok by (simp add: shr_id_event_update_def Let_def not_le)
    have j: "push_bit 32 (ucast (ev_rsv1 ?info)) OR ucast (ev_rsv0 ?info) = ?a" using addr_join [of ?a] by simp
    show ?thesis
      by (rule exI [of _ 0], rule exI [of _ "Some ?info"], rule exI [of _ pt'], intro conjI u b(2))
        (use m(1) n a ad ok j in \<open>simp; blast\<close>)
  qed
qed

text \<open>A request to deconfigure is answered whatever process asks, and whatever id it names.\<close>

lemma deconfig_any_id:
  "\<exists>ret msg'. shr_id_event_update topology devinfo hm res cin cout tgid devid
      DRV_SUBEVENT_TRS_SHR_ID_DECONFIG_MSG msg pt t s = Some (ret, msg', pt, t, s) \<and>
    (if ret = 0
     then \<exists>info base info'. msg = Some info \<and> msg' = Some info' \<and> shr_id_get_notify_base_addr topology devinfo devid (ev_devid info) = (0, Some base) \<and>
       push_bit 32 (ucast (ev_rsv1 info')) OR ucast (ev_rsv0 info') = base + ucast (shr_id_get_notify_offset (ev_shrid info))
     else msg' = msg) \<and>
    (\<forall>info base. msg = Some info \<and> cin \<and> cout \<and> ev_id_type info < 2 \<and>
       shr_id_get_notify_base_addr topology devinfo devid (ev_devid info) = (0, Some base) \<longrightarrow> ret = 0)"
proof (cases "\<exists>info base. msg = Some info \<and> cin \<and> cout \<and> ev_id_type info < 2 \<and>
    shr_id_get_notify_base_addr topology devinfo devid (ev_devid info) = (0, base)")
  case True
  then obtain info base where m: "msg = Some info" "cin" "cout" "ev_id_type info < 2"
    "shr_id_get_notify_base_addr topology devinfo devid (ev_devid info) = (0, base)" by blast
  obtain ad where ad: "base = Some ad" using base_addr_some m(5) by blast
  let ?a = "ad + ucast (shr_id_get_notify_offset (ev_shrid info))"
  let ?info = "info\<lparr>ev_rsv0 := ucast (?a AND 0xffffffff), ev_rsv1 := ucast (drop_bit 32 ?a)\<rparr>"
  have j: "push_bit 32 (ucast (ev_rsv1 ?info)) OR ucast (ev_rsv0 ?info) = ?a" using addr_join [of ?a] by simp
  have u: "shr_id_event_update topology devinfo hm res cin cout tgid devid DRV_SUBEVENT_TRS_SHR_ID_DECONFIG_MSG msg pt t s =
      Some (0, Some ?info, pt, t, s)"
    using m ad by (simp add: shr_id_event_update_def Let_def not_le)
  show ?thesis
    by (rule exI [of _ 0], rule exI [of _ "Some ?info"], intro conjI u) (use m(1,5) ad j in \<open>simp_all\<close>)
next
  case False
  show ?thesis
  proof (cases "\<exists>info. msg = Some info \<and> cin \<and> ev_id_type info < 2")
    case True
    then obtain info where m: "msg = Some info" "cin" "ev_id_type info < 2" by blast
    obtain r0 base where a: "shr_id_get_notify_base_addr topology devinfo devid (ev_devid info) = (r0, base)"
      by (cases "shr_id_get_notify_base_addr topology devinfo devid (ev_devid info)")
    have "r0 \<noteq> 0 \<or> \<not> cout" using False m a by blast
    then show ?thesis using m a
      by (intro exI [of _ "if r0 \<noteq> 0 then r0 else - EFAULT"] exI [of _ msg]) (auto simp: shr_id_event_update_def Let_def not_le)
  next
    case no: False
    then show ?thesis
      by (intro exI [of _ "if msg = None \<or> cin then - EINVAL else - EFAULT"] exI [of _ msg])
        (auto simp: shr_id_event_update_def not_le not_less split: option.split)
  qed
qed

text \<open>
  C32. The message handler, for every kind of message. It ends in every reachable state and changes no node, no id and no
  process. An answer is the base address of the device named in the message plus the offset of the id, in two halves;
  without one the message stays as it is. When the message asks to configure, there is an answer only for an id of a node that
  the process created or has open, so for an id that is still allocated. When it asks to deconfigure there is no such check:
  every process gets the address for every id and device it names, whenever the type is valid and the device is known.
\<close>

theorem shr_event_address_spec:
  assumes "shr_reach hm (core_res env procs0 inst) (core_holds ida sync inst lim) t pt s"
  shows "\<exists>ret msg' pt'. shr_id_event_update topology devinfo hm (core_res env procs0 inst) cin cout tgid devid
      sub msg pt t s = Some (ret, msg', pt', t, s) \<and>
    shr_id_find_proc hm pt' = shr_id_find_proc hm pt \<and>
    (if ret = 0 \<and> (sub = DRV_SUBEVENT_TRS_SHR_ID_CONFIG_MSG \<or> sub = DRV_SUBEVENT_TRS_SHR_ID_DECONFIG_MSG)
     then \<exists>info base info'. msg = Some info \<and> msg' = Some info' \<and>
       shr_id_get_notify_base_addr topology devinfo devid (ev_devid info) = (0, Some base) \<and>
       push_bit 32 (ucast (ev_rsv1 info')) OR ucast (ev_rsv0 info') = base + ucast (shr_id_get_notify_offset (ev_shrid info)) \<and>
       (sub = DRV_SUBEVENT_TRS_SHR_ID_CONFIG_MSG \<longrightarrow>
         (\<exists>k n. nodes hm t k = Some n \<and> (sn_pid n = tgid \<or> 0 < wopen n tgid) \<and>
            sn_inst n = \<lparr>ti_devid = ev_devid info, ti_tsid = ev_tsid info\<rparr> \<and>
            sn_res_type n = shr_id_type_trans (sint (ev_id_type info)) \<and> sn_id n = ev_shrid info))
     else msg' = msg) \<and>
    (\<forall>info base. sub = DRV_SUBEVENT_TRS_SHR_ID_DECONFIG_MSG \<and> msg = Some info \<and> cin \<and> cout \<and> ev_id_type info < 2 \<and>
       shr_id_get_notify_base_addr topology devinfo devid (ev_devid info) = (0, Some base) \<longrightarrow> ret = 0)"
    (is "\<exists>ret msg' pt'. ?U ret msg' pt' \<and> ?F pt' \<and> ?A ret msg' \<and> ?D ret")
proof -
  consider "sub = 36" | "sub = 37" | "sub \<noteq> 36" "sub \<noteq> 37" by blast
  then show ?thesis
  proof cases
    case 1
    obtain ret msg' pt' where c: "shr_id_event_update topology devinfo hm (core_res env procs0 inst) cin cout tgid devid
        sub msg pt t s = Some (ret, msg', pt', t, s)" "shr_id_find_proc hm pt' = shr_id_find_proc hm pt"
      and own: "if ret = 0
       then \<exists>info k n base info'. msg = Some info \<and> msg' = Some info' \<and> nodes hm t k = Some n \<and> (sn_pid n = tgid \<or> 0 < wopen n tgid) \<and>
         sn_inst n = \<lparr>ti_devid = ev_devid info, ti_tsid = ev_tsid info\<rparr> \<and> sn_res_type n = shr_id_type_trans (sint (ev_id_type info)) \<and>
         sn_id n = ev_shrid info \<and> shr_id_get_notify_base_addr topology devinfo devid (ev_devid info) = (0, Some base) \<and>
         push_bit 32 (ucast (ev_rsv1 info')) OR ucast (ev_rsv0 info') = base + ucast (shr_id_get_notify_offset (ev_shrid info))
       else msg' = msg"
      using config_own_ids_only [OF assms, of topology devinfo cin cout tgid devid msg] unfolding 1 by blast
    have a: "?A ret msg'" using own unfolding 1 by (cases "ret = 0"; simp only: simp_thms if_True if_False; blast)
    show ?thesis
      by (rule exI [of _ ret], rule exI [of _ msg'], rule exI [of _ pt'], intro conjI c a) (simp add: 1)
  next
    case 2
    obtain ret msg' where c: "shr_id_event_update topology devinfo hm (core_res env procs0 inst) cin cout tgid devid
        sub msg pt t s = Some (ret, msg', pt, t, s)"
      and addr: "if ret = 0
       then \<exists>info base info'. msg = Some info \<and> msg' = Some info' \<and> shr_id_get_notify_base_addr topology devinfo devid (ev_devid info) = (0, Some base) \<and>
         push_bit 32 (ucast (ev_rsv1 info')) OR ucast (ev_rsv0 info') = base + ucast (shr_id_get_notify_offset (ev_shrid info))
       else msg' = msg"
      and all: "\<forall>info base. msg = Some info \<and> cin \<and> cout \<and> ev_id_type info < 2 \<and>
         shr_id_get_notify_base_addr topology devinfo devid (ev_devid info) = (0, Some base) \<longrightarrow> ret = 0"
      using deconfig_any_id [of topology devinfo hm "core_res env procs0 inst" cin cout tgid devid msg pt t s] unfolding 2 by blast
    have sub: "(37 :: u32) = 36 \<longleftrightarrow> False" by simp
    have a: "?A ret msg'" using addr unfolding 2 sub by (cases "ret = 0"; simp only: simp_thms if_True if_False; blast)
    have d: "?D ret" using all by blast
    show ?thesis
      by (rule exI [of _ ret], rule exI [of _ msg'], rule exI [of _ pt], intro conjI c a d refl)
  next
    case 3
    then show ?thesis by (simp add: shr_id_event_update_def)
  qed
qed

text \<open>
  Process 42 asks for the register of the event that it shares; the two devices are on one chip. Process 43 has nothing to do
  with that event, and gets the address with the other message.
\<close>

definition demo_event_msg :: shr_event_msg where
  "demo_event_msg = \<lparr>ev_sync = 0, ev_devid = 0, ev_tsid = 0, ev_id_type = 1, ev_shrid = 2, ev_flag = 0, ev_rsv0 = 0, ev_rsv1 = 0, ev_rest = 0\<rparr>"

theorem shr_event_address_spec_witness:
  "(\<exists>info' pt'. shr_id_event_update (\<lambda>_ _. (0, 0)) (\<lambda>_. Some (0, 0)) demo_hm demo_shr_res True True 42 0 36 (Some demo_event_msg)
      demo_shr_pt1 demo_shr_t1 demo_shr_w1 = Some (0, Some info', pt', demo_shr_t1, demo_shr_w1) \<and>
    push_bit 32 (ucast (ev_rsv1 info')) OR ucast (ev_rsv0 info') = (0x6a0100008 :: u64)) \<and>
   (\<exists>info' pt'. shr_id_event_update (\<lambda>_ _. (0, 0)) (\<lambda>_. Some (0, 0)) demo_hm demo_shr_res True True 43 0 37 (Some demo_event_msg)
      demo_shr_pt1 demo_shr_t1 demo_shr_w1 = Some (0, Some info', pt', demo_shr_t1, demo_shr_w1) \<and>
    push_bit 32 (ucast (ev_rsv1 info')) OR ucast (ev_rsv0 info') = (0x6a0100008 :: u64))"
proof -
  let ?i = "\<lparr>ti_devid = 0, ti_tsid = 0\<rparr> :: trs_id_inst"
  have p: "pnode_is ?i 1 2 demo_shr_pnode" "sc_create_list demo_shr_ctx1 = [demo_shr_pnode]"
    by (simp_all add: pnode_is_def demo_shr_pnode_def shr_id_creat_proc_node_def demo_shr_attr_def demo_id_inst_def demo_shr_ctx1_def)
  obtain pt' where b: "shr_id_is_belong_to_proc demo_hm demo_shr_res ?i 42 1 2 demo_shr_pt1 demo_shr_t1 demo_shr_w1 =
      Some (True, pt', demo_shr_t1, demo_shr_w1)"
    using belong_same [OF core.reach_sys [OF demo_shr_reach1], of demo_shr_res ?i 42 1 2] demo_shr_proc1 p by auto
  have e: "ev_devid demo_event_msg = 0" "ev_tsid demo_event_msg = 0" "ev_id_type demo_event_msg = 1" "ev_shrid demo_event_msg = 2"
    by (simp_all add: demo_event_msg_def)
  have u: "\<exists>info'. shr_id_event_update (\<lambda>_ _. (0, 0)) (\<lambda>_. Some (0, 0)) demo_hm demo_shr_res True True 42 0 36 (Some demo_event_msg)
      demo_shr_pt1 demo_shr_t1 demo_shr_w1 = Some (0, Some info', pt', demo_shr_t1, demo_shr_w1)"
    using b by (simp add: shr_id_event_update_def e shr_id_type_trans_def shr_id_get_notify_base_addr_def word_le_nat_alt Let_def)
  have a: "shr_id_get_notify_base_addr (\<lambda>_ _. (0, 0)) (\<lambda>_. Some (0, 0)) 0 0 = (0, Some 0x6a0100000)"
    by (simp add: shr_id_get_notify_base_addr_def)
  have o: "(0x6a0100000 :: u64) + ucast (shr_id_get_notify_offset 2) = 0x6a0100008" by (simp add: shr_id_get_notify_offset_def)
  note spec = shr_event_address_spec [OF demo_shr_reach1, of "\<lambda>_ _. (0, 0)" "\<lambda>_. Some (0, 0)" True True _ 0 _ "Some demo_event_msg"]
  show ?thesis
  proof
    show "\<exists>info' pt'. shr_id_event_update (\<lambda>_ _. (0, 0)) (\<lambda>_. Some (0, 0)) demo_hm demo_shr_res True True 42 0 36 (Some demo_event_msg)
        demo_shr_pt1 demo_shr_t1 demo_shr_w1 = Some (0, Some info', pt', demo_shr_t1, demo_shr_w1) \<and>
      push_bit 32 (ucast (ev_rsv1 info')) OR ucast (ev_rsv0 info') = (0x6a0100008 :: u64)"
      using spec [of 42 36] u e a o by auto
    show "\<exists>info' pt'. shr_id_event_update (\<lambda>_ _. (0, 0)) (\<lambda>_. Some (0, 0)) demo_hm demo_shr_res True True 43 0 37 (Some demo_event_msg)
        demo_shr_pt1 demo_shr_t1 demo_shr_w1 = Some (0, Some info', pt', demo_shr_t1, demo_shr_w1) \<and>
      push_bit 32 (ucast (ev_rsv1 info')) OR ucast (ev_rsv0 info') = (0x6a0100008 :: u64)"
      using spec [of 43 37] e a o by auto
  qed
qed

end
