(* ===== verification/Logic_Cq.thy ===== *)
theory Logic_Cq
  imports Trs_Proc
begin

text \<open>
  Logic completion queues, \<^verbatim>\<open>rms/trs_drv/trs_core/trs_logic_cq.c\<close>: rings of completion entries (cqes) in kernel
  memory, filled by the interrupt path (\<^verbatim>\<open>trs_logic_cq_enque\<close>) and emptied by user threads (\<^verbatim>\<open>trs_logic_cq_recv\<close>). A
  cqe may demand that only the thread waiting for its stream and task receives it; the ring is then read out of order
  and the hole closed by moving the entries before it.

  The memory of a queue is a list of bytes; every access to it is checked, and one outside has the result \<open>None\<close>.
  Fields are little endian, at the offsets the C structures give them. The mutex and the spin lock of a queue make one
  round of a receive and an enqueue steps of their own; that this is right although an enqueue does not take the mutex is shown in
  \<open>Logic_Race\<close>. What the other threads do between the rounds of a receive is a parameter, as
  are \<^verbatim>\<open>copy_to_user\<close> and the scheduler. Traces and log messages are left out, but not the reads they make
  of queue memory.
\<close>

section \<open>Memory\<close>

type_synonym u8 = "8 word"

definition mem_read :: "u8 list \<Rightarrow> int \<Rightarrow> nat \<Rightarrow> u8 list option" where
  "mem_read bs off n =
     (if 0 \<le> off \<and> nat off + n \<le> length bs then Some (take n (drop (nat off) bs)) else None)"

definition mem_write :: "u8 list \<Rightarrow> int \<Rightarrow> u8 list \<Rightarrow> u8 list option" where
  "mem_write bs off v =
     (if 0 \<le> off \<and> nat off + length v \<le> length bs
      then Some (take (nat off) bs @ v @ drop (nat off + length v) bs) else None)"

definition u16_of :: "u8 list \<Rightarrow> u16" where
  "u16_of xs = ucast (xs ! 0) + 256 * ucast (xs ! 1)"

definition get_u16 :: "u8 list \<Rightarrow> int \<Rightarrow> u16 option" where
  "get_u16 bs off = map_option u16_of (mem_read bs off 2)"

section \<open>Data\<close>

abbreviation (input) EAGAIN :: int where "EAGAIN \<equiv> 11"
abbreviation (input) ERESTARTSYS :: int where "ERESTARTSYS \<equiv> 512"
abbreviation (input) LOGIC_CQE_VERSION_V1 :: u32 where "LOGIC_CQE_VERSION_V1 \<equiv> 1"
abbreviation (input) LOGIC_CQE_VERSION_V2 :: u32 where "LOGIC_CQE_VERSION_V2 \<equiv> 2"
abbreviation (input) LOGIC_CQE_V1_SIZE :: nat where "LOGIC_CQE_V1_SIZE \<equiv> 16"
abbreviation (input) LOGIC_CQE_SIZE :: nat where "LOGIC_CQE_SIZE \<equiv> 32"
abbreviation (input) LOGIC_CQ_MAX_DEPTH :: u32 where "LOGIC_CQ_MAX_DEPTH \<equiv> 65536"
abbreviation (input) MAX_SCHEDULE_TIMEOUT :: int where "MAX_SCHEDULE_TIMEOUT \<equiv> 9223372036854775807"

record trs_logic_cq_stat =
  ls_enque :: u64
  ls_full_drop :: u64
  ls_wakeup :: u64
  ls_recv :: u64
  ls_recv_in :: u64
  ls_timeout :: u64

record trs_logic_cq =
  lq_flag :: u32
  lq_cqid :: u32
  lq_valid :: u32
  lq_cqe_verion :: u32
  lq_thread_bind_irq :: int
  lq_head :: u32
  lq_tail :: u32
  lq_cqe_size :: u32
  lq_cq_depth :: u32
  lq_addr :: "u8 list option"
  lq_wakeup_num :: int
  lq_wait_thread_num :: int
  lq_stat :: trs_logic_cq_stat

record halReportRecvInfo =
  rr_tsId :: u32
  rr_cqId :: u32
  rr_timeout :: int
  rr_cqe_addr :: u64
  rr_cqe_num :: u32
  rr_report_cqe_num :: u32
  rr_stream_id :: u32
  rr_task_id :: u32
  rr_res :: "nat \<Rightarrow> u32"

text \<open>
  What a receive meets: \<open>le_ctu k addr bs\<close> is the number of bytes that \<^verbatim>\<open>copy_to_user\<close> fails to copy in round \<open>k\<close>,
  \<open>le_jiffies\<close> is \<^verbatim>\<open>msecs_to_jiffies\<close>, \<open>le_sleep\<close> the result of \<^verbatim>\<open>schedule_timeout\<close>,
  \<open>le_signal\<close> whether a signal is pending, and \<open>le_others\<close> the effect of other threads on the queue while the mutex is
  not held: before (even index) and during (odd index) the wait of a round.
\<close>

record lq_env =
  le_ctu :: "nat \<Rightarrow> u64 \<Rightarrow> u8 list \<Rightarrow> int"
  le_jiffies :: "u32 \<Rightarrow> int"
  le_sleep :: "nat \<Rightarrow> int \<Rightarrow> int"
  le_signal :: "nat \<Rightarrow> bool"
  le_others :: "nat \<Rightarrow> trs_logic_cq \<Rightarrow> trs_logic_cq"

text \<open>What a receive does to the outside: the bytes each \<^verbatim>\<open>copy_to_user\<close> wrote, the requests to schedule the physical queue.\<close>

record lq_out =
  lo_user :: "u8 list list"
  lo_sched :: nat

abbreviation lq_quiet :: lq_out where
  "lq_quiet \<equiv> \<lparr>lo_user = [], lo_sched = 0\<rparr>"

section \<open>Entries\<close>

definition trs_logic_cq_is_empty :: "trs_logic_cq \<Rightarrow> bool" where
  "trs_logic_cq_is_empty q \<longleftrightarrow> lq_tail q = lq_head q"

text \<open>The remainder by a depth of 0 is not defined.\<close>

definition trs_logic_cq_is_full :: "trs_logic_cq \<Rightarrow> bool option" where
  "trs_logic_cq_is_full q =
     (if lq_cq_depth q = 0 then None else Some ((lq_tail q + 1) mod lq_cq_depth q = lq_head q))"

definition trs_logic_set_cqe_version :: "u32 \<Rightarrow> trs_logic_cq \<Rightarrow> trs_logic_cq" where
  "trs_logic_set_cqe_version v q = q\<lparr>lq_cqe_verion := v\<rparr>"

text \<open>\<^verbatim>\<open>match_flag\<close> is a byte at offset 7 of a version 1 entry and bit 0 of the halfword at offset 14 of a version 2 entry.\<close>

definition trs_logic_is_cqe_need_match :: "trs_logic_cq \<Rightarrow> u8 list \<Rightarrow> int \<Rightarrow> bool option" where
  "trs_logic_is_cqe_need_match q bs cqe =
     (if lq_cqe_verion q = LOGIC_CQE_VERSION_V1
      then map_option (\<lambda>b. b ! 0 = 1) (mem_read bs (cqe + 7) 1)
      else map_option (\<lambda>w. bit w 0) (get_u16 bs (cqe + 14)))"

definition trs_logic_is_cqe_match :: "trs_logic_cq \<Rightarrow> u8 list \<Rightarrow> int \<Rightarrow> u32 \<Rightarrow> u32 \<Rightarrow> bool option" where
  "trs_logic_is_cqe_match q bs cqe stream_id task_id =
     (if lq_cqe_verion q = LOGIC_CQE_VERSION_V1
      then do {
        s \<leftarrow> get_u16 bs (cqe + 2);
        if ucast s \<noteq> stream_id then Some False
        else do { t \<leftarrow> get_u16 bs (cqe + 4); Some (ucast t = task_id) }
      }
      else do {
        s \<leftarrow> get_u16 bs cqe;
        if ucast s \<noteq> stream_id then Some False
        else do { t \<leftarrow> get_u16 bs (cqe + 2); Some (ucast t = task_id) }
      })"

text \<open>
  Only logs, but reads \<^verbatim>\<open>enque_timestamp\<close>, eight bytes at offset 24, and the fields before it when the entry is old.
\<close>

definition trs_logic_cq_check_report_cqe :: "u8 list \<Rightarrow> int \<Rightarrow> unit option" where
  "trs_logic_cq_check_report_cqe bs cqe = map_option (\<lambda>_. ()) (mem_read bs (cqe + 24) 8)"

section \<open>Choosing the entries to report\<close>

text \<open>\<^verbatim>\<open>logic_cq->addr + (unsigned long)pos * logic_cq->cqe_size\<close>, as an offset: the product of two 32-bit numbers.\<close>

definition cqe_off :: "trs_logic_cq \<Rightarrow> u32 \<Rightarrow> int" where
  "cqe_off q pos = uint pos * uint (lq_cqe_size q)"

text \<open>The loop over the entries from \<open>pos\<close> on, \<open>n\<close> of them left.\<close>

fun match_copy_scan ::
    "trs_logic_cq \<Rightarrow> u8 list \<Rightarrow> halReportRecvInfo \<Rightarrow> u32 \<Rightarrow> u32 \<Rightarrow> nat \<Rightarrow> u32 \<Rightarrow> u32 \<Rightarrow> (u32 \<times> u32) option" where
  "match_copy_scan q bs para report_cnt pos 0 search_start search_num = Some (search_start, search_num)"
| "match_copy_scan q bs para report_cnt pos (Suc n) search_start search_num = do {
     need \<leftarrow> trs_logic_is_cqe_need_match q bs (cqe_off q pos);
     if need then do {
       mat \<leftarrow> trs_logic_is_cqe_match q bs (cqe_off q pos) (rr_stream_id para) (rr_task_id para);
       if mat then do {
         _ \<leftarrow> trs_logic_cq_check_report_cqe bs (cqe_off q pos);
         Some (if search_num = 0 then pos else search_start, search_num + 1)
       }
       else if search_num \<noteq> 0 \<or> search_num \<ge> report_cnt then Some (search_start, search_num)
       else match_copy_scan q bs para report_cnt (pos + 1) n search_start search_num
     }
     else let search_start' = (if search_num = 0 then pos else search_start) in
       if search_num + 1 \<ge> report_cnt then Some (search_start', search_num + 1)
       else match_copy_scan q bs para report_cnt (pos + 1) n search_start' (search_num + 1)
   }"

definition trs_logic_cq_get_match_copy_range ::
    "trs_logic_cq \<Rightarrow> u8 list \<Rightarrow> halReportRecvInfo \<Rightarrow> u32 \<Rightarrow> u32 \<Rightarrow> (u32 \<times> u32) option" where
  "trs_logic_cq_get_match_copy_range q bs para cqe_start cqe_end =
     (let cqe_cnt = cqe_end - cqe_start in
      match_copy_scan q bs para (min cqe_cnt (rr_cqe_num para)) cqe_start (unat cqe_cnt) 0 0)"

section \<open>Closing the hole\<close>

text \<open>The pointers go back by the size of the structure, whatever the slot size of the queue is.\<close>

definition cqe_struct_size :: "trs_logic_cq \<Rightarrow> nat" where
  "cqe_struct_size q = (if lq_cqe_verion q = LOGIC_CQE_VERSION_V1 then LOGIC_CQE_V1_SIZE else LOGIC_CQE_SIZE)"

fun move_cqes_from :: "nat \<Rightarrow> int \<Rightarrow> int \<Rightarrow> nat \<Rightarrow> u8 list \<Rightarrow> u8 list option" where
  "move_cqes_from sz report_s report_d 0 bs = Some bs"
| "move_cqes_from sz report_s report_d (Suc n) bs = do {
     v \<leftarrow> mem_read bs report_s sz;
     bs' \<leftarrow> mem_write bs report_d v;
     move_cqes_from sz (report_s - int sz) (report_d - int sz) n bs'
   }"

definition trs_logic_cq_move_cqes :: "trs_logic_cq \<Rightarrow> u32 \<Rightarrow> u32 \<Rightarrow> u32 \<Rightarrow> u8 list \<Rightarrow> u8 list option" where
  "trs_logic_cq_move_cqes q src_pos dst_pos num bs =
     move_cqes_from (cqe_struct_size q) (cqe_off q (src_pos + num - 1)) (cqe_off q (dst_pos + num - 1)) (unat num) bs"

definition trs_logic_cq_eliminate_holes :: "trs_logic_cq \<Rightarrow> u32 \<Rightarrow> u32 \<Rightarrow> bool \<Rightarrow> u8 list \<Rightarrow> u8 list option" where
  "trs_logic_cq_eliminate_holes q start report_cnt rollback bs = do {
     let num = (if \<not> rollback then start - lq_head q else start);
     let src_pos = (if \<not> rollback then lq_head q else 0);
     bs1 \<leftarrow> (if num \<noteq> 0 then trs_logic_cq_move_cqes q src_pos (src_pos + report_cnt) num bs else Some bs);
     if \<not> rollback then Some bs1
     else do {
       let num1 = min report_cnt (lq_cq_depth q - lq_head q);
       bs2 \<leftarrow> trs_logic_cq_move_cqes q (lq_cq_depth q - num1) (report_cnt - num1) num1 bs1;
       let num2 = lq_cq_depth q - lq_head q - num1;
       if num2 = 0 then Some bs2
       else trs_logic_cq_move_cqes q (lq_head q) (lq_cq_depth q - num2) num2 bs2
     }
   }"

section \<open>Receiving\<close>

text \<open>
  \<^verbatim>\<open>copy_to_user\<close> of \<open>n\<close> entries from \<open>start\<close> on: the number of bytes left over, and the bytes that arrived.
\<close>

definition cqes_to_user ::
    "lq_env \<Rightarrow> nat \<Rightarrow> trs_logic_cq \<Rightarrow> u8 list \<Rightarrow> halReportRecvInfo \<Rightarrow> u32 \<Rightarrow> u32 \<Rightarrow> lq_out \<Rightarrow> (int \<times> lq_out) option" where
  "cqes_to_user e k q bs para start n out = do {
     v \<leftarrow> mem_read bs (cqe_off q start) (unat n * unat (lq_cqe_size q));
     let ret = le_ctu e k (rr_cqe_addr para) v;
     Some (ret, out\<lparr>lo_user := lo_user out @ [take (length v - nat ret) v]\<rparr>)
   }"

text \<open>\<^verbatim>\<open>trs_logic_cq_match_copy\<close> once the entries are chosen.\<close>

definition match_copy_deliver ::
    "lq_env \<Rightarrow> nat \<Rightarrow> trs_logic_cq \<Rightarrow> u8 list \<Rightarrow> halReportRecvInfo \<Rightarrow> u32 \<Rightarrow> u32 \<Rightarrow> bool \<Rightarrow> lq_out \<Rightarrow>
     (int \<times> halReportRecvInfo \<times> trs_logic_cq \<times> lq_out) option" where
  "match_copy_deliver e k q bs para start report_cnt rollback out = do {
     (ret, out') \<leftarrow> cqes_to_user e k q bs para start report_cnt out;
     if ret \<noteq> 0 then Some (ret, para, q, out')
     else do {
       bs' \<leftarrow> (if lq_head q \<noteq> start then trs_logic_cq_eliminate_holes q start report_cnt rollback bs else Some bs);
       Some (0, para\<lparr>rr_report_cqe_num := report_cnt\<rparr>, q\<lparr>lq_addr := Some bs'\<rparr>, out')
     }
   }"

text \<open>The body of \<^verbatim>\<open>trs_logic_cq_match_copy\<close> after \<open>tail\<close> has been read.\<close>

definition match_copy_at ::
    "lq_env \<Rightarrow> nat \<Rightarrow> u32 \<Rightarrow> trs_logic_cq \<Rightarrow> halReportRecvInfo \<Rightarrow> lq_out \<Rightarrow>
     (int \<times> halReportRecvInfo \<times> trs_logic_cq \<times> lq_out) option" where
  "match_copy_at e k tail q para out = do {
     bs \<leftarrow> lq_addr q;
     (start, report_cnt, rollback) \<leftarrow>
       (if tail > lq_head q
        then do {
          (s, n) \<leftarrow> trs_logic_cq_get_match_copy_range q bs para (lq_head q) tail;
          Some (s, n, False)
        }
        else do {
          (s, n) \<leftarrow> trs_logic_cq_get_match_copy_range q bs para (lq_head q) (lq_cq_depth q);
          if n = 0
          then do {
            (s', n') \<leftarrow> trs_logic_cq_get_match_copy_range q bs para 0 tail;
            Some (s', n', True)
          }
          else Some (s, n, False)
        });
     if report_cnt = 0 then Some (- EAGAIN, para, q, out)
     else match_copy_deliver e k q bs para start report_cnt rollback out
   }"

definition trs_logic_cq_match_copy ::
    "lq_env \<Rightarrow> nat \<Rightarrow> trs_logic_cq \<Rightarrow> halReportRecvInfo \<Rightarrow> lq_out \<Rightarrow>
     (int \<times> halReportRecvInfo \<times> trs_logic_cq \<times> lq_out) option" where
  "trs_logic_cq_match_copy e k q para out = match_copy_at e k (lq_tail q) q para out"

definition trs_logic_cq_non_match_copy ::
    "lq_env \<Rightarrow> nat \<Rightarrow> trs_logic_cq \<Rightarrow> halReportRecvInfo \<Rightarrow> lq_out \<Rightarrow>
     (int \<times> halReportRecvInfo \<times> trs_logic_cq \<times> lq_out) option" where
  "trs_logic_cq_non_match_copy e k q para out = do {
     bs \<leftarrow> lq_addr q;
     let start = lq_head q;
     let report_cnt = (if lq_tail q > start then lq_tail q - start else lq_cq_depth q - start);
     (ret, out') \<leftarrow> cqes_to_user e k q bs para start report_cnt out;
     if ret \<noteq> 0 then Some (ret, para, q, out')
     else Some (0, para\<lparr>rr_report_cqe_num := report_cnt\<rparr>, q, out')
   }"

text \<open>\<open>chan_id\<close> is \<^verbatim>\<open>ts_inst->logic_cq_ctx.phy_cq.chan_id\<close>.\<close>

definition trs_logic_cq_copy_report ::
    "lq_env \<Rightarrow> nat \<Rightarrow> int \<Rightarrow> trs_logic_cq \<Rightarrow> halReportRecvInfo \<Rightarrow> lq_out \<Rightarrow>
     (int \<times> halReportRecvInfo \<times> trs_logic_cq \<times> lq_out) option" where
  "trs_logic_cq_copy_report e k chan_id q para out =
     (if lq_valid q = 0 then Some (- EFAULT, para, q, out)
      else if trs_logic_cq_is_empty q then Some (- EAGAIN, para, q, out)
      else do {
        full_flag \<leftarrow> trs_logic_cq_is_full q;
        (ret, para', q', out') \<leftarrow>
          (if rr_res para 0 = 1 then trs_logic_cq_match_copy e k q para out
           else trs_logic_cq_non_match_copy e k q para out);
        if ret \<noteq> 0 then Some (ret, para', q', out')
        else Some (0, para', q'\<lparr>lq_head := (lq_head q' + rr_report_cqe_num para') mod lq_cq_depth q'\<rparr>,
               if full_flag \<and> chan_id \<ge> 0 then out'\<lparr>lo_sched := Suc (lo_sched out')\<rparr> else out')
      })"

definition wait_jiffies :: "lq_env \<Rightarrow> int \<Rightarrow> int" where
  "wait_jiffies e timeout =
     (if timeout = - 1 then MAX_SCHEDULE_TIMEOUT else le_jiffies e (word_of_int timeout))"

definition trs_logic_cq_wait_event :: "lq_env \<Rightarrow> nat \<Rightarrow> trs_logic_cq \<Rightarrow> int \<Rightarrow> int \<times> trs_logic_cq" where
  "trs_logic_cq_wait_event e k q timeout =
     (let q1 = q\<lparr>lq_wait_thread_num := i32 (lq_wait_thread_num q + 1)\<rparr>;
          tm = wait_jiffies e timeout;
          (ret, q2) = (if lq_wakeup_num q1 > 0
                       then (tm, q1\<lparr>lq_wakeup_num := i32 (lq_wakeup_num q1 - 1)\<rparr>)
                       else (le_sleep e k tm, le_others e (2 * k + 1) q1));
          ret' = (if le_signal e k then - ERESTARTSYS else ret);
          q3 = q2\<lparr>lq_wait_thread_num := i32 (lq_wait_thread_num q2 - 1)\<rparr>
      in if ret' = 0
         then (- ETIMEDOUT, q3\<lparr>lq_stat := (lq_stat q3)\<lparr>ls_timeout := ls_timeout (lq_stat q3) + 1\<rparr>\<rparr>)
         else if ret' > 0 then (0, q3) else (i32 ret', q3))"

text \<open>
  The wait of a queue with an interrupt of its own; the condition is checked before the timeout and the signals are.
\<close>

definition trs_thread_bind_irq_wait :: "lq_env \<Rightarrow> trs_logic_cq \<Rightarrow> int \<Rightarrow> int" where
  "trs_thread_bind_irq_wait e q timeout =
     (let tm = wait_jiffies e timeout;
          ret = (if lq_wakeup_num q > 0 then max 1 tm else if le_signal e 0 then - ERESTARTSYS else le_sleep e 0 tm)
      in if ret = 0 then - ETIMEDOUT else if ret < 0 then i32 ret else 0)"

text \<open>The loop of \<^verbatim>\<open>trs_logic_cq_recv\<close>, at most \<open>fuel\<close> rounds: the result \<open>None\<close> in the first place is a loop still running.\<close>

fun recv_rounds ::
    "lq_env \<Rightarrow> int \<Rightarrow> nat \<Rightarrow> nat \<Rightarrow> trs_logic_cq \<Rightarrow> halReportRecvInfo \<Rightarrow> lq_out \<Rightarrow>
     (int option \<times> halReportRecvInfo \<times> trs_logic_cq \<times> lq_out) option" where
  "recv_rounds e chan_id k 0 q para out = Some (None, para, q, out)"
| "recv_rounds e chan_id k (Suc fuel) q para out = do {
     (ret, para', q', out') \<leftarrow> trs_logic_cq_copy_report e k chan_id q para out;
     if ret = 0
     then Some (Some 0, para', q'\<lparr>lq_stat := (lq_stat q')\<lparr>ls_recv := ls_recv (lq_stat q') + 1\<rparr>\<rparr>, out')
     else do {
       let q1 = le_others e (2 * k) q';
       if ret = - EAGAIN
       then (if rr_timeout para' = 0
             then Some (Some 0, para'\<lparr>rr_report_cqe_num := 0\<rparr>, q1, out')
             else case trs_logic_cq_wait_event e k q1 (rr_timeout para') of
               (ret', q2) \<Rightarrow>
                 if ret' \<ge> 0 then recv_rounds e chan_id (Suc k) fuel q2 para' out'
                 else Some (Some ret', para', q2, out'))
       else if ret \<ge> 0 then recv_rounds e chan_id (Suc k) fuel q1 para' out'
       else Some (Some ret, para', q1, out')
     }
   }"

section \<open>Enqueueing\<close>

text \<open>\<open>active\<close> is \<^verbatim>\<open>waitqueue_active\<close>; the threads woken are outside the queue.\<close>

definition trs_logic_cq_wakeup :: "bool \<Rightarrow> trs_logic_cq \<Rightarrow> trs_logic_cq" where
  "trs_logic_cq_wakeup active q =
     (let n = lq_wait_thread_num q;
          q1 = q\<lparr>lq_wakeup_num := (if n > 0 then n else 1)\<rparr>
      in if active then q1\<lparr>lq_stat := (lq_stat q1)\<lparr>ls_wakeup := ls_wakeup (lq_stat q1) + 1\<rparr>\<rparr> else q1)"

text \<open>\<open>cqe\<close> is the memory from the caller's pointer on.\<close>

definition trs_logic_cq_enque :: "bool \<Rightarrow> trs_logic_cq \<Rightarrow> u8 list \<Rightarrow> (int \<times> trs_logic_cq) option" where
  "trs_logic_cq_enque active q cqe =
     (if lq_valid q = 0 then Some (- EINVAL, q)
      else do {
        full \<leftarrow> trs_logic_cq_is_full q;
        if full
        then Some (- EAGAIN, q\<lparr>lq_stat := (lq_stat q)\<lparr>ls_full_drop := ls_full_drop (lq_stat q) + 1\<rparr>\<rparr>)
        else do {
          bs \<leftarrow> lq_addr q;
          v \<leftarrow> mem_read cqe 0 (unat (lq_cqe_size q));
          bs' \<leftarrow> mem_write bs (uint (lq_tail q * lq_cqe_size q)) v;
          let q1 = q\<lparr>lq_addr := Some bs', lq_tail := (lq_tail q + 1) mod lq_cq_depth q\<rparr>;
          let q2 = trs_logic_cq_wakeup active q1;
          Some (0, q2\<lparr>lq_stat := (lq_stat q2)\<lparr>ls_enque := ls_enque (lq_stat q2) + 1\<rparr>\<rparr>)
        }
      })"

definition trs_logic_cqe_is_valid :: "u8 list \<Rightarrow> u32 \<Rightarrow> bool option" where
  "trs_logic_cqe_is_valid cqe loop = map_option (\<lambda>w. bit w 0 = bit (loop + 1) 0) (get_u16 cqe 0)"

end
