(* ===== verification/Logic_Ring.thy ===== *)
theory Logic_Ring
  imports Logic_Cq
begin

section \<open>Slots\<close>

definition slot :: "nat \<Rightarrow> u8 list \<Rightarrow> nat \<Rightarrow> u8 list" where
  "slot S bs i = take S (drop (i * S) bs)"

lemma mem_read_int:
  "mem_read bs (int a) n = (if a + n \<le> length bs then Some (take n (drop a bs)) else None)"
  by (simp add: mem_read_def)

lemma mem_write_int:
  "mem_write bs (int a) v =
     (if a + length v \<le> length bs then Some (take a bs @ v @ drop (a + length v) bs) else None)"
  by (simp add: mem_write_def)

lemma slot_fits:
  assumes "length bs = D * S" "i < (D::nat)"
  shows "i * S + S \<le> length bs"
proof -
  have "Suc i * S \<le> D * S" using assms(2) by (intro mult_le_mono1) simp
  then show ?thesis by (simp add: assms(1) add.commute)
qed

lemma length_slot:
  assumes "length bs = D * S" "i < D"
  shows "length (slot S bs i) = S"
  using slot_fits [OF assms] by (simp add: slot_def)

lemma mem_read_slot:
  assumes "length bs = D * S" "i < D" "k + n \<le> S"
  shows "mem_read bs (int (i * S + k)) n = Some (take n (drop k (slot S bs i)))"
proof -
  have "i * S + k + n \<le> length bs" using slot_fits [OF assms(1,2)] assms(3) by linarith
  moreover have "take n (drop (i * S + k) bs) = take n (drop k (slot S bs i))"
    using assms(3) by (simp add: slot_def drop_take min_def add.commute)
  ultimately show ?thesis by (simp only: mem_read_int) simp
qed

lemma get_u16_slot:
  assumes "length bs = D * S" "i < D" "k + 2 \<le> S"
  shows "get_u16 bs (int (i * S + k)) = Some (u16_of (take 2 (drop k (slot S bs i))))"
  using mem_read_slot [OF assms] by (simp add: get_u16_def)

lemma mem_write_slot:
  assumes "length bs = D * S" "i < D" "length v = S"
  obtains bs' where "mem_write bs (int (i * S)) v = Some bs'" "length bs' = D * S"
    "\<And>j. j < D \<Longrightarrow> slot S bs' j = (if j = i then v else slot S bs j)"
proof
  let ?bs' = "take (i * S) bs @ v @ drop (i * S + S) bs"
  have fit: "i * S + S \<le> length bs" by (rule slot_fits [OF assms(1,2)])
  show "mem_write bs (int (i * S)) v = Some ?bs'" using fit assms(3) by (simp only: mem_write_int) simp
  show "length ?bs' = D * S" using fit assms(1,3) by simp
  fix j assume j: "j < D"
  consider "j < i" | "j = i" | "i < j" by linarith
  then show "slot S ?bs' j = (if j = i then v else slot S bs j)"
  proof cases
    case 1
    then have "j * S + S \<le> i * S" using mult_le_mono1 [of "Suc j" i S] by simp
    moreover from this fit have "S \<le> length (take (i * S - j * S) (drop (j * S) bs))" by simp
    ultimately have "take S (drop (j * S) ?bs') = take S (drop (j * S) bs)"
      using fit by (simp add: drop_take min_def)
    with 1 show ?thesis by (simp add: slot_def)
  next
    case 2
    with fit assms(3) show ?thesis by (simp add: slot_def)
  next
    case 3
    then have le: "i * S + S \<le> j * S" using mult_le_mono1 [of "Suc i" j S] by simp
    have "drop (j * S) ?bs' = drop (j * S) bs" using 3 le fit assms(3) by (simp add: add.commute)
    with 3 show ?thesis by (simp add: slot_def)
  qed
qed

section \<open>Moving slots\<close>

definition mv :: "nat \<Rightarrow> nat \<Rightarrow> nat \<Rightarrow> (nat \<Rightarrow> 'a) \<Rightarrow> nat \<Rightarrow> 'a" where
  "mv src dst n sl j = (if dst \<le> j \<and> j < dst + n then sl (j - dst + src) else sl j)"

lemma mv_0 [simp]: "mv src dst 0 sl = sl"
  by (rule ext) (auto simp: mv_def)

lemma mv_cong:
  assumes "\<And>j. j < D \<Longrightarrow> sl j = sl' j" "src + n \<le> D" "j < D"
  shows "mv src dst n sl j = mv src dst n sl' j"
  using assms by (auto simp: mv_def)

lemma move_cqes_from_mv:
  assumes "length bs = D * S" "src + n \<le> D" "dst + n \<le> D" "src \<le> dst \<or> dst + n \<le> src"
  shows "\<exists>bs'. move_cqes_from S (int ((src + n) * S) - int S) (int ((dst + n) * S) - int S) n bs = Some bs' \<and>
    length bs' = D * S \<and> (\<forall>j < D. slot S bs' j = mv src dst n (slot S bs) j)"
  using assms
proof (induction n arbitrary: bs)
  case 0
  then show ?case by (auto simp: mv_def)
next
  case (Suc n)
  have off: "int ((a + Suc n) * S) - int S = int ((a + n) * S)" for a by (simp add: algebra_simps)
  have rd: "mem_read bs (int ((src + n) * S)) S = Some (slot S bs (src + n))"
    using mem_read_slot [of bs D S "src + n" 0 S] Suc.prems length_slot [of bs D S "src + n"] by simp
  have "length (slot S bs (src + n)) = S" using Suc.prems by (intro length_slot [of bs D]) auto
  then obtain bs1 where w: "mem_write bs (int ((dst + n) * S)) (slot S bs (src + n)) = Some bs1" "length bs1 = D * S"
    and sl: "\<And>j. j < D \<Longrightarrow> slot S bs1 j = (if j = dst + n then slot S bs (src + n) else slot S bs j)"
    using mem_write_slot [of bs D S "dst + n" "slot S bs (src + n)"] Suc.prems by auto
  obtain bs' where r: "move_cqes_from S (int ((src + n) * S) - int S) (int ((dst + n) * S) - int S) n bs1 = Some bs'"
    "length bs' = D * S" "\<forall>j < D. slot S bs' j = mv src dst n (slot S bs1) j"
    using Suc.IH [OF w(2)] Suc.prems by auto
  have "slot S bs' j = mv src dst (Suc n) (slot S bs) j" if "j < D" for j
    using r(3) that sl Suc.prems(2-4) by (auto simp: mv_def add.commute)
  with rd w r(1,2) show ?case by (simp add: off)
qed

section \<open>Well-formed queues\<close>

text \<open>A queue of version 2 entries, with the slot size of their structure.\<close>

abbreviation lq_D :: "trs_logic_cq \<Rightarrow> nat" where "lq_D q \<equiv> unat (lq_cq_depth q)"
abbreviation lq_H :: "trs_logic_cq \<Rightarrow> nat" where "lq_H q \<equiv> unat (lq_head q)"
abbreviation lq_T :: "trs_logic_cq \<Rightarrow> nat" where "lq_T q \<equiv> unat (lq_tail q)"

definition lq_wf :: "trs_logic_cq \<Rightarrow> u8 list \<Rightarrow> bool" where
  "lq_wf q bs \<longleftrightarrow>
     lq_addr q = Some bs \<and> lq_cqe_verion q \<noteq> LOGIC_CQE_VERSION_V1 \<and> lq_cqe_size q = 32 \<and>
     lq_cq_depth q \<le> LOGIC_CQ_MAX_DEPTH \<and> length bs = lq_D q * 32 \<and>
     lq_head q < lq_cq_depth q \<and> lq_tail q < lq_cq_depth q"

lemma lq_wf_nat:
  assumes "lq_wf q bs"
  shows "lq_D q \<le> 65536" "lq_H q < lq_D q" "lq_T q < lq_D q" "length bs = lq_D q * 32" "lq_addr q = Some bs"
  using assms by (auto simp: lq_wf_def word_le_nat_alt word_less_nat_alt)

lemma unat_plus_small:
  fixes a b :: u32
  assumes "unat a + unat b \<le> 65536"
  shows "unat (a + b) = unat a + unat b"
  using assms by (simp add: unat_word_ariths)

lemma unat_minus_small:
  fixes a b :: u32
  assumes "unat b \<le> unat a"
  shows "unat (a - b) = unat a - unat b"
  using assms by (simp add: unat_sub word_le_nat_alt)

lemma cqe_off_wf: "lq_wf q bs \<Longrightarrow> cqe_off q pos = int (unat pos * 32)"
  by (simp add: cqe_off_def lq_wf_def)

lemma move_cqes_wf:
  assumes wf: "lq_wf q bs0" "length bs = lq_D q * 32"
    and le: "unat src + unat num \<le> lq_D q" "unat dst + unat num \<le> lq_D q"
    and sep: "unat src \<le> unat dst \<or> unat dst + unat num \<le> unat src" and num: "num \<noteq> 0"
  obtains bs' where "trs_logic_cq_move_cqes q src dst num bs = Some bs'" "length bs' = lq_D q * 32"
    "\<And>j. j < lq_D q \<Longrightarrow> slot 32 bs' j = mv (unat src) (unat dst) (unat num) (slot 32 bs) j"
proof -
  have D: "lq_D q \<le> 65536" by (rule lq_wf_nat(1) [OF wf(1)])
  have pos: "0 < unat num" using num by (simp add: unat_gt_0)
  have off: "cqe_off q (a + num - 1) = int ((unat a + unat num) * 32) - int 32" if "unat a + unat num \<le> lq_D q" for a
  proof -
    have "unat (a + num) = unat a + unat num" using that D by (intro unat_plus_small) linarith
    moreover from this pos have "unat (a + num - 1) = unat a + unat num - 1"
      by (simp add: unat_minus_small)
    ultimately show ?thesis using pos by (simp add: cqe_off_wf [OF wf(1)] of_nat_diff)
  qed
  have "cqe_struct_size q = 32" using wf(1) by (simp add: cqe_struct_size_def lq_wf_def)
  then show thesis
    using move_cqes_from_mv [OF wf(2) le(1,2) sep] off [OF le(1)] off [OF le(2)] that
    by (auto simp: trs_logic_cq_move_cqes_def)
qed

section \<open>Closing a hole\<close>

text \<open>
  The slots seen from the head: the first \<open>s\<close> entries have moved \<open>n\<close> slots on, over the hole of \<open>n\<close> entries behind
  them, and everything behind the hole is where it was.
\<close>

definition hole_closed :: "nat \<Rightarrow> nat \<Rightarrow> nat \<Rightarrow> nat \<Rightarrow> (nat \<Rightarrow> 'a) \<Rightarrow> (nat \<Rightarrow> 'a) \<Rightarrow> bool" where
  "hole_closed D H s n sl sl' \<longleftrightarrow>
     (\<forall>i < s. sl' ((H + n + i) mod D) = sl ((H + i) mod D)) \<and>
     (\<forall>i < D. s + n \<le> i \<longrightarrow> sl' ((H + i) mod D) = sl ((H + i) mod D))"

lemma mod_below_twice:
  fixes x :: nat
  shows "x < 2 * D \<Longrightarrow> x mod D = (if x < D then x else x - D)"
  by (simp add: le_mod_geq)

lemma hole_closed_here:
  assumes "H + s + n \<le> D"
  shows "hole_closed D H s n sl (mv H (H + n) s sl)"
  unfolding hole_closed_def using assms by (auto simp: mv_def mod_below_twice add.commute)

lemma hole_closed_wrapped:
  assumes "b + n \<le> T" "T < H" "H < D"
  defines "m \<equiv> min n (D - H)"
  shows "hole_closed D H (D - H + b) n sl (mv H (D - (D - H - m)) (D - H - m) (mv (D - m) (n - m) m (mv 0 n b sl)))"
proof (cases "n \<le> D - H")
  case True
  then show ?thesis unfolding hole_closed_def m_def using assms(1-3) by (auto simp: mv_def mod_below_twice add.commute)
next
  case False
  then show ?thesis unfolding hole_closed_def m_def using assms(1-3) by (auto simp: mv_def mod_below_twice add.commute)
qed

lemma hole_closed_cong:
  assumes "hole_closed D H s n sl sl1" "\<And>j. j < D \<Longrightarrow> sl' j = sl1 j" "0 < D"
  shows "hole_closed D H s n sl sl'"
  using assms unfolding hole_closed_def by simp

lemma eliminate_holes_here:
  assumes wf: "lq_wf q bs" and le: "lq_H q \<le> unat start" "unat start + unat n \<le> lq_D q"
  obtains bs' where "trs_logic_cq_eliminate_holes q start n False bs = Some bs'" "length bs' = lq_D q * 32"
    "hole_closed (lq_D q) (lq_H q) (unat start - lq_H q) (unat n) (slot 32 bs) (slot 32 bs')"
proof (cases "start = lq_head q")
  case True
  have "hole_closed (lq_D q) (lq_H q) 0 (unat n) (slot 32 bs) (slot 32 bs)" by (simp add: hole_closed_def)
  with True show thesis using that lq_wf_nat [OF wf] by (simp add: trs_logic_cq_eliminate_holes_def)
next
  case False
  note nat = lq_wf_nat [OF wf]
  let ?num = "start - lq_head q"
  have un: "unat ?num = unat start - lq_H q" using le(1) by (rule unat_minus_small)
  have ud: "unat (lq_head q + n) = lq_H q + unat n" using le nat by (intro unat_plus_small) linarith
  have "?num \<noteq> 0" using False by simp
  moreover have "lq_H q + unat ?num \<le> lq_D q" "unat (lq_head q + n) + unat ?num \<le> lq_D q"
    "lq_H q \<le> unat (lq_head q + n) \<or> unat (lq_head q + n) + unat ?num \<le> lq_H q"
    using un ud le by linarith+
  ultimately obtain bs' where bs': "trs_logic_cq_move_cqes q (lq_head q) (lq_head q + n) ?num bs = Some bs'"
    "length bs' = lq_D q * 32"
    "\<And>j. j < lq_D q \<Longrightarrow> slot 32 bs' j = mv (lq_H q) (lq_H q + unat n) (unat start - lq_H q) (slot 32 bs) j"
    using move_cqes_wf [OF wf nat(4), of "lq_head q" ?num "lq_head q + n"] un ud by metis
  show thesis
  proof (rule that)
    show "trs_logic_cq_eliminate_holes q start n False bs = Some bs'"
      using bs'(1) \<open>?num \<noteq> 0\<close> by (simp add: trs_logic_cq_eliminate_holes_def)
    show "length bs' = lq_D q * 32" by (rule bs'(2))
    show "hole_closed (lq_D q) (lq_H q) (unat start - lq_H q) (unat n) (slot 32 bs) (slot 32 bs')"
      using le nat by (intro hole_closed_cong [OF hole_closed_here bs'(3)]) linarith+
  qed
qed

lemma move_cqes_wf_maybe:
  assumes wf: "lq_wf q bs0" "length bs = lq_D q * 32"
    and le: "unat src + unat num \<le> lq_D q" "unat dst + unat num \<le> lq_D q"
    and sep: "unat src \<le> unat dst \<or> unat dst + unat num \<le> unat src"
  obtains bs' where "(if num = 0 then Some bs else trs_logic_cq_move_cqes q src dst num bs) = Some bs'"
    "length bs' = lq_D q * 32"
    "\<And>j. j < lq_D q \<Longrightarrow> slot 32 bs' j = mv (unat src) (unat dst) (unat num) (slot 32 bs) j"
proof (cases "num = 0")
  case True
  with wf(2) that [of bs] show thesis by simp
next
  case False
  from move_cqes_wf [OF assms this] False that show thesis by metis
qed

lemma eliminate_holes_wrapped:
  assumes wf: "lq_wf q bs" and le: "unat start + unat n \<le> lq_T q" "lq_T q < lq_H q" "n \<noteq> 0"
  obtains bs' where "trs_logic_cq_eliminate_holes q start n True bs = Some bs'" "length bs' = lq_D q * 32"
    "hole_closed (lq_D q) (lq_H q) (lq_D q - lq_H q + unat start) (unat n) (slot 32 bs) (slot 32 bs')"
proof -
  note nat = lq_wf_nat [OF wf]
  define m where "m = min n (lq_cq_depth q - lq_head q)"
  define k where "k = lq_cq_depth q - lq_head q - m"
  have dh: "unat (lq_cq_depth q - lq_head q) = lq_D q - lq_H q" using nat by (intro unat_minus_small) simp
  have um: "unat m = min (unat n) (lq_D q - lq_H q)" by (simp add: m_def min_def word_le_nat_alt dh)
  have uk: "unat k = lq_D q - lq_H q - unat m" using um by (simp add: k_def unat_minus_small dh)
  have udm: "unat (lq_cq_depth q - m) = lq_D q - unat m" using um nat by (intro unat_minus_small) linarith
  have unm: "unat (n - m) = unat n - unat m" using um by (intro unat_minus_small) simp
  have udk: "unat (lq_cq_depth q - k) = lq_D q - unat k" using uk by (intro unat_minus_small) linarith
  have m0: "m \<noteq> 0" using um le(3) nat(2) by (auto simp: unat_eq_0 [symmetric])
  obtain bs1 where 1: "(if start = 0 then Some bs else trs_logic_cq_move_cqes q 0 n start bs) = Some bs1"
    "length bs1 = lq_D q * 32"
    "\<And>j. j < lq_D q \<Longrightarrow> slot 32 bs1 j = mv 0 (unat n) (unat start) (slot 32 bs) j"
    using move_cqes_wf_maybe [OF wf nat(4), of 0 start n] le nat by auto
  have fit2: "unat (lq_cq_depth q - m) + unat m \<le> lq_D q" "unat (n - m) + unat m \<le> lq_D q"
    "unat (lq_cq_depth q - m) \<le> unat (n - m) \<or> unat (n - m) + unat m \<le> unat (lq_cq_depth q - m)"
    using le nat um udm unm by linarith+
  obtain bs2 where 2: "trs_logic_cq_move_cqes q (lq_cq_depth q - m) (n - m) m bs1 = Some bs2"
    "length bs2 = lq_D q * 32"
    "\<And>j. j < lq_D q \<Longrightarrow> slot 32 bs2 j = mv (lq_D q - unat m) (unat n - unat m) (unat m) (slot 32 bs1) j"
    using move_cqes_wf [OF wf 1(2) fit2 m0] unfolding udm unm by blast
  have fit3: "lq_H q + unat k \<le> lq_D q" "unat (lq_cq_depth q - k) + unat k \<le> lq_D q"
    "lq_H q \<le> unat (lq_cq_depth q - k) \<or> unat (lq_cq_depth q - k) + unat k \<le> lq_H q"
    using le nat um uk udk by linarith+
  obtain bs3 where 3: "(if k = 0 then Some bs2 else trs_logic_cq_move_cqes q (lq_head q) (lq_cq_depth q - k) k bs2) = Some bs3"
    "length bs3 = lq_D q * 32"
    "\<And>j. j < lq_D q \<Longrightarrow> slot 32 bs3 j = mv (lq_H q) (lq_D q - unat k) (unat k) (slot 32 bs2) j"
    using move_cqes_wf_maybe [OF wf 2(2) fit3] unfolding udk by blast
  show thesis
  proof (rule that)
    show "trs_logic_cq_eliminate_holes q start n True bs = Some bs3"
      using 1(1) 2(1) 3(1)
      by (auto simp: trs_logic_cq_eliminate_holes_def Let_def m_def [symmetric] k_def [symmetric]
          simp del: right_minus_eq split: if_splits)
    show "length bs3 = lq_D q * 32" by (rule 3(2))
    show "hole_closed (lq_D q) (lq_H q) (lq_D q - lq_H q + unat start) (unat n) (slot 32 bs) (slot 32 bs3)"
    proof (rule hole_closed_cong [OF hole_closed_wrapped [OF le(1,2) nat(2)], folded um, folded uk])
      fix j assume j: "j < lq_D q"
      have "slot 32 bs3 j = mv (lq_H q) (lq_D q - unat k) (unat k) (slot 32 bs2) j" by (rule 3(3) [OF j])
      also have "\<dots> = mv (lq_H q) (lq_D q - unat k) (unat k)
          (mv (lq_D q - unat m) (unat n - unat m) (unat m) (slot 32 bs1)) j"
        by (rule mv_cong [OF 2(3) fit3(1) j])
      also have "\<dots> = mv (lq_H q) (lq_D q - unat k) (unat k)
          (mv (lq_D q - unat m) (unat n - unat m) (unat m) (mv 0 (unat n) (unat start) (slot 32 bs))) j"
        by (rule mv_cong [OF mv_cong [OF 1(3) fit2(1) [unfolded udm]] fit3(1) j])
      finally show "slot 32 bs3 j = \<dots>" .
    qed (use nat in linarith)
  qed
qed

section \<open>Choosing the entries\<close>

text \<open>
  The class of a version 2 entry: \<open>None\<close> for a normal one, and the stream and the task it is for when it must be matched.
\<close>

definition cqe_class :: "u8 list \<Rightarrow> (u32 \<times> u32) option" where
  "cqe_class x =
     (if bit (u16_of (take 2 (drop 14 x))) 0
      then Some (ucast (u16_of (take 2 x)), ucast (u16_of (take 2 (drop 2 x)))) else None)"

definition foreign :: "u32 \<times> u32 \<Rightarrow> u8 list \<Rightarrow> bool" where
  "foreign rid x \<longleftrightarrow> cqe_class x \<noteq> None \<and> cqe_class x \<noteq> Some rid"

text \<open>
  From the first entry that is not foreign on, a reader takes normal entries up to its limit, or up to and including the
  first entry for itself, or up to the next foreign one.
\<close>

fun taken :: "u32 \<times> u32 \<Rightarrow> nat \<Rightarrow> u8 list list \<Rightarrow> nat" where
  "taken rid k [] = 0"
| "taken rid k (x # xs) =
     (if cqe_class x = None then (if k \<le> 1 then 1 else Suc (taken rid (k - 1) xs))
      else if cqe_class x = Some rid then 1 else 0)"

definition pick :: "u32 \<times> u32 \<Rightarrow> nat \<Rightarrow> u8 list list \<Rightarrow> nat \<times> nat" where
  "pick rid k xs =
     (length (takeWhile (foreign rid) xs), taken rid k (dropWhile (foreign rid) xs))"

abbreviation rr_rid :: "halReportRecvInfo \<Rightarrow> u32 \<times> u32" where
  "rr_rid para \<equiv> (rr_stream_id para, rr_task_id para)"

lemma taken_le: "taken rid k xs \<le> length xs"
  by (induction rid k xs rule: taken.induct) auto

lemma taken_le_limit: "0 < k \<Longrightarrow> taken rid k xs \<le> k"
  by (induction rid k xs rule: taken.induct) auto

lemma scan_fields:
  assumes wf: "lq_wf q bs" and i: "unat pos < lq_D q"
  defines "x \<equiv> slot 32 bs (unat pos)"
  shows "trs_logic_is_cqe_need_match q bs (cqe_off q pos) = Some (cqe_class x \<noteq> None)"
    and "cqe_class x = Some c \<Longrightarrow> trs_logic_is_cqe_match q bs (cqe_off q pos) s t = Some (c = (s, t))"
    and "trs_logic_cq_check_report_cqe bs (cqe_off q pos) = Some ()"
proof -
  note nat = lq_wf_nat [OF wf]
  have v: "lq_cqe_verion q \<noteq> LOGIC_CQE_VERSION_V1" using wf by (simp add: lq_wf_def)
  have off: "cqe_off q pos + int k = int (unat pos * 32 + k)" for k by (simp add: cqe_off_wf [OF wf])
  have g: "get_u16 bs (cqe_off q pos + int k) = Some (u16_of (take 2 (drop k x)))" if "k + 2 \<le> 32" for k
    unfolding off x_def by (rule get_u16_slot [OF nat(4) i that])
  show "trs_logic_is_cqe_need_match q bs (cqe_off q pos) = Some (cqe_class x \<noteq> None)"
    using g [of 14] v by (simp add: trs_logic_is_cqe_need_match_def cqe_class_def)
  show "cqe_class x = Some c \<Longrightarrow> trs_logic_is_cqe_match q bs (cqe_off q pos) s t = Some (c = (s, t))"
    using g [of 0] g [of 2] v by (auto simp: trs_logic_is_cqe_match_def cqe_class_def split: if_splits)
  have "mem_read bs (cqe_off q pos + int 24) 8 = Some (take 8 (drop 24 x))"
    unfolding off x_def by (rule mem_read_slot [OF nat(4) i]) simp
  then show "trs_logic_cq_check_report_cqe bs (cqe_off q pos) = Some ()"
    by (simp add: trs_logic_cq_check_report_cqe_def)
qed

primrec slots_from :: "u8 list \<Rightarrow> nat \<Rightarrow> nat \<Rightarrow> u8 list list" where
  "slots_from bs p 0 = []"
| "slots_from bs p (Suc n) = slot 32 bs p # slots_from bs (Suc p) n"

lemma slots_from_map: "slots_from bs p n = map (slot 32 bs) [p ..< p + n]"
  by (induction n arbitrary: p) (simp_all add: upt_conv_Cons del: upt_Suc)

lemma scan_started:
  assumes wf: "lq_wf q bs" and "unat pos + n \<le> lq_D q" "unat c < unat r" "unat r \<le> 65536" "c \<noteq> 0"
  shows "match_copy_scan q bs para r pos n start c =
    Some (start, c + of_nat (taken (rr_rid para) (unat r - unat c) (slots_from bs (unat pos) n)))"
  using assms(2-5)
proof (induction n arbitrary: pos c)
  case (Suc n)
  note nat = lq_wf_nat [OF wf]
  have i: "unat pos < lq_D q" using Suc.prems by simp
  note f = scan_fields [OF wf i]
  have p1: "unat (pos + 1) = Suc (unat pos)" using i nat(1) by (simp add: unat_plus_small)
  have c1: "unat (c + 1) = Suc (unat c)" using Suc.prems by (simp add: unat_plus_small)
  show ?case
  proof (cases "cqe_class (slot 32 bs (unat pos))")
    case None
    show ?thesis
    proof (cases "c + 1 \<ge> r")
      case True
      then have "unat r - unat c \<le> 1" using c1 by (simp add: word_le_nat_alt)
      with None True f(1) Suc.prems show ?thesis by (simp add: Let_def)
    next
      case False
      then have lt: "unat (c + 1) < unat r" by (simp only: word_le_nat_alt not_le)
      have "c + 1 \<noteq> 0" using c1 by (metis nat.distinct(1) unat_0)
      from Suc.IH [OF _ lt Suc.prems(3) this, of "pos + 1"] p1 Suc.prems(1)
      have "match_copy_scan q bs para r (pos + 1) n start (c + 1) =
        Some (start, c + 1 + of_nat (taken (rr_rid para) (unat r - unat (c + 1)) (slots_from bs (Suc (unat pos)) n)))"
        by simp
      moreover have "unat r - unat c - 1 = unat r - unat (c + 1)" "\<not> unat r - unat c \<le> 1" using c1 lt by simp_all
      ultimately show ?thesis using None False f(1) Suc.prems by (simp add: Let_def)
    qed
  next
    case (Some a)
    then show ?thesis using f Suc.prems by auto
  qed
qed simp

lemma scan_idle:
  assumes wf: "lq_wf q bs" and "unat pos + n \<le> lq_D q" "r \<noteq> 0" "unat r \<le> 65536"
  shows "match_copy_scan q bs para r pos n 0 0 =
    (case pick (rr_rid para) (unat r) (slots_from bs (unat pos) n) of
       (s, m) \<Rightarrow> Some (if m = 0 then 0 else pos + of_nat s, of_nat m))"
  using assms(2-)
proof (induction n arbitrary: pos)
  case 0
  then show ?case by (simp add: pick_def)
next
  case (Suc n)
  note nat = lq_wf_nat [OF wf]
  have i: "unat pos < lq_D q" using Suc.prems by simp
  note f = scan_fields [OF wf i]
  have p1: "unat (pos + 1) = Suc (unat pos)" using i nat(1) by (simp add: unat_plus_small)
  show ?case
  proof (cases "cqe_class (slot 32 bs (unat pos))")
    case None
    show ?thesis
    proof (cases "1 \<ge> r")
      case True
      then have "unat r \<le> 1" by (simp add: word_le_nat_alt)
      with None True f(1) Suc.prems show ?thesis by (simp add: Let_def pick_def foreign_def)
    next
      case False
      then have lt: "unat (1 :: u32) < unat r" by (simp only: word_le_nat_alt not_le)
      have "match_copy_scan q bs para r (pos + 1) n pos 1 =
        Some (pos, 1 + of_nat (taken (rr_rid para) (unat r - 1) (slots_from bs (Suc (unat pos)) n)))"
        using scan_started [OF wf _ lt Suc.prems(3), of "pos + 1" n para pos] p1 Suc.prems(1) by simp
      then show ?thesis using None False f(1) lt Suc.prems
        by (simp add: Let_def pick_def foreign_def)
    qed
  next
    case (Some a)
    show ?thesis
    proof (cases "a = rr_rid para")
      case True
      with Some show ?thesis using f Suc.prems by (simp add: pick_def foreign_def)
    next
      case False
      have "match_copy_scan q bs para r pos (Suc n) 0 0 = match_copy_scan q bs para r (pos + 1) n 0 0"
        using Some False f Suc.prems by simp
      also have "\<dots> = (case pick (rr_rid para) (unat r) (slots_from bs (Suc (unat pos)) n) of
         (s, m) \<Rightarrow> Some (if m = 0 then 0 else pos + 1 + of_nat s, of_nat m))"
        using Suc.IH [of "pos + 1"] Suc.prems p1 by simp
      finally show ?thesis using Some False
        by (simp add: pick_def foreign_def ac_simps)
    qed
  qed
qed

lemma taken_min: "length xs \<le> L \<Longrightarrow> 0 < k \<Longrightarrow> taken rid (min L k) xs = taken rid k xs"
proof (induction xs arbitrary: L k)
  case (Cons x xs)
  have "min L k - 1 = min (L - 1) (k - 1)" by simp
  moreover have "taken rid (min (L - 1) (k - 1)) xs = taken rid (k - 1) xs" if "1 < min L k"
    using Cons.IH [of "L - 1" "k - 1"] Cons.prems that by simp
  ultimately show ?case using Cons.prems by (cases xs) (auto simp: min_def)
qed simp

lemma length_slots_from [simp]: "length (slots_from bs p n) = n"
  by (simp add: slots_from_map)

lemma pick_bounds: "pick rid k xs = (s, n) \<Longrightarrow> s + n \<le> length xs"
  using taken_le [of rid k "dropWhile (foreign rid) xs"]
  by (auto simp: pick_def) (metis add_le_mono1 length_append nat_add_left_cancel_le takeWhile_dropWhile_id)

lemma match_copy_range_wf:
  assumes wf: "lq_wf q bs" and le: "unat a \<le> unat b" "unat b \<le> lq_D q" and K: "rr_cqe_num para \<noteq> 0"
    and pk: "pick (rr_rid para) (unat (rr_cqe_num para)) (slots_from bs (unat a) (unat b - unat a)) = (s, n)"
  shows "trs_logic_cq_get_match_copy_range q bs para a b = Some (if n = 0 then 0 else a + of_nat s, of_nat n)"
proof -
  let ?cnt = "b - a" and ?xs = "slots_from bs (unat a) (unat b - unat a)"
  have cnt: "unat ?cnt = unat b - unat a" using le(1) by (rule unat_minus_small)
  show ?thesis
  proof (cases "?cnt = 0")
    case True
    with cnt have "unat b - unat a = 0" by (metis unat_0)
    with pk True show ?thesis by (simp add: trs_logic_cq_get_match_copy_range_def pick_def)
  next
    case False
    let ?r = "min ?cnt (rr_cqe_num para)"
    have r0: "?r \<noteq> 0" using False K by (simp add: min_def)
    have ur: "unat ?r = min (unat b - unat a) (unat (rr_cqe_num para))"
      by (simp add: min_def word_le_nat_alt cnt)
    have len: "length (dropWhile (foreign (rr_rid para)) ?xs) \<le> unat b - unat a"
      using length_dropWhile_le [of "foreign (rr_rid para)" ?xs] by simp
    have "pick (rr_rid para) (unat ?r) ?xs = (s, n)"
      using pk K len by (simp add: pick_def ur taken_min unat_gt_0)
    moreover have "unat ?r \<le> 65536" using ur lq_wf_nat(1) [OF wf] le(2) by linarith
    ultimately show ?thesis
      using scan_idle [OF wf _ r0, of a "unat ?cnt" para] le cnt
      by (simp add: trs_logic_cq_get_match_copy_range_def)
  qed
qed

section \<open>The queue as a list\<close>

definition lq_used :: "trs_logic_cq \<Rightarrow> nat" where
  "lq_used q = (lq_T q + lq_D q - lq_H q) mod lq_D q"

definition lq_contents :: "trs_logic_cq \<Rightarrow> u8 list list" where
  "lq_contents q = map (\<lambda>i. slot 32 (the (lq_addr q)) ((lq_H q + i) mod lq_D q)) [0 ..< lq_used q]"

text \<open>The entries from the head to the end of the array, or to the tail where it comes first.\<close>

definition lq_first :: "trs_logic_cq \<Rightarrow> nat" where
  "lq_first q = (if lq_head q < lq_tail q then lq_T q - lq_H q else lq_D q - lq_H q)"

lemma lq_used_cases:
  assumes wf: "lq_wf q bs"
  shows "lq_H q \<le> lq_T q \<Longrightarrow> lq_used q = lq_T q - lq_H q"
    and "lq_T q < lq_H q \<Longrightarrow> lq_used q = lq_T q + lq_D q - lq_H q"
  using lq_wf_nat [OF wf] by (simp_all add: lq_used_def mod_below_twice)

lemma length_lq_contents [simp]: "length (lq_contents q) = lq_used q"
  by (simp add: lq_contents_def)

lemma lq_used_less: "lq_wf q bs \<Longrightarrow> lq_used q < lq_D q"
  using lq_wf_nat(2) [of q bs] by (simp add: lq_used_def)

lemma lq_contents_nth: "lq_wf q bs \<Longrightarrow> i < lq_used q \<Longrightarrow> lq_contents q ! i = slot 32 bs ((lq_H q + i) mod lq_D q)"
  by (simp add: lq_contents_def lq_wf_nat(5))

lemma lq_empty: "lq_wf q bs \<Longrightarrow> trs_logic_cq_is_empty q \<longleftrightarrow> lq_contents q = []"
  using lq_wf_nat [of q bs] lq_used_cases [of q bs]
  by (cases "lq_H q \<le> lq_T q") (auto simp: trs_logic_cq_is_empty_def lq_contents_def word_unat_eq_iff)

lemma lq_contents_split:
  assumes wf: "lq_wf q bs" and ne: "\<not> trs_logic_cq_is_empty q"
  shows "lq_first q \<le> lq_used q" "take (lq_first q) (lq_contents q) = slots_from bs (lq_H q) (lq_first q)"
    "drop (lq_first q) (lq_contents q) = slots_from bs 0 (lq_used q - lq_first q)"
proof -
  note nat = lq_wf_nat [OF wf] and used = lq_used_cases [OF wf]
  have HT: "lq_H q \<noteq> lq_T q" using ne by (auto simp: trs_logic_cq_is_empty_def word_unat_eq_iff)
  show le: "lq_first q \<le> lq_used q"
    using HT used nat by (cases "lq_H q \<le> lq_T q") (auto simp: lq_first_def word_less_nat_alt)
  show "take (lq_first q) (lq_contents q) = slots_from bs (lq_H q) (lq_first q)"
  proof (rule nth_equalityI)
    fix i assume "i < length (take (lq_first q) (lq_contents q))"
    then have i: "i < lq_first q" "i < lq_used q" by simp_all
    moreover have "lq_H q + i < lq_D q" using i(1) nat by (auto simp: lq_first_def word_less_nat_alt split: if_splits)
    ultimately show "take (lq_first q) (lq_contents q) ! i = slots_from bs (lq_H q) (lq_first q) ! i"
      by (simp add: lq_contents_nth [OF wf] slots_from_map)
  qed (simp add: le)
  show "drop (lq_first q) (lq_contents q) = slots_from bs 0 (lq_used q - lq_first q)"
  proof (rule nth_equalityI)
    fix i assume "i < length (drop (lq_first q) (lq_contents q))"
    then have i: "lq_first q + i < lq_used q" by simp
    have "\<not> lq_head q < lq_tail q" using i used(1) by (auto simp: lq_first_def word_less_nat_alt)
    then have "lq_first q = lq_D q - lq_H q" by (simp add: lq_first_def)
    then have "(lq_H q + (lq_first q + i)) mod lq_D q = i" using nat lq_used_less [OF wf] i by (simp add: mod_below_twice)
    with i show "drop (lq_first q) (lq_contents q) ! i = slots_from bs 0 (lq_used q - lq_first q) ! i"
      by (simp add: lq_contents_nth [OF wf] slots_from_map)
  qed simp
qed

section \<open>Taking a segment out\<close>

lemma mem_read_slots:
  assumes "length bs = D * 32" "p + n \<le> D"
  shows "mem_read bs (int (p * 32)) (n * 32) = Some (concat (slots_from bs p n))"
proof -
  have "concat (slots_from bs p n) = take (n * 32) (drop (p * 32) bs)" for n p
    by (induction n arbitrary: p) (simp_all add: slot_def take_add add.commute)
  moreover have "p * 32 + n * 32 \<le> length bs" using assms by simp
  ultimately show ?thesis by (simp only: mem_read_int) simp
qed

lemma slots_from_segment:
  assumes "s + n \<le> m"
  shows "take n (drop s (slots_from bs p m)) = slots_from bs (p + s) n"
  using assms by (simp add: slots_from_map take_map drop_map add.assoc)

text \<open>The segment that a receive takes: from the first part of the ring or, when that offers nothing, from the rest.\<close>

definition pick_ring :: "u32 \<times> u32 \<Rightarrow> nat \<Rightarrow> nat \<Rightarrow> u8 list list \<Rightarrow> nat \<times> nat" where
  "pick_ring rid k a xs =
     (case pick rid k (take a xs) of
        (s, n) \<Rightarrow> if n \<noteq> 0 then (s, n) else (case pick rid k (drop a xs) of (s', n') \<Rightarrow> (a + s', n')))"

lemma pick_ring_bounds: "pick_ring rid k a xs = (s, n) \<Longrightarrow> n \<noteq> 0 \<Longrightarrow> s + n \<le> length xs"
  by (auto simp: pick_ring_def split: prod.splits if_splits dest!: pick_bounds)

text \<open>What the segment is in memory: it does not cross the end of the array.\<close>

lemma segment_in_memory:
  assumes wf: "lq_wf q bs" and ne: "\<not> trs_logic_cq_is_empty q"
    and seg: "s + n \<le> lq_first q \<or> lq_first q \<le> s \<and> s + n \<le> lq_used q"
  defines "p \<equiv> (if s + n \<le> lq_first q then lq_H q + s else s - lq_first q)"
  shows "take n (drop s (lq_contents q)) = slots_from bs p n"
proof (cases "s + n \<le> lq_first q")
  case True
  have "take n (drop s (lq_contents q)) = take n (drop s (take (lq_first q) (lq_contents q)))"
    using True by (simp add: drop_take min_def)
  with True show ?thesis
    using lq_contents_split(2) [OF wf ne] slots_from_segment [OF True] by (simp add: p_def)
next
  case False
  then have "drop s (lq_contents q) = drop (s - lq_first q) (drop (lq_first q) (lq_contents q))" using seg by simp
  moreover have "s - lq_first q + n \<le> lq_used q - lq_first q" using False seg by linarith
  ultimately show ?thesis
    using False lq_contents_split(3) [OF wf ne] slots_from_segment [of "s - lq_first q" n _ bs 0] by (simp add: p_def)
qed

lemma cqes_to_user_wf:
  assumes wf: "lq_wf q bs" and "unat start + unat n \<le> lq_D q"
  shows "cqes_to_user e k q bs para start n out =
    (let v = concat (slots_from bs (unat start) (unat n)); ret = le_ctu e k (rr_cqe_addr para) v
     in Some (ret, out\<lparr>lo_user := lo_user out @ [take (length v - nat ret) v]\<rparr>))"
proof -
  have "unat (lq_cqe_size q) = 32" using wf by (simp add: lq_wf_def)
  then show ?thesis
    using mem_read_slots [OF lq_wf_nat(4) [OF wf] assms(2)]
    by (simp only: cqes_to_user_def cqe_off_wf [OF wf]) (simp add: Let_def)
qed

lemma lq_contents_removed:
  assumes wf: "lq_wf q bs" and hole: "hole_closed (lq_D q) (lq_H q) s n (slot 32 bs) (slot 32 bs')"
    and len: "length bs' = lq_D q * 32" and sn: "s + n \<le> lq_used q"
  defines "q' \<equiv> q\<lparr>lq_addr := Some bs', lq_head := (lq_head q + of_nat n) mod lq_cq_depth q\<rparr>"
  shows "lq_wf q' bs'" "lq_contents q' = take s (lq_contents q) @ drop (s + n) (lq_contents q)"
proof -
  note nat = lq_wf_nat [OF wf] and lt = lq_used_less [OF wf]
  have un: "unat (of_nat n :: u32) = n" using sn lt nat by (simp add: unat_of_nat)
  have "unat (lq_head q + of_nat n) = lq_H q + n" using sn lt nat un by (subst unat_word_ariths) simp
  then have H': "lq_H q' = (lq_H q + n) mod lq_D q" by (simp add: q'_def unat_mod)
  have D': "lq_D q' = lq_D q" "lq_T q' = lq_T q" by (simp_all add: q'_def)
  have "lq_cq_depth q \<noteq> 0" using nat by (auto simp: unat_eq_0 [symmetric])
  then show wf': "lq_wf q' bs'"
    using wf len H' nat unfolding lq_wf_def by (auto simp: q'_def word_less_nat_alt)
  have used': "lq_used q' = lq_used q - n"
  proof -
    have "lq_used q' = (lq_T q + lq_D q - (lq_H q + n) mod lq_D q) mod lq_D q" by (simp add: lq_used_def H' D')
    also have "\<dots> = lq_used q - n"
      using nat sn lq_used_cases [OF wf] by (cases "lq_H q \<le> lq_T q") (auto simp: mod_below_twice)
    finally show ?thesis .
  qed
  show "lq_contents q' = take s (lq_contents q) @ drop (s + n) (lq_contents q)"
  proof (rule nth_equalityI)
    show "length (lq_contents q') = length (take s (lq_contents q) @ drop (s + n) (lq_contents q))"
      using sn by (simp add: used')
    fix i assume "i < length (lq_contents q')"
    then have i: "i < lq_used q - n" by (simp add: used')
    have at: "lq_contents q' ! i = slot 32 bs' ((lq_H q + (n + i)) mod lq_D q)"
      using i by (simp add: lq_contents_nth [OF wf'] used' H' D' mod_add_left_eq add.assoc)
    show "lq_contents q' ! i = (take s (lq_contents q) @ drop (s + n) (lq_contents q)) ! i"
    proof (cases "i < s")
      case True
      with hole at have "lq_contents q' ! i = slot 32 bs ((lq_H q + i) mod lq_D q)"
        by (simp add: hole_closed_def add.assoc)
      with True sn i show ?thesis by (simp add: nth_append lq_contents_nth [OF wf])
    next
      case False
      with hole at i lt have "lq_contents q' ! i = slot 32 bs ((lq_H q + (n + i)) mod lq_D q)"
        by (simp add: hole_closed_def)
      with False sn i show ?thesis by (simp add: nth_append lq_contents_nth [OF wf] add.commute add.left_commute)
    qed
  qed
qed

lemma pick_ring_cases:
  assumes "pick_ring rid k a xs = (s, n)"
  obtains (here) "n \<noteq> 0" "pick rid k (take a xs) = (s, n)"
  | (rest) s0 b where "pick rid k (take a xs) = (s0, 0)" "pick rid k (drop a xs) = (b, n)" "s = a + b"
  using assms by (cases "pick rid k (take a xs)") (auto simp: pick_ring_def split: prod.splits if_splits)

text \<open>
  Where the segment starts in the array and whether it lies behind the wrap, for the entries chosen. The loop runs over the
  second part also when the first one, which ends at the tail, is all there is: it is then empty.
\<close>

lemma match_copy_choice:
  assumes wf: "lq_wf q bs" and ne: "\<not> trs_logic_cq_is_empty q" and K: "rr_cqe_num para \<noteq> 0"
    and pk: "pick_ring (rr_rid para) (unat (rr_cqe_num para)) (lq_first q) (lq_contents q) = (s, n)"
  obtains start rollback where
    "match_copy_at e k (lq_tail q) q para out =
       (if n = 0 then Some (- EAGAIN, para, q, out)
        else match_copy_deliver e k q bs para start (of_nat n) rollback out)"
    "n \<noteq> 0 \<Longrightarrow> \<not> rollback \<Longrightarrow> s + n \<le> lq_first q \<and> unat start = lq_H q + s"
    "n \<noteq> 0 \<Longrightarrow> rollback \<Longrightarrow>
       lq_T q < lq_H q \<and> lq_first q \<le> s \<and> s + n \<le> lq_used q \<and> unat start = s - lq_first q"
proof -
  note nat = lq_wf_nat [OF wf] and split = lq_contents_split [OF wf ne] and used = lq_used_cases [OF wf]
  have addr: "lq_addr q = Some bs" by (rule nat(5))
  have nz: "(of_nat m :: u32) = 0 \<longleftrightarrow> m = 0" if "m \<le> lq_D q" for m
    using that nat(1) by (auto simp: word_unat_eq_iff unat_of_nat)
  have usmall: "unat (lq_head q + of_nat m) = lq_H q + m" if "lq_H q + m \<le> lq_D q" for m
    using that nat(1) by (simp add: unat_word_ariths unat_of_nat)
  show thesis
  proof (cases "lq_head q < lq_tail q")
    case True
    then have HT: "lq_H q < lq_T q" and first: "lq_first q = lq_T q - lq_H q" "lq_used q = lq_first q"
      using used(1) by (simp_all add: lq_first_def word_less_nat_alt)
    then have all: "take (lq_first q) (lq_contents q) = lq_contents q" "drop (lq_first q) (lq_contents q) = []" by simp_all
    have sl: "lq_contents q = slots_from bs (lq_H q) (lq_T q - lq_H q)" using split(2) first all by simp
    obtain s0 where pk': "pick (rr_rid para) (unat (rr_cqe_num para)) (slots_from bs (lq_H q) (lq_T q - lq_H q)) = (s0, n)"
      "n \<noteq> 0 \<Longrightarrow> s0 = s"
      using pk
    proof (cases rule: pick_ring_cases)
      case here
      from here(2) have "pick (rr_rid para) (unat (rr_cqe_num para)) (lq_contents q) = (s, n)" by (simp only: all)
      then show ?thesis by (intro that [of s]) (simp_all only: sl)
    next
      case (rest s0 b)
      have "n = 0" using rest(2) by (simp add: all pick_def)
      moreover from rest(1) have "pick (rr_rid para) (unat (rr_cqe_num para)) (lq_contents q) = (s0, 0)" by (simp only: all)
      ultimately show ?thesis by (intro that [of s0]) (simp_all only: sl)
    qed
    have rng: "trs_logic_cq_get_match_copy_range q bs para (lq_head q) (lq_tail q) =
        Some (if n = 0 then 0 else lq_head q + of_nat s0, of_nat n)"
      using HT nat by (intro match_copy_range_wf [OF wf _ _ K pk'(1)]) simp_all
    have sn: "s0 + n \<le> lq_first q" using pick_bounds [OF pk'(1)] first by simp
    show thesis
    proof (rule that [of "if n = 0 then 0 else lq_head q + of_nat s0" False])
      show "n \<noteq> 0 \<Longrightarrow> \<not> False \<Longrightarrow>
          s + n \<le> lq_first q \<and> unat (if n = 0 then 0 else lq_head q + of_nat s0) = lq_H q + s"
        using sn pk'(2) first HT nat usmall [of s] by simp
    qed (use True addr rng nz [of n] sn first nat in \<open>simp_all add: match_copy_at_def\<close>)
  next
    case False
    then have HT: "lq_T q < lq_H q" and first: "lq_first q = lq_D q - lq_H q" "lq_used q - lq_first q = lq_T q"
      using ne used(2) nat by (auto simp: lq_first_def word_less_nat_alt trs_logic_cq_is_empty_def word_unat_eq_iff)
    note sl = split(2,3) [unfolded first]
    from pk show thesis
    proof (cases rule: pick_ring_cases)
      case here
      have rng: "trs_logic_cq_get_match_copy_range q bs para (lq_head q) (lq_cq_depth q) =
          Some (if n = 0 then 0 else lq_head q + of_nat s, of_nat n)"
        using here sl nat first by (intro match_copy_range_wf [OF wf _ _ K]) simp_all
      have sn: "s + n \<le> lq_first q" using pick_bounds [OF here(2)] split(1) by simp
      show thesis
        by (rule that [of "lq_head q + of_nat s" False])
          (use False addr rng here(1) nz [of n] sn first nat usmall [of s] in \<open>simp_all add: match_copy_at_def\<close>)
    next
      case (rest s0 b)
      have rng: "trs_logic_cq_get_match_copy_range q bs para (lq_head q) (lq_cq_depth q) = Some (0, 0)"
        using rest(1) sl nat first match_copy_range_wf [OF wf _ _ K, of "lq_head q" "lq_cq_depth q" s0 0] by simp
      have rng': "trs_logic_cq_get_match_copy_range q bs para 0 (lq_tail q) =
          Some (if n = 0 then 0 else of_nat b, of_nat n)"
        using rest(2) split(3) nat match_copy_range_wf [OF wf _ _ K, of 0 "lq_tail q" b n] by (simp add: first(2))
      have bn: "b + n \<le> lq_T q" using pick_bounds [OF rest(2)] first by simp
      show thesis
      proof (rule that [of "if n = 0 then 0 else of_nat b" True])
        show "n \<noteq> 0 \<Longrightarrow> True \<Longrightarrow> lq_T q < lq_H q \<and> lq_first q \<le> s \<and> s + n \<le> lq_used q \<and>
            unat (if n = 0 then 0 else of_nat b :: u32) = s - lq_first q"
          using HT rest(3) bn first(2) nat(1,3) split(1) by (auto simp: unat_of_nat)
      qed (use False addr rng rng' nz [of n] bn nat in \<open>simp_all add: match_copy_at_def\<close>)
    qed
  qed
qed

text \<open>The outcome of handing the entries \<open>xs\<close> to the user.\<close>

definition ctu_ret :: "lq_env \<Rightarrow> nat \<Rightarrow> halReportRecvInfo \<Rightarrow> u8 list list \<Rightarrow> int" where
  "ctu_ret e k para xs = le_ctu e k (rr_cqe_addr para) (concat xs)"

definition user_gets :: "lq_env \<Rightarrow> nat \<Rightarrow> halReportRecvInfo \<Rightarrow> u8 list list \<Rightarrow> lq_out \<Rightarrow> lq_out" where
  "user_gets e k para xs out =
     out\<lparr>lo_user := lo_user out @ [take (length (concat xs) - nat (ctu_ret e k para xs)) (concat xs)]\<rparr>"

lemma match_copy_wf:
  assumes wf: "lq_wf q bs" and ne: "\<not> trs_logic_cq_is_empty q" and K: "rr_cqe_num para \<noteq> 0"
    and pk: "pick_ring (rr_rid para) (unat (rr_cqe_num para)) (lq_first q) (lq_contents q) = (s, n)"
  defines "xs \<equiv> take n (drop s (lq_contents q))"
  shows "n = 0 \<Longrightarrow> match_copy_at e k (lq_tail q) q para out = Some (- EAGAIN, para, q, out)"
    and "n \<noteq> 0 \<Longrightarrow> ctu_ret e k para xs \<noteq> 0 \<Longrightarrow>
      match_copy_at e k (lq_tail q) q para out = Some (ctu_ret e k para xs, para, q, user_gets e k para xs out)"
    and "n \<noteq> 0 \<Longrightarrow> ctu_ret e k para xs = 0 \<Longrightarrow>
      \<exists>bs'. match_copy_at e k (lq_tail q) q para out =
          Some (0, para\<lparr>rr_report_cqe_num := of_nat n\<rparr>, q\<lparr>lq_addr := Some bs'\<rparr>, user_gets e k para xs out) \<and>
        length bs' = lq_D q * 32 \<and> hole_closed (lq_D q) (lq_H q) s n (slot 32 bs) (slot 32 bs')"
proof -
  note nat = lq_wf_nat [OF wf]
  obtain start rollback where eq: "match_copy_at e k (lq_tail q) q para out =
       (if n = 0 then Some (- EAGAIN, para, q, out)
        else match_copy_deliver e k q bs para start (of_nat n) rollback out)"
    and here: "n \<noteq> 0 \<Longrightarrow> \<not> rollback \<Longrightarrow> s + n \<le> lq_first q \<and> unat start = lq_H q + s"
    and rest: "n \<noteq> 0 \<Longrightarrow> rollback \<Longrightarrow>
       lq_T q < lq_H q \<and> lq_first q \<le> s \<and> s + n \<le> lq_used q \<and> unat start = s - lq_first q"
    by (rule match_copy_choice [OF wf ne K pk, of e k out]) blast
  show "n = 0 \<Longrightarrow> match_copy_at e k (lq_tail q) q para out = Some (- EAGAIN, para, q, out)" using eq by simp
  have fin: "match_copy_at e k (lq_tail q) q para out =
      (if ctu_ret e k para xs \<noteq> 0 then Some (ctu_ret e k para xs, para, q, user_gets e k para xs out)
       else do {
         bs' \<leftarrow> (if lq_head q \<noteq> start then trs_logic_cq_eliminate_holes q start (of_nat n) rollback bs else Some bs);
         Some (0, para\<lparr>rr_report_cqe_num := of_nat n\<rparr>, q\<lparr>lq_addr := Some bs'\<rparr>, user_gets e k para xs out)
       })"
    and un: "unat (of_nat n :: u32) = n" and fits: "unat start + n \<le> lq_D q" if n0: "n \<noteq> 0"
  proof -
    have sn: "s + n \<le> lq_used q" by (rule pick_ring_bounds [OF pk n0, simplified])
    then show un: "unat (of_nat n :: u32) = n" using lq_used_less [OF wf] nat(1) by (simp add: unat_of_nat)
    have dec: "s + n \<le> lq_first q \<or> lq_first q \<le> s \<and> s + n \<le> lq_used q" using here [OF n0] rest [OF n0] by blast
    have start: "unat start = (if s + n \<le> lq_first q then lq_H q + s else s - lq_first q)"
      using here [OF n0] rest [OF n0] n0 by (cases rollback) auto
    have le: "lq_H q + lq_first q \<le> lq_D q" using nat by (auto simp: lq_first_def word_less_nat_alt)
    then show fits: "unat start + n \<le> lq_D q"
      using dec start lq_used_less [OF wf] by (cases "s + n \<le> lq_first q") auto
    have xs: "xs = slots_from bs (unat start) n"
      unfolding xs_def start by (rule segment_in_memory [OF wf ne dec])
    show "match_copy_at e k (lq_tail q) q para out =
      (if ctu_ret e k para xs \<noteq> 0 then Some (ctu_ret e k para xs, para, q, user_gets e k para xs out)
       else do {
         bs' \<leftarrow> (if lq_head q \<noteq> start then trs_logic_cq_eliminate_holes q start (of_nat n) rollback bs else Some bs);
         Some (0, para\<lparr>rr_report_cqe_num := of_nat n\<rparr>, q\<lparr>lq_addr := Some bs'\<rparr>, user_gets e k para xs out)
       })"
      using eq n0 cqes_to_user_wf [OF wf, of start "of_nat n"] fits un
      by (simp add: match_copy_deliver_def xs ctu_ret_def user_gets_def Let_def)
  qed
  show "n \<noteq> 0 \<Longrightarrow> ctu_ret e k para xs \<noteq> 0 \<Longrightarrow>
      match_copy_at e k (lq_tail q) q para out = Some (ctu_ret e k para xs, para, q, user_gets e k para xs out)"
    by (simp add: fin)
  assume n0: "n \<noteq> 0" and ok: "ctu_ret e k para xs = 0"
  have "\<exists>bs'. (if lq_head q \<noteq> start then trs_logic_cq_eliminate_holes q start (of_nat n) rollback bs else Some bs) = Some bs' \<and>
      length bs' = lq_D q * 32 \<and> hole_closed (lq_D q) (lq_H q) s n (slot 32 bs) (slot 32 bs')"
  proof (cases rollback)
    case True
    note r = rest [OF n0 True]
    have first: "lq_first q = lq_D q - lq_H q" and used: "lq_used q = lq_T q + lq_D q - lq_H q"
      using r lq_used_cases(2) [OF wf] by (simp_all add: lq_first_def word_less_nat_alt)
    have s: "lq_D q - lq_H q + unat start = s" using r first by simp
    have "unat start + unat (of_nat n :: u32) \<le> lq_T q" using r first used nat un [OF n0] by auto
    moreover have "(of_nat n :: u32) \<noteq> 0" using un [OF n0] n0 by auto
    moreover have "lq_head q \<noteq> start" using calculation(1) r by auto
    ultimately show ?thesis
      using eliminate_holes_wrapped [OF wf, of start "of_nat n"] r True by (metis s un [OF n0])
  next
    case False
    note h = here [OF n0 False]
    show ?thesis
    proof (cases "lq_head q = start")
      case True
      with h have "s = 0" by simp
      then have "hole_closed (lq_D q) (lq_H q) s n (slot 32 bs) (slot 32 bs)" by (simp add: hole_closed_def)
      with True nat(4) show ?thesis by simp
    next
      case neq: False
      have "unat start - lq_H q = s" "lq_H q \<le> unat start" using h by simp_all
      then show ?thesis
        using eliminate_holes_here [OF wf, of start "of_nat n"] fits [OF n0] False neq by (metis un [OF n0])
    qed
  qed
  with fin [OF n0] ok show "\<exists>bs'. match_copy_at e k (lq_tail q) q para out =
          Some (0, para\<lparr>rr_report_cqe_num := of_nat n\<rparr>, q\<lparr>lq_addr := Some bs'\<rparr>, user_gets e k para xs out) \<and>
        length bs' = lq_D q * 32 \<and> hole_closed (lq_D q) (lq_H q) s n (slot 32 bs) (slot 32 bs')"
    by auto
qed

section \<open>Receiving and enqueueing on the list\<close>

text \<open>What a receive takes: the entries \<open>s\<close> to \<open>s + n\<close> of the list.\<close>

definition lq_choice :: "trs_logic_cq \<Rightarrow> halReportRecvInfo \<Rightarrow> nat \<times> nat" where
  "lq_choice q para =
     (if rr_res para 0 = 1 then pick_ring (rr_rid para) (unat (rr_cqe_num para)) (lq_first q) (lq_contents q)
      else (0, lq_first q))"

lemma copy_report_wf:
  assumes wf: "lq_wf q bs" and v: "lq_valid q \<noteq> 0" and ne: "lq_contents q \<noteq> []" and K: "rr_cqe_num para \<noteq> 0"
    and ch: "lq_choice q para = (s, n)"
  defines "xs \<equiv> take n (drop s (lq_contents q))"
  shows "n = 0 \<Longrightarrow> trs_logic_cq_copy_report e k chan q para out = Some (- EAGAIN, para, q, out)"
    and "n \<noteq> 0 \<Longrightarrow> ctu_ret e k para xs \<noteq> 0 \<Longrightarrow>
      trs_logic_cq_copy_report e k chan q para out = Some (ctu_ret e k para xs, para, q, user_gets e k para xs out)"
    and "n \<noteq> 0 \<Longrightarrow> ctu_ret e k para xs = 0 \<Longrightarrow>
      \<exists>q' bs' out'. trs_logic_cq_copy_report e k chan q para out =
          Some (0, para\<lparr>rr_report_cqe_num := of_nat n\<rparr>, q', out') \<and> lo_user out' = lo_user (user_gets e k para xs out) \<and>
        lq_wf q' bs' \<and> lq_contents q' = take s (lq_contents q) @ drop (s + n) (lq_contents q) \<and>
        lq_valid q' = lq_valid q \<and> lq_cq_depth q' = lq_cq_depth q"
proof -
  have ne': "\<not> trs_logic_cq_is_empty q" using ne lq_empty [OF wf] by simp
  note nat = lq_wf_nat [OF wf]
  have D0: "lq_cq_depth q \<noteq> 0" using nat by (auto simp: unat_eq_0 [symmetric])
  define copy where "copy = (if rr_res para 0 = 1 then trs_logic_cq_match_copy e k q para out
           else trs_logic_cq_non_match_copy e k q para out)"
  have eq: "trs_logic_cq_copy_report e k chan q para out = do {
        full_flag \<leftarrow> trs_logic_cq_is_full q;
        (ret, para', q', out') \<leftarrow> copy;
        if ret \<noteq> 0 then Some (ret, para', q', out')
        else Some (0, para', q'\<lparr>lq_head := (lq_head q' + rr_report_cqe_num para') mod lq_cq_depth q'\<rparr>,
               if full_flag \<and> chan \<ge> 0 then out'\<lparr>lo_sched := Suc (lo_sched out')\<rparr> else out')
      }"
    using v ne' by (simp add: trs_logic_cq_copy_report_def copy_def)
  have le: "lq_first q \<le> lq_used q" and fit: "lq_H q + lq_first q \<le> lq_D q"
    using lq_contents_split(1) [OF wf ne'] nat by (auto simp: lq_first_def word_less_nat_alt)
  have c: "(n = 0 \<longrightarrow> copy = Some (- EAGAIN, para, q, out)) \<and>
    (n \<noteq> 0 \<longrightarrow> ctu_ret e k para xs \<noteq> 0 \<longrightarrow> copy = Some (ctu_ret e k para xs, para, q, user_gets e k para xs out)) \<and>
    (n \<noteq> 0 \<longrightarrow> ctu_ret e k para xs = 0 \<longrightarrow>
      (\<exists>bs'. copy = Some (0, para\<lparr>rr_report_cqe_num := of_nat n\<rparr>, q\<lparr>lq_addr := Some bs'\<rparr>, user_gets e k para xs out) \<and>
        length bs' = lq_D q * 32 \<and> hole_closed (lq_D q) (lq_H q) s n (slot 32 bs) (slot 32 bs') \<and> s + n \<le> lq_used q))"
  proof (cases "rr_res para 0 = 1")
    case True
    then have pk: "pick_ring (rr_rid para) (unat (rr_cqe_num para)) (lq_first q) (lq_contents q) = (s, n)"
      using ch by (simp add: lq_choice_def)
    then show ?thesis
      using match_copy_wf [OF wf ne' K pk, of e k out] pick_ring_bounds [OF pk] True
      by (auto simp: copy_def trs_logic_cq_match_copy_def xs_def)
  next
    case False
    then have sn: "s = 0" "n = lq_first q" using ch by (simp_all add: lq_choice_def)
    have "n \<noteq> 0" using nat sn by (simp add: lq_first_def word_less_nat_alt)
    define cnt where "cnt = (if lq_tail q > lq_head q then lq_tail q - lq_head q else lq_cq_depth q - lq_head q)"
    have uc: "unat cnt = lq_first q"
      using nat by (simp add: cnt_def lq_first_def word_less_nat_alt unat_minus_small)
    then have cnt: "cnt = of_nat n" using sn fit nat by (simp add: word_unat_eq_iff unat_of_nat)
    have xs: "xs = slots_from bs (lq_H q) (lq_first q)"
      using lq_contents_split(2) [OF wf ne'] by (simp add: xs_def sn)
    have "copy = (if ctu_ret e k para xs \<noteq> 0 then Some (ctu_ret e k para xs, para, q, user_gets e k para xs out)
       else Some (0, para\<lparr>rr_report_cqe_num := of_nat n\<rparr>, q, user_gets e k para xs out))"
      using False cqes_to_user_wf [OF wf, of "lq_head q" cnt] fit uc nat(5)
      by (simp add: copy_def trs_logic_cq_non_match_copy_def cnt_def [symmetric] Let_def ctu_ret_def user_gets_def xs cnt [symmetric])
    moreover have "q\<lparr>lq_addr := Some bs\<rparr> = q" using nat(5) by simp
    moreover have "hole_closed (lq_D q) (lq_H q) s n (slot 32 bs) (slot 32 bs)" by (simp add: hole_closed_def sn)
    ultimately show ?thesis using \<open>n \<noteq> 0\<close> nat(4) le sn by (metis add_0)
  qed
  have full: "trs_logic_cq_is_full q = Some ((lq_tail q + 1) mod lq_cq_depth q = lq_head q)"
    using D0 by (simp add: trs_logic_cq_is_full_def)
  show "n = 0 \<Longrightarrow> trs_logic_cq_copy_report e k chan q para out = Some (- EAGAIN, para, q, out)"
    using c by (simp add: eq full)
  show "n \<noteq> 0 \<Longrightarrow> ctu_ret e k para xs \<noteq> 0 \<Longrightarrow>
      trs_logic_cq_copy_report e k chan q para out = Some (ctu_ret e k para xs, para, q, user_gets e k para xs out)"
    using c by (simp add: eq full)
  assume n0: "n \<noteq> 0" and ok: "ctu_ret e k para xs = 0"
  then obtain bs' where bs': "copy = Some (0, para\<lparr>rr_report_cqe_num := of_nat n\<rparr>, q\<lparr>lq_addr := Some bs'\<rparr>, user_gets e k para xs out)"
    "length bs' = lq_D q * 32" "hole_closed (lq_D q) (lq_H q) s n (slot 32 bs) (slot 32 bs')" "s + n \<le> lq_used q"
    using c by blast
  let ?q' = "q\<lparr>lq_addr := Some bs', lq_head := (lq_head q + of_nat n) mod lq_cq_depth q\<rparr>"
  note res = lq_contents_removed [OF wf bs'(3,2,4)]
  show "\<exists>q' bs' out'. trs_logic_cq_copy_report e k chan q para out =
          Some (0, para\<lparr>rr_report_cqe_num := of_nat n\<rparr>, q', out') \<and> lo_user out' = lo_user (user_gets e k para xs out) \<and>
        lq_wf q' bs' \<and> lq_contents q' = take s (lq_contents q) @ drop (s + n) (lq_contents q) \<and>
        lq_valid q' = lq_valid q \<and> lq_cq_depth q' = lq_cq_depth q"
    by (rule exI [of _ ?q'], rule exI [of _ bs']) (use res in \<open>simp add: eq full bs'(1)\<close>)
qed

end
