(* ===== verification/Classed_Queue.thy ===== *)
theory Classed_Queue
  imports "HOL-Library.Multiset"
begin

text \<open>
  The interface of a queue whose items fall into classes: an operation accepts some items and hands out others, and within
  a class items leave in the order in which they were accepted, but an item of one class may overtake those of another.
  The clients of the interface: runs of operations, and arrays of such queues.
\<close>

section \<open>Runs\<close>

text \<open>
  \<open>step op q\<close> returns the queue, the items accepted and the items handed out; \<open>None\<close> is an operation with no defined
  result.
\<close>

fun queue_run :: "('op \<Rightarrow> 'q \<Rightarrow> ('q \<times> 'x list \<times> 'x list) option) \<Rightarrow> 'op list \<Rightarrow> 'q \<Rightarrow> ('q \<times> 'x list \<times> 'x list) option" where
  "queue_run step [] q = Some (q, [], [])"
| "queue_run step (op # ops) q =
     (case step op q of
        None \<Rightarrow> None
      | Some (q1, acc1, del1) \<Rightarrow>
          (case queue_run step ops q1 of
             None \<Rightarrow> None
           | Some (q2, acc2, del2) \<Rightarrow> Some (q2, acc1 @ acc2, del1 @ del2)))"

text \<open>What went in and what came out, class by class.\<close>

definition class_fifo :: "('x \<Rightarrow> 'c) \<Rightarrow> 'x list \<Rightarrow> 'x list \<Rightarrow> 'x list \<Rightarrow> 'x list \<Rightarrow> bool" where
  "class_fifo cls before acc del after \<longleftrightarrow>
     (\<forall>c. filter (\<lambda>x. cls x = c) (before @ acc) = filter (\<lambda>x. cls x = c) (del @ after))"

lemma class_fifo_refl [simp]: "class_fifo cls xs [] [] xs"
  by (simp add: class_fifo_def)

lemma class_fifo_trans:
  assumes "class_fifo cls xs a1 d1 ys" "class_fifo cls ys a2 d2 zs"
  shows "class_fifo cls xs (a1 @ a2) (d1 @ d2) zs"
  unfolding class_fifo_def
proof
  fix c
  let ?f = "filter (\<lambda>x. cls x = c)"
  have 1: "?f xs @ ?f a1 = ?f d1 @ ?f ys" and 2: "?f ys @ ?f a2 = ?f d2 @ ?f zs"
    using assms by (simp_all add: class_fifo_def)
  have "?f (xs @ a1 @ a2) = ?f d1 @ ?f ys @ ?f a2" using 1 by (metis append.assoc filter_append)
  also have "\<dots> = ?f ((d1 @ d2) @ zs)" by (simp add: 2)
  finally show "?f (xs @ a1 @ a2) = ?f ((d1 @ d2) @ zs)" .
qed

text \<open>Nothing is lost, made up or handed out twice.\<close>

lemma class_fifo_mset:
  assumes "class_fifo cls before acc del after"
  shows "mset before + mset acc = mset del + mset after"
proof (rule multiset_eqI)
  fix x
  have cnt: "count (mset xs) x = count (mset (filter (\<lambda>y. cls y = cls x) xs)) x" for xs
    by (induction xs) auto
  show "count (mset before + mset acc) x = count (mset del + mset after) x"
    using assms cnt [of "before @ acc"] cnt [of "del @ after"] by (simp add: class_fifo_def)
qed

locale classed_queue =
  fixes inv :: "'q \<Rightarrow> bool"
    and items :: "'q \<Rightarrow> 'x list"
    and cls :: "'x \<Rightarrow> 'c"
    and step :: "'op \<Rightarrow> 'q \<Rightarrow> ('q \<times> 'x list \<times> 'x list) option"
    and ok :: "'op \<Rightarrow> bool"
  assumes step_ok:
    "inv q \<Longrightarrow> ok op \<Longrightarrow>
     \<exists>q' acc del. step op q = Some (q', acc, del) \<and> inv q' \<and> class_fifo cls (items q) acc del (items q')"
begin

lemma run_fifo:
  assumes "inv q" "list_all ok ops"
  shows "\<exists>q' acc del. queue_run step ops q = Some (q', acc, del) \<and> inv q' \<and> class_fifo cls (items q) acc del (items q')"
  using assms
proof (induction ops arbitrary: q)
  case (Cons op ops)
  then obtain q1 a1 d1 where 1: "step op q = Some (q1, a1, d1)" "inv q1" "class_fifo cls (items q) a1 d1 (items q1)"
    using step_ok [of q op] by auto
  from Cons.prems(2) have "list_all ok ops" by simp
  from Cons.IH [OF 1(2) this] obtain q2 a2 d2 where 2: "queue_run step ops q1 = Some (q2, a2, d2)" "inv q2"
    "class_fifo cls (items q1) a2 d2 (items q2)" by blast
  from 1(1) 2(1,2) class_fifo_trans [OF 1(3) 2(3)] show ?case by simp
qed simp

lemma run_conserves:
  assumes "inv q" "list_all ok ops" "queue_run step ops q = Some (q', acc, del)"
  shows "mset (items q) + mset acc = mset del + mset (items q')"
  using run_fifo [OF assms(1,2)] assms(3) by (auto intro: class_fifo_mset)

end

section \<open>Arrays of queues\<close>

text \<open>An operation on an array names its queue; an index out of range has no defined result.\<close>

definition array_step ::
    "('op \<Rightarrow> 'q \<Rightarrow> ('q \<times> 'x list \<times> 'x list) option) \<Rightarrow> nat \<times> 'op \<Rightarrow> 'q list \<Rightarrow>
     ('q list \<times> (nat \<times> 'x) list \<times> (nat \<times> 'x) list) option" where
  "array_step step iop qs =
     (case iop of (i, op) \<Rightarrow>
        if i < length qs
        then map_option (\<lambda>(q, acc, del). (qs[i := q], map (Pair i) acc, map (Pair i) del)) (step op (qs ! i))
        else None)"

definition array_items :: "('q \<Rightarrow> 'x list) \<Rightarrow> 'q list \<Rightarrow> (nat \<times> 'x) list" where
  "array_items items qs = concat (map (\<lambda>i. map (Pair i) (items (qs ! i))) [0 ..< length qs])"

definition array_class :: "('x \<Rightarrow> 'c) \<Rightarrow> nat \<times> 'x \<Rightarrow> nat \<times> 'c" where
  "array_class cls p = (fst p, cls (snd p))"

lemma filter_array_class:
  "filter (\<lambda>p. array_class cls p = (i, c)) (map (Pair j) xs) =
     (if i = j then map (Pair j) (filter (\<lambda>x. cls x = c) xs) else [])"
  by (induction xs) (auto simp: array_class_def)

lemma filter_array_items:
  "filter (\<lambda>p. array_class cls p = (i, c)) (array_items items qs) =
     (if i < length qs then map (Pair i) (filter (\<lambda>x. cls x = c) (items (qs ! i))) else [])"
proof -
  have "filter (\<lambda>p. array_class cls p = (i, c)) (concat (map (\<lambda>j. map (Pair j) (f j)) [0 ..< n])) =
      (if i < n then map (Pair i) (filter (\<lambda>x. cls x = c) (f i)) else [])" for f n
    by (induction n) (auto simp: filter_array_class less_Suc_eq)
  then show ?thesis by (simp add: array_items_def)
qed

context classed_queue
begin

lemma array_step_ok:
  assumes "list_all inv qs" "fst iop < N" "ok (snd iop)" "length qs = N"
  shows "\<exists>qs' acc del. array_step step iop qs = Some (qs', acc, del) \<and> (list_all inv qs' \<and> length qs' = N) \<and>
    class_fifo (array_class cls) (array_items items qs) acc del (array_items items qs')"
proof -
  obtain i op where iop: "iop = (i, op)" by fastforce
  with assms have i: "i < length qs" "inv (qs ! i)" "ok op" by (auto simp: list_all_length)
  obtain q acc del where s: "step op (qs ! i) = Some (q, acc, del)" "inv q" "class_fifo cls (items (qs ! i)) acc del (items q)"
    using step_ok [OF i(2,3)] by blast
  have "class_fifo (array_class cls) (array_items items qs) (map (Pair i) acc) (map (Pair i) del) (array_items items (qs[i := q]))"
    unfolding class_fifo_def
  proof
    fix p :: "nat \<times> 'c"
    obtain j c where p: "p = (j, c)" by fastforce
    have "filter (\<lambda>x. cls x = c) (items (qs ! i)) @ filter (\<lambda>x. cls x = c) acc =
        filter (\<lambda>x. cls x = c) del @ filter (\<lambda>x. cls x = c) (items q)"
      using s(3) by (simp add: class_fifo_def)
    from arg_cong [OF this, of "map (Pair i)"]
    show "filter (\<lambda>x. array_class cls x = p) (array_items items qs @ map (Pair i) acc) =
        filter (\<lambda>x. array_class cls x = p) (map (Pair i) del @ array_items items (qs[i := q]))"
      using i(1) unfolding p by (simp add: filter_array_class filter_array_items)
  qed
  moreover have "list_all inv (qs[i := q])" using assms(1) s(2) i(1) by (simp add: list_all_length nth_list_update)
  ultimately show ?thesis using s(1) i(1) assms(4) by (simp add: array_step_def iop)
qed

end

end
