(* ===== verification/Logic_Fifo.thy ===== *)
theory Logic_Fifo
  imports Logic_Ring Classed_Queue
begin

text \<open>
  Logic completion queues as lists: enqueueing appends, a receive takes out one segment, and every class of entries (the
  normal ones, and those for one stream and task) is first in, first out, whatever the order of the operations of the
  threads that share the queues of an instance.
\<close>

section \<open>Enqueueing\<close>

text \<open>What the ring of a queue consists of.\<close>

definition same_ring :: "trs_logic_cq \<Rightarrow> trs_logic_cq \<Rightarrow> bool" where
  "same_ring q q' \<longleftrightarrow>
     lq_addr q' = lq_addr q \<and> lq_head q' = lq_head q \<and> lq_tail q' = lq_tail q \<and> lq_cq_depth q' = lq_cq_depth q \<and>
     lq_cqe_size q' = lq_cqe_size q \<and> lq_cqe_verion q' = lq_cqe_verion q \<and> lq_valid q' = lq_valid q"

lemma same_ring_contents:
  assumes "same_ring q q'"
  shows "lq_contents q' = lq_contents q" "lq_wf q' bs = lq_wf q bs" "lq_valid q' = lq_valid q" "lq_cq_depth q' = lq_cq_depth q"
  using assms by (simp_all add: same_ring_def lq_contents_def lq_used_def lq_wf_def)

lemma lq_full:
  assumes wf: "lq_wf q bs"
  shows "trs_logic_cq_is_full q = Some (Suc (lq_used q) = lq_D q)"
proof -
  note nat = lq_wf_nat [OF wf]
  have D0: "lq_cq_depth q \<noteq> 0" using nat by (auto simp: unat_eq_0 [symmetric])
  have "unat (lq_tail q + 1) = Suc (lq_T q)" using nat by (simp add: unat_plus_small)
  then have "(lq_tail q + 1) mod lq_cq_depth q = lq_head q \<longleftrightarrow> Suc (lq_T q) mod lq_D q = lq_H q"
    by (simp add: word_unat_eq_iff unat_mod)
  also have "\<dots> \<longleftrightarrow> Suc (lq_used q) = lq_D q"
    using nat lq_used_cases [OF wf] by (cases "lq_H q \<le> lq_T q") (auto simp: mod_Suc)
  finally show ?thesis using D0 by (simp add: trs_logic_cq_is_full_def)
qed

lemma lq_contents_appended:
  assumes wf: "lq_wf q bs" and room: "Suc (lq_used q) < lq_D q" and len: "length bs' = lq_D q * 32"
    and sl: "\<And>j. j < lq_D q \<Longrightarrow> slot 32 bs' j = (if j = lq_T q then x else slot 32 bs j)"
  defines "q' \<equiv> q\<lparr>lq_addr := Some bs', lq_tail := (lq_tail q + 1) mod lq_cq_depth q\<rparr>"
  shows "lq_wf q' bs'" "lq_contents q' = lq_contents q @ [x]"
proof -
  note nat = lq_wf_nat [OF wf]
  have "unat (lq_tail q + 1) = Suc (lq_T q)" using nat by (simp add: unat_plus_small)
  then have T': "lq_T q' = Suc (lq_T q) mod lq_D q" by (simp add: q'_def unat_mod)
  have D': "lq_D q' = lq_D q" "lq_H q' = lq_H q" by (simp_all add: q'_def)
  show wf': "lq_wf q' bs'" using wf len T' nat unfolding lq_wf_def by (auto simp: q'_def word_less_nat_alt)
  have used': "lq_used q' = Suc (lq_used q)"
    using nat room lq_used_cases [OF wf] by (cases "lq_H q \<le> lq_T q") (auto simp: lq_used_def T' D' mod_Suc mod_below_twice)
  have T: "(lq_H q + lq_used q) mod lq_D q = lq_T q"
    using nat lq_used_cases [OF wf] by (cases "lq_H q \<le> lq_T q") auto
  have other: "(lq_H q + i) mod lq_D q \<noteq> lq_T q" if "i < lq_used q" for i
    using that nat lq_used_cases [OF wf] by (cases "lq_H q \<le> lq_T q") (auto simp: mod_below_twice)
  show "lq_contents q' = lq_contents q @ [x]"
  proof (rule nth_equalityI)
    fix i assume "i < length (lq_contents q')"
    then have i: "i < Suc (lq_used q)" by (simp add: used')
    then have "lq_contents q' ! i = slot 32 bs' ((lq_H q + i) mod lq_D q)"
      by (simp add: lq_contents_nth [OF wf'] used' D')
    then show "lq_contents q' ! i = (lq_contents q @ [x]) ! i"
      using i sl [of "(lq_H q + i) mod lq_D q"] other [of i] T nat(2,3)
      by (cases "i = lq_used q") (auto simp: nth_append lq_contents_nth [OF wf])
  qed (simp add: used')
qed

lemma enque_wf:
  assumes wf: "lq_wf q bs" and v: "lq_valid q \<noteq> 0" and len: "32 \<le> length cqe"
  shows "Suc (lq_used q) = lq_D q \<Longrightarrow> \<exists>q'. trs_logic_cq_enque active q cqe = Some (- EAGAIN, q') \<and> same_ring q q'"
    and "Suc (lq_used q) \<noteq> lq_D q \<Longrightarrow>
      \<exists>q' bs'. trs_logic_cq_enque active q cqe = Some (0, q') \<and> lq_wf q' bs' \<and>
        lq_contents q' = lq_contents q @ [take 32 cqe] \<and> lq_valid q' = lq_valid q \<and> lq_cq_depth q' = lq_cq_depth q \<and>
        lq_head q' = lq_head q"
proof -
  note nat = lq_wf_nat [OF wf]
  show "\<exists>q'. trs_logic_cq_enque active q cqe = Some (- EAGAIN, q') \<and> same_ring q q'" if "Suc (lq_used q) = lq_D q"
    using that v lq_full [OF wf] by (simp add: trs_logic_cq_enque_def same_ring_def)
  assume room: "Suc (lq_used q) \<noteq> lq_D q"
  then have lt: "Suc (lq_used q) < lq_D q" using lq_used_less [OF wf] by simp
  have sz: "lq_cqe_size q = 32" using wf by (simp add: lq_wf_def)
  have "uint (lq_tail q * 32) = int (lq_T q * 32)"
  proof -
    have "unat (lq_tail q * 32) = lq_T q * 32" using nat by (simp add: unat_word_ariths)
    then show ?thesis by (simp only: uint_nat)
  qed
  then have off: "uint (lq_tail q * lq_cqe_size q) = int (lq_T q * 32)" by (simp only: sz)
  have rd: "mem_read cqe 0 (unat (lq_cqe_size q)) = Some (take 32 cqe)" using len by (simp add: mem_read_def sz)
  have "length (take 32 cqe) = 32" using len by simp
  then obtain bs' where w: "mem_write bs (int (lq_T q * 32)) (take 32 cqe) = Some bs'" "length bs' = lq_D q * 32"
    "\<And>j. j < lq_D q \<Longrightarrow> slot 32 bs' j = (if j = lq_T q then take 32 cqe else slot 32 bs j)"
    using mem_write_slot [OF nat(4) nat(3)] by blast
  let ?q1 = "q\<lparr>lq_addr := Some bs', lq_tail := (lq_tail q + 1) mod lq_cq_depth q\<rparr>"
  let ?q2 = "trs_logic_cq_wakeup active ?q1"
  let ?q3 = "?q2\<lparr>lq_stat := (lq_stat ?q2)\<lparr>ls_enque := ls_enque (lq_stat ?q2) + 1\<rparr>\<rparr>"
  have "trs_logic_cq_enque active q cqe = Some (0, ?q3)"
    using v room lq_full [OF wf] nat(5) rd off w(1) by (simp add: trs_logic_cq_enque_def Let_def)
  moreover have sr: "same_ring ?q1 ?q3" by (simp add: same_ring_def trs_logic_cq_wakeup_def Let_def)
  moreover have "lq_head ?q3 = lq_head q" using sr by (simp add: same_ring_def)
  ultimately show "\<exists>q' bs'. trs_logic_cq_enque active q cqe = Some (0, q') \<and> lq_wf q' bs' \<and>
        lq_contents q' = lq_contents q @ [take 32 cqe] \<and> lq_valid q' = lq_valid q \<and> lq_cq_depth q' = lq_cq_depth q \<and>
        lq_head q' = lq_head q"
    using lq_contents_appended [OF wf lt w(2,3)] same_ring_contents [OF sr]
    by (intro exI [of _ ?q3] exI [of _ bs']) simp
qed

section \<open>What a receiver takes\<close>

lemma taken_own: "\<forall>x \<in> set (take (taken rid k xs) xs). \<not> foreign rid x"
  by (induction rid k xs rule: taken.induct) (auto simp: foreign_def)

lemma taken_zero: "taken rid k (dropWhile (foreign rid) xs) = 0 \<longleftrightarrow> (\<forall>x \<in> set xs. foreign rid x)"
proof (cases "dropWhile (foreign rid) xs")
  case (Cons y ys)
  then have "\<not> foreign rid y" "y \<in> set xs" by (metis hd_dropWhile list.distinct(1) list.sel(1), metis list.set_intros(1) set_dropWhileD)
  with Cons show ?thesis by (auto simp: foreign_def)
next
  case Nil
  then have "\<forall>x \<in> set xs. foreign rid x" by (simp add: dropWhile_eq_Nil_conv)
  then show ?thesis unfolding Nil by simp
qed

lemma pick_zero: "pick rid k xs = (s, 0) \<Longrightarrow> \<forall>x \<in> set xs. foreign rid x"
  by (simp add: pick_def taken_zero)

lemma pick_segment:
  assumes "pick rid k xs = (s, n)"
  shows "\<forall>x \<in> set (take s xs). foreign rid x" "\<forall>x \<in> set (take n (drop s xs)). \<not> foreign rid x"
proof -
  have s: "s = length (takeWhile (foreign rid) xs)" and n: "n = taken rid k (dropWhile (foreign rid) xs)"
    using assms by (simp_all add: pick_def)
  show "\<forall>x \<in> set (take s xs). foreign rid x"
    by (metis s set_takeWhileD takeWhile_eq_take)
  show "\<forall>x \<in> set (take n (drop s xs)). \<not> foreign rid x"
    using taken_own by (simp only: s n dropWhile_eq_drop [symmetric])
qed

lemma pick_ring_segment:
  assumes "pick_ring rid k a xs = (s, n)" "a \<le> length xs"
  shows "\<forall>x \<in> set (take s xs). foreign rid x" "\<forall>x \<in> set (take n (drop s xs)). \<not> foreign rid x"
    "n = 0 \<longleftrightarrow> (\<forall>x \<in> set xs. foreign rid x)"
proof -
  have "(\<forall>x \<in> set (take s xs). foreign rid x) \<and> (\<forall>x \<in> set (take n (drop s xs)). \<not> foreign rid x) \<and>
    (n = 0 \<longleftrightarrow> (\<forall>x \<in> set xs. foreign rid x))"
    using assms(1)
  proof (cases rule: pick_ring_cases)
    case here
    have le: "s + n \<le> a" using pick_bounds [OF here(2)] by simp
    then have "take s (take a xs) = take s xs" "take n (drop s (take a xs)) = take n (drop s xs)"
      by (simp_all add: drop_take min_def)
    note seg = pick_segment [OF here(2), unfolded this]
    have "take n (drop s xs) \<noteq> []" using here(1) le assms(2) by simp
    then obtain y where "y \<in> set (take n (drop s xs))" by (meson ex_in_conv set_empty)
    then have "y \<in> set xs" "\<not> foreign rid y" using seg(2) by (auto dest: in_set_takeD in_set_dropD)
    with seg here(1) show ?thesis by auto
  next
    case (rest s0 b)
    have A: "\<forall>x \<in> set (take a xs). foreign rid x" by (rule pick_zero [OF rest(1)])
    have "take s xs = take a xs @ take b (drop a xs)" by (simp add: rest(3) take_add)
    moreover have "drop s xs = drop b (drop a xs)" by (simp add: rest(3) add.commute)
    moreover have "n = 0 \<longleftrightarrow> (\<forall>x \<in> set (drop a xs). foreign rid x)"
      using rest(2) taken_zero [of rid k "drop a xs"] by (auto simp: pick_def)
    moreover have "set xs = set (take a xs) \<union> set (drop a xs)" by (metis append_take_drop_id set_append)
    ultimately show ?thesis using pick_segment [OF rest(2)] A by auto
  qed
  then show "\<forall>x \<in> set (take s xs). foreign rid x" "\<forall>x \<in> set (take n (drop s xs)). \<not> foreign rid x"
    "n = 0 \<longleftrightarrow> (\<forall>x \<in> set xs. foreign rid x)" by blast+
qed

text \<open>Entries of one class are taken in order.\<close>

lemma segment_class_fifo:
  assumes "\<forall>x \<in> set (take s xs). foreign rid x" "\<forall>x \<in> set (take n (drop s xs)). \<not> foreign rid x"
  shows "filter (\<lambda>x. cqe_class x = c) xs =
    filter (\<lambda>x. cqe_class x = c) (take n (drop s xs)) @ filter (\<lambda>x. cqe_class x = c) (take s xs @ drop (s + n) xs)"
proof -
  have "xs = take s xs @ take n (drop s xs) @ drop (s + n) xs"
    by (metis append_take_drop_id drop_drop add.commute)
  then have xs: "filter P xs = filter P (take s xs) @ filter P (take n (drop s xs)) @ filter P (drop (s + n) xs)" for P
    by (metis filter_append)
  have "filter (\<lambda>x. cqe_class x = c) (take s xs) = [] \<or> filter (\<lambda>x. cqe_class x = c) (take n (drop s xs)) = []"
  proof (cases "c = None \<or> c = Some rid")
    case True
    with assms(1) show ?thesis by (intro disjI1) (unfold filter_empty_conv foreign_def, metis)
  next
    case False
    with assms(2) show ?thesis by (intro disjI2) (unfold filter_empty_conv foreign_def, metis)
  qed
  then show ?thesis unfolding xs filter_append by (elim disjE) simp_all
qed

lemma lq_choice_fifo:
  assumes wf: "lq_wf q bs" and ne: "lq_contents q \<noteq> []" and ch: "lq_choice q para = (s, n)"
  shows "filter (\<lambda>x. cqe_class x = c) (lq_contents q) =
    filter (\<lambda>x. cqe_class x = c) (take n (drop s (lq_contents q))) @
    filter (\<lambda>x. cqe_class x = c) (take s (lq_contents q) @ drop (s + n) (lq_contents q))"
proof (cases "rr_res para 0 = 1")
  case True
  have "lq_first q \<le> length (lq_contents q)" using lq_contents_split(1) [OF wf] lq_empty [OF wf] ne by simp
  with True ch show ?thesis
    by (intro segment_class_fifo [where rid = "rr_rid para"] pick_ring_segment) (auto simp: lq_choice_def)
next
  case False
  with ch have "s = 0" by (simp add: lq_choice_def)
  then show ?thesis by (metis add_0 append_Nil append_take_drop_id drop0 filter_append take0)
qed

section \<open>Runs\<close>

text \<open>
  The operations of the threads that share a queue, in the order in which they get its locks. The entries handed out are
  read off the bytes that the user buffer received.
\<close>

datatype lq_op =
    Enque bool "u8 list"
  | Recv lq_env int halReportRecvInfo

definition cqes_of :: "u8 list list \<Rightarrow> u8 list list" where
  "cqes_of vs = concat (map (\<lambda>v. slots_from v 0 (length v div 32)) vs)"

fun lq_step :: "lq_op \<Rightarrow> trs_logic_cq \<Rightarrow> (trs_logic_cq \<times> u8 list list \<times> u8 list list) option" where
  "lq_step (Enque active cqe) q =
     map_option (\<lambda>(ret, q'). (q', if ret = 0 then [take LOGIC_CQE_SIZE cqe] else [], []))
       (trs_logic_cq_enque active q cqe)"
| "lq_step (Recv e chan_id para) q =
     map_option (\<lambda>(ret, para', q', out). (q', [], if ret = 0 then cqes_of (lo_user out) else []))
       (trs_logic_cq_copy_report e 0 chan_id q para lq_quiet)"

text \<open>An entry has at least 32 bytes, and a receiver has room for at least one.\<close>

fun lq_op_ok :: "lq_op \<Rightarrow> bool" where
  "lq_op_ok (Enque active cqe) \<longleftrightarrow> LOGIC_CQE_SIZE \<le> length cqe"
| "lq_op_ok (Recv e chan_id para) \<longleftrightarrow> rr_cqe_num para \<noteq> 0"

text \<open>A queue in use is well formed; one that is not in use holds nothing.\<close>

definition lq_inv :: "trs_logic_cq \<Rightarrow> bool" where
  "lq_inv q \<longleftrightarrow> lq_valid q \<noteq> 0 \<longrightarrow> lq_wf q (the (lq_addr q))"

definition lq_items :: "trs_logic_cq \<Rightarrow> u8 list list" where
  "lq_items q = (if lq_valid q = 0 then [] else lq_contents q)"

lemma lq_invI: "lq_wf q bs \<Longrightarrow> lq_inv q"
  by (simp add: lq_inv_def lq_wf_def)

lemma slots_of_concat:
  "\<forall>x \<in> set xs. length x = 32 \<Longrightarrow> slots_from (concat xs @ ys) 0 (length xs) = xs"
proof (induction xs)
  case (Cons x xs)
  have "slots_from (x @ zs) (Suc p) n = slots_from zs p n" if "length x = 32" for zs p n
    using that by (induction n arbitrary: p) (simp_all add: slot_def)
  with Cons show ?case by (simp add: slot_def)
qed simp

lemma cqes_of_concat:
  assumes "\<forall>x \<in> set xs. length x = 32"
  shows "cqes_of [concat xs] = xs"
proof -
  have "length (concat xs) = length xs * 32" using assms by (induction xs) auto
  then show ?thesis using slots_of_concat [OF assms, of "[]"] by (simp add: cqes_of_def)
qed

lemma lq_contents_lengths: "lq_wf q bs \<Longrightarrow> \<forall>x \<in> set (lq_contents q). length x = 32"
  using lq_wf_nat [of q bs] by (auto simp: lq_contents_def intro!: length_slot [where D = "lq_D q"])

lemma enque_step_fifo:
  assumes v: "lq_valid q \<noteq> 0" and wf: "lq_wf q bs" and ok: "32 \<le> length cqe"
  shows "\<exists>q' acc. lq_step (Enque active cqe) q = Some (q', acc, []) \<and> lq_inv q' \<and>
    class_fifo cqe_class (lq_items q) acc [] (lq_items q')"
proof (cases "Suc (lq_used q) = lq_D q")
  case True
  then obtain q1 where r: "trs_logic_cq_enque active q cqe = Some (- EAGAIN, q1)" "same_ring q q1"
    using enque_wf(1) [OF wf v ok] by blast
  note s = same_ring_contents [OF r(2)]
  have "lq_inv q1" "lq_items q1 = lq_items q" using wf s by (auto simp: lq_items_def intro: lq_invI [of _ bs])
  then show ?thesis by (simp add: r(1))
next
  case False
  then obtain q1 bs1 where r: "trs_logic_cq_enque active q cqe = Some (0, q1)" "lq_wf q1 bs1"
    "lq_contents q1 = lq_contents q @ [take 32 cqe]" "lq_valid q1 = lq_valid q"
    using enque_wf(2) [OF wf v ok] by blast
  have "class_fifo cqe_class (lq_items q) [take 32 cqe] [] (lq_items q1)"
    using r(3,4) v by (simp add: class_fifo_def lq_items_def)
  with r(1) lq_invI [OF r(2)] show ?thesis by simp
qed

lemma recv_step_fifo:
  assumes v: "lq_valid q \<noteq> 0" and wf: "lq_wf q bs" and K: "rr_cqe_num para \<noteq> 0"
  shows "\<exists>q' del. lq_step (Recv e chan_id para) q = Some (q', [], del) \<and> lq_inv q' \<and>
    class_fifo cqe_class (lq_items q) [] del (lq_items q')"
proof (cases "lq_contents q = []")
  case True
  then have "trs_logic_cq_copy_report e 0 chan_id q para lq_quiet = Some (- EAGAIN, para, q, lq_quiet)"
    using v lq_empty [OF wf] by (simp add: trs_logic_cq_copy_report_def)
  with lq_invI [OF wf] show ?thesis by simp
next
  case False
  obtain s n where ch: "lq_choice q para = (s, n)" by fastforce
  let ?xs = "take n (drop s (lq_contents q))"
  note spec = copy_report_wf [OF wf v False K ch, of e 0 chan_id lq_quiet]
  show ?thesis
  proof (cases "n \<noteq> 0 \<and> ctu_ret e 0 para ?xs = 0")
    case True
    then obtain q' bs' out' where r: "trs_logic_cq_copy_report e 0 chan_id q para lq_quiet =
        Some (0, para\<lparr>rr_report_cqe_num := of_nat n\<rparr>, q', out')" "lo_user out' = lo_user (user_gets e 0 para ?xs lq_quiet)"
      "lq_wf q' bs'" "lq_contents q' = take s (lq_contents q) @ drop (s + n) (lq_contents q)" "lq_valid q' = lq_valid q"
      using spec(3) by blast
    have "\<forall>x \<in> set ?xs. length x = 32" using lq_contents_lengths [OF wf] by (meson in_set_dropD in_set_takeD)
    then have "cqes_of (lo_user out') = ?xs"
      using True r(2) cqes_of_concat by (simp add: user_gets_def)
    moreover have "class_fifo cqe_class (lq_items q) [] ?xs (lq_items q')"
      using lq_choice_fifo [OF wf False ch] r(4,5) v by (simp add: class_fifo_def lq_items_def)
    ultimately show ?thesis using r(1) lq_invI [OF r(3)] by simp
  next
    case nd: False
    obtain ret out' where "trs_logic_cq_copy_report e 0 chan_id q para lq_quiet = Some (ret, para, q, out')" "ret \<noteq> 0"
      using spec(1,2) nd by (cases "n = 0") auto
    with lq_invI [OF wf] show ?thesis by simp
  qed
qed

interpretation lqc: classed_queue lq_inv lq_items cqe_class lq_step lq_op_ok
proof unfold_locales
  fix q op assume inv: "lq_inv q" and ok: "lq_op_ok op"
  show "\<exists>q' acc del. lq_step op q = Some (q', acc, del) \<and> lq_inv q' \<and> class_fifo cqe_class (lq_items q) acc del (lq_items q')"
  proof (cases "lq_valid q = 0")
    case True
    with inv show ?thesis by (cases op) (simp_all add: trs_logic_cq_enque_def trs_logic_cq_copy_report_def)
  next
    case False
    with inv have wf: "lq_wf q (the (lq_addr q))" by (simp add: lq_inv_def)
    show ?thesis
    proof (cases op)
      case (Enque active cqe)
      with ok have "32 \<le> length cqe" by simp
      from enque_step_fifo [OF False wf this, of active] Enque show ?thesis by blast
    next
      case (Recv e chan_id para)
      with ok have "rr_cqe_num para \<noteq> 0" by simp
      from recv_step_fifo [OF False wf this, of e chan_id] Recv show ?thesis by blast
    qed
  qed
qed

text \<open>The queues of an instance.\<close>

interpretation lqs: classed_queue "\<lambda>qs. list_all lq_inv qs \<and> length qs = N" "array_items lq_items" "array_class cqe_class"
  "array_step lq_step" "\<lambda>iop. fst iop < N \<and> lq_op_ok (snd iop)" for N
  by unfold_locales (use lqc.array_step_ok in blast)

section \<open>Order\<close>

text \<open>
  C18. The queues of an instance with stars hardware and entries of full size, under any sequence of enqueues and receives, by
  whichever threads: the run has a result
  (no access outside the memory of a queue), every queue in use stays well formed, and for each queue and each class of its
  entries (the normal ones, and those that demand a stream and a task) the entries handed out to user buffers followed by
  those still queued are the entries present at the start followed by those accepted, in the same order. So no completion
  is lost, duplicated, reordered within its class or delivered from another queue, although receivers take entries from the
  middle of the ring.
\<close>

theorem lq_class_fifo:
  assumes "list_all lq_inv qs" "list_all (\<lambda>(i, op). i < length qs \<and> lq_op_ok op) ops"
  shows "\<exists>qs' acc del. queue_run (array_step lq_step) ops qs = Some (qs', acc, del) \<and> list_all lq_inv qs' \<and>
    class_fifo (array_class cqe_class) (array_items lq_items qs) acc del (array_items lq_items qs')"
  using lqs.run_fifo [of qs "length qs" ops] assms by (auto simp: case_prod_unfold)

definition demo_cqe :: "u8 \<Rightarrow> u8 \<Rightarrow> u8 \<Rightarrow> u8 list" where
  "demo_cqe stream task flag = (replicate 32 0)[0 := stream, 2 := task, 14 := flag]"

definition demo_lq :: "u32 \<Rightarrow> trs_logic_cq" where
  "demo_lq depth = \<lparr>lq_flag = 0, lq_cqid = 0, lq_valid = 1, lq_cqe_verion = 2, lq_thread_bind_irq = - 1, lq_head = 0, lq_tail = 0,
     lq_cqe_size = 32, lq_cq_depth = depth, lq_addr = Some (replicate (unat depth * 32) 0), lq_wakeup_num = 0,
     lq_wait_thread_num = 0,
     lq_stat = \<lparr>ls_enque = 0, ls_full_drop = 0, ls_wakeup = 0, ls_recv = 0, ls_recv_in = 0, ls_timeout = 0\<rparr>\<rparr>"

definition demo_lq_env :: lq_env where
  "demo_lq_env = \<lparr>le_ctu = (\<lambda>_ _ _. 0), le_jiffies = (\<lambda>ms. uint ms), le_sleep = (\<lambda>_ _. 0), le_signal = (\<lambda>_. False),
     le_others = (\<lambda>_ q. q)\<rparr>"

definition demo_recv :: "u32 \<Rightarrow> u32 \<Rightarrow> halReportRecvInfo" where
  "demo_recv stream task = \<lparr>rr_tsId = 0, rr_cqId = 0, rr_timeout = 0, rr_cqe_addr = 4096, rr_cqe_num = 4,
     rr_report_cqe_num = 0, rr_stream_id = stream, rr_task_id = task, rr_res = (\<lambda>_. 1)\<rparr>"

text \<open>Two entries wait, the first for task 9: the thread of task 7 receives the second one.\<close>

definition demo_lq_ops :: "(nat \<times> lq_op) list" where
  "demo_lq_ops = [(0, Enque True (demo_cqe 1 9 1)), (0, Enque True (demo_cqe 1 0 0)),
     (0, Recv demo_lq_env (- 1) (demo_recv 1 7))]"

lemma demo_lq_overtakes:
  "map_option snd (queue_run (array_step lq_step) demo_lq_ops [demo_lq 4]) =
     Some ([(0, demo_cqe 1 9 1), (0, demo_cqe 1 0 0)], [(0, demo_cqe 1 0 0)])"
  by code_simp

lemma demo_lq_wf: "0 < depth \<Longrightarrow> depth \<le> 65536 \<Longrightarrow> lq_wf (demo_lq depth) (replicate (unat depth * 32) 0)"
  by (simp add: lq_wf_def demo_lq_def)

lemma demo_lq_inv: "lq_inv (demo_lq 4)"
  by (rule lq_invI [OF demo_lq_wf]) simp_all

theorem lq_class_fifo_witness:
  "\<exists>qs' acc del. queue_run (array_step lq_step) demo_lq_ops [demo_lq 4] = Some (qs', acc, del) \<and> list_all lq_inv qs' \<and>
    class_fifo (array_class cqe_class) (array_items lq_items [demo_lq 4]) acc del (array_items lq_items qs')"
  by (rule lq_class_fifo) (simp_all add: demo_lq_inv demo_lq_ops_def demo_cqe_def demo_recv_def)

end
