(* ===== verification/Logic_Race.thy ===== *)
theory Logic_Race
  imports Logic_Fifo
begin

text \<open>
  A receive holds the mutex of its queue, an enqueue only its spin lock: entries arrive while a receive is choosing,
  copying and moving entries. Here the receive is a sequence of small steps, one for each access to what an enqueue
  writes or to the memory of the queue, and before every step any number of enqueues may run. Without arrivals this is
  the receive of \<open>Logic_Cq\<close> (\<open>copy_report_quiet\<close>); with them it takes effect at one moment, the reading of the tail:
  nothing that arrives before or after is lost, damaged or seen twice (\<open>lq_enque_during_recv\<close>).
\<close>

section \<open>Small steps of a receive\<close>

text \<open>
  A state of the race: what the entries to arrive before each of the coming steps are, the queue, and the entries
  accepted so far. An arrival is an enqueue as a whole, with its entry in the memory of the caller; an entry that finds
  the queue full is refused.
\<close>

type_synonym arrivals = "(bool \<times> u8 list) list"
type_synonym race = "arrivals list \<times> trs_logic_cq \<times> u8 list list"

fun arrive :: "arrivals \<Rightarrow> trs_logic_cq \<Rightarrow> (trs_logic_cq \<times> u8 list list) option" where
  "arrive [] q = Some (q, [])"
| "arrive ((active, cqe) # xs) q = do {
     (ret, q1) \<leftarrow> trs_logic_cq_enque active q cqe;
     (q2, acc) \<leftarrow> arrive xs q1;
     Some (q2, (if ret = 0 then [take (unat (lq_cqe_size q)) cqe] else []) @ acc)
   }"

fun interleave :: "race \<Rightarrow> race option" where
  "interleave ([], q, acc) = Some ([], q, acc)"
| "interleave (xs # s, q, acc) = do { (q1, acc1) \<leftarrow> arrive xs q; Some (s, q1, acc @ acc1) }"

text \<open>A step reads the queue (\<open>peek\<close>) or changes it (\<open>poke\<close>), or does so with its memory (\<open>look\<close>, \<open>store\<close>).\<close>

definition peek :: "(trs_logic_cq \<Rightarrow> 'a option) \<Rightarrow> race \<Rightarrow> ('a \<times> race) option" where
  "peek f r = do { (s, q, acc) \<leftarrow> interleave r; x \<leftarrow> f q; Some (x, s, q, acc) }"

definition poke :: "(trs_logic_cq \<Rightarrow> trs_logic_cq option) \<Rightarrow> race \<Rightarrow> race option" where
  "poke f r = do { (s, q, acc) \<leftarrow> interleave r; q' \<leftarrow> f q; Some (s, q', acc) }"

definition look :: "(trs_logic_cq \<Rightarrow> u8 list \<Rightarrow> 'a option) \<Rightarrow> race \<Rightarrow> ('a \<times> race) option" where
  "look f = peek (\<lambda>q. do { bs \<leftarrow> lq_addr q; f q bs })"

definition store :: "(trs_logic_cq \<Rightarrow> u8 list \<Rightarrow> u8 list option) \<Rightarrow> race \<Rightarrow> race option" where
  "store f = poke (\<lambda>q. do { bs \<leftarrow> lq_addr q; bs' \<leftarrow> f q bs; Some (q\<lparr>lq_addr := Some bs'\<rparr>) })"

abbreviation race_q :: "race \<Rightarrow> trs_logic_cq" where "race_q r \<equiv> fst (snd r)"

section \<open>The racing receive\<close>

text \<open>
  The functions of \<open>Logic_Cq\<close> again, step by step. Head, depth, entry size and version of a queue are not written by an
  enqueue and are read where the step before left the queue. The fields of one entry that one helper function reads are
  one step, and so is each entry read or written by a move and each entry read for \<^verbatim>\<open>copy_to_user\<close>.
\<close>

fun match_copy_scan_r ::
    "halReportRecvInfo \<Rightarrow> u32 \<Rightarrow> u32 \<Rightarrow> nat \<Rightarrow> u32 \<Rightarrow> u32 \<Rightarrow> race \<Rightarrow> ((u32 \<times> u32) \<times> race) option" where
  "match_copy_scan_r para report_cnt pos 0 search_start search_num r = Some ((search_start, search_num), r)"
| "match_copy_scan_r para report_cnt pos (Suc n) search_start search_num r = do {
     (need, r1) \<leftarrow> look (\<lambda>q bs. trs_logic_is_cqe_need_match q bs (cqe_off q pos)) r;
     if need then do {
       (mat, r2) \<leftarrow> look (\<lambda>q bs. trs_logic_is_cqe_match q bs (cqe_off q pos) (rr_stream_id para) (rr_task_id para)) r1;
       if mat then do {
         (_, r3) \<leftarrow> look (\<lambda>q bs. trs_logic_cq_check_report_cqe bs (cqe_off q pos)) r2;
         Some ((if search_num = 0 then pos else search_start, search_num + 1), r3)
       }
       else if search_num \<noteq> 0 \<or> search_num \<ge> report_cnt then Some ((search_start, search_num), r2)
       else match_copy_scan_r para report_cnt (pos + 1) n search_start search_num r2
     }
     else let search_start' = (if search_num = 0 then pos else search_start) in
       if search_num + 1 \<ge> report_cnt then Some ((search_start', search_num + 1), r1)
       else match_copy_scan_r para report_cnt (pos + 1) n search_start' (search_num + 1) r1
   }"

definition match_copy_range_r ::
    "halReportRecvInfo \<Rightarrow> u32 \<Rightarrow> u32 \<Rightarrow> race \<Rightarrow> ((u32 \<times> u32) \<times> race) option" where
  "match_copy_range_r para cqe_start cqe_end r =
     (let cqe_cnt = cqe_end - cqe_start in
      match_copy_scan_r para (min cqe_cnt (rr_cqe_num para)) cqe_start (unat cqe_cnt) 0 0 r)"

fun move_cqes_from_r :: "nat \<Rightarrow> int \<Rightarrow> int \<Rightarrow> nat \<Rightarrow> race \<Rightarrow> race option" where
  "move_cqes_from_r sz report_s report_d 0 r = Some r"
| "move_cqes_from_r sz report_s report_d (Suc n) r = do {
     (v, r1) \<leftarrow> look (\<lambda>q bs. mem_read bs report_s sz) r;
     r2 \<leftarrow> store (\<lambda>q bs. mem_write bs report_d v) r1;
     move_cqes_from_r sz (report_s - int sz) (report_d - int sz) n r2
   }"

definition move_cqes_r :: "u32 \<Rightarrow> u32 \<Rightarrow> u32 \<Rightarrow> race \<Rightarrow> race option" where
  "move_cqes_r src_pos dst_pos num r =
     move_cqes_from_r (cqe_struct_size (race_q r)) (cqe_off (race_q r) (src_pos + num - 1))
       (cqe_off (race_q r) (dst_pos + num - 1)) (unat num) r"

definition eliminate_holes_r :: "u32 \<Rightarrow> u32 \<Rightarrow> bool \<Rightarrow> race \<Rightarrow> race option" where
  "eliminate_holes_r start report_cnt rollback r = do {
     let head = lq_head (race_q r);
     let depth = lq_cq_depth (race_q r);
     let num = (if \<not> rollback then start - head else start);
     let src_pos = (if \<not> rollback then head else 0);
     r1 \<leftarrow> (if num \<noteq> 0 then move_cqes_r src_pos (src_pos + report_cnt) num r else Some r);
     if \<not> rollback then Some r1
     else do {
       let num1 = min report_cnt (depth - head);
       r2 \<leftarrow> move_cqes_r (depth - num1) (report_cnt - num1) num1 r1;
       let num2 = depth - head - num1;
       if num2 = 0 then Some r2
       else move_cqes_r head (depth - num2) num2 r2
     }
   }"

text \<open>\<^verbatim>\<open>copy_to_user\<close> reads its source entry by entry.\<close>

fun user_copy_r :: "nat \<Rightarrow> int \<Rightarrow> nat \<Rightarrow> race \<Rightarrow> (u8 list \<times> race) option" where
  "user_copy_r sz off 0 r = Some ([], r)"
| "user_copy_r sz off (Suc n) r = do {
     (v, r1) \<leftarrow> look (\<lambda>q bs. mem_read bs off sz) r;
     (w, r2) \<leftarrow> user_copy_r sz (off + int sz) n r1;
     Some (v @ w, r2)
   }"

definition cqes_to_user_r ::
    "lq_env \<Rightarrow> nat \<Rightarrow> halReportRecvInfo \<Rightarrow> u32 \<Rightarrow> u32 \<Rightarrow> lq_out \<Rightarrow> race \<Rightarrow> ((int \<times> lq_out) \<times> race) option" where
  "cqes_to_user_r e k para start n out r = do {
     (v, r1) \<leftarrow> user_copy_r (unat (lq_cqe_size (race_q r))) (cqe_off (race_q r) start) (unat n) r;
     let ret = le_ctu e k (rr_cqe_addr para) v;
     Some ((ret, out\<lparr>lo_user := lo_user out @ [take (length v - nat ret) v]\<rparr>), r1)
   }"

text \<open>The parts of \<^verbatim>\<open>trs_logic_cq_match_copy\<close>, which reads the tail once.\<close>

definition match_copy_deliver_r ::
    "lq_env \<Rightarrow> nat \<Rightarrow> halReportRecvInfo \<Rightarrow> u32 \<Rightarrow> u32 \<Rightarrow> bool \<Rightarrow> lq_out \<Rightarrow> race \<Rightarrow>
     ((int \<times> halReportRecvInfo \<times> lq_out) \<times> race) option" where
  "match_copy_deliver_r e k para start report_cnt rollback out r = do {
     ((ret, out'), r1) \<leftarrow> cqes_to_user_r e k para start report_cnt out r;
     if ret \<noteq> 0 then Some ((ret, para, out'), r1)
     else do {
       r2 \<leftarrow> (if lq_head (race_q r1) \<noteq> start then eliminate_holes_r start report_cnt rollback r1 else Some r1);
       Some ((0, para\<lparr>rr_report_cqe_num := report_cnt\<rparr>, out'), r2)
     }
   }"

definition match_copy_choose_r ::
    "u32 \<Rightarrow> halReportRecvInfo \<Rightarrow> race \<Rightarrow> ((u32 \<times> u32 \<times> bool) \<times> race) option" where
  "match_copy_choose_r tail para r =
     (if tail > lq_head (race_q r)
      then do {
        ((s, n), r1) \<leftarrow> match_copy_range_r para (lq_head (race_q r)) tail r;
        Some ((s, n, False), r1)
      }
      else do {
        ((s, n), r1) \<leftarrow> match_copy_range_r para (lq_head (race_q r)) (lq_cq_depth (race_q r)) r;
        if n = 0
        then do {
          ((s', n'), r2) \<leftarrow> match_copy_range_r para 0 tail r1;
          Some ((s', n', True), r2)
        }
        else Some ((s, n, False), r1)
      })"

definition match_copy_r ::
    "lq_env \<Rightarrow> nat \<Rightarrow> halReportRecvInfo \<Rightarrow> lq_out \<Rightarrow> race \<Rightarrow>
     ((int \<times> halReportRecvInfo \<times> lq_out) \<times> race) option" where
  "match_copy_r e k para out r = do {
     (tail, r1) \<leftarrow> peek (\<lambda>q. Some (lq_tail q)) r;
     ((start, report_cnt, rollback), r2) \<leftarrow> match_copy_choose_r tail para r1;
     if report_cnt = 0 then Some ((- EAGAIN, para, out), r2)
     else match_copy_deliver_r e k para start report_cnt rollback out r2
   }"

definition non_match_copy_r ::
    "lq_env \<Rightarrow> nat \<Rightarrow> halReportRecvInfo \<Rightarrow> lq_out \<Rightarrow> race \<Rightarrow>
     ((int \<times> halReportRecvInfo \<times> lq_out) \<times> race) option" where
  "non_match_copy_r e k para out r = do {
     (tail, r1) \<leftarrow> peek (\<lambda>q. Some (lq_tail q)) r;
     let start = lq_head (race_q r1);
     let report_cnt = (if tail > start then tail - start else lq_cq_depth (race_q r1) - start);
     ((ret, out'), r2) \<leftarrow> cqes_to_user_r e k para start report_cnt out r1;
     if ret \<noteq> 0 then Some ((ret, para, out'), r2)
     else Some ((0, para\<lparr>rr_report_cqe_num := report_cnt\<rparr>, out'), r2)
   }"

definition copy_report_r ::
    "lq_env \<Rightarrow> nat \<Rightarrow> int \<Rightarrow> halReportRecvInfo \<Rightarrow> lq_out \<Rightarrow> race \<Rightarrow>
     ((int \<times> halReportRecvInfo \<times> lq_out) \<times> race) option" where
  "copy_report_r e k chan_id para out r = do {
     (valid, r1) \<leftarrow> peek (\<lambda>q. Some (lq_valid q)) r;
     if valid = 0 then Some ((- EFAULT, para, out), r1)
     else do {
       (empty, r2) \<leftarrow> peek (\<lambda>q. Some (trs_logic_cq_is_empty q)) r1;
       if empty then Some ((- EAGAIN, para, out), r2)
       else do {
         (full_flag, r3) \<leftarrow> peek trs_logic_cq_is_full r2;
         ((ret, para', out'), r4) \<leftarrow>
           (if rr_res para 0 = 1 then match_copy_r e k para out r3 else non_match_copy_r e k para out r3);
         if ret \<noteq> 0 then Some ((ret, para', out'), r4)
         else do {
           r5 \<leftarrow> poke (\<lambda>q. Some (q\<lparr>lq_head := (lq_head q + rr_report_cqe_num para') mod lq_cq_depth q\<rparr>)) r4;
           Some ((0, para', if full_flag \<and> chan_id \<ge> 0 then out'\<lparr>lo_sched := Suc (lo_sched out')\<rparr> else out'), r5)
         }
       }
     }
   }"

declare split_paired_All [simp del] split_paired_Ex [simp del]

section \<open>Without arrivals\<close>

text \<open>When nothing arrives the steps add up to the receive of \<open>Logic_Cq\<close>.\<close>

lemma peek_quiet: "peek f ([], q, acc) = do { x \<leftarrow> f q; Some (x, [], q, acc) }"
  by (simp add: peek_def)

lemma poke_quiet: "poke f ([], q, acc) = do { q' \<leftarrow> f q; Some ([], q', acc) }"
  by (simp add: poke_def)

lemma look_quiet: "lq_addr q = Some bs \<Longrightarrow> look f ([], q, acc) = do { x \<leftarrow> f q bs; Some (x, [], q, acc) }"
  by (simp add: look_def peek_quiet)

lemma store_quiet:
  "lq_addr q = Some bs \<Longrightarrow> store f ([], q, acc) = do { bs' \<leftarrow> f q bs; Some ([], q\<lparr>lq_addr := Some bs'\<rparr>, acc) }"
  by (simp add: store_def poke_quiet)

lemma scan_quiet:
  assumes "match_copy_scan q bs para rc pos n s c = Some x" "lq_addr q = Some bs"
  shows "match_copy_scan_r para rc pos n s c ([], q, acc) = Some (x, [], q, acc)"
  using assms(1)
proof (induction n arbitrary: pos s c)
  case (Suc n)
  from Suc.prems show ?case
    by (auto simp: look_quiet [OF assms(2)] Let_def Suc.IH split: bind_splits if_split_asm)
qed simp

lemma range_quiet:
  assumes "trs_logic_cq_get_match_copy_range q bs para a b = Some x" "lq_addr q = Some bs"
  shows "match_copy_range_r para a b ([], q, acc) = Some (x, [], q, acc)"
  using assms by (simp add: match_copy_range_r_def trs_logic_cq_get_match_copy_range_def Let_def scan_quiet)

lemma move_from_quiet:
  assumes "move_cqes_from sz s d n bs = Some bs'" "lq_addr q = Some bs"
  shows "move_cqes_from_r sz s d n ([], q, acc) = Some ([], q\<lparr>lq_addr := Some bs'\<rparr>, acc)"
  using assms
proof (induction n arbitrary: s d q bs)
  case (Suc n)
  then show ?case
    by (auto simp: look_quiet [OF Suc.prems(2)] store_quiet [OF Suc.prems(2)] split: bind_splits)
qed simp

lemma move_quiet:
  assumes "trs_logic_cq_move_cqes q s d n bs = Some bs'" "lq_addr q = Some bs"
  shows "move_cqes_r s d n ([], q, acc) = Some ([], q\<lparr>lq_addr := Some bs'\<rparr>, acc)"
  using assms by (simp add: move_cqes_r_def trs_logic_cq_move_cqes_def move_from_quiet)

lemma move_cqes_addr [simp]: "trs_logic_cq_move_cqes (q\<lparr>lq_addr := a\<rparr>) = trs_logic_cq_move_cqes q"
  by (simp add: fun_eq_iff trs_logic_cq_move_cqes_def cqe_struct_size_def cqe_off_def)

lemma eliminate_quiet:
  assumes "trs_logic_cq_eliminate_holes q s n rb bs = Some bs'" "lq_addr q = Some bs"
  shows "eliminate_holes_r s n rb ([], q, acc) = Some ([], q\<lparr>lq_addr := Some bs'\<rparr>, acc)"
proof -
  have "q\<lparr>lq_addr := Some bs\<rparr> = q" using assms(2) by simp
  then have m: "(if c then move_cqes_r a d k ([], q\<lparr>lq_addr := Some b1\<rparr>, acc) else Some ([], q\<lparr>lq_addr := Some b1\<rparr>, acc)) =
      Some ([], q\<lparr>lq_addr := Some b2\<rparr>, acc)"
    if "(if c then trs_logic_cq_move_cqes q a d k b1 else Some b1) = Some b2" for c a d k b1 b2
    using that by (simp add: move_quiet split: if_splits)
  note m0 = m [of _ _ _ _ bs, unfolded \<open>q\<lparr>lq_addr := Some bs\<rparr> = q\<close>]
  obtain b1 where b1: "(if (if \<not> rb then s - lq_head q else s) \<noteq> 0
      then trs_logic_cq_move_cqes q (if \<not> rb then lq_head q else 0) ((if \<not> rb then lq_head q else 0) + n)
        (if \<not> rb then s - lq_head q else s) bs else Some bs) = Some b1"
    using assms(1) unfolding trs_logic_cq_eliminate_holes_def Let_def by (auto split: bind_splits)
  show ?thesis
    using assms(1) unfolding trs_logic_cq_eliminate_holes_def eliminate_holes_r_def Let_def fst_conv snd_conv m0 [OF b1] b1
      Option.bind_lunit
    by (auto simp: move_quiet split: bind_splits if_splits)
qed

lemma user_copy_quiet:
  assumes "mem_read bs off (n * sz) = Some v" "lq_addr q = Some bs"
  shows "user_copy_r sz off n ([], q, acc) = Some (v, [], q, acc)"
  using assms(1)
proof (induction n arbitrary: off v)
  case 0
  then show ?case by (auto simp: mem_read_def split: if_splits)
next
  case (Suc n)
  from Suc.prems have fit: "0 \<le> off" "nat off + sz + n * sz \<le> length bs" "v = take (sz + n * sz) (drop (nat off) bs)"
    by (auto simp: mem_read_def add.assoc split: if_splits)
  then have "mem_read bs off sz = Some (take sz (drop (nat off) bs))"
    "mem_read bs (off + int sz) (n * sz) = Some (take (n * sz) (drop (nat off + sz) bs))"
    by (simp_all add: mem_read_def nat_add_distrib)
  moreover have "v = take sz (drop (nat off) bs) @ take (n * sz) (drop (nat off + sz) bs)"
    using fit(3) by (simp add: take_add add.commute)
  ultimately show ?case by (simp add: look_quiet [OF assms(2)] Suc.IH)
qed

lemma to_user_quiet:
  assumes "cqes_to_user e k q bs para start n out = Some x" "lq_addr q = Some bs"
  shows "cqes_to_user_r e k para start n out ([], q, acc) = Some (x, [], q, acc)"
  using assms by (auto simp: cqes_to_user_def cqes_to_user_r_def user_copy_quiet Let_def split: bind_splits)

lemma deliver_quiet:
  assumes "match_copy_deliver e k q bs para s n rb out = Some (ret, para', q', out')" "lq_addr q = Some bs"
  shows "match_copy_deliver_r e k para s n rb out ([], q, acc) = Some ((ret, para', out'), [], q', acc)"
proof -
  have "q\<lparr>lq_addr := Some bs\<rparr> = q" using assms(2) by simp
  with assms show ?thesis
    by (auto simp: match_copy_deliver_def match_copy_deliver_r_def to_user_quiet eliminate_quiet split: bind_splits if_splits)
qed

lemma match_copy_quiet:
  assumes "trs_logic_cq_match_copy e k q para out = Some (ret, para', q', out')"
  shows "match_copy_r e k para out ([], q, acc) = Some ((ret, para', out'), [], q', acc)"
proof -
  obtain bs where bs: "lq_addr q = Some bs"
    using assms by (auto simp: trs_logic_cq_match_copy_def match_copy_at_def split: bind_splits)
  show ?thesis
    using assms bs unfolding trs_logic_cq_match_copy_def match_copy_at_def match_copy_r_def match_copy_choose_r_def
    by (auto simp: peek_quiet range_quiet [OF _ bs] deliver_quiet [OF _ bs] split: bind_splits if_splits)
qed

lemma non_match_copy_quiet:
  assumes "trs_logic_cq_non_match_copy e k q para out = Some (ret, para', q', out')"
  shows "non_match_copy_r e k para out ([], q, acc) = Some ((ret, para', out'), [], q', acc)"
proof -
  obtain bs where bs: "lq_addr q = Some bs" using assms by (auto simp: trs_logic_cq_non_match_copy_def split: bind_splits)
  show ?thesis
    using assms bs unfolding trs_logic_cq_non_match_copy_def non_match_copy_r_def Let_def
    by (auto simp: peek_quiet to_user_quiet [OF _ bs] split: bind_splits if_split_asm)
qed

lemma copy_report_quiet:
  assumes "trs_logic_cq_copy_report e k chan q para out = Some (ret, para', q', out')"
  shows "copy_report_r e k chan para out ([], q, acc) = Some ((ret, para', out'), [], q', acc)"
  using assms unfolding trs_logic_cq_copy_report_def copy_report_r_def
  by (auto simp: peek_quiet poke_quiet match_copy_quiet non_match_copy_quiet split: bind_splits if_split_asm)

section \<open>What an arrival leaves alone\<close>

definition sched_ok :: "arrivals list \<Rightarrow> bool" where
  "sched_ok s \<longleftrightarrow> (\<forall>xs \<in> set s. \<forall>x \<in> set xs. LOGIC_CQE_SIZE \<le> length (snd x))"

definition queued :: "trs_logic_cq \<Rightarrow> trs_logic_cq \<Rightarrow> u8 list list \<Rightarrow> bool" where
  "queued q q' acc \<longleftrightarrow> (\<exists>bs. lq_wf q' bs) \<and> lq_contents q' = lq_contents q @ acc \<and> lq_valid q' = lq_valid q \<and>
     lq_cq_depth q' = lq_cq_depth q \<and> lq_head q' = lq_head q"

lemma queued_refl: "lq_wf q bs \<Longrightarrow> queued q q []"
  by (auto simp: queued_def)

lemma queued_trans: "queued q q1 a \<Longrightarrow> queued q1 q2 b \<Longrightarrow> queued q q2 (a @ b)"
  by (simp add: queued_def)

lemma enque_queued:
  assumes wf: "lq_wf q bs" and v: "lq_valid q \<noteq> 0" and len: "32 \<le> length cqe"
  obtains ret q' where "trs_logic_cq_enque active q cqe = Some (ret, q')"
    "queued q q' (if ret = 0 then [take 32 cqe] else [])"
proof (cases "Suc (lq_used q) = lq_D q")
  case True
  obtain q' where q': "trs_logic_cq_enque active q cqe = Some (- EAGAIN, q')" "same_ring q q'"
    using enque_wf(1) [OF wf v len True] by blast
  show thesis
    by (rule that [OF q'(1)]) (use q'(2) wf same_ring_contents [OF q'(2)] in \<open>auto simp: queued_def same_ring_def\<close>)
next
  case False
  obtain q' bs' where q': "trs_logic_cq_enque active q cqe = Some (0, q')" "lq_wf q' bs'"
    "lq_contents q' = lq_contents q @ [take 32 cqe]" "lq_valid q' = lq_valid q" "lq_cq_depth q' = lq_cq_depth q"
    "lq_head q' = lq_head q"
    using enque_wf(2) [OF wf v len False] by blast
  show thesis by (rule that [OF q'(1)]) (use q' in \<open>auto simp: queued_def\<close>)
qed

lemma arrive_queued:
  assumes "lq_wf q bs" "lq_valid q \<noteq> 0" "\<forall>x \<in> set xs. 32 \<le> length (snd x)"
  shows "\<exists>q' acc. arrive xs q = Some (q', acc) \<and> queued q q' acc"
  using assms
proof (induction xs arbitrary: q bs)
  case Nil
  then show ?case using queued_refl by simp
next
  case (Cons x xs)
  obtain active cqe where x: "x = (active, cqe)" by fastforce
  obtain ret q1 where q1: "trs_logic_cq_enque active q cqe = Some (ret, q1)"
    "queued q q1 (if ret = 0 then [take 32 cqe] else [])"
    using enque_queued [OF Cons.prems(1,2), of cqe active] Cons.prems(3) x by auto
  obtain bs1 where "lq_wf q1 bs1" "lq_valid q1 \<noteq> 0" using q1(2) Cons.prems(2) by (auto simp: queued_def)
  then obtain q' acc where a: "arrive xs q1 = Some (q', acc)" "queued q1 q' acc"
    using Cons.IH Cons.prems(3) by fastforce
  moreover have "lq_cqe_size q = 32" using Cons.prems(1) by (simp add: lq_wf_def)
  moreover from q1(2) a(2) have "queued q q' ((if ret = 0 then [take 32 cqe] else []) @ acc)" by (rule queued_trans)
  ultimately show ?case using q1(1) by (cases "ret = 0") (simp_all add: x)
qed

lemma arrive_append:
  "arrive (xs @ ys) q = do { (q1, a) \<leftarrow> arrive xs q; (q2, b) \<leftarrow> arrive ys q1; Some (q2, a @ b) }"
  by (induction xs arbitrary: q) (auto split: bind_splits)

text \<open>
  A receive that has read the tail works on a queue that nobody else touches (\<open>q0\<close>), and the real queue differs from it by
  the entries that have arrived since (\<open>acc\<close> after \<open>acc0\<close>).
\<close>

definition shadow :: "u8 list list \<Rightarrow> trs_logic_cq \<Rightarrow> race \<Rightarrow> bool" where
  "shadow acc0 q0 r \<longleftrightarrow>
     (case r of (s, q, acc) \<Rightarrow> sched_ok s \<and> (\<exists>m. lq_wf q0 m) \<and> lq_valid q0 \<noteq> 0 \<and>
        (\<exists>acc2. acc = acc0 @ acc2 \<and> queued q0 q acc2))"

lemma shadow_interleave:
  assumes "shadow acc0 q0 r"
  obtains r' where "interleave r = Some r'" "shadow acc0 q0 r'"
proof (cases r rule: interleave.cases)
  case (1 q acc)
  with that assms show thesis by simp
next
  case (2 xs s q acc)
  with assms obtain bs acc2 where q: "sched_ok s" "\<forall>x \<in> set xs. 32 \<le> length (snd x)" "lq_wf q bs" "acc = acc0 @ acc2"
    "queued q0 q acc2" "lq_valid q \<noteq> 0" "\<exists>m. lq_wf q0 m" "lq_valid q0 \<noteq> 0"
    by (auto simp: shadow_def sched_ok_def queued_def)
  obtain q' acc3 where a: "arrive xs q = Some (q', acc3)" "queued q q' acc3"
    using arrive_queued [OF q(3,6,2)] by blast
  have "shadow acc0 q0 (s, q', acc @ acc3)"
    using q queued_trans [OF q(5) a(2)] by (auto simp: shadow_def)
  with a(1) 2 that show thesis by simp
qed

lemma shadow_peek:
  assumes "shadow acc0 q0 r" "\<And>s q acc. shadow acc0 q0 (s, q, acc) \<Longrightarrow> f q = Some x"
  obtains r' where "peek f r = Some (x, r')" "shadow acc0 q0 r'"
proof -
  obtain s q acc where i: "interleave r = Some (s, q, acc)" "shadow acc0 q0 (s, q, acc)"
    using shadow_interleave [OF assms(1)] by (metis prod_cases3)
  with that assms(2) show thesis by (simp add: peek_def)
qed

lemma shadow_poke:
  assumes "shadow acc0 q0 r"
    "\<And>s q acc. shadow acc0 q0 (s, q, acc) \<Longrightarrow> \<exists>q'. f q = Some q' \<and> shadow acc0 q1 (s, q', acc)"
  obtains r' where "poke f r = Some r'" "shadow acc0 q1 r'"
proof -
  obtain s q acc where i: "interleave r = Some (s, q, acc)" "shadow acc0 q0 (s, q, acc)"
    using shadow_interleave [OF assms(1)] by (metis prod_cases3)
  from assms(2) [OF i(2)] obtain q' where "f q = Some q'" "shadow acc0 q1 (s, q', acc)" by blast
  with i(1) show thesis by (intro that [of "(s, q', acc)"]) (simp_all add: poke_def)
qed

text \<open>The places of the entries that were there when the receive read the tail.\<close>

definition ring_place :: "trs_logic_cq \<Rightarrow> nat \<Rightarrow> bool" where
  "ring_place q p \<longleftrightarrow> (\<exists>i < lq_used q. p = (lq_H q + i) mod lq_D q)"

lemma queued_nat:
  assumes "queued q0 q acc"
  shows "lq_D q = lq_D q0" "lq_H q = lq_H q0" "lq_used q = lq_used q0 + length acc"
  using assms by (simp_all add: queued_def) (metis length_append length_lq_contents)

lemma queued_slot:
  assumes "lq_wf q0 m" "lq_wf q bs" "queued q0 q acc" "ring_place q0 p"
  shows "slot 32 bs p = slot 32 m p" "p < lq_D q0"
proof -
  obtain i where i: "i < lq_used q0" "p = (lq_H q0 + i) mod lq_D q0" using assms(4) by (auto simp: ring_place_def)
  note n = queued_nat [OF assms(3)]
  have "lq_contents q ! i = lq_contents q0 ! i" using assms(3) i(1) by (simp add: queued_def nth_append)
  then show "slot 32 bs p = slot 32 m p"
    using lq_contents_nth [OF assms(1) i(1)] lq_contents_nth [OF assms(2), of i] i n by simp
  show "p < lq_D q0" using i lq_wf_nat(2) [OF assms(1)] by simp
qed

lemma shadow_wf:
  assumes "shadow acc0 q0 (s, q, acc)" "lq_wf q0 m"
  obtains bs acc2 where "lq_wf q bs" "queued q0 q acc2" "acc = acc0 @ acc2" "lq_valid q0 \<noteq> 0" "sched_ok s"
    "lq_D q = lq_D q0" "lq_H q = lq_H q0" "lq_head q = lq_head q0" "lq_cq_depth q = lq_cq_depth q0"
  using assms by (auto simp: shadow_def queued_def)

lemma shadow_look:
  assumes "shadow acc0 q0 r" "lq_wf q0 m"
    "\<And>q bs acc. lq_wf q bs \<Longrightarrow> queued q0 q acc \<Longrightarrow> f q bs = Some x"
  obtains r' where "look f r = Some (x, r')" "shadow acc0 q0 r'"
proof -
  have f: "(do { bs \<leftarrow> lq_addr q; f q bs }) = Some x" if sh: "shadow acc0 q0 (s, q, acc)" for s q acc
  proof -
    obtain bs acc2 where q: "lq_wf q bs" "queued q0 q acc2" by (rule shadow_wf [OF sh assms(2)])
    show ?thesis using assms(3) [OF q] lq_wf_nat(5) [OF q(1)] by simp
  qed
  obtain r' where "peek (\<lambda>q. do { bs \<leftarrow> lq_addr q; f q bs }) r = Some (x, r')" "shadow acc0 q0 r'"
    by (rule shadow_peek [OF assms(1) f])
  then show thesis by (intro that [of r']) (simp_all only: look_def)
qed

lemma scan_shadow:
  assumes "shadow acc0 q0 r" "lq_wf q0 m" "\<forall>j. unat pos \<le> j \<and> j < unat pos + n \<longrightarrow> ring_place q0 j"
  shows "\<exists>x r'. match_copy_scan_r para rc pos n s c r = Some (x, r') \<and> match_copy_scan q0 m para rc pos n s c = Some x \<and>
    shadow acc0 q0 r'"
  using assms(1,3)
proof (induction n arbitrary: pos s c r)
  case 0
  then show ?case by simp
next
  case (Suc n)
  note nat = lq_wf_nat [OF assms(2)]
  have lv: "ring_place q0 (unat pos)" using Suc.prems(2) by auto
  then have i: "unat pos < lq_D q0" using nat by (auto simp: ring_place_def)
  let ?x = "slot 32 m (unat pos)"
  note f = scan_fields [OF assms(2) i]
  have same: "unat pos < lq_D q" "slot 32 bs (unat pos) = ?x" if "lq_wf q bs" "queued q0 q acc" for q bs acc
    using queued_slot(1) [OF assms(2) that lv] queued_nat(1) [OF that(2)] i by simp_all
  have fq: "trs_logic_is_cqe_need_match q bs (cqe_off q pos) = Some (cqe_class ?x \<noteq> None)"
    "trs_logic_cq_check_report_cqe bs (cqe_off q pos) = Some ()"
    if "lq_wf q bs" "queued q0 q acc" for q bs acc
    using scan_fields [OF that(1) same(1) [OF that]] same(2) [OF that] by simp_all
  have fm: "trs_logic_is_cqe_match q bs (cqe_off q pos) (rr_stream_id para) (rr_task_id para) = Some (a = rr_rid para)"
    if "lq_wf q bs" "queued q0 q acc" "cqe_class ?x = Some a" for q bs acc a
    using scan_fields(2) [OF that(1) same(1) [OF that(1,2)]] same(2) [OF that(1,2)] that(3) by simp
  obtain r1 where r1: "look (\<lambda>q bs. trs_logic_is_cqe_need_match q bs (cqe_off q pos)) r = Some (cqe_class ?x \<noteq> None, r1)"
    "shadow acc0 q0 r1"
    by (rule shadow_look [OF Suc.prems(1) assms(2) fq(1)])
  have rest: "\<forall>j. unat (pos + 1) \<le> j \<and> j < unat (pos + 1) + n \<longrightarrow> ring_place q0 j"
    using Suc.prems(2) i nat(1) by (simp add: unat_plus_small)
  show ?case
  proof (cases "cqe_class ?x")
    case None
    then show ?thesis using r1 f Suc.IH [OF r1(2) rest] by (cases "rc \<le> c + 1") (auto simp: Let_def)
  next
    case (Some a)
    obtain r2 where r2: "look (\<lambda>q bs. trs_logic_is_cqe_match q bs (cqe_off q pos) (rr_stream_id para) (rr_task_id para)) r1 =
        Some (a = rr_rid para, r2)" "shadow acc0 q0 r2"
      by (rule shadow_look [OF r1(2) assms(2) fm [OF _ _ Some]])
    obtain r3 where r3: "look (\<lambda>q bs. trs_logic_cq_check_report_cqe bs (cqe_off q pos)) r2 = Some ((), r3)" "shadow acc0 q0 r3"
      by (rule shadow_look [OF r2(2) assms(2) fq(2)])
    show ?thesis using Some r1(1) r2 r3 f Suc.IH [OF r2(2) rest] by auto
  qed
qed


section \<open>Moving entries during arrivals\<close>

lemma lq_addr_depth: "lq_cq_depth (q\<lparr>lq_addr := a\<rparr>) = lq_cq_depth q"
  by simp

lemma ring_place_inj:
  fixes H :: nat
  assumes "(H + i) mod D = (H + j) mod D" "i < D" "j < D" "H < D"
  shows "i = j"
  using assms by (auto simp: mod_below_twice split: if_splits)

lemma ring_place_addr [simp]: "ring_place (q\<lparr>lq_addr := a\<rparr>) = ring_place q"
  by (simp add: ring_place_def lq_used_def fun_eq_iff)

lemma lq_wf_mem: "lq_wf q m \<Longrightarrow> length m' = lq_D q * 32 \<Longrightarrow> lq_wf (q\<lparr>lq_addr := Some m'\<rparr>) m'"
  by (simp add: lq_wf_def)

lemma queued_write:
  assumes wf: "lq_wf q0 m" "lq_wf q bs" and qd: "queued q0 q acc" and lv: "ring_place q0 p" and len: "length v = 32"
  obtains m' bs' where "mem_write m (int (p * 32)) v = Some m'" "mem_write bs (int (p * 32)) v = Some bs'"
    "lq_wf (q0\<lparr>lq_addr := Some m'\<rparr>) m'" "lq_wf (q\<lparr>lq_addr := Some bs'\<rparr>) bs'"
    "queued (q0\<lparr>lq_addr := Some m'\<rparr>) (q\<lparr>lq_addr := Some bs'\<rparr>) acc"
proof -
  note n = queued_nat [OF qd]
  note nat = lq_wf_nat [OF wf(1)]
  have p: "p < lq_D q0" by (rule queued_slot(2) [OF wf qd lv])
  obtain m' where m': "mem_write m (int (p * 32)) v = Some m'" "length m' = lq_D q0 * 32"
    "\<And>j. j < lq_D q0 \<Longrightarrow> slot 32 m' j = (if j = p then v else slot 32 m j)"
    by (rule mem_write_slot [OF nat(4) p len]) blast
  obtain bs' where bs': "mem_write bs (int (p * 32)) v = Some bs'" "length bs' = lq_D q * 32"
    "\<And>j. j < lq_D q \<Longrightarrow> slot 32 bs' j = (if j = p then v else slot 32 bs j)"
    by (rule mem_write_slot [OF lq_wf_nat(4) [OF wf(2)] p [folded n(1)] len]) blast
  let ?g = "q0\<lparr>lq_addr := Some m'\<rparr>" and ?q = "q\<lparr>lq_addr := Some bs'\<rparr>"
  have w0: "lq_wf ?g m'" by (rule lq_wf_mem [OF wf(1) m'(2)])
  have w: "lq_wf ?q bs'" by (rule lq_wf_mem [OF wf(2) bs'(2)])
  have u: "lq_used ?g = lq_used q0" "lq_used ?q = lq_used q" by (simp_all add: lq_used_def)
  obtain k where k: "k < lq_used q0" "p = (lq_H q0 + k) mod lq_D q0" using lv by (auto simp: ring_place_def)
  have "lq_contents ?q = lq_contents ?g @ acc"
  proof (rule nth_equalityI)
    show "length (lq_contents ?q) = length (lq_contents ?g @ acc)" using n(3) by (simp add: u)
    fix i assume "i < length (lq_contents ?q)"
    then have i: "i < lq_used q" by (simp add: u)
    then have iD: "i < lq_D q0" using lq_used_less [OF wf(2)] n(1) by simp
    have at: "lq_contents ?q ! i = slot 32 bs' ((lq_H q0 + i) mod lq_D q0)"
      using i by (simp add: lq_contents_nth [OF w] u n)
    have old: "(lq_contents q0 @ acc) ! i = slot 32 bs ((lq_H q0 + i) mod lq_D q0)"
      using qd lq_contents_nth [OF wf(2) i] unfolding queued_def n(1,2) by simp
    have pl: "(lq_H q0 + i) mod lq_D q0 < lq_D q0" using nat(2) by simp
    show "lq_contents ?q ! i = (lq_contents ?g @ acc) ! i"
    proof (cases "i < lq_used q0")
      case True
      then have "lq_contents ?g ! i = slot 32 m' ((lq_H q0 + i) mod lq_D q0)" by (simp add: lq_contents_nth [OF w0] u)
      moreover have "slot 32 bs ((lq_H q0 + i) mod lq_D q0) = slot 32 m ((lq_H q0 + i) mod lq_D q0)"
        using old True lq_contents_nth [OF wf(1) True] by (simp add: nth_append)
      ultimately show ?thesis using at m'(3) [OF pl] bs'(3) [of "(lq_H q0 + i) mod lq_D q0"] pl n(1) True
        by (simp add: nth_append u)
    next
      case False
      have "(lq_H q0 + i) mod lq_D q0 \<noteq> p"
        using ring_place_inj [of "lq_H q0" i "lq_D q0" k] k iD False nat(2) lq_used_less [OF wf(1)] by auto
      then have "lq_contents ?q ! i = (lq_contents q0 @ acc) ! i"
        using at old bs'(3) [of "(lq_H q0 + i) mod lq_D q0"] pl n(1) by simp
      with False show ?thesis by (simp add: nth_append u)
    qed
  qed
  then have "queued ?g ?q acc" using qd w by (auto simp: queued_def)
  with m'(1) bs'(1) w0 w show thesis by (rule that)
qed

lemma shadow_store:
  assumes "shadow acc0 q0 r" "lq_wf q0 m" "ring_place q0 p" "length v = 32"
  obtains m' r' where "mem_write m (int (p * 32)) v = Some m'" "lq_wf (q0\<lparr>lq_addr := Some m'\<rparr>) m'"
    "store (\<lambda>q bs. mem_write bs (int (p * 32)) v) r = Some r'" "shadow acc0 (q0\<lparr>lq_addr := Some m'\<rparr>) r'"
proof -
  obtain m' where m': "mem_write m (int (p * 32)) v = Some m'" "lq_wf (q0\<lparr>lq_addr := Some m'\<rparr>) m'"
    by (rule queued_write [OF assms(2,2) queued_refl [OF assms(2)] assms(3,4)])
  have step: "\<exists>q'. (do { bs \<leftarrow> lq_addr q; bs' \<leftarrow> mem_write bs (int (p * 32)) v; Some (q\<lparr>lq_addr := Some bs'\<rparr>) }) = Some q' \<and>
      shadow acc0 (q0\<lparr>lq_addr := Some m'\<rparr>) (s, q', acc)" if sh: "shadow acc0 q0 (s, q, acc)" for s q acc
  proof -
    obtain bs acc2 where q: "lq_wf q bs" "queued q0 q acc2" "acc = acc0 @ acc2" "lq_valid q0 \<noteq> 0" "sched_ok s"
      by (rule shadow_wf [OF sh assms(2)])
    obtain bs' where w: "mem_write bs (int (p * 32)) v = Some bs'"
      "queued (q0\<lparr>lq_addr := Some m'\<rparr>) (q\<lparr>lq_addr := Some bs'\<rparr>) acc2"
      by (rule queued_write [OF assms(2) q(1,2) assms(3,4)]) (use m'(1) in simp)
    then have "shadow acc0 (q0\<lparr>lq_addr := Some m'\<rparr>) (s, q\<lparr>lq_addr := Some bs'\<rparr>, acc)"
      using q m'(2) by (auto simp: shadow_def)
    then show ?thesis using w(1) lq_wf_nat(5) [OF q(1)] by simp
  qed
  obtain r' where "poke (\<lambda>q. do { bs \<leftarrow> lq_addr q; bs' \<leftarrow> mem_write bs (int (p * 32)) v; Some (q\<lparr>lq_addr := Some bs'\<rparr>) }) r = Some r'"
    "shadow acc0 (q0\<lparr>lq_addr := Some m'\<rparr>) r'"
    by (rule shadow_poke [OF assms(1) step])
  with m' show thesis by (intro that [of m' r']) (simp_all only: store_def)
qed

lemma move_shadow:
  assumes "shadow acc0 q0 r" "lq_wf q0 m" "\<forall>i < n. ring_place q0 (src + i) \<and> ring_place q0 (dst + i)"
  shows "\<exists>r' m'. move_cqes_from_r 32 (int ((src + n) * 32) - 32) (int ((dst + n) * 32) - 32) n r = Some r' \<and>
    move_cqes_from 32 (int ((src + n) * 32) - 32) (int ((dst + n) * 32) - 32) n m = Some m' \<and>
    lq_wf (q0\<lparr>lq_addr := Some m'\<rparr>) m' \<and> shadow acc0 (q0\<lparr>lq_addr := Some m'\<rparr>) r'"
  using assms
proof (induction n arbitrary: q0 m r)
  case 0
  moreover from 0 have "q0\<lparr>lq_addr := Some m\<rparr> = q0" using lq_wf_nat(5) [of q0 m] by simp
  ultimately show ?case by simp
next
  case (Suc n)
  have off: "int ((a + Suc n) * 32) - 32 = int ((a + n) * 32)" for a by (simp add: algebra_simps)
  have lv: "ring_place q0 (src + n)" "ring_place q0 (dst + n)" using Suc.prems(3) by auto
  have in_D: "src + n < lq_D q0" by (rule queued_slot(2) [OF Suc.prems(2,2) queued_refl [OF Suc.prems(2)] lv(1)])
  define v where "v = slot 32 m (src + n)"
  have lenv: "length v = 32" unfolding v_def by (rule length_slot [OF lq_wf_nat(4) [OF Suc.prems(2)] in_D])
  have rd: "mem_read bs (int ((src + n) * 32)) 32 = Some v" if q: "lq_wf q bs" "queued q0 q acc" for q bs acc
  proof -
    have p: "src + n < lq_D q" using in_D queued_nat(1) [OF q(2)] by simp
    have s: "slot 32 bs (src + n) = v" unfolding v_def by (rule queued_slot(1) [OF Suc.prems(2) q lv(1)])
    show ?thesis using mem_read_slot [OF lq_wf_nat(4) [OF q(1)] p, of 0 32] s lenv by simp
  qed
  obtain r1 where r1: "look (\<lambda>q bs. mem_read bs (int ((src + n) * 32)) 32) r = Some (v, r1)" "shadow acc0 q0 r1"
    by (rule shadow_look [OF Suc.prems(1,2) rd])
  obtain m' r2 where w: "mem_write m (int ((dst + n) * 32)) v = Some m'" "lq_wf (q0\<lparr>lq_addr := Some m'\<rparr>) m'"
    "store (\<lambda>q bs. mem_write bs (int ((dst + n) * 32)) v) r1 = Some r2" "shadow acc0 (q0\<lparr>lq_addr := Some m'\<rparr>) r2"
    by (rule shadow_store [OF r1(2) Suc.prems(2) lv(2) lenv])
  have "\<forall>i < n. ring_place (q0\<lparr>lq_addr := Some m'\<rparr>) (src + i) \<and> ring_place (q0\<lparr>lq_addr := Some m'\<rparr>) (dst + i)"
    using Suc.prems(3) by simp
  from Suc.IH [OF w(4,2) this] show ?case
    unfolding off move_cqes_from_r.simps move_cqes_from.simps
    using r1(1) w(1,3) rd [OF Suc.prems(2) queued_refl [OF Suc.prems(2)]] by simp
qed


lemma move_off:
  assumes wf: "lq_wf q bs" and "unat a + unat num \<le> lq_D q" "num \<noteq> 0"
  shows "cqe_off q (a + num - 1) = int ((unat a + unat num) * 32) - 32"
proof -
  have D: "lq_D q \<le> 65536" by (rule lq_wf_nat(1) [OF wf])
  have pos: "0 < unat num" using assms(3) by (simp add: unat_gt_0)
  have "unat (a + num) = unat a + unat num" using assms(2) D by (intro unat_plus_small) linarith
  moreover from this pos have "unat (a + num - 1) = unat a + unat num - 1" by (simp add: unat_minus_small)
  ultimately show ?thesis using pos by (simp add: cqe_off_wf [OF wf] of_nat_diff)
qed

lemma shadow_race_q:
  assumes "shadow acc0 q0 r"
  obtains m bs acc2 where "lq_wf q0 m" "lq_wf (race_q r) bs" "queued q0 (race_q r) acc2" "lq_valid q0 \<noteq> 0"
    "lq_D (race_q r) = lq_D q0" "lq_head (race_q r) = lq_head q0" "lq_cq_depth (race_q r) = lq_cq_depth q0"
  using assms by (cases r) (auto simp: shadow_def queued_def)

lemma move_cqes_shadow:
  assumes sh: "shadow acc0 q0 r" and wf: "lq_wf q0 m"
    and le: "unat src + unat num \<le> lq_D q0" "unat dst + unat num \<le> lq_D q0" and num: "num \<noteq> 0"
    and lv: "\<And>i. i < unat num \<Longrightarrow> ring_place q0 (unat src + i) \<and> ring_place q0 (unat dst + i)"
  obtains r' m' where "move_cqes_r src dst num r = Some r'" "trs_logic_cq_move_cqes q0 src dst num m = Some m'"
    "lq_wf (q0\<lparr>lq_addr := Some m'\<rparr>) m'" "shadow acc0 (q0\<lparr>lq_addr := Some m'\<rparr>) r'"
proof -
  obtain bs acc2 where q: "lq_wf (race_q r) bs" "lq_D (race_q r) = lq_D q0" by (rule shadow_race_q [OF sh])
  have sz: "cqe_struct_size q0 = 32" "cqe_struct_size (race_q r) = 32"
    using wf q(1) by (simp_all add: cqe_struct_size_def lq_wf_def)
  note o = move_off [OF wf le(1) num] move_off [OF wf le(2) num]
    move_off [OF q(1) le(1) [folded q(2)] num] move_off [OF q(1) le(2) [folded q(2)] num]
  obtain r' m' where "move_cqes_r src dst num r = Some r'" "trs_logic_cq_move_cqes q0 src dst num m = Some m'"
    "lq_wf (q0\<lparr>lq_addr := Some m'\<rparr>) m'" "shadow acc0 (q0\<lparr>lq_addr := Some m'\<rparr>) r'"
    using move_shadow [OF sh wf, of "unat num" "unat src" "unat dst"] lv
    unfolding move_cqes_r_def trs_logic_cq_move_cqes_def o sz by blast
  then show thesis by (rule that)
qed

lemma move_cqes_shadow_maybe:
  assumes sh: "shadow acc0 q0 r" and wf: "lq_wf q0 m"
    and le: "unat src + unat num \<le> lq_D q0" "unat dst + unat num \<le> lq_D q0"
    and lv: "\<And>i. i < unat num \<Longrightarrow> ring_place q0 (unat src + i) \<and> ring_place q0 (unat dst + i)"
  obtains r' m' where "(if num = 0 then Some r else move_cqes_r src dst num r) = Some r'"
    "(if num = 0 then Some m else trs_logic_cq_move_cqes q0 src dst num m) = Some m'"
    "lq_wf (q0\<lparr>lq_addr := Some m'\<rparr>) m'" "shadow acc0 (q0\<lparr>lq_addr := Some m'\<rparr>) r'"
proof (cases "num = 0")
  case True
  have "q0\<lparr>lq_addr := Some m\<rparr> = q0" using lq_wf_nat(5) [OF wf] by simp
  with True sh wf show thesis by (intro that [of r m]) simp_all
next
  case False
  obtain r' m' where "move_cqes_r src dst num r = Some r'" "trs_logic_cq_move_cqes q0 src dst num m = Some m'"
    "lq_wf (q0\<lparr>lq_addr := Some m'\<rparr>) m'" "shadow acc0 (q0\<lparr>lq_addr := Some m'\<rparr>) r'"
    by (rule move_cqes_shadow [OF sh wf le False lv])
  with False show thesis by (intro that [of r' m']) simp_all
qed

text \<open>All places from the head to the tail are ring_place.\<close>

lemma ring_place_here: "lq_wf q m \<Longrightarrow> lq_H q \<le> p \<Longrightarrow> p < lq_T q \<Longrightarrow> ring_place q p"
  using lq_wf_nat(2,3) [of q m] lq_used_cases(1) [of q m] by (auto simp: ring_place_def intro!: exI [of _ "p - lq_H q"])

lemma ring_place_wrapped:
  assumes "lq_wf q m" "lq_T q < lq_H q" "p < lq_T q \<or> lq_H q \<le> p \<and> p < lq_D q"
  shows "ring_place q p"
proof (cases "p < lq_T q")
  case True
  then show ?thesis using assms lq_wf_nat(2,3) [OF assms(1)] lq_used_cases(2) [OF assms(1)]
    by (auto simp: ring_place_def intro!: exI [of _ "p + lq_D q - lq_H q"])
next
  case False
  then show ?thesis using assms lq_wf_nat(2,3) [OF assms(1)] lq_used_cases(2) [OF assms(1)]
    by (auto simp: ring_place_def intro!: exI [of _ "p - lq_H q"])
qed

lemma ring_place_first:
  assumes "lq_wf q m" "\<not> trs_logic_cq_is_empty q" "lq_H q \<le> p" "p < lq_H q + lq_first q"
  shows "ring_place q p"
proof (cases "lq_head q < lq_tail q")
  case True
  with assms show ?thesis by (intro ring_place_here [OF assms(1)]) (auto simp: lq_first_def word_less_nat_alt)
next
  case False
  then have "lq_T q < lq_H q" using assms(2) by (auto simp: trs_logic_cq_is_empty_def word_less_nat_alt word_unat_eq_iff)
  with False assms show ?thesis by (intro ring_place_wrapped [OF assms(1)]) (auto simp: lq_first_def)
qed

lemma eliminate_shadow_here:
  assumes sh: "shadow acc0 q0 r" and wf: "lq_wf q0 m" and ne: "\<not> trs_logic_cq_is_empty q0"
    and le: "lq_H q0 \<le> unat start" "unat start + unat n \<le> lq_H q0 + lq_first q0"
  shows "\<exists>r' m'. eliminate_holes_r start n False r = Some r' \<and>
    trs_logic_cq_eliminate_holes q0 start n False m = Some m' \<and>
    lq_wf (q0\<lparr>lq_addr := Some m'\<rparr>) m' \<and> shadow acc0 (q0\<lparr>lq_addr := Some m'\<rparr>) r'"
proof -
  note nat = lq_wf_nat [OF wf]
  have fit: "lq_H q0 + lq_first q0 \<le> lq_D q0" using nat by (auto simp: lq_first_def word_less_nat_alt)
  have head: "lq_head (race_q r) = lq_head q0" by (rule shadow_race_q [OF sh])
  let ?num = "start - lq_head q0"
  have un: "unat ?num = unat start - lq_H q0" using le(1) by (rule unat_minus_small)
  have ud: "unat (lq_head q0 + n) = lq_H q0 + unat n" using le fit nat by (intro unat_plus_small) linarith
  have "lq_H q0 + unat ?num \<le> lq_D q0" "unat (lq_head q0 + n) + unat ?num \<le> lq_D q0" using un ud le fit by linarith+
  moreover have "ring_place q0 (lq_H q0 + i) \<and> ring_place q0 (unat (lq_head q0 + n) + i)" if "i < unat ?num" for i
    using that un ud le by (auto intro!: ring_place_first [OF wf ne])
  ultimately obtain r' m' where
    "(if ?num = 0 then Some r else move_cqes_r (lq_head q0) (lq_head q0 + n) ?num r) = Some r'"
    "(if ?num = 0 then Some m else trs_logic_cq_move_cqes q0 (lq_head q0) (lq_head q0 + n) ?num m) = Some m'"
    "lq_wf (q0\<lparr>lq_addr := Some m'\<rparr>) m'" "shadow acc0 (q0\<lparr>lq_addr := Some m'\<rparr>) r'"
    by (rule move_cqes_shadow_maybe [OF sh wf])
  then show ?thesis
    by (intro exI [of _ r'] exI [of _ m']) (simp add: eliminate_holes_r_def trs_logic_cq_eliminate_holes_def head Let_def split: if_splits)
qed

lemma eliminate_shadow_wrapped:
  assumes sh: "shadow acc0 q0 r" and wf: "lq_wf q0 m"
    and le: "unat start + unat n \<le> lq_T q0" "lq_T q0 < lq_H q0" "n \<noteq> 0"
  shows "\<exists>r' m'. eliminate_holes_r start n True r = Some r' \<and>
    trs_logic_cq_eliminate_holes q0 start n True m = Some m' \<and>
    lq_wf (q0\<lparr>lq_addr := Some m'\<rparr>) m' \<and> shadow acc0 (q0\<lparr>lq_addr := Some m'\<rparr>) r'"
proof -
  note nat = lq_wf_nat [OF wf]
  have head: "lq_head (race_q r) = lq_head q0" "lq_cq_depth (race_q r) = lq_cq_depth q0" by (rule shadow_race_q [OF sh], simp)+
  define k1 where "k1 = min n (lq_cq_depth q0 - lq_head q0)"
  define k2 where "k2 = lq_cq_depth q0 - lq_head q0 - k1"
  have dh: "unat (lq_cq_depth q0 - lq_head q0) = lq_D q0 - lq_H q0" using nat by (intro unat_minus_small) simp
  have u1: "unat k1 = min (unat n) (lq_D q0 - lq_H q0)" by (simp add: k1_def min_def word_le_nat_alt dh)
  have u2: "unat k2 = lq_D q0 - lq_H q0 - unat k1" using u1 by (simp add: k2_def unat_minus_small dh)
  have ud1: "unat (lq_cq_depth q0 - k1) = lq_D q0 - unat k1" using u1 nat by (intro unat_minus_small) linarith
  have un1: "unat (n - k1) = unat n - unat k1" using u1 by (intro unat_minus_small) simp
  have ud2: "unat (lq_cq_depth q0 - k2) = lq_D q0 - unat k2" using u2 by (intro unat_minus_small) linarith
  have k0: "k1 \<noteq> 0" using u1 le(3) nat(2) by (auto simp: unat_eq_0 [symmetric])
  note ring_place = ring_place_wrapped [OF wf le(2)]
  have "unat (0 :: u32) + unat start \<le> lq_D q0" "unat n + unat start \<le> lq_D q0" using le nat by simp_all
  moreover have "ring_place q0 (unat (0 :: u32) + i) \<and> ring_place q0 (unat n + i)" if "i < unat start" for i
    using that le nat by (auto intro!: ring_place)
  ultimately obtain r1 m1 where 1: "(if start = 0 then Some r else move_cqes_r 0 n start r) = Some r1"
    "(if start = 0 then Some m else trs_logic_cq_move_cqes q0 0 n start m) = Some m1"
    "lq_wf (q0\<lparr>lq_addr := Some m1\<rparr>) m1" "shadow acc0 (q0\<lparr>lq_addr := Some m1\<rparr>) r1"
    by (rule move_cqes_shadow_maybe [OF sh wf])
  have "unat (lq_cq_depth q0 - k1) + unat k1 \<le> lq_D (q0\<lparr>lq_addr := Some m1\<rparr>)"
    "unat (n - k1) + unat k1 \<le> lq_D (q0\<lparr>lq_addr := Some m1\<rparr>)"
    unfolding lq_addr_depth using le nat u1 ud1 un1 by linarith+
  moreover have "ring_place (q0\<lparr>lq_addr := Some m1\<rparr>) (unat (lq_cq_depth q0 - k1) + i) \<and>
      ring_place (q0\<lparr>lq_addr := Some m1\<rparr>) (unat (n - k1) + i)" if "i < unat k1" for i
  proof -
    have "lq_H q0 \<le> unat (lq_cq_depth q0 - k1) + i" "unat (lq_cq_depth q0 - k1) + i < lq_D q0" "unat (n - k1) + i < lq_T q0"
      using that le nat(2) u1 ud1 un1 by linarith+
    then show ?thesis unfolding ring_place_addr by (blast intro: ring_place)
  qed
  ultimately obtain r2 m2 where 2: "move_cqes_r (lq_cq_depth q0 - k1) (n - k1) k1 r1 = Some r2"
    "trs_logic_cq_move_cqes (q0\<lparr>lq_addr := Some m1\<rparr>) (lq_cq_depth q0 - k1) (n - k1) k1 m1 = Some m2"
    "lq_wf (q0\<lparr>lq_addr := Some m1\<rparr>\<lparr>lq_addr := Some m2\<rparr>) m2"
    "shadow acc0 (q0\<lparr>lq_addr := Some m1\<rparr>\<lparr>lq_addr := Some m2\<rparr>) r2"
    using move_cqes_shadow [OF 1(4,3) _ _ k0] by blast
  have 2: "trs_logic_cq_move_cqes q0 (lq_cq_depth q0 - k1) (n - k1) k1 m1 = Some m2"
    "move_cqes_r (lq_cq_depth q0 - k1) (n - k1) k1 r1 = Some r2"
    "shadow acc0 (q0\<lparr>lq_addr := Some m2\<rparr>) r2" "lq_wf (q0\<lparr>lq_addr := Some m2\<rparr>) m2"
    using 2 by simp_all
  have "lq_H q0 + unat k2 \<le> lq_D (q0\<lparr>lq_addr := Some m2\<rparr>)"
    "unat (lq_cq_depth q0 - k2) + unat k2 \<le> lq_D (q0\<lparr>lq_addr := Some m2\<rparr>)"
    unfolding lq_addr_depth using le nat u1 u2 ud2 by linarith+
  moreover have "ring_place (q0\<lparr>lq_addr := Some m2\<rparr>) (lq_H q0 + i) \<and>
      ring_place (q0\<lparr>lq_addr := Some m2\<rparr>) (unat (lq_cq_depth q0 - k2) + i)" if "i < unat k2" for i
  proof -
    have "lq_H q0 + i < lq_D q0" "lq_H q0 \<le> unat (lq_cq_depth q0 - k2) + i" "unat (lq_cq_depth q0 - k2) + i < lq_D q0"
      using that le nat(2) u1 u2 ud2 by linarith+
    then show ?thesis unfolding ring_place_addr by (blast intro: ring_place le_add1)
  qed
  ultimately obtain r3 m3 where
    "(if k2 = 0 then Some r2 else move_cqes_r (lq_head q0) (lq_cq_depth q0 - k2) k2 r2) = Some r3"
    "(if k2 = 0 then Some m2 else trs_logic_cq_move_cqes (q0\<lparr>lq_addr := Some m2\<rparr>) (lq_head q0) (lq_cq_depth q0 - k2) k2 m2) = Some m3"
    "lq_wf (q0\<lparr>lq_addr := Some m2\<rparr>\<lparr>lq_addr := Some m3\<rparr>) m3"
    "shadow acc0 (q0\<lparr>lq_addr := Some m2\<rparr>\<lparr>lq_addr := Some m3\<rparr>) r3"
    by (rule move_cqes_shadow_maybe [OF 2(3,4)])
  with 1(1,2) 2(1,2) show ?thesis
    by (intro exI [of _ r3] exI [of _ m3])
      (simp add: eliminate_holes_r_def trs_logic_cq_eliminate_holes_def head Let_def k1_def [symmetric] k2_def [symmetric]
        del: right_minus_eq split: if_splits)
qed


section \<open>Choosing and delivering during arrivals\<close>

lemma range_shadow:
  assumes sh: "shadow acc0 q0 r" and wf: "lq_wf q0 m" and le: "unat a \<le> unat b"
    and lv: "\<And>p. unat a \<le> p \<Longrightarrow> p < unat b \<Longrightarrow> ring_place q0 p"
  obtains s n r' where "match_copy_range_r para a b r = Some ((s, n), r')"
    "trs_logic_cq_get_match_copy_range q0 m para a b = Some (s, n)" "shadow acc0 q0 r'"
proof -
  have "unat (b - a) = unat b - unat a" using le by (rule unat_minus_small)
  then have "\<forall>j. unat a \<le> j \<and> j < unat a + unat (b - a) \<longrightarrow> ring_place q0 j" using lv le by simp
  from scan_shadow [OF sh wf this] obtain x r' where "match_copy_range_r para a b r = Some (x, r')"
    "trs_logic_cq_get_match_copy_range q0 m para a b = Some x" "shadow acc0 q0 r'"
    unfolding match_copy_range_r_def trs_logic_cq_get_match_copy_range_def Let_def by blast
  then show thesis by (intro that [of "fst x" "snd x" r']) simp_all
qed

lemma range_bounds:
  assumes "lq_wf q bs" "unat a \<le> unat b" "unat b \<le> lq_D q" "rr_cqe_num para \<noteq> 0"
    and "trs_logic_cq_get_match_copy_range q bs para a b = Some (s, n)" "n \<noteq> 0"
  shows "unat a \<le> unat s" "unat s + unat n \<le> unat b"
proof -
  obtain s0 n0 where pk: "pick (rr_rid para) (unat (rr_cqe_num para)) (slots_from bs (unat a) (unat b - unat a)) = (s0, n0)"
    by fastforce
  have "(s, n) = (if n0 = 0 then 0 else a + of_nat s0, of_nat n0)"
    using match_copy_range_wf [OF assms(1-4) pk] assms(5) by simp
  then have eq: "s = a + of_nat s0" "n = of_nat n0" using assms(6) by (auto split: if_splits)
  have b: "s0 + n0 \<le> unat b - unat a" using pick_bounds [OF pk] by simp
  have D: "lq_D q \<le> 65536" by (rule lq_wf_nat(1) [OF assms(1)])
  have "unat (of_nat s0 :: u32) = s0" "unat n = n0" using b assms(3) D eq by (simp_all add: unat_of_nat)
  moreover from this have "unat s = unat a + s0" using b assms(2,3) D eq by (simp add: unat_plus_small)
  ultimately show "unat a \<le> unat s" "unat s + unat n \<le> unat b" using b assms(2) by simp_all
qed

text \<open>What \<^verbatim>\<open>trs_logic_cq_match_copy\<close> chooses.\<close>

definition match_choice :: "trs_logic_cq \<Rightarrow> u8 list \<Rightarrow> halReportRecvInfo \<Rightarrow> (u32 \<times> u32 \<times> bool) option" where
  "match_choice q bs para =
     (if lq_tail q > lq_head q
      then do {
        (s, n) \<leftarrow> trs_logic_cq_get_match_copy_range q bs para (lq_head q) (lq_tail q);
        Some (s, n, False)
      }
      else do {
        (s, n) \<leftarrow> trs_logic_cq_get_match_copy_range q bs para (lq_head q) (lq_cq_depth q);
        if n = 0
        then do {
          (s', n') \<leftarrow> trs_logic_cq_get_match_copy_range q bs para 0 (lq_tail q);
          Some (s', n', True)
        }
        else Some (s, n, False)
      })"

lemma match_copy_choice_eq:
  "lq_addr q = Some bs \<Longrightarrow> trs_logic_cq_match_copy e k q para out = do {
     (start, report_cnt, rollback) \<leftarrow> match_choice q bs para;
     if report_cnt = 0 then Some (- EAGAIN, para, q, out)
     else match_copy_deliver e k q bs para start report_cnt rollback out
   }"
  by (simp add: trs_logic_cq_match_copy_def match_copy_at_def match_choice_def)

text \<open>The segment chosen lies in front of the tail, or behind the wrap when \<open>rb\<close> is set.\<close>

definition in_ring :: "trs_logic_cq \<Rightarrow> u32 \<Rightarrow> u32 \<Rightarrow> bool \<Rightarrow> bool" where
  "in_ring q start n rb \<longleftrightarrow>
     (if rb then lq_T q < lq_H q \<and> unat start + unat n \<le> lq_T q
      else lq_H q \<le> unat start \<and> unat start + unat n \<le> lq_H q + lq_first q)"

lemma choose_shadow:
  assumes sh: "shadow acc0 q0 r" and wf: "lq_wf q0 m" and ne: "\<not> trs_logic_cq_is_empty q0" and K: "rr_cqe_num para \<noteq> 0"
  obtains s n rb r' where "match_copy_choose_r (lq_tail q0) para r = Some ((s, n, rb), r')"
    "match_choice q0 m para = Some (s, n, rb)" "shadow acc0 q0 r'" "n \<noteq> 0 \<Longrightarrow> in_ring q0 s n rb"
proof -
  note nat = lq_wf_nat [OF wf]
  have head: "lq_head (race_q r) = lq_head q0" "lq_cq_depth (race_q r) = lq_cq_depth q0" by (rule shadow_race_q [OF sh], simp)+
  show thesis
  proof (cases "lq_head q0 < lq_tail q0")
    case True
    then have le: "lq_H q0 \<le> lq_T q0" by (simp add: word_less_nat_alt)
    obtain s n r' where r: "match_copy_range_r para (lq_head q0) (lq_tail q0) r = Some ((s, n), r')"
      "trs_logic_cq_get_match_copy_range q0 m para (lq_head q0) (lq_tail q0) = Some (s, n)" "shadow acc0 q0 r'"
      by (rule range_shadow [OF sh wf le ring_place_here [OF wf], of para])
    show thesis
    proof (rule that [of s n False r'])
      show "in_ring q0 s n False" if "n \<noteq> 0"
        using range_bounds [OF wf le _ K r(2) that] nat(3) True le by (simp add: in_ring_def lq_first_def)
    qed (use True r in \<open>simp_all add: match_copy_choose_r_def match_choice_def head\<close>)
  next
    case False
    then have HT: "lq_T q0 < lq_H q0" using ne by (auto simp: trs_logic_cq_is_empty_def word_less_nat_alt word_unat_eq_iff)
    have lv: "ring_place q0 p" if "p < lq_T q0 \<or> lq_H q0 \<le> p \<and> p < lq_D q0" for p using ring_place_wrapped [OF wf HT that] .
    obtain s n r1 where r1: "match_copy_range_r para (lq_head q0) (lq_cq_depth q0) r = Some ((s, n), r1)"
      "trs_logic_cq_get_match_copy_range q0 m para (lq_head q0) (lq_cq_depth q0) = Some (s, n)" "shadow acc0 q0 r1"
      by (rule range_shadow [OF sh wf, of "lq_head q0" "lq_cq_depth q0" para])
        (use nat(2) lv in \<open>auto simp del: not_less\<close>)
    obtain s' n' r2 where r2: "match_copy_range_r para 0 (lq_tail q0) r1 = Some ((s', n'), r2)"
      "trs_logic_cq_get_match_copy_range q0 m para 0 (lq_tail q0) = Some (s', n')" "shadow acc0 q0 r2"
      by (rule range_shadow [OF r1(3) wf, of 0 "lq_tail q0" para]) (use lv in \<open>auto simp del: not_less\<close>)
    show thesis
    proof (cases "n = 0")
      case True
      show thesis
      proof (rule that [of s' n' True r2])
        show "in_ring q0 s' n' True" if "n' \<noteq> 0"
          using range_bounds(2) [OF wf _ _ K r2(2) that] nat(3) HT by (simp add: in_ring_def)
      qed (use False True r1(1,2) r2 in \<open>simp_all add: match_copy_choose_r_def match_choice_def head\<close>)
    next
      case n: False
      show thesis
      proof (rule that [of s n False r1])
        show "in_ring q0 s n False" if "n \<noteq> 0"
          using range_bounds [OF wf _ _ K r1(2) that] nat(2) False by (simp add: in_ring_def lq_first_def)
      qed (use False n r1 in \<open>simp_all add: match_copy_choose_r_def match_choice_def head\<close>)
    qed
  qed
qed

lemma user_copy_shadow:
  assumes "shadow acc0 q0 r" "lq_wf q0 m" "\<forall>i < n. ring_place q0 (p + i)"
  shows "\<exists>r'. user_copy_r 32 (int (p * 32)) n r = Some (concat (slots_from m p n), r') \<and> shadow acc0 q0 r'"
  using assms(1,3)
proof (induction n arbitrary: p r)
  case 0
  then show ?case by simp
next
  case (Suc n)
  have lv: "ring_place q0 p" "\<forall>i < n. ring_place q0 (Suc p + i)" using Suc.prems(2) [rule_format, of 0] Suc.prems(2) [rule_format, of "Suc i" for i]
    by simp_all
  have pD: "p < lq_D q0" by (rule queued_slot(2) [OF assms(2,2) queued_refl [OF assms(2)] lv(1)])
  have rd: "mem_read bs (int (p * 32)) 32 = Some (slot 32 m p)" if q: "lq_wf q bs" "queued q0 q acc" for q bs acc
  proof -
    have pq: "p < lq_D q" using pD queued_nat(1) [OF q(2)] by simp
    show ?thesis
      using mem_read_slot [OF lq_wf_nat(4) [OF q(1)] pq, of 0 32] queued_slot(1) [OF assms(2) q lv(1)]
        length_slot [OF lq_wf_nat(4) [OF assms(2)] pD] by simp
  qed
  obtain r1 where r1: "look (\<lambda>q bs. mem_read bs (int (p * 32)) 32) r = Some (slot 32 m p, r1)" "shadow acc0 q0 r1"
    by (rule shadow_look [OF Suc.prems(1) assms(2) rd])
  have "int (p * 32) + int 32 = int (Suc p * 32)" by simp
  with Suc.IH [OF r1(2) lv(2)] obtain r2 where r2:
    "user_copy_r 32 (int (p * 32) + int 32) n r1 = Some (concat (slots_from m (Suc p) n), r2)" "shadow acc0 q0 r2"
    by (simp only:) blast
  with r1(1) show ?case
    by (intro exI [of _ r2]) (simp only: user_copy_r.simps slots_from.simps concat.simps Option.bind_lunit prod.case simp_thms)
qed

lemma in_ring_place:
  assumes "lq_wf q m" "\<not> trs_logic_cq_is_empty q" "in_ring q start n rb" "i < unat n"
  shows "ring_place q (unat start + i)"
  using assms ring_place_first [OF assms(1,2), of "unat start + i"] ring_place_wrapped [OF assms(1), of "unat start + i"]
  by (auto simp: in_ring_def split: if_splits)

lemma in_ring_fits:
  assumes "lq_wf q m" "in_ring q start n rb"
  shows "unat start + unat n \<le> lq_D q"
  using assms lq_wf_nat(2,3) [OF assms(1)] by (auto simp: in_ring_def lq_first_def word_less_nat_alt split: if_splits)

lemma in_ring_used:
  assumes "lq_wf q m" "\<not> trs_logic_cq_is_empty q" "in_ring q start n rb"
  shows "unat n \<le> lq_used q"
  using assms lq_contents_split(1) [OF assms(1,2)] lq_used_cases(2) [OF assms(1)] lq_wf_nat(2) [OF assms(1)]
  by (auto simp: in_ring_def split: if_splits)

lemma cqes_to_user_shadow:
  assumes sh: "shadow acc0 q0 r" and wf: "lq_wf q0 m" and ne: "\<not> trs_logic_cq_is_empty q0" and i: "in_ring q0 start n rb"
  obtains ret out' r' where "cqes_to_user_r e k para start n out r = Some ((ret, out'), r')"
    "cqes_to_user e k q0 m para start n out = Some (ret, out')" "shadow acc0 q0 r'"
proof -
  obtain bs where q: "lq_wf (race_q r) bs" by (rule shadow_race_q [OF sh])
  have off: "cqe_off (race_q r) start = int (unat start * 32)" by (rule cqe_off_wf [OF q])
  have sz: "unat (lq_cqe_size (race_q r)) = 32" using q by (simp add: lq_wf_def)
  have "\<forall>i < unat n. ring_place q0 (unat start + i)" using in_ring_place [OF wf ne i] by blast
  then obtain r' where "user_copy_r 32 (int (unat start * 32)) (unat n) r = Some (concat (slots_from m (unat start) (unat n)), r')"
    "shadow acc0 q0 r'"
    using user_copy_shadow [OF sh wf] by blast
  then show thesis
    by (intro that) (simp_all only: cqes_to_user_r_def off sz cqes_to_user_wf [OF wf in_ring_fits [OF wf i]] Let_def
        Option.bind_lunit prod.case)
qed


lemma eliminate_shadow:
  assumes sh: "shadow acc0 q0 r" and wf: "lq_wf q0 m" and ne: "\<not> trs_logic_cq_is_empty q0"
    and i: "in_ring q0 start n rb" and n: "n \<noteq> 0"
  obtains r' m' where "eliminate_holes_r start n rb r = Some r'" "trs_logic_cq_eliminate_holes q0 start n rb m = Some m'"
    "lq_wf (q0\<lparr>lq_addr := Some m'\<rparr>) m'" "shadow acc0 (q0\<lparr>lq_addr := Some m'\<rparr>) r'"
proof (cases rb)
  case True
  with i have "unat start + unat n \<le> lq_T q0" "lq_T q0 < lq_H q0" by (simp_all add: in_ring_def)
  from eliminate_shadow_wrapped [OF sh wf this n] True that show thesis by simp blast
next
  case False
  with i have "lq_H q0 \<le> unat start" "unat start + unat n \<le> lq_H q0 + lq_first q0" by (simp_all add: in_ring_def)
  from eliminate_shadow_here [OF sh wf ne this] False that show thesis by simp blast
qed

text \<open>What the copying functions of the racing and of the sequential receive have in common.\<close>

definition copy_agrees ::
    "u8 list list \<Rightarrow> trs_logic_cq \<Rightarrow> ((int \<times> halReportRecvInfo \<times> lq_out) \<times> race) option \<Rightarrow>
     (int \<times> halReportRecvInfo \<times> trs_logic_cq \<times> lq_out) option \<Rightarrow> bool" where
  "copy_agrees acc0 q0 racing sequential \<longleftrightarrow>
     (\<exists>ret para out r m. racing = Some ((ret, para, out), r) \<and>
        sequential = Some (ret, para, q0\<lparr>lq_addr := Some m\<rparr>, out) \<and>
        lq_wf (q0\<lparr>lq_addr := Some m\<rparr>) m \<and> shadow acc0 (q0\<lparr>lq_addr := Some m\<rparr>) r \<and>
        (ret = 0 \<longrightarrow> unat (rr_report_cqe_num para) \<le> lq_used q0))"

lemma copy_agreesI:
  assumes "racing = Some ((ret, para, out), r)" "sequential = Some (ret, para, q0, out)" "lq_wf q0 m" "shadow acc0 q0 r"
    "ret = 0 \<Longrightarrow> unat (rr_report_cqe_num para) \<le> lq_used q0"
  shows "copy_agrees acc0 q0 racing sequential"
proof -
  have "q0\<lparr>lq_addr := Some m\<rparr> = q0" using lq_wf_nat(5) [OF assms(3)] by simp
  with assms show ?thesis unfolding copy_agrees_def by metis
qed

lemma deliver_agrees:
  assumes sh: "shadow acc0 q0 r" and wf: "lq_wf q0 m" and ne: "\<not> trs_logic_cq_is_empty q0"
    and i: "in_ring q0 start n rb" and n: "n \<noteq> 0"
  shows "copy_agrees acc0 q0 (match_copy_deliver_r e k para start n rb out r) (match_copy_deliver e k q0 m para start n rb out)"
proof -
  obtain ret out' r1 where u: "cqes_to_user_r e k para start n out r = Some ((ret, out'), r1)"
    "cqes_to_user e k q0 m para start n out = Some (ret, out')" "shadow acc0 q0 r1"
    by (rule cqes_to_user_shadow [OF sh wf ne i])
  have used: "unat n \<le> lq_used q0" by (rule in_ring_used [OF wf ne i])
  have head: "lq_head (race_q r1) = lq_head q0" by (rule shadow_race_q [OF u(3)])
  have addr: "q0\<lparr>lq_addr := Some m\<rparr> = q0" using lq_wf_nat(5) [OF wf] by simp
  show ?thesis
  proof (cases "ret \<noteq> 0")
    case True
    then show ?thesis
      by (intro copy_agreesI [OF _ _ wf u(3), of _ ret para out']) (simp_all add: match_copy_deliver_r_def match_copy_deliver_def u)
  next
    case ok: False
    show ?thesis
    proof (cases "lq_head q0 = start")
      case True
      with ok used addr show ?thesis
        by (intro copy_agreesI [OF _ _ wf u(3), of _ 0 "para\<lparr>rr_report_cqe_num := n\<rparr>" out'])
          (simp_all add: match_copy_deliver_r_def match_copy_deliver_def u head)
    next
      case False
      obtain r2 m' where "eliminate_holes_r start n rb r1 = Some r2" "trs_logic_cq_eliminate_holes q0 start n rb m = Some m'"
        "lq_wf (q0\<lparr>lq_addr := Some m'\<rparr>) m'" "shadow acc0 (q0\<lparr>lq_addr := Some m'\<rparr>) r2"
        by (rule eliminate_shadow [OF u(3) wf ne i n])
      with ok False used show ?thesis unfolding copy_agrees_def
        by (intro exI [of _ 0] exI [of _ "para\<lparr>rr_report_cqe_num := n\<rparr>"] exI [of _ out'] exI [of _ r2] exI [of _ m'])
          (simp add: match_copy_deliver_r_def match_copy_deliver_def u head)
    qed
  qed
qed

text \<open>The tail is read at a moment when nothing has arrived since: this is where the receive takes effect.\<close>

lemma match_copy_agrees:
  assumes i: "interleave r = Some (s, q0, acc0)" and sh: "shadow acc0 q0 (s, q0, acc0)"
    and wf: "lq_wf q0 m" and ne: "\<not> trs_logic_cq_is_empty q0" and K: "rr_cqe_num para \<noteq> 0"
  shows "copy_agrees acc0 q0 (match_copy_r e k para out r) (trs_logic_cq_match_copy e k q0 para out)"
proof -
  obtain st n rb r1 where c: "match_copy_choose_r (lq_tail q0) para (s, q0, acc0) = Some ((st, n, rb), r1)"
    "match_choice q0 m para = Some (st, n, rb)" "shadow acc0 q0 r1" "n \<noteq> 0 \<Longrightarrow> in_ring q0 st n rb"
    by (rule choose_shadow [OF sh wf ne K]) blast
  have eq: "match_copy_r e k para out r =
      (if n = 0 then Some ((- EAGAIN, para, out), r1) else match_copy_deliver_r e k para st n rb out r1)"
    by (simp add: match_copy_r_def peek_def i c(1))
  have eq': "trs_logic_cq_match_copy e k q0 para out =
      (if n = 0 then Some (- EAGAIN, para, q0, out) else match_copy_deliver e k q0 m para st n rb out)"
    by (simp add: match_copy_choice_eq [OF lq_wf_nat(5) [OF wf]] c(2))
  show ?thesis
  proof (cases "n = 0")
    case True
    then show ?thesis unfolding eq eq' by (intro copy_agreesI [OF _ _ wf c(3), of _ "- EAGAIN" para out]) simp_all
  next
    case False
    then show ?thesis unfolding eq eq' using deliver_agrees [OF c(3) wf ne c(4) [OF False] False] by simp
  qed
qed

lemma non_match_agrees:
  assumes i: "interleave r = Some (s, q0, acc0)" and sh: "shadow acc0 q0 (s, q0, acc0)"
    and wf: "lq_wf q0 m" and ne: "\<not> trs_logic_cq_is_empty q0"
  shows "copy_agrees acc0 q0 (non_match_copy_r e k para out r) (trs_logic_cq_non_match_copy e k q0 para out)"
proof -
  define n where "n = (if lq_tail q0 > lq_head q0 then lq_tail q0 - lq_head q0 else lq_cq_depth q0 - lq_head q0)"
  have un: "unat n = lq_first q0"
    using lq_wf_nat(2) [OF wf] by (auto simp: n_def lq_first_def word_less_nat_alt intro!: unat_minus_small)
  have ring: "in_ring q0 (lq_head q0) n False" by (simp only: in_ring_def un) simp
  obtain ret out' r1 where u: "cqes_to_user_r e k para (lq_head q0) n out (s, q0, acc0) = Some ((ret, out'), r1)"
    "cqes_to_user e k q0 m para (lq_head q0) n out = Some (ret, out')" "shadow acc0 q0 r1"
    by (rule cqes_to_user_shadow [OF sh wf ne ring])
  have used: "unat n \<le> lq_used q0" by (rule in_ring_used [OF wf ne ring])
  have eq: "non_match_copy_r e k para out r =
      Some (if ret \<noteq> 0 then (ret, para, out') else (0, para\<lparr>rr_report_cqe_num := n\<rparr>, out'), r1)"
    using u(1) by (cases "lq_head q0 < lq_tail q0") (simp_all add: non_match_copy_r_def peek_def i Let_def n_def)
  have eq': "trs_logic_cq_non_match_copy e k q0 para out =
      Some (if ret \<noteq> 0 then (ret, para, q0, out') else (0, para\<lparr>rr_report_cqe_num := n\<rparr>, q0, out'))"
    using u(2) by (cases "lq_head q0 < lq_tail q0")
      (simp_all add: trs_logic_cq_non_match_copy_def lq_wf_nat(5) [OF wf] Let_def n_def)
  show ?thesis
  proof (cases "ret = 0")
    case True
    then show ?thesis unfolding eq eq' using used
      by (intro copy_agreesI [OF _ _ wf u(3), of _ 0 "para\<lparr>rr_report_cqe_num := n\<rparr>" out']) simp_all
  next
    case False
    then show ?thesis unfolding eq eq' by (intro copy_agreesI [OF _ _ wf u(3), of _ ret para out']) simp_all
  qed
qed

lemma advance_queued:
  assumes wf: "lq_wf q bs" and c: "unat c \<le> lq_used q"
  defines "q' \<equiv> q\<lparr>lq_head := (lq_head q + c) mod lq_cq_depth q\<rparr>"
  shows "lq_wf q' bs" "lq_contents q' = drop (unat c) (lq_contents q)"
proof -
  have "hole_closed (lq_D q) (lq_H q) 0 (unat c) (slot 32 bs) (slot 32 bs)" by (simp add: hole_closed_def)
  note r = lq_contents_removed [OF wf this lq_wf_nat(4) [OF wf]]
  have "q\<lparr>lq_addr := Some bs\<rparr> = q" using lq_wf_nat(5) [OF wf] by simp
  with r c show "lq_wf q' bs" "lq_contents q' = drop (unat c) (lq_contents q)" by (simp_all add: q'_def)
qed

lemma advance_shadow:
  assumes sh: "shadow acc0 q0 r" and wf: "lq_wf q0 m" and c: "unat c \<le> lq_used q0"
  defines "adv \<equiv> \<lambda>q. q\<lparr>lq_head := (lq_head q + c) mod lq_cq_depth q\<rparr>"
  obtains r' where "poke (\<lambda>q. Some (adv q)) r = Some r'" "shadow acc0 (adv q0) r'"
proof -
  have adv: "adv q = q\<lparr>lq_head := (lq_head q + c) mod lq_cq_depth q\<rparr>" for q by (simp add: adv_def)
  note a0 = advance_queued [OF wf c, folded adv]
  have step: "\<exists>q'. Some (adv q) = Some q' \<and> shadow acc0 (adv q0) (s, q', acc)" if s: "shadow acc0 q0 (s, q, acc)" for s q acc
  proof -
    obtain bs acc2 where q: "lq_wf q bs" "queued q0 q acc2" "acc = acc0 @ acc2" "lq_valid q0 \<noteq> 0" "sched_ok s"
      by (rule shadow_wf [OF s wf])
    have cq: "unat c \<le> lq_used q" using c queued_nat(3) [OF q(2)] by simp
    note a = advance_queued [OF q(1) cq, folded adv]
    have "lq_contents (adv q) = lq_contents (adv q0) @ acc2"
      using q(2) c unfolding a(2) a0(2) by (simp add: queued_def)
    moreover have "lq_valid (adv q) = lq_valid (adv q0)" "lq_cq_depth (adv q) = lq_cq_depth (adv q0)"
      "lq_head (adv q) = lq_head (adv q0)" "lq_valid (adv q0) \<noteq> 0"
      using q(2,4) by (simp_all add: queued_def adv_def)
    ultimately show ?thesis using a(1) a0(1) q(3,5) by (auto simp: shadow_def queued_def)
  qed
  obtain r' where "poke (\<lambda>q. Some (adv q)) r = Some r'" "shadow acc0 (adv q0) r'"
  proof (rule shadow_poke [OF sh])
    show "\<exists>q'. Some (adv q) = Some q' \<and> shadow acc0 (adv q0) (s, q', acc)" if "shadow acc0 q0 (s, q, acc)" for s q acc
      by (rule step [OF that])
  qed
  then show thesis by (rule that)
qed


section \<open>The whole receive\<close>

definition arrived :: "arrivals list \<Rightarrow> trs_logic_cq \<Rightarrow> race \<Rightarrow> bool" where
  "arrived sched q r \<longleftrightarrow>
     (case r of (s, q', acc) \<Rightarrow> \<exists>pre. sched = pre @ s \<and> arrive (concat pre) q = Some (q', acc))"

lemma arrived_interleave:
  assumes wf: "lq_wf q bs" and v: "lq_valid q \<noteq> 0" and ok: "sched_ok sched" and r: "arrived sched q r"
  obtains s q' acc where "interleave r = Some (s, q', acc)" "arrived sched q (s, q', acc)" "shadow acc q' (s, q', acc)"
    "queued q q' acc" "length (snd (snd r)) \<le> length acc"
proof -
  have "\<exists>s q' acc. interleave r = Some (s, q', acc) \<and> arrived sched q (s, q', acc) \<and> length (snd (snd r)) \<le> length acc"
  proof (cases r rule: interleave.cases)
    case (1 q1 acc)
    with r show ?thesis by auto
  next
    case (2 xs s q1 acc)
    with r obtain pre where pre: "sched = pre @ xs # s" "arrive (concat pre) q = Some (q1, acc)"
      by (auto simp: arrived_def)
    have "\<forall>x \<in> set (concat (pre @ [xs])). 32 \<le> length (snd x)" using ok pre(1) by (auto simp: sched_ok_def)
    then obtain q2 acc2 where a: "arrive (concat (pre @ [xs])) q = Some (q2, acc2)" using arrive_queued [OF wf v] by blast
    then obtain q3 acc3 where "arrive xs q1 = Some (q3, acc3)" "q2 = q3" "acc2 = acc @ acc3"
      using pre(2) by (auto simp: arrive_append split: bind_splits)
    then have "interleave r = Some (s, q2, acc2)" "arrived sched q (s, q2, acc2)" "length (snd (snd r)) \<le> length acc2"
      using 2 a pre(1) by (auto simp: arrived_def intro!: exI [of _ "pre @ [xs]"])
    then show ?thesis by blast
  qed
  then obtain s q' acc where i: "interleave r = Some (s, q', acc)" "arrived sched q (s, q', acc)"
    and len: "length (snd (snd r)) \<le> length acc" by blast
  then obtain pre where pre: "sched = pre @ s" "arrive (concat pre) q = Some (q', acc)" by (auto simp: arrived_def)
  have "\<forall>x \<in> set (concat pre). 32 \<le> length (snd x)" "sched_ok s" using ok pre(1) by (auto simp: sched_ok_def)
  with arrive_queued [OF wf v this(1)] pre(2) have qd: "queued q q' acc" "sched_ok s" by auto
  then obtain bs' where "lq_wf q' bs'" "lq_valid q' \<noteq> 0" using v by (auto simp: queued_def)
  then have "shadow acc q' (s, q', acc)" using qd(2) queued_refl by (auto simp: shadow_def)
  with i qd(1) len show thesis by (intro that)
qed

lemma shadow_result:
  assumes "shadow acc0 q0 r"
  obtains rest q2 acc2 bs2 where "r = (rest, q2, acc0 @ acc2)" "lq_wf q2 bs2" "lq_contents q2 = lq_contents q0 @ acc2"
  using assms by (cases r) (auto simp: shadow_def queued_def)

text \<open>The end of a receive: the head moves on over the entries reported.\<close>

lemma finish_agrees:
  assumes ag: "copy_agrees acc0 q0 racing sequential"
  shows "\<exists>ret para' out1 out2 q1' rest q2 acc2 bs2.
    (do {
       ((ret, para', out'), r4) \<leftarrow> racing;
       if ret \<noteq> 0 then Some ((ret, para', out'), r4)
       else do {
         r5 \<leftarrow> poke (\<lambda>q. Some (q\<lparr>lq_head := (lq_head q + rr_report_cqe_num para') mod lq_cq_depth q\<rparr>)) r4;
         Some ((0, para', if f then out'\<lparr>lo_sched := Suc (lo_sched out')\<rparr> else out'), r5)
       }
     }) = Some ((ret, para', out2), rest, q2, acc0 @ acc2) \<and>
    (do {
       (ret, para', q', out') \<leftarrow> sequential;
       if ret \<noteq> 0 then Some (ret, para', q', out')
       else Some (0, para', q'\<lparr>lq_head := (lq_head q' + rr_report_cqe_num para') mod lq_cq_depth q'\<rparr>,
              if g then out'\<lparr>lo_sched := Suc (lo_sched out')\<rparr> else out')
     }) = Some (ret, para', q1', out1) \<and>
    lo_user out2 = lo_user out1 \<and> lq_wf q2 bs2 \<and> lq_contents q2 = lq_contents q1' @ acc2"
    (is "\<exists>ret para' out1 out2 q1' rest q2 acc2 bs2. ?R = Some ((ret, para', out2), rest, q2, acc0 @ acc2) \<and>
      ?S = Some (ret, para', q1', out1) \<and> ?P out1 out2 q1' q2 acc2 bs2")
proof -
  obtain ret para' out' r m where c: "racing = Some ((ret, para', out'), r)"
    "sequential = Some (ret, para', q0\<lparr>lq_addr := Some m\<rparr>, out')" "lq_wf (q0\<lparr>lq_addr := Some m\<rparr>) m"
    "shadow acc0 (q0\<lparr>lq_addr := Some m\<rparr>) r" "ret = 0 \<Longrightarrow> unat (rr_report_cqe_num para') \<le> lq_used q0"
    using ag unfolding copy_agrees_def by blast
  show ?thesis
  proof (cases "ret = 0")
    case False
    obtain rest q2 acc2 bs2 where "r = (rest, q2, acc0 @ acc2)" "lq_wf q2 bs2"
      "lq_contents q2 = lq_contents (q0\<lparr>lq_addr := Some m\<rparr>) @ acc2"
      by (rule shadow_result [OF c(4)])
    moreover from this(1) have "?R = Some ((ret, para', out'), rest, q2, acc0 @ acc2)"
      "?S = Some (ret, para', q0\<lparr>lq_addr := Some m\<rparr>, out')"
      using False by (simp_all add: c(1,2))
    ultimately show ?thesis by blast
  next
    case True
    let ?g = "q0\<lparr>lq_addr := Some m\<rparr>"
    let ?adv = "\<lambda>q :: trs_logic_cq. q\<lparr>lq_head := (lq_head q + rr_report_cqe_num para') mod lq_cq_depth q\<rparr>"
    have "unat (rr_report_cqe_num para') \<le> lq_used ?g" using c(5) True by (simp add: lq_used_def)
    then obtain r5 where r5: "poke (\<lambda>q. Some (?adv q)) r = Some r5" "shadow acc0 (?adv ?g) r5"
      by (rule advance_shadow [OF c(4,3)])
    obtain rest q2 acc2 bs2 where res: "r5 = (rest, q2, acc0 @ acc2)" "lq_wf q2 bs2" "lq_contents q2 = lq_contents (?adv ?g) @ acc2"
      by (rule shadow_result [OF r5(2)])
    let ?o = "\<lambda>full. if full then out'\<lparr>lo_sched := Suc (lo_sched out')\<rparr> else out'"
    have "?R = Some ((0, para', ?o f), rest, q2, acc0 @ acc2)" using True by (simp add: c(1) r5(1) res(1))
    moreover have "?S = Some (0, para', ?adv ?g, ?o g)" using True by (simp add: c(2))
    moreover have "lo_user (?o f) = lo_user (?o g)" by simp
    ultimately show ?thesis using res(2,3) by blast
  qed
qed

lemma recv_racing:
  assumes wf: "lq_wf q bs" and v: "lq_valid q \<noteq> 0" and K: "rr_cqe_num para \<noteq> 0" and ok: "sched_ok sched"
  shows "\<exists>ret para' out1 out2 pre post q1 acc1 q1' q2 acc2 rest bs2.
    copy_report_r e k chan para out (sched, q, []) = Some ((ret, para', out2), rest, q2, acc1 @ acc2) \<and>
    sched = pre @ post \<and> arrive (concat pre) q = Some (q1, acc1) \<and> lq_contents q1 = lq_contents q @ acc1 \<and>
    trs_logic_cq_copy_report e k chan q1 para out = Some (ret, para', q1', out1) \<and> lo_user out2 = lo_user out1 \<and>
    lq_wf q2 bs2 \<and> lq_contents q2 = lq_contents q1' @ acc2"
proof -
  have r0: "arrived sched q (sched, q, [])" by (simp add: arrived_def)
  obtain s1 p1 a1 where 1: "interleave (sched, q, []) = Some (s1, p1, a1)" "arrived sched q (s1, p1, a1)" "queued q p1 a1"
    by (rule arrived_interleave [OF wf v ok r0])
  obtain s2 p2 a2 where 2: "interleave (s1, p1, a1) = Some (s2, p2, a2)" "arrived sched q (s2, p2, a2)" "queued q p2 a2"
    by (rule arrived_interleave [OF wf v ok 1(2)])
  obtain s3 p3 a3 where 3: "interleave (s2, p2, a2) = Some (s3, p3, a3)" "arrived sched q (s3, p3, a3)" "queued q p3 a3"
    "length a2 \<le> length a3"
    by (rule arrived_interleave [OF wf v ok 2(2)]) simp
  obtain s4 p4 a4 where 4: "interleave (s3, p3, a3) = Some (s4, p4, a4)" "arrived sched q (s4, p4, a4)" "shadow a4 p4 (s4, p4, a4)"
    "queued q p4 a4" "length a3 \<le> length a4"
    by (rule arrived_interleave [OF wf v ok 3(2)]) simp
  obtain m2 m3 m4 where w: "lq_wf p2 m2" "lq_wf p3 m3" "lq_wf p4 m4"
    using 2(3) 3(3) 4(4) by (auto simp: queued_def)
  have vs: "lq_valid p1 \<noteq> 0" "lq_valid p2 \<noteq> 0" "lq_valid p4 \<noteq> 0" using v 1(3) 2(3) 4(4) by (simp_all add: queued_def)
  show ?thesis
  proof (cases "trs_logic_cq_is_empty p2")
    case True
    have "copy_report_r e k chan para out (sched, q, []) = Some ((- EAGAIN, para, out), s2, p2, a2 @ [])"
      using vs(1) True by (simp add: copy_report_r_def peek_def 1(1) 2(1))
    moreover have "trs_logic_cq_copy_report e k chan p2 para out = Some (- EAGAIN, para, p2, out)"
      using vs(2) True by (simp add: trs_logic_cq_copy_report_def)
    moreover obtain pre where "sched = pre @ s2" "arrive (concat pre) q = Some (p2, a2)" using 2(2) by (auto simp: arrived_def)
    moreover have "lq_contents p2 = lq_contents q @ a2" using 2(3) by (simp add: queued_def)
    moreover have "lq_contents p2 = lq_contents p2 @ []" by simp
    ultimately show ?thesis using w(1) by blast
  next
    case False
    have "lq_contents p2 \<noteq> []" using False lq_empty [OF w(1)] by simp
    then have "lq_contents p4 \<noteq> []" using 2(3) 3(4) 4(4,5) by (auto simp: queued_def)
    then have ne: "\<not> trs_logic_cq_is_empty p4" using lq_empty [OF w(3)] by simp
    obtain full3 where full3: "trs_logic_cq_is_full p3 = Some full3" using lq_full [OF w(2)] by blast
    obtain full4 where full4: "trs_logic_cq_is_full p4 = Some full4" using lq_full [OF w(3)] by blast
    define racing where "racing = (if rr_res para 0 = 1 then match_copy_r e k para out (s3, p3, a3)
      else non_match_copy_r e k para out (s3, p3, a3))"
    define seq where "seq = (if rr_res para 0 = 1 then trs_logic_cq_match_copy e k p4 para out
      else trs_logic_cq_non_match_copy e k p4 para out)"
    have ag: "copy_agrees a4 p4 racing seq"
      using match_copy_agrees [OF 4(1,3) w(3) ne K, of e k out] non_match_agrees [OF 4(1,3) w(3) ne, of e k para out]
      by (simp add: racing_def seq_def)
    obtain pre where pre: "sched = pre @ s4" "arrive (concat pre) q = Some (p4, a4)" using 4(2) by (auto simp: arrived_def)
    have cont: "lq_contents p4 = lq_contents q @ a4" using 4(4) by (simp add: queued_def)
    have eq: "copy_report_r e k chan para out (sched, q, []) = (do {
        ((ret, para', out'), r4) \<leftarrow> racing;
        if ret \<noteq> 0 then Some ((ret, para', out'), r4)
        else do {
          r5 \<leftarrow> poke (\<lambda>q. Some (q\<lparr>lq_head := (lq_head q + rr_report_cqe_num para') mod lq_cq_depth q\<rparr>)) r4;
          Some ((0, para', if full3 \<and> chan \<ge> 0 then out'\<lparr>lo_sched := Suc (lo_sched out')\<rparr> else out'), r5)
        }
      })"
      using vs(1) False by (simp add: copy_report_r_def peek_def 1(1) 2(1) 3(1) full3 racing_def)
    have eq': "trs_logic_cq_copy_report e k chan p4 para out = (do {
        (ret, para', q', out') \<leftarrow> seq;
        if ret \<noteq> 0 then Some (ret, para', q', out')
        else Some (0, para', q'\<lparr>lq_head := (lq_head q' + rr_report_cqe_num para') mod lq_cq_depth q'\<rparr>,
               if full4 \<and> chan \<ge> 0 then out'\<lparr>lo_sched := Suc (lo_sched out')\<rparr> else out')
      })"
      using vs(3) ne by (simp add: trs_logic_cq_copy_report_def full4 seq_def)
    show ?thesis
      using finish_agrees [OF ag, of "full3 \<and> chan \<ge> 0" "full4 \<and> chan \<ge> 0", folded eq eq'] pre cont by blast
  qed
qed

text \<open>
  C20. A receive during which entries arrive, any number of them before each of its accesses to the queue, to an entry it
  examines, copies or moves, takes effect at one moment: its result, what it reports and what the user buffer gets are
  those of a receive that runs alone on the queue as it is after the first of the arrivals (\<open>pre\<close>), and in the end the
  queue holds what that receive leaves, in order, and behind it the entries that were accepted after that moment, as
  they came. So no entry that arrives is lost, damaged or delivered twice. Whether the receive asks for the physical queue to be
  scheduled is not part of this: it looks at an earlier moment whether the queue is full. The entries are of version 2, with 32 bytes.
\<close>

theorem lq_enque_during_recv:
  assumes "lq_wf q bs" "lq_valid q \<noteq> 0" "rr_cqe_num para \<noteq> 0" "sched_ok sched"
  shows "\<exists>ret para' out1 out2 pre post q1 acc1 q1' q2 acc2 rest bs2.
    copy_report_r e k chan para out (sched, q, []) = Some ((ret, para', out2), rest, q2, acc1 @ acc2) \<and>
    sched = pre @ post \<and> arrive (concat pre) q = Some (q1, acc1) \<and> lq_contents q1 = lq_contents q @ acc1 \<and>
    trs_logic_cq_copy_report e k chan q1 para out = Some (ret, para', q1', out1) \<and> lo_user out2 = lo_user out1 \<and>
    lq_wf q2 bs2 \<and> lq_contents q2 = lq_contents q1' @ acc2"
  by (rule recv_racing [OF assms])

text \<open>
  An entry for another task and one for the receiver wait, so that an entry has to be moved. A third one arrives between the
  reading and the writing of the entry moved; a fourth one, before the head moves on, is refused since the queue is full.
\<close>

definition demo_lq1 :: trs_logic_cq where
  "demo_lq1 = (demo_lq 4)\<lparr>lq_addr := Some (demo_cqe 1 7 1 @ replicate 96 0), lq_tail := 1\<rparr>"

lemma demo_lq1_wf: "lq_wf demo_lq1 (demo_cqe 1 7 1 @ replicate 96 0)"
  by (simp add: lq_wf_def demo_lq1_def demo_lq_def demo_cqe_def)

lemma demo_lq1_contents: "lq_contents demo_lq1 = [demo_cqe 1 7 1]"
  by code_simp

definition demo_lq2 :: trs_logic_cq where
  "demo_lq2 = (demo_lq 4)\<lparr>lq_addr := Some (demo_cqe 1 9 1 @ demo_cqe 1 7 1 @ replicate 64 0), lq_tail := 2\<rparr>"

definition demo_sched :: "arrivals list" where
  "demo_sched = replicate 11 [] @ [[(True, demo_cqe 1 8 1)], [(True, demo_cqe 1 7 1)]]"

lemma demo_racing:
  "map_option (\<lambda>((ret, para, out), rest, q, acc). (ret, lo_user out, rest, lq_contents q, acc))
     (copy_report_r demo_lq_env 0 (- 1) (demo_recv 1 7) lq_quiet (demo_sched, demo_lq2, [])) =
   Some (0, [demo_cqe 1 7 1], [], [demo_cqe 1 9 1, demo_cqe 1 8 1], [demo_cqe 1 8 1])"
  by code_simp

theorem lq_enque_during_recv_witness:
  "\<exists>ret para' out1 out2 pre post q1 acc1 q1' q2 acc2 rest bs2.
    copy_report_r demo_lq_env 0 (- 1) (demo_recv 1 7) lq_quiet (demo_sched, demo_lq2, []) =
      Some ((ret, para', out2), rest, q2, acc1 @ acc2) \<and>
    demo_sched = pre @ post \<and> arrive (concat pre) demo_lq2 = Some (q1, acc1) \<and>
    lq_contents q1 = lq_contents demo_lq2 @ acc1 \<and>
    trs_logic_cq_copy_report demo_lq_env 0 (- 1) q1 (demo_recv 1 7) lq_quiet = Some (ret, para', q1', out1) \<and>
    lo_user out2 = lo_user out1 \<and> lq_wf q2 bs2 \<and> lq_contents q2 = lq_contents q1' @ acc2"
  by (rule lq_enque_during_recv [of demo_lq2 "demo_cqe 1 9 1 @ demo_cqe 1 7 1 @ replicate 64 0"])
    (simp_all add: lq_wf_def demo_lq2_def demo_lq_def demo_cqe_def demo_recv_def demo_sched_def sched_ok_def)

end
