(* ===== verification/Logic_Recv.thy ===== *)
theory Logic_Recv
  imports Logic_Race
begin

text \<open>
  Receiving from a logic completion queue: which entries one receive takes, when the loop of \<^verbatim>\<open>trs_logic_cq_recv\<close> returns,
  and when it does not.
\<close>

section \<open>One receive\<close>

lemma copy_report_empty:
  "lq_wf q bs \<Longrightarrow> lq_valid q \<noteq> 0 \<Longrightarrow> lq_contents q = [] \<Longrightarrow>
   trs_logic_cq_copy_report e k chan_id q para out = Some (- EAGAIN, para, q, out)"
  using lq_empty [of q bs] by (simp add: trs_logic_cq_copy_report_def)

text \<open>The receiver has nothing to take.\<close>

definition lq_nothing :: "trs_logic_cq \<Rightarrow> halReportRecvInfo \<Rightarrow> bool" where
  "lq_nothing q para \<longleftrightarrow>
     (if rr_res para 0 = 1 then \<forall>x \<in> set (lq_contents q). foreign (rr_rid para) x else lq_contents q = [])"

lemma lq_choice_nothing:
  assumes wf: "lq_wf q bs" and ne: "lq_contents q \<noteq> []" and ch: "lq_choice q para = (s, n)"
  shows "n = 0 \<longleftrightarrow> lq_nothing q para"
proof (cases "rr_res para 0 = 1")
  case True
  have "lq_first q \<le> length (lq_contents q)" using lq_contents_split(1) [OF wf] lq_empty [OF wf] ne by simp
  with True ch pick_ring_segment(3) [of "rr_rid para" _ "lq_first q" "lq_contents q" s n] show ?thesis
    by (simp add: lq_choice_def lq_nothing_def)
next
  case False
  then have "n = lq_first q" using ch by (simp add: lq_choice_def)
  then have "n \<noteq> 0" using lq_wf_nat [OF wf] by (simp add: lq_first_def word_less_nat_alt)
  with False ne show ?thesis by (simp add: lq_nothing_def)
qed

lemma copy_report_nothing:
  assumes wf: "lq_wf q bs" and v: "lq_valid q \<noteq> 0" and K: "rr_cqe_num para \<noteq> 0" and no: "lq_nothing q para"
  shows "trs_logic_cq_copy_report e k chan_id q para out = Some (- EAGAIN, para, q, out)"
proof (cases "lq_contents q = []")
  case True
  then show ?thesis by (rule copy_report_empty [OF wf v])
next
  case False
  obtain s n where ch: "lq_choice q para = (s, n)" by fastforce
  have "n = 0" using lq_choice_nothing [OF wf False ch] no by simp
  then show ?thesis by (rule copy_report_wf(1) [OF wf v False K ch])
qed

lemma copy_report_some:
  assumes wf: "lq_wf q bs" and v: "lq_valid q \<noteq> 0" and K: "rr_cqe_num para \<noteq> 0" and some: "\<not> lq_nothing q para"
  obtains s n where "lq_choice q para = (s, n)" "n \<noteq> 0" "lq_contents q \<noteq> []" "s + n \<le> lq_used q"
proof -
  have ne: "lq_contents q \<noteq> []" using some by (auto simp: lq_nothing_def split: if_splits)
  obtain s n where ch: "lq_choice q para = (s, n)" by fastforce
  have n0: "n \<noteq> 0" using lq_choice_nothing [OF wf ne ch] some by simp
  have "s + n \<le> lq_used q"
  proof (cases "rr_res para 0 = 1")
    case True
    with ch n0 show ?thesis
      using pick_ring_bounds [of "rr_rid para" _ "lq_first q" "lq_contents q" s n] by (simp add: lq_choice_def)
  next
    case False
    with ch show ?thesis using lq_contents_split(1) [OF wf] lq_empty [OF wf] ne by (simp add: lq_choice_def)
  qed
  with that ch n0 ne show thesis by blast
qed

section \<open>Returning\<close>

lemma recv_round_nothing:
  assumes "lq_wf q bs" "lq_valid q \<noteq> 0" "rr_cqe_num para \<noteq> 0" "lq_nothing q para" "rr_timeout para = 0"
  shows "recv_rounds e chan_id k (Suc fuel) q para out =
    Some (Some 0, para\<lparr>rr_report_cqe_num := 0\<rparr>, le_others e (2 * k) q, out)"
  using copy_report_nothing [OF assms(1-4)] assms(5) by simp

lemma recv_round_some:
  assumes wf: "lq_wf q bs" and v: "lq_valid q \<noteq> 0" and K: "rr_cqe_num para \<noteq> 0" and some: "\<not> lq_nothing q para"
    and ctu: "\<And>v. le_ctu e k (rr_cqe_addr para) v = 0"
  shows "\<exists>s n q' out' bs'. recv_rounds e chan_id k (Suc fuel) q para out =
      Some (Some 0, para\<lparr>rr_report_cqe_num := of_nat n\<rparr>, q', out') \<and> 0 < n \<and> s + n \<le> lq_used q \<and>
    lo_user out' = lo_user out @ [concat (take n (drop s (lq_contents q)))] \<and> lq_wf q' bs' \<and>
    lq_contents q' = take s (lq_contents q) @ drop (s + n) (lq_contents q)"
proof -
  obtain s n where ch: "lq_choice q para = (s, n)" "n \<noteq> 0" "lq_contents q \<noteq> []" "s + n \<le> lq_used q"
    by (rule copy_report_some [OF wf v K some])
  have ret: "ctu_ret e k para (take n (drop s (lq_contents q))) = 0" by (simp add: ctu_ret_def ctu)
  obtain q' bs' out' where r: "trs_logic_cq_copy_report e k chan_id q para out =
      Some (0, para\<lparr>rr_report_cqe_num := of_nat n\<rparr>, q', out')"
    "lo_user out' = lo_user (user_gets e k para (take n (drop s (lq_contents q))) out)" "lq_wf q' bs'"
    "lq_contents q' = take s (lq_contents q) @ drop (s + n) (lq_contents q)"
    using copy_report_wf(3) [OF wf v ch(3) K ch(1,2) ret, of chan_id out] by blast
  let ?q2 = "q'\<lparr>lq_stat := (lq_stat q')\<lparr>ls_recv := ls_recv (lq_stat q') + 1\<rparr>\<rparr>"
  have sr: "same_ring q' ?q2" by (simp add: same_ring_def)
  have u: "lo_user out' = lo_user out @ [concat (take n (drop s (lq_contents q)))]"
    using r(2) ret by (simp add: user_gets_def)
  show ?thesis
    by (rule exI [of _ s], rule exI [of _ n], rule exI [of _ ?q2], rule exI [of _ out'], rule exI [of _ bs'])
      (use r ch u same_ring_contents [OF sr] in simp)
qed

section \<open>A buffer that faults\<close>

lemma recv_fault_runs_on:
  assumes wf: "lq_wf q bs" and v: "lq_valid q \<noteq> 0" and K: "rr_cqe_num para \<noteq> 0" and some: "\<not> lq_nothing q para"
    and ctu: "\<And>k v. v \<noteq> [] \<Longrightarrow> 0 < le_ctu e k (rr_cqe_addr para) v" and alone: "\<And>k q. le_others e k q = q"
  shows "\<exists>out'. recv_rounds e chan_id k fuel q para out = Some (None, para, q, out')"
proof (induction fuel arbitrary: k out)
  case (Suc fuel)
  obtain s n where ch: "lq_choice q para = (s, n)" "n \<noteq> 0" "lq_contents q \<noteq> []" "s + n \<le> lq_used q"
    by (rule copy_report_some [OF wf v K some])
  let ?xs = "take n (drop s (lq_contents q))"
  have "?xs \<noteq> []" using ch(2,4) by simp
  moreover have "[] \<notin> set ?xs" using lq_contents_lengths [OF wf] by (metis in_set_dropD in_set_takeD list.size(3) zero_neq_numeral)
  ultimately have pos: "0 < ctu_ret e k para ?xs" by (cases ?xs) (auto simp: ctu_ret_def intro!: ctu)
  then have "trs_logic_cq_copy_report e k chan_id q para out = Some (ctu_ret e k para ?xs, para, q, user_gets e k para ?xs out)"
    using copy_report_wf(2) [OF wf v ch(3) K ch(1,2)] by simp
  with pos Suc.IH [of "Suc k" "user_gets e k para ?xs out"] show ?case by (simp add: alone)
qed simp

section \<open>Waking up\<close>

lemma enque_wakes:
  assumes "trs_logic_cq_enque active q cqe = Some (0, q1)"
  shows "0 < lq_wakeup_num q1"
  using assms
  by (auto simp: trs_logic_cq_enque_def trs_logic_cq_wakeup_def Let_def split: if_splits bind_splits)

lemma wait_event_awake:
  assumes "0 < lq_wakeup_num q" "0 < wait_jiffies e timeout"
  shows "fst (trs_logic_cq_wait_event e k q timeout) = (if le_signal e k then - ERESTARTSYS else 0)"
  using assms by (simp add: trs_logic_cq_wait_event_def Let_def i32_id)

section \<open>The entries of one receive\<close>

lemma taken_butlast: "\<forall>x \<in> set (butlast (take (taken rid k xs) xs)). cqe_class x = None"
proof (induction rid k xs rule: taken.induct)
  case (2 rid k x xs)
  then show ?case by (cases "take (taken rid (k - 1) xs) xs = []") (auto split: if_splits)
qed simp

lemma pick_segment_shape:
  assumes "pick rid k xs = (s, n)" "0 < k"
  shows "n \<le> k" "\<forall>x \<in> set (butlast (take n (drop s xs))). cqe_class x = None"
proof -
  have s: "s = length (takeWhile (foreign rid) xs)" and n: "n = taken rid k (dropWhile (foreign rid) xs)"
    using assms(1) by (simp_all add: pick_def)
  show "n \<le> k" unfolding n by (rule taken_le_limit [OF assms(2)])
  show "\<forall>x \<in> set (butlast (take n (drop s xs))). cqe_class x = None"
    using taken_butlast by (simp only: s n dropWhile_eq_drop [symmetric])
qed

lemma pick_ring_segment_shape:
  assumes "pick_ring rid k a xs = (s, n)" "0 < k" "n \<noteq> 0"
  shows "n \<le> k \<and> (\<forall>x \<in> set (butlast (take n (drop s xs))). cqe_class x = None)"
  using assms(1)
proof (cases rule: pick_ring_cases)
  case here
  have "s + n \<le> a" using pick_bounds [OF here(2)] by simp
  then have "take n (drop s (take a xs)) = take n (drop s xs)" by (simp add: drop_take min_def)
  with pick_segment_shape [OF here(2) assms(2)] show ?thesis by simp
next
  case (rest s0 b)
  then have "drop s xs = drop b (drop a xs)" by (simp add: add.commute)
  with pick_segment_shape [OF rest(2) assms(2)] show ?thesis by simp
qed

text \<open>
  C19. A matching receive on a well-formed queue that holds an entry for the receiver or a normal one: it returns 0 and hands
  the user, in one piece, a run of consecutive entries, at most as many as asked for. All but the last of them are normal
  entries, and none is for another stream or task; all entries before the run are for others. The entries before and behind
  it stay, in their order, wherever the run was in the ring and whether or not the ring wraps around.
\<close>

theorem lq_recv_segment:
  assumes wf: "lq_wf q bs" and v: "lq_valid q \<noteq> 0" and K: "rr_cqe_num para \<noteq> 0" and ver: "rr_res para 0 = 1"
    and some: "x0 \<in> set (lq_contents q)" "\<not> foreign (rr_rid para) x0"
    and ctu: "\<And>v. le_ctu e k (rr_cqe_addr para) v = 0"
  shows "\<exists>pre seg post q' out' bs'. lq_contents q = pre @ seg @ post \<and>
    seg \<noteq> [] \<and> length seg \<le> unat (rr_cqe_num para) \<and>
    (\<forall>x \<in> set pre. foreign (rr_rid para) x) \<and> (\<forall>x \<in> set seg. \<not> foreign (rr_rid para) x) \<and>
    (\<forall>x \<in> set (butlast seg). cqe_class x = None) \<and>
    trs_logic_cq_copy_report e k chan_id q para lq_quiet =
      Some (0, para\<lparr>rr_report_cqe_num := of_nat (length seg)\<rparr>, q', out') \<and>
    lo_user out' = [concat seg] \<and> lq_wf q' bs' \<and> lq_contents q' = pre @ post"
proof -
  have not: "\<not> lq_nothing q para" using some ver by (auto simp: lq_nothing_def)
  obtain s n where ch: "lq_choice q para = (s, n)" "n \<noteq> 0" "lq_contents q \<noteq> []" "s + n \<le> lq_used q"
    by (rule copy_report_some [OF wf v K not])
  then have pk: "pick_ring (rr_rid para) (unat (rr_cqe_num para)) (lq_first q) (lq_contents q) = (s, n)"
    using ver by (simp add: lq_choice_def)
  define pre seg post where d: "pre = take s (lq_contents q)" "seg = take n (drop s (lq_contents q))"
    "post = drop (s + n) (lq_contents q)"
  have "lq_first q \<le> length (lq_contents q)" using lq_contents_split(1) [OF wf] lq_empty [OF wf] ch(3) by simp
  note p = pick_ring_segment(1,2) [OF pk this, folded d]
  have sh: "n \<le> unat (rr_cqe_num para)" "\<forall>x \<in> set (butlast seg). cqe_class x = None"
    using pick_ring_segment_shape [OF pk _ ch(2)] K by (simp_all add: d unat_gt_0)
  have len: "length seg = n" using ch(4) by (simp add: d)
  have split: "lq_contents q = pre @ seg @ post" unfolding d by (metis append_take_drop_id drop_drop add.commute)
  have ret: "ctu_ret e k para seg = 0" by (simp add: ctu_ret_def ctu)
  obtain q' bs' out' where r: "trs_logic_cq_copy_report e k chan_id q para lq_quiet =
      Some (0, para\<lparr>rr_report_cqe_num := of_nat n\<rparr>, q', out')" "lo_user out' = lo_user (user_gets e k para seg lq_quiet)"
    "lq_wf q' bs'" "lq_contents q' = pre @ post"
    using copy_report_wf(3) [OF wf v ch(3) K ch(1,2), folded d, OF ret] by blast
  have u: "lo_user out' = [concat seg]" using r(2) ret by (simp add: user_gets_def)
  have "seg \<noteq> []" using len ch(2) by auto
  then show ?thesis using split p sh r(1,3,4) u unfolding len [symmetric] by blast
qed

lemma demo_lq1_own: "demo_cqe 1 7 1 \<in> set (lq_contents demo_lq1)" "\<not> foreign (rr_rid (demo_recv 1 7)) (demo_cqe 1 7 1)"
  by (simp add: demo_lq1_contents) code_simp

theorem lq_recv_segment_witness:
  "\<exists>pre seg post q' out' bs'. lq_contents demo_lq1 = pre @ seg @ post \<and>
    seg \<noteq> [] \<and> length seg \<le> unat (rr_cqe_num (demo_recv 1 7)) \<and>
    (\<forall>x \<in> set pre. foreign (rr_rid (demo_recv 1 7)) x) \<and> (\<forall>x \<in> set seg. \<not> foreign (rr_rid (demo_recv 1 7)) x) \<and>
    (\<forall>x \<in> set (butlast seg). cqe_class x = None) \<and>
    trs_logic_cq_copy_report demo_lq_env 0 (- 1) demo_lq1 (demo_recv 1 7) lq_quiet =
      Some (0, (demo_recv 1 7)\<lparr>rr_report_cqe_num := of_nat (length seg)\<rparr>, q', out') \<and>
    lo_user out' = [concat seg] \<and> lq_wf q' bs' \<and> lq_contents q' = pre @ post"
  by (rule lq_recv_segment [OF demo_lq1_wf _ _ _ demo_lq1_own])
    (simp_all add: demo_lq1_def demo_lq_def demo_recv_def demo_lq_env_def)

section \<open>Returning\<close>

text \<open>
  C21. A receive that does not wait returns 0 after a single round, when the user buffer can be written: either with no
  entries reported and the queue untouched, because nothing in it is for the receiver, or with the entries taken out handed
  over and counted in \<^verbatim>\<open>report_cqe_num\<close>. This is so for old receivers, too, which ask for no matching.
\<close>

theorem lq_recv_nonblocking:
  assumes "lq_wf q bs" "lq_valid q \<noteq> 0" "rr_cqe_num para \<noteq> 0" "rr_timeout para = 0"
    and "\<And>v. le_ctu e 0 (rr_cqe_addr para) v = 0"
  shows "\<exists>n q' out'. recv_rounds e chan_id 0 1 q para lq_quiet =
      Some (Some 0, para\<lparr>rr_report_cqe_num := of_nat n\<rparr>, q', out') \<and>
    (if lq_nothing q para then n = 0 \<and> q' = le_others e 0 q \<and> out' = lq_quiet
     else 0 < n \<and> length (lq_contents q') + n = length (lq_contents q) \<and>
       (\<exists>s. lo_user out' = [concat (take n (drop s (lq_contents q)))] \<and>
         lq_contents q' = take s (lq_contents q) @ drop (s + n) (lq_contents q)))"
proof (cases "lq_nothing q para")
  case True
  from recv_round_nothing [OF assms(1-3) this assms(4), of e chan_id 0 0 lq_quiet] True show ?thesis
    by (intro exI [of _ "0::nat"] exI [of _ "le_others e 0 q"] exI [of _ lq_quiet]) simp
next
  case False
  obtain s n q' out' bs' where r: "recv_rounds e chan_id 0 (Suc 0) q para lq_quiet =
      Some (Some 0, para\<lparr>rr_report_cqe_num := of_nat n\<rparr>, q', out')" "0 < n" "s + n \<le> lq_used q"
    "lo_user out' = [concat (take n (drop s (lq_contents q)))]"
    "lq_contents q' = take s (lq_contents q) @ drop (s + n) (lq_contents q)"
    using recv_round_some [OF assms(1-3) False assms(5), of chan_id 0 lq_quiet] by auto
  have "length (lq_contents q') + n = length (lq_contents q)" using r(3) by (simp add: r(5))
  with r False show ?thesis by (intro exI [of _ n] exI [of _ q'] exI [of _ out']) auto
qed

theorem lq_recv_nonblocking_witness:
  "\<exists>n q' out'. recv_rounds demo_lq_env (- 1) 0 1 demo_lq1 (demo_recv 1 7) lq_quiet =
      Some (Some 0, (demo_recv 1 7)\<lparr>rr_report_cqe_num := of_nat n\<rparr>, q', out') \<and>
    (if lq_nothing demo_lq1 (demo_recv 1 7) then n = 0 \<and> q' = le_others demo_lq_env 0 demo_lq1 \<and> out' = lq_quiet
     else 0 < n \<and> length (lq_contents q') + n = length (lq_contents demo_lq1) \<and>
       (\<exists>s. lo_user out' = [concat (take n (drop s (lq_contents demo_lq1)))] \<and>
         lq_contents q' = take s (lq_contents demo_lq1) @ drop (s + n) (lq_contents demo_lq1)))"
  by (rule lq_recv_nonblocking [OF demo_lq1_wf]) (simp_all add: demo_lq1_def demo_lq_def demo_recv_def demo_lq_env_def)

text \<open>
  C22. A user buffer that cannot be written keeps the receiver in the kernel: \<^verbatim>\<open>copy_to_user\<close> returns the number of bytes it
  could not copy, a positive number, and the loop goes on while the result is not negative. With an entry to report and no
  other thread touching the queue the receive is still running after any number of rounds, also when it was not to wait at
  all; no signal and no timeout ends it.
\<close>

theorem lq_recv_fault_livelock:
  assumes "lq_wf q bs" "lq_valid q \<noteq> 0" "rr_cqe_num para \<noteq> 0" "\<not> lq_nothing q para"
    and "\<And>k v. v \<noteq> [] \<Longrightarrow> 0 < le_ctu e k (rr_cqe_addr para) v" "\<And>k q. le_others e k q = q"
  shows "\<exists>out'. recv_rounds e chan_id 0 fuel q para lq_quiet = Some (None, para, q, out')"
  by (rule recv_fault_runs_on [OF assms])

lemma demo_lq1_something: "\<not> lq_nothing demo_lq1 (demo_recv 1 7)"
  using demo_lq1_own by (auto simp: lq_nothing_def demo_recv_def)

theorem lq_recv_fault_livelock_witness:
  "\<exists>out'. recv_rounds (demo_lq_env\<lparr>le_ctu := (\<lambda>_ _ v. int (length v))\<rparr>) (- 1) 0 1000000 demo_lq1 (demo_recv 1 7) lq_quiet =
     Some (None, demo_recv 1 7, demo_lq1, out')"
  by (rule lq_recv_fault_livelock [OF demo_lq1_wf _ _ demo_lq1_something])
    (simp_all add: demo_lq1_def demo_lq_def demo_recv_def demo_lq_env_def)

end
