(* ===== verification/Logic_Mng.thy ===== *)
theory Logic_Mng
  imports Logic_Recv Trs_Res_Mng
begin

text \<open>
  The queues of an instance, \<^verbatim>\<open>rms/trs_drv/trs_core/trs_logic_cq.c\<close>: allocation and release by processes, the check
  in front of a receive, the interrupts that some queues have to themselves, the physical queue from which version 1
  entries arrive, and start and end of the instance. Ids come from the allocator of \<^verbatim>\<open>trs_id.c\<close>, owners are entered in the
  tables of \<^verbatim>\<open>trs_proc.c\<close>. \<open>trs_chan_ops\<close> is the part of the channel layer that is called here.
\<close>

section \<open>Data\<close>

abbreviation (input) TSDRV_FLAG_THREAD_BIND_IRQ :: u32 where "TSDRV_FLAG_THREAD_BIND_IRQ \<equiv> 4"
abbreviation (input) TRS_MAX_THREAD_BIND_IRQ_NUM :: nat where "TRS_MAX_THREAD_BIND_IRQ_NUM \<equiv> 32"
abbreviation (input) TRS_PROC_MAX_THREAD_BIND_IRQ_NUM :: int where "TRS_PROC_MAX_THREAD_BIND_IRQ_NUM \<equiv> 2"
abbreviation (input) TRS_INVALID_PHY_CQID :: u16 where "TRS_INVALID_PHY_CQID \<equiv> 0xFFFF"
abbreviation (input) CQ_RECV_CONTINUE :: int where "CQ_RECV_CONTINUE \<equiv> 0"
abbreviation (input) CQ_RECV_FINISH :: int where "CQ_RECV_FINISH \<equiv> 1"

text \<open>The pointers to a counter and a wait queue are the index of the queue that they belong to.\<close>

record trs_thread_bind_intr_ctx =
  ic_valid :: int
  ic_irq :: u32
  ic_wait_flag :: "u32 option"
  ic_wait_queue :: "u32 option"

record trs_thread_bind_intr_mng =
  im_irq_num :: u32
  im_irq_ctx :: "trs_thread_bind_intr_ctx list option"

record trs_logic_phy_cq =
  pq_chan_id :: int
  pq_notice_flag :: u32
  pq_cqid :: u32
  pq_cq_irq :: u32
  pq_cq_phy_addr :: u64

record trs_logic_cq_ctx =
  cx_cq_num :: u32
  cx_phy_cq :: trs_logic_phy_cq
  cx_cq :: "trs_logic_cq list option"
  cx_intr_mng :: trs_thread_bind_intr_mng

record halSqCqInputInfo =
  si_tsId :: u32
  si_cqeSize :: u32
  si_cqeDepth :: u32
  si_flag :: u32
  si_cqId :: u32
  si_info :: "u32 list"

text \<open>
  \<^verbatim>\<open>hal_kernel_trs_chan_create\<close> (its result and the channel id it stores, if it does), \<^verbatim>\<open>trs_chan_get_cq_info\<close> (what
  \<^verbatim>\<open>cq_info\<close> holds after the call: id, interrupt and address of the queue) and \<^verbatim>\<open>hal_kernel_trs_chan_destroy\<close>.
\<close>

record 'h trs_chan_ops =
  ch_create :: "'h \<Rightarrow> trs_id_inst \<Rightarrow> int \<times> int option \<times> 'h"
  ch_cq_info :: "'h \<Rightarrow> trs_id_inst \<Rightarrow> int \<Rightarrow> u32 \<times> u32 \<times> u64"
  ch_destroy :: "'h \<Rightarrow> trs_id_inst \<Rightarrow> int \<Rightarrow> 'h"

text \<open>Calls of \<^verbatim>\<open>request_irq\<close> that succeeded and of \<^verbatim>\<open>free_irq\<close>: the number, and the context that is the \<^verbatim>\<open>dev_id\<close>.\<close>

datatype irq_call = RequestIrq u32 nat | FreeIrq u32 nat

section \<open>Queues of the instance\<close>

definition cq_at :: "trs_logic_cq_ctx \<Rightarrow> u32 \<Rightarrow> trs_logic_cq option" where
  "cq_at x i =
     (case cx_cq x of
        None \<Rightarrow> None
      | Some qs \<Rightarrow> if unat i < length qs then Some (qs ! unat i) else None)"

definition cq_set :: "u32 \<Rightarrow> trs_logic_cq \<Rightarrow> trs_logic_cq_ctx \<Rightarrow> trs_logic_cq_ctx" where
  "cq_set i q x = x\<lparr>cx_cq := map_option (\<lambda>qs. qs[unat i := q]) (cx_cq x)\<rparr>"

section \<open>Interrupts bound to a thread\<close>

definition irq_ctx_at :: "trs_thread_bind_intr_mng \<Rightarrow> nat \<Rightarrow> trs_thread_bind_intr_ctx option" where
  "irq_ctx_at m i =
     (case im_irq_ctx m of
        None \<Rightarrow> None
      | Some cs \<Rightarrow> if i < length cs then Some (cs ! i) else None)"

definition irq_ctx_set :: "nat \<Rightarrow> trs_thread_bind_intr_ctx \<Rightarrow> trs_thread_bind_intr_mng \<Rightarrow> trs_thread_bind_intr_mng" where
  "irq_ctx_set i c m = m\<lparr>im_irq_ctx := map_option (\<lambda>cs. cs[i := c]) (im_irq_ctx m)\<rparr>"

text \<open>The handler sets the counter of the queue and wakes its wait queue.\<close>

definition trs_thread_bind_irq_proc :: "trs_thread_bind_intr_ctx \<Rightarrow> trs_logic_cq_ctx \<Rightarrow> trs_logic_cq_ctx option" where
  "trs_thread_bind_irq_proc c x =
     (if ic_valid c = 0 then Some x
      else case ic_wait_flag c of
        None \<Rightarrow> Some x
      | Some i \<Rightarrow> map_option (\<lambda>q. cq_set i (q\<lparr>lq_wakeup_num := 1\<rparr>) x) (cq_at x i))"

text \<open>\<open>free_irq\<close> is given the first context whatever the number is.\<close>

fun irq_free_loop :: "trs_thread_bind_intr_mng \<Rightarrow> nat \<Rightarrow> nat \<Rightarrow> irq_call list \<Rightarrow> irq_call list option" where
  "irq_free_loop m i 0 calls = Some calls"
| "irq_free_loop m i (Suc n) calls = do {
     c \<leftarrow> irq_ctx_at m i;
     irq_free_loop m (Suc i) n (calls @ [FreeIrq (ic_irq c) 0])
   }"

definition trs_thread_bind_irq_hw_res_uninit ::
    "trs_logic_cq_ctx \<Rightarrow> u32 \<Rightarrow> irq_call list \<Rightarrow> irq_call list option" where
  "trs_thread_bind_irq_hw_res_uninit x irq_num calls =
     (if im_irq_num (cx_intr_mng x) = 0 then Some calls
      else irq_free_loop (cx_intr_mng x) 0 (unat irq_num) calls)"

text \<open>The memory is gone; the pointer to it that is set to NULL is the parameter.\<close>

definition trs_thread_bind_irq_sw_res_uninit :: "trs_logic_cq_ctx \<Rightarrow> trs_logic_cq_ctx" where
  "trs_thread_bind_irq_sw_res_uninit x = x\<lparr>cx_intr_mng := (cx_intr_mng x)\<lparr>im_irq_ctx := None\<rparr>\<rparr>"

definition trs_thread_bind_irq_uninit ::
    "trs_logic_cq_ctx \<Rightarrow> u32 \<Rightarrow> irq_call list \<Rightarrow> (trs_logic_cq_ctx \<times> irq_call list) option" where
  "trs_thread_bind_irq_uninit x irq_num calls = do {
     calls' \<leftarrow> trs_thread_bind_irq_hw_res_uninit x irq_num calls;
     Some (trs_thread_bind_irq_sw_res_uninit x, calls')
   }"

text \<open>\<open>req i\<close> is the result of \<^verbatim>\<open>request_irq\<close> for the context \<open>i\<close>; \<open>irq\<close> is the array that the adapter has filled.\<close>

fun irq_request_loop ::
    "(nat \<Rightarrow> int) \<Rightarrow> u32 list \<Rightarrow> nat \<Rightarrow> nat \<Rightarrow> trs_logic_cq_ctx \<Rightarrow> irq_call list \<Rightarrow>
     (int \<times> trs_logic_cq_ctx \<times> irq_call list) option" where
  "irq_request_loop req irq i 0 x calls = Some (0, x, calls)"
| "irq_request_loop req irq i (Suc n) x calls = do {
     c \<leftarrow> irq_ctx_at (cx_intr_mng x) i;
     v \<leftarrow> (if i < length irq then Some (irq ! i) else None);
     let x1 = x\<lparr>cx_intr_mng := irq_ctx_set i
       \<lparr>ic_valid = 0, ic_irq = v, ic_wait_flag = None, ic_wait_queue = None\<rparr> (cx_intr_mng x)\<rparr>;
     if req i \<noteq> 0
     then do {
       (x2, calls2) \<leftarrow> trs_thread_bind_irq_uninit x1 (of_nat i) calls;
       Some (req i, x2, calls2)
     }
     else irq_request_loop req irq (Suc i) n x1 (calls @ [RequestIrq v i])
   }"

text \<open>
  \<open>get\<close> is the adapter's \<^verbatim>\<open>get_thread_bind_irq\<close>: its result, the 32 numbers of the array, and how many are valid. \<open>mem\<close> is
  the outcome of \<^verbatim>\<open>kzalloc\<close>.
\<close>

definition trs_thread_bind_irq_init ::
    "(int \<times> u32 list \<times> u32) option \<Rightarrow> bool \<Rightarrow> (nat \<Rightarrow> int) \<Rightarrow> trs_logic_cq_ctx \<Rightarrow> irq_call list \<Rightarrow>
     (int \<times> trs_logic_cq_ctx \<times> irq_call list) option" where
  "trs_thread_bind_irq_init get mem req x calls =
     (case get of
        None \<Rightarrow> Some (0, x, calls)
      | Some (ret, irq, num) \<Rightarrow>
          let x1 = x\<lparr>cx_intr_mng := (cx_intr_mng x)\<lparr>im_irq_num := num\<rparr>\<rparr> in
          if ret \<noteq> 0 then Some (ret, x1, calls)
          else if num = 0 then Some (0, x1, calls)
          else if \<not> mem then Some (- ENOMEM, x1, calls)
          else irq_request_loop req irq 0 (unat num)
            (x1\<lparr>cx_intr_mng := (cx_intr_mng x1)\<lparr>im_irq_ctx := Some (replicate (unat num)
               \<lparr>ic_valid = 0, ic_irq = 0, ic_wait_flag = None, ic_wait_queue = None\<rparr>)\<rparr>\<rparr>) calls)"

fun irq_alloc_loop ::
    "u32 \<Rightarrow> nat \<Rightarrow> nat \<Rightarrow> trs_thread_bind_intr_mng \<Rightarrow> (int \<times> trs_thread_bind_intr_mng) option" where
  "irq_alloc_loop cqid i 0 m = Some (- 1, m)"
| "irq_alloc_loop cqid i (Suc n) m = do {
     c \<leftarrow> irq_ctx_at m i;
     if ic_valid c = 0
     then Some (i32 (uint (ic_irq c)),
            irq_ctx_set i (c\<lparr>ic_valid := 1, ic_wait_flag := Some cqid, ic_wait_queue := Some cqid\<rparr>) m)
     else irq_alloc_loop cqid (Suc i) n m
   }"

definition trs_thread_bind_irq_alloc :: "trs_logic_cq_ctx \<Rightarrow> u32 \<Rightarrow> (int \<times> trs_logic_cq_ctx) option" where
  "trs_thread_bind_irq_alloc x cqid =
     map_option (\<lambda>(irq, m). (irq, x\<lparr>cx_intr_mng := m\<rparr>))
       (irq_alloc_loop cqid 0 (unat (im_irq_num (cx_intr_mng x))) (cx_intr_mng x))"

fun irq_release_loop :: "u32 \<Rightarrow> nat \<Rightarrow> nat \<Rightarrow> trs_thread_bind_intr_mng \<Rightarrow> trs_thread_bind_intr_mng option" where
  "irq_release_loop irq i 0 m = Some m"
| "irq_release_loop irq i (Suc n) m = do {
     c \<leftarrow> irq_ctx_at m i;
     if ic_valid c = 1 \<and> ic_irq c = irq
     then Some (irq_ctx_set i (c\<lparr>ic_valid := 0, ic_wait_flag := None, ic_wait_queue := None\<rparr>) m)
     else irq_release_loop irq (Suc i) n m
   }"

definition trs_thread_bind_irq_free :: "trs_logic_cq_ctx \<Rightarrow> u32 \<Rightarrow> trs_logic_cq_ctx option" where
  "trs_thread_bind_irq_free x irq =
     map_option (\<lambda>m. x\<lparr>cx_intr_mng := m\<rparr>)
       (irq_release_loop irq 0 (unat (im_irq_num (cx_intr_mng x))) (cx_intr_mng x))"

section \<open>Receive and enqueue\<close>

definition trs_logic_cq_recv_para_check ::
    "trs_proc_ctx \<Rightarrow> ('s, 'h) trs_core_ts_inst \<Rightarrow> halReportRecvInfo \<Rightarrow> int option" where
  "trs_logic_cq_recv_para_check c ts para = do {
     has \<leftarrow> trs_proc_has_res c ts TRS_LOGIC_CQ (rr_cqId para);
     Some (if \<not> has then - EINVAL
           else if rr_timeout para < 0 \<and> rr_timeout para \<noteq> - 1 \<or> rr_cqe_num para = 0 \<or> rr_cqe_addr para = 0 then - EINVAL
           else 0)
   }"

text \<open>The first component is \<open>None\<close> for a receive that is still running after \<open>fuel\<close> rounds.\<close>

definition trs_logic_cq_recv ::
    "lq_env \<Rightarrow> nat \<Rightarrow> trs_proc_ctx \<Rightarrow> ('s, 'h) trs_core_ts_inst \<Rightarrow> trs_logic_cq_ctx \<Rightarrow> halReportRecvInfo \<Rightarrow>
     (int option \<times> halReportRecvInfo \<times> trs_logic_cq_ctx \<times> lq_out) option" where
  "trs_logic_cq_recv e fuel c ts x para = do {
     ret \<leftarrow> trs_logic_cq_recv_para_check c ts para;
     if ret \<noteq> 0 then Some (Some ret, para, x, lq_quiet)
     else do {
       q \<leftarrow> cq_at x (rr_cqId para);
       let q1 = q\<lparr>lq_stat := (lq_stat q)\<lparr>ls_recv_in := ls_recv_in (lq_stat q) + 1\<rparr>\<rparr>;
       if lq_thread_bind_irq q1 \<ge> 0
       then Some (Some (trs_thread_bind_irq_wait e q1 (rr_timeout para)), para, cq_set (rr_cqId para) q1 x, lq_quiet)
       else do {
         (r, para', q2, out) \<leftarrow> recv_rounds e (pq_chan_id (cx_phy_cq x)) 0 fuel q1 para lq_quiet;
         Some (r, para', cq_set (rr_cqId para) q2 x, out)
       }
     }
   }"

text \<open>\<^verbatim>\<open>trs_logic_cq_enque\<close> for the queue with the given id.\<close>

definition ctx_enque :: "bool \<Rightarrow> trs_logic_cq_ctx \<Rightarrow> u32 \<Rightarrow> u8 list \<Rightarrow> (int \<times> trs_logic_cq_ctx) option" where
  "ctx_enque active x logic_cq_id cqe = do {
     q \<leftarrow> cq_at x logic_cq_id;
     (ret, q') \<leftarrow> trs_logic_cq_enque active q cqe;
     Some (ret, cq_set logic_cq_id q' x)
   }"

text \<open>\<^verbatim>\<open>logic_cq_id\<close> is the upper twelve bits of the first halfword of a version 1 entry.\<close>

definition trs_logic_phy_cq_recv_proc ::
    "bool \<Rightarrow> trs_logic_cq_ctx \<Rightarrow> u32 \<Rightarrow> u8 list \<Rightarrow> (int \<times> trs_logic_cq_ctx) option" where
  "trs_logic_phy_cq_recv_proc active x cqid cqe =
     (if pq_cqid (cx_phy_cq x) \<noteq> cqid then Some (CQ_RECV_FINISH, x)
      else do {
        w \<leftarrow> get_u16 cqe 0;
        let i = (ucast (drop_bit 4 w) :: u32);
        if i \<ge> cx_cq_num x then Some (CQ_RECV_FINISH, x)
        else do {
          (ret, x') \<leftarrow> ctx_enque active x i cqe;
          Some (if ret = - EAGAIN then CQ_RECV_CONTINUE else CQ_RECV_FINISH, x')
        }
      })"

text \<open>\<open>x\<close> is \<open>None\<close> when the instance is not registered.\<close>

definition trs_logic_phy_cq_recv ::
    "bool \<Rightarrow> trs_logic_cq_ctx option \<Rightarrow> u32 \<Rightarrow> u8 list \<Rightarrow> (int \<times> trs_logic_cq_ctx option) option" where
  "trs_logic_phy_cq_recv active x cqid cqe =
     (case x of
        None \<Rightarrow> Some (CQ_RECV_FINISH, None)
      | Some y \<Rightarrow> map_option (\<lambda>(ret, y'). (ret, Some y')) (trs_logic_phy_cq_recv_proc active y cqid cqe))"

section \<open>The physical queue\<close>

definition trs_logic_alloc_phy_cq ::
    "'h trs_chan_ops \<Rightarrow> trs_id_inst \<Rightarrow> 'h \<Rightarrow> trs_logic_cq_ctx \<Rightarrow> int \<times> 'h \<times> trs_logic_cq_ctx" where
  "trs_logic_alloc_phy_cq ch inst h x =
     (case ch_create ch h inst of
        (ret, chan, h') \<Rightarrow>
          let p = (case chan of None \<Rightarrow> cx_phy_cq x | Some i \<Rightarrow> (cx_phy_cq x)\<lparr>pq_chan_id := i\<rparr>) in
          if ret \<noteq> 0 then (ret, h', x\<lparr>cx_phy_cq := p\<rparr>)
          else (case ch_cq_info ch h' inst (pq_chan_id p) of
             (cqid, irq, addr) \<Rightarrow>
               (0, h', x\<lparr>cx_phy_cq := p\<lparr>pq_cqid := cqid, pq_cq_irq := irq, pq_cq_phy_addr := addr\<rparr>\<rparr>)))"

definition trs_logic_free_phy_cq ::
    "'h trs_chan_ops \<Rightarrow> trs_id_inst \<Rightarrow> 'h \<Rightarrow> trs_logic_cq_ctx \<Rightarrow> 'h \<times> trs_logic_cq_ctx" where
  "trs_logic_free_phy_cq ch inst h x =
     (ch_destroy ch h inst (pq_chan_id (cx_phy_cq x)), x\<lparr>cx_phy_cq := (cx_phy_cq x)\<lparr>pq_chan_id := - 1\<rparr>\<rparr>)"

section \<open>Allocation\<close>

definition bind_num_add :: "u32 \<Rightarrow> int \<Rightarrow> trs_proc_ctx \<Rightarrow> trs_proc_ctx" where
  "bind_num_add tsid d c =
     (let t = pc_ts_ctx c tsid in
      c\<lparr>pc_ts_ctx := (pc_ts_ctx c)(tsid := t\<lparr>pt_thread_bind_irq_num := i32 (pt_thread_bind_irq_num t + d)\<rparr>)\<rparr>)"

text \<open>
  The interrupt of a new queue: -1 where none is asked for, the process has its share or none is left. The flags tell the
  caller.
\<close>

definition bind_irq_setup ::
    "trs_proc_ctx \<Rightarrow> u32 \<Rightarrow> trs_logic_cq_ctx \<Rightarrow> u32 \<Rightarrow> u32 \<Rightarrow> (int \<times> u32 \<times> trs_proc_ctx \<times> trs_logic_cq_ctx) option" where
  "bind_irq_setup c tsid x cqid flag =
     (if and flag TSDRV_FLAG_THREAD_BIND_IRQ = 0 then Some (- 1, flag, c, x)
      else do {
        (irq, x1) \<leftarrow> (if pt_thread_bind_irq_num (pc_ts_ctx c tsid) < TRS_PROC_MAX_THREAD_BIND_IRQ_NUM
                      then trs_thread_bind_irq_alloc x cqid else Some (- 1, x));
        Some (if irq < 0 then (irq, and flag (not TSDRV_FLAG_THREAD_BIND_IRQ), c, x1)
              else (irq, flag, bind_num_add tsid 1 c, x1))
      })"

text \<open>\<open>vmem\<close> is the outcome of \<^verbatim>\<open>vzalloc\<close>.\<close>

definition trs_logic_cq_id_init ::
    "bool \<Rightarrow> trs_proc_ctx \<Rightarrow> ('s, 'h) trs_core_ts_inst \<Rightarrow> trs_logic_cq_ctx \<Rightarrow> halSqCqInputInfo \<Rightarrow>
     (int \<times> trs_proc_ctx \<times> ('s, 'h) trs_core_ts_inst \<times> trs_logic_cq_ctx \<times> halSqCqInputInfo) option" where
  "trs_logic_cq_id_init vmem c ts x para = do {
     (ret, c1, ts1) \<leftarrow> trs_proc_add_res c ts TRS_LOGIC_CQ (si_cqId para);
     if ret \<noteq> 0 then Some (- EINVAL, c1, ts1, x, para)
     else do {
       q \<leftarrow> cq_at x (si_cqId para);
       if \<not> vmem
       then do {
         (_, c2, ts2) \<leftarrow> trs_proc_del_res c1 ts1 TRS_LOGIC_CQ (si_cqId para);
         Some (- ENOMEM, c2, ts2, cq_set (si_cqId para) (q\<lparr>lq_addr := None\<rparr>) x, para)
       }
       else do {
         (irq, flag, c2, x1) \<leftarrow> bind_irq_setup c1 (ti_tsid (ct_inst ts)) x (si_cqId para) (si_flag para);
         let q1 = q\<lparr>lq_addr := Some (replicate (unat (si_cqeDepth para * si_cqeSize para)) 0), lq_thread_bind_irq := irq,
           lq_cqid := si_cqId para,
           lq_cqe_verion := (if trs_is_stars_inst ts then LOGIC_CQE_VERSION_V2 else LOGIC_CQE_VERSION_V1),
           lq_cq_depth := si_cqeDepth para, lq_cqe_size := si_cqeSize para, lq_head := 0, lq_tail := 0, lq_flag := flag,
           lq_wakeup_num := 0, lq_wait_thread_num := 0, lq_valid := 1\<rparr>;
         Some (0, c2, ts1, cq_set (si_cqId para) q1 x1, para\<lparr>si_flag := flag\<rparr>)
       }
     }
   }"

definition trs_logic_cq_id_uninit ::
    "bool \<Rightarrow> trs_proc_ctx \<Rightarrow> ('s, 'h) trs_core_ts_inst \<Rightarrow> trs_logic_cq_ctx \<Rightarrow> u32 \<Rightarrow>
     (trs_proc_ctx \<times> ('s, 'h) trs_core_ts_inst \<times> trs_logic_cq_ctx) option" where
  "trs_logic_cq_id_uninit active c ts x cqid = do {
     q \<leftarrow> cq_at x cqid;
     let q1 = trs_logic_cq_wakeup active (q\<lparr>lq_valid := 0\<rparr>);
     (c1, x1) \<leftarrow> (if lq_thread_bind_irq q1 \<ge> 0
       then do {
         x' \<leftarrow> trs_thread_bind_irq_free x (word_of_int (lq_thread_bind_irq q1));
         Some (bind_num_add (ti_tsid (ct_inst ts)) (- 1) c, x')
       }
       else Some (c, x));
     (_, c2, ts2) \<leftarrow> trs_proc_del_res c1 ts TRS_LOGIC_CQ cqid;
     Some (c2, ts2, cq_set cqid (q1\<lparr>lq_addr := None\<rparr>) x1)
   }"

definition trs_logic_cq_alloc_notice_ts ::
    "trs_proc_ctx \<Rightarrow> ('s, 'h) trs_core_ts_inst \<Rightarrow> ('s, 'h) trs_res_w \<Rightarrow> trs_logic_cq_ctx \<Rightarrow> halSqCqInputInfo \<Rightarrow>
     (int \<times> ('s, 'h) trs_res_w \<times> trs_logic_cq_ctx) option" where
  "trs_logic_cq_alloc_notice_ts c ts w x para = do {
     q \<leftarrow> cq_at x (si_cqId para);
     let p = cx_phy_cq x;
     let bound = lq_thread_bind_irq q \<ge> 0;
     let first = \<not> bound \<and> pq_notice_flag p = 0;
     let msg = LogicCqAllocMsg (if first then pq_cq_phy_addr p else 0) (ucast (si_cqeSize para)) (ucast (si_cqeDepth para))
       (word_of_int (pc_pid c)) (ucast (si_cqId para)) (ucast (pq_cqid p))
       (if bound then word_of_int (lq_thread_bind_irq q) else ucast (pq_cq_irq p)) (if bound then 1 else 0) (si_info para);
     let x1 = (if first then x\<lparr>cx_phy_cq := p\<lparr>pq_notice_flag := 1\<rparr>\<rparr> else x);
     case res_send ts w msg of (ret, w1) \<Rightarrow> Some (ret, w1, x1)
   }"

definition trs_logic_cq_alloc_para_check :: "halSqCqInputInfo \<Rightarrow> int" where
  "trs_logic_cq_alloc_para_check para =
     (if si_cqeDepth para > LOGIC_CQ_MAX_DEPTH \<or> si_cqeDepth para = 0 \<or>
         si_cqeSize para > of_nat LOGIC_CQE_SIZE \<or> si_cqeSize para = 0 then - EINVAL else 0)"

text \<open>The state that these operations work on.\<close>

record ('s, 'h) trs_logic_st =
  lg_proc :: trs_proc_ctx
  lg_ts :: "('s, 'h) trs_core_ts_inst"
  lg_w :: "('s, 'h) trs_res_w"
  lg_ctx :: trs_logic_cq_ctx

definition logic_id_free ::
    "trs_res_env \<Rightarrow> u32 \<Rightarrow> ('s, 'h) trs_logic_st \<Rightarrow> ('s, 'h) trs_logic_st option" where
  "logic_id_free env i st =
     map_option (\<lambda>(_, ids). st\<lparr>lg_w := (lg_w st)\<lparr>rw_ids := ids\<rparr>\<rparr>)
       (trs_id_free (en_fmodok env) (en_fmem env) (rw_ids (lg_w st)) (Some (ct_inst (lg_ts st))) TRS_LOGIC_CQ_ID i)"

text \<open>Giving the queue and its id back on the error paths of the allocation.\<close>

definition logic_alloc_undo ::
    "trs_res_env \<Rightarrow> bool \<Rightarrow> u32 \<Rightarrow> ('s, 'h) trs_logic_st \<Rightarrow> ('s, 'h) trs_logic_st option" where
  "logic_alloc_undo env active i st = do {
     (c, ts, x) \<leftarrow> trs_logic_cq_id_uninit active (lg_proc st) (lg_ts st) (lg_ctx st) i;
     logic_id_free env i (st\<lparr>lg_proc := c, lg_ts := ts, lg_ctx := x\<rparr>)
   }"

definition logic_phy_setup :: "'h trs_chan_ops \<Rightarrow> ('s, 'h) trs_logic_st \<Rightarrow> int \<times> ('s, 'h) trs_logic_st" where
  "logic_phy_setup ch st =
     (if pq_chan_id (cx_phy_cq (lg_ctx st)) = - 1
      then (case trs_logic_alloc_phy_cq ch (ct_inst (lg_ts st)) (rw_hw (lg_w st)) (lg_ctx st) of
              (ret, h, x) \<Rightarrow> (ret, st\<lparr>lg_w := (lg_w st)\<lparr>rw_hw := h\<rparr>, lg_ctx := x\<rparr>))
      else (0, st))"

text \<open>
  The last part of the allocation: without stars hardware the physical queue is set up, once, and the task scheduler told.
\<close>

definition logic_alloc_announce ::
    "'h trs_chan_ops \<Rightarrow> trs_res_env \<Rightarrow> bool \<Rightarrow> ('s, 'h) trs_logic_st \<Rightarrow> halSqCqInputInfo \<Rightarrow> (int \<times> ('s, 'h) trs_logic_st) option" where
  "logic_alloc_announce ch env active st para =
     (if trs_is_stars_inst (lg_ts st) then Some (0, st)
      else case logic_phy_setup ch st of
        (ret, st1) \<Rightarrow>
          if ret \<noteq> 0
          then do { st2 \<leftarrow> logic_alloc_undo env active (si_cqId para) st1; Some (ret, st2) }
          else do {
            (ret2, w, x) \<leftarrow> trs_logic_cq_alloc_notice_ts (lg_proc st1) (lg_ts st1) (lg_w st1) (lg_ctx st1) para;
            let st2 = st1\<lparr>lg_w := w, lg_ctx := x\<rparr>;
            if ret2 \<noteq> 0
            then do { st3 \<leftarrow> logic_alloc_undo env active (si_cqId para) st2; Some (ret2, st3) }
            else Some (0, st2)
          })"

definition trs_logic_cq_alloc ::
    "'h trs_chan_ops \<Rightarrow> trs_res_env \<Rightarrow> bool \<Rightarrow> bool \<Rightarrow> ('s, 'h) trs_logic_st \<Rightarrow> halSqCqInputInfo \<Rightarrow>
     (int \<times> ('s, 'h) trs_logic_st \<times> halSqCqInputInfo) option" where
  "trs_logic_cq_alloc ch env vmem active st para =
     (if trs_logic_cq_alloc_para_check para \<noteq> 0 then Some (trs_logic_cq_alloc_para_check para, st, para)
      else do {
        ((ret, r), ids) \<leftarrow> trs_id_alloc (en_modok env) (en_mem env) (rw_ids (lg_w st)) (Some (ct_inst (lg_ts st))) TRS_LOGIC_CQ_ID True;
        let para1 = (case r of None \<Rightarrow> para | Some i \<Rightarrow> para\<lparr>si_cqId := i\<rparr>);
        let st1 = st\<lparr>lg_w := (lg_w st)\<lparr>rw_ids := ids\<rparr>\<rparr>;
        if ret \<noteq> 0 then Some (ret, st1, para1)
        else do {
          (ret2, c, ts, x, para2) \<leftarrow> trs_logic_cq_id_init vmem (lg_proc st1) (lg_ts st1) (lg_ctx st1) para1;
          let st2 = st1\<lparr>lg_proc := c, lg_ts := ts, lg_ctx := x\<rparr>;
          if ret2 \<noteq> 0
          then do { st3 \<leftarrow> logic_id_free env (si_cqId para2) st2; Some (ret2, st3, para2) }
          else do { (ret3, st3) \<leftarrow> logic_alloc_announce ch env active st2 para2; Some (ret3, st3, para2) }
        }
      })"

section \<open>Release\<close>

definition trs_logic_cq_free_notice_ts ::
    "trs_proc_ctx \<Rightarrow> ('s, 'h) trs_core_ts_inst \<Rightarrow> ('s, 'h) trs_res_w \<Rightarrow> u32 \<Rightarrow> int \<times> ('s, 'h) trs_res_w" where
  "trs_logic_cq_free_notice_ts c ts w logic_cqid =
     res_send ts w (LogicCqFreeMsg (word_of_int (pc_pid c)) (ucast logic_cqid) TRS_INVALID_PHY_CQID)"

definition trs_logic_cq_is_need_show :: "trs_logic_cq \<Rightarrow> bool" where
  "trs_logic_cq_is_need_show q \<longleftrightarrow> ls_full_drop (lq_stat q) \<noteq> 0 \<or> lq_head q \<noteq> lq_tail q"

text \<open>\<^verbatim>\<open>trs_logic_cq_show\<close> only prints; what \<^verbatim>\<open>trs_logic_cq_is_need_show\<close> reads has to exist.\<close>

definition trs_logic_cq_free0 ::
    "trs_res_env \<Rightarrow> bool \<Rightarrow> ('s, 'h) trs_logic_st \<Rightarrow> u32 \<Rightarrow> (int \<times> ('s, 'h) trs_logic_st) option" where
  "trs_logic_cq_free0 env active st cqId = do {
     has \<leftarrow> trs_proc_has_res (lg_proc st) (lg_ts st) TRS_LOGIC_CQ cqId;
     if \<not> has then Some (- EINVAL, st)
     else do {
       let st1 = (if trs_is_stars_inst (lg_ts st) then st
         else st\<lparr>lg_w := snd (trs_logic_cq_free_notice_ts (lg_proc st) (lg_ts st) (lg_w st) cqId)\<rparr>);
       _ \<leftarrow> map_option trs_logic_cq_is_need_show (cq_at (lg_ctx st1) cqId);
       st2 \<leftarrow> logic_alloc_undo env active cqId st1;
       Some (0, st2)
     }
   }"

definition trs_logic_cq_free ::
    "trs_res_env \<Rightarrow> bool \<Rightarrow> ('s, 'h) trs_logic_st \<Rightarrow> u32 \<Rightarrow> (int \<times> ('s, 'h) trs_logic_st) option" where
  "trs_logic_cq_free env active st cqId = trs_logic_cq_free0 env active st cqId"

definition trs_logic_cq_recycle ::
    "trs_res_env \<Rightarrow> bool \<Rightarrow> ('s, 'h) trs_logic_st \<Rightarrow> int \<Rightarrow> u32 \<Rightarrow> ('s, 'h) trs_logic_st option" where
  "trs_logic_cq_recycle env active st res_type res_id = map_option snd (trs_logic_cq_free0 env active st res_id)"

section \<open>Start and end\<close>

definition zero_cq :: trs_logic_cq where
  "zero_cq = \<lparr>lq_flag = 0, lq_cqid = 0, lq_valid = 0, lq_cqe_verion = 0, lq_thread_bind_irq = 0, lq_head = 0, lq_tail = 0,
     lq_cqe_size = 0, lq_cq_depth = 0, lq_addr = None, lq_wakeup_num = 0, lq_wait_thread_num = 0,
     lq_stat = \<lparr>ls_enque = 0, ls_full_drop = 0, ls_wakeup = 0, ls_recv = 0, ls_recv_in = 0, ls_timeout = 0\<rparr>\<rparr>"

definition trs_logic_cq_init ::
    "bool \<Rightarrow> (int \<times> u32 list \<times> u32) option \<Rightarrow> bool \<Rightarrow> (nat \<Rightarrow> int) \<Rightarrow> ('s, 'h) trs_core_ts_inst \<Rightarrow> trs_logic_cq_ctx \<Rightarrow>
     irq_call list \<Rightarrow> (int \<times> trs_logic_cq_ctx \<times> irq_call list) option" where
  "trs_logic_cq_init vmem get mem req ts x calls =
     (if \<not> vmem then Some (- ENOMEM, x\<lparr>cx_cq := None\<rparr>, calls)
      else do {
        let max_id = trs_res_get_max_id ts TRS_LOGIC_CQ;
        let x1 = x\<lparr>cx_cq := Some (replicate (unat max_id) zero_cq), cx_cq_num := max_id,
          cx_phy_cq := (cx_phy_cq x)\<lparr>pq_chan_id := - 1\<rparr>\<rparr>;
        (ret, x2, calls2) \<leftarrow> trs_thread_bind_irq_init get mem req x1 calls;
        Some (if ret \<noteq> 0 then (ret, x2\<lparr>cx_cq := None\<rparr>, calls2) else (0, x2, calls2))
      })"

definition trs_logic_cq_uninit ::
    "'h trs_chan_ops \<Rightarrow> trs_id_inst \<Rightarrow> 'h \<Rightarrow> trs_logic_cq_ctx \<Rightarrow> 'h \<times> trs_logic_cq_ctx" where
  "trs_logic_cq_uninit ch inst h x =
     (let (h1, x1) = (if pq_chan_id (cx_phy_cq x) \<noteq> - 1 then trs_logic_free_phy_cq ch inst h x else (h, x))
      in (h1, (trs_thread_bind_irq_sw_res_uninit x1)\<lparr>cx_cq := None\<rparr>))"

end
