(* ===== verification/Logic_Inv.thy ===== *)
theory Logic_Inv
  imports Logic_Mng
begin

text \<open>
  The queues of an instance as processes allocate and release them: which queue is in use, by whom, and that its id is one
  the allocator has given out.
\<close>

declare split_paired_All [simp del] split_paired_Ex [simp del]

section \<open>Contexts\<close>

lemma cq_set_at:
  "cq_at x i = Some q \<Longrightarrow> cq_at (cq_set i q' x) j = (if j = i then Some q' else cq_at x j)"
  by (auto simp: cq_at_def cq_set_def word_unat_eq_iff split: option.splits if_splits)

lemma cq_set_simps [simp]:
  "cx_cq_num (cq_set i q x) = cx_cq_num x" "cx_phy_cq (cq_set i q x) = cx_phy_cq x"
  "cx_intr_mng (cq_set i q x) = cx_intr_mng x"
  by (simp_all add: cq_set_def)

lemma cq_at_simps [simp]:
  "cq_at (x\<lparr>cx_phy_cq := p\<rparr>) = cq_at x" "cq_at (x\<lparr>cx_intr_mng := m\<rparr>) = cq_at x"
  by (simp_all add: fun_eq_iff cq_at_def)

text \<open>The interrupt contexts are there for all the interrupts that are counted.\<close>

definition intr_ok :: "trs_thread_bind_intr_mng \<Rightarrow> bool" where
  "intr_ok m \<longleftrightarrow> im_irq_num m = 0 \<or> (\<exists>cs. im_irq_ctx m = Some cs \<and> length cs = unat (im_irq_num m))"

lemma intr_ok_at: "intr_ok m \<Longrightarrow> i < unat (im_irq_num m) \<Longrightarrow> \<exists>c. irq_ctx_at m i = Some c"
  by (auto simp: intr_ok_def irq_ctx_at_def)

lemma intr_ok_set [simp]: "intr_ok (irq_ctx_set i c m) = intr_ok m" "im_irq_num (irq_ctx_set i c m) = im_irq_num m"
  by (auto simp: intr_ok_def irq_ctx_set_def)

lemma irq_alloc_loop_ok:
  assumes "intr_ok m" "i + n \<le> unat (im_irq_num m)"
  shows "\<exists>irq m'. irq_alloc_loop cqid i n m = Some (irq, m') \<and> intr_ok m'"
  using assms
proof (induction cqid i n m rule: irq_alloc_loop.induct)
  case (2 cqid i n m)
  obtain c where c: "irq_ctx_at m i = Some c" using intr_ok_at [OF 2(2), of i] 2(3) by auto
  show ?case
  proof (cases "ic_valid c = 0")
    case True
    with c 2(2) show ?thesis by simp
  next
    case False
    with 2(1) [OF c False 2(2)] 2(3) c show ?thesis by simp
  qed
qed simp

lemma irq_release_loop_ok:
  assumes "intr_ok m" "i + n \<le> unat (im_irq_num m)"
  shows "\<exists>m'. irq_release_loop irq i n m = Some m' \<and> intr_ok m'"
  using assms
proof (induction irq i n m rule: irq_release_loop.induct)
  case (2 irq i n m)
  obtain c where c: "irq_ctx_at m i = Some c" using intr_ok_at [OF 2(2), of i] 2(3) by auto
  show ?case
  proof (cases "ic_valid c = 1 \<and> ic_irq c = irq")
    case True
    with c 2(2) show ?thesis by simp
  next
    case False
    with 2(1) [OF c False 2(2)] 2(3) c show ?thesis by auto
  qed
qed simp

text \<open>What the counter of bound interrupts leaves alone.\<close>

lemma bind_num_simps [simp]:
  "pc_pid (bind_num_add t d c) = pc_pid c" "pc_task_id (bind_num_add t d c) = pc_task_id c"
  "trs_get_proc_res_num (bind_num_add t d c) tsid ty = trs_get_proc_res_num c tsid ty"
  by (simp_all add: bind_num_add_def Let_def trs_get_proc_res_num_def)

lemma proc_match_bind [simp]: "proc_match (bind_num_add t d c) = proc_match c"
  by (simp add: fun_eq_iff proc_match_def)

lemma res_inv_bind:
  assumes "res_inv ty ts procs out g" "procs a = Some c"
  shows "res_inv ty ts (procs(a \<mapsto> bind_num_add t d c)) out g"
proof -
  have "procs_ok tsid ty xs (procs(a \<mapsto> bind_num_add t d c))" if "procs_ok tsid ty xs procs" for tsid xs
    using that assms(2) unfolding procs_ok_def by (auto simp del: split_paired_All)
  with assms(1) show ?thesis unfolding res_inv_def by blast
qed

lemma bind_irq_setup_ok:
  assumes "intr_ok (cx_intr_mng x)"
  obtains irq flag' c' m where "bind_irq_setup c t x i flag = Some (irq, flag', c', x\<lparr>cx_intr_mng := m\<rparr>)" "intr_ok m"
    "c' = c \<or> c' = bind_num_add t 1 c"
proof (cases "and flag TSDRV_FLAG_THREAD_BIND_IRQ = 0")
  case True
  with assms that [of "- 1" flag c "cx_intr_mng x"] show thesis by (simp add: bind_irq_setup_def)
next
  case False
  obtain irq m where l: "irq_alloc_loop i 0 (unat (im_irq_num (cx_intr_mng x))) (cx_intr_mng x) = Some (irq, m)" "intr_ok m"
    using irq_alloc_loop_ok [OF assms, of 0 "unat (im_irq_num (cx_intr_mng x))" i] by auto
  define irq' m' where d: "irq' = (if pt_thread_bind_irq_num (pc_ts_ctx c t) < TRS_PROC_MAX_THREAD_BIND_IRQ_NUM then irq else - 1)"
    "m' = (if pt_thread_bind_irq_num (pc_ts_ctx c t) < TRS_PROC_MAX_THREAD_BIND_IRQ_NUM then m else cx_intr_mng x)"
  have "bind_irq_setup c t x i flag =
      Some (if irq' < 0 then (irq', and flag (not TSDRV_FLAG_THREAD_BIND_IRQ), c, x\<lparr>cx_intr_mng := m'\<rparr>)
            else (irq', flag, bind_num_add t 1 c, x\<lparr>cx_intr_mng := m'\<rparr>))"
    using False l(1) by (simp add: bind_irq_setup_def trs_thread_bind_irq_alloc_def d)
  moreover have "intr_ok m'" using assms l(2) by (simp add: d)
  ultimately show thesis by (cases "irq' < 0") (auto intro: that)
qed

lemma bind_irq_release_ok:
  assumes "intr_ok (cx_intr_mng x)"
  obtains c1 m where "(if irq \<ge> 0
       then do {
         x' \<leftarrow> trs_thread_bind_irq_free x (word_of_int irq);
         Some (bind_num_add t (- 1) c, x')
       }
       else Some (c, x)) = Some (c1, x\<lparr>cx_intr_mng := m\<rparr>)" "intr_ok m" "c1 = c \<or> (\<exists>t d. c1 = bind_num_add t d c)"
proof (cases "irq \<ge> 0")
  case True
  obtain m where "irq_release_loop (word_of_int irq) 0 (unat (im_irq_num (cx_intr_mng x))) (cx_intr_mng x) = Some m" "intr_ok m"
    using irq_release_loop_ok [OF assms, of 0 "unat (im_irq_num (cx_intr_mng x))" "word_of_int irq"] by auto
  with True that [of "bind_num_add t (- 1) c" m] show thesis by (auto simp: trs_thread_bind_irq_free_def)
next
  case False
  with that [of c "cx_intr_mng x"] assms show thesis by simp
qed

section \<open>The invariant\<close>

text \<open>A queue in use has the memory for its slots, and its positions are in range; one that is not has no memory.\<close>

definition lcq_ok :: "trs_logic_cq \<Rightarrow> bool" where
  "lcq_ok q \<longleftrightarrow>
     (if lq_valid q = 0 then lq_addr q = None
      else (\<exists>bs. lq_addr q = Some bs \<and> length bs = unat (lq_cq_depth q) * unat (lq_cqe_size q)) \<and>
        0 < lq_cq_depth q \<and> lq_cq_depth q \<le> LOGIC_CQ_MAX_DEPTH \<and> 0 < lq_cqe_size q \<and> lq_cqe_size q \<le> 32 \<and>
        lq_head q < lq_cq_depth q \<and> lq_tail q < lq_cq_depth q)"

text \<open>
  Every queue is well shaped, and it is in use exactly while its id is owned by a process; the ids with an owner are ids
  that the allocator has given out (\<open>out\<close>).
\<close>

definition logic_inv ::
    "('s trs_ids \<Rightarrow> u32 set \<Rightarrow> bool) \<Rightarrow> trs_id_inst \<Rightarrow> u32 \<Rightarrow> ('s, 'h) trs_core_ts_inst \<Rightarrow> (nat \<rightharpoonup> trs_proc_ctx) \<Rightarrow>
     ('s, 'h) trs_res_w \<Rightarrow> trs_logic_cq_ctx \<Rightarrow> u32 set \<Rightarrow> bool" where
  "logic_inv holds inst lim ts procs w x out \<longleftrightarrow>
     res_inv TRS_LOGIC_CQ ts procs out (\<lambda>_. 0) \<and> holds (rw_ids w) out \<and> ct_inst ts = inst \<and>
     rm_max_id (ct_res_mng ts TRS_LOGIC_CQ) = lim \<and> intr_ok (cx_intr_mng x) \<and>
     (\<forall>i. i < lim \<longrightarrow> (\<exists>q e. cq_at x i = Some q \<and> res_entry ts TRS_LOGIC_CQ i = Some e \<and> lcq_ok q \<and>
        (lq_valid q \<noteq> 0 \<longleftrightarrow> res_owned e)))"

lemma logic_invD:
  assumes "logic_inv holds inst lim ts procs w x out"
  shows "res_inv TRS_LOGIC_CQ ts procs out (\<lambda>_. 0)" "holds (rw_ids w) out" "ct_inst ts = inst"
    "rm_max_id (ct_res_mng ts TRS_LOGIC_CQ) = lim" "intr_ok (cx_intr_mng x)"
    "\<And>i. i < lim \<Longrightarrow> \<exists>q e. cq_at x i = Some q \<and> res_entry ts TRS_LOGIC_CQ i = Some e \<and> lcq_ok q \<and>
        (lq_valid q \<noteq> 0 \<longleftrightarrow> res_owned e)"
  using assms by (simp_all add: logic_inv_def)

lemma logic_inv_entry:
  assumes "logic_inv holds inst lim ts procs w x out" "res_entry ts TRS_LOGIC_CQ i = Some e"
  shows "i < lim"
  using logic_invD(1,4) [OF assms(1)] assms(2)
  by (auto simp: res_inv_def res_table_def res_entry_def res_ids_at_def word_less_nat_alt split: if_splits)

lemma lcq_ok_unused: "lcq_ok q \<Longrightarrow> lq_valid q = 0 \<Longrightarrow> lq_addr q = None"
  by (simp add: lcq_ok_def)

lemma lcq_ok_wakeup: "lq_addr (trs_logic_cq_wakeup active q) = lq_addr q" "lq_valid (trs_logic_cq_wakeup active q) = lq_valid q"
  "lq_thread_bind_irq (trs_logic_cq_wakeup active q) = lq_thread_bind_irq q"
  by (simp_all add: trs_logic_cq_wakeup_def Let_def)

text \<open>The state of a queue that has just been set up.\<close>

definition fresh_cq :: "('s, 'h) trs_core_ts_inst \<Rightarrow> halSqCqInputInfo \<Rightarrow> trs_logic_cq \<Rightarrow> bool" where
  "fresh_cq ts para q \<longleftrightarrow>
     lq_valid q = 1 \<and> lq_cqid q = si_cqId para \<and> lq_head q = 0 \<and> lq_tail q = 0 \<and>
     lq_cq_depth q = si_cqeDepth para \<and> lq_cqe_size q = si_cqeSize para \<and>
     lq_cqe_verion q = (if trs_is_stars_inst ts then LOGIC_CQE_VERSION_V2 else LOGIC_CQE_VERSION_V1) \<and>
     lq_addr q = Some (replicate (unat (si_cqeDepth para) * unat (si_cqeSize para)) 0)"

lemma para_check_sizes:
  assumes "trs_logic_cq_alloc_para_check para = 0"
  shows "0 < si_cqeDepth para" "si_cqeDepth para \<le> LOGIC_CQ_MAX_DEPTH" "0 < si_cqeSize para" "si_cqeSize para \<le> 32"
    "unat (si_cqeDepth para * si_cqeSize para) = unat (si_cqeDepth para) * unat (si_cqeSize para)"
proof -
  show le: "0 < si_cqeDepth para" "si_cqeDepth para \<le> LOGIC_CQ_MAX_DEPTH" "0 < si_cqeSize para" "si_cqeSize para \<le> 32"
    using assms by (auto simp: trs_logic_cq_alloc_para_check_def word_neq_0_conv not_less split: if_splits)
  have "unat (si_cqeDepth para) * unat (si_cqeSize para) \<le> 65536 * 32"
    using le(2,4) by (intro mult_le_mono) (simp_all add: word_le_nat_alt)
  then show "unat (si_cqeDepth para * si_cqeSize para) = unat (si_cqeDepth para) * unat (si_cqeSize para)"
    by (simp add: unat_word_ariths)
qed

lemma res_frame_trans:
  assumes "res_frame ty ts ts1" "res_frame ty ts1 ts2"
  shows "res_frame ty ts ts2"
proof -
  obtain m n where "ts1 = res_mng_set ty m ts" "rm_max_id m = rm_max_id (ct_res_mng ts ty)" "ts2 = res_mng_set ty n ts1"
    "rm_max_id n = rm_max_id (ct_res_mng ts1 ty)" using assms unfolding res_frame_def by blast
  then show ?thesis unfolding res_frame_def by (intro exI [of _ n]) (simp add: res_mng_set_def)
qed

lemma stars_frame: "res_frame ty ts ts' \<Longrightarrow> trs_is_stars_inst ts' = trs_is_stars_inst ts"
  by (auto simp: res_frame_def res_mng_set_def trs_is_stars_inst_def)

text \<open>A queue in use.\<close>

definition in_use :: "trs_logic_cq_ctx \<Rightarrow> u32 \<Rightarrow> bool" where
  "in_use x i \<longleftrightarrow> (case cq_at x i of None \<Rightarrow> False | Some q \<Rightarrow> lq_valid q \<noteq> 0)"

lemma logic_inv_quiet:
  assumes "logic_inv holds inst lim ts procs w x out" "rw_ids w' = rw_ids w" "cq_at x' = cq_at x" "cx_intr_mng x' = cx_intr_mng x"
  shows "logic_inv holds inst lim ts procs w' x' out"
  using assms by (simp add: logic_inv_def)

lemma in_use_elsewhere:
  assumes "\<And>j. j \<noteq> i \<Longrightarrow> cq_at x' j = cq_at x j" "\<not> in_use x i"
  shows "in_use x j \<Longrightarrow> cq_at x' j = cq_at x j" "\<not> in_use x' i \<Longrightarrow> in_use x' j = in_use x j"
  using assms by (cases "j = i"; auto simp: in_use_def)+

text \<open>An id that this layer does not hold has no owner, and its queue is not in use.\<close>

lemma not_held_unowned:
  assumes "res_inv ty ts procs out g" "i \<notin> out" "res_entry ts ty i = Some e"
  shows "\<not> res_owned e"
proof -
  obtain xs where xs: "res_table (ct_res_mng ts ty) xs g" "\<And>k. k < length xs \<Longrightarrow> res_live (xs ! k) \<Longrightarrow> of_nat k \<in> out"
    using assms(1) by (rule res_invE) blast
  have k: "unat i < length xs" using assms(3) xs(1) by (auto simp: res_entry_def res_ids_at_def res_table_def split: if_splits)
  have "\<not> res_live (xs ! unat i)" using xs(2) [OF k] assms(2) by auto
  then show ?thesis using table_at [OF xs(1) k] assms(3) by (auto simp: res_entry_def entry_ok_def res_owned_def)
qed

lemma not_held_unused:
  assumes "logic_inv holds inst lim ts procs w x out'" "res_inv TRS_LOGIC_CQ ts procs out g" "i \<notin> out" "i < lim"
  shows "\<not> in_use x i"
proof -
  obtain q e where "cq_at x i = Some q" "res_entry ts TRS_LOGIC_CQ i = Some e" "lq_valid q \<noteq> 0 \<longleftrightarrow> res_owned e"
    using logic_invD(6) [OF assms(1,4)] by blast
  with not_held_unowned [OF assms(2,3)] show ?thesis by (simp add: in_use_def)
qed

text \<open>What the calls to other layers leave alone.\<close>

definition same_queues :: "('s, 'h) trs_logic_st \<Rightarrow> ('s, 'h) trs_logic_st \<Rightarrow> bool" where
  "same_queues st st' \<longleftrightarrow>
     lg_proc st' = lg_proc st \<and> lg_ts st' = lg_ts st \<and> cq_at (lg_ctx st') = cq_at (lg_ctx st) \<and>
     rw_ids (lg_w st') = rw_ids (lg_w st) \<and> cx_intr_mng (lg_ctx st') = cx_intr_mng (lg_ctx st)"

lemma same_queues_refl [simp]: "same_queues st st"
  by (simp add: same_queues_def)

lemma phy_setup_quiet: "logic_phy_setup ch st = (ret, st') \<Longrightarrow> same_queues st st'"
  by (auto simp: logic_phy_setup_def trs_logic_alloc_phy_cq_def same_queues_def Let_def split: if_splits prod.splits option.splits)

lemma alloc_notice_quiet:
  fixes st :: "('s, 'h) trs_logic_st"
  assumes "cq_at (lg_ctx st) (si_cqId para) = Some q"
  obtains ret w x where "trs_logic_cq_alloc_notice_ts (lg_proc st) (lg_ts st) (lg_w st) (lg_ctx st) para = Some (ret, w, x)"
    "same_queues st (st\<lparr>lg_w := w, lg_ctx := x\<rparr>)"
proof (cases "trs_logic_cq_alloc_notice_ts (lg_proc st) (lg_ts st) (lg_w st) (lg_ctx st) para")
  case None
  with assms show thesis by (simp add: trs_logic_cq_alloc_notice_ts_def Let_def split: prod.splits)
next
  case (Some r)
  obtain ret w x where r: "r = (ret, w, x)" by (cases r) auto
  have "rw_ids (snd (res_send ts w msg)) = rw_ids w" for ts :: "('s, 'h) trs_core_ts_inst" and w msg
    by (simp add: res_send_def split: prod.split)
  then have ids: "rw_ids w' = rw_ids w" if "res_send ts w msg = (ret, w')" for ts :: "('s, 'h) trs_core_ts_inst" and w msg ret w'
    using that by (metis snd_conv)
  have "rw_ids w = rw_ids (lg_w st)" "cq_at x = cq_at (lg_ctx st)" "cx_intr_mng x = cx_intr_mng (lg_ctx st)"
    using Some assms r by (auto simp: trs_logic_cq_alloc_notice_ts_def Let_def split: prod.splits dest!: ids)
  with Some r show thesis by (intro that [of ret w x]) (simp_all add: same_queues_def)
qed

text \<open>The promise of an allocation that found an id: a queue for the caller alone, or everything as before.\<close>

definition alloc_post ::
    "u32 \<Rightarrow> trs_logic_cq_ctx \<Rightarrow> u32 set \<Rightarrow> ('s, 'h) trs_core_ts_inst \<Rightarrow> halSqCqInputInfo \<Rightarrow> int \<Rightarrow> ('s, 'h) trs_logic_st \<Rightarrow> halSqCqInputInfo \<Rightarrow> bool" where
  "alloc_post lim x out ts para ret st' para' \<longleftrightarrow>
     (\<forall>j. in_use x j \<longrightarrow> cq_at (lg_ctx st') j = cq_at x j) \<and>
     (if ret = 0
      then si_cqId para' \<notin> out \<and> si_cqId para' < lim \<and> \<not> in_use x (si_cqId para') \<and>
        trs_proc_has_res (lg_proc st') (lg_ts st') TRS_LOGIC_CQ (si_cqId para') = Some True \<and>
        (\<exists>q. cq_at (lg_ctx st') (si_cqId para') = Some q \<and> fresh_cq ts (para\<lparr>si_cqId := si_cqId para'\<rparr>) q)
      else (\<forall>j. in_use (lg_ctx st') j = in_use x j))"

text \<open>The result of an allocation by the process \<open>a\<close>.\<close>

definition alloc_done ::
    "('s trs_ids \<Rightarrow> u32 set \<Rightarrow> bool) \<Rightarrow> trs_id_inst \<Rightarrow> u32 \<Rightarrow> ('s, 'h) trs_logic_st \<Rightarrow> (nat \<rightharpoonup> trs_proc_ctx) \<Rightarrow> nat \<Rightarrow> u32 set \<Rightarrow> halSqCqInputInfo \<Rightarrow>
     (int \<times> ('s, 'h) trs_logic_st \<times> halSqCqInputInfo) option \<Rightarrow> bool" where
  "alloc_done holds inst lim st procs a out para res \<longleftrightarrow>
     (\<exists>ret st' para' out'. res = Some (ret, st', para') \<and>
       logic_inv holds inst lim (lg_ts st') (procs(a \<mapsto> lg_proc st')) (lg_w st') (lg_ctx st') out' \<and> out \<subseteq> out' \<and>
       pc_pid (lg_proc st') = pc_pid (lg_proc st) \<and> pc_task_id (lg_proc st') = pc_task_id (lg_proc st) \<and>
       alloc_post lim (lg_ctx st) out (lg_ts st) para ret st' para')"

section \<open>Giving a queue back\<close>

text \<open>The id allocator as the source of the ids of logic completion queues.\<close>

locale logic_source = id_source holds inst TRS_LOGIC_CQ lim
  for holds :: "'s trs_ids \<Rightarrow> u32 set \<Rightarrow> bool" and inst :: trs_id_inst and lim :: u32
begin

lemma id_free_ok:
  assumes "holds (rw_ids (lg_w st)) out" "ct_inst (lg_ts st) = inst" "i \<in> out" "i < lim"
  obtains w' out' where "logic_id_free env i st = Some (st\<lparr>lg_w := w'\<rparr>)" "holds (rw_ids w') out'"
    "out - {i} \<subseteq> out'" "out' \<subseteq> out"
proof -
  obtain ret ids where f: "trs_id_free (en_fmodok env) (en_fmem env) (rw_ids (lg_w st)) (Some inst) TRS_LOGIC_CQ_ID i = Some (ret, ids)"
    "holds ids (if ret = 0 then out - {i} else out)"
    using free_law [OF assms(1,3,4), of "en_fmodok env" "en_fmem env"] by (auto simp: trs_res_get_id_type_def)
  show thesis
    by (rule that [of "(lg_w st)\<lparr>rw_ids := ids\<rparr>" "if ret = 0 then out - {i} else out"])
      (use f assms(2) in \<open>auto simp: logic_id_free_def\<close>)
qed

lemma undo_ok:
  assumes inv: "logic_inv holds inst lim (lg_ts st) procs (lg_w st) (lg_ctx st) out" and c: "procs a = Some (lg_proc st)"
    and own: "trs_proc_has_res (lg_proc st) (lg_ts st) TRS_LOGIC_CQ i = Some True"
  obtains st' out' where "logic_alloc_undo env active i st = Some st'"
    "logic_inv holds inst lim (lg_ts st') (procs(a \<mapsto> lg_proc st')) (lg_w st') (lg_ctx st') out'"
    "out - {i} \<subseteq> out'" "out' \<subseteq> out" "pc_pid (lg_proc st') = pc_pid (lg_proc st)" "pc_task_id (lg_proc st') = pc_task_id (lg_proc st)"
    "\<exists>q. cq_at (lg_ctx st') i = Some q \<and> lq_valid q = 0 \<and> lq_addr q = None" "\<And>j. j \<noteq> i \<Longrightarrow> cq_at (lg_ctx st') j = cq_at (lg_ctx st) j"
    "\<And>j. j \<noteq> i \<Longrightarrow> res_entry (lg_ts st') TRS_LOGIC_CQ j = res_entry (lg_ts st) TRS_LOGIC_CQ j"
    "\<exists>y. res_entry (lg_ts st') TRS_LOGIC_CQ i = Some y \<and> \<not> res_owned y"
    "trs_get_proc_res_num (lg_proc st') (ti_tsid inst) TRS_LOGIC_CQ = trs_get_proc_res_num (lg_proc st) (ti_tsid inst) TRS_LOGIC_CQ - 1"
proof -
  let ?c = "lg_proc st" and ?ts = "lg_ts st" and ?x = "lg_ctx st"
  note I = logic_invD [OF inv]
  obtain e where e: "res_entry ?ts TRS_LOGIC_CQ i = Some e"
    using own has_res_inv [OF I(1)] by (auto split: option.splits)
  have lim: "i < lim" by (rule logic_inv_entry [OF inv e])
  obtain q where q: "cq_at ?x i = Some q" using I(6) [OF lim] by blast
  define q1 where "q1 = trs_logic_cq_wakeup active (q\<lparr>lq_valid := 0\<rparr>)"
  obtain c1 m where b: "(if lq_thread_bind_irq q1 \<ge> 0
       then do {
         x' \<leftarrow> trs_thread_bind_irq_free ?x (word_of_int (lq_thread_bind_irq q1));
         Some (bind_num_add (ti_tsid (ct_inst ?ts)) (- 1) ?c, x')
       }
       else Some (?c, ?x)) = Some (c1, ?x\<lparr>cx_intr_mng := m\<rparr>)" "intr_ok m" "c1 = ?c \<or> (\<exists>t d. c1 = bind_num_add t d ?c)"
    by (rule bind_irq_release_ok [OF I(5)])
  have inv1: "res_inv TRS_LOGIC_CQ ?ts (procs(a \<mapsto> c1)) out (\<lambda>_. 0)"
    using b(3) res_inv_bind [OF I(1) c] I(1) c by (metis fun_upd_triv)
  have c1: "pc_pid c1 = pc_pid ?c" "pc_task_id c1 = pc_task_id ?c" "trs_proc_has_res c1 ?ts TRS_LOGIC_CQ i = Some True"
    "trs_get_proc_res_num c1 (ti_tsid inst) TRS_LOGIC_CQ = trs_get_proc_res_num ?c (ti_tsid inst) TRS_LOGIC_CQ"
    using b(3) own by (auto simp: trs_proc_has_res_def)
  have ac: "(procs(a \<mapsto> c1)) a = Some c1" by simp
  obtain c2 ts2 y where d: "trs_proc_del_res c1 ?ts TRS_LOGIC_CQ i = Some (0, c2, ts2)"
    "res_inv TRS_LOGIC_CQ ts2 (procs(a \<mapsto> c2)) (out - {i}) (\<lambda>_. 0)" "i \<in> out"
    "pc_pid c2 = pc_pid c1" "pc_task_id c2 = pc_task_id c1" "res_frame TRS_LOGIC_CQ ?ts ts2"
    "res_entry ts2 TRS_LOGIC_CQ i = Some y" "\<not> res_owned y"
    "trs_get_proc_res_num c2 (ti_tsid inst) TRS_LOGIC_CQ = trs_get_proc_res_num c1 (ti_tsid inst) TRS_LOGIC_CQ - 1"
    "\<And>j. j \<noteq> i \<Longrightarrow> res_entry ts2 TRS_LOGIC_CQ j = res_entry ?ts TRS_LOGIC_CQ j"
    by (rule del_inv [OF inv1 ac c1(3)]) (auto simp: I(3) simp del: fun_upd_apply)
  define x2 where "x2 = cq_set i (q1\<lparr>lq_addr := None\<rparr>) (?x\<lparr>cx_intr_mng := m\<rparr>)"
  have at: "cq_at x2 j = (if j = i then Some (q1\<lparr>lq_addr := None\<rparr>) else cq_at ?x j)" for j
    unfolding x2_def by (subst cq_set_at [of _ i q]) (simp_all add: q)
  have un: "trs_logic_cq_id_uninit active ?c ?ts ?x i = Some (c2, ts2, x2)"
    unfolding trs_logic_cq_id_uninit_def q Option.bind_lunit Let_def q1_def [symmetric] b(1) by (simp add: d(1) x2_def)
  have ins: "ct_inst ts2 = inst" "rm_max_id (ct_res_mng ts2 TRS_LOGIC_CQ) = lim" using d(6) I(3,4) by (auto simp: res_frame_def)
  obtain w' out' where f: "logic_id_free env i (st\<lparr>lg_proc := c2, lg_ts := ts2, lg_ctx := x2\<rparr>) =
      Some (st\<lparr>lg_proc := c2, lg_ts := ts2, lg_ctx := x2, lg_w := w'\<rparr>)" "holds (rw_ids w') out'" "out - {i} \<subseteq> out'" "out' \<subseteq> out"
    using id_free_ok [of "st\<lparr>lg_proc := c2, lg_ts := ts2, lg_ctx := x2\<rparr>" out i env] I(2) d(3) lim ins(1) by auto
  have v: "lq_valid q1 = 0" by (simp add: q1_def lcq_ok_wakeup)
  have inv': "logic_inv holds inst lim ts2 (procs(a \<mapsto> c2)) w' x2 out'"
    unfolding logic_inv_def
  proof (intro conjI allI impI)
    show "res_inv TRS_LOGIC_CQ ts2 (procs(a \<mapsto> c2)) out' (\<lambda>_. 0)" using res_inv_mono [OF d(2) f(3)] by simp
    show "intr_ok (cx_intr_mng x2)" using b(2) by (simp add: x2_def)
    fix j assume j: "j < lim"
    show "\<exists>q e. cq_at x2 j = Some q \<and> res_entry ts2 TRS_LOGIC_CQ j = Some e \<and> lcq_ok q \<and> (lq_valid q \<noteq> 0 \<longleftrightarrow> res_owned e)"
      using I(6) [OF j] d(7,8,10) v by (cases "j = i") (auto simp: at lcq_ok_def)
  qed (use f(2) ins in simp_all)
  show thesis
    by (rule that [of "st\<lparr>lg_proc := c2, lg_ts := ts2, lg_ctx := x2, lg_w := w'\<rparr>" out'])
      (use un f inv' d c1 at v in \<open>auto simp: logic_alloc_undo_def\<close>)
qed

section \<open>Taking a queue\<close>

text \<open>The id is entered for the caller; its queue was not in use.\<close>

lemma add_ok:
  assumes inv: "logic_inv holds inst lim ts procs w x (insert i out)" and old: "res_inv TRS_LOGIC_CQ ts procs out (\<lambda>_. 0)"
    and c: "procs a = Some c" and i: "i \<notin> out" "i < lim"
  obtains c1 ts1 q where "trs_proc_add_res c ts TRS_LOGIC_CQ i = Some (0, c1, ts1)"
    "res_inv TRS_LOGIC_CQ ts1 (procs(a \<mapsto> c1)) (insert i out) (\<lambda>_. 0)"
    "\<exists>e. res_entry ts1 TRS_LOGIC_CQ i = Some e \<and> res_owned e" "pc_pid c1 = pc_pid c" "pc_task_id c1 = pc_task_id c" "res_frame TRS_LOGIC_CQ ts ts1"
    "cq_at x i = Some q" "lq_valid q = 0" "\<And>j. j \<noteq> i \<Longrightarrow> res_entry ts1 TRS_LOGIC_CQ j = res_entry ts TRS_LOGIC_CQ j"
    "\<And>c'. pc_pid c' = pc_pid c \<Longrightarrow> pc_task_id c' = pc_task_id c \<Longrightarrow> trs_proc_has_res c' ts1 TRS_LOGIC_CQ i = Some True"
proof -
  note I = logic_invD [OF inv]
  obtain c1 ts1 where ad: "trs_proc_add_res c ts TRS_LOGIC_CQ i = Some (0, c1, ts1)"
    "res_inv TRS_LOGIC_CQ ts1 (procs(a \<mapsto> c1)) (insert i out) (\<lambda>_. 0)"
    "res_entry ts1 TRS_LOGIC_CQ i = Some \<lparr>ri_status = RES_STATUS_NORMAL, ri_task_id = pc_task_id c, ri_pid = pc_pid c, ri_ref = 1\<rparr>"
    "pc_pid c1 = pc_pid c" "pc_task_id c1 = pc_task_id c" "res_frame TRS_LOGIC_CQ ts ts1"
    "\<exists>e. res_entry ts TRS_LOGIC_CQ i = Some e \<and> ri_pid e = 0"
    by (rule add_inv [OF old c i(1)]) (use i(2) I(4) in auto)
  obtain q e where q: "cq_at x i = Some q" "res_entry ts TRS_LOGIC_CQ i = Some e" "lq_valid q \<noteq> 0 \<longleftrightarrow> res_owned e"
    using I(6) [OF i(2)] by blast
  have unused: "lq_valid q = 0" using q(2,3) ad(7) by (auto simp: res_owned_def)
  have pid: "pc_pid c \<noteq> 0" using old c by (auto simp: res_inv_def procs_ok_def)
  have oth: "res_entry ts1 TRS_LOGIC_CQ j = res_entry ts TRS_LOGIC_CQ j" if "j \<noteq> i" for j
    using ad(1) that I(1) by (auto simp: trs_proc_add_res_def res_mng_at_def res_entry_def res_ids_at_def res_ids_set_def
        word_unat_eq_iff split: if_splits option.splits bind_splits)
  have own: "trs_proc_has_res c' ts1 TRS_LOGIC_CQ i = Some True" if "pc_pid c' = pc_pid c" "pc_task_id c' = pc_task_id c" for c'
    using has_res_inv [OF ad(2), of c' i] ad(3) that by (simp add: proc_match_def trs_is_id_pid_match_def)
  have "\<exists>e. res_entry ts1 TRS_LOGIC_CQ i = Some e \<and> res_owned e" using ad(3) pid by (simp add: res_owned_def)
  from that [OF ad(1,2) this ad(4-6) q(1) unused oth own] show thesis .
qed

text \<open>The invariant after a change of one queue and of the entry of its id.\<close>

lemma logic_inv_changed:
  assumes inv: "logic_inv holds inst lim ts procs w x out" and r: "res_inv TRS_LOGIC_CQ ts' procs' out (\<lambda>_. 0)" "res_frame TRS_LOGIC_CQ ts ts'"
    and oth: "\<And>j. j \<noteq> i \<Longrightarrow> cq_at x' j = cq_at x j" "\<And>j. j \<noteq> i \<Longrightarrow> res_entry ts' TRS_LOGIC_CQ j = res_entry ts TRS_LOGIC_CQ j"
    and here: "cq_at x' i = Some q" "res_entry ts' TRS_LOGIC_CQ i = Some e" "lcq_ok q" "lq_valid q \<noteq> 0 \<longleftrightarrow> res_owned e"
    and m: "intr_ok (cx_intr_mng x')"
  shows "logic_inv holds inst lim ts' procs' w x' out"
  unfolding logic_inv_def
proof (intro conjI allI impI)
  fix j assume j: "j < lim"
  show "\<exists>q e. cq_at x' j = Some q \<and> res_entry ts' TRS_LOGIC_CQ j = Some e \<and> lcq_ok q \<and> (lq_valid q \<noteq> 0 \<longleftrightarrow> res_owned e)"
    using logic_invD(6) [OF inv j] oth here by (cases "j = i") auto
qed (use logic_invD [OF inv] r m in \<open>auto simp: res_frame_def\<close>)

lemma id_init_nomem:
  assumes inv: "logic_inv holds inst lim ts procs w x (insert i out)" and old: "res_inv TRS_LOGIC_CQ ts procs out (\<lambda>_. 0)"
    and c: "procs a = Some c" and i: "i \<notin> out" "i < lim" "si_cqId para = i"
  obtains c' ts' x' where "trs_logic_cq_id_init False c ts x para = Some (- ENOMEM, c', ts', x', para)"
    "logic_inv holds inst lim ts' (procs(a \<mapsto> c')) w x' (insert i out)" "res_inv TRS_LOGIC_CQ ts' (procs(a \<mapsto> c')) out (\<lambda>_. 0)"
    "pc_pid c' = pc_pid c" "pc_task_id c' = pc_task_id c" "\<And>j. j \<noteq> i \<Longrightarrow> cq_at x' j = cq_at x j"
proof -
  obtain c1 ts1 q where ad: "trs_proc_add_res c ts TRS_LOGIC_CQ i = Some (0, c1, ts1)"
    "res_inv TRS_LOGIC_CQ ts1 (procs(a \<mapsto> c1)) (insert i out) (\<lambda>_. 0)" "pc_pid c1 = pc_pid c" "pc_task_id c1 = pc_task_id c"
    "res_frame TRS_LOGIC_CQ ts ts1" "cq_at x i = Some q" "lq_valid q = 0"
    "\<And>j. j \<noteq> i \<Longrightarrow> res_entry ts1 TRS_LOGIC_CQ j = res_entry ts TRS_LOGIC_CQ j" "trs_proc_has_res c1 ts1 TRS_LOGIC_CQ i = Some True"
    by (rule add_ok [OF inv old c i(1,2)]) blast
  have ac: "(procs(a \<mapsto> c1)) a = Some c1" by simp
  obtain c2 ts2 y where d: "trs_proc_del_res c1 ts1 TRS_LOGIC_CQ i = Some (0, c2, ts2)"
    "res_inv TRS_LOGIC_CQ ts2 (procs(a \<mapsto> c2)) out (\<lambda>_. 0)" "pc_pid c2 = pc_pid c1" "pc_task_id c2 = pc_task_id c1"
    "res_frame TRS_LOGIC_CQ ts1 ts2" "res_entry ts2 TRS_LOGIC_CQ i = Some y" "\<not> res_owned y"
    "\<And>j. j \<noteq> i \<Longrightarrow> res_entry ts2 TRS_LOGIC_CQ j = res_entry ts1 TRS_LOGIC_CQ j"
    by (rule del_inv [OF ad(2) ac ad(9)]) (use i(1) in \<open>auto simp del: fun_upd_apply\<close>)
  let ?x = "cq_set i (q\<lparr>lq_addr := None\<rparr>) x"
  have at: "cq_at ?x j = (if j = i then Some (q\<lparr>lq_addr := None\<rparr>) else cq_at x j)" for j by (rule cq_set_at [OF ad(6)])
  have big: "res_inv TRS_LOGIC_CQ ts2 (procs(a \<mapsto> c2)) (insert i out) (\<lambda>_. 0)" by (rule res_inv_mono [OF d(2)]) auto
  have fr: "res_frame TRS_LOGIC_CQ ts ts2" by (rule res_frame_trans [OF ad(5) d(5)])
  have "logic_inv holds inst lim ts2 (procs(a \<mapsto> c2)) w ?x (insert i out)"
    by (rule logic_inv_changed [OF inv big fr, where i = i and q = "q\<lparr>lq_addr := None\<rparr>" and e = y])
      (use at ad(7,8) d(6-8) logic_invD(5) [OF inv] in \<open>simp_all add: lcq_ok_def\<close>)
  with ad(1,3,4,6) d(1-4) i(3) at show thesis by (intro that [of c2 ts2 ?x]) (simp_all add: trs_logic_cq_id_init_def)
qed

lemma id_init_mem:
  assumes inv: "logic_inv holds inst lim ts procs w x (insert i out)" and old: "res_inv TRS_LOGIC_CQ ts procs out (\<lambda>_. 0)"
    and c: "procs a = Some c" and i: "i \<notin> out" "i < lim" "si_cqId para = i" and chk: "trs_logic_cq_alloc_para_check para = 0"
  obtains c' ts' x' q flag where "trs_logic_cq_id_init True c ts x para = Some (0, c', ts', x', para\<lparr>si_flag := flag\<rparr>)"
    "logic_inv holds inst lim ts' (procs(a \<mapsto> c')) w x' (insert i out)" "pc_pid c' = pc_pid c" "pc_task_id c' = pc_task_id c"
    "\<And>j. j \<noteq> i \<Longrightarrow> cq_at x' j = cq_at x j" "trs_proc_has_res c' ts' TRS_LOGIC_CQ i = Some True" "cq_at x' i = Some q" "fresh_cq ts para q"
proof -
  obtain c1 ts1 q e where ad: "trs_proc_add_res c ts TRS_LOGIC_CQ i = Some (0, c1, ts1)"
    "res_inv TRS_LOGIC_CQ ts1 (procs(a \<mapsto> c1)) (insert i out) (\<lambda>_. 0)" "res_entry ts1 TRS_LOGIC_CQ i = Some e" "res_owned e"
    "pc_pid c1 = pc_pid c" "pc_task_id c1 = pc_task_id c" "res_frame TRS_LOGIC_CQ ts ts1" "cq_at x i = Some q"
    "\<And>j. j \<noteq> i \<Longrightarrow> res_entry ts1 TRS_LOGIC_CQ j = res_entry ts TRS_LOGIC_CQ j"
    "\<And>c'. pc_pid c' = pc_pid c \<Longrightarrow> pc_task_id c' = pc_task_id c \<Longrightarrow> trs_proc_has_res c' ts1 TRS_LOGIC_CQ i = Some True"
    by (rule add_ok [OF inv old c i(1,2)]) blast
  obtain irq flag c2 m where b: "bind_irq_setup c1 (ti_tsid (ct_inst ts)) x i (si_flag para) = Some (irq, flag, c2, x\<lparr>cx_intr_mng := m\<rparr>)"
    "intr_ok m" "c2 = c1 \<or> c2 = bind_num_add (ti_tsid (ct_inst ts)) 1 c1"
    by (rule bind_irq_setup_ok [OF logic_invD(5) [OF inv]])
  define q1 where "q1 = q\<lparr>lq_addr := Some (replicate (unat (si_cqeDepth para * si_cqeSize para)) 0), lq_thread_bind_irq := irq,
         lq_cqid := si_cqId para,
         lq_cqe_verion := (if trs_is_stars_inst ts then LOGIC_CQE_VERSION_V2 else LOGIC_CQE_VERSION_V1),
         lq_cq_depth := si_cqeDepth para, lq_cqe_size := si_cqeSize para, lq_head := 0, lq_tail := 0, lq_flag := flag,
         lq_wakeup_num := 0, lq_wait_thread_num := 0, lq_valid := 1\<rparr>"
  let ?x = "cq_set i q1 (x\<lparr>cx_intr_mng := m\<rparr>)"
  have at: "cq_at ?x j = (if j = i then Some q1 else cq_at x j)" for j by (subst cq_set_at [of _ i q]) (simp_all add: ad(8))
  have ok: "lcq_ok q1" "fresh_cq ts para q1" "lq_valid q1 = 1"
    using para_check_sizes [OF chk] by (simp_all add: lcq_ok_def fresh_cq_def q1_def)
  have c2: "pc_pid c2 = pc_pid c" "pc_task_id c2 = pc_task_id c" using b(3) ad(5,6) by auto
  have r: "res_inv TRS_LOGIC_CQ ts1 (procs(a \<mapsto> c2)) (insert i out) (\<lambda>_. 0)"
    using b(3) ad(2) res_inv_bind [OF ad(2), of a c1 "ti_tsid (ct_inst ts)" 1] by auto
  have "logic_inv holds inst lim ts1 (procs(a \<mapsto> c2)) w ?x (insert i out)"
    by (rule logic_inv_changed [OF inv r ad(7), where i = i and q = q1 and e = e]) (use at ok b(2) ad(3,4,9) in simp_all)
  moreover have "trs_logic_cq_id_init True c ts x para = Some (0, c2, ts1, ?x, para\<lparr>si_flag := flag\<rparr>)"
    using ad(1,8) b(1) i(3) by (simp add: trs_logic_cq_id_init_def Let_def q1_def)
  ultimately show thesis using that [of c2 ts1 ?x flag q1] at ok(2) c2 ad(10) [OF c2] by simp
qed

lemma announce_ok:
  assumes inv: "logic_inv holds inst lim (lg_ts st) procs (lg_w st) (lg_ctx st) out" and c: "procs a = Some (lg_proc st)"
    and own: "trs_proc_has_res (lg_proc st) (lg_ts st) TRS_LOGIC_CQ i = Some True" and i: "si_cqId para = i"
  obtains (ready) st' where "logic_alloc_announce ch env active st para = Some (0, st')" "same_queues st st'"
  | (undone) ret st' out' where "logic_alloc_announce ch env active st para = Some (ret, st')" "ret \<noteq> 0"
    "logic_inv holds inst lim (lg_ts st') (procs(a \<mapsto> lg_proc st')) (lg_w st') (lg_ctx st') out'" "out - {i} \<subseteq> out'"
    "pc_pid (lg_proc st') = pc_pid (lg_proc st)" "pc_task_id (lg_proc st') = pc_task_id (lg_proc st)"
    "\<not> in_use (lg_ctx st') i" "\<And>j. j \<noteq> i \<Longrightarrow> cq_at (lg_ctx st') j = cq_at (lg_ctx st) j"
proof (cases "trs_is_stars_inst (lg_ts st)")
  case True
  with ready [of st] show thesis by (simp add: logic_alloc_announce_def)
next
  case False
  have undo: thesis if r: "logic_alloc_announce ch env active st para =
        (case logic_alloc_undo env active i st1 of None \<Rightarrow> None | Some st2 \<Rightarrow> Some (ret, st2))" "ret \<noteq> 0"
    and s: "same_queues st st1" for st1 ret
  proof -
    note s' = s [unfolded same_queues_def]
    have v: "logic_inv holds inst lim (lg_ts st1) procs (lg_w st1) (lg_ctx st1) out"
      using s' logic_inv_quiet [OF inv, of "lg_w st1" "lg_ctx st1"] by simp
    have pc: "procs a = Some (lg_proc st1)" and o: "trs_proc_has_res (lg_proc st1) (lg_ts st1) TRS_LOGIC_CQ i = Some True"
      using s' c own by simp_all
    obtain st2 out' where u: "logic_alloc_undo env active i st1 = Some st2"
      "logic_inv holds inst lim (lg_ts st2) (procs(a \<mapsto> lg_proc st2)) (lg_w st2) (lg_ctx st2) out'"
      "out - {i} \<subseteq> out'" "pc_pid (lg_proc st2) = pc_pid (lg_proc st1)" "pc_task_id (lg_proc st2) = pc_task_id (lg_proc st1)"
      "\<exists>q. cq_at (lg_ctx st2) i = Some q \<and> lq_valid q = 0 \<and> lq_addr q = None"
      "\<And>j. j \<noteq> i \<Longrightarrow> cq_at (lg_ctx st2) j = cq_at (lg_ctx st1) j"
      by (rule undo_ok [OF v pc o, of env active]) blast
    show thesis
      by (rule undone [OF _ r(2) u(2,3)]) (use r(1) u s' in \<open>auto simp: in_use_def\<close>)
  qed
  obtain ret st1 where P: "logic_phy_setup ch st = (ret, st1)" by (cases "logic_phy_setup ch st")
  note s1 = phy_setup_quiet [OF P]
  show thesis
  proof (cases "ret = 0")
    case r: False
    show thesis by (rule undo [OF _ r s1]) (use False P r i in \<open>simp add: logic_alloc_announce_def split: option.split\<close>)
  next
    case r: True
    obtain q where q: "cq_at (lg_ctx st1) (si_cqId para) = Some q"
    proof -
      obtain e where "res_entry (lg_ts st) TRS_LOGIC_CQ i = Some e"
        using own has_res_inv [OF logic_invD(1) [OF inv]] by (auto split: option.splits)
      from logic_invD(6) [OF inv logic_inv_entry [OF inv this]] that show thesis using s1 i by (auto simp: same_queues_def)
    qed
    obtain ret2 w x where M: "trs_logic_cq_alloc_notice_ts (lg_proc st1) (lg_ts st1) (lg_w st1) (lg_ctx st1) para = Some (ret2, w, x)"
      "same_queues st1 (st1\<lparr>lg_w := w, lg_ctx := x\<rparr>)" by (rule alloc_notice_quiet [OF q])
    have s2: "same_queues st (st1\<lparr>lg_w := w, lg_ctx := x\<rparr>)" using s1 M(2) by (simp add: same_queues_def)
    show thesis
    proof (cases "ret2 = 0")
      case True
      show thesis by (rule ready [OF _ s2]) (use False P r M(1) True in \<open>simp add: logic_alloc_announce_def\<close>)
    next
      case r2: False
      show thesis by (rule undo [OF _ r2 s2])
        (use False P r M(1) r2 i in \<open>simp add: logic_alloc_announce_def Let_def split: option.split\<close>)
    qed
  qed
qed

text \<open>The rest of the allocation once there is an id, without and with memory for the slots.\<close>

lemma alloc_rest_nomem:
  assumes inv: "logic_inv holds inst lim (lg_ts st) procs (lg_w st) (lg_ctx st) (insert i out)"
    and old: "res_inv TRS_LOGIC_CQ (lg_ts st) procs out (\<lambda>_. 0)" and c: "procs a = Some (lg_proc st)" and i: "i \<notin> out" "i < lim"
    and N: "trs_logic_cq_id_init False (lg_proc st) (lg_ts st) (lg_ctx st) (para\<lparr>si_cqId := i\<rparr>) = Some (ret, c2, ts2, x2, para2)"
  shows "alloc_done holds inst lim st procs a out para
    (do { st3 \<leftarrow> logic_id_free env (si_cqId para2) (st\<lparr>lg_proc := c2, lg_ts := ts2, lg_ctx := x2\<rparr>); Some (ret, st3, para2) }) \<and> ret \<noteq> 0"
proof -
  have cq: "si_cqId (para\<lparr>si_cqId := i\<rparr>) = i" by simp
  have E: "ret = - ENOMEM" "para2 = para\<lparr>si_cqId := i\<rparr>" "logic_inv holds inst lim ts2 (procs(a \<mapsto> c2)) (lg_w st) x2 (insert i out)"
    "res_inv TRS_LOGIC_CQ ts2 (procs(a \<mapsto> c2)) out (\<lambda>_. 0)" "pc_pid c2 = pc_pid (lg_proc st)" "pc_task_id c2 = pc_task_id (lg_proc st)"
    "\<And>j. j \<noteq> i \<Longrightarrow> cq_at x2 j = cq_at (lg_ctx st) j"
    by (rule id_init_nomem [OF inv old c i cq]; use N in simp)+
  define st2 where "st2 = st\<lparr>lg_proc := c2, lg_ts := ts2, lg_ctx := x2\<rparr>"
  have st2: "lg_proc st2 = c2" "lg_ts st2 = ts2" "lg_ctx st2 = x2" "lg_w st2 = lg_w st" by (simp_all add: st2_def)
  have free: "\<not> in_use (lg_ctx st) i" by (rule not_held_unused [OF inv old i])
  have h: "holds (rw_ids (lg_w st2)) (insert i out)" "ct_inst (lg_ts st2) = inst" "i \<in> insert i out"
    using logic_invD(2,3) [OF E(3)] by (simp_all add: st2)
  obtain w' out' where f: "logic_id_free env i st2 = Some (st2\<lparr>lg_w := w'\<rparr>)" "holds (rw_ids w') out'" "insert i out - {i} \<subseteq> out'"
    by (rule id_free_ok [OF h i(2), of env]) blast
  have sub: "out \<subseteq> out'" using f(3) i(1) by auto
  have "logic_inv holds inst lim ts2 (procs(a \<mapsto> c2)) w' x2 out'"
    using E(3) f(2) res_inv_mono [OF E(4) sub] by (simp add: logic_inv_def)
  moreover have "\<not> in_use x2 i" by (rule not_held_unused [OF E(3,4) i])
  ultimately have "alloc_done holds inst lim st procs a out para (Some (- ENOMEM, st2\<lparr>lg_w := w'\<rparr>, para2))"
    unfolding alloc_done_def using E(5-7) in_use_elsewhere [OF E(7) free] sub
    by (intro exI [of _ "- ENOMEM"] exI [of _ "st2\<lparr>lg_w := w'\<rparr>"] exI [of _ para2] exI [of _ out']) (simp add: st2 alloc_post_def)
  then show ?thesis using f(1) E(1,2) by (simp add: st2_def [symmetric])
qed

lemma alloc_rest_mem:
  assumes inv: "logic_inv holds inst lim (lg_ts st) procs (lg_w st) (lg_ctx st) (insert i out)"
    and old: "res_inv TRS_LOGIC_CQ (lg_ts st) procs out (\<lambda>_. 0)" and c: "procs a = Some (lg_proc st)" and i: "i \<notin> out" "i < lim"
    and chk: "trs_logic_cq_alloc_para_check (para\<lparr>si_cqId := i\<rparr>) = 0"
    and N: "trs_logic_cq_id_init True (lg_proc st) (lg_ts st) (lg_ctx st) (para\<lparr>si_cqId := i\<rparr>) = Some (ret, c2, ts2, x2, para2)"
  shows "alloc_done holds inst lim st procs a out para
    (do { (ret3, st3) \<leftarrow> logic_alloc_announce ch env active (st\<lparr>lg_proc := c2, lg_ts := ts2, lg_ctx := x2\<rparr>) para2; Some (ret3, st3, para2) }) \<and>
    ret = 0"
proof -
  have cq: "si_cqId (para\<lparr>si_cqId := i\<rparr>) = i" by simp
  have E: "ret = 0" "si_cqId para2 = i" "logic_inv holds inst lim ts2 (procs(a \<mapsto> c2)) (lg_w st) x2 (insert i out)"
    "pc_pid c2 = pc_pid (lg_proc st)" "pc_task_id c2 = pc_task_id (lg_proc st)" "\<And>j. j \<noteq> i \<Longrightarrow> cq_at x2 j = cq_at (lg_ctx st) j"
    "trs_proc_has_res c2 ts2 TRS_LOGIC_CQ i = Some True" "\<exists>q. cq_at x2 i = Some q \<and> fresh_cq (lg_ts st) (para\<lparr>si_cqId := i\<rparr>) q"
    by (rule id_init_mem [OF inv old c i cq chk]; use N in auto)+
  define st2 where "st2 = st\<lparr>lg_proc := c2, lg_ts := ts2, lg_ctx := x2\<rparr>"
  have st2: "lg_proc st2 = c2" "lg_ts st2 = ts2" "lg_ctx st2 = x2" "lg_w st2 = lg_w st" by (simp_all add: st2_def)
  have free: "\<not> in_use (lg_ctx st) i" by (rule not_held_unused [OF inv old i])
  have v: "logic_inv holds inst lim (lg_ts st2) (procs(a \<mapsto> c2)) (lg_w st2) (lg_ctx st2) (insert i out)" using E(3) by (simp add: st2)
  have pc: "(procs(a \<mapsto> c2)) a = Some (lg_proc st2)" and o: "trs_proc_has_res (lg_proc st2) (lg_ts st2) TRS_LOGIC_CQ i = Some True"
    using E(7) by (simp_all add: st2)
  have "alloc_done holds inst lim st procs a out para (do { (ret3, st3) \<leftarrow> logic_alloc_announce ch env active st2 para2; Some (ret3, st3, para2) })"
  proof (rule announce_ok [OF v pc o E(2), of ch env active])
    fix st' assume r: "logic_alloc_announce ch env active st2 para2 = Some (0, st')" "same_queues st2 st'"
    note s = r(2) [unfolded same_queues_def st2]
    have "logic_inv holds inst lim (lg_ts st') (procs(a \<mapsto> lg_proc st')) (lg_w st') (lg_ctx st') (insert i out)"
      using s logic_inv_quiet [OF E(3), of "lg_w st'" "lg_ctx st'"] by simp
    then show ?thesis unfolding alloc_done_def using r(1) s E i free in_use_elsewhere(1) [OF E(6) free]
      by (intro exI [of _ 0] exI [of _ st'] exI [of _ para2] exI [of _ "insert i out"]) (auto simp: alloc_post_def)
  next
    fix ret' st' out'
    assume u: "logic_alloc_announce ch env active st2 para2 = Some (ret', st')" "ret' \<noteq> 0"
      "logic_inv holds inst lim (lg_ts st') ((procs(a \<mapsto> c2))(a \<mapsto> lg_proc st')) (lg_w st') (lg_ctx st') out'"
      "insert i out - {i} \<subseteq> out'" "pc_pid (lg_proc st') = pc_pid (lg_proc st2)" "pc_task_id (lg_proc st') = pc_task_id (lg_proc st2)"
      "\<not> in_use (lg_ctx st') i" "\<And>j. j \<noteq> i \<Longrightarrow> cq_at (lg_ctx st') j = cq_at (lg_ctx st2) j"
    have same: "\<And>j. j \<noteq> i \<Longrightarrow> cq_at (lg_ctx st') j = cq_at (lg_ctx st) j" using u(8) E(6) by (simp add: st2)
    have "out \<subseteq> out'" using u(4) i(1) by auto
    then show ?thesis unfolding alloc_done_def using u(1-3,5-7) E(4,5) in_use_elsewhere [OF same free]
      by (intro exI [of _ ret'] exI [of _ st'] exI [of _ para2] exI [of _ out']) (simp add: st2 alloc_post_def)
  qed
  then show ?thesis using E(1) by (simp add: st2_def)
qed

lemma alloc_ok:
  assumes inv: "logic_inv holds inst lim (lg_ts st) procs (lg_w st) (lg_ctx st) out" and c: "procs a = Some (lg_proc st)"
  shows "alloc_done holds inst lim st procs a out para (trs_logic_cq_alloc ch env vmem active st para)"
proof (cases "trs_logic_cq_alloc_para_check para = 0")
  case False
  have "procs(a \<mapsto> lg_proc st) = procs" using c by auto
  with False inv show ?thesis unfolding alloc_done_def
    by (intro exI [of _ "trs_logic_cq_alloc_para_check para"] exI [of _ st] exI [of _ para] exI [of _ out])
      (simp add: trs_logic_cq_alloc_def alloc_post_def)
next
  case chk: True
  note I = logic_invD [OF inv]
  obtain ret r ids where A: "trs_id_alloc (en_modok env) (en_mem env) (rw_ids (lg_w st)) (Some inst) TRS_LOGIC_CQ_ID True = Some ((ret, r), ids)"
    "holds ids (out \<union> set_option r)" "case r of None \<Rightarrow> ret \<noteq> 0 | Some i \<Rightarrow> ret = 0 \<and> i \<notin> out \<and> i < lim"
    using alloc_law [OF I(2), of "en_modok env" "en_mem env"] by (auto simp: trs_res_get_id_type_def)
  define st1 where "st1 = st\<lparr>lg_w := (lg_w st)\<lparr>rw_ids := ids\<rparr>\<rparr>"
  have st1: "lg_proc st1 = lg_proc st" "lg_ts st1 = lg_ts st" "lg_ctx st1 = lg_ctx st" "rw_ids (lg_w st1) = ids" by (simp_all add: st1_def)
  show ?thesis
  proof (cases r)
    case None
    have "procs(a \<mapsto> lg_proc st) = procs" using c by auto
    moreover have "logic_inv holds inst lim (lg_ts st1) procs (lg_w st1) (lg_ctx st1) out"
      using I A(2) None by (simp add: logic_inv_def st1)
    moreover have "trs_logic_cq_alloc ch env vmem active st para = Some (ret, st1, para)" "ret \<noteq> 0"
      using chk A(1,3) None I(3) by (simp_all add: trs_logic_cq_alloc_def st1_def Let_def)
    ultimately show ?thesis unfolding alloc_done_def
      by (intro exI [of _ ret] exI [of _ st1] exI [of _ para] exI [of _ out]) (simp add: st1 alloc_post_def)
  next
    case (Some i)
    then have i: "ret = 0" "i \<notin> out" "i < lim" using A(3) by auto
    have chk1: "trs_logic_cq_alloc_para_check (para\<lparr>si_cqId := i\<rparr>) = 0" using chk by (simp add: trs_logic_cq_alloc_para_check_def)
    have inv1: "logic_inv holds inst lim (lg_ts st1) procs (lg_w st1) (lg_ctx st1) (insert i out)"
      using I A(2) Some res_inv_mono [OF I(1), of "insert i out"] by (simp add: logic_inv_def st1 subset_insertI)
    have c1: "procs a = Some (lg_proc st1)" and I1: "res_inv TRS_LOGIC_CQ (lg_ts st1) procs out (\<lambda>_. 0)"
      and cq: "si_cqId (para\<lparr>si_cqId := i\<rparr>) = i"
      using c I(1) by (simp_all add: st1)
    obtain ret2 c2 ts2 x2 para2 where N: "trs_logic_cq_id_init vmem (lg_proc st1) (lg_ts st1) (lg_ctx st1) (para\<lparr>si_cqId := i\<rparr>) =
        Some (ret2, c2, ts2, x2, para2)"
    proof (cases vmem)
      case True
      show thesis by (rule id_init_mem [OF inv1 I1 c1 i(2,3) cq chk1]) (use that True in simp)
    next
      case False
      show thesis by (rule id_init_nomem [OF inv1 I1 c1 i(2,3) cq]) (use that False in simp)
    qed
    have "alloc_done holds inst lim st1 procs a out para (trs_logic_cq_alloc ch env vmem active st para)"
    proof (cases vmem)
      case True
      then have "trs_logic_cq_id_init True (lg_proc st1) (lg_ts st1) (lg_ctx st1) (para\<lparr>si_cqId := i\<rparr>) = Some (ret2, c2, ts2, x2, para2)"
        using N by simp
      from alloc_rest_mem [OF inv1 I1 c1 i(2,3) chk1 this, of ch env active] chk A(1) Some i(1) N I(3) True
      show ?thesis by (simp add: trs_logic_cq_alloc_def Let_def st1_def)
    next
      case False
      then have "trs_logic_cq_id_init False (lg_proc st1) (lg_ts st1) (lg_ctx st1) (para\<lparr>si_cqId := i\<rparr>) = Some (ret2, c2, ts2, x2, para2)"
        using N by simp
      from alloc_rest_nomem [OF inv1 I1 c1 i(2,3) this, of env] chk A(1) Some i(1) N I(3) False
      show ?thesis by (simp add: trs_logic_cq_alloc_def Let_def st1_def)
    qed
    then show ?thesis by (simp add: alloc_done_def st1)
  qed
qed

end

end
