(* ===== verification/Logic_Reach.thy ===== *)
theory Logic_Reach
  imports Logic_Inv Trs_Pool_Source
begin

text \<open>
  The queues of an instance over any interleaving of openings, closings, allocations, releases, enqueues and receives, with
  ids from the instance's local pool.
\<close>

declare split_paired_All [simp del] split_paired_Ex [simp del]

section \<open>The work of a queue keeps its shape\<close>

text \<open>What enqueueing and receiving leave of a queue.\<close>

definition same_shape :: "trs_logic_cq \<Rightarrow> trs_logic_cq \<Rightarrow> bool" where
  "same_shape q q' \<longleftrightarrow> lq_valid q' = lq_valid q \<and> (lcq_ok q \<longrightarrow> lcq_ok q')"

lemma same_shape_refl [simp]: "same_shape q q"
  by (simp add: same_shape_def)

lemma same_shape_trans: "same_shape p q \<Longrightarrow> same_shape q r \<Longrightarrow> same_shape p r"
  by (simp add: same_shape_def)

lemma same_shape_fields [simp]:
  "same_shape q (q'\<lparr>lq_stat := s\<rparr>) = same_shape q q'" "same_shape q (q'\<lparr>lq_wakeup_num := n\<rparr>) = same_shape q q'"
  "same_shape q (q'\<lparr>lq_wait_thread_num := n\<rparr>) = same_shape q q'"
  by (simp_all add: same_shape_def lcq_ok_def)

lemma mem_write_length: "mem_write bs off v = Some bs' \<Longrightarrow> length bs' = length bs"
  by (auto simp: mem_write_def split: if_splits)

lemma move_from_length: "move_cqes_from sz s d n bs = Some bs' \<Longrightarrow> length bs' = length bs"
proof (induction sz s d n bs arbitrary: bs' rule: move_cqes_from.induct)
  case (2 sz s d n bs)
  then show ?case by (auto split: bind_splits dest!: mem_write_length)
qed simp

lemma eliminate_length: "trs_logic_cq_eliminate_holes q s n r bs = Some bs' \<Longrightarrow> length bs' = length bs"
  by (auto simp: trs_logic_cq_eliminate_holes_def trs_logic_cq_move_cqes_def Let_def
      split: if_splits bind_splits dest!: move_from_length)

lemma mod_in_range: "0 < d \<Longrightarrow> x mod d < (d :: u32)"
  by (simp add: word_mod_less_divisor)

text \<open>The memory may be written and the positions moved on, modulo the depth.\<close>

lemma shape_moved:
  assumes "lq_addr q = Some bs" "length bs' = length bs"
  shows "same_shape q (q\<lparr>lq_addr := Some bs', lq_head := h mod lq_cq_depth q\<rparr>)"
    "same_shape q (q\<lparr>lq_addr := Some bs', lq_tail := h mod lq_cq_depth q\<rparr>)"
  using assms by (auto simp: same_shape_def lcq_ok_def mod_in_range)

lemma copy_shape:
  assumes "(if rr_res para 0 = 1 then trs_logic_cq_match_copy e k q para out else trs_logic_cq_non_match_copy e k q para out) =
    Some (ret, para', q', out')"
  obtains bs bs' where "lq_addr q = Some bs" "length bs' = length bs" "q' = q\<lparr>lq_addr := Some bs'\<rparr>"
proof (cases "rr_res para 0 = 1")
  case True
  then have "match_copy_at e k (lq_tail q) q para out = Some (ret, para', q', out')" using assms by (simp add: trs_logic_cq_match_copy_def)
  then have "\<exists>bs. lq_addr q = Some bs \<and> (q' = q \<or> (\<exists>s n r. match_copy_deliver e k q bs para s n r out = Some (ret, para', q', out')))"
    unfolding match_copy_at_def by (auto split: if_split_asm bind_splits)
  then obtain bs s n r where bs: "lq_addr q = Some bs" and
    c: "q' = q \<or> match_copy_deliver e k q bs para s n r out = Some (ret, para', q', out')" by blast
  from c show thesis
  proof
    assume "q' = q"
    with bs that [of bs bs] show thesis by simp
  next
    assume d: "match_copy_deliver e k q bs para s n r out = Some (ret, para', q', out')"
    obtain bs' where "q' = q\<lparr>lq_addr := Some bs'\<rparr>" "length bs' = length bs"
    proof -
      have "q' = q \<or> q' = q\<lparr>lq_addr := Some bs\<rparr> \<or> (\<exists>bs'. q' = q\<lparr>lq_addr := Some bs'\<rparr> \<and> trs_logic_cq_eliminate_holes q s n r bs = Some bs')"
        using d by (auto simp: match_copy_deliver_def split: if_splits bind_splits)
      moreover have "q = q\<lparr>lq_addr := Some bs\<rparr>" using bs by simp
      ultimately have "\<exists>bs'. q' = q\<lparr>lq_addr := Some bs'\<rparr> \<and> length bs' = length bs" by (metis eliminate_length)
      with that show thesis by blast
    qed
    with bs that show thesis by blast
  qed
next
  case False
  then obtain bs where "lq_addr q = Some bs" "q' = q"
    using assms by (auto simp: trs_logic_cq_non_match_copy_def Let_def split: if_splits bind_splits)
  with that [of bs bs] show thesis by simp
qed

lemma copy_report_shape:
  assumes "trs_logic_cq_copy_report e k chan q para out = Some (ret, para', q', out')"
  shows "same_shape q q'"
proof -
  consider "q' = q" | p' q1 o' r where
      "(if rr_res para 0 = 1 then trs_logic_cq_match_copy e k q para out else trs_logic_cq_non_match_copy e k q para out) =
        Some (r, p', q1, o')"
      "q' = q1 \<or> q' = q1\<lparr>lq_head := (lq_head q1 + rr_report_cqe_num p') mod lq_cq_depth q1\<rparr>"
    using assms unfolding trs_logic_cq_copy_report_def by (auto split: if_split_asm bind_splits)
  then show ?thesis
  proof cases
    case 2
    obtain bs bs' where b: "lq_addr q = Some bs" "length bs' = length bs" "q1 = q\<lparr>lq_addr := Some bs'\<rparr>"
      by (rule copy_shape [OF 2(1)])
    from 2(2) shape_moved(1) [OF b(1,2)] show ?thesis using b by (auto simp: same_shape_def lcq_ok_def)
  qed simp
qed

lemma wait_event_shape:
  assumes "\<And>k q. same_shape q (le_others e k q)" "trs_logic_cq_wait_event e k q timeout = (ret, q')"
  shows "same_shape q q'"
  using assms(2) same_shape_trans [OF _ assms(1), of q "q\<lparr>lq_wait_thread_num := i32 (lq_wait_thread_num q + 1)\<rparr>"]
  by (auto simp: trs_logic_cq_wait_event_def Let_def split: if_splits)

lemma recv_rounds_shape:
  assumes "\<And>k q. same_shape q (le_others e k q)" "recv_rounds e chan k fuel q para out = Some (r, para', q', out')"
  shows "same_shape q q'"
  using assms(2)
proof (induction fuel arbitrary: k q para out)
  case (Suc fuel)
  obtain ret p1 q1 o1 where c: "trs_logic_cq_copy_report e k chan q para out = Some (ret, p1, q1, o1)"
    using Suc.prems by (auto split: bind_splits)
  note s1 = copy_report_shape [OF c]
  let ?q = "le_others e (2 * k) q1"
  have s2: "same_shape q ?q" by (rule same_shape_trans [OF s1 assms(1)])
  obtain ret' q2 where w: "trs_logic_cq_wait_event e k ?q (rr_timeout p1) = (ret', q2)" by fastforce
  have s3: "same_shape q q2" by (rule same_shape_trans [OF s2 wait_event_shape [OF assms(1) w]])
  have "(\<exists>s. q' = q1\<lparr>lq_stat := s\<rparr>) \<or> q' = ?q \<or> q' = q2 \<or> recv_rounds e chan (Suc k) fuel q2 p1 o1 = Some (r, para', q', out') \<or>
      recv_rounds e chan (Suc k) fuel ?q p1 o1 = Some (r, para', q', out')"
    using Suc.prems by (auto simp: c w Let_def split: if_split_asm)
  then show ?case using s1 s2 s3 same_shape_trans [OF s2 Suc.IH] same_shape_trans [OF s3 Suc.IH] by auto
qed simp

lemma enque_shape:
  assumes "trs_logic_cq_enque active q cqe = Some (ret, q')"
  shows "same_shape q q'"
proof -
  have "q' = q \<or> (\<exists>s. q' = q\<lparr>lq_stat := s\<rparr>) \<or> (\<exists>bs bs' v off s n. lq_addr q = Some bs \<and> mem_write bs off v = Some bs' \<and>
      q' = q\<lparr>lq_addr := Some bs', lq_tail := (lq_tail q + 1) mod lq_cq_depth q, lq_wakeup_num := n, lq_stat := s\<rparr>)"
    using assms unfolding trs_logic_cq_enque_def trs_logic_cq_wakeup_def Let_def by (auto split: if_split_asm bind_splits)
  then consider "q' = q" | s where "q' = q\<lparr>lq_stat := s\<rparr>" | bs bs' v off s n where
      "lq_addr q = Some bs" "mem_write bs off v = Some bs'"
      "q' = q\<lparr>lq_addr := Some bs', lq_tail := (lq_tail q + 1) mod lq_cq_depth q, lq_wakeup_num := n, lq_stat := s\<rparr>"
    by blast
  then show ?thesis
  proof cases
    case 3
    with shape_moved(2) [OF 3(1) mem_write_length [OF 3(2)], of "lq_tail q + 1"] show ?thesis by (auto simp: same_shape_def lcq_ok_def)
  qed simp_all
qed

lemma ctx_work_inv:
  assumes "logic_inv holds inst lim ts procs w x out" "cq_at x i = Some q" "same_shape q q'"
  shows "logic_inv holds inst lim ts procs w (cq_set i q' x) out"
  unfolding logic_inv_def
proof (intro conjI allI impI)
  fix j assume j: "j < lim"
  show "\<exists>q e. cq_at (cq_set i q' x) j = Some q \<and> res_entry ts TRS_LOGIC_CQ j = Some e \<and> lcq_ok q \<and> (lq_valid q \<noteq> 0 \<longleftrightarrow> res_owned e)"
    using logic_invD(6) [OF assms(1) j] assms(3) by (cases "j = i") (auto simp: cq_set_at [OF assms(2)] assms(2) same_shape_def)
qed (use logic_invD [OF assms(1)] in simp_all)

lemma ctx_enque_inv:
  assumes "logic_inv holds inst lim ts procs w x out" "ctx_enque active x i cqe = Some (ret, x')"
  shows "logic_inv holds inst lim ts procs w x' out"
  using assms(2) by (auto simp: ctx_enque_def split: bind_splits intro!: ctx_work_inv [OF assms(1)] enque_shape)

lemma ctx_recv_inv:
  assumes "logic_inv holds inst lim ts procs w x out" "trs_logic_cq_recv e fuel c ts x para = Some (r, para', x', rep)"
    "\<And>k q. same_shape q (le_others e k q)"
  shows "logic_inv holds inst lim ts procs w x' out"
proof -
  have "x' = x \<or> (\<exists>q q1 q'. cq_at x (rr_cqId para) = Some q \<and> same_shape q q1 \<and> same_shape q1 q' \<and> x' = cq_set (rr_cqId para) q' x)"
  proof (cases "trs_logic_cq_recv_para_check c ts para = Some 0")
    case False
    with assms(2) show ?thesis by (auto simp: trs_logic_cq_recv_def split: if_split_asm bind_splits)
  next
    case True
    obtain q where q: "cq_at x (rr_cqId para) = Some q" using assms(2) True by (auto simp: trs_logic_cq_recv_def split: bind_splits)
    define q1 where "q1 = q\<lparr>lq_stat := (lq_stat q)\<lparr>ls_recv_in := ls_recv_in (lq_stat q) + 1\<rparr>\<rparr>"
    have irq: "lq_thread_bind_irq q1 = lq_thread_bind_irq q" by (simp add: q1_def)
    have "\<exists>q'. same_shape q1 q' \<and> x' = cq_set (rr_cqId para) q' x"
    proof (cases "lq_thread_bind_irq q1 \<ge> 0")
      case True
      with assms(2) \<open>trs_logic_cq_recv_para_check c ts para = Some 0\<close> q have "x' = cq_set (rr_cqId para) q1 x"
        by (auto simp: trs_logic_cq_recv_def q1_def Let_def)
      then show ?thesis using same_shape_refl by blast
    next
      case False
      with assms(2) True q obtain r' p2 q2 o2 where "recv_rounds e (pq_chan_id (cx_phy_cq x)) 0 fuel q1 para lq_quiet = Some (r', p2, q2, o2)"
        "x' = cq_set (rr_cqId para) q2 x"
        by (auto simp: trs_logic_cq_recv_def q1_def [symmetric] irq Let_def split: bind_splits)
      with recv_rounds_shape [OF assms(3)] show ?thesis by blast
    qed
    moreover have "same_shape q q1" by (simp add: q1_def)
    ultimately show ?thesis using q by blast
  qed
  then show ?thesis using assms(1) ctx_work_inv [OF assms(1)] same_shape_trans by blast
qed

lemma ctx_irq_inv:
  assumes "logic_inv holds inst lim ts procs w x out" "trs_thread_bind_irq_proc c x = Some x'"
  shows "logic_inv holds inst lim ts procs w x' out"
proof -
  have "x' = x \<or> (\<exists>i q. cq_at x i = Some q \<and> x' = cq_set i (q\<lparr>lq_wakeup_num := 1\<rparr>) x)"
    using assms(2) by (auto simp: trs_thread_bind_irq_proc_def split: if_splits option.splits)
  then show ?thesis using assms(1) ctx_work_inv [OF assms(1)] by auto
qed

section \<open>Start\<close>

lemma request_loop_ok:
  assumes "irq_request_loop req irq i n x calls = Some (0, x', calls')" "intr_ok (cx_intr_mng x)"
  shows "intr_ok (cx_intr_mng x') \<and> cx_cq x' = cx_cq x"
  using assms
proof (induction req irq i n x calls rule: irq_request_loop.induct)
  case (2 req irq i n x calls)
  then show ?case by (auto simp: Let_def split: if_splits bind_splits)
qed simp

lemma init_inv:
  assumes "trs_logic_cq_init vmem get mem req ts x0 [] = Some (0, x, calls)" "im_irq_num (cx_intr_mng x0) = 0"
    "res_inv TRS_LOGIC_CQ ts Map.empty {} (\<lambda>_. 0)" "holds (rw_ids w) {}" "ct_inst ts = inst"
    "rm_max_id (ct_res_mng ts TRS_LOGIC_CQ) = lim"
  shows "logic_inv holds inst lim ts Map.empty w x {}"
proof -
  define x1 where "x1 = x0\<lparr>cx_cq := Some (replicate (unat lim) zero_cq), cx_cq_num := lim, cx_phy_cq := (cx_phy_cq x0)\<lparr>pq_chan_id := - 1\<rparr>\<rparr>"
  have "trs_thread_bind_irq_init get mem req x1 [] = Some (0, x, calls)"
    using assms(1,6) by (auto simp: trs_logic_cq_init_def Let_def x1_def trs_res_get_max_id_def split: if_splits bind_splits)
  moreover have "im_irq_num (cx_intr_mng x1) = 0" using assms(2) by (simp add: x1_def)
  ultimately have x: "intr_ok (cx_intr_mng x) \<and> cx_cq x = cx_cq x1"
    by (auto simp: trs_thread_bind_irq_init_def Let_def intr_ok_def split: if_splits option.splits prod.splits
        dest!: request_loop_ok)
  have at: "cq_at x i = Some zero_cq" if "i < lim" for i
    using that x by (simp add: cq_at_def x1_def word_less_nat_alt)
  show ?thesis
    unfolding logic_inv_def
  proof (intro conjI allI impI)
    fix i assume i: "i < lim"
    obtain e where e: "res_entry ts TRS_LOGIC_CQ i = Some e"
      using assms(3,6) i by (auto simp: res_inv_def res_table_def res_entry_def res_ids_at_def word_less_nat_alt)
    have "\<not> res_owned e" by (rule not_held_unowned [OF assms(3) _ e]) simp
    with at [OF i] e show "\<exists>q e. cq_at x i = Some q \<and> res_entry ts TRS_LOGIC_CQ i = Some e \<and> lcq_ok q \<and> (lq_valid q \<noteq> 0 \<longleftrightarrow> res_owned e)"
      by (simp add: lcq_ok_def zero_cq_def)
  qed (use assms x in simp_all)
qed

text \<open>The interrupts after the start, when all of them could be requested, and the calls made.\<close>

definition irq_ctxs :: "u32 list \<Rightarrow> nat \<Rightarrow> trs_thread_bind_intr_ctx list" where
  "irq_ctxs irq n = map (\<lambda>j. \<lparr>ic_valid = 0, ic_irq = irq ! j, ic_wait_flag = None, ic_wait_queue = None\<rparr>) [0 ..< n]"

lemma request_loop_all:
  assumes "im_irq_ctx (cx_intr_mng x) = Some (irq_ctxs irq i @ cs)" "length cs = n" "i + n \<le> length irq"
  shows "irq_request_loop (\<lambda>_. 0) irq i n x calls =
    Some (0, x\<lparr>cx_intr_mng := (cx_intr_mng x)\<lparr>im_irq_ctx := Some (irq_ctxs irq (i + n))\<rparr>\<rparr>,
      calls @ map (\<lambda>j. RequestIrq (irq ! j) j) [i ..< i + n])"
  using assms
proof (induction n arbitrary: i x cs calls)
  case 0
  then show ?case by simp
next
  case (Suc n)
  then obtain c cs' where cs: "cs = c # cs'" "length cs' = n" by (auto simp: length_Suc_conv)
  have len: "length (irq_ctxs irq i) = i" by (simp add: irq_ctxs_def)
  let ?x = "x\<lparr>cx_intr_mng := irq_ctx_set i \<lparr>ic_valid = 0, ic_irq = irq ! i, ic_wait_flag = None, ic_wait_queue = None\<rparr> (cx_intr_mng x)\<rparr>"
  have nx: "im_irq_ctx (cx_intr_mng ?x) = Some (irq_ctxs irq (Suc i) @ cs')"
    using Suc.prems(1) len by (simp add: irq_ctx_set_def cs irq_ctxs_def list_update_append)
  have "irq_request_loop (\<lambda>_. 0) irq i (Suc n) x calls =
      irq_request_loop (\<lambda>_. 0) irq (Suc i) n ?x (calls @ [RequestIrq (irq ! i) i])"
    using Suc.prems len by (simp add: irq_ctx_at_def cs Let_def)
  also have "\<dots> = Some (0, ?x\<lparr>cx_intr_mng := (cx_intr_mng ?x)\<lparr>im_irq_ctx := Some (irq_ctxs irq (Suc i + n))\<rparr>\<rparr>,
      (calls @ [RequestIrq (irq ! i) i]) @ map (\<lambda>j. RequestIrq (irq ! j) j) [Suc i ..< Suc i + n])"
    by (rule Suc.IH [OF nx cs(2)]) (use Suc.prems(3) in simp)
  finally show ?case by (simp add: irq_ctx_set_def upt_conv_Cons del: upt_Suc)
qed

lemma irq_init_all:
  assumes "unat num \<le> length irq" "num \<noteq> 0"
  shows "trs_thread_bind_irq_init (Some (0, irq, num)) True (\<lambda>_. 0) x calls =
    Some (0, x\<lparr>cx_intr_mng := (cx_intr_mng x)\<lparr>im_irq_num := num, im_irq_ctx := Some (irq_ctxs irq (unat num))\<rparr>\<rparr>,
      calls @ map (\<lambda>j. RequestIrq (irq ! j) j) [0 ..< unat num])"
proof -
  let ?x = "x\<lparr>cx_intr_mng := (cx_intr_mng x)\<lparr>im_irq_num := num, im_irq_ctx := Some (replicate (unat num)
     \<lparr>ic_valid = 0, ic_irq = 0, ic_wait_flag = None, ic_wait_queue = None\<rparr>)\<rparr>\<rparr>"
  have "irq_request_loop (\<lambda>_. 0) irq 0 (unat num) ?x calls =
    Some (0, ?x\<lparr>cx_intr_mng := (cx_intr_mng ?x)\<lparr>im_irq_ctx := Some (irq_ctxs irq (0 + unat num))\<rparr>\<rparr>,
      calls @ map (\<lambda>j. RequestIrq (irq ! j) j) [0 ..< 0 + unat num])"
    by (rule request_loop_all [where cs = "replicate (unat num)
          \<lparr>ic_valid = 0, ic_irq = 0, ic_wait_flag = None, ic_wait_queue = None\<rparr>"]) (use assms in \<open>simp_all add: irq_ctxs_def\<close>)
  then show ?thesis using assms(2) by (simp add: trs_thread_bind_irq_init_def Let_def)
qed

lemma irq_free_loop_all:
  assumes "im_irq_ctx m = Some cs" "i + n \<le> length cs"
  shows "irq_free_loop m i n calls = Some (calls @ map (\<lambda>j. FreeIrq (ic_irq (cs ! j)) 0) [i ..< i + n])"
  using assms
proof (induction n arbitrary: i calls)
  case (Suc n)
  then have "irq_free_loop m i (Suc n) calls = irq_free_loop m (Suc i) n (calls @ [FreeIrq (ic_irq (cs ! i)) 0])"
    by (simp add: irq_ctx_at_def)
  then show ?case using Suc by (simp add: upt_conv_Cons del: upt_Suc)
qed simp

section \<open>Reachable states\<close>

text \<open>
  Any number of processes, named by numbers, use the queues of an instance. In \<open>lgr_recv\<close> the receive may have waited: what
  other threads do to the queue meanwhile keeps its shape and does not release it. \<open>lgr_other\<close> is work on the
  other resources of the instance.
\<close>

inductive logic_reach ::
    "('s trs_ids \<Rightarrow> u32 set \<Rightarrow> bool) \<Rightarrow> trs_id_inst \<Rightarrow> u32 \<Rightarrow> ('s, 'h) trs_core_ts_inst \<Rightarrow> (nat \<rightharpoonup> trs_proc_ctx) \<Rightarrow>
     ('s, 'h) trs_res_w \<Rightarrow> trs_logic_cq_ctx \<Rightarrow> bool"
  for holds inst lim where
  lgr_start: "res_inv TRS_LOGIC_CQ ts Map.empty {} (\<lambda>_. 0) \<Longrightarrow> holds (rw_ids w) {} \<Longrightarrow> ct_inst ts = inst \<Longrightarrow>
    rm_max_id (ct_res_mng ts TRS_LOGIC_CQ) = lim \<Longrightarrow> im_irq_num (cx_intr_mng x0) = 0 \<Longrightarrow>
    trs_logic_cq_init vmem get mem req ts x0 [] = Some (0, x, calls) \<Longrightarrow> logic_reach holds inst lim ts Map.empty w x"
| lgr_open: "logic_reach holds inst lim ts procs w x \<Longrightarrow> trs_proc_ctx_create True tgid ts = (Some c, ts') \<Longrightarrow> tgid \<noteq> 0 \<Longrightarrow>
    procs a = None \<Longrightarrow> (\<forall>i e. res_entry ts TRS_LOGIC_CQ i = Some e \<longrightarrow> ri_task_id e \<noteq> pc_task_id c \<or> ri_pid e \<noteq> tgid) \<Longrightarrow>
    (\<forall>b d. procs b = Some d \<longrightarrow> pc_task_id d \<noteq> pc_task_id c) \<Longrightarrow> logic_reach holds inst lim ts' (procs(a \<mapsto> c)) w x"
| lgr_close: "logic_reach holds inst lim ts procs w x \<Longrightarrow> logic_reach holds inst lim ts (procs(a := None)) w x"
| lgr_alloc: "logic_reach holds inst lim ts procs w x \<Longrightarrow> procs a = Some c \<Longrightarrow>
    trs_logic_cq_alloc ch env vmem active \<lparr>lg_proc = c, lg_ts = ts, lg_w = w, lg_ctx = x\<rparr> para = Some (ret, st', para') \<Longrightarrow>
    logic_reach holds inst lim (lg_ts st') (procs(a \<mapsto> lg_proc st')) (lg_w st') (lg_ctx st')"
| lgr_free: "logic_reach holds inst lim ts procs w x \<Longrightarrow> procs a = Some c \<Longrightarrow>
    trs_logic_cq_free env active \<lparr>lg_proc = c, lg_ts = ts, lg_w = w, lg_ctx = x\<rparr> i = Some (ret, st') \<Longrightarrow>
    logic_reach holds inst lim (lg_ts st') (procs(a \<mapsto> lg_proc st')) (lg_w st') (lg_ctx st')"
| lgr_recycle: "logic_reach holds inst lim ts procs w x \<Longrightarrow> procs a = Some c \<Longrightarrow>
    trs_logic_cq_recycle env active \<lparr>lg_proc = c, lg_ts = ts, lg_w = w, lg_ctx = x\<rparr> ty i = Some st' \<Longrightarrow>
    logic_reach holds inst lim (lg_ts st') (procs(a \<mapsto> lg_proc st')) (lg_w st') (lg_ctx st')"
| lgr_enque: "logic_reach holds inst lim ts procs w x \<Longrightarrow> ctx_enque active x i cqe = Some (ret, x') \<Longrightarrow>
    logic_reach holds inst lim ts procs w x'"
| lgr_recv: "logic_reach holds inst lim ts procs w x \<Longrightarrow> procs a = Some c \<Longrightarrow> (\<forall>k q. same_shape q (le_others e k q)) \<Longrightarrow>
    trs_logic_cq_recv e fuel c ts x para = Some (r, para', x', rep) \<Longrightarrow> logic_reach holds inst lim ts procs w x'"
| lgr_irq: "logic_reach holds inst lim ts procs w x \<Longrightarrow> trs_thread_bind_irq_proc ic x = Some x' \<Longrightarrow>
    logic_reach holds inst lim ts procs w x'"
| lgr_other: "logic_reach holds inst lim ts procs w x \<Longrightarrow> ct_res_mng ts' TRS_LOGIC_CQ = ct_res_mng ts TRS_LOGIC_CQ \<Longrightarrow>
    ct_inst ts' = ct_inst ts \<Longrightarrow> (\<forall>out. holds (rw_ids w) out \<longrightarrow> holds (rw_ids w') out) \<Longrightarrow> logic_reach holds inst lim ts' procs w' x"

lemma logic_inv_cong:
  assumes "logic_inv holds inst lim ts procs w x out" "ct_res_mng ts' TRS_LOGIC_CQ = ct_res_mng ts TRS_LOGIC_CQ" "ct_inst ts' = ct_inst ts"
  shows "logic_inv holds inst lim ts' procs w x out"
  using assms res_inv_cong [of ts' TRS_LOGIC_CQ ts] by (simp add: logic_inv_def res_entry_def)

context logic_source
begin

lemma free_ok:
  assumes inv: "logic_inv holds inst lim (lg_ts st) procs (lg_w st) (lg_ctx st) out" and c: "procs a = Some (lg_proc st)"
  shows "if trs_proc_has_res (lg_proc st) (lg_ts st) TRS_LOGIC_CQ i = Some True
    then \<exists>st' out' q y. trs_logic_cq_free0 env active st i = Some (0, st') \<and>
      logic_inv holds inst lim (lg_ts st') (procs(a \<mapsto> lg_proc st')) (lg_w st') (lg_ctx st') out' \<and> out - {i} \<subseteq> out' \<and> out' \<subseteq> out \<and>
      pc_pid (lg_proc st') = pc_pid (lg_proc st) \<and> pc_task_id (lg_proc st') = pc_task_id (lg_proc st) \<and>
      cq_at (lg_ctx st') i = Some q \<and> lq_valid q = 0 \<and> lq_addr q = None \<and> res_entry (lg_ts st') TRS_LOGIC_CQ i = Some y \<and> \<not> res_owned y \<and>
      (\<forall>j. j \<noteq> i \<longrightarrow> cq_at (lg_ctx st') j = cq_at (lg_ctx st) j \<and>
        res_entry (lg_ts st') TRS_LOGIC_CQ j = res_entry (lg_ts st) TRS_LOGIC_CQ j)
    else trs_logic_cq_free0 env active st i = Some (- EINVAL, st)"
proof (cases "trs_proc_has_res (lg_proc st) (lg_ts st) TRS_LOGIC_CQ i = Some True")
  case False
  obtain b where "trs_proc_has_res (lg_proc st) (lg_ts st) TRS_LOGIC_CQ i = Some b" using has_res_inv [OF logic_invD(1) [OF inv]] by blast
  with False show ?thesis by (cases b) (simp_all add: trs_logic_cq_free0_def)
next
  case True
  define st1 where "st1 = (if trs_is_stars_inst (lg_ts st) then st
     else st\<lparr>lg_w := snd (trs_logic_cq_free_notice_ts (lg_proc st) (lg_ts st) (lg_w st) i)\<rparr>)"
  have s1: "lg_proc st1 = lg_proc st" "lg_ts st1 = lg_ts st" "lg_ctx st1 = lg_ctx st" "rw_ids (lg_w st1) = rw_ids (lg_w st)"
    by (simp_all add: st1_def trs_logic_cq_free_notice_ts_def res_send_def split: prod.split)
  have v: "logic_inv holds inst lim (lg_ts st1) procs (lg_w st1) (lg_ctx st1) out" and pc: "procs a = Some (lg_proc st1)"
    and o: "trs_proc_has_res (lg_proc st1) (lg_ts st1) TRS_LOGIC_CQ i = Some True"
    using logic_inv_quiet [OF inv, of "lg_w st1" "lg_ctx st1"] c True by (simp_all add: s1)
  obtain st2 out' q y where u: "logic_alloc_undo env active i st1 = Some st2"
    "logic_inv holds inst lim (lg_ts st2) (procs(a \<mapsto> lg_proc st2)) (lg_w st2) (lg_ctx st2) out'" "out - {i} \<subseteq> out'" "out' \<subseteq> out"
    "pc_pid (lg_proc st2) = pc_pid (lg_proc st1)" "pc_task_id (lg_proc st2) = pc_task_id (lg_proc st1)"
    "cq_at (lg_ctx st2) i = Some q" "lq_valid q = 0" "lq_addr q = None" "\<And>j. j \<noteq> i \<Longrightarrow> cq_at (lg_ctx st2) j = cq_at (lg_ctx st1) j"
    "\<And>j. j \<noteq> i \<Longrightarrow> res_entry (lg_ts st2) TRS_LOGIC_CQ j = res_entry (lg_ts st1) TRS_LOGIC_CQ j"
    "res_entry (lg_ts st2) TRS_LOGIC_CQ i = Some y" "\<not> res_owned y"
    by (rule undo_ok [OF v pc o, of env active]) blast
  obtain e where "res_entry (lg_ts st) TRS_LOGIC_CQ i = Some e" using True has_res_inv [OF logic_invD(1) [OF inv]] by (auto split: option.splits)
  then obtain q0 where "cq_at (lg_ctx st) i = Some q0" using logic_invD(6) [OF inv logic_inv_entry [OF inv]] by blast
  then have "trs_logic_cq_free0 env active st i = Some (0, st2)"
    using True u(1) by (simp add: trs_logic_cq_free0_def st1_def [symmetric] s1 Let_def)
  with True u show ?thesis by (auto simp: s1 simp del: fun_upd_apply)
qed

lemma reach_inv:
  assumes "logic_reach holds inst lim ts procs w x"
  shows "\<exists>out. logic_inv holds inst lim ts procs w x out"
  using assms
proof induction
  case (lgr_start ts w x0 vmem get mem req x calls)
  then show ?case by (intro exI [of _ "{}"]) (rule init_inv)
next
  case (lgr_open ts procs w x tgid c ts' a)
  then obtain out where inv: "logic_inv holds inst lim ts procs w x out" by blast
  have c: "pc_pid c = tgid" "trs_get_proc_res_num c (ti_tsid (ct_inst ts)) TRS_LOGIC_CQ = 0" "ts' = ts\<lparr>ct_cur_task_id := ct_cur_task_id ts + 1\<rparr>"
    using lgr_open.hyps(2) by (auto simp: trs_proc_ctx_create_def trs_get_proc_res_num_def)
  have "res_inv TRS_LOGIC_CQ ts (procs(a \<mapsto> c)) out (\<lambda>_. 0)"
    by (rule res_inv_new [OF logic_invD(1) [OF inv]])
      (use c lgr_open.hyps in \<open>auto simp: proc_match_def trs_is_id_pid_match_def\<close>)
  then have "logic_inv holds inst lim ts (procs(a \<mapsto> c)) w x out" using inv by (simp add: logic_inv_def)
  then have "logic_inv holds inst lim ts' (procs(a \<mapsto> c)) w x out" by (rule logic_inv_cong) (simp_all add: c(3))
  then show ?case by blast
next
  case (lgr_close ts procs w x a)
  then obtain out where "logic_inv holds inst lim ts procs w x out" by blast
  then have "logic_inv holds inst lim ts (procs(a := None)) w x out"
    using res_inv_drop [of TRS_LOGIC_CQ ts procs out "\<lambda>_. 0" a] by (simp add: logic_inv_def)
  then show ?case by blast
next
  case (lgr_alloc ts procs w x a c ch env vmem active para ret st' para')
  then obtain out where "logic_inv holds inst lim ts procs w x out" by blast
  then show ?case
    using alloc_ok [of "\<lparr>lg_proc = c, lg_ts = ts, lg_w = w, lg_ctx = x\<rparr>" procs out a para ch env vmem active] lgr_alloc.hyps(2,3)
    by (auto simp: alloc_done_def simp del: fun_upd_apply)
next
  case (lgr_free ts procs w x a c env active i ret st')
  then obtain out where "logic_inv holds inst lim ts procs w x out" by blast
  moreover have "procs(a \<mapsto> c) = procs" using lgr_free.hyps(2) by auto
  ultimately show ?case
    using free_ok [of "\<lparr>lg_proc = c, lg_ts = ts, lg_w = w, lg_ctx = x\<rparr>" procs out a i env active] lgr_free.hyps(2,3)
    by (auto simp: trs_logic_cq_free_def simp del: fun_upd_apply split: if_splits)
next
  case (lgr_recycle ts procs w x a c env active ty i st')
  then obtain out where "logic_inv holds inst lim ts procs w x out" by blast
  moreover have "procs(a \<mapsto> c) = procs" using lgr_recycle.hyps(2) by auto
  ultimately show ?case
    using free_ok [of "\<lparr>lg_proc = c, lg_ts = ts, lg_w = w, lg_ctx = x\<rparr>" procs out a i env active] lgr_recycle.hyps(2,3)
    by (auto simp: trs_logic_cq_recycle_def simp del: fun_upd_apply split: if_splits)
next
  case (lgr_enque ts procs w x active i cqe ret x')
  then show ?case by (blast intro: ctx_enque_inv)
next
  case (lgr_recv ts procs w x a c e fuel para r para' x' rep)
  then show ?case by (blast intro: ctx_recv_inv)
next
  case (lgr_irq ts procs w x ic x')
  then show ?case by (blast intro: ctx_irq_inv)
next
  case (lgr_other ts procs w x ts' w')
  then obtain out where "logic_inv holds inst lim ts procs w x out" by blast
  then have "logic_inv holds inst lim ts' procs w x out" by (rule logic_inv_cong [OF _ lgr_other.hyps(2,3)])
  then show ?case using lgr_other.hyps(4) by (auto simp: logic_inv_def)
qed

end

section \<open>The ids of queues\<close>

text \<open>
  \<open>local_holds inst ty lim st out\<close>: the pool of the type is registered without a backend, its ids are below \<open>lim\<close>, and
  exactly the ids \<open>out\<close> are allocated from it. The ids of logic completion queues are of such a type.
\<close>

definition local_good :: "u32 \<Rightarrow> 's \<Rightarrow> 's trs_id_pool \<Rightarrow> u32 set \<Rightarrow> bool" where
  "local_good lim s p out \<longleftrightarrow> local_inv p out \<and> trs_id_range p \<subseteq> {i. i < lim}"

definition local_holds :: "trs_id_inst \<Rightarrow> int \<Rightarrow> u32 \<Rightarrow> 's trs_ids \<Rightarrow> u32 set \<Rightarrow> bool" where
  "local_holds inst ty lim = registered (local_good lim) inst ty"

interpretation lpool: pool_source "local_good lim" inst ty lim
  for inst ty lim
proof unfold_locales
  show "local_good lim s p out \<Longrightarrow> trs_id_pool_ok p" for s :: 'a and p out
    by (auto simp: local_good_def intro: local_inv_ok)
  show "local_good lim s (p\<lparr>tp_ref := n\<rparr>) out = local_good lim s p out" for s :: 'a and p n out
    by (simp add: local_good_def trs_id_range_def)
  fix s :: 'a and p out assume "local_good lim s p out"
  then have g: "local_inv p out" "trs_id_range p \<subseteq> {i. i < lim}" by (simp_all add: local_good_def)
  show "\<exists>ret r p' s'. trs_id_pool_alloc kmem p s = Some (ret, r, p', s') \<and> trs_id_pool_frame p p' \<and>
      local_good lim s' p' (out \<union> set_option r) \<and> (case r of None \<Rightarrow> ret \<noteq> 0 | Some i \<Rightarrow> ret = 0 \<and> i \<notin> out \<and> i < lim)" for kmem
  proof (cases "out = trs_id_range p")
    case True
    with local_alloc [OF g(1), of kmem s] g show ?thesis by (simp add: trs_id_pool_frame_def local_good_def)
  next
    case False
    with local_alloc [OF g(1), of kmem s] obtain i p' where A: "trs_id_pool_alloc kmem p s = Some (0, Some i, p', s)"
      "i \<in> trs_id_range p - out" "trs_id_pool_frame p p'" "local_inv p' (insert i out)" by auto
    then have "local_good lim s p' (insert i out)" "i < lim" using g(2) range_frame [OF A(3)] by (auto simp: local_good_def)
    with A show ?thesis by (intro exI [of _ 0] exI [of _ "Some i"] exI [of _ p'] exI [of _ s]) simp
  qed
  show "\<exists>ret p' s'. trs_id_pool_free fmem p s i = Some (ret, p', s') \<and> trs_id_pool_frame p p' \<and>
      local_good lim s' p' (if ret = 0 then out - {i} else out)" if i: "i \<in> out" for i fmem
  proof -
    obtain p' where "trs_id_pool_free fmem p s i = Some (if fmem then 0 else - ENOMEM, p', s)" "trs_id_pool_frame p p'"
      "local_inv p' (if fmem then out - {i} else out)" using local_free [OF g(1) i, of fmem s] by blast
    with g(2) range_frame [of p p'] show ?thesis by (cases fmem) (auto simp: local_good_def)
  qed
qed

interpretation llog: logic_source "local_holds inst TRS_LOGIC_CQ_ID lim" inst lim
  for inst lim
proof -
  have "trs_res_get_id_type TRS_LOGIC_CQ = TRS_LOGIC_CQ_ID" by (simp add: trs_res_get_id_type_def)
  with lpool.psrc.id_source_axioms [of lim inst TRS_LOGIC_CQ]
  show "logic_source (local_holds inst TRS_LOGIC_CQ_ID lim) inst lim" by (simp add: logic_source_def local_holds_def)
qed

section \<open>Who owns a queue\<close>

text \<open>Two processes never own the same entry.\<close>

lemma owner_unique:
  assumes "res_inv ty ts procs out g" "procs a = Some c" "procs b = Some d"
    "trs_proc_has_res c ts ty i = Some True" "trs_proc_has_res d ts ty i = Some True"
  shows "a = b"
proof -
  obtain e where "proc_match c e" "proc_match d e"
    using assms(4,5) has_res_inv [OF assms(1)] by (auto split: option.splits)
  then have "pc_pid c = pc_pid d" "pc_task_id c = pc_task_id d" by (simp_all add: proc_match_def trs_is_id_pid_match_def)
  then show ?thesis using assms(1-3) by (auto simp: res_inv_def procs_ok_def)
qed

text \<open>A new queue of stars hardware with entries of full size is a well-formed, empty ring.\<close>

lemma fresh_cq_ring:
  assumes "fresh_cq ts para q" "trs_is_stars_inst ts" "si_cqeSize para = 32" "trs_logic_cq_alloc_para_check para = 0"
  shows "lq_inv q" "lq_contents q = []"
proof -
  note sz = para_check_sizes [OF assms(4)]
  have "lq_wf q (replicate (unat (si_cqeDepth para) * 32) 0)"
    using assms(1-3) sz by (simp add: fresh_cq_def lq_wf_def)
  then show "lq_inv q" by (rule lq_invI)
  show "lq_contents q = []" using assms(1) by (simp add: fresh_cq_def lq_contents_def lq_used_def)
qed

lemma unowned_no_match:
  assumes "res_inv ty ts procs out g" "res_entry ts ty i = Some y" "\<not> res_owned y" "pc_pid c \<noteq> 0"
  shows "trs_proc_has_res c ts ty i = Some False"
  using has_res_inv [OF assms(1)] assms(2-4) by (auto simp: proc_match_def trs_is_id_pid_match_def res_owned_def)

lemma cq_set_same: "cq_at x i = Some q \<Longrightarrow> cq_set i q x = x"
  by (auto simp: cq_at_def cq_set_def split: option.splits if_splits)

section \<open>Demonstration data\<close>

text \<open>Logic completion queues of device 0: the local pool holds the ids 2 to 4, process 42 has opened the device.\<close>

definition demo_lg_w :: "(unit, unit) trs_res_w" where
  "demo_lg_w = \<lparr>rw_ids = demo_ids1, rw_hw = (), rw_sent = []\<rparr>"

definition demo_lg_ops :: "(unit, unit) trs_core_adapt_ops" where
  "demo_lg_ops =
     \<lparr>ao_res_id_check = None, ao_id_alloc = (\<lambda>_. None), ao_id_free = (\<lambda>_. None), ao_notice_ts = (\<lambda>h _ _. (0, 0, h)),
      ao_res_id_ctrl = None, ao_res_id_query = None, ao_get_res_reg_offset = (\<lambda>_ _ _ _. (0, 0)),
      ao_get_res_reg_total_size = (\<lambda>_ _ _. (0, 0))\<rparr>"

definition demo_lg_mng :: trs_res_mng where
  "demo_lg_mng =
     \<lparr>rm_res_type = TRS_LOGIC_CQ, rm_id_num = 3, rm_max_id = 5, rm_use_num = 0,
      rm_ids = Some (replicate 5 \<lparr>ri_status = 0, ri_task_id = 0, ri_pid = 0, ri_ref = 0\<rparr>)\<rparr>"

definition demo_lg_ts0 :: "(unit, unit) trs_core_ts_inst" where
  "demo_lg_ts0 =
     \<lparr>ct_hw_type = 1, ct_featur_mode = 0, ct_surport_proc_num = 0, ct_inst = demo_id_inst, ct_ops = demo_lg_ops,
      ct_cur_task_id = 5, ct_proc_list = [], ct_exit_proc_list = [], ct_res_mng = (\<lambda>_. demo_lg_mng), ct_stream_ctx = None\<rparr>"

definition demo_lg_proc :: trs_proc_ctx where
  "demo_lg_proc = the (fst (trs_proc_ctx_create True 42 demo_lg_ts0))"

definition demo_lg_ts :: "(unit, unit) trs_core_ts_inst" where
  "demo_lg_ts = snd (trs_proc_ctx_create True 42 demo_lg_ts0)"

definition demo_lg_env :: trs_res_env where
  "demo_lg_env = \<lparr>en_modok = True, en_mem = (\<lambda>_. True), en_fmodok = True, en_fmem = True, en_stack = 5\<rparr>"

text \<open>Two interrupts, 100 and 101, are for single queues.\<close>

definition demo_lg_zero :: trs_logic_cq_ctx where
  "demo_lg_zero = \<lparr>cx_cq_num = 0, cx_phy_cq = \<lparr>pq_chan_id = 0, pq_notice_flag = 0, pq_cqid = 0, pq_cq_irq = 0, pq_cq_phy_addr = 0\<rparr>,
     cx_cq = None, cx_intr_mng = \<lparr>im_irq_num = 0, im_irq_ctx = None\<rparr>\<rparr>"

definition demo_lg_irqs :: "u32 list" where
  "demo_lg_irqs = 100 # 101 # replicate 30 0"

definition demo_lg_ctx :: trs_logic_cq_ctx where
  "demo_lg_ctx = fst (snd (the (trs_logic_cq_init True (Some (0, demo_lg_irqs, 2)) True (\<lambda>_. 0) demo_lg_ts0 demo_lg_zero [])))"

definition demo_lg_para :: halSqCqInputInfo where
  "demo_lg_para = \<lparr>si_tsId = 0, si_cqeSize = 32, si_cqeDepth = 4, si_flag = TSDRV_FLAG_THREAD_BIND_IRQ, si_cqId = 0, si_info = []\<rparr>"

definition demo_lg_st :: "(unit, unit) trs_logic_st" where
  "demo_lg_st = \<lparr>lg_proc = demo_lg_proc, lg_ts = demo_lg_ts, lg_w = demo_lg_w, lg_ctx = demo_lg_ctx\<rparr>"

definition demo_chan :: "unit trs_chan_ops" where
  "demo_chan = \<lparr>ch_create = (\<lambda>h _. (0, Some 3, h)), ch_cq_info = (\<lambda>_ _ _. (9, 50, 4096)), ch_destroy = (\<lambda>h _ _. h)\<rparr>"

lemma demo_lg_init:
  "\<exists>calls. trs_logic_cq_init True (Some (0, demo_lg_irqs, 2)) True (\<lambda>_. 0) demo_lg_ts0 demo_lg_zero [] = Some (0, demo_lg_ctx, calls)"
proof -
  let ?x = "demo_lg_zero\<lparr>cx_cq := Some (replicate (unat (trs_res_get_max_id demo_lg_ts0 TRS_LOGIC_CQ)) zero_cq),
    cx_cq_num := trs_res_get_max_id demo_lg_ts0 TRS_LOGIC_CQ, cx_phy_cq := (cx_phy_cq demo_lg_zero)\<lparr>pq_chan_id := - 1\<rparr>\<rparr>"
  have "unat (2 :: u32) \<le> length demo_lg_irqs" by (simp add: demo_lg_irqs_def)
  from irq_init_all [OF this, of ?x "[]"] show ?thesis by (simp add: trs_logic_cq_init_def demo_lg_ctx_def Let_def)
qed

lemma demo_lg_holding: "local_holds demo_id_inst TRS_LOGIC_CQ_ID 5 demo_ids1 {}"
proof -
  have "trs_ids_inv demo_ids0 {#}" by (simp add: trs_ids_inv_def demo_ids0_def)
  moreover have "trs_id_reg_ok TRS_LOGIC_CQ_ID (None :: unit trs_id_ops option)" by (simp add: trs_id_reg_ok_def trs_id_is_local_type_def)
  moreover have "ts_heap demo_ids0 7 = None" by (simp add: demo_ids0_def)
  ultimately have "trs_ids_inv demo_ids1 {#}"
    using trs_register_inv [of demo_ids0 "{#}" 7 TRS_LOGIC_CQ_ID None True "\<lambda>_. True" "Some demo_id_inst" "Some (demo_id_attr 2 5 4)"]
      demo_trs_register by simp
  moreover have "trs_id_pool_create True (\<lambda>_. True) demo_id_inst TRS_LOGIC_CQ_ID (demo_id_attr 2 5 4) (None :: unit trs_id_ops option) =
      Some (demo_local_pool [3, 2, 4])"
    by (simp add: demo_id_simps trs_id_pool_create_def trs_id_node_all_def trs_id_node_all_from.simps
        trs_id_pool_add_node_def Let_def no_ops_def)
  then have "local_inv (demo_local_pool [3, 2, 4]) {}" by (rule local_create [THEN conjunct1]) (simp add: trs_id_is_local_type_def)
  moreover have "trs_id_range (demo_local_pool [3, 2, 4]) = {2 ..< 5}" by (simp add: trs_id_range_def demo_local_pool_def demo_id_attr_def)
  moreover have "trs_id_param_check (Some demo_id_inst) TRS_LOGIC_CQ_ID = 0" "trs_id_key demo_id_inst TRS_LOGIC_CQ_ID = TrsIdIdx 0 TRS_LOGIC_CQ_ID"
    by (simp_all add: trs_id_param_check_def trs_id_inst_check_def trs_id_type_check_def demo_id_inst_def trs_id_key_def trs_id_inst_to_ts_inst_def)
  ultimately show ?thesis unfolding local_holds_def registered_def local_good_def
    by (intro exI [of _ "{#}"] exI [of _ 7] exI [of _ "demo_local_pool [3, 2, 4]"]) (auto simp: demo_ids1_def)
qed

lemma demo_lg_reach: "logic_reach (local_holds demo_id_inst TRS_LOGIC_CQ_ID 5) demo_id_inst 5 demo_lg_ts [0 \<mapsto> demo_lg_proc] demo_lg_w demo_lg_ctx"
proof (rule lgr_open)
  obtain calls where i: "trs_logic_cq_init True (Some (0, demo_lg_irqs, 2)) True (\<lambda>_. 0) demo_lg_ts0 demo_lg_zero [] = Some (0, demo_lg_ctx, calls)"
    using demo_lg_init by blast
  have "res_table demo_lg_mng (replicate 5 \<lparr>ri_status = 0, ri_task_id = 0, ri_pid = 0, ri_ref = 0\<rparr>) (\<lambda>_. 0)"
    by (simp add: res_table_def demo_lg_mng_def entry_ok_def res_owned_def)
  then have "res_inv TRS_LOGIC_CQ demo_lg_ts0 Map.empty {} (\<lambda>_. 0)"
    unfolding res_inv_def
    by (intro conjI exI [of _ "replicate 5 \<lparr>ri_status = 0, ri_task_id = 0, ri_pid = 0, ri_ref = 0\<rparr>"])
      (simp_all add: demo_lg_ts0_def procs_ok_def)
  then show "logic_reach (local_holds demo_id_inst TRS_LOGIC_CQ_ID 5) demo_id_inst 5 demo_lg_ts0 Map.empty demo_lg_w demo_lg_ctx"
    by (rule lgr_start [OF _ _ _ _ _ i]) (simp_all add: demo_lg_holding demo_lg_w_def demo_lg_ts0_def demo_lg_mng_def demo_lg_zero_def)
  show "trs_proc_ctx_create True 42 demo_lg_ts0 = (Some demo_lg_proc, demo_lg_ts)"
    by (simp add: demo_lg_proc_def demo_lg_ts_def trs_proc_ctx_create_def)
  show "\<forall>i e. res_entry demo_lg_ts0 TRS_LOGIC_CQ i = Some e \<longrightarrow> ri_task_id e \<noteq> pc_task_id demo_lg_proc \<or> ri_pid e \<noteq> 42"
    by (auto simp: res_entry_def res_ids_at_def demo_lg_ts0_def demo_lg_mng_def split: if_splits)
qed simp_all

definition demo_lg_st1 :: "(unit, unit) trs_logic_st" where
  "demo_lg_st1 = fst (snd (the (trs_logic_cq_alloc demo_chan demo_lg_env True True demo_lg_st demo_lg_para)))"

lemma demo_lg_alloc:
  obtains para' where "trs_logic_cq_alloc demo_chan demo_lg_env True True demo_lg_st demo_lg_para = Some (0, demo_lg_st1, para')"
    "si_cqId para' = 3"
proof -
  have "map_option (\<lambda>(ret, st, p). (ret, si_cqId p)) (trs_logic_cq_alloc demo_chan demo_lg_env True True demo_lg_st demo_lg_para) = Some (0, 3)"
    by code_simp
  with that show thesis by (auto simp: demo_lg_st1_def)
qed

lemma demo_lg_reach1:
  "logic_reach (local_holds demo_id_inst TRS_LOGIC_CQ_ID 5) demo_id_inst 5 (lg_ts demo_lg_st1) [0 \<mapsto> lg_proc demo_lg_st1] (lg_w demo_lg_st1)
     (lg_ctx demo_lg_st1)"
proof -
  obtain para' where "trs_logic_cq_alloc demo_chan demo_lg_env True True demo_lg_st demo_lg_para = Some (0, demo_lg_st1, para')"
    by (rule demo_lg_alloc)
  moreover have "[0 \<mapsto> demo_lg_proc] 0 = Some demo_lg_proc" by simp
  ultimately show ?thesis using lgr_alloc [OF demo_lg_reach, of 0] by (simp add: demo_lg_st_def del: fun_upd_apply)
qed

lemma demo_lg_owned: "trs_proc_has_res (lg_proc demo_lg_st1) (lg_ts demo_lg_st1) TRS_LOGIC_CQ 3 = Some True"
  by code_simp

section \<open>Properties\<close>

text \<open>
  C23. The queues of an instance, over any interleaving of opens, closes, allocations, releases, recycling, enqueues,
  receives and interrupts by any number of processes, with ids from the instance's local pool: a queue is in use exactly
  while some process owns its id, and then the id is allocated in the pool and the queue has the memory for
  all its slots and positions within them; a queue that is not in use has no memory.
\<close>

theorem logic_cq_reachable_inv:
  assumes "logic_reach (local_holds inst TRS_LOGIC_CQ_ID lim) inst lim ts procs w x"
  shows "\<exists>out. local_holds inst TRS_LOGIC_CQ_ID lim (rw_ids w) out \<and>
    (\<forall>i. i < lim \<longrightarrow> (\<exists>q e. cq_at x i = Some q \<and> res_entry ts TRS_LOGIC_CQ i = Some e \<and>
       (lq_valid q \<noteq> 0 \<longleftrightarrow> res_owned e) \<and> (lq_valid q \<noteq> 0 \<longrightarrow> i \<in> out) \<and>
       (if lq_valid q = 0 then lq_addr q = None
        else map_option length (lq_addr q) = Some (unat (lq_cq_depth q) * unat (lq_cqe_size q)) \<and>
          lq_head q < lq_cq_depth q \<and> lq_tail q < lq_cq_depth q)))"
proof -
  obtain out where inv: "logic_inv (local_holds inst TRS_LOGIC_CQ_ID lim) inst lim ts procs w x out"
    using llog.reach_inv [OF assms] by blast
  note I = logic_invD [OF inv]
  show ?thesis
  proof (intro exI [of _ out] conjI allI impI)
    fix i assume i: "i < lim"
    obtain q e where q: "cq_at x i = Some q" "res_entry ts TRS_LOGIC_CQ i = Some e" "lcq_ok q" "lq_valid q \<noteq> 0 \<longleftrightarrow> res_owned e"
      using I(6) [OF i] by blast
    moreover have "lq_valid q \<noteq> 0 \<longrightarrow> i \<in> out" using not_held_unowned [OF I(1) _ q(2)] q(4) by blast
    ultimately show "\<exists>q e. cq_at x i = Some q \<and> res_entry ts TRS_LOGIC_CQ i = Some e \<and>
       (lq_valid q \<noteq> 0 \<longleftrightarrow> res_owned e) \<and> (lq_valid q \<noteq> 0 \<longrightarrow> i \<in> out) \<and>
       (if lq_valid q = 0 then lq_addr q = None
        else map_option length (lq_addr q) = Some (unat (lq_cq_depth q) * unat (lq_cqe_size q)) \<and>
          lq_head q < lq_cq_depth q \<and> lq_tail q < lq_cq_depth q)"
      by (intro exI [of _ q] exI [of _ e]) (auto simp: lcq_ok_def split: if_splits)
  qed (rule I(2))
qed

theorem logic_cq_reachable_inv_witness:
  "\<exists>out q. local_holds demo_id_inst TRS_LOGIC_CQ_ID 5 (rw_ids (lg_w demo_lg_st1)) out \<and> cq_at (lg_ctx demo_lg_st1) 3 = Some q \<and>
     (lq_valid q \<noteq> 0 \<longrightarrow> 3 \<in> out)"
proof -
  have "(3 :: u32) < 5" by simp
  with logic_cq_reachable_inv [OF demo_lg_reach1] show ?thesis by metis
qed

text \<open>
  C24. Allocation of a queue in any reachable state, every outcome: queues in use stay as they are. On success the queue
  was not in use, it is now owned by the caller and by no other process, it has the depth and entry size asked for, zeroed
  memory for exactly that many slots and no entries; with stars hardware and entries of full size it is a well-formed empty
  ring. On failure, at whichever step, exactly the queues that were in use before are in use.
\<close>

theorem logic_cq_alloc_spec:
  assumes "logic_reach (local_holds inst TRS_LOGIC_CQ_ID lim) inst lim ts procs w x" "procs a = Some c"
  shows "\<exists>ret st' para'. trs_logic_cq_alloc ch env vmem active \<lparr>lg_proc = c, lg_ts = ts, lg_w = w, lg_ctx = x\<rparr> para = Some (ret, st', para') \<and>
    (\<forall>j. in_use x j \<longrightarrow> cq_at (lg_ctx st') j = cq_at x j) \<and>
    (if ret = 0
     then si_cqId para' < lim \<and> \<not> in_use x (si_cqId para') \<and>
       trs_proc_has_res (lg_proc st') (lg_ts st') TRS_LOGIC_CQ (si_cqId para') = Some True \<and>
       (\<forall>b d. b \<noteq> a \<longrightarrow> procs b = Some d \<longrightarrow> trs_proc_has_res d (lg_ts st') TRS_LOGIC_CQ (si_cqId para') = Some False) \<and>
       (\<exists>q. cq_at (lg_ctx st') (si_cqId para') = Some q \<and> fresh_cq ts (para\<lparr>si_cqId := si_cqId para'\<rparr>) q \<and>
          (trs_is_stars_inst ts \<longrightarrow> si_cqeSize para = 32 \<longrightarrow> lq_inv q \<and> lq_contents q = []))
     else (\<forall>j. in_use (lg_ctx st') j = in_use x j))"
proof -
  let ?st = "\<lparr>lg_proc = c, lg_ts = ts, lg_w = w, lg_ctx = x\<rparr>"
  obtain out where inv: "logic_inv (local_holds inst TRS_LOGIC_CQ_ID lim) inst lim ts procs w x out"
    using llog.reach_inv [OF assms(1)] by blast
  obtain ret st' para' out' where A: "trs_logic_cq_alloc ch env vmem active ?st para = Some (ret, st', para')"
    "logic_inv (local_holds inst TRS_LOGIC_CQ_ID lim) inst lim (lg_ts st') (procs(a \<mapsto> lg_proc st')) (lg_w st') (lg_ctx st') out'"
    "alloc_post lim x out ts para ret st' para'"
    using llog.alloc_ok [of inst lim ?st procs out a para ch env vmem active] inv assms(2) by (auto simp: alloc_done_def)
  note P = A(3) [unfolded alloc_post_def]
  note I = logic_invD(1) [OF A(2)]
  have ok: "trs_logic_cq_alloc_para_check para = 0" if "ret = 0"
    using A(1) that unfolding trs_logic_cq_alloc_def by (cases "trs_logic_cq_alloc_para_check para = 0") simp_all
  have alone: "trs_proc_has_res d (lg_ts st') TRS_LOGIC_CQ (si_cqId para') = Some False" if "ret = 0" "b \<noteq> a" "procs b = Some d" for b d
  proof (rule ccontr)
    assume "\<not> ?thesis"
    moreover obtain v where "trs_proc_has_res d (lg_ts st') TRS_LOGIC_CQ (si_cqId para') = Some v" using has_res_inv [OF I] by blast
    ultimately have "trs_proc_has_res d (lg_ts st') TRS_LOGIC_CQ (si_cqId para') = Some True" by (cases v) simp_all
    moreover have "(procs(a \<mapsto> lg_proc st')) a = Some (lg_proc st')" "(procs(a \<mapsto> lg_proc st')) b = Some d" using that by simp_all
    ultimately have "a = b" using P that(1) owner_unique [OF I, of a "lg_proc st'" b d "si_cqId para'"] by simp
    with that(2) show False by simp
  qed
  have ring: "lq_inv q \<and> lq_contents q = []"
    if "ret = 0" "fresh_cq ts (para\<lparr>si_cqId := si_cqId para'\<rparr>) q" "trs_is_stars_inst ts" "si_cqeSize para = 32" for q
    using fresh_cq_ring [OF that(2,3)] that(4) ok [OF that(1)] by (simp add: trs_logic_cq_alloc_para_check_def)
  show ?thesis using A(1) P alone ring by (intro exI [of _ ret] exI [of _ st'] exI [of _ para']) auto
qed

theorem logic_cq_alloc_spec_witness:
  "\<exists>st' para'. trs_logic_cq_alloc demo_chan demo_lg_env True True demo_lg_st demo_lg_para = Some (0, st', para') \<and>
     \<not> in_use demo_lg_ctx (si_cqId para') \<and> si_cqId para' = 3 \<and>
     (\<exists>q. cq_at (lg_ctx st') 3 = Some q \<and> fresh_cq demo_lg_ts (demo_lg_para\<lparr>si_cqId := 3\<rparr>) q)"
proof -
  obtain para' where "trs_logic_cq_alloc demo_chan demo_lg_env True True demo_lg_st demo_lg_para = Some (0, demo_lg_st1, para')"
    "si_cqId para' = 3" by (rule demo_lg_alloc)
  with logic_cq_alloc_spec [OF demo_lg_reach, of 0 demo_lg_proc demo_chan demo_lg_env True True demo_lg_para] show ?thesis
    by (auto simp: demo_lg_st_def)
qed

text \<open>
  C25. Release of a queue in any reachable state. By the owner it succeeds: the queue is out of use and its memory gone, no
  other queue and no other entry of the ownership table changes, and nothing reaches the queue any more: an entry for it
  is refused with \<^verbatim>\<open>-EINVAL\<close>, and so is a receive by the former owner. For any other process the release is
  refused with \<^verbatim>\<open>-EINVAL\<close> and changes nothing.
\<close>

theorem logic_cq_free_spec:
  assumes "logic_reach (local_holds inst TRS_LOGIC_CQ_ID lim) inst lim ts procs w x" "procs a = Some c"
  shows "if trs_proc_has_res c ts TRS_LOGIC_CQ i = Some True
    then \<exists>st' q. trs_logic_cq_free env active \<lparr>lg_proc = c, lg_ts = ts, lg_w = w, lg_ctx = x\<rparr> i = Some (0, st') \<and>
      cq_at (lg_ctx st') i = Some q \<and> lq_valid q = 0 \<and> lq_addr q = None \<and>
      (\<forall>j. j \<noteq> i \<longrightarrow> cq_at (lg_ctx st') j = cq_at x j \<and> res_entry (lg_ts st') TRS_LOGIC_CQ j = res_entry ts TRS_LOGIC_CQ j) \<and>
      (\<forall>act cqe. ctx_enque act (lg_ctx st') i cqe = Some (- EINVAL, lg_ctx st')) \<and>
      (\<forall>e fuel para. rr_cqId para = i \<longrightarrow>
         trs_logic_cq_recv e fuel (lg_proc st') (lg_ts st') (lg_ctx st') para = Some (Some (- EINVAL), para, lg_ctx st', lq_quiet))
    else trs_logic_cq_free env active \<lparr>lg_proc = c, lg_ts = ts, lg_w = w, lg_ctx = x\<rparr> i =
      Some (- EINVAL, \<lparr>lg_proc = c, lg_ts = ts, lg_w = w, lg_ctx = x\<rparr>)"
proof -
  let ?st = "\<lparr>lg_proc = c, lg_ts = ts, lg_w = w, lg_ctx = x\<rparr>"
  obtain out where inv: "logic_inv (local_holds inst TRS_LOGIC_CQ_ID lim) inst lim ts procs w x out"
    using llog.reach_inv [OF assms(1)] by blast
  note F = llog.free_ok [of inst lim ?st procs out a i env active, simplified, OF inv assms(2)]
  show ?thesis
  proof (cases "trs_proc_has_res c ts TRS_LOGIC_CQ i = Some True")
    case False
    with F show ?thesis by (simp add: trs_logic_cq_free_def)
  next
    case True
    with F obtain st' out' q y where f: "trs_logic_cq_free0 env active ?st i = Some (0, st')"
      "logic_inv (local_holds inst TRS_LOGIC_CQ_ID lim) inst lim (lg_ts st') (procs(a \<mapsto> lg_proc st')) (lg_w st') (lg_ctx st') out'"
      "pc_pid (lg_proc st') = pc_pid c" "cq_at (lg_ctx st') i = Some q" "lq_valid q = 0" "lq_addr q = None"
      "res_entry (lg_ts st') TRS_LOGIC_CQ i = Some y" "\<not> res_owned y"
      "\<forall>j. j \<noteq> i \<longrightarrow> cq_at (lg_ctx st') j = cq_at x j \<and> res_entry (lg_ts st') TRS_LOGIC_CQ j = res_entry ts TRS_LOGIC_CQ j"
      by (auto simp del: fun_upd_apply)
    have "pc_pid c \<noteq> 0" using logic_invD(1) [OF inv] assms(2) by (auto simp: res_inv_def procs_ok_def)
    then have no: "trs_proc_has_res (lg_proc st') (lg_ts st') TRS_LOGIC_CQ i = Some False"
      using unowned_no_match [OF logic_invD(1) [OF f(2)] f(7,8)] f(3) by simp
    have "ctx_enque act (lg_ctx st') i cqe = Some (- EINVAL, lg_ctx st')" for act cqe
      using f(4,5) by (simp add: ctx_enque_def trs_logic_cq_enque_def cq_set_same)
    moreover have "trs_logic_cq_recv e fuel (lg_proc st') (lg_ts st') (lg_ctx st') para = Some (Some (- EINVAL), para, lg_ctx st', lq_quiet)"
      if "rr_cqId para = i" for e fuel para
      using no that by (simp add: trs_logic_cq_recv_def trs_logic_cq_recv_para_check_def)
    ultimately show ?thesis using True f by (intro if_P [THEN iffD2]) (auto simp: trs_logic_cq_free_def)
  qed
qed

theorem logic_cq_free_spec_witness:
  "\<exists>st' q. trs_logic_cq_free demo_lg_env True demo_lg_st1 3 = Some (0, st') \<and> cq_at (lg_ctx st') 3 = Some q \<and> lq_valid q = 0 \<and>
     ctx_enque True (lg_ctx st') 3 (demo_cqe 1 7 1) = Some (- EINVAL, lg_ctx st')"
proof -
  have "\<lparr>lg_proc = lg_proc demo_lg_st1, lg_ts = lg_ts demo_lg_st1, lg_w = lg_w demo_lg_st1, lg_ctx = lg_ctx demo_lg_st1\<rparr> = demo_lg_st1"
    by simp
  with logic_cq_free_spec [OF demo_lg_reach1, of 0 "lg_proc demo_lg_st1" 3 demo_lg_env True] demo_lg_owned show ?thesis by auto
qed

text \<open>
  C26. The interrupts for single queues are not given back: each is requested with its own context as the identity of the
  handler, but all of them are freed with the first context. For every interrupt but the first the call of
  \<^verbatim>\<open>free_irq\<close> names a handler that was never installed for it, and the installed one stays.
\<close>

theorem thread_bind_irq_free_mismatch:
  assumes "unat num \<le> length irq" "num \<noteq> 0"
  shows "\<exists>x' calls. trs_thread_bind_irq_init (Some (0, irq, num)) True (\<lambda>_. 0) x [] = Some (0, x', calls) \<and>
    calls = map (\<lambda>i. RequestIrq (irq ! i) i) [0 ..< unat num] \<and>
    trs_thread_bind_irq_hw_res_uninit x' num calls = Some (calls @ map (\<lambda>i. FreeIrq (irq ! i) 0) [0 ..< unat num])"
proof -
  let ?x = "x\<lparr>cx_intr_mng := (cx_intr_mng x)\<lparr>im_irq_num := num, im_irq_ctx := Some (irq_ctxs irq (unat num))\<rparr>\<rparr>"
  let ?calls = "map (\<lambda>j. RequestIrq (irq ! j) j) [0 ..< unat num]"
  have "irq_free_loop (cx_intr_mng ?x) 0 (unat num) ?calls =
      Some (?calls @ map (\<lambda>j. FreeIrq (ic_irq (irq_ctxs irq (unat num) ! j)) 0) [0 ..< 0 + unat num])"
    by (rule irq_free_loop_all) (simp_all add: irq_ctxs_def)
  moreover have "map (\<lambda>j. FreeIrq (ic_irq (irq_ctxs irq (unat num) ! j)) 0) [0 ..< unat num] = map (\<lambda>i. FreeIrq (irq ! i) 0) [0 ..< unat num]"
    by (simp add: irq_ctxs_def)
  ultimately have "trs_thread_bind_irq_hw_res_uninit ?x num ?calls = Some (?calls @ map (\<lambda>i. FreeIrq (irq ! i) 0) [0 ..< unat num])"
    using assms(2) by (simp add: trs_thread_bind_irq_hw_res_uninit_def)
  then show ?thesis using irq_init_all [OF assms, of x "[]"] by (intro exI [of _ ?x] exI [of _ ?calls]) simp
qed

theorem thread_bind_irq_free_mismatch_witness:
  "\<exists>x'. trs_thread_bind_irq_init (Some (0, demo_lg_irqs, 2)) True (\<lambda>_. 0) demo_lg_zero [] =
       Some (0, x', [RequestIrq 100 0, RequestIrq 101 1]) \<and>
     trs_thread_bind_irq_hw_res_uninit x' 2 [RequestIrq 100 0, RequestIrq 101 1] =
       Some [RequestIrq 100 0, RequestIrq 101 1, FreeIrq 100 0, FreeIrq 101 0]"
proof -
  have "unat (2 :: u32) \<le> length demo_lg_irqs" "(2 :: u32) \<noteq> 0" by (simp_all add: demo_lg_irqs_def)
  moreover have "unat (2 :: u32) = 2" "[0 ..< 2] = [0, 1 :: nat]" by (simp_all add: upt_rec)
  ultimately show ?thesis
    using thread_bind_irq_free_mismatch [of 2 demo_lg_irqs demo_lg_zero] by (simp add: demo_lg_irqs_def)
qed

end
