(* ===== verification/Vma_Algo.thy ===== *)
theory Vma_Algo
  imports Prelude
begin

text \<open>
  The first-fit range allocator of the shared memory pools, \<^verbatim>\<open>xsmem/dc/xsmem_algo_vma.c\<close>: free blocks
  in a red-black tree ordered by start, augmented with the largest block size of every subtree.

  The tree is a \<open>vma_block tree\<close>; a block pointer is represented by the start of the block, which is
  unique in the tree. The driver's own code is the descent, \<^verbatim>\<open>rb_link_node\<close>, the callback
  \<^verbatim>\<open>update_subtree_max_size\<close> and the propagation that \<^verbatim>\<open>RB_DECLARE_CALLBACKS\<close> builds from it (from a
  node towards the root, stopping at the first node whose value does not change). The kernel's
  \<^verbatim>\<open>rb_insert_augmented\<close> and \<^verbatim>\<open>rb_erase_augmented\<close> are parameters: the first rebalances by rotations,
  each with the rotate callback; it does not update the path above a new node, which its documentation
  leaves to the caller. The outcome of \<^verbatim>\<open>kmalloc\<close> is a boolean argument. \<^verbatim>\<open>PAGE_SIZE\<close> is 4096, as on most
  configurations of the kernel; the unit of the rounding is the only thing that depends on it.
\<close>

unbundle bit_operations_syntax

section \<open>Data\<close>

abbreviation (input) XSMEM_VMA_ALIGN :: u64 where "XSMEM_VMA_ALIGN \<equiv> 4096"

record vma_block =
  vb_start :: u64
  vb_size :: u64
  vb_max :: u64

record vma_ctrl =
  vc_total_size :: u64
  vc_free_size :: u64
  vc_alloc_block_cnt :: u64
  vc_root :: "vma_block tree"

definition IS_ALIGNED :: "u64 \<Rightarrow> u64 \<Rightarrow> bool" where
  "IS_ALIGNED x a \<longleftrightarrow> x AND (a - 1) = 0"

definition ALIGN :: "u64 \<Rightarrow> u64 \<Rightarrow> u64" where
  "ALIGN x a = (x + (a - 1)) AND NOT (a - 1)"

section \<open>The augmented value\<close>

definition subtree_max_size :: "vma_block tree \<Rightarrow> u64" where
  "subtree_max_size t = (case t of Leaf \<Rightarrow> 0 | Node _ b _ \<Rightarrow> vb_max b)"

definition compute_subtree_max_size :: "vma_block tree \<Rightarrow> vma_block \<Rightarrow> vma_block tree \<Rightarrow> u64" where
  "compute_subtree_max_size l b r = max (vb_size b) (max (subtree_max_size l) (subtree_max_size r))"

text \<open>\<^verbatim>\<open>update_subtree_max_size(block, true)\<close>: the block and whether the propagation goes on.\<close>

definition update_subtree_max_size :: "vma_block tree \<Rightarrow> vma_block \<Rightarrow> vma_block tree \<Rightarrow> vma_block \<times> bool" where
  "update_subtree_max_size l b r =
     (let m = compute_subtree_max_size l b r in
      if vb_max b = m then (b, False) else (b\<lparr>vb_max := m\<rparr>, True))"

text \<open>
  Writing the block that starts at \<open>k\<close> through \<open>f\<close>, then \<^verbatim>\<open>block_update_subtree_max_size\<close> of it.
\<close>

fun vma_update_block :: "(vma_block \<Rightarrow> vma_block) \<Rightarrow> u64 \<Rightarrow> vma_block tree \<Rightarrow> vma_block tree \<times> bool" where
  "vma_update_block f k Leaf = (Leaf, False)"
| "vma_update_block f k (Node l b r) =
     (if k < vb_start b
      then (case vma_update_block f k l of
              (l', go) \<Rightarrow>
                if go then (case update_subtree_max_size l' b r of (b', go') \<Rightarrow> (Node l' b' r, go'))
                else (Node l' b r, False))
      else if vb_start b < k
      then (case vma_update_block f k r of
              (r', go) \<Rightarrow>
                if go then (case update_subtree_max_size l b r' of (b', go') \<Rightarrow> (Node l b' r', go'))
                else (Node l b r', False))
      else (case update_subtree_max_size l (f b) r of (b', go') \<Rightarrow> (Node l b' r, go')))"

text \<open>The rotate callback: \<open>new\<close> takes the value of \<open>old\<close>, whose value is computed again.\<close>

inductive vma_rot :: "vma_block tree \<Rightarrow> vma_block tree \<Rightarrow> bool" where
  rot_right: "vma_rot (Node (Node a new b) old c)
      (Node a (new\<lparr>vb_max := vb_max old\<rparr>) (Node b (old\<lparr>vb_max := compute_subtree_max_size b old c\<rparr>) c))"
| rot_left: "vma_rot (Node a old (Node b new c))
      (Node (Node a (old\<lparr>vb_max := compute_subtree_max_size a old b\<rparr>) b) (new\<lparr>vb_max := vb_max old\<rparr>) c)"
| rot_in_left: "vma_rot l l' \<Longrightarrow> vma_rot (Node l b r) (Node l' b r)"
| rot_in_right: "vma_rot r r' \<Longrightarrow> vma_rot (Node l b r) (Node l b r')"

record vma_rb =
  rb_insert_augmented :: "vma_block tree \<Rightarrow> vma_block tree"
  rb_erase_augmented :: "u64 \<Rightarrow> vma_block tree \<Rightarrow> vma_block tree"

section \<open>Pools\<close>

definition vma_inst_create :: "bool \<Rightarrow> bool \<Rightarrow> u64 \<Rightarrow> vma_ctrl option" where
  "vma_inst_create ctrl_mem block_mem pool_size =
     (if \<not> IS_ALIGNED pool_size XSMEM_VMA_ALIGN \<or> pool_size = 0 then None
      else if \<not> ctrl_mem then None
      else if \<not> block_mem then None
      else Some \<lparr>vc_total_size = pool_size, vc_free_size = pool_size, vc_alloc_block_cnt = 0,
                 vc_root = Node Leaf \<lparr>vb_start = 0, vb_size = pool_size, vb_max = pool_size\<rparr> Leaf\<rparr>)"

text \<open>
  \<^verbatim>\<open>vma_inst_destroy\<close>: the three warnings (true when the condition warned about holds); \<open>None\<close> when the
  tree is empty and the root block is dereferenced. Only the root block is freed: \<open>snd\<close> are the blocks
  that are not.
\<close>

definition vma_inst_destroy :: "vma_ctrl \<Rightarrow> ((bool \<times> bool \<times> bool) \<times> vma_block list) option" where
  "vma_inst_destroy c =
     (case vc_root c of
        Leaf \<Rightarrow> None
      | Node l b r \<Rightarrow>
          Some ((vc_total_size c \<noteq> vc_free_size c, vc_total_size c \<noteq> vb_size b, vc_total_size c \<noteq> vb_max b),
                inorder l @ inorder r))"

section \<open>Allocation\<close>

fun find_first_proper_block :: "vma_block tree \<Rightarrow> u64 \<Rightarrow> vma_block option" where
  "find_first_proper_block Leaf sz = None"
| "find_first_proper_block (Node l b r) sz =
     (if subtree_max_size l \<ge> sz then find_first_proper_block l sz
      else if vb_size b \<ge> sz then Some b
      else if subtree_max_size r \<ge> sz then find_first_proper_block r sz
      else None)"

definition vma_alloc_block :: "vma_rb \<Rightarrow> vma_block tree \<Rightarrow> u64 \<Rightarrow> int \<times> u64 option \<times> vma_block tree" where
  "vma_alloc_block rb t sz =
     (case find_first_proper_block t sz of
        None \<Rightarrow> (- ENOSPC, None, t)
      | Some b \<Rightarrow>
          (0, Some (vb_start b),
           if vb_size b = sz then rb_erase_augmented rb (vb_start b) t
           else fst (vma_update_block (\<lambda>b. b\<lparr>vb_start := vb_start b + sz, vb_size := vb_size b - sz\<rparr>) (vb_start b) t)))"

definition vma_algo_alloc :: "vma_rb \<Rightarrow> vma_ctrl \<Rightarrow> u64 \<Rightarrow> int \<times> (u64 \<times> u64) option \<times> vma_ctrl" where
  "vma_algo_alloc rb c alloc_size =
     (if alloc_size = 0 then (- EINVAL, None, c)
      else let real_size = ALIGN alloc_size XSMEM_VMA_ALIGN in
      if real_size < alloc_size then (- EOVERFLOW, None, c)
      else if real_size > vc_free_size c then (- ENOSPC, None, c)
      else case vma_alloc_block rb (vc_root c) real_size of
        (ret, offset, t) \<Rightarrow>
          if ret = 0
          then (0, Some (the offset, real_size),
                c\<lparr>vc_root := t, vc_free_size := vc_free_size c - real_size,
                  vc_alloc_block_cnt := vc_alloc_block_cnt c + 1\<rparr>)
          else (ret, None, c\<lparr>vc_root := t\<rparr>))"

section \<open>Release\<close>

text \<open>
  The descent of \<^verbatim>\<open>vma_free_block\<close>: the last parent with the side of the link, \<open>None\<close> when a block with
  the same start is met.
\<close>

fun vma_locate :: "u64 \<Rightarrow> vma_block tree \<Rightarrow> (u64 \<times> bool) option \<Rightarrow> (u64 \<times> bool) option option" where
  "vma_locate s Leaf link = Some link"
| "vma_locate s (Node l b r) link =
     (if s < vb_start b then vma_locate s l (Some (vb_start b, False))
      else if s > vb_start b then vma_locate s r (Some (vb_start b, True))
      else None)"

text \<open>\<^verbatim>\<open>rb_prev\<close> and \<^verbatim>\<open>rb_next\<close> of the node that starts at \<open>k\<close>, in the in-order list of the tree.\<close>

fun rb_prev :: "u64 \<Rightarrow> vma_block list \<Rightarrow> vma_block option" where
  "rb_prev k (a # b # bs) = (if vb_start b = k then Some a else rb_prev k (b # bs))"
| "rb_prev k _ = None"

fun rb_next :: "u64 \<Rightarrow> vma_block list \<Rightarrow> vma_block option" where
  "rb_next k (a # b # bs) = (if vb_start a = k then Some b else rb_next k (b # bs))"
| "rb_next k _ = None"

definition to_vma_block :: "u64 \<Rightarrow> vma_block list \<Rightarrow> vma_block option" where
  "to_vma_block k bs = List.find (\<lambda>b. vb_start b = k) bs"

definition prev_block :: "vma_block tree \<Rightarrow> (u64 \<times> bool) option \<Rightarrow> vma_block option" where
  "prev_block t link =
     (case link of
        None \<Rightarrow> None
      | Some (k, rgt) \<Rightarrow> if rgt then to_vma_block k (inorder t) else rb_prev k (inorder t))"

definition next_block :: "vma_block tree \<Rightarrow> (u64 \<times> bool) option \<Rightarrow> vma_block option" where
  "next_block t link =
     (case link of
        None \<Rightarrow> None
      | Some (k, rgt) \<Rightarrow> if \<not> rgt then to_vma_block k (inorder t) else rb_next k (inorder t))"

definition is_overlap :: "u64 \<Rightarrow> u64 \<Rightarrow> u64 \<Rightarrow> u64 \<Rightarrow> bool" where
  "is_overlap l1 h1 l2 h2 \<longleftrightarrow> l1 < h2 \<and> l2 < h1"

text \<open>\<^verbatim>\<open>rb_link_node\<close> at the place the descent ended.\<close>

fun vma_link :: "vma_block \<Rightarrow> vma_block tree \<Rightarrow> vma_block tree" where
  "vma_link n Leaf = Node Leaf n Leaf"
| "vma_link n (Node l b r) =
     (if vb_start n < vb_start b then Node (vma_link n l) b r
      else if vb_start n > vb_start b then Node l b (vma_link n r)
      else Node l b r)"

text \<open>The part of \<^verbatim>\<open>vma_free_block\<close> after the previous block has been looked at.\<close>

definition vma_free_next ::
    "vma_rb \<Rightarrow> bool \<Rightarrow> vma_block tree \<Rightarrow> (u64 \<times> bool) option \<Rightarrow> u64 option \<Rightarrow> u64 \<Rightarrow> u64 \<Rightarrow> int \<times> vma_block tree" where
  "vma_free_next rb mem t link merged start sz =
     (case next_block t link of
        Some b \<Rightarrow>
          if start + sz = vb_start b
          then (case merged of
                  Some p \<Rightarrow>
                    (0, fst (vma_update_block (\<lambda>q. q\<lparr>vb_size := vb_size q + vb_size b\<rparr>) p
                               (rb_erase_augmented rb (vb_start b) t)))
                | None \<Rightarrow>
                    (0, fst (vma_update_block (\<lambda>q. q\<lparr>vb_start := vb_start q - sz, vb_size := vb_size q + sz\<rparr>)
                               (vb_start b) t)))
          else if is_overlap start (start + sz) (vb_start b) (vb_start b + vb_size b) then (- EINVAL, t)
          else if merged \<noteq> None then (0, t)
          else if \<not> mem then (- ENOMEM, t)
          else (0, rb_insert_augmented rb (vma_link \<lparr>vb_start = start, vb_size = sz, vb_max = sz\<rparr> t))
      | None \<Rightarrow>
          if merged \<noteq> None then (0, t)
          else if \<not> mem then (- ENOMEM, t)
          else (0, rb_insert_augmented rb (vma_link \<lparr>vb_start = start, vb_size = sz, vb_max = sz\<rparr> t)))"

definition vma_free_block :: "vma_rb \<Rightarrow> bool \<Rightarrow> vma_block tree \<Rightarrow> u64 \<Rightarrow> u64 \<Rightarrow> int \<times> vma_block tree" where
  "vma_free_block rb mem t start sz =
     (case vma_locate start t None of
        None \<Rightarrow> (- EFAULT, t)
      | Some link \<Rightarrow>
          (case prev_block t link of
             Some p \<Rightarrow>
               if vb_start p + vb_size p = start
               then vma_free_next rb mem (fst (vma_update_block (\<lambda>q. q\<lparr>vb_size := vb_size q + sz\<rparr>) (vb_start p) t))
                      link (Some (vb_start p)) start sz
               else if is_overlap start (start + sz) (vb_start p) (vb_start p + vb_size p) then (- EINVAL, t)
               else vma_free_next rb mem t link None start sz
           | None \<Rightarrow> vma_free_next rb mem t link None start sz))"

definition vma_algo_free :: "vma_rb \<Rightarrow> bool \<Rightarrow> vma_ctrl \<Rightarrow> u64 \<Rightarrow> u64 \<Rightarrow> int \<times> vma_ctrl" where
  "vma_algo_free rb mem c addr real_size =
     (case vma_free_block rb mem (vc_root c) addr real_size of
        (ret, t) \<Rightarrow>
          (ret, c\<lparr>vc_root := t, vc_alloc_block_cnt := vc_alloc_block_cnt c - 1,
                  vc_free_size := vc_free_size c + real_size\<rparr>))"

text \<open>\<^verbatim>\<open>vma_algo_show\<close>: the numbers of the first line, then the number and the size of every free block.\<close>

definition vma_algo_show :: "vma_ctrl \<Rightarrow> (u64 \<times> u64 \<times> u64) \<times> (nat \<times> u64) list" where
  "vma_algo_show c =
     ((vc_total_size c, vc_free_size c, vc_alloc_block_cnt c),
      enumerate 1 (map vb_size (inorder (vc_root c))))"

section \<open>The invariant of the augmented value\<close>

text \<open>
  The driver does not keep the values exact: linking a new block leaves the path above it as it was.
  What all operations keep is that no value is too large, seen locally: a node's value is at most the
  value computed from its block and its children.
\<close>

fun max_sound :: "vma_block tree \<Rightarrow> bool" where
  "max_sound Leaf = True"
| "max_sound (Node l b r) \<longleftrightarrow> vb_max b \<le> compute_subtree_max_size l b r \<and> max_sound l \<and> max_sound r"

text \<open>The exact values, which a search that finds every block needs.\<close>

fun max_exact :: "vma_block tree \<Rightarrow> bool" where
  "max_exact Leaf = True"
| "max_exact (Node l b r) \<longleftrightarrow> vb_max b = compute_subtree_max_size l b r \<and> max_exact l \<and> max_exact r"

lemma subtree_max_size_simps [simp]:
  "subtree_max_size Leaf = 0" "subtree_max_size (Node l b r) = vb_max b"
  by (simp_all add: subtree_max_size_def)

lemma max_exact_sound: "max_exact t \<Longrightarrow> max_sound t"
  by (induction t) auto

lemma compute_mono:
  "vb_size b \<le> vb_size b' \<Longrightarrow> subtree_max_size l \<le> subtree_max_size l' \<Longrightarrow> subtree_max_size r \<le> subtree_max_size r' \<Longrightarrow>
   compute_subtree_max_size l b r \<le> compute_subtree_max_size l' b' r'"
  by (auto simp: compute_subtree_max_size_def le_max_iff_disj)

lemma update_sound:
  assumes "update_subtree_max_size l b r = (b', go)" "max_sound l" "max_sound r"
  shows "max_sound (Node l b' r)" "\<not> go \<Longrightarrow> vb_max b' = vb_max b" "vb_start b' = vb_start b" "vb_size b' = vb_size b"
  using assms by (auto simp: update_subtree_max_size_def compute_subtree_max_size_def Let_def split: if_splits)

lemma update_block_sound:
  assumes "\<And>b. vb_max (f b) = vb_max b" "max_sound t" "vma_update_block f k t = (t', go)"
  shows "max_sound t' \<and> (\<not> go \<longrightarrow> subtree_max_size t' = subtree_max_size t)"
  using assms(2,3)
proof (induction t arbitrary: t' go)
  case (Node l b r)
  obtain l' gl where l: "vma_update_block f k l = (l', gl)" by (cases "vma_update_block f k l")
  obtain r' gr where r: "vma_update_block f k r = (r', gr)" by (cases "vma_update_block f k r")
  have L: "max_sound l'" "\<not> gl \<longrightarrow> subtree_max_size l' = subtree_max_size l" using Node.IH(1) [OF _ l] Node.prems by auto
  have R: "max_sound r'" "\<not> gr \<longrightarrow> subtree_max_size r' = subtree_max_size r" using Node.IH(2) [OF _ r] Node.prems by auto
  show ?case
  proof (cases "k < vb_start b")
    case True
    then show ?thesis using Node.prems l L update_sound(1,2) [of l' b r]
      by (cases gl) (auto simp: compute_subtree_max_size_def split: prod.splits)
  next
    case False
    show ?thesis
    proof (cases "vb_start b < k")
      case True
      then show ?thesis using False Node.prems r R update_sound(1,2) [of l b r']
        by (cases gr) (auto simp: compute_subtree_max_size_def split: prod.splits)
    next
      case eq: False
      then show ?thesis using False Node.prems update_sound(1,2) [of l "f b" r] assms(1)
        by (auto split: prod.splits)
    qed
  qed
qed simp

lemma rot_sound: "vma_rot t t' \<Longrightarrow> max_sound t \<Longrightarrow> max_sound t' \<and> subtree_max_size t' = subtree_max_size t"
proof (induction rule: vma_rot.induct)
  case (rot_right a new b old c)
  then show ?case by (auto simp: compute_subtree_max_size_def le_max_iff_disj)
next
  case (rot_left a old b new c)
  then show ?case by (auto simp: compute_subtree_max_size_def le_max_iff_disj)
qed (auto simp: compute_subtree_max_size_def)

lemma link_sound:
  assumes "max_sound t" "vb_max n = vb_size n"
  shows "max_sound (vma_link n t) \<and> (t \<noteq> Leaf \<longrightarrow> subtree_max_size (vma_link n t) = subtree_max_size t)"
  using assms(1)
proof (induction t)
  case Leaf
  then show ?case using assms(2) by (simp add: compute_subtree_max_size_def)
next
  case (Node l b r)
  have l: "subtree_max_size l \<le> subtree_max_size (vma_link n l)" using Node.IH(1) Node.prems by (cases l) simp_all
  have r: "subtree_max_size r \<le> subtree_max_size (vma_link n r)" using Node.IH(2) Node.prems by (cases r) simp_all
  have "vb_max b \<le> compute_subtree_max_size l b r" using Node.prems by simp
  then have m: "vb_max b \<le> compute_subtree_max_size (vma_link n l) b r" "vb_max b \<le> compute_subtree_max_size l b (vma_link n r)"
    by (rule order_trans [OF _ compute_mono [OF order_refl l order_refl]],
        rule order_trans [OF _ compute_mono [OF order_refl order_refl r]])
  show ?case using Node m by auto
qed

lemma find_sound:
  assumes "find_first_proper_block t sz = Some b"
  shows "b \<in> set (inorder t) \<and> sz \<le> vb_size b"
  using assms by (induction t) (auto split: if_splits)

text \<open>With sound values the search never runs into a subtree that has no proper block.\<close>

lemma find_no_dead_end: "max_sound t \<Longrightarrow> 0 < sz \<Longrightarrow> sz \<le> subtree_max_size t \<Longrightarrow> find_first_proper_block t sz \<noteq> None"
proof (induction t)
  case (Node l b r)
  then have "sz \<le> compute_subtree_max_size l b r" by auto
  with Node show ?case by (auto simp: compute_subtree_max_size_def le_max_iff_disj)
qed simp

lemma exact_max: "max_exact t \<Longrightarrow> b \<in> set (inorder t) \<Longrightarrow> vb_size b \<le> subtree_max_size t"
  by (induction t) (auto simp: compute_subtree_max_size_def le_max_iff_disj)

lemma exact_max_less: "max_exact t \<Longrightarrow> \<not> sz \<le> subtree_max_size t \<Longrightarrow> \<forall>b \<in> set (inorder t). \<not> sz \<le> vb_size b"
  using exact_max order_trans by blast

section \<open>Block lists\<close>

datatype vrange = VR (vr_start: u64) (vr_size: u64)

definition vb_range :: "vma_block \<Rightarrow> vrange" where
  "vb_range b = VR (vb_start b) (vb_size b)"

abbreviation (input) vma_ranges :: "vma_block tree \<Rightarrow> vrange list" where
  "vma_ranges t \<equiv> map vb_range (inorder t)"

definition vr_end :: "vrange \<Rightarrow> nat" where
  "vr_end v = unat (vr_start v) + unat (vr_size v)"

definition vr_set :: "vrange \<Rightarrow> nat set" where
  "vr_set v = {unat (vr_start v) ..< vr_end v}"

text \<open>Free blocks are not empty, lie in the pool, and are ordered with a gap between neighbours.\<close>

definition ranges_ok :: "nat \<Rightarrow> vrange list \<Rightarrow> bool" where
  "ranges_ok lim vs \<longleftrightarrow>
     sorted_wrt (\<lambda>a b. vr_end a < unat (vr_start b)) vs \<and> (\<forall>v \<in> set vs. 0 < vr_size v \<and> vr_end v \<le> lim)"

definition vr_union :: "vrange list \<Rightarrow> nat set" where
  "vr_union vs = (\<Union>v \<in> set vs. vr_set v)"

lemma vb_range_sel [simp]: "vr_start (vb_range b) = vb_start b" "vr_size (vb_range b) = vb_size b"
  by (simp_all add: vb_range_def)

lemma vr_union_simps [simp]:
  "vr_union [] = {}" "vr_union (v # vs) = vr_set v \<union> vr_union vs" "vr_union (us @ vs) = vr_union us \<union> vr_union vs"
  by (simp_all add: vr_union_def)

lemma ranges_ok_Cons:
  "ranges_ok lim (v # vs) \<longleftrightarrow>
   0 < vr_size v \<and> vr_end v \<le> lim \<and> (\<forall>w \<in> set vs. vr_end v < unat (vr_start w)) \<and> ranges_ok lim vs"
  by (auto simp: ranges_ok_def)

lemma ranges_ok_append:
  "ranges_ok lim (us @ vs) \<longleftrightarrow>
   ranges_ok lim us \<and> ranges_ok lim vs \<and> (\<forall>u \<in> set us. \<forall>v \<in> set vs. vr_end u < unat (vr_start v))"
  by (auto simp: ranges_ok_def sorted_wrt_append)

lemma ranges_ok_Nil [simp]: "ranges_ok lim []"
  by (simp add: ranges_ok_def)

lemmas ranges_simps = ranges_ok_Cons ranges_ok_append

lemma vr_size_pos: "0 < vr_size v \<Longrightarrow> unat (vr_start v) < vr_end v"
  by (simp add: vr_end_def word_less_nat_alt)

lemma start_less_end: "unat (vr_start v) \<le> vr_end v"
  by (simp add: vr_end_def)

lemma ranges_start_less:
  assumes "ranges_ok lim (us @ v # vs)"
  shows "\<forall>u \<in> set us. vr_start u < vr_start v" "\<forall>w \<in> set vs. vr_start v < vr_start w"
  using assms start_less_end order.strict_trans1
  by (fastforce simp: ranges_simps word_less_nat_alt)+

section \<open>Trees and block lists\<close>

abbreviation (input) vma_starts :: "vma_block tree \<Rightarrow> u64 list" where
  "vma_starts t \<equiv> map vb_start (inorder t)"

lemma ranges_ok_starts:
  assumes "ranges_ok lim (map vb_range bs)"
  shows "sorted_wrt (<) (map vb_start bs)"
  using assms
proof (induction bs)
  case (Cons b bs)
  then show ?case using ranges_start_less(2) [of lim "[]" "vb_range b" "map vb_range bs"]
    by (auto simp: ranges_ok_Cons)
qed simp

lemma starts_of_ranges: "map vr_start (map vb_range bs) = map vb_start bs"
  by simp

lemma update_range: "vb_range (fst (update_subtree_max_size l b r)) = vb_range b"
  by (simp add: update_subtree_max_size_def Let_def vb_range_def)

lemma update_block_ranges:
  assumes "sorted_wrt (<) (vma_starts t)"
  shows "vma_ranges (fst (vma_update_block f k t)) = map (\<lambda>b. if vb_start b = k then vb_range (f b) else vb_range b) (inorder t)"
  using assms
proof (induction t)
  case (Node l b r)
  let ?g = "\<lambda>b. if vb_start b = k then vb_range (f b) else vb_range b"
  have s: "sorted_wrt (<) (vma_starts l)" "sorted_wrt (<) (vma_starts r)"
    "\<forall>c \<in> set (inorder l). vb_start c < vb_start b" "\<forall>c \<in> set (inorder r). vb_start b < vb_start c"
    using Node.prems by (auto simp: sorted_wrt_append)
  have same: "map ?g bs = map vb_range bs" if "\<forall>c \<in> set bs. vb_start c \<noteq> k" for bs using that by auto
  have L: "map ?g (inorder l) = vma_ranges l" if "\<not> k < vb_start b" using s(3) that by (intro same) auto
  have R: "map ?g (inorder r) = vma_ranges r" if "\<not> vb_start b < k" using s(4) that by (intro same) auto
  have U: "vb_range b' = vb_range c" if "update_subtree_max_size l' c r' = (b', go)" for l' c r' b' go
    using update_range [of l' c r'] that by simp
  consider (left) "k < vb_start b" | (right) "vb_start b < k" | (here) "vb_start b = k" by force
  then show ?case
  proof cases
    case left
    obtain l' gl where l: "vma_update_block f k l = (l', gl)" by (cases "vma_update_block f k l")
    have "vma_ranges l' = map ?g (inorder l)" using Node.IH(1) [OF s(1)] l by simp
    moreover have "?g b = vb_range b" using left by auto
    moreover obtain b' go' where b': "update_subtree_max_size l' b r = (b', go')" by (cases "update_subtree_max_size l' b r")
    moreover have "vb_range b' = vb_range b" by (rule U [OF b'])
    moreover have "map ?g (inorder r) = vma_ranges r" using left by (intro R) simp
    ultimately show ?thesis using left l by (cases gl) simp_all
  next
    case right
    obtain r' gr where r: "vma_update_block f k r = (r', gr)" by (cases "vma_update_block f k r")
    have "vma_ranges r' = map ?g (inorder r)" using Node.IH(2) [OF s(2)] r by simp
    moreover have "?g b = vb_range b" using right by auto
    moreover obtain b' go' where b': "update_subtree_max_size l b r' = (b', go')" by (cases "update_subtree_max_size l b r'")
    moreover have "vb_range b' = vb_range b" by (rule U [OF b'])
    moreover have "map ?g (inorder l) = vma_ranges l" using right by (intro L) simp
    moreover have "\<not> k < vb_start b" using right by simp
    ultimately show ?thesis using right r by (cases gr) simp_all
  next
    case here
    obtain b' go' where b': "update_subtree_max_size l (f b) r = (b', go')" by (cases "update_subtree_max_size l (f b) r")
    have "vb_range b' = vb_range (f b)" by (rule U [OF b'])
    moreover have "map ?g (inorder l) = vma_ranges l" "map ?g (inorder r) = vma_ranges r" using here L R by simp_all
    ultimately show ?thesis using here b' by simp
  qed
qed simp

lemma rot_ranges: "vma_rot t t' \<Longrightarrow> vma_ranges t' = vma_ranges t"
  by (induction rule: vma_rot.induct) (simp_all add: vb_range_def)

text \<open>
  What the allocator relies on: \<^verbatim>\<open>rb_insert_augmented\<close> is a sequence of rotations with the callback, and
  \<^verbatim>\<open>rb_erase_augmented\<close> removes the node and does not make a value too large.
\<close>

definition vma_rb_ok :: "vma_rb \<Rightarrow> bool" where
  "vma_rb_ok rb \<longleftrightarrow>
     (\<forall>t. vma_rot\<^sup>*\<^sup>* t (rb_insert_augmented rb t)) \<and>
     (\<forall>k t. sorted_wrt (<) (vma_starts t) \<longrightarrow> k \<in> set (vma_starts t) \<longrightarrow> max_sound t \<longrightarrow>
        vma_ranges (rb_erase_augmented rb k t) = filter (\<lambda>v. vr_start v \<noteq> k) (vma_ranges t) \<and>
        max_sound (rb_erase_augmented rb k t))"

lemma insert_aug_ok:
  assumes "vma_rb_ok rb" "max_sound t"
  shows "vma_ranges (rb_insert_augmented rb t) = vma_ranges t \<and> max_sound (rb_insert_augmented rb t)"
proof -
  have "vma_rot\<^sup>*\<^sup>* t (rb_insert_augmented rb t)" using assms(1) by (simp add: vma_rb_ok_def)
  then show ?thesis using assms(2)
    by (induction rule: rtranclp_induct) (auto dest: rot_ranges rot_sound)
qed

lemma erase_aug_ok:
  assumes "vma_rb_ok rb" "max_sound t" "sorted_wrt (<) (vma_starts t)" "k \<in> set (vma_starts t)"
  shows "vma_ranges (rb_erase_augmented rb k t) = filter (\<lambda>v. vr_start v \<noteq> k) (vma_ranges t) \<and>
         max_sound (rb_erase_augmented rb k t)"
  using assms unfolding vma_rb_ok_def by blast

lemma distinct_key:
  assumes "distinct (map key (us @ v # vs))"
  shows "\<forall>w \<in> set us. key w \<noteq> key v" "\<forall>w \<in> set vs. key w \<noteq> key v"
  using assms by (simp_all, metis imageI, metis imageI)

lemma filter_one:
  assumes "distinct (map vr_start (us @ v # vs))"
  shows "filter (\<lambda>w. vr_start w \<noteq> vr_start v) (us @ v # vs) = us @ vs"
  using distinct_key [OF assms] by (simp add: filter_id_conv)

lemma map_key_one:
  assumes "distinct (map key (us @ v # vs))"
  shows "map (\<lambda>w. if key w = key v then f w else g w) (us @ v # vs) = map g us @ f v # map g vs"
  using distinct_key [OF assms] by simp

lemmas map_one = map_key_one [of vb_start, where g = vb_range]

lemma starts_distinct: "sorted_wrt (<) (map vb_start bs) \<Longrightarrow> distinct (map vb_start bs)"
  by (simp add: strict_sorted_iff)

text \<open>The place where a descent ends: the blocks below \<open>us\<close> and above \<open>ws\<close>, and the last link followed.\<close>

definition link_at :: "(u64 \<times> bool) option \<Rightarrow> vma_block list \<Rightarrow> vma_block list \<Rightarrow> bool" where
  "link_at link us ws \<longleftrightarrow>
     (case link of
        None \<Rightarrow> us = [] \<and> ws = []
      | Some (k, rgt) \<Rightarrow> if rgt then us \<noteq> [] \<and> vb_start (last us) = k else ws \<noteq> [] \<and> vb_start (hd ws) = k)"

lemma locate_link:
  assumes "vma_locate s t acc = Some link" "sorted_wrt (<) (map vb_start (us @ inorder t @ ws))"
    "\<forall>b \<in> set us. vb_start b < s" "\<forall>b \<in> set ws. s < vb_start b" "link_at acc us ws"
  shows "\<exists>us' ws'. us @ inorder t @ ws = us' @ ws' \<and> (\<forall>b \<in> set us'. vb_start b < s) \<and> (\<forall>b \<in> set ws'. s < vb_start b) \<and>
           link_at link us' ws'"
  using assms
proof (induction t arbitrary: acc us ws)
  case Leaf
  then show ?case by (intro exI [of _ us] exI [of _ ws]) auto
next
  case (Node l b r)
  show ?case
  proof (cases "s < vb_start b")
    case True
    have "vma_locate s l (Some (vb_start b, False)) = Some link" using Node.prems(1) True by simp
    moreover have "sorted_wrt (<) (map vb_start (us @ inorder l @ (b # inorder r @ ws)))" using Node.prems(2) by simp
    moreover have "\<forall>c \<in> set (b # inorder r @ ws). s < vb_start c"
      using True Node.prems(2,4) by (auto simp: sorted_wrt_append intro: less_trans)
    moreover have "link_at (Some (vb_start b, False)) us (b # inorder r @ ws)" by (simp add: link_at_def)
    ultimately show ?thesis using Node.IH(1) [of "Some (vb_start b, False)" us "b # inorder r @ ws"] Node.prems(3) by simp
  next
    case False
    then have gt: "vb_start b < s" and loc: "vma_locate s r (Some (vb_start b, True)) = Some link"
      using Node.prems(1) by (auto split: if_splits)
    have "sorted_wrt (<) (map vb_start ((us @ inorder l @ [b]) @ inorder r @ ws))" using Node.prems(2) by simp
    moreover have "\<forall>c \<in> set (us @ inorder l @ [b]). vb_start c < s"
      using gt Node.prems(2,3) by (auto simp: sorted_wrt_append intro: less_trans)
    moreover have "link_at (Some (vb_start b, True)) (us @ inorder l @ [b]) ws" by (simp add: link_at_def)
    ultimately show ?thesis using Node.IH(2) [OF loc, of "us @ inorder l @ [b]" ws] Node.prems(4) by simp
  qed
qed

lemma locate_None:
  assumes "sorted_wrt (<) (vma_starts t)"
  shows "vma_locate s t acc = None \<longleftrightarrow> s \<in> set (vma_starts t)"
  using assms by (induction t arbitrary: acc) (auto simp: sorted_wrt_append)

lemma rb_prev_eq:
  assumes "distinct (map vb_start (us @ w # ws))"
  shows "rb_prev (vb_start w) (us @ w # ws) = (if us = [] then None else Some (last us))"
  using assms
proof (induction us)
  case Nil
  have "rb_prev k bs = None" if "k \<notin> set (map vb_start (tl bs))" for k bs
    using that by (induction k bs rule: rb_prev.induct) auto
  with Nil show ?case by simp
next
  case (Cons u us)
  then show ?case by (cases us) auto
qed

lemma rb_next_eq:
  assumes "distinct (map vb_start (us @ w # ws))"
  shows "rb_next (vb_start w) (us @ w # ws) = (if ws = [] then None else Some (hd ws))"
  using assms
proof (induction us)
  case Nil
  then show ?case by (cases ws) auto
next
  case (Cons u us)
  then show ?case by (cases us) auto
qed

lemma to_vma_block_eq:
  assumes "distinct (map vb_start (us @ w # ws))"
  shows "to_vma_block (vb_start w) (us @ w # ws) = Some w"
  using assms by (induction us) (auto simp: to_vma_block_def)

lemma neighbours:
  assumes "inorder t = us @ ws" "sorted_wrt (<) (vma_starts t)" "link_at link us ws"
  shows "prev_block t link = (if us = [] then None else Some (last us))"
    "next_block t link = (if ws = [] then None else Some (hd ws))"
proof -
  have d: "distinct (map vb_start (us @ ws))" using assms(1,2) by (simp add: strict_sorted_iff)
  show "prev_block t link = (if us = [] then None else Some (last us))"
  proof (cases us rule: rev_cases)
    case Nil
    then show ?thesis using assms(1,3) d rb_prev_eq [of "[]"]
      by (cases ws) (auto simp: prev_block_def link_at_def split: option.splits if_splits)
  next
    case (snoc us' u)
    then show ?thesis using assms(1,3) d to_vma_block_eq [of us' u ws] rb_prev_eq [of us "hd ws" "tl ws"]
      by (cases ws) (auto simp: prev_block_def link_at_def split: option.splits if_splits)
  qed
  show "next_block t link = (if ws = [] then None else Some (hd ws))"
  proof (cases ws)
    case Nil
    then show ?thesis using assms(1,3) d rb_next_eq [of "butlast us" "last us" "[]"]
      by (cases us rule: rev_cases) (auto simp: next_block_def link_at_def split: option.splits if_splits)
  next
    case (Cons w ws')
    then show ?thesis using assms(1,3) d to_vma_block_eq [of us w ws'] rb_next_eq [of "butlast us" "last us" ws]
      by (cases us rule: rev_cases) (auto simp: next_block_def link_at_def split: option.splits if_splits)
  qed
qed

lemma link_inorder:
  assumes "sorted_wrt (<) (vma_starts t)" "vb_start n \<notin> set (vma_starts t)"
  shows "inorder (vma_link n t) =
    filter (\<lambda>b. vb_start b < vb_start n) (inorder t) @ n # filter (\<lambda>b. vb_start n < vb_start b) (inorder t)"
  using assms
proof (induction t)
  case (Node l b r)
  have "filter (\<lambda>b. vb_start b < vb_start n) (inorder r) = []" "filter (\<lambda>b. vb_start n < vb_start b) (inorder r) = inorder r"
    if "vb_start n < vb_start b"
    using Node.prems(1) that by (auto simp: sorted_wrt_append filter_empty_conv filter_id_conv intro: less_trans dest: less_asym)
  moreover have "filter (\<lambda>b. vb_start b < vb_start n) (inorder l) = inorder l" "filter (\<lambda>b. vb_start n < vb_start b) (inorder l) = []"
    if "vb_start b < vb_start n"
    using Node.prems(1) that by (auto simp: sorted_wrt_append filter_empty_conv filter_id_conv intro: less_trans dest: less_asym)
  ultimately show ?case using Node by (auto simp: sorted_wrt_append not_less_iff_gr_or_eq)
qed simp

lemma link_ranges:
  assumes "inorder t = us @ ws" "sorted_wrt (<) (vma_starts t)"
    "\<forall>b \<in> set us. vb_start b < vb_start n" "\<forall>b \<in> set ws. vb_start n < vb_start b"
  shows "inorder (vma_link n t) = us @ n # ws"
proof -
  have "vb_start n \<notin> set (vma_starts t)" using assms(1,3,4) by auto
  moreover have "filter (\<lambda>b. vb_start b < vb_start n) (us @ ws) = us" "filter (\<lambda>b. vb_start n < vb_start b) (us @ ws) = ws"
    using assms(3,4) by (auto simp: filter_empty_conv filter_id_conv dest: less_asym)
  ultimately show ?thesis using link_inorder [OF assms(2)] assms(1) by simp
qed

section \<open>Carving and returning ranges\<close>

lemma word_add_no_wrap: "unat a + unat b < 2 ^ 64 \<Longrightarrow> unat (a + b) = unat a + unat (b :: u64)"
  by (simp add: unat_word_ariths)

lemma vr_set_iff: "x \<in> vr_set v \<longleftrightarrow> unat (vr_start v) \<le> x \<and> x < vr_end v"
  by (simp add: vr_set_def)

lemma ranges_disjoint:
  assumes "ranges_ok lim (us @ v # vs)"
  shows "vr_set v \<inter> vr_union (us @ vs) = {}"
proof -
  have "vr_set v \<inter> vr_set u = {}" if "u \<in> set us" for u
    using assms that by (fastforce simp: ranges_simps vr_set_iff)
  moreover have "vr_set v \<inter> vr_set w = {}" if "w \<in> set vs" for w
    using assms that by (fastforce simp: ranges_simps vr_set_iff)
  ultimately show ?thesis by (auto simp: vr_union_def)
qed

lemma carve:
  assumes ok: "ranges_ok lim (us @ v # vs)" and lim: "lim < 2 ^ 64" and sz: "0 < sz" "sz < vr_size v"
  shows "ranges_ok lim (us @ VR (vr_start v + sz) (vr_size v - sz) # vs)"
    and "vr_set (VR (vr_start v + sz) (vr_size v - sz)) = vr_set v - vr_set (VR (vr_start v) sz)"
    and "vr_set (VR (vr_start v) sz) \<subseteq> vr_set v"
proof -
  have e: "vr_end v \<le> lim" using ok by (simp add: ranges_simps)
  have u: "unat sz < unat (vr_size v)" "0 < unat sz" using sz by (simp_all add: word_less_nat_alt)
  have a: "unat (vr_start v + sz) = unat (vr_start v) + unat sz"
    using e u lim by (intro word_add_no_wrap) (simp add: vr_end_def)
  have b: "unat (vr_size v - sz) = unat (vr_size v) - unat sz" using u by (simp add: unat_sub word_le_nat_alt)
  have pos: "0 < vr_size v - sz" using b u by (simp add: word_less_nat_alt)
  have en: "vr_end (VR (vr_start v + sz) (vr_size v - sz)) = vr_end v" using a b u by (simp add: vr_end_def)
  show "ranges_ok lim (us @ VR (vr_start v + sz) (vr_size v - sz) # vs)"
    using ok pos en a by (auto simp: ranges_simps)
  show "vr_set (VR (vr_start v + sz) (vr_size v - sz)) = vr_set v - vr_set (VR (vr_start v) sz)"
    using en a u by (auto simp: vr_set_iff vr_end_def)
  show "vr_set (VR (vr_start v) sz) \<subseteq> vr_set v"
    using u by (auto simp: vr_set_iff vr_end_def)
qed

lemma vr_set_same: "vr_set (VR (vr_start v) (vr_size v)) = vr_set v"
  by (cases v) simp

lemma alloc_block_ok:
  assumes rb: "vma_rb_ok rb" and ok: "ranges_ok lim (vma_ranges t)" and lim: "lim < 2 ^ 64" and ms: "max_sound t"
    and sz: "0 < sz" and f: "find_first_proper_block t sz = Some b"
  obtains t' where "vma_alloc_block rb t sz = (0, Some (vb_start b), t')" "ranges_ok lim (vma_ranges t')" "max_sound t'"
    "vr_set (VR (vb_start b) sz) \<subseteq> vr_union (vma_ranges t)"
    "vr_union (vma_ranges t') = vr_union (vma_ranges t) - vr_set (VR (vb_start b) sz)"
proof -
  have b: "b \<in> set (inorder t)" "sz \<le> vb_size b" using find_sound [OF f] by auto
  obtain us ws where t: "inorder t = us @ b # ws" using b(1) by (meson split_list)
  let ?us = "map vb_range us" and ?ws = "map vb_range ws" and ?v = "vb_range b"
  have okl: "ranges_ok lim (?us @ ?v # ?ws)" using ok t by simp
  have dis: "vr_set ?v \<inter> vr_union (?us @ ?ws) = {}" by (rule ranges_disjoint [OF okl])
  have st: "sorted_wrt (<) (vma_starts t)" by (rule ranges_ok_starts [OF ok])
  have dst: "distinct (map vb_start (us @ b # ws))" using starts_distinct [OF st] t by simp
  show ?thesis
  proof (cases "vb_size b = sz")
    case True
    let ?t = "rb_erase_augmented rb (vb_start b) t"
    have e: "vma_ranges ?t = filter (\<lambda>v. vr_start v \<noteq> vb_start b) (vma_ranges t)" "max_sound ?t"
      using erase_aug_ok [OF rb ms st] b(1) by auto
    have r: "vma_ranges ?t = ?us @ ?ws" using e(1) filter_one [of ?us ?v ?ws] dst t by (simp add: comp_def)
    have same: "VR (vb_start b) sz = ?v" using True by (simp add: vb_range_def)
    show ?thesis
    proof (rule that [of ?t])
      show "vma_alloc_block rb t sz = (0, Some (vb_start b), ?t)" using f True by (simp add: vma_alloc_block_def)
      show "ranges_ok lim (vma_ranges ?t)" using okl unfolding r by (auto simp: ranges_simps)
      show "vr_union (vma_ranges ?t) = vr_union (vma_ranges t) - vr_set (VR (vb_start b) sz)"
        using dis unfolding r same t by auto
    qed (use e(2) t same in auto)
  next
    case False
    with b(2) have lt: "sz < vr_size ?v" by simp
    let ?f = "\<lambda>b. b\<lparr>vb_start := vb_start b + sz, vb_size := vb_size b - sz\<rparr>"
    let ?t = "fst (vma_update_block ?f (vb_start b) t)"
    have "vma_ranges ?t = ?us @ vb_range (?f b) # ?ws"
      unfolding update_block_ranges [OF st] t by (rule map_one [OF dst])
    then have r: "vma_ranges ?t = ?us @ VR (vr_start ?v + sz) (vr_size ?v - sz) # ?ws" by (simp add: vb_range_def)
    have msnd: "max_sound ?t" using update_block_sound [of ?f t "vb_start b"] ms by (cases "vma_update_block ?f (vb_start b) t") auto
    note c = carve [OF okl lim sz lt]
    show ?thesis
    proof (rule that [of ?t])
      show "vma_alloc_block rb t sz = (0, Some (vb_start b), ?t)" using f False by (simp add: vma_alloc_block_def)
      show "ranges_ok lim (vma_ranges ?t)" unfolding r by (rule c(1))
      show "vr_set (VR (vb_start b) sz) \<subseteq> vr_union (vma_ranges t)" using c(3) t by auto
      show "vr_union (vma_ranges ?t) = vr_union (vma_ranges t) - vr_set (VR (vb_start b) sz)"
        unfolding r t using c(2,3) dis by auto
    qed (rule msnd)
  qed
qed

text \<open>Where a returned range lies between the free blocks.\<close>

lemma return_place:
  assumes "vr_set (VR s sz) \<inter> vr_union (us @ ws) = {}" "0 < sz"
    "\<forall>u \<in> set us. vr_start u < s" "\<forall>w \<in> set ws. s < vr_start w" "\<forall>w \<in> set ws. 0 < vr_size w"
  shows "\<forall>u \<in> set us. vr_end u \<le> unat s" "\<forall>w \<in> set ws. unat s + unat sz \<le> unat (vr_start w)"
proof -
  have sz: "0 < unat sz" using assms(2) by (simp add: word_less_nat_alt)
  show "\<forall>u \<in> set us. vr_end u \<le> unat s"
  proof (rule ballI, rule ccontr)
    fix u assume u: "u \<in> set us" "\<not> vr_end u \<le> unat s"
    then have "unat s \<in> vr_set u" using assms(3) by (auto simp: vr_set_iff word_less_nat_alt)
    moreover have "unat s \<in> vr_set (VR s sz)" using sz by (simp add: vr_set_iff vr_end_def)
    ultimately show False using assms(1) u(1) by (auto simp: vr_union_def)
  qed
  show "\<forall>w \<in> set ws. unat s + unat sz \<le> unat (vr_start w)"
  proof (rule ballI, rule ccontr)
    fix w assume w: "w \<in> set ws" "\<not> unat s + unat sz \<le> unat (vr_start w)"
    then have "unat (vr_start w) \<in> vr_set (VR s sz)" using assms(4) by (auto simp: vr_set_iff vr_end_def word_less_nat_alt)
    moreover have "unat (vr_start w) \<in> vr_set w" using vr_size_pos assms(5) w(1) by (simp add: vr_set_iff)
    ultimately show False using assms(1) w(1) by (auto simp: vr_union_def)
  qed
qed

lemma no_overlap_after:
  assumes "unat s + unat sz \<le> unat w" "unat s + unat sz < 2 ^ 64"
  shows "\<not> is_overlap s (s + sz) w h"
proof -
  have "unat (s + sz) = unat s + unat sz" by (rule word_add_no_wrap [OF assms(2)])
  then have "\<not> w < s + sz" using assms(1) by (simp add: word_less_nat_alt)
  then show ?thesis by (simp add: is_overlap_def)
qed

lemma no_overlap_before:
  assumes "unat p + unat n \<le> unat s" "unat p + unat n < 2 ^ 64"
  shows "\<not> is_overlap s h p (p + n)"
proof -
  have "unat (p + n) = unat p + unat n" by (rule word_add_no_wrap [OF assms(2)])
  then have "\<not> s < p + n" using assms(1) by (simp add: word_less_nat_alt)
  then show ?thesis by (simp add: is_overlap_def)
qed

lemma word_sum_eq: "unat a + unat b < 2 ^ 64 \<Longrightarrow> a + b = c \<longleftrightarrow> unat a + unat b = unat (c :: u64)"
  using word_add_no_wrap [of a b] by (auto simp: word_unat_eq_iff)

text \<open>The previous block \<open>p\<close> has absorbed the range and may now touch its successor.\<close>

lemma free_next_merged:
  assumes rb: "vma_rb_ok rb" and lim: "lim < 2 ^ 64" and ms: "max_sound t"
    and t: "inorder t = (us @ [p]) @ ws" and st: "sorted_wrt (<) (vma_starts t)"
    and link: "link_at link (us @ [p]) ws"
    and ok: "ranges_ok lim (map vb_range (us @ [p]))" "ranges_ok lim (map vb_range ws)"
    and e: "vr_end (vb_range p) = unat s + unat sz" and after: "\<forall>w \<in> set ws. unat s + unat sz \<le> unat (vb_start w)"
  obtains t' where "vma_free_next rb mem t link (Some (vb_start p)) s sz = (0, t')" "ranges_ok lim (vma_ranges t')" "max_sound t'"
    "vr_union (vma_ranges t') = vr_union (vma_ranges t)"
proof -
  have e_lim: "unat s + unat sz < 2 ^ 64" using e ok(1) lim by (auto simp: ranges_simps)
  have nb: "next_block t link = (if ws = [] then None else Some (hd ws))" by (rule neighbours(2) [OF t st link])
  show ?thesis
  proof (cases "ws \<noteq> [] \<and> unat s + unat sz = unat (vb_start (hd ws))")
    case True
    then obtain w ws' where ws: "ws = w # ws'" and adj: "unat s + unat sz = unat (vb_start w)" by (cases ws) auto
    have adjw: "s + sz = vb_start w" using word_sum_eq [OF e_lim] adj by simp
    let ?t1 = "rb_erase_augmented rb (vb_start w) t"
    have dst: "distinct (map vb_start (inorder t))" by (rule starts_distinct [OF st])
    have r1: "vma_ranges ?t1 = filter (\<lambda>v. vr_start v \<noteq> vb_start w) (vma_ranges t)" "max_sound ?t1"
      using erase_aug_ok [OF rb ms st] t ws by auto
    have "filter (\<lambda>v. vr_start v \<noteq> vr_start (vb_range w)) (map vb_range (us @ [p]) @ vb_range w # map vb_range ws') =
        map vb_range (us @ [p]) @ map vb_range ws'"
      using dst t ws by (intro filter_one) (simp add: comp_def)
    then have r2: "vma_ranges ?t1 = map vb_range (us @ [p]) @ map vb_range ws'" using r1(1) t ws by simp
    have i1: "map vb_start (inorder ?t1) = map vb_start ((us @ [p]) @ ws')"
      using arg_cong [OF r2, of "map vr_start"] by (simp add: comp_def)
    have st1: "sorted_wrt (<) (vma_starts ?t1)" using st unfolding i1 t ws by (auto simp: sorted_wrt_append)
    let ?f = "\<lambda>q. q\<lparr>vb_size := vb_size q + vb_size w\<rparr>"
    let ?t = "fst (vma_update_block ?f (vb_start p) ?t1)"
    have "map (\<lambda>b. if vb_start b = vb_start p then vb_range (?f b) else vb_range b) (inorder ?t1) =
        map (\<lambda>v. if vr_start v = vb_start p then VR (vr_start v) (vr_size v + vb_size w) else v) (vma_ranges ?t1)"
      by (simp add: vb_range_def)
    also have "\<dots> = map vb_range us @ VR (vb_start p) (vb_size p + vb_size w) # map vb_range ws'"
      unfolding r2 using map_key_one [of vr_start "map vb_range us" "vb_range p" "map vb_range ws'"
          "\<lambda>v. VR (vr_start v) (vr_size v + vb_size w)" "\<lambda>v. v"] dst t ws by (simp add: comp_def)
    finally have r: "vma_ranges ?t = map vb_range us @ VR (vb_start p) (vb_size p + vb_size w) # map vb_range ws'"
      unfolding update_block_ranges [OF st1] .
    have pw: "unat (vb_start p) + unat (vb_size p) = unat (vb_start w)" using e adj by (simp add: vr_end_def)
    have wl: "vr_end (vb_range w) \<le> lim" "0 < vb_size w" using ok(2) ws by (auto simp: ranges_simps)
    have sum: "unat (vb_size p + vb_size w) = unat (vb_size p) + unat (vb_size w)"
      using pw wl(1) lim by (intro word_add_no_wrap) (simp add: vr_end_def)
    have en: "vr_end (VR (vb_start p) (vb_size p + vb_size w)) = vr_end (vb_range w)"
      using sum pw by (simp add: vr_end_def)
    have pos: "0 < vb_size p + vb_size w" using sum wl(2) by (simp add: word_less_nat_alt)
    have before: "vr_end (vb_range u) < unat (vb_start q)" if "u \<in> set us" "q \<in> set ws'" for u q
    proof -
      have "vr_end (vb_range u) < unat (vb_start p)" using ok(1) that(1) by (auto simp: ranges_simps)
      also have "\<dots> \<le> vr_end (vb_range w)" using pw by (simp add: vr_end_def)
      also have "\<dots> < unat (vb_start q)" using ok(2) ws that(2) by (auto simp: ranges_simps)
      finally show ?thesis .
    qed
    have set: "vr_set (VR (vb_start p) (vb_size p + vb_size w)) = vr_set (vb_range p) \<union> vr_set (vb_range w)"
      using en pw by (auto simp: vr_set_iff vr_end_def)
    show ?thesis
    proof (rule that [of ?t])
      show "vma_free_next rb mem t link (Some (vb_start p)) s sz = (0, ?t)"
        using nb ws adjw by (simp add: vma_free_next_def)
      show "ranges_ok lim (vma_ranges ?t)"
        unfolding r using ok ws wl pos en before by (auto simp: ranges_simps)
      show "max_sound ?t"
        using update_block_sound [of ?f ?t1 "vb_start p"] r1(2) by (cases "vma_update_block ?f (vb_start p) ?t1") auto
      show "vr_union (vma_ranges ?t) = vr_union (vma_ranges t)" unfolding r t ws using set by auto
    qed
  next
    case False
    have strict: "unat s + unat sz < unat (vb_start w)" if "w \<in> set ws" for w
    proof (cases ws)
      case (Cons w0 ws0)
      have "unat s + unat sz < unat (vb_start w0)" using False Cons after by auto
      moreover have "unat (vb_start w0) \<le> unat (vb_start w)"
        using ok(2) that Cons start_less_end [of "vb_range w0"] by (auto simp: ranges_simps)
      ultimately show ?thesis by linarith
    qed (use that in simp)
    show ?thesis
    proof (rule that [of t])
      have "s + sz \<noteq> vb_start (hd ws)" "\<not> is_overlap s (s + sz) (vb_start (hd ws)) h" if "ws \<noteq> []" for h
        using that False word_sum_eq [OF e_lim] no_overlap_after [OF _ e_lim] after by auto
      then show "vma_free_next rb mem t link (Some (vb_start p)) s sz = (0, t)"
        using nb by (auto simp: vma_free_next_def)
      have before: "vr_end (vb_range u) < unat (vb_start q)" if "u \<in> set us" "q \<in> set ws" for u q
      proof -
        have "vr_end (vb_range u) < unat (vb_start p)" using ok(1) that(1) by (auto simp: ranges_simps)
        also have "\<dots> \<le> vr_end (vb_range p)" by (simp add: vr_end_def)
        also have "\<dots> < unat (vb_start q)" using strict [OF that(2)] e by simp
        finally show ?thesis .
      qed
      show "ranges_ok lim (vma_ranges t)"
        unfolding t using ok before strict e by (auto simp: ranges_simps)
    qed (use ms in auto)
  qed
qed

text \<open>The previous block does not touch the range.\<close>

lemma free_next_unmerged:
  assumes rb: "vma_rb_ok rb" and lim: "lim < 2 ^ 64" and ms: "max_sound t"
    and t: "inorder t = us @ ws" and link: "link_at link us ws" and ok: "ranges_ok lim (vma_ranges t)"
    and sz: "0 < sz" "unat s + unat sz \<le> lim"
    and before: "\<forall>u \<in> set us. vr_end (vb_range u) < unat s"
    and after: "\<forall>w \<in> set ws. unat s + unat sz \<le> unat (vb_start w)"
  obtains (succ) t' where "vma_free_next rb mem t link None s sz = (0, t')" "ranges_ok lim (vma_ranges t')" "max_sound t'"
      "vr_union (vma_ranges t') = vr_union (vma_ranges t) \<union> vr_set (VR s sz)"
  | (nomem) "\<not> mem" "vma_free_next rb mem t link None s sz = (- ENOMEM, t)"
proof -
  have e_lim: "unat s + unat sz < 2 ^ 64" using sz(2) lim by simp
  have szn: "0 < unat sz" using sz(1) by (simp add: word_less_nat_alt)
  have st: "sorted_wrt (<) (vma_starts t)" by (rule ranges_ok_starts [OF ok])
  have okl: "ranges_ok lim (map vb_range us)" "ranges_ok lim (map vb_range ws)" using ok t by (auto simp: ranges_simps)
  have nb: "next_block t link = (if ws = [] then None else Some (hd ws))" by (rule neighbours(2) [OF t st link])
  show ?thesis
  proof (cases "ws \<noteq> [] \<and> unat s + unat sz = unat (vb_start (hd ws))")
    case True
    then obtain w ws' where ws: "ws = w # ws'" and adj: "unat s + unat sz = unat (vb_start w)" by (cases ws) auto
    have adjw: "s + sz = vb_start w" using word_sum_eq [OF e_lim] adj by simp
    then have sw: "vb_start w - sz = s" by (metis add_diff_cancel_right')
    let ?f = "\<lambda>q. q\<lparr>vb_start := vb_start q - sz, vb_size := vb_size q + sz\<rparr>"
    let ?t = "fst (vma_update_block ?f (vb_start w) t)"
    have dst: "distinct (map vb_start (us @ w # ws'))" using starts_distinct [OF st] t ws by simp
    have "vma_ranges ?t = map vb_range us @ vb_range (?f w) # map vb_range ws'"
      unfolding update_block_ranges [OF st] t ws by (rule map_one [OF dst])
    then have r: "vma_ranges ?t = map vb_range us @ VR s (vb_size w + sz) # map vb_range ws'" by (simp add: vb_range_def sw)
    have wl: "vr_end (vb_range w) \<le> lim" "0 < vb_size w" using okl(2) ws by (auto simp: ranges_simps)
    have sum: "unat (vb_size w + sz) = unat (vb_size w) + unat sz"
      using adj wl(1) lim by (intro word_add_no_wrap) (simp add: vr_end_def)
    have en: "vr_end (VR s (vb_size w + sz)) = vr_end (vb_range w)" using sum adj by (simp add: vr_end_def)
    have pos: "0 < vb_size w + sz" using sum szn by (simp add: word_less_nat_alt)
    have ub: "vr_end (vb_range u) < unat (vb_start q)" if "u \<in> set us" "q \<in> set ws'" for u q
      using ok that unfolding t ws by (auto simp: ranges_simps)
    have set: "vr_set (VR s (vb_size w + sz)) = vr_set (VR s sz) \<union> vr_set (vb_range w)"
      using en adj by (auto simp: vr_set_iff vr_end_def)
    show ?thesis
    proof (rule succ [of ?t])
      show "vma_free_next rb mem t link None s sz = (0, ?t)" using nb ws adjw by (simp add: vma_free_next_def)
      show "ranges_ok lim (vma_ranges ?t)"
        unfolding r using okl ws wl pos en before ub by (auto simp: ranges_simps)
      show "max_sound ?t"
        using update_block_sound [of ?f t "vb_start w"] ms by (cases "vma_update_block ?f (vb_start w) t") auto
      show "vr_union (vma_ranges ?t) = vr_union (vma_ranges t) \<union> vr_set (VR s sz)" unfolding r t ws using set by auto
    qed
  next
    case False
    have strict: "unat s + unat sz < unat (vb_start w)" if "w \<in> set ws" for w
    proof (cases ws)
      case (Cons w0 ws0)
      have "unat s + unat sz < unat (vb_start w0)" using False Cons after by auto
      moreover have "unat (vb_start w0) \<le> unat (vb_start w)"
        using okl(2) that Cons start_less_end [of "vb_range w0"] by (auto simp: ranges_simps)
      ultimately show ?thesis by linarith
    qed (use that in simp)
    let ?n = "\<lparr>vb_start = s, vb_size = sz, vb_max = sz\<rparr>"
    have "s + sz \<noteq> vb_start (hd ws)" "\<not> is_overlap s (s + sz) (vb_start (hd ws)) h" if "ws \<noteq> []" for h
      using that False word_sum_eq [OF e_lim] no_overlap_after [OF _ e_lim] after by auto
    then have f: "vma_free_next rb mem t link None s sz =
        (if \<not> mem then (- ENOMEM, t) else (0, rb_insert_augmented rb (vma_link ?n t)))"
      using nb by (auto simp: vma_free_next_def)
    show ?thesis
    proof (cases mem)
      case mem: True
      have us: "\<forall>b \<in> set us. vb_start b < vb_start ?n"
        using before start_less_end order.strict_trans1 by (fastforce simp: word_less_nat_alt)
      have ws: "\<forall>b \<in> set ws. vb_start ?n < vb_start b"
      proof
        fix b assume "b \<in> set ws"
        from strict [OF this] show "vb_start ?n < vb_start b" by (simp add: word_less_nat_alt)
      qed
      have "max_sound (vma_link ?n t)" using link_sound [OF ms, of ?n] by simp
      then have i: "vma_ranges (rb_insert_augmented rb (vma_link ?n t)) = vma_ranges (vma_link ?n t)"
        "max_sound (rb_insert_augmented rb (vma_link ?n t))" using insert_aug_ok [OF rb] by auto
      then have r: "vma_ranges (rb_insert_augmented rb (vma_link ?n t)) = map vb_range us @ VR s sz # map vb_range ws"
        using link_ranges [OF t st us ws] by (simp add: vb_range_def)
      show ?thesis
      proof (rule succ)
        show "vma_free_next rb mem t link None s sz = (0, rb_insert_augmented rb (vma_link ?n t))" using f mem by simp
        show "ranges_ok lim (vma_ranges (rb_insert_augmented rb (vma_link ?n t)))"
          unfolding r using ok t sz before strict by (auto simp: ranges_simps vr_end_def)
        show "vr_union (vma_ranges (rb_insert_augmented rb (vma_link ?n t))) = vr_union (vma_ranges t) \<union> vr_set (VR s sz)"
          unfolding r t by auto
      qed (rule i(2))
    next
      case False
      then show ?thesis using f nomem by simp
    qed
  qed
qed

text \<open>Where the descent for a range that is not free ends.\<close>

lemma return_descent:
  assumes ok: "ranges_ok lim (vma_ranges t)" and sz: "0 < sz" and dis: "vr_set (VR s sz) \<inter> vr_union (vma_ranges t) = {}"
  obtains link us ws where "vma_locate s t None = Some link" "inorder t = us @ ws" "link_at link us ws"
    "\<forall>b \<in> set us. vb_start b < s" "\<forall>b \<in> set ws. s < vb_start b"
    "\<forall>u \<in> set us. vr_end (vb_range u) \<le> unat s" "\<forall>w \<in> set ws. unat s + unat sz \<le> unat (vb_start w)"
proof -
  have st: "sorted_wrt (<) (vma_starts t)" by (rule ranges_ok_starts [OF ok])
  have szn: "0 < unat sz" using sz by (simp add: word_less_nat_alt)
  have pos: "\<forall>v \<in> set (vma_ranges t). 0 < vr_size v" using ok by (simp add: ranges_ok_def)
  have "s \<notin> set (vma_starts t)"
  proof
    assume "s \<in> set (vma_starts t)"
    then obtain b where b: "b \<in> set (inorder t)" "s = vb_start b" by auto
    then have "unat s \<in> vr_set (vb_range b)" "unat s \<in> vr_set (VR s sz)"
      using pos szn by (auto simp: vr_set_iff vr_end_def word_less_nat_alt)
    then show False using dis b(1) by (auto simp: vr_union_def)
  qed
  then obtain link where loc: "vma_locate s t None = Some link" using locate_None [OF st, of s None] by auto
  have "link_at None [] []" by (simp add: link_at_def)
  from locate_link [OF loc _ _ _ this] st
  obtain us ws where t: "inorder t = us @ ws" and us: "\<forall>b \<in> set us. vb_start b < s" and ws: "\<forall>b \<in> set ws. s < vb_start b"
    and link: "link_at link us ws" by auto
  have "vr_set (VR s sz) \<inter> vr_union (map vb_range us @ map vb_range ws) = {}" using dis t by simp
  from return_place [OF this sz] us ws pos t
  have place: "\<forall>u \<in> set us. vr_end (vb_range u) \<le> unat s" "\<forall>w \<in> set ws. unat s + unat sz \<le> unat (vb_start w)" by auto
  with loc t link us ws show thesis by (rule that)
qed

lemma free_block_ok:
  assumes rb: "vma_rb_ok rb" and lim: "lim < 2 ^ 64" and ms: "max_sound t" and ok: "ranges_ok lim (vma_ranges t)"
    and sz: "0 < sz" "unat s + unat sz \<le> lim" and dis: "vr_set (VR s sz) \<inter> vr_union (vma_ranges t) = {}"
  obtains (succ) t' where "vma_free_block rb mem t s sz = (0, t')" "ranges_ok lim (vma_ranges t')" "max_sound t'"
      "vr_union (vma_ranges t') = vr_union (vma_ranges t) \<union> vr_set (VR s sz)"
  | (nomem) "\<not> mem" "vma_free_block rb mem t s sz = (- ENOMEM, t)"
proof -
  have st: "sorted_wrt (<) (vma_starts t)" by (rule ranges_ok_starts [OF ok])
  have szn: "0 < unat sz" using sz(1) by (simp add: word_less_nat_alt)
  obtain link us ws where loc: "vma_locate s t None = Some link" and t: "inorder t = us @ ws" and link: "link_at link us ws"
    and place: "\<forall>u \<in> set us. vr_end (vb_range u) \<le> unat s" "\<forall>w \<in> set ws. unat s + unat sz \<le> unat (vb_start w)"
    by (rule return_descent [OF ok sz(1) dis])
  have pb: "prev_block t link = (if us = [] then None else Some (last us))" by (rule neighbours(1) [OF t st link])
  show ?thesis
  proof (cases "us \<noteq> [] \<and> vr_end (vb_range (last us)) = unat s")
    case True
    then obtain us' p where us': "us = us' @ [p]" and adj: "vr_end (vb_range p) = unat s" by (cases us rule: rev_cases) auto
    have oku: "ranges_ok lim (map vb_range (us' @ [p]))" "ranges_ok lim (map vb_range ws)" using ok t us' by (auto simp: ranges_simps)
    have "vr_end (vb_range p) < 2 ^ 64" using oku(1) lim by (auto simp: ranges_simps)
    then have adjw: "vb_start p + vb_size p = s" using adj word_sum_eq [of "vb_start p" "vb_size p" s] by (simp add: vr_end_def)
    let ?f = "\<lambda>q. q\<lparr>vb_size := vb_size q + sz\<rparr>"
    let ?t1 = "fst (vma_update_block ?f (vb_start p) t)"
    have dst: "distinct (map vb_start (us' @ p # ws))" using starts_distinct [OF st] t us' by simp
    have r1: "vma_ranges ?t1 = map vb_range us' @ vb_range (?f p) # map vb_range ws"
      unfolding update_block_ranges [OF st] t us' using map_one [OF dst, of "\<lambda>b. vb_range (?f b)"] by simp
    have ms1: "max_sound ?t1"
      using update_block_sound [of ?f t "vb_start p"] ms by (cases "vma_update_block ?f (vb_start p) t") auto
    obtain ub pb1 wb where i1: "inorder ?t1 = (ub @ [pb1]) @ wb" "map vb_range ub = map vb_range us'"
        "vb_range pb1 = vb_range (?f p)" "map vb_range wb = map vb_range ws"
      using r1 by (auto simp: map_eq_append_conv map_eq_Cons_conv)
    have st1: "map vb_start (inorder ?t1) = map vb_start (inorder t)"
      using arg_cong [OF r1, of "map vr_start"] t us' by (simp add: comp_def vb_range_def)
    have pb1: "vb_start pb1 = vb_start p" "vb_size pb1 = vb_size p + sz" using i1(3) by (simp_all add: vb_range_def)
    have wb: "map vb_start wb = map vb_start ws" using arg_cong [OF i1(4), of "map vr_start"] by (simp add: comp_def)
    have "wb = [] \<longleftrightarrow> ws = []" using i1(4) by (metis map_is_Nil_conv)
    moreover have "vb_start (hd wb) = vb_start (hd ws)" if "ws \<noteq> []"
      using wb that by (cases ws; cases wb) auto
    ultimately have link1: "link_at link (ub @ [pb1]) wb" using link us' pb1(1) by (auto simp: link_at_def split: option.splits)
    have sum: "unat (vb_size p + sz) = unat (vb_size p) + unat sz"
      using adj sz(2) lim by (intro word_add_no_wrap) (simp add: vr_end_def)
    have e1: "vr_end (vb_range pb1) = unat s + unat sz" using pb1 sum adj by (simp add: vr_end_def)
    have "0 < vb_size p + sz" using sum szn by (simp add: word_less_nat_alt)
    then have ok1: "ranges_ok lim (map vb_range (ub @ [pb1]))" "ranges_ok lim (map vb_range wb)"
      using oku e1 sz(2) i1(2,4) pb1 by (auto simp: ranges_simps)
    have af1: "\<forall>w \<in> set wb. unat s + unat sz \<le> unat (vb_start w)"
    proof
      fix w assume "w \<in> set wb"
      then have "vb_start w \<in> set (map vb_start ws)" unfolding wb [symmetric] by simp
      then show "unat s + unat sz \<le> unat (vb_start w)" using place(2) by auto
    qed
    have f: "vma_free_block rb mem t s sz = vma_free_next rb mem ?t1 link (Some (vb_start pb1)) s sz"
      using loc pb us' adjw pb1(1) by (simp add: vma_free_block_def)
    have un: "vr_union (vma_ranges ?t1) = vr_union (vma_ranges t) \<union> vr_set (VR s sz)"
      unfolding r1 t us' using sum adj by (auto simp: vr_set_iff vr_end_def vb_range_def)
    have "sorted_wrt (<) (vma_starts ?t1)" using st st1 by simp
    then show ?thesis
    proof (rule free_next_merged [OF rb lim ms1 i1(1) _ link1 ok1 e1 af1, of mem])
      fix t' assume "vma_free_next rb mem ?t1 link (Some (vb_start pb1)) s sz = (0, t')" "ranges_ok lim (vma_ranges t')" "max_sound t'"
        "vr_union (vma_ranges t') = vr_union (vma_ranges ?t1)"
      then show ?thesis using f un by (intro succ [of t']) simp_all
    qed
  next
    case False
    have before: "\<forall>u \<in> set us. vr_end (vb_range u) < unat s"
    proof
      fix u assume u: "u \<in> set us"
      then obtain us' p where us': "us = us' @ [p]" by (cases us rule: rev_cases) auto
      have p: "vr_end (vb_range p) < unat s" using False place(1) us' by auto
      show "vr_end (vb_range u) < unat s"
      proof (cases "u = p")
        case False
        then have "vr_end (vb_range u) < unat (vb_start p)" using ok t us' u by (auto simp: ranges_simps)
        also have "\<dots> \<le> vr_end (vb_range p)" by (simp add: vr_end_def)
        finally show ?thesis using p by simp
      qed (use p in simp)
    qed
    have f: "vma_free_block rb mem t s sz = vma_free_next rb mem t link None s sz"
    proof (cases "us = []")
      case True
      then show ?thesis using loc pb by (simp add: vma_free_block_def)
    next
      case ne: False
      then have l: "last us \<in> set us" by simp
      have "vr_end (vb_range (last us)) < unat s" using before l by blast
      moreover have "unat s < 2 ^ 64" using unsigned_less [of s, where ?'a = nat] by simp
      ultimately have "\<not> is_overlap s (s + sz) (vb_start (last us)) (vb_start (last us) + vb_size (last us))"
          "vb_start (last us) + vb_size (last us) \<noteq> s"
        using no_overlap_before [of "vb_start (last us)" "vb_size (last us)" s] word_sum_eq [of "vb_start (last us)" "vb_size (last us)" s]
        by (auto simp: vr_end_def)
      then show ?thesis using loc pb ne by (simp add: vma_free_block_def)
    qed
    show ?thesis
      by (rule free_next_unmerged [OF rb lim ms t link ok sz before place(2), of mem]) (use f succ nomem in auto)
  qed
qed

text \<open>A range that touches no free block is linked as a block of its own.\<close>

lemma free_links:
  assumes ok: "ranges_ok lim (vma_ranges t)" and lim: "lim < 2 ^ 64" and sz: "0 < sz" "unat s + unat sz \<le> lim"
    and dis: "vr_set (VR s sz) \<inter> vr_union (vma_ranges t) = {}"
    and apart: "\<forall>b \<in> set (inorder t). vb_start b + vb_size b \<noteq> s \<and> s + sz \<noteq> vb_start b"
  defines "n \<equiv> \<lparr>vb_start = s, vb_size = sz, vb_max = sz\<rparr>"
  shows "vma_free_block rb True t s sz = (0, rb_insert_augmented rb (vma_link n t))"
    and "s \<notin> set (vma_starts t)" and "n \<in> set (inorder (vma_link n t))"
proof -
  have st: "sorted_wrt (<) (vma_starts t)" by (rule ranges_ok_starts [OF ok])
  obtain link us ws where loc: "vma_locate s t None = Some link" and t: "inorder t = us @ ws" and link: "link_at link us ws"
    and lt: "\<forall>b \<in> set us. vb_start b < s" "\<forall>b \<in> set ws. s < vb_start b"
    and place: "\<forall>u \<in> set us. vr_end (vb_range u) \<le> unat s" "\<forall>w \<in> set ws. unat s + unat sz \<le> unat (vb_start w)"
    by (rule return_descent [OF ok sz(1) dis])
  note nb = neighbours [OF t st link]
  have e_lim: "unat s + unat sz < 2 ^ 64" using sz(2) lim by simp
  have before: "\<not> is_overlap s h (vb_start p) (vb_start p + vb_size p)" if "p \<in> set us" for p h
  proof -
    have "unat (vb_start p) + unat (vb_size p) \<le> unat s" using place(1) that by (simp add: vr_end_def)
    then show ?thesis using e_lim by (intro no_overlap_before) auto
  qed
  have after: "\<not> is_overlap s (s + sz) (vb_start w) h" if "w \<in> set ws" for w h
    using place(2) that by (intro no_overlap_after [OF _ e_lim]) simp
  have nxt: "vma_free_next rb True t link None s sz = (0, rb_insert_augmented rb (vma_link n t))"
    using nb(2) apart t after [of "hd ws"] by (cases ws) (simp_all add: vma_free_next_def n_def)
  show "vma_free_block rb True t s sz = (0, rb_insert_augmented rb (vma_link n t))"
    using nb(1) apart t before [of "last us"] nxt loc by (cases us rule: rev_cases) (simp_all add: vma_free_block_def)
  show "s \<notin> set (vma_starts t)" using lt t by auto
  show "n \<in> set (inorder (vma_link n t))" using link_ranges [OF t st, of n] lt by (simp add: n_def)
qed

section \<open>Blocks that the search does not see\<close>

text \<open>An insertion whose rebalancing changes the subtrees of the root, or nothing, but not the root.\<close>

definition rot_below_root :: "vma_block tree \<Rightarrow> vma_block tree \<Rightarrow> bool" where
  "rot_below_root t t' \<longleftrightarrow>
     (\<exists>l b r l' r'. t = Node l b r \<and> t' = Node l' b r' \<and> vma_rot\<^sup>*\<^sup>* l l' \<and> vma_rot\<^sup>*\<^sup>* r r')"

lemma rots_max:
  assumes "vma_rot\<^sup>*\<^sup>* t t'" "max_sound t"
  shows "subtree_max_size t' = subtree_max_size t"
proof -
  have "max_sound t' \<and> subtree_max_size t' = subtree_max_size t"
    using assms by (induction rule: rtranclp_induct) (auto dest: rot_sound)
  then show ?thesis ..
qed

lemma sound_max_small:
  assumes "max_sound t" "0 < sz" "\<forall>x \<in> set (inorder t). vb_size x < sz"
  shows "subtree_max_size t < sz"
proof (rule ccontr)
  assume "\<not> subtree_max_size t < sz"
  then obtain x where "find_first_proper_block t sz = Some x" using find_no_dead_end [OF assms(1,2)] by (auto simp: not_less)
  with find_sound assms(3) show False using leD by blast
qed

text \<open>The root still has the values of the time before the new block was linked below it.\<close>

lemma linked_block_unseen:
  assumes ms: "max_sound (Node l b r)" and sz: "0 < sz" and small: "\<forall>x \<in> set (inorder (Node l b r)). vb_size x < sz"
    and n: "vb_max n = vb_size n" and side: "(if vb_start n < vb_start b then l else r) \<noteq> Leaf"
    and rot: "rot_below_root (vma_link n (Node l b r)) t'"
  shows "find_first_proper_block t' sz = None"
proof -
  have lk: "subtree_max_size (vma_link n u) = subtree_max_size u" "max_sound (vma_link n u)" if "max_sound u" "u \<noteq> Leaf" for u
    using link_sound [OF that(1) n] that(2) by simp_all
  have s: "max_sound l" "max_sound r" using ms by simp_all
  obtain l1 r1 where 1: "vma_link n (Node l b r) = Node l1 b r1" "max_sound l1" "max_sound r1"
    "subtree_max_size l1 = subtree_max_size l" "subtree_max_size r1 = subtree_max_size r"
    using lk [OF s(1)] lk [OF s(2)] s side by (cases "vb_start n < vb_start b"; cases "vb_start b < vb_start n") auto
  obtain l2 r2 where 2: "t' = Node l2 b r2" "vma_rot\<^sup>*\<^sup>* l1 l2" "vma_rot\<^sup>*\<^sup>* r1 r2"
    using rot 1(1) by (auto simp: rot_below_root_def)
  have "subtree_max_size l < sz" "subtree_max_size r < sz" "vb_size b < sz"
    using sound_max_small [OF s(1) sz] sound_max_small [OF s(2) sz] small by simp_all
  then show ?thesis using rots_max [OF 2(2) 1(2)] rots_max [OF 2(3) 1(3)] 1(4,5) by (auto simp: 2(1) dest: leD)
qed

section \<open>Rounding\<close>

lemma and_not_mask: "w AND NOT (mask n) = push_bit n (drop_bit n (w :: u64))"
  by (rule bit_eqI) (auto simp: bit_simps)

lemma align_unat: "unat (ALIGN x XSMEM_VMA_ALIGN) = (unat (x + 4095) div 4096) * 4096"
proof -
  have m: "XSMEM_VMA_ALIGN - 1 = mask 12" by (simp add: mask_eq_exp_minus_1)
  have "unat (x + 4095) div 4096 * 4096 \<le> unat (x + 4095)" by simp
  also have "\<dots> < 2 ^ 64" using unsigned_less [of "x + 4095", where ?'a = nat] by simp
  finally have lt: "unat (x + 4095) div 4096 * 4096 < 2 ^ 64" .
  have "unat (push_bit 12 (drop_bit 12 (x + 4095))) = take_bit 64 (push_bit 12 (drop_bit 12 (unat (x + 4095))))"
    using take_bit_nat_eq_self [of "unat (x + 4095)" 64] unsigned_less [of "x + 4095", where ?'a = nat]
    by (simp only: unsigned_push_bit_eq unsigned_drop_bit_eq) simp
  also have "\<dots> = take_bit 64 (unat (x + 4095) div 4096 * 4096)"
    by (simp add: push_bit_eq_mult drop_bit_eq_div)
  also have "\<dots> = unat (x + 4095) div 4096 * 4096" using lt by (rule take_bit_nat_eq_self)
  finally show ?thesis
    unfolding ALIGN_def m and_not_mask by (simp only: m [symmetric]) simp
qed

lemma align_cases:
  shows "unat x + 4095 < 2 ^ 64 \<Longrightarrow> unat (ALIGN x XSMEM_VMA_ALIGN) = (unat x + 4095) div 4096 * 4096 \<and> x \<le> ALIGN x XSMEM_VMA_ALIGN"
    and "2 ^ 64 \<le> unat x + 4095 \<Longrightarrow> ALIGN x XSMEM_VMA_ALIGN = 0 \<and> ALIGN x XSMEM_VMA_ALIGN < x"
proof -
  assume "unat x + 4095 < 2 ^ 64"
  then have e: "unat (x + 4095) = unat x + 4095" using word_add_no_wrap [of x 4095] by simp
  show "unat (ALIGN x XSMEM_VMA_ALIGN) = (unat x + 4095) div 4096 * 4096 \<and> x \<le> ALIGN x XSMEM_VMA_ALIGN"
    using align_unat [of x] unfolding e word_le_nat_alt by simp
next
  assume a: "2 ^ 64 \<le> unat x + 4095"
  have x: "unat x < 2 ^ 64" using unsigned_less [of x, where ?'a = nat] by simp
  have "unat (x + 4095) = (unat x + 4095) mod 2 ^ 64" by (simp add: unat_word_ariths)
  also have "\<dots> = unat x + 4095 - 2 ^ 64" using a x by (simp add: mod_if)
  finally have "unat (x + 4095) div 4096 = 0" using x by simp
  then have z: "unat (ALIGN x XSMEM_VMA_ALIGN) = 0" using align_unat [of x] by simp
  then have "ALIGN x XSMEM_VMA_ALIGN = 0" by (simp add: word_unat_eq_iff)
  moreover have "0 < x" using a by (simp add: word_less_nat_alt)
  ultimately show "ALIGN x XSMEM_VMA_ALIGN = 0 \<and> ALIGN x XSMEM_VMA_ALIGN < x" by simp
qed

section \<open>The state of a pool\<close>

text \<open>
  \<open>vma_state c A\<close>: \<open>A\<close> are the ranges that have been allocated and not returned. They and the free
  blocks partition the pool, no two overlap, and the counters are exact.
\<close>

definition vma_free_set :: "vma_ctrl \<Rightarrow> nat set" where
  "vma_free_set c = vr_union (vma_ranges (vc_root c))"

definition vma_state :: "vma_ctrl \<Rightarrow> vrange set \<Rightarrow> bool" where
  "vma_state c A \<longleftrightarrow>
     ranges_ok (unat (vc_total_size c)) (vma_ranges (vc_root c)) \<and> max_sound (vc_root c) \<and>
     finite A \<and> (\<forall>v \<in> A. 0 < vr_size v \<and> vr_end v \<le> unat (vc_total_size c)) \<and>
     (\<forall>v \<in> A. \<forall>w \<in> A. v \<noteq> w \<longrightarrow> vr_set v \<inter> vr_set w = {}) \<and>
     (\<forall>v \<in> A. vr_set v \<inter> vma_free_set c = {}) \<and>
     vma_free_set c \<union> (\<Union>v \<in> A. vr_set v) = {0 ..< unat (vc_total_size c)} \<and>
     unat (vc_free_size c) = card (vma_free_set c) \<and> vc_alloc_block_cnt c = of_nat (card A)"

lemma vma_stateD:
  assumes "vma_state c A"
  shows "ranges_ok (unat (vc_total_size c)) (vma_ranges (vc_root c))" "max_sound (vc_root c)" "finite A"
    "v \<in> A \<Longrightarrow> 0 < vr_size v" "v \<in> A \<Longrightarrow> vr_end v \<le> unat (vc_total_size c)"
    "v \<in> A \<Longrightarrow> w \<in> A \<Longrightarrow> v \<noteq> w \<Longrightarrow> vr_set v \<inter> vr_set w = {}"
    "v \<in> A \<Longrightarrow> vr_set v \<inter> vma_free_set c = {}"
    "vma_free_set c \<union> (\<Union>v \<in> A. vr_set v) = {0 ..< unat (vc_total_size c)}"
    "unat (vc_free_size c) = card (vma_free_set c)" "vc_alloc_block_cnt c = of_nat (card A)"
  using assms by (simp_all add: vma_state_def)

lemma total_lim: "unat (vc_total_size c) < 2 ^ 64"
  using unsigned_less [of "vc_total_size c", where ?'a = nat] by simp

lemma vr_set_card: "card (vr_set v) = unat (vr_size v)"
  by (simp add: vr_set_def vr_end_def)

lemma free_set_bound: "vma_state c A \<Longrightarrow> vma_free_set c \<subseteq> {0 ..< unat (vc_total_size c)}"
  using vma_stateD(8) by blast

lemma free_set_finite: "vma_state c A \<Longrightarrow> finite (vma_free_set c)"
  using finite_subset [OF free_set_bound] by blast

lemma vma_alloc_state:
  assumes rb: "vma_rb_ok rb" and inv: "vma_state c A"
  obtains (got) a c' where "vma_algo_alloc rb c n = (0, Some (a, ALIGN n XSMEM_VMA_ALIGN), c')" "0 < n" "n \<le> ALIGN n XSMEM_VMA_ALIGN"
      "vr_set (VR a (ALIGN n XSMEM_VMA_ALIGN)) \<subseteq> vma_free_set c" "vma_state c' (insert (VR a (ALIGN n XSMEM_VMA_ALIGN)) A)"
      "VR a (ALIGN n XSMEM_VMA_ALIGN) \<notin> A" "vma_free_set c' = vma_free_set c - vr_set (VR a (ALIGN n XSMEM_VMA_ALIGN))"
      "vc_total_size c' = vc_total_size c"
  | (err) ret where "vma_algo_alloc rb c n = (ret, None, c)" "ret \<noteq> 0"
proof -
  let ?r = "ALIGN n XSMEM_VMA_ALIGN"
  show ?thesis
  proof (cases "n = 0 \<or> ?r < n \<or> ?r > vc_free_size c \<or> find_first_proper_block (vc_root c) ?r = None")
    case True
    let ?ret = "if n = 0 then - EINVAL else if ?r < n then - EOVERFLOW else - ENOSPC"
    have "vma_algo_alloc rb c n = (?ret, None, c)"
      using True by (auto simp: vma_algo_alloc_def vma_alloc_block_def Let_def)
    then show ?thesis by (rule err) simp
  next
    case False
    then obtain b where f: "find_first_proper_block (vc_root c) ?r = Some b" by auto
    have n: "0 < n" "n \<le> ?r" "?r \<le> vc_free_size c" using False by (auto simp: word_neq_0_conv)
    then have r0: "0 < ?r" using less_le_trans by blast
    have I: "ranges_ok (unat (vc_total_size c)) (vma_ranges (vc_root c))" "max_sound (vc_root c)" using inv by (auto simp: vma_state_def)
    let ?v = "VR (vb_start b) ?r"
    obtain t where t: "vma_alloc_block rb (vc_root c) ?r = (0, Some (vb_start b), t)"
      "ranges_ok (unat (vc_total_size c)) (vma_ranges t)" "max_sound t" "vr_set ?v \<subseteq> vma_free_set c"
      "vr_union (vma_ranges t) = vma_free_set c - vr_set ?v"
      using alloc_block_ok [OF rb I(1) total_lim I(2) r0 f] by (metis vma_free_set_def)
    let ?c = "c\<lparr>vc_root := t, vc_free_size := vc_free_size c - ?r, vc_alloc_block_cnt := vc_alloc_block_cnt c + 1\<rparr>"
    have F: "vma_free_set ?c = vma_free_set c - vr_set ?v" using t(5) by (simp add: vma_free_set_def)
    have ne: "unat (vb_start b) \<in> vr_set ?v" using vr_size_pos [of ?v] r0 by (simp add: vr_set_iff)
    have nA: "?v \<notin> A" using vma_stateD(7) [OF inv, of ?v] t(4) ne by blast
    have disj: "vr_set w \<inter> vr_set ?v = {}" if "w \<in> A" for w using vma_stateD(7) [OF inv that] t(4) by blast
    have "vr_set ?v \<subseteq> {0 ..< unat (vc_total_size c)}" using t(4) free_set_bound [OF inv] by blast
    then have en: "vr_end ?v \<le> unat (vc_total_size c)"
      using vr_size_pos [of ?v] r0 by (auto simp: vr_set_def)
    have fs: "unat (vc_free_size c - ?r) = card (vma_free_set c - vr_set ?v)"
      using vma_stateD(9) [OF inv] n(3) card_Diff_subset [OF _ t(4)] vr_set_card [of ?v]
      by (simp add: unat_sub word_le_nat_alt vr_set_def)
    have "vma_state ?c (insert ?v A)"
      unfolding vma_state_def F
    proof (intro conjI)
      show "unat (vc_free_size ?c) = card (vma_free_set c - vr_set ?v)" using fs by simp
      show "vc_alloc_block_cnt ?c = of_nat (card (insert ?v A))" using vma_stateD(3,10) [OF inv] nA by simp
      have "vma_free_set c - vr_set ?v \<union> (vr_set ?v \<union> \<Union> (vr_set ` A)) = vma_free_set c \<union> \<Union> (vr_set ` A)"
        using t(4) by blast
      then show "vma_free_set c - vr_set ?v \<union> \<Union> (vr_set ` insert ?v A) = {0 ..< unat (vc_total_size ?c)}"
        using vma_stateD(8) [OF inv] by simp
      show "\<forall>v \<in> insert ?v A. \<forall>w \<in> insert ?v A. v \<noteq> w \<longrightarrow> vr_set v \<inter> vr_set w = {}"
        using vma_stateD(6) [OF inv] disj by (metis insert_iff inf_commute)
      show "\<forall>v \<in> insert ?v A. vr_set v \<inter> (vma_free_set c - vr_set ?v) = {}"
        using vma_stateD(7) [OF inv] by blast
      show "\<forall>v \<in> insert ?v A. 0 < vr_size v \<and> vr_end v \<le> unat (vc_total_size ?c)"
        using vma_stateD(4,5) [OF inv] en r0 by simp
    qed (use vma_stateD(3) [OF inv] t in auto)
    moreover have "vma_algo_alloc rb c n = (0, Some (vb_start b, ?r), ?c)"
      using False t(1) by (simp add: vma_algo_alloc_def Let_def)
    ultimately show ?thesis using n t(4) nA F by (intro got [of "vb_start b" ?c]) auto
  qed
qed

lemma vma_free_state:
  assumes rb: "vma_rb_ok rb" and inv: "vma_state c A" and v: "v \<in> A"
  obtains (freed) c' where "vma_algo_free rb mem c (vr_start v) (vr_size v) = (0, c')" "vma_state c' (A - {v})"
      "vma_free_set c' = vma_free_set c \<union> vr_set v" "vc_total_size c' = vc_total_size c"
  | (nomem) c' where "\<not> mem" "vma_algo_free rb mem c (vr_start v) (vr_size v) = (- ENOMEM, c')" "vc_root c' = vc_root c"
proof -
  have I: "ranges_ok (unat (vc_total_size c)) (vma_ranges (vc_root c))" "max_sound (vc_root c)"
    "0 < vr_size v" "unat (vr_start v) + unat (vr_size v) \<le> unat (vc_total_size c)"
    "vr_set (VR (vr_start v) (vr_size v)) \<inter> vr_union (vma_ranges (vc_root c)) = {}"
    using vma_stateD(1,2) [OF inv] vma_stateD(4,5,7) [OF inv v] by (simp_all add: vr_end_def vma_free_set_def)
  show ?thesis
  proof (rule free_block_ok [OF rb total_lim I(2,1,3,4,5), of mem])
    fix t assume t: "vma_free_block rb mem (vc_root c) (vr_start v) (vr_size v) = (0, t)"
      "ranges_ok (unat (vc_total_size c)) (vma_ranges t)" "max_sound t"
      "vr_union (vma_ranges t) = vr_union (vma_ranges (vc_root c)) \<union> vr_set (VR (vr_start v) (vr_size v))"
    let ?c = "c\<lparr>vc_root := t, vc_alloc_block_cnt := vc_alloc_block_cnt c - 1, vc_free_size := vc_free_size c + vr_size v\<rparr>"
    have F: "vma_free_set ?c = vma_free_set c \<union> vr_set v" using t(4) by (simp add: vma_free_set_def)
    have dis: "vma_free_set c \<inter> vr_set v = {}" using vma_stateD(7) [OF inv v] by blast
    have cardF: "card (vma_free_set c \<union> vr_set v) = card (vma_free_set c) + unat (vr_size v)"
      using card_Un_disjoint [OF free_set_finite [OF inv] _ dis] vr_set_card [of v] by (simp add: vr_set_def)
    have "vma_free_set c \<union> vr_set v \<subseteq> {0 ..< unat (vc_total_size c)}" using vma_stateD(8) [OF inv] v by blast
    then have "card (vma_free_set c \<union> vr_set v) \<le> unat (vc_total_size c)" by (metis card_atLeastLessThan card_mono diff_zero finite_atLeastLessThan)
    then have fs: "unat (vc_free_size c + vr_size v) = card (vma_free_set c \<union> vr_set v)"
      using vma_stateD(9) [OF inv] cardF total_lim [of c] word_add_no_wrap [of "vc_free_size c" "vr_size v"] by simp
    have cA: "card A = Suc (card (A - {v}))" using card_Suc_Diff1 [OF vma_stateD(3) [OF inv] v] by simp
    have "vma_state ?c (A - {v})"
      unfolding vma_state_def F
    proof (intro conjI)
      show "unat (vc_free_size ?c) = card (vma_free_set c \<union> vr_set v)" using fs by simp
      show "vc_alloc_block_cnt ?c = of_nat (card (A - {v}))" using vma_stateD(10) [OF inv] unfolding cA by simp
      have "vma_free_set c \<union> vr_set v \<union> \<Union> (vr_set ` (A - {v})) = vma_free_set c \<union> \<Union> (vr_set ` A)" using v by blast
      then show "vma_free_set c \<union> vr_set v \<union> \<Union> (vr_set ` (A - {v})) = {0 ..< unat (vc_total_size ?c)}"
        using vma_stateD(8) [OF inv] by simp
      show "\<forall>w \<in> A - {v}. vr_set w \<inter> (vma_free_set c \<union> vr_set v) = {}"
        using vma_stateD(6,7) [OF inv] v by (simp add: Int_Un_distrib)
      show "\<forall>x \<in> A - {v}. 0 < vr_size x \<and> vr_end x \<le> unat (vc_total_size ?c)" using vma_stateD(4,5) [OF inv] by simp
      show "\<forall>x \<in> A - {v}. \<forall>w \<in> A - {v}. x \<noteq> w \<longrightarrow> vr_set x \<inter> vr_set w = {}" using vma_stateD(6) [OF inv] by simp
    qed (use vma_stateD(3) [OF inv] t in auto)
    then show ?thesis using F t(1) by (intro freed [of ?c]) (simp_all add: vma_algo_free_def)
  next
    assume "\<not> mem" "vma_free_block rb mem (vc_root c) (vr_start v) (vr_size v) = (- ENOMEM, vc_root c)"
    then show ?thesis
      by (intro nomem [of "snd (vma_algo_free rb mem c (vr_start v) (vr_size v))"]) (simp_all add: vma_algo_free_def)
  qed
qed

section \<open>Runs\<close>

text \<open>A pool in use: clients return ranges they were given, each once, and memory does not run out.\<close>

inductive vma_reach :: "vma_rb \<Rightarrow> vma_ctrl \<Rightarrow> vrange set \<Rightarrow> bool" for rb where
  vr_create: "vma_inst_create True True pool_size = Some c \<Longrightarrow> vma_reach rb c {}"
| vr_alloc: "vma_reach rb c A \<Longrightarrow> vma_algo_alloc rb c n = (0, Some (a, sz), c') \<Longrightarrow> vma_reach rb c' (insert (VR a sz) A)"
| vr_alloc_fail: "vma_reach rb c A \<Longrightarrow> vma_algo_alloc rb c n = (ret, None, c') \<Longrightarrow> vma_reach rb c' A"
| vr_free: "vma_reach rb c A \<Longrightarrow> v \<in> A \<Longrightarrow> vma_algo_free rb True c (vr_start v) (vr_size v) = (ret, c') \<Longrightarrow>
    vma_reach rb c' (A - {v})"

lemma create_state:
  assumes "vma_inst_create cm bm pool_size = Some c"
  shows "vma_state c {}"
proof -
  have c: "c = \<lparr>vc_total_size = pool_size, vc_free_size = pool_size, vc_alloc_block_cnt = 0,
                 vc_root = Node Leaf \<lparr>vb_start = 0, vb_size = pool_size, vb_max = pool_size\<rparr> Leaf\<rparr>" "pool_size \<noteq> 0"
    using assms by (auto simp: vma_inst_create_def split: if_splits)
  then have "0 < pool_size" by (simp add: word_neq_0_conv)
  then show ?thesis unfolding c(1) vma_state_def vma_free_set_def
    by (simp add: ranges_ok_def vr_end_def vr_set_def vb_range_def compute_subtree_max_size_def)
qed

lemma vma_reach_state:
  assumes "vma_rb_ok rb" "vma_reach rb c A"
  shows "vma_state c A"
  using assms(2)
proof induction
  case (vr_create pool_size c)
  then show ?case by (rule create_state)
next
  case (vr_alloc c A n a sz c')
  show ?case by (rule vma_alloc_state [OF assms(1) vr_alloc.IH, of n]) (use vr_alloc.hyps in auto)
next
  case (vr_alloc_fail c A n ret c')
  show ?case by (rule vma_alloc_state [OF assms(1) vr_alloc_fail.IH, of n]) (use vr_alloc_fail in auto)
next
  case (vr_free c A v ret c')
  show ?case by (rule vma_free_state [OF assms(1) vr_free.IH vr_free.hyps(2), of True]) (use vr_free.hyps in auto)
qed

lemma single_range:
  assumes ok: "ranges_ok lim vs" and un: "vr_union vs = {0 ..< lim}" and lim: "0 < lim"
  shows "\<exists>v. vs = [v] \<and> vr_start v = 0 \<and> vr_end v = lim"
proof (cases vs)
  case Nil
  then show ?thesis using un lim by simp
next
  case (Cons v ws)
  have v: "0 < vr_size v" "vr_end v \<le> lim" "\<forall>w \<in> set ws. vr_end v < unat (vr_start w)"
    using ok Cons by (auto simp: ranges_simps)
  have "vr_end v \<notin> vr_union vs" using v(3) Cons by (fastforce simp: vr_union_def vr_set_iff)
  then have e: "vr_end v = lim" using un v(2) by auto
  have "ws = []"
  proof (rule ccontr)
    assume "ws \<noteq> []"
    then obtain w where w: "w \<in> set ws" by (cases ws) auto
    then have "vr_end w \<le> lim" "vr_end v < unat (vr_start w)" using ok Cons v(3) by (auto simp: ranges_ok_def)
    then show False using e start_less_end [of w] by simp
  qed
  moreover have "0 \<in> vr_set v" using un lim Cons \<open>ws = []\<close> by auto
  then have "vr_start v = 0" by (simp add: vr_set_iff word_unat_eq_iff)
  ultimately show ?thesis using Cons e by simp
qed

lemma inorder_single: "inorder t = [b] \<Longrightarrow> t = Node Leaf b Leaf"
  by (cases t) (auto simp: append_eq_Cons_conv inorder.simps)

section \<open>Demonstration data\<close>

text \<open>
  A concrete rebalancing: insertion without rotation (as the kernel does when recolouring is enough) and
  removal that joins the subtrees and computes every value again.
\<close>

fun max_recompute :: "vma_block tree \<Rightarrow> vma_block tree" where
  "max_recompute Leaf = Leaf"
| "max_recompute (Node l b r) =
     (let l' = max_recompute l; r' = max_recompute r
      in Node l' (b\<lparr>vb_max := compute_subtree_max_size l' b r'\<rparr>) r')"

fun vma_remove :: "u64 \<Rightarrow> vma_block tree \<Rightarrow> vma_block tree" where
  "vma_remove k Leaf = Leaf"
| "vma_remove k (Node l b r) =
     (if k < vb_start b then Node (vma_remove k l) b r
      else if vb_start b < k then Node l b (vma_remove k r)
      else tree_append l r)"

definition plain_vma_rb :: vma_rb where
  "plain_vma_rb = \<lparr>rb_insert_augmented = (\<lambda>t. t), rb_erase_augmented = (\<lambda>k t. max_recompute (vma_remove k t))\<rparr>"

lemma recompute_exact: "max_exact (max_recompute t)"
  by (induction t) (simp_all add: Let_def compute_subtree_max_size_def)

lemma recompute_ranges: "vma_ranges (max_recompute t) = vma_ranges t"
  by (induction t) (simp_all add: Let_def vb_range_def)

lemma remove_inorder:
  "sorted_wrt (<) (vma_starts t) \<Longrightarrow> inorder (vma_remove k t) = filter (\<lambda>b. vb_start b \<noteq> k) (inorder t)"
proof (induction t)
  case (Node l b r)
  have s: "sorted_wrt (<) (vma_starts l)" "sorted_wrt (<) (vma_starts r)"
    "\<forall>c \<in> set (inorder l). vb_start c < vb_start b" "\<forall>c \<in> set (inorder r). vb_start b < vb_start c"
    using Node.prems by (auto simp: sorted_wrt_append)
  have "filter (\<lambda>b. vb_start b \<noteq> k) (inorder l) = inorder l" if "\<not> k < vb_start b"
    using s(3) that by (auto simp: filter_id_conv)
  moreover have "filter (\<lambda>b. vb_start b \<noteq> k) (inorder r) = inorder r" if "\<not> vb_start b < k"
    using s(4) that by (auto simp: filter_id_conv)
  ultimately show ?case using Node.IH s(1,2) by auto
qed simp

lemma plain_vma_rb_ok: "vma_rb_ok plain_vma_rb"
proof -
  have "vma_ranges (max_recompute (vma_remove k t)) = filter (\<lambda>v. vr_start v \<noteq> k) (vma_ranges t)"
    if "sorted_wrt (<) (vma_starts t)" for k t
    unfolding recompute_ranges remove_inorder [OF that] by (simp add: filter_map comp_def)
  then show ?thesis
    unfolding vma_rb_ok_def plain_vma_rb_def using max_exact_sound [OF recompute_exact] by simp
qed

text \<open>
  Runs of a pool: \<open>Inl n\<close> allocates \<open>n\<close> bytes, \<open>Inr v\<close> returns a range that is held. The last one has eleven pages; it is
  allocated in eight blocks, and of those three are returned.
\<close>

fun demo_vma_run :: "(u64 + vrange) list \<Rightarrow> vma_ctrl \<times> vrange list \<Rightarrow> (vma_ctrl \<times> vrange list) option" where
  "demo_vma_run [] s = Some s"
| "demo_vma_run (Inl n # ops) (c, vs) =
     (case vma_algo_alloc plain_vma_rb c n of
        (ret, Some (a, sz), c') \<Rightarrow> if ret = 0 then demo_vma_run ops (c', VR a sz # vs) else None
      | (ret, None, c') \<Rightarrow> None)"
| "demo_vma_run (Inr v # ops) (c, vs) =
     (if v \<in> set vs
      then demo_vma_run ops (snd (vma_algo_free plain_vma_rb True c (vr_start v) (vr_size v)), filter (\<lambda>w. w \<noteq> v) vs)
      else None)"

lemma demo_vma_run_reach:
  "demo_vma_run ops (c, vs) = Some (c', vs') \<Longrightarrow> vma_reach plain_vma_rb c (set vs) \<Longrightarrow> vma_reach plain_vma_rb c' (set vs')"
proof (induction ops "(c, vs)" arbitrary: c vs rule: demo_vma_run.induct)
  case (2 n ops c vs)
  obtain a sz c1 where 1: "vma_algo_alloc plain_vma_rb c n = (0, Some (a, sz), c1)"
    "demo_vma_run ops (c1, VR a sz # vs) = Some (c', vs')"
    using 2(2) by (auto split: prod.splits option.splits if_splits)
  have "vma_reach plain_vma_rb c1 (set (VR a sz # vs))" using vr_alloc [OF 2(3) 1(1)] by simp
  with 2(1) 1 show ?case by simp
next
  case (3 v ops c vs)
  have v: "v \<in> set vs" using 3(2) by (auto split: if_splits)
  have "vma_reach plain_vma_rb (snd (vma_algo_free plain_vma_rb True c (vr_start v) (vr_size v))) (set vs - {v})"
    by (rule vr_free [OF 3(3) v]) (rule prod.collapse [symmetric])
  moreover have "set (filter (\<lambda>w. w \<noteq> v) vs) = set vs - {v}" by auto
  ultimately show ?case using 3(1,2) v by simp
qed simp

definition demo_vma_holes :: "vma_ctrl \<times> vrange list" where
  "demo_vma_holes = the (demo_vma_run
     (map (\<lambda>n. Inl (n * 4096)) [4, 1, 1, 1, 1, 1, 1, 1] @ map (\<lambda>p. Inr (VR (p * 4096) 4096)) [7, 5, 9])
     (the (vma_inst_create True True (11 * 4096)), []))"

definition demo_vma_new :: vma_ctrl where
  "demo_vma_new = the (vma_inst_create True True 8192)"

lemma demo_vma_create: "vma_inst_create True True 8192 = Some demo_vma_new"
  by (simp add: demo_vma_new_def vma_inst_create_def IS_ALIGNED_def)

lemma demo_vma_reach: "vma_reach rb demo_vma_new {}"
  by (rule vr_create [OF demo_vma_create])

definition demo_vma_one :: vma_ctrl where
  "demo_vma_one = snd (snd (vma_algo_alloc plain_vma_rb demo_vma_new 4096))"

lemma demo_vma_one_alloc: "vma_algo_alloc plain_vma_rb demo_vma_new 4096 = (0, Some (0, 4096), demo_vma_one)"
proof -
  have "fst (vma_algo_alloc plain_vma_rb demo_vma_new 4096) = 0 \<and> fst (snd (vma_algo_alloc plain_vma_rb demo_vma_new 4096)) = Some (0, 4096)"
    by code_simp
  then show ?thesis by (simp add: demo_vma_one_def prod_eq_iff)
qed

lemma demo_vma_one_reach: "vma_reach plain_vma_rb demo_vma_one {VR 0 4096}"
  by (rule vr_alloc [OF demo_vma_reach demo_vma_one_alloc])

lemma alloc_error_cases:
  assumes "vma_algo_alloc rb c n = (ret, None, c')"
  shows "ret = (if n = 0 then - EINVAL else if 2 ^ 64 \<le> unat n + 4095 then - EOVERFLOW else - ENOSPC)"
proof -
  have "ALIGN n XSMEM_VMA_ALIGN < n \<longleftrightarrow> 2 ^ 64 \<le> unat n + 4095"
    using align_cases [of n] by (metis linorder_not_less)
  then show ?thesis
    using assms by (auto simp: vma_algo_alloc_def vma_alloc_block_def Let_def split: if_splits option.splits)
qed

section \<open>Properties\<close>

text \<open>
  C35. At every moment of a pool's life, the ranges clients hold and the free blocks partition the pool:
  no two of them overlap, no byte is lost, the free blocks are ordered with a gap between neighbours (so
  neighbours are always merged), and both counters are exact.
\<close>

theorem vma_reach_partition:
  assumes "vma_rb_ok rb" "vma_reach rb c A"
  shows "vma_free_set c \<union> (\<Union>v \<in> A. vr_set v) = {0 ..< unat (vc_total_size c)} \<and>
    (\<forall>v \<in> A. vr_set v \<inter> vma_free_set c = {}) \<and>
    (\<forall>v \<in> A. \<forall>w \<in> A. v \<noteq> w \<longrightarrow> vr_set v \<inter> vr_set w = {}) \<and>
    ranges_ok (unat (vc_total_size c)) (vma_ranges (vc_root c)) \<and>
    unat (vc_free_size c) = card (vma_free_set c) \<and> vc_alloc_block_cnt c = of_nat (card A)"
  using vma_reach_state [OF assms] by (simp add: vma_state_def)

theorem vma_reach_partition_witness:
  "vma_free_set demo_vma_one \<union> vr_set (VR 0 4096) = {0 ..< unat (vc_total_size demo_vma_one)} \<and>
   vr_set (VR 0 4096) \<inter> vma_free_set demo_vma_one = {} \<and> vc_alloc_block_cnt demo_vma_one = 1"
  using vma_reach_partition [OF plain_vma_rb_ok demo_vma_one_reach] by simp

text \<open>
  C36. Every outcome of an allocation. On success the size is the requested one rounded up to whole pages,
  and the range was free, overlaps none that a client holds and is no longer free. Otherwise the pool is
  as before and the error tells why: an empty request, a request whose rounding overflows, or no space.
\<close>

theorem vma_alloc_spec:
  assumes "vma_rb_ok rb" "vma_reach rb c A"
  shows "case vma_algo_alloc rb c n of
      (ret, Some (a, sz), c') \<Rightarrow>
        ret = 0 \<and> 0 < n \<and> unat sz = (unat n + 4095) div 4096 * 4096 \<and> vr_set (VR a sz) \<subseteq> vma_free_set c \<and>
        (\<Union>v \<in> A. vr_set v) \<inter> vr_set (VR a sz) = {} \<and> vma_free_set c' = vma_free_set c - vr_set (VR a sz)
    | (ret, None, c') \<Rightarrow>
        c' = c \<and> ret = (if n = 0 then - EINVAL else if 2 ^ 64 \<le> unat n + 4095 then - EOVERFLOW else - ENOSPC)"
proof (rule vma_alloc_state [OF assms(1) vma_reach_state [OF assms], of n])
  let ?r = "ALIGN n XSMEM_VMA_ALIGN"
  fix a c'
  assume a: "vma_algo_alloc rb c n = (0, Some (a, ?r), c')" "0 < n" "n \<le> ?r" "vr_set (VR a ?r) \<subseteq> vma_free_set c"
    "vma_free_set c' = vma_free_set c - vr_set (VR a ?r)"
  have "unat n + 4095 < 2 ^ 64" using a(3) align_cases(2) [of n] by (metis linorder_not_less)
  then have "unat ?r = (unat n + 4095) div 4096 * 4096" using align_cases(1) by blast
  moreover have "(\<Union>v \<in> A. vr_set v) \<inter> vr_set (VR a ?r) = {}"
    using vma_stateD(7) [OF vma_reach_state [OF assms]] a(4) by blast
  ultimately show ?thesis using a by simp
next
  fix ret assume "vma_algo_alloc rb c n = (ret, None, c)" "ret \<noteq> 0"
  then show ?thesis using alloc_error_cases by fastforce
qed

theorem vma_alloc_spec_witness:
  "vma_free_set demo_vma_one = vma_free_set demo_vma_new - vr_set (VR 0 4096)"
  using vma_alloc_spec [OF plain_vma_rb_ok demo_vma_reach, of 4096] demo_vma_one_alloc by simp

text \<open>
  C37. Round trip: returning a range that was just allocated succeeds and gives back the free space, the
  free size and the block count the pool had before.
\<close>

theorem vma_alloc_free_roundtrip:
  assumes "vma_rb_ok rb" "vma_reach rb c A" "vma_algo_alloc rb c n = (0, Some (a, sz), c')"
  shows "\<exists>c''. vma_algo_free rb True c' a sz = (0, c'') \<and> vma_free_set c'' = vma_free_set c \<and>
    vc_free_size c'' = vc_free_size c \<and> vc_alloc_block_cnt c'' = vc_alloc_block_cnt c"
proof (rule vma_alloc_state [OF assms(1) vma_reach_state [OF assms(1,2)], of n])
  let ?r = "ALIGN n XSMEM_VMA_ALIGN"
  fix b d
  assume b: "vma_algo_alloc rb c n = (0, Some (b, ?r), d)" "vr_set (VR b ?r) \<subseteq> vma_free_set c"
    "vma_state d (insert (VR b ?r) A)" "VR b ?r \<notin> A" "vma_free_set d = vma_free_set c - vr_set (VR b ?r)"
  have e: "a = b" "sz = ?r" "c' = d" using b(1) assms(3) by auto
  show ?thesis
  proof (rule vma_free_state [OF assms(1) b(3) insertI1, of True])
    fix c'' assume f: "vma_algo_free rb True d (vr_start (VR b ?r)) (vr_size (VR b ?r)) = (0, c'')"
      "vma_state c'' (insert (VR b ?r) A - {VR b ?r})" "vma_free_set c'' = vma_free_set d \<union> vr_set (VR b ?r)"
    have A: "vma_state c'' A" using f(2) b(4) by simp
    have s: "vma_free_set c'' = vma_free_set c" using f(3) b(2,5) by blast
    have "vc_free_size c'' = vc_free_size c"
      using vma_stateD(9) [OF A] vma_stateD(9) [OF vma_reach_state [OF assms(1,2)]] s by (simp add: word_unat_eq_iff)
    then show ?thesis
      using f(1) s e vma_stateD(10) [OF A] vma_stateD(10) [OF vma_reach_state [OF assms(1,2)]] by auto
  qed simp
qed (use assms(3) in simp)

theorem vma_alloc_free_roundtrip_witness:
  "\<exists>c''. vma_algo_free plain_vma_rb True demo_vma_one 0 4096 = (0, c'') \<and> vma_free_set c'' = vma_free_set demo_vma_new"
  using vma_alloc_free_roundtrip [OF plain_vma_rb_ok demo_vma_reach demo_vma_one_alloc] by blast

text \<open>
  When clients have returned every range, in whatever order, the pool is again a single free block that
  spans it; destroying it gives neither of the warnings about sizes and leaks no block.
\<close>

theorem vma_all_freed:
  assumes "vma_rb_ok rb" "vma_reach rb c {}" "0 < vc_total_size c"
  shows "\<exists>b. vc_root c = Node Leaf b Leaf \<and> vb_start b = 0 \<and> vb_size b = vc_total_size c \<and>
    vc_free_size c = vc_total_size c \<and> vc_alloc_block_cnt c = 0 \<and>
    (\<exists>w. vma_inst_destroy c = Some ((False, False, w), []))"
proof -
  note S = vma_reach_state [OF assms(1,2)]
  have un: "vr_union (vma_ranges (vc_root c)) = {0 ..< unat (vc_total_size c)}"
    using vma_stateD(8) [OF S] by (simp add: vma_free_set_def)
  obtain v where v: "vma_ranges (vc_root c) = [v]" "vr_start v = 0" "vr_end v = unat (vc_total_size c)"
    using single_range [OF vma_stateD(1) [OF S] un] assms(3) unfolding word_less_nat_alt by auto
  then obtain b where io: "inorder (vc_root c) = [b]" and vb: "v = vb_range b" by (auto simp: map_eq_Cons_conv)
  note b = inorder_single [OF io]
  have "unat (vc_free_size c) = unat (vc_total_size c)"
    using vma_stateD(9) [OF S] un by (simp add: vma_free_set_def)
  then have "vc_free_size c = vc_total_size c" by (simp add: word_unat_eq_iff)
  moreover have "vb_start b = 0" using v(2) vb by simp
  moreover from this have "unat (vb_size b) = unat (vc_total_size c)" using v(3) vb by (simp add: vr_end_def)
  then have "vb_size b = vc_total_size c" by (simp only: word_unat_eq_iff)
  ultimately show ?thesis using b vma_stateD(10) [OF S] by (simp add: vma_inst_destroy_def)
qed

theorem vma_all_freed_witness:
  "\<exists>b. vc_root demo_vma_new = Node Leaf b Leaf \<and> vb_size b = 8192 \<and> (\<exists>w. vma_inst_destroy demo_vma_new = Some ((False, False, w), []))"
  using vma_all_freed [OF plain_vma_rb_ok demo_vma_reach]
  by (auto simp: demo_vma_new_def vma_inst_create_def IS_ALIGNED_def)

text \<open>
  C38. With exact augmented values, the logarithmic descent finds what a scan of all free blocks in order of
  their start finds: the first block that is large enough, and none exactly when there is none.
\<close>

theorem vma_find_first_fit:
  assumes "max_exact t" "0 < sz"
  shows "find_first_proper_block t sz = List.find (\<lambda>b. sz \<le> vb_size b) (inorder t)"
  using assms(1)
proof (induction t)
  case (Node l b r)
  let ?P = "\<lambda>b. sz \<le> vb_size b"
  have none: "filter ?P (inorder u) = []" if "max_exact u" "\<not> sz \<le> subtree_max_size u" for u
    using exact_max_less [OF that] by (simp add: filter_empty_conv)
  have some: "filter ?P (inorder l) \<noteq> []" if "sz \<le> subtree_max_size l"
    using find_no_dead_end [OF max_exact_sound assms(2) that] Node find_sound
    by (fastforce simp: filter_empty_conv)
  show ?case using Node none [of l] none [of r] some by (auto simp: find_filter split: list.splits)
qed simp

theorem vma_find_first_fit_witness:
  "find_first_proper_block (vc_root demo_vma_one) 4096 = List.find (\<lambda>b. 4096 \<le> vb_size b) (inorder (vc_root demo_vma_one))"
proof -
  have "max_exact (vc_root demo_vma_one)" by code_simp
  then show ?thesis by (rule vma_find_first_fit) simp
qed

text \<open>
  C39. The augmented values are not always exact: \<^verbatim>\<open>vma_free_block\<close> links a new block without raising the
  values above it. In any reachable pool, let all free blocks be too small for a request, and let a client return a range that is
  large enough, touches no free block and is linked below a child of the root, where rebalancing, if there is any, leaves
  the root alone. Then the range is returned and is a free block, enough is free, and still the request is refused with -ENOSPC.
\<close>

theorem vma_large_block_missed:
  assumes "vma_rb_ok rb" "vma_reach rb c A" "v \<in> A" "vc_root c = Node l b r"
    and "0 < n" "n \<le> ALIGN n XSMEM_VMA_ALIGN" "ALIGN n XSMEM_VMA_ALIGN \<le> vr_size v"
    and "\<forall>x \<in> set (inorder (vc_root c)). vb_size x < ALIGN n XSMEM_VMA_ALIGN \<and>
           vb_start x + vb_size x \<noteq> vr_start v \<and> vr_start v + vr_size v \<noteq> vb_start x"
    and "(if vr_start v < vb_start b then l else r) \<noteq> Leaf"
    and "rot_below_root (vma_link \<lparr>vb_start = vr_start v, vb_size = vr_size v, vb_max = vr_size v\<rparr> (vc_root c))
           (rb_insert_augmented rb (vma_link \<lparr>vb_start = vr_start v, vb_size = vr_size v, vb_max = vr_size v\<rparr> (vc_root c)))"
  shows "\<exists>c'. vma_algo_free rb True c (vr_start v) (vr_size v) = (0, c') \<and>
    v \<in> set (map vb_range (inorder (vc_root c'))) \<and> ALIGN n XSMEM_VMA_ALIGN \<le> vc_free_size c' \<and>
    vma_algo_alloc rb c' n = (- ENOSPC, None, c')"
proof -
  have inv: "vma_state c A" by (rule vma_reach_state [OF assms(1,2)])
  have I: "ranges_ok (unat (vc_total_size c)) (vma_ranges (vc_root c))" "max_sound (vc_root c)"
    "0 < vr_size v" "unat (vr_start v) + unat (vr_size v) \<le> unat (vc_total_size c)"
    "vr_set (VR (vr_start v) (vr_size v)) \<inter> vr_union (vma_ranges (vc_root c)) = {}"
    using vma_stateD(1,2) [OF inv] vma_stateD(4,5,7) [OF inv assms(3)] by (simp_all add: vr_end_def vma_free_set_def)
  let ?n = "\<lparr>vb_start = vr_start v, vb_size = vr_size v, vb_max = vr_size v\<rparr>"
  let ?t = "rb_insert_augmented rb (vma_link ?n (vc_root c))"
  have apart: "\<forall>x \<in> set (inorder (vc_root c)). vb_start x + vb_size x \<noteq> vr_start v \<and> vr_start v + vr_size v \<noteq> vb_start x"
    using assms(8) by blast
  note f = free_links [OF I(1) total_lim I(3,4,5) apart]
  obtain c' where c': "vma_algo_free rb True c (vr_start v) (vr_size v) = (0, c')" "vc_root c' = ?t"
    using f(1) [of rb] by (simp add: vma_algo_free_def)
  have st: "vma_state c' (A - {v})"
    by (rule vma_free_state [OF assms(1) inv assms(3), of True]) (use c'(1) in auto)
  have "vma_ranges ?t = vma_ranges (vma_link ?n (vc_root c))"
    using insert_aug_ok [OF assms(1)] link_sound [OF I(2), of ?n] by simp
  then have blk: "v \<in> set (map vb_range (inorder (vc_root c')))"
    using imageI [OF f(3), of vb_range] by (simp add: c'(2) vb_range_def)
  have "vr_set v \<subseteq> vma_free_set c'" using blk by (auto simp: vma_free_set_def vr_union_def)
  then have "card (vr_set v) \<le> card (vma_free_set c')" by (rule card_mono [OF free_set_finite [OF st]])
  then have "unat (vr_size v) \<le> unat (vc_free_size c')" using vr_set_card [of v] vma_stateD(9) [OF st] by simp
  then have free: "ALIGN n XSMEM_VMA_ALIGN \<le> vc_free_size c'" using assms(7) by (simp add: word_le_nat_alt)
  have "0 < ALIGN n XSMEM_VMA_ALIGN" using assms(5,6) by (rule less_le_trans)
  then have "find_first_proper_block ?t (ALIGN n XSMEM_VMA_ALIGN) = None"
    using linked_block_unseen [of l b r "ALIGN n XSMEM_VMA_ALIGN" ?n ?t] I(2) assms(4,8,9,10) by simp
  moreover have "n \<noteq> 0" using assms(5) by auto
  ultimately have "vma_algo_alloc rb c' n = (- ENOSPC, None, c')"
    using assms(6) free c'(2) by (simp add: vma_algo_alloc_def vma_alloc_block_def Let_def not_less)
  with c'(1) blk free show ?thesis by blast
qed

text \<open>The range of four pages at the start of the pool is returned, and a request for two pages fails.\<close>

lemma demo_vma_holes_reach: "vma_reach plain_vma_rb (fst demo_vma_holes) (set (snd demo_vma_holes))"
proof -
  let ?ops = "map (\<lambda>n. Inl (n * 4096)) [4, 1, 1, 1, 1, 1, 1, 1] @ map (\<lambda>p. Inr (VR (p * 4096) 4096)) [7, 5, 9] :: (u64 + vrange) list"
  have "vma_inst_create True True (11 * 4096) \<noteq> None" by code_simp
  then have "vma_reach plain_vma_rb (the (vma_inst_create True True (11 * 4096))) (set [])" using vr_create by fastforce
  moreover have "demo_vma_run ?ops (the (vma_inst_create True True (11 * 4096)), []) \<noteq> None" by code_simp
  then have "demo_vma_run ?ops (the (vma_inst_create True True (11 * 4096)), []) = Some (fst demo_vma_holes, snd demo_vma_holes)"
    by (simp add: demo_vma_holes_def)
  ultimately show ?thesis by (metis demo_vma_run_reach)
qed

theorem vma_large_block_missed_witness:
  "\<exists>c'. vma_algo_free plain_vma_rb True (fst demo_vma_holes) 0 16384 = (0, c') \<and>
    VR 0 16384 \<in> set (map vb_range (inorder (vc_root c'))) \<and> 8192 \<le> vc_free_size c' \<and>
    vma_algo_alloc plain_vma_rb c' 8192 = (- ENOSPC, None, c')"
proof -
  let ?b = "\<lambda>p. \<lparr>vb_start = p * 4096, vb_size = 4096, vb_max = 4096\<rparr> :: vma_block"
  have root: "vc_root (fst demo_vma_holes) = Node (Node Leaf (?b 5) Leaf) (?b 7) (Node Leaf (?b 9) Leaf)" by code_simp
  have held: "VR 0 16384 \<in> set (snd demo_vma_holes)" by code_simp
  have al: "ALIGN 8192 XSMEM_VMA_ALIGN = 8192" by code_simp
  have req: "0 < (8192 :: u64)" "8192 \<le> ALIGN 8192 XSMEM_VMA_ALIGN" "ALIGN 8192 XSMEM_VMA_ALIGN \<le> vr_size (VR 0 16384)"
    by (simp_all add: al)
  have blocks: "\<forall>x \<in> set (inorder (vc_root (fst demo_vma_holes))). vb_size x < ALIGN 8192 XSMEM_VMA_ALIGN \<and>
      vb_start x + vb_size x \<noteq> vr_start (VR 0 16384) \<and> vr_start (VR 0 16384) + vr_size (VR 0 16384) \<noteq> vb_start x"
    by (simp add: root al)
  have side: "(if vr_start (VR 0 16384) < vb_start (?b 7) then Node Leaf (?b 5) Leaf else Node Leaf (?b 9) Leaf) \<noteq> Leaf" by simp
  have rot: "rot_below_root (vma_link n (vc_root (fst demo_vma_holes)))
      (rb_insert_augmented plain_vma_rb (vma_link n (vc_root (fst demo_vma_holes))))" for n
    unfolding root rot_below_root_def plain_vma_rb_def by auto
  show ?thesis
    using vma_large_block_missed [OF plain_vma_rb_ok demo_vma_holes_reach held root req blocks side rot] by (simp only: vrange.sel al)
qed

text \<open>
  C40. Returning a range whose start is the start of a free block is refused and changes no block, but the
  counters move as if the range had been returned: after a refused double free the free size is larger than
  the free space.
\<close>

theorem vma_double_free:
  assumes "vma_rb_ok rb" "vma_reach rb c A" "b \<in> set (inorder (vc_root c))"
  shows "vma_algo_free rb mem c (vb_start b) sz =
    (- EFAULT, c\<lparr>vc_alloc_block_cnt := vc_alloc_block_cnt c - 1, vc_free_size := vc_free_size c + sz\<rparr>)"
proof -
  have "vma_locate (vb_start b) (vc_root c) None = None"
    using locate_None [OF ranges_ok_starts [OF vma_stateD(1) [OF vma_reach_state [OF assms(1,2)]]]] assms(3) by simp
  then show ?thesis by (simp add: vma_algo_free_def vma_free_block_def)
qed

theorem vma_double_free_witness:
  "vma_algo_free plain_vma_rb True demo_vma_new 0 4096 =
    (- EFAULT, demo_vma_new\<lparr>vc_alloc_block_cnt := vc_alloc_block_cnt demo_vma_new - 1,
       vc_free_size := vc_free_size demo_vma_new + 4096\<rparr>)"
  using vma_double_free [OF plain_vma_rb_ok demo_vma_reach,
      of "\<lparr>vb_start = 0, vb_size = 8192, vb_max = 8192\<rparr>" True 4096]
  by (simp add: demo_vma_new_def vma_inst_create_def IS_ALIGNED_def)

end
