(* ===== verification/Spec2Isabelle.thy ===== *)
theory Spec2Isabelle
  imports Shr_Event Logic_Reach Vma_Algo
begin

text \<open>
  \<^bold>\<open>Resource management of the NPU driver.\<close>

  The repository builds the kernel of a board with an NPU. Its own logic is the driver under
  \<^verbatim>\<open>src/driver/drivers/ai_sdk/arc/linux/kernel_space/src\<close>; all source paths below are relative to that
  directory. This development covers the part that decides who owns what: the task resource scheduler
  (\<^verbatim>\<open>rms/trs_drv\<close>), which hands out the ids of streams, events, notifies, models and queues of the
  hardware and lets processes share them, and the range allocator of the shared memory pools (\<^verbatim>\<open>xsmem\<close>). A mistake there gives one
  hardware object to two processes, or loses it until the next reset.

  \<^bold>\<open>The parts, from the bottom up.\<close>

  \<^item> \<^verbatim>\<open>rms/trs_drv/id_pool/id_pool.c\<close>, theory \<open>Id_Pool\<close>. Per device, sub-device and type, a red-black tree of
    disjoint id ranges, each with a kernel \<^verbatim>\<open>idr\<close> of the ids in use. \<open>id_pools\<close> is the global table;
    \<open>id_pool_register\<close>, \<open>id_pool_alloc\<close>, \<open>id_pool_alloc_by_range\<close>, \<open>id_pool_free\<close> and the others are its exported
    functions. Shown: the invariant of every reachable table, freshness and completeness of allocation,
    exact counts, inverse of allocation and release, and the end of module exit.
  \<^item> \<^verbatim>\<open>rms/trs_drv/id_allocator/trs_id.c\<close>, theory \<open>Trs_Id\<close>. The allocator with a cache of free ids on top of
    callbacks (\<open>trs_id_ops\<close>), with reference counted pool objects in an explicit heap (\<open>trs_ids\<close>), so that a use
    after free is the outcome \<open>None\<close>. Its interface to the callbacks is the locale \<open>id_backend\<close>. Shown: no
    interleaving touches a freed pool, local pools neither lose nor duplicate an id, the batch return loop
    ends and equals its specification, the order of reuse, and the bounds of the table index.
  \<^item> \<^verbatim>\<open>rms/trs_drv/lba/local/sia/adapt/trs_device_id.c\<close>, theory \<open>Trs_Device_Id\<close>. The adapter that implements the
    callbacks over the id pools, and interprets \<open>id_backend\<close> on them: the composed allocator never hands out
    an id twice.
  \<^item> \<^verbatim>\<open>rms/trs_drv/trs_core/trs_proc.c\<close>, theory \<open>Trs_Proc\<close>. The processes and the ownership tables: which process
    owns an id and how many references it has.
  \<^item> \<^verbatim>\<open>rms/trs_drv/trs_core/trs_res_mng.c\<close> with the ioctl of \<^verbatim>\<open>trs_fops.c\<close>, theory \<open>Trs_Res_Mng\<close>. Allocation,
    release, sharing, configuration and recycling of resource ids over the locale \<open>id_source\<close>, which is what
    it needs of an allocator; \<open>res_reach\<close> is the transition system of all processes of an instance.
  \<^item> Theory \<open>Trs_Device_Res\<close> interprets \<open>id_source\<close> on the allocator over the device adapter over the id pools, and
    states the properties of the whole stack: exact reference counts, an id with references is never back in
    the allocator, allocation returns an id nobody uses, and recycling of a process is complete.
  \<^item> \<^verbatim>\<open>rms/trs_drv/shr_id\<close>, theories \<open>Shr_Name\<close>, \<open>Shr_Node\<close>, \<open>Shr_Node_Refs\<close>, \<open>Shr_Id\<close> and \<open>Shr_Runs\<close>. A process gives an event or
    notify that it owns a name, puts other processes on its white list, and they open it by name.
    \<open>Shr_Name\<close>: the names, their hash, and reading a name back with the parser of \<^verbatim>\<open>libc_sec\<close>.
    \<open>Shr_Node\<close> is \<^verbatim>\<open>trs_shr_id_node.c\<close>: the hash table of reference counted nodes (\<open>shr_htable\<close>), with the map from type
    and name to nodes that it represents (\<open>nodes\<close>). \<open>Shr_Node_Refs\<close>: the effect of every operation on that map and on
    the references on resource ids, over the locale \<open>id_refs\<close>, which is what the module needs of the resource
    manager. \<open>Shr_Id\<close> is \<^verbatim>\<open>trs_shr_id.c\<close> and \<^verbatim>\<open>trs_shr_id_fops.c\<close>: the contexts of the processes, the five ioctls, and the
    release of a file. \<open>Shr_Runs\<close>: contexts and nodes agree in every state that file operations of any
    processes reach (\<open>shr_reach\<close>), no operation touches a freed node, and recycling is complete.
  \<^item> Theory \<open>Shr_Device\<close> interprets \<open>id_refs\<close> on the ownership tables of events and notifies over the allocator over
    the id pools, and states the properties of sharing for that stack: a shared id stays allocated, counters
    are exact, a release is complete, ioctls of one process leave the others alone, and only authorised
    processes open a node. \<open>Shr_Event\<close> adds \<^verbatim>\<open>trs_shr_id_event_update.c\<close>, the messages that ask for the address of the
    register behind an id: the one to configure is answered only for a process that created the node or has it open, the one
    to deconfigure for any process and any id, since the code does not check it.
  \<^item> \<^verbatim>\<open>rms/trs_drv/trs_core/trs_logic_cq.c\<close>, theories \<open>Logic_Cq\<close> to \<open>Logic_Reach\<close>. The logic completion queues: rings of entries in
    memory of the kernel, filled by interrupts and emptied by receivers that take only entries for their stream and
    task, so that holes in the middle have to be closed. \<open>Logic_Cq\<close> is the single queue over a memory of
    bytes. \<open>Logic_Ring\<close> relates that memory to the list of entries that it holds. \<open>Classed_Queue\<close> is the interface of a queue
    whose items fall into classes, as a locale; \<open>Logic_Fifo\<close> interprets it on the queues and on arrays of them: no
    completion is lost, duplicated or reordered within its class. \<open>Logic_Race\<close>: the receive in small steps, with
    enqueues between any two of them; it takes effect when it reads the tail. \<open>Logic_Recv\<close>: what one receive takes, when it returns, and that it never does when the user buffer faults.
    \<open>Logic_Mng\<close> is the management of the queues of an instance: allocation, release, recycling, interrupts of single
    queues, the physical queue, start and end. \<open>Logic_Inv\<close> shows its operations correct over the locale \<open>logic_source\<close>, an
    extension of \<open>id_source\<close>; \<open>Logic_Reach\<close> interprets it on the local id pools of \<open>Trs_Id\<close>, defines the transition system of all
    processes (\<open>logic_reach\<close>), and states what holds in all its states: a queue is in use exactly while its id
    is owned and allocated, an allocation gives a fresh queue to the caller alone or changes nothing in use, and
    a released queue is out of reach.
  \<^item> \<^verbatim>\<open>xsmem/dc/xsmem_algo_vma.c\<close>, theory \<open>Vma_Algo\<close>. The first-fit allocator of address ranges over a red-black
    tree augmented with subtree maxima. Shown: free blocks and held ranges partition the pool, every outcome
    of allocation, round trip, and that the search is first fit while the maxima are exact; and when the
    code leaves them stale, so that a block that is large enough is not found, for every rebalancing (\<open>plain_vma_rb\<close> is only for the
    witnesses).

  \<^bold>\<open>Conventions.\<close> A C integer type is a word of its width or, for \<^verbatim>\<open>int\<close>, an \<open>int\<close> with \<open>i32\<close> where it can wrap; a return
  code is an \<open>int\<close>, an error a negated number; a NULL pointer is \<open>None\<close>. \<open>None\<close> as the result of an operation is
  undefined behaviour of the C code: an access outside an array or through a freed object. The outcome of
  each memory allocation and of \<^verbatim>\<open>try_module_get\<close> is an argument, so that every error path is a branch.
  Operations under one lock are one step; runs of several processes are sequences of such steps. A receive from a logic queue
  and the enqueues take different locks; \<open>Logic_Race\<close> breaks the receive up into its accesses and shows that it may be one step.
  \<^verbatim>\<open>PAGE_SIZE\<close> is 4096.

  \<^bold>\<open>Parameters.\<close> Code outside the repository is an argument with its documented behaviour as a named
  hypothesis: the kernel's red-black tree (\<open>rb_ops\<close> with \<open>rb_ok\<close>, \<open>vma_rb\<close>), its \<^verbatim>\<open>idr_alloc\<close> (\<open>idr_ok\<close>), the
  synchronisation callback of the id pools (\<open>sync_ok\<close>), the callbacks of the chip adapters
  (\<open>trs_core_adapt_ops\<close>), the mapping of process ids to the host, the kernel's \<^verbatim>\<open>hash_min\<close> (any function), and the
  topology and chip numbers of devices. The witnesses instantiate all of them
  with concrete functions. For the logic queues also \<^verbatim>\<open>copy_to_user\<close>, \<^verbatim>\<open>schedule_timeout\<close>, pending signals and the other threads
  (\<open>lq_env\<close>), the channel layer (\<open>trs_chan_ops\<close>) and \<^verbatim>\<open>request_irq\<close>.

  \<^bold>\<open>Loops and bounds.\<close> Loops over lists, trees and types are structural; the loops that take ids from a cache are
  \<open>function\<close>s with a termination proof. The waiting loops keep the bounds of the code, 100 attempts for the exit
  of a process, 300 for the task scheduler and 400 for the exit of a process that shares ids. A reference count
  is an \<^verbatim>\<open>int\<close>; runs assume that fewer than \<open>INT_MAX\<close> users hold one id, which the code does not check. A process
  id is not 0. In the sharing module an operation is one step, including what it does between taking
  a counted pointer to a node and dropping it. The loop of a receive from a logic queue may run for ever: \<open>recv_rounds\<close> has
  fuel and tells a loop that is still running from one that has returned. In \<open>logic_reach\<close> the other threads may do to a
  queue what keeps its shape while a receiver waits; they do not release it meanwhile.

  \<^bold>\<open>Not modelled.\<close> The hardware, software and callback queues, channels and their memory (\<^verbatim>\<open>trs_hw_sqcq.c\<close> and its siblings, \<^verbatim>\<open>chan\<close>);
  of the logic queues the lock order and the visibility of stores between processors; the mapping of queue
  memory into processes in \<^verbatim>\<open>trs_proc.c\<close> and the recycling functions that call into the queues, the registry
  of instances (an instance is an argument), the files under \<^verbatim>\<open>/proc\<close>; the framework of \<^verbatim>\<open>xsmem\<close>; and the other
  drivers of the repository, which are mostly register access, interrupt handling and message forwarding
  for hardware that HOL has no model of.
\<close>

end
